(* ===== verification/Sim_Prelude.thy ===== *)
theory Sim_Prelude
  imports
    Complex_Main
    "HOL-Library.Word"
    "HOL-Library.Monad_Syntax"
    "HOL-Library.AList"
    "HOL-Library.Multiset"
begin

unbundle bit_operations_syntax

text \<open>
  Shared vocabulary of the development.

  \<^item> Machine integers: \<open>u32\<close> and \<open>u64\<close> are the C++ types \<^verbatim>\<open>unsigned\<close> and
    \<^verbatim>\<open>unsigned long long\<close> (\<^verbatim>\<open>new_addr_type\<close>, \<^verbatim>\<open>address_type\<close>) with their wrap-around.
  \<^item> Bit sets: a \<^verbatim>\<open>std::bitset<N>\<close> is an \<open>N word\<close>; \<open>bcount\<close> is its \<^verbatim>\<open>count()\<close>.
  \<^item> Failures: a computation that trips a C++ \<^verbatim>\<open>assert\<close> or calls \<^verbatim>\<open>abort()\<close> returns
    \<open>None\<close>; \<open>guard\<close> is the assert itself. Code that returns has value \<open>Some\<close>.
  \<^item> Three contracts used by several components: \<open>step_system\<close> (an invariant kept by every
    event of a state machine), \<open>live_system\<close> (and every admitted event succeeds) and \<open>bounded_fifo\<close> (a queue against
    its list of elements).
\<close>

section \<open>Machine integers and bit sets\<close>

type_synonym u32 = "32 word"
type_synonym u64 = "64 word"
type_synonym byte_mask = "128 word"
type_synonym sector_mask = "4 word"
type_synonym warp_mask = "32 word"

named_theorems frame_simps \<open>fields an operation leaves alone\<close>
named_theorems inv_intros \<open>preservation of a component's invariant\<close>

definition bcount :: "'a::len word \<Rightarrow> nat" where
  "bcount w = length (filter (bit w) [0..<LENGTH('a)])"

lemma bcount_0 [simp]: "bcount 0 = 0"
  by (simp add: bcount_def)

lemma bcount_pos_iff: "0 < bcount w \<longleftrightarrow> w \<noteq> 0"
proof -
  have "bcount w = 0 \<longleftrightarrow> (\<forall>i < LENGTH('a). \<not> bit w i)" for w :: "'a::len word"
    by (auto simp: bcount_def filter_empty_conv)
  moreover have "(\<forall>i < LENGTH('a). \<not> bit w i) \<longleftrightarrow> w = 0" for w :: "'a::len word"
    by (auto intro!: bit_word_eqI)
  ultimately show ?thesis by (metis not_gr_zero)
qed

text \<open>Clearing the low bits of a word.\<close>

lemma and_not_mask: "w AND NOT (mask n) = push_bit n (drop_bit n w)" for w :: "'a::len word"
  by (rule bit_word_eqI) (auto simp: bit_simps)

lemma unat_drop_bit_div: "unat (drop_bit n w) = unat w div 2 ^ n" for w :: "'a::len word"
  unfolding unat_drop_bit_eq by (rule drop_bit_eq_div)

lemma unat_push_drop: "unat (push_bit n (drop_bit n w)) = unat w div 2 ^ n * 2 ^ n" for w :: "'a::len word"
proof -
  have "unat w div 2 ^ n * 2 ^ n \<le> unat w" by (rule div_times_less_eq_dividend)
  also have "\<dots> < 2 ^ LENGTH('a)" by (rule unsigned_less)
  finally have "take_bit LENGTH('a) (unat w div 2 ^ n * 2 ^ n) = unat w div 2 ^ n * 2 ^ n"
    by (rule take_bit_nat_eq_self)
  then show ?thesis
    unfolding unsigned_push_bit_eq unat_drop_bit_div push_bit_eq_mult [of n "unat w div 2 ^ n"] .
qed

lemma unat_and_not_mask: "unat (w AND NOT (mask n)) = unat w div 2 ^ n * 2 ^ n" for w :: "'a::len word"
  by (simp add: and_not_mask unat_push_drop)

lemma div_eq_1_iff: "0 < d \<Longrightarrow> x div d = 1 \<longleftrightarrow> d \<le> x \<and> x < 2 * d" for d x :: nat
proof
  assume d: "0 < d" and "x div d = 1"
  then have "x = d + x mod d" using div_mult_mod_eq [of x d] by simp
  then show "d \<le> x \<and> x < 2 * d" using mod_less_divisor [OF d, of x] by linarith
qed (auto intro: div_nat_eqI)

lemma and_not_mask_le: "j \<le> k \<Longrightarrow> (a AND NOT (mask j)) AND NOT (mask k) = a AND NOT (mask k)"
  for a :: "'a::len word"
  by (rule bit_word_eqI) (auto simp: bit_simps)

text \<open>A \<^verbatim>\<open>static_assert\<close>-free guard: \<^verbatim>\<open>assert(b)\<close>.\<close>

definition guard :: "bool \<Rightarrow> unit option" where
  "guard b = (if b then Some () else None)"

lemma guard_simps [simp]: "guard True = Some ()" "guard False = None"
  by (simp_all add: guard_def)

lemma guard_eq_Some [simp]: "guard b = Some u \<longleftrightarrow> b"
  by (simp add: guard_def)

lemma bind_guard_eq_Some [simp]:
  "Option.bind (guard b) f = Some y \<longleftrightarrow> b \<and> f () = Some y"
  by (simp add: guard_def)

section \<open>Lists and association lists\<close>

lemma sum_list_map_update:
  fixes f :: "'a \<Rightarrow> nat"
  assumes "i < length xs"
  shows "sum_list (map f (xs[i := x])) + f (xs ! i) = sum_list (map f xs) + f x"
  using assms
proof (induction xs arbitrary: i)
  case (Cons a xs)
  then show ?case by (cases i) auto
qed simp

lemma length_filter_update:
  assumes "i < length xs"
  shows "length (filter P (xs[i := x])) + (if P (xs ! i) then 1 else 0) =
    length (filter P xs) + (if P x then 1 else 0)"
  using assms
proof (induction xs arbitrary: i)
  case (Cons a xs)
  show ?case
  proof (cases i)
    case 0
    then show ?thesis by simp
  next
    case (Suc j)
    with Cons show ?thesis by (auto split: if_splits)
  qed
qed simp

lemma map_of_alist_update [simp]: "map_of (AList.update k v al) = (map_of al)(k \<mapsto> v)"
  by (simp add: update_conv')

lemma map_of_alist_delete [simp]: "map_of (AList.delete k al) = (map_of al)(k := None)"
  by (simp add: delete_conv')

lemma distinct_keys_update: "distinct (map fst al) \<Longrightarrow> distinct (map fst (AList.update k v al))"
  by (rule distinct_update)

lemma distinct_keys_delete: "distinct (map fst al) \<Longrightarrow> distinct (map fst (AList.delete k al))"
  by (rule distinct_delete)

lemma length_alist_update:
  "length (AList.update k v al) = length al + (if map_of al k = None then 1 else 0)"
  by (induction al) auto

lemma map_of_None_iff: "map_of al k = None \<longleftrightarrow> k \<notin> fst ` set al"
  by (simp add: map_of_eq_None_iff)

section \<open>State machines that keep an invariant\<close>

text \<open>
  \<open>step s e\<close> is the state after event \<open>e\<close> (\<open>None\<close> when the code asserts). The locale turns
  "every operation keeps the invariant" into "every run keeps it".
\<close>

fun run :: "('s \<Rightarrow> 'e \<Rightarrow> 's option) \<Rightarrow> 's \<Rightarrow> 'e list \<Rightarrow> 's option" where
  "run step s [] = Some s"
| "run step s (e # es) = (case step s e of None \<Rightarrow> None | Some s' \<Rightarrow> run step s' es)"

lemma run_append:
  "run step s (es @ fs) = (case run step s es of None \<Rightarrow> None | Some s' \<Rightarrow> run step s' fs)"
  by (induction es arbitrary: s) (auto split: option.splits)

text \<open>The protocol \<open>ok\<close> of the callers, checked along a run.\<close>

fun ok_run :: "('s \<Rightarrow> 'e \<Rightarrow> 's option) \<Rightarrow> ('s \<Rightarrow> 'e \<Rightarrow> bool) \<Rightarrow> 's \<Rightarrow> 'e list \<Rightarrow> bool" where
  "ok_run step ok s [] = True"
| "ok_run step ok s (e # es) = (ok s e \<and> (case step s e of None \<Rightarrow> True | Some s' \<Rightarrow> ok_run step ok s' es))"

locale step_system =
  fixes step :: "'s \<Rightarrow> 'e \<Rightarrow> 's option"
    and inv :: "'s \<Rightarrow> bool"
    and ok :: "'s \<Rightarrow> 'e \<Rightarrow> bool"
  assumes step_inv: "\<And>s e s'. inv s \<Longrightarrow> ok s e \<Longrightarrow> step s e = Some s' \<Longrightarrow> inv s'"
begin

text \<open>A run whose every event respects the callers' protocol \<open>ok\<close>.\<close>

fun run_ok :: "'s \<Rightarrow> 'e list \<Rightarrow> bool" where
  "run_ok s [] = True"
| "run_ok s (e # es) = (ok s e \<and> (\<forall>s'. step s e = Some s' \<longrightarrow> run_ok s' es))"

lemma run_ok_iff: "run_ok s es \<longleftrightarrow> ok_run step ok s es"
  by (induction es arbitrary: s) (auto split: option.splits)

lemma run_inv: "inv s \<Longrightarrow> run_ok s es \<Longrightarrow> run step s es = Some s' \<Longrightarrow> inv s'"
proof (induction es arbitrary: s)
  case (Cons e es)
  then show ?case by (auto split: option.splits intro: step_inv)
qed simp

end

text \<open>A machine whose every permitted event also succeeds never trips an assertion.\<close>

locale live_system = step_system +
  assumes step_ok: "\<And>s e. inv s \<Longrightarrow> ok s e \<Longrightarrow> step s e \<noteq> None"
begin

lemma run_live: "inv s \<Longrightarrow> run_ok s es \<Longrightarrow> \<exists>s'. run step s es = Some s' \<and> inv s'"
proof (induction es arbitrary: s)
  case (Cons e es)
  then obtain s1 where s1: "step s e = Some s1" using step_ok by fastforce
  moreover have "inv s1" using Cons.prems s1 by (auto intro: step_inv)
  ultimately show ?case using Cons by simp
qed simp

end

text \<open>A loop whose body can abort, and its rule for invariants.\<close>

fun fold_opt :: "('a \<Rightarrow> 's \<Rightarrow> 's option) \<Rightarrow> 'a list \<Rightarrow> 's \<Rightarrow> 's option" where
  "fold_opt f [] s = Some s"
| "fold_opt f (x # xs) s = do { s' \<leftarrow> f x s; fold_opt f xs s' }"

lemma fold_opt_rule:
  assumes "\<And>x s. x \<in> set xs \<Longrightarrow> P s \<Longrightarrow> \<exists>s'. f x s = Some s' \<and> P s'" and "P s"
  shows "\<exists>s'. fold_opt f xs s = Some s' \<and> P s'"
  using assms
proof (induction xs arbitrary: s)
  case (Cons x xs)
  from Cons.prems(1) [of x s] Cons.prems(2) obtain s1 where "f x s = Some s1" "P s1" by auto
  with Cons.IH [of s1] Cons.prems(1) show ?case by auto
qed simp

lemma fold_opt_append: "fold_opt f (xs @ ys) s = Option.bind (fold_opt f xs s) (fold_opt f ys)"
  by (induction xs arbitrary: s) (auto split: Option.bind_splits)

section \<open>Bounded queues\<close>

text \<open>The specification: a list of at most \<open>n\<close> elements. \<open>Some x\<close> pushes, \<open>None\<close> pops.\<close>

fun list_drive :: "nat \<Rightarrow> 'a list \<Rightarrow> 'a option list \<Rightarrow> ('a list \<times> 'a list) option" where
  "list_drive n xs [] = Some (xs, [])"
| "list_drive n xs (Some x # ops) = (if n \<le> length xs then None else list_drive n (xs @ [x]) ops)"
| "list_drive n xs (None # ops) = (case xs of [] \<Rightarrow> None
     | y # xs' \<Rightarrow> map_option (\<lambda>(zs, ys). (zs, y # ys)) (list_drive n xs' ops))"

locale bounded_fifo =
  fixes contents :: "'q \<Rightarrow> 'a list"
    and cap :: "'q \<Rightarrow> nat"
    and full :: "'q \<Rightarrow> bool"
    and push :: "'q \<Rightarrow> 'a \<Rightarrow> 'q option"
    and pop :: "'q \<Rightarrow> ('a \<times> 'q) option"
    and inv :: "'q \<Rightarrow> bool"
  assumes full_iff: "inv q \<Longrightarrow> full q \<longleftrightarrow> length (contents q) = cap q"
    and bounded: "inv q \<Longrightarrow> length (contents q) \<le> cap q"
    and push_full: "inv q \<Longrightarrow> full q \<Longrightarrow> push q x = None"
    and push_ok: "inv q \<Longrightarrow> \<not> full q \<Longrightarrow>
      \<exists>q'. push q x = Some q' \<and> inv q' \<and> contents q' = contents q @ [x] \<and> cap q' = cap q"
    and pop_empty: "inv q \<Longrightarrow> contents q = [] \<Longrightarrow> pop q = None"
    and pop_ok: "inv q \<Longrightarrow> contents q = x # xs \<Longrightarrow>
      \<exists>q'. pop q = Some (x, q') \<and> inv q' \<and> contents q' = xs \<and> cap q' = cap q"
begin

fun push_all :: "'q \<Rightarrow> 'a list \<Rightarrow> 'q option" where
  "push_all q [] = Some q"
| "push_all q (x # xs) = (case push q x of None \<Rightarrow> None | Some q' \<Rightarrow> push_all q' xs)"

fun pop_n :: "'q \<Rightarrow> nat \<Rightarrow> ('a list \<times> 'q) option" where
  "pop_n q 0 = Some ([], q)"
| "pop_n q (Suc n) = (case pop q of None \<Rightarrow> None
     | Some (x, q') \<Rightarrow> (case pop_n q' n of None \<Rightarrow> None | Some (xs, q'') \<Rightarrow> Some (x # xs, q'')))"

lemma push_all_ok:
  "inv q \<Longrightarrow> length (contents q) + length xs \<le> cap q \<Longrightarrow>
    \<exists>q'. push_all q xs = Some q' \<and> inv q' \<and> contents q' = contents q @ xs \<and> cap q' = cap q"
proof (induction xs arbitrary: q)
  case (Cons x xs)
  then have "\<not> full q" by (simp add: full_iff)
  with Cons.prems obtain q1 where q1: "push q x = Some q1" "inv q1"
      "contents q1 = contents q @ [x]" "cap q1 = cap q"
    using push_ok by blast
  with Cons.IH [of q1] Cons.prems show ?case by auto
qed simp

lemma pop_n_ok:
  "inv q \<Longrightarrow> contents q = xs @ ys \<Longrightarrow>
    \<exists>q'. pop_n q (length xs) = Some (xs, q') \<and> inv q' \<and> contents q' = ys \<and> cap q' = cap q"
proof (induction xs arbitrary: q)
  case (Cons x xs)
  then obtain q1 where q1: "pop q = Some (x, q1)" "inv q1" "contents q1 = xs @ ys" "cap q1 = cap q"
    using pop_ok [of q x "xs @ ys"] by auto
  from Cons.IH [OF q1(2,3)] q1 show ?case by auto
qed simp

text \<open>First in, first out: what a run of pushes stored, as many pops return in order.\<close>

lemma fifo_order:
  assumes "inv q" and "contents q = []" and "length xs \<le> cap q"
  obtains q1 q2 where "push_all q xs = Some q1" and "pop_n q1 (length xs) = Some (xs, q2)"
    and "contents q2 = []" and "inv q2"
proof -
  obtain q1 where q1: "push_all q xs = Some q1" "inv q1" "contents q1 = xs"
    using push_all_ok [of q xs] assms by auto
  then show ?thesis using pop_n_ok [of q1 xs "[]"] that by auto
qed

text \<open>A run of pushes and pops with the values popped; \<open>None\<close> when a push or a pop fails.\<close>

fun drive :: "'q \<Rightarrow> 'a option list \<Rightarrow> ('q \<times> 'a list) option" where
  "drive q [] = Some (q, [])"
| "drive q (Some x # ops) = (case push q x of None \<Rightarrow> None | Some q' \<Rightarrow> drive q' ops)"
| "drive q (None # ops) = (case pop q of None \<Rightarrow> None
     | Some (y, q') \<Rightarrow> map_option (\<lambda>(q'', ys). (q'', y # ys)) (drive q' ops))"

lemma drive_refines:
  "inv q \<Longrightarrow> (case drive q ops of
      None \<Rightarrow> list_drive (cap q) (contents q) ops = None
    | Some (q', ys) \<Rightarrow> inv q' \<and> list_drive (cap q) (contents q) ops = Some (contents q', ys))"
proof (induction ops arbitrary: q)
  case (Cons op ops)
  show ?case
  proof (cases op)
    case (Some x)
    show ?thesis
    proof (cases "full q")
      case True
      then have "cap q \<le> length (contents q)" using Cons.prems full_iff by simp
      then show ?thesis using Cons.prems Some True by (simp add: push_full)
    next
      case False
      then have "length (contents q) < cap q" using Cons.prems full_iff bounded le_neq_implies_less by blast
      moreover obtain q1 where "push q x = Some q1" "inv q1" "contents q1 = contents q @ [x]" "cap q1 = cap q"
        using push_ok [OF Cons.prems False] by blast
      ultimately show ?thesis using Cons.IH [of q1] Some by (auto split: option.splits)
    qed
  next
    case None
    show ?thesis
    proof (cases "contents q")
      case Nil
      then show ?thesis using None pop_empty [OF Cons.prems] by simp
    next
      case (Cons y ys)
      then obtain q1 where "pop q = Some (y, q1)" "inv q1" "contents q1 = ys" "cap q1 = cap q"
        using pop_ok [OF Cons.prems] by blast
      with Cons.IH [of q1] None Cons show ?thesis by (auto split: option.splits)
    qed
  qed
qed simp

end

section \<open>Single-precision arithmetic\<close>

text \<open>
  \<^verbatim>\<open>tag_array::probe\<close> compares a percentage computed in \<^verbatim>\<open>float\<close>. \<open>f32_round\<close> is rounding to
  the nearest binary32 value, ties to even, on non-negative rationals (24 significant bits; the
  exponent range is not exceeded by the values the code computes).
\<close>

fun bitlen :: "nat \<Rightarrow> nat" where
  "bitlen n = (if n = 0 then 0 else Suc (bitlen (n div 2)))"

declare bitlen.simps [simp del]

definition rat_ilog2 :: "rat \<Rightarrow> int" where
  "rat_ilog2 q = (if 1 \<le> q then int (bitlen (nat \<lfloor>q\<rfloor>)) - 1
     else - int (bitlen (nat (\<lceil>1 / q\<rceil> - 1))))"

definition round_half_even :: "rat \<Rightarrow> int" where
  "round_half_even q = (let f = \<lfloor>q\<rfloor>; r = q - of_int f in
     if r < 1 / 2 then f else if 1 / 2 < r then f + 1 else if even f then f else f + 1)"

definition scale2 :: "int \<Rightarrow> rat" where
  "scale2 e = (if 0 \<le> e then 2 ^ nat e else 1 / 2 ^ nat (- e))"

definition f32_round :: "rat \<Rightarrow> rat" where
  "f32_round q = (if q \<le> 0 then 0 else
     let e = rat_ilog2 q - 23 in of_int (round_half_even (q / scale2 e)) * scale2 e)"

lemma round_half_even_nonneg: "0 \<le> q \<Longrightarrow> 0 \<le> round_half_even q"
  by (auto simp: round_half_even_def Let_def)

lemma scale2_pos: "0 < scale2 e"
  by (simp add: scale2_def)

lemma f32_round_nonneg: "0 \<le> f32_round q"
  using scale2_pos [of "rat_ilog2 q - 23"] round_half_even_nonneg
  by (auto simp: f32_round_def Let_def intro!: mult_nonneg_nonneg less_imp_le)

end
