(* ===== verification/Cache_Types.thy ===== *)
theory Cache_Types
  imports Sim_Prelude
begin

text \<open>
  The enumerations and plain structures of \<^verbatim>\<open>src/gpgpu-sim/gpu-cache.h\<close> and
  \<^verbatim>\<open>src/abstract_hardware_model.h\<close> that every cache component shares: block states, request
  outcomes, reservation-failure reasons, cache events and the description of an evicted block.
  Each enumeration used as an array index gets its C++ integer value (\<open>status_code\<close>,
  \<open>fail_code\<close>, \<open>access_code\<close>) and is ordered by it.
\<close>

section \<open>Enumerations\<close>

datatype cache_block_state = INVALID | RESERVED | VALID | MODIFIED

datatype cache_request_status =
  HIT | HIT_RESERVED | MISS | RESERVATION_FAIL | SECTOR_MISS | MSHR_HIT

datatype cache_reservation_fail_reason =
  LINE_ALLOC_FAIL | MISS_QUEUE_FULL | MSHR_ENRTY_FAIL | MSHR_MERGE_ENRTY_FAIL | MSHR_RW_PENDING

datatype cache_event_type =
  WRITE_BACK_REQUEST_SENT | READ_REQUEST_SENT | WRITE_REQUEST_SENT | WRITE_ALLOCATE_SENT

datatype mem_access_type =
  GLOBAL_ACC_R | LOCAL_ACC_R | CONST_ACC_R | TEXTURE_ACC_R | GLOBAL_ACC_W | LOCAL_ACC_W
| L1_WRBK_ACC | L2_WRBK_ACC | INST_ACC_R | L1_WR_ALLOC_R | L2_WR_ALLOC_R

fun status_code :: "cache_request_status \<Rightarrow> nat" where
  "status_code HIT = 0"
| "status_code HIT_RESERVED = 1"
| "status_code MISS = 2"
| "status_code RESERVATION_FAIL = 3"
| "status_code SECTOR_MISS = 4"
| "status_code MSHR_HIT = 5"

fun fail_code :: "cache_reservation_fail_reason \<Rightarrow> nat" where
  "fail_code LINE_ALLOC_FAIL = 0"
| "fail_code MISS_QUEUE_FULL = 1"
| "fail_code MSHR_ENRTY_FAIL = 2"
| "fail_code MSHR_MERGE_ENRTY_FAIL = 3"
| "fail_code MSHR_RW_PENDING = 4"

fun access_code :: "mem_access_type \<Rightarrow> nat" where
  "access_code GLOBAL_ACC_R = 0"
| "access_code LOCAL_ACC_R = 1"
| "access_code CONST_ACC_R = 2"
| "access_code TEXTURE_ACC_R = 3"
| "access_code GLOBAL_ACC_W = 4"
| "access_code LOCAL_ACC_W = 5"
| "access_code L1_WRBK_ACC = 6"
| "access_code L2_WRBK_ACC = 7"
| "access_code INST_ACC_R = 8"
| "access_code L1_WR_ALLOC_R = 9"
| "access_code L2_WR_ALLOC_R = 10"

abbreviation (input) NUM_CACHE_REQUEST_STATUS :: nat where "NUM_CACHE_REQUEST_STATUS \<equiv> 6"
abbreviation (input) NUM_CACHE_RESERVATION_FAIL_STATUS :: nat where
  "NUM_CACHE_RESERVATION_FAIL_STATUS \<equiv> 5"
abbreviation (input) NUM_MEM_ACCESS_TYPE :: nat where "NUM_MEM_ACCESS_TYPE \<equiv> 11"

lemma status_code_inj [simp]: "status_code a = status_code b \<longleftrightarrow> a = b"
  by (cases a; cases b) simp_all

lemma fail_code_inj [simp]: "fail_code a = fail_code b \<longleftrightarrow> a = b"
  by (cases a; cases b) simp_all

lemma access_code_inj [simp]: "access_code a = access_code b \<longleftrightarrow> a = b"
  by (cases a; cases b) simp_all

lemma status_code_less [simp]: "status_code a < NUM_CACHE_REQUEST_STATUS"
  by (cases a) simp_all

lemma fail_code_less [simp]: "fail_code a < NUM_CACHE_RESERVATION_FAIL_STATUS"
  by (cases a) simp_all

lemma access_code_less [simp]: "access_code a < NUM_MEM_ACCESS_TYPE"
  by (cases a) simp_all

text \<open>C++ compares enumerators by their integer values.\<close>

instantiation cache_request_status :: linorder
begin

definition less_eq_cache_request_status :: "cache_request_status \<Rightarrow> cache_request_status \<Rightarrow> bool" where
  "less_eq_cache_request_status a b \<longleftrightarrow> status_code a \<le> status_code b"

definition less_cache_request_status :: "cache_request_status \<Rightarrow> cache_request_status \<Rightarrow> bool" where
  "less_cache_request_status a b \<longleftrightarrow> status_code a < status_code b"

instance
  by standard (auto simp: less_eq_cache_request_status_def less_cache_request_status_def)

end

instantiation mem_access_type :: linorder
begin

definition less_eq_mem_access_type :: "mem_access_type \<Rightarrow> mem_access_type \<Rightarrow> bool" where
  "less_eq_mem_access_type a b \<longleftrightarrow> access_code a \<le> access_code b"

definition less_mem_access_type :: "mem_access_type \<Rightarrow> mem_access_type \<Rightarrow> bool" where
  "less_mem_access_type a b \<longleftrightarrow> access_code a < access_code b"

instance
  by standard (auto simp: less_eq_mem_access_type_def less_mem_access_type_def)

end

section \<open>Events\<close>

record evicted_block_info =
  ev_block_addr :: u64
  ev_modified_size :: nat
  ev_byte_mask :: byte_mask
  ev_sector_mask :: sector_mask

definition evicted_block_info_init :: evicted_block_info where
  "evicted_block_info_init =
     \<lparr>ev_block_addr = 0, ev_modified_size = 0, ev_byte_mask = 0, ev_sector_mask = 0\<rparr>"

record cache_event =
  m_cache_event_type :: cache_event_type
  m_evicted_block :: evicted_block_info

text \<open>The one-argument constructor leaves the default (empty) eviction record.\<close>

definition cache_event1 :: "cache_event_type \<Rightarrow> cache_event" where
  "cache_event1 t = \<lparr>m_cache_event_type = t, m_evicted_block = evicted_block_info_init\<rparr>"

definition cache_event2 :: "cache_event_type \<Rightarrow> evicted_block_info \<Rightarrow> cache_event" where
  "cache_event2 t e = \<lparr>m_cache_event_type = t, m_evicted_block = e\<rparr>"

lemma cache_event1_type [simp]: "m_cache_event_type (cache_event1 t) = t"
  by (simp add: cache_event1_def)

lemma cache_event2_simps [simp]:
  "m_cache_event_type (cache_event2 t e) = t" "m_evicted_block (cache_event2 t e) = e"
  by (simp_all add: cache_event2_def)

lemma cache_event1_evicted [simp]: "m_evicted_block (cache_event1 t) = evicted_block_info_init"
  by (simp add: cache_event1_def)

definition was_write_sent :: "cache_event list \<Rightarrow> bool" where
  "was_write_sent events = (\<exists>e \<in> set events. m_cache_event_type e = WRITE_REQUEST_SENT)"

text \<open>\<open>was_writeback_sent\<close> also copies the first write-back event into its reference argument.\<close>

fun was_writeback_sent :: "cache_event list \<Rightarrow> cache_event \<Rightarrow> bool \<times> cache_event" where
  "was_writeback_sent [] wb_event = (False, wb_event)"
| "was_writeback_sent (e # es) wb_event =
     (if m_cache_event_type e = WRITE_BACK_REQUEST_SENT then (True, e)
      else was_writeback_sent es wb_event)"

definition was_read_sent :: "cache_event list \<Rightarrow> bool" where
  "was_read_sent events = (\<exists>e \<in> set events. m_cache_event_type e = READ_REQUEST_SENT)"

definition was_writeallocate_sent :: "cache_event list \<Rightarrow> bool" where
  "was_writeallocate_sent events = (\<exists>e \<in> set events. m_cache_event_type e = WRITE_ALLOCATE_SENT)"

lemma was_writeback_sent_iff:
  "fst (was_writeback_sent es d) \<longleftrightarrow> (\<exists>e \<in> set es. m_cache_event_type e = WRITE_BACK_REQUEST_SENT)"
  by (induction es) auto

end
