(* ===== verification/Cache_Stats.thy ===== *)
theory Cache_Stats
  imports Cache_Types
begin

text \<open>
  \<^verbatim>\<open>cache_stats\<close>, \<^verbatim>\<open>cache_sub_stats\<close> and \<^verbatim>\<open>cache_sub_stats_pw\<close> of \<^verbatim>\<open>src/gpgpu-sim/gpu-cache.h\<close> and
  \<^verbatim>\<open>gpu-cache.cc\<close>: per-stream counter tables indexed by access type and outcome, their aggregation
  and the totals the simulator reports. A \<^verbatim>\<open>std::map\<close> from streams to tables is an association list
  with one pair per key; \<^verbatim>\<open>map.at\<close> on a missing key throws, which is \<open>None\<close> here.
\<close>

type_synonym stat_table = "u64 list list"
type_synonym stat_map = "(u64 \<times> stat_table) list"

record cache_stats =
  m_stats :: stat_map
  m_stats_pw :: stat_map
  m_fail_stats :: stat_map
  m_cache_port_available_cycles :: u64
  m_cache_data_port_busy_cycles :: u64
  m_cache_fill_port_busy_cycles :: u64

definition cache_stats_new :: cache_stats where
  "cache_stats_new = \<lparr>m_stats = [], m_stats_pw = [], m_fail_stats = [],
     m_cache_port_available_cycles = 0, m_cache_data_port_busy_cycles = 0, m_cache_fill_port_busy_cycles = 0\<rparr>"

definition stats_clear :: "cache_stats \<Rightarrow> cache_stats" where
  "stats_clear cs = cs\<lparr>m_stats := [], m_stats_pw := [], m_fail_stats := [],
     m_cache_port_available_cycles := 0, m_cache_data_port_busy_cycles := 0, m_cache_fill_port_busy_cycles := 0\<rparr>"

definition stats_clear_pw :: "cache_stats \<Rightarrow> cache_stats" where
  "stats_clear_pw cs = cs\<lparr>m_stats_pw := []\<rparr>"

definition check_valid :: "int \<Rightarrow> int \<Rightarrow> bool" where
  "check_valid ty status = (if 0 \<le> ty \<and> ty < int NUM_MEM_ACCESS_TYPE \<and> 0 \<le> status \<and>
     status < int NUM_CACHE_REQUEST_STATUS then True else False)"

definition check_fail_valid :: "int \<Rightarrow> int \<Rightarrow> bool" where
  "check_fail_valid ty fail = (if 0 \<le> ty \<and> ty < int NUM_MEM_ACCESS_TYPE \<and> 0 \<le> fail \<and>
     fail < int NUM_CACHE_RESERVATION_FAIL_STATUS then True else False)"

section \<open>Counting\<close>

definition zero_table :: "nat \<Rightarrow> stat_table" where
  "zero_table cols = replicate NUM_MEM_ACCESS_TYPE (replicate cols 0)"

definition bump :: "stat_table \<Rightarrow> nat \<Rightarrow> nat \<Rightarrow> stat_table" where
  "bump t i j = t[i := (t ! i)[j := t ! i ! j + 1]]"

definition bump_map :: "nat \<Rightarrow> stat_map \<Rightarrow> u64 \<Rightarrow> nat \<Rightarrow> nat \<Rightarrow> stat_map option" where
  "bump_map cols m streamID i j =
     (let m = (if map_of m streamID = None then AList.update streamID (zero_table cols) m else m)
      in do { t \<leftarrow> map_of m streamID; Some (AList.update streamID (bump t i j) m) })"

definition inc_stats :: "cache_stats \<Rightarrow> int \<Rightarrow> int \<Rightarrow> u64 \<Rightarrow> cache_stats option" where
  "inc_stats cs access_type access_outcome streamID = do {
     guard (check_valid access_type access_outcome);
     m \<leftarrow> bump_map NUM_CACHE_REQUEST_STATUS (m_stats cs) streamID (nat access_type) (nat access_outcome);
     Some (cs\<lparr>m_stats := m\<rparr>) }"

definition inc_stats_pw :: "cache_stats \<Rightarrow> int \<Rightarrow> int \<Rightarrow> u64 \<Rightarrow> cache_stats option" where
  "inc_stats_pw cs access_type access_outcome streamID = do {
     guard (check_valid access_type access_outcome);
     m \<leftarrow> bump_map NUM_CACHE_REQUEST_STATUS (m_stats_pw cs) streamID (nat access_type) (nat access_outcome);
     Some (cs\<lparr>m_stats_pw := m\<rparr>) }"

definition inc_fail_stats :: "cache_stats \<Rightarrow> int \<Rightarrow> int \<Rightarrow> u64 \<Rightarrow> cache_stats option" where
  "inc_fail_stats cs access_type fail_outcome streamID = do {
     guard (check_fail_valid access_type fail_outcome);
     m \<leftarrow> bump_map NUM_CACHE_RESERVATION_FAIL_STATUS (m_fail_stats cs) streamID (nat access_type) (nat fail_outcome);
     Some (cs\<lparr>m_fail_stats := m\<rparr>) }"

definition select_stats_status :: "cache_request_status \<Rightarrow> cache_request_status \<Rightarrow> cache_request_status" where
  "select_stats_status probe access =
     (if probe = HIT_RESERVED \<and> access \<noteq> RESERVATION_FAIL then probe
      else if probe = SECTOR_MISS \<and> access = MISS then probe
      else access)"

text \<open>\<^verbatim>\<open>operator()\<close>.\<close>

definition stats_at :: "cache_stats \<Rightarrow> int \<Rightarrow> int \<Rightarrow> bool \<Rightarrow> u64 \<Rightarrow> u64 option" where
  "stats_at cs access_type access_outcome fail_outcome streamID =
     (if fail_outcome then do {
        guard (check_fail_valid access_type access_outcome);
        t \<leftarrow> map_of (m_fail_stats cs) streamID;
        Some (t ! nat access_type ! nat access_outcome) }
      else do {
        guard (check_valid access_type access_outcome);
        t \<leftarrow> map_of (m_stats cs) streamID;
        Some (t ! nat access_type ! nat access_outcome) })"

definition sample_cache_port_utility :: "cache_stats \<Rightarrow> bool \<Rightarrow> bool \<Rightarrow> cache_stats" where
  "sample_cache_port_utility cs data_port_busy fill_port_busy =
     (let cs = cs\<lparr>m_cache_port_available_cycles := m_cache_port_available_cycles cs + 1\<rparr>;
          cs = (if data_port_busy then cs\<lparr>m_cache_data_port_busy_cycles := m_cache_data_port_busy_cycles cs + 1\<rparr> else cs)
      in if fill_port_busy then cs\<lparr>m_cache_fill_port_busy_cycles := m_cache_fill_port_busy_cycles cs + 1\<rparr> else cs)"

section \<open>Adding two statistics objects\<close>

text \<open>
  The double loop over types and outcomes adds \<^verbatim>\<open>cs(type, status, fail, streamID)\<close> to each cell;
  \<open>add_cells\<close> is the loop, \<open>src\<close> the reads of \<^verbatim>\<open>operator()\<close>.
\<close>

fun add_row :: "(nat \<Rightarrow> u64 option) \<Rightarrow> nat list \<Rightarrow> u64 list \<Rightarrow> u64 list option" where
  "add_row src [] row = Some row"
| "add_row src (j # js) row = do { v \<leftarrow> src j; add_row src js (row[j := row ! j + v]) }"

fun add_cells :: "(nat \<Rightarrow> nat \<Rightarrow> u64 option) \<Rightarrow> nat \<Rightarrow> nat list \<Rightarrow> stat_table \<Rightarrow> stat_table option" where
  "add_cells src cols [] t = Some t"
| "add_cells src cols (i # is) t = do {
     row \<leftarrow> add_row (src i) [0..<cols] (t ! i);
     add_cells src cols is (t[i := row]) }"

text \<open>One of the three loops over the streams of \<^verbatim>\<open>cs\<close>: insert a missing stream, else add to it.\<close>

fun merge_map :: "cache_stats \<Rightarrow> bool \<Rightarrow> nat \<Rightarrow> stat_map \<Rightarrow> stat_map \<Rightarrow> stat_map option" where
  "merge_map cs fail cols [] ret = Some ret"
| "merge_map cs fail cols ((streamID, tab) # rest) ret =
    (case map_of ret streamID of
       None \<Rightarrow> merge_map cs fail cols rest (AList.update streamID tab ret)
     | Some t \<Rightarrow> do {
         t' \<leftarrow> add_cells (\<lambda>ty status. stats_at cs (int ty) (int status) fail streamID) cols [0..<NUM_MEM_ACCESS_TYPE] t;
         merge_map cs fail cols rest (AList.update streamID t' ret) })"

definition stats_plus :: "cache_stats \<Rightarrow> cache_stats \<Rightarrow> cache_stats option" where
  "stats_plus self cs = do {
     let ret = cache_stats_new\<lparr>m_stats := m_stats self, m_stats_pw := m_stats_pw self, m_fail_stats := m_fail_stats self\<rparr>;
     s \<leftarrow> merge_map cs False NUM_CACHE_REQUEST_STATUS (m_stats cs) (m_stats ret);
     pw \<leftarrow> merge_map cs False NUM_CACHE_REQUEST_STATUS (m_stats_pw cs) (m_stats_pw ret);
     f \<leftarrow> merge_map cs True NUM_CACHE_RESERVATION_FAIL_STATUS (m_fail_stats cs) (m_fail_stats ret);
     Some (ret\<lparr>m_stats := s, m_stats_pw := pw, m_fail_stats := f,
       m_cache_port_available_cycles := m_cache_port_available_cycles self + m_cache_port_available_cycles cs,
       m_cache_data_port_busy_cycles := m_cache_data_port_busy_cycles self + m_cache_data_port_busy_cycles cs,
       m_cache_fill_port_busy_cycles := m_cache_fill_port_busy_cycles self + m_cache_fill_port_busy_cycles cs\<rparr>) }"

definition stats_plus_assign :: "cache_stats \<Rightarrow> cache_stats \<Rightarrow> cache_stats option" where
  "stats_plus_assign self cs = do {
     s \<leftarrow> merge_map cs False NUM_CACHE_REQUEST_STATUS (m_stats cs) (m_stats self);
     let self = self\<lparr>m_stats := s\<rparr>;
     pw \<leftarrow> merge_map cs False NUM_CACHE_REQUEST_STATUS (m_stats_pw cs) (m_stats_pw self);
     let self = self\<lparr>m_stats_pw := pw\<rparr>;
     f \<leftarrow> merge_map cs True NUM_CACHE_RESERVATION_FAIL_STATUS (m_fail_stats cs) (m_fail_stats self);
     let self = self\<lparr>m_fail_stats := f\<rparr>;
     Some (self\<lparr>
       m_cache_port_available_cycles := m_cache_port_available_cycles self + m_cache_port_available_cycles cs,
       m_cache_data_port_busy_cycles := m_cache_data_port_busy_cycles self + m_cache_data_port_busy_cycles cs,
       m_cache_fill_port_busy_cycles := m_cache_fill_port_busy_cycles self + m_cache_fill_port_busy_cycles cs\<rparr>) }"

section \<open>Totals\<close>

definition get_stats_total :: "cache_stats \<Rightarrow> int list \<Rightarrow> int list \<Rightarrow> u64 option" where
  "get_stats_total cs access_type access_status =
     (if m_stats cs \<noteq> [] \<and> \<not> (\<forall>i \<in> set access_type. \<forall>j \<in> set access_status. check_valid i j) then None
      else Some (\<Sum>(s, t) \<leftarrow> m_stats cs. \<Sum>i \<leftarrow> access_type. \<Sum>j \<leftarrow> access_status. t ! nat i ! nat j))"

record cache_sub_stats =
  accesses :: u64
  misses :: u64
  pending_hits :: u64
  res_fails :: u64
  port_available_cycles :: u64
  data_port_busy_cycles :: u64
  fill_port_busy_cycles :: u64

definition sub_stats_clear :: cache_sub_stats where
  "sub_stats_clear = \<lparr>accesses = 0, misses = 0, pending_hits = 0, res_fails = 0,
     port_available_cycles = 0, data_port_busy_cycles = 0, fill_port_busy_cycles = 0\<rparr>"

definition sub_stats_plus :: "cache_sub_stats \<Rightarrow> cache_sub_stats \<Rightarrow> cache_sub_stats" where
  "sub_stats_plus a cs = sub_stats_clear\<lparr>accesses := accesses a + accesses cs, misses := misses a + misses cs,
     pending_hits := pending_hits a + pending_hits cs, res_fails := res_fails a + res_fails cs,
     port_available_cycles := port_available_cycles a + port_available_cycles cs,
     data_port_busy_cycles := data_port_busy_cycles a + data_port_busy_cycles cs,
     fill_port_busy_cycles := fill_port_busy_cycles a + fill_port_busy_cycles cs\<rparr>"

definition sub_stats_count :: "cache_sub_stats \<Rightarrow> nat \<Rightarrow> u64 \<Rightarrow> cache_sub_stats" where
  "sub_stats_count css status v =
     (let css = (if status \<in> {status_code HIT, status_code MISS, status_code SECTOR_MISS, status_code HIT_RESERVED}
                 then css\<lparr>accesses := accesses css + v\<rparr> else css);
          css = (if status \<in> {status_code MISS, status_code SECTOR_MISS} then css\<lparr>misses := misses css + v\<rparr> else css);
          css = (if status = status_code HIT_RESERVED then css\<lparr>pending_hits := pending_hits css + v\<rparr> else css)
      in if status = status_code RESERVATION_FAIL then css\<lparr>res_fails := res_fails css + v\<rparr> else css)"

definition get_sub_stats :: "cache_stats \<Rightarrow> cache_sub_stats" where
  "get_sub_stats cs =
     (let css = fold (\<lambda>(s, t). fold (\<lambda>ty. fold (\<lambda>st css. sub_stats_count css st (t ! ty ! st))
            [0..<NUM_CACHE_REQUEST_STATUS]) [0..<NUM_MEM_ACCESS_TYPE]) (m_stats cs) sub_stats_clear
      in css\<lparr>port_available_cycles := m_cache_port_available_cycles cs,
             data_port_busy_cycles := m_cache_data_port_busy_cycles cs,
             fill_port_busy_cycles := m_cache_fill_port_busy_cycles cs\<rparr>)"

text \<open>The per-window totals; reads are global, constant and instruction reads, writes global writes.\<close>

record cache_sub_stats_pw =
  pw_accesses :: u32
  write_misses :: u32
  write_hits :: u32
  write_pending_hits :: u32
  write_res_fails :: u32
  read_misses :: u32
  read_hits :: u32
  read_pending_hits :: u32
  read_res_fails :: u32

definition sub_stats_pw_clear :: cache_sub_stats_pw where
  "sub_stats_pw_clear = \<lparr>pw_accesses = 0, write_misses = 0, write_hits = 0, write_pending_hits = 0,
     write_res_fails = 0, read_misses = 0, read_hits = 0, read_pending_hits = 0, read_res_fails = 0\<rparr>"

definition sub_stats_pw_plus_assign :: "cache_sub_stats_pw \<Rightarrow> cache_sub_stats_pw \<Rightarrow> cache_sub_stats_pw" where
  "sub_stats_pw_plus_assign a css = a\<lparr>pw_accesses := pw_accesses a + pw_accesses css,
     write_misses := write_misses a + write_misses css, read_misses := read_misses a + read_misses css,
     write_pending_hits := write_pending_hits a + write_pending_hits css,
     read_pending_hits := read_pending_hits a + read_pending_hits css,
     write_res_fails := write_res_fails a + write_res_fails css,
     read_res_fails := read_res_fails a + read_res_fails css\<rparr>"

definition sub_stats_pw_plus :: "cache_sub_stats_pw \<Rightarrow> cache_sub_stats_pw \<Rightarrow> cache_sub_stats_pw" where
  "sub_stats_pw_plus a cs = sub_stats_pw_clear\<lparr>pw_accesses := pw_accesses a + pw_accesses cs,
     write_misses := write_misses a + write_misses cs, read_misses := read_misses a + read_misses cs,
     write_pending_hits := write_pending_hits a + write_pending_hits cs,
     read_pending_hits := read_pending_hits a + read_pending_hits cs,
     write_res_fails := write_res_fails a + write_res_fails cs,
     read_res_fails := read_res_fails a + read_res_fails cs\<rparr>"

definition pw_read_type :: "nat \<Rightarrow> bool" where
  "pw_read_type ty = (ty \<in> {access_code GLOBAL_ACC_R, access_code CONST_ACC_R, access_code INST_ACC_R})"

definition sub_stats_pw_count :: "cache_sub_stats_pw \<Rightarrow> nat \<Rightarrow> nat \<Rightarrow> u64 \<Rightarrow> cache_sub_stats_pw" where
  "sub_stats_pw_count css ty status v =
     (let rd = pw_read_type ty; wr = (ty = access_code GLOBAL_ACC_W); v = ucast v;
          css = (if status \<in> {status_code HIT, status_code MISS, status_code SECTOR_MISS, status_code HIT_RESERVED}
                 then css\<lparr>pw_accesses := pw_accesses css + v\<rparr> else css);
          css = (if status = status_code HIT then
                   (if rd then css\<lparr>read_hits := read_hits css + v\<rparr>
                    else if wr then css\<lparr>write_hits := write_hits css + v\<rparr> else css) else css);
          css = (if status \<in> {status_code MISS, status_code SECTOR_MISS} then
                   (if rd then css\<lparr>read_misses := read_misses css + v\<rparr>
                    else if wr then css\<lparr>write_misses := write_misses css + v\<rparr> else css) else css);
          css = (if status = status_code HIT_RESERVED then
                   (if rd then css\<lparr>read_pending_hits := read_pending_hits css + v\<rparr>
                    else if wr then css\<lparr>write_pending_hits := write_pending_hits css + v\<rparr> else css) else css)
      in if status = status_code RESERVATION_FAIL then
           (if rd then css\<lparr>read_res_fails := read_res_fails css + v\<rparr>
            else if wr then css\<lparr>write_res_fails := write_res_fails css + v\<rparr> else css) else css)"

definition get_sub_stats_pw :: "cache_stats \<Rightarrow> cache_sub_stats_pw" where
  "get_sub_stats_pw cs =
     fold (\<lambda>(s, t). fold (\<lambda>ty. fold (\<lambda>st css. sub_stats_pw_count css ty st (t ! ty ! st))
       [0..<NUM_CACHE_REQUEST_STATUS]) [0..<NUM_MEM_ACCESS_TYPE]) (m_stats_pw cs) sub_stats_pw_clear"

section \<open>Well-formed statistics\<close>

definition wf_map :: "nat \<Rightarrow> stat_map \<Rightarrow> bool" where
  "wf_map cols m \<longleftrightarrow> distinct (map fst m) \<and>
     (\<forall>s t. map_of m s = Some t \<longrightarrow> length t = 11 \<and> (\<forall>i < 11. length (t ! i) = cols))"

definition wf_stats :: "cache_stats \<Rightarrow> bool" where
  "wf_stats cs \<longleftrightarrow> wf_map 6 (m_stats cs) \<and> wf_map 6 (m_stats_pw cs) \<and> wf_map 5 (m_fail_stats cs)"

definition cell :: "stat_map \<Rightarrow> u64 \<Rightarrow> nat \<Rightarrow> nat \<Rightarrow> u64" where
  "cell m s i j = (case map_of m s of None \<Rightarrow> 0 | Some t \<Rightarrow> t ! i ! j)"

lemma wf_stats_new: "wf_stats cache_stats_new"
  by (simp add: wf_stats_def wf_map_def cache_stats_new_def)

lemma wf_map_update: "wf_map cols m \<Longrightarrow> length t = 11 \<Longrightarrow> (\<forall>i < 11. length (t ! i) = cols) \<Longrightarrow>
    wf_map cols (AList.update s t m)"
  by (simp add: wf_map_def distinct_keys_update)

lemma bump_shape: "length (bump t i j) = length t" "i < length t \<Longrightarrow> length (bump t i j ! k) = length (t ! k)"
  by (auto simp: bump_def nth_list_update)

lemma bump_cell:
  "i < length t \<Longrightarrow> j < length (t ! i) \<Longrightarrow> bump t i j ! a ! b = t ! a ! b + (if a = i \<and> b = j then 1 else 0)"
  by (auto simp: bump_def nth_list_update)

lemma bump_map_ok:
  assumes "wf_map cols m" and "i < 11" and "j < cols"
  shows "\<exists>m'. bump_map cols m s i j = Some m' \<and> wf_map cols m' \<and>
    (\<forall>s' a b. a < 11 \<and> b < cols \<longrightarrow> cell m' s' a b = cell m s' a b + (if s' = s \<and> a = i \<and> b = j then 1 else 0))"
proof (cases "map_of m s")
  case None
  let ?z = "zero_table cols"
  have z: "length ?z = 11" "\<forall>k < 11. length (?z ! k) = cols" by (simp_all add: zero_table_def)
  let ?m = "AList.update s (bump ?z i j) (AList.update s ?z m)"
  have r: "bump_map cols m s i j = Some ?m" using None by (simp add: bump_map_def)
  have "wf_map cols ?m" using assms z by (intro wf_map_update) (simp_all add: bump_shape)
  moreover have "cell ?m s' a b = cell m s' a b + (if s' = s \<and> a = i \<and> b = j then 1 else 0)"
    if "a < 11" "b < cols" for s' a b
    using None assms z that by (simp add: cell_def bump_cell) (simp add: zero_table_def)
  ultimately show ?thesis using r by blast
next
  case (Some t)
  then have t: "length t = 11" "\<forall>k < 11. length (t ! k) = cols" using assms(1) by (auto simp: wf_map_def)
  let ?m = "AList.update s (bump t i j) m"
  have r: "bump_map cols m s i j = Some ?m" using Some by (simp add: bump_map_def)
  have "wf_map cols ?m" using assms t by (intro wf_map_update) (simp_all add: bump_shape)
  moreover have "cell ?m s' a b = cell m s' a b + (if s' = s \<and> a = i \<and> b = j then 1 else 0)"
    if "a < 11" "b < cols" for s' a b
    using Some assms t that by (simp add: cell_def bump_cell)
  ultimately show ?thesis using r by blast
qed

text \<open>
  \<^verbatim>\<open>inc_stats\<close> accepts every access type and outcome of the enumerations and adds one to exactly that
  counter of that stream, creating the stream's table of zeros on first use; every other counter, and
  the per-window and failure tables, stay as they were.
\<close>

theorem inc_stats_spec:
  assumes "wf_stats cs"
  shows "\<exists>cs'. inc_stats cs (int (access_code ty)) (int (status_code st)) s = Some cs' \<and> wf_stats cs' \<and>
    m_stats_pw cs' = m_stats_pw cs \<and> m_fail_stats cs' = m_fail_stats cs \<and>
    (\<forall>s' a b. a < 11 \<and> b < 6 \<longrightarrow> cell (m_stats cs') s' a b =
       cell (m_stats cs) s' a b + (if s' = s \<and> a = access_code ty \<and> b = status_code st then 1 else 0))"
proof -
  have v: "check_valid (int (access_code ty)) (int (status_code st))"
    using access_code_less [of ty] status_code_less [of st] by (simp add: check_valid_def)
  obtain m' where "bump_map 6 (m_stats cs) s (access_code ty) (status_code st) = Some m'" "wf_map 6 m'"
    "\<forall>s' a b. a < 11 \<and> b < 6 \<longrightarrow> cell m' s' a b = cell (m_stats cs) s' a b +
       (if s' = s \<and> a = access_code ty \<and> b = status_code st then 1 else 0)"
    using bump_map_ok [of 6 "m_stats cs" "access_code ty" "status_code st" s] assms by (auto simp: wf_stats_def)
  then show ?thesis using assms v by (simp add: inc_stats_def wf_stats_def)
qed

lemma inc_stats_spec_witness:
  "\<exists>cs'. inc_stats cache_stats_new (int (access_code GLOBAL_ACC_R)) (int (status_code MISS)) 3 = Some cs' \<and> wf_stats cs' \<and>
    m_stats_pw cs' = m_stats_pw cache_stats_new \<and> m_fail_stats cs' = m_fail_stats cache_stats_new \<and>
    (\<forall>s' a b. a < 11 \<and> b < 6 \<longrightarrow> cell (m_stats cs') s' a b =
       cell (m_stats cache_stats_new) s' a b + (if s' = 3 \<and> a = access_code GLOBAL_ACC_R \<and> b = status_code MISS then 1 else 0))"
  by (rule inc_stats_spec [OF wf_stats_new])

text \<open>The same for the two other tables, and totality for the callers.\<close>

lemma inc_total:
  assumes "wf_stats cs"
  shows "\<exists>cs'. inc_stats cs (int (access_code ty)) (int (status_code st)) s = Some cs' \<and> wf_stats cs'"
    and "\<exists>cs'. inc_stats_pw cs (int (access_code ty)) (int (status_code st)) s = Some cs' \<and> wf_stats cs'"
    and "\<exists>cs'. inc_fail_stats cs (int (access_code ty)) (int (fail_code f)) s = Some cs' \<and> wf_stats cs'"
proof -
  have v: "check_valid (int (access_code ty)) (int (status_code st))" "check_fail_valid (int (access_code ty)) (int (fail_code f))"
    using access_code_less [of ty] status_code_less [of st] fail_code_less [of f]
    by (simp_all add: check_valid_def check_fail_valid_def)
  have w: "wf_map 6 (m_stats cs)" "wf_map 6 (m_stats_pw cs)" "wf_map 5 (m_fail_stats cs)"
    using assms by (simp_all add: wf_stats_def)
  have l: "access_code ty < 11" "status_code st < 6" "fail_code f < 5" by simp_all
  show "\<exists>cs'. inc_stats cs (int (access_code ty)) (int (status_code st)) s = Some cs' \<and> wf_stats cs'"
    using bump_map_ok [OF w(1) l(1,2), of s] v w by (auto simp: inc_stats_def wf_stats_def)
  show "\<exists>cs'. inc_stats_pw cs (int (access_code ty)) (int (status_code st)) s = Some cs' \<and> wf_stats cs'"
    using bump_map_ok [OF w(2) l(1,2), of s] v w by (auto simp: inc_stats_pw_def wf_stats_def)
  show "\<exists>cs'. inc_fail_stats cs (int (access_code ty)) (int (fail_code f)) s = Some cs' \<and> wf_stats cs'"
    using bump_map_ok [OF w(3) l(1,3), of s] v w by (auto simp: inc_fail_stats_def wf_stats_def)
qed

section \<open>Aggregation\<close>

lemma add_row_ok:
  "distinct js \<Longrightarrow> \<forall>j \<in> set js. j < length row \<and> src j = Some (u ! j) \<Longrightarrow>
    \<exists>r. add_row src js row = Some r \<and> length r = length row \<and>
      (\<forall>b. r ! b = (if b \<in> set js then row ! b + u ! b else row ! b))"
proof (induction js arbitrary: row)
  case (Cons j js)
  from Cons.IH [of "row[j := row ! j + u ! j]"] Cons.prems obtain r where
    "add_row src js (row[j := row ! j + u ! j]) = Some r" "length r = length row"
    "\<forall>b. r ! b = (if b \<in> set js then row[j := row ! j + u ! j] ! b + u ! b else row[j := row ! j + u ! j] ! b)"
    by auto
  with Cons.prems show ?case by (auto simp: nth_list_update)
qed simp

lemma add_cells_ok:
  "distinct is \<Longrightarrow> \<forall>i \<in> set is. i < length t \<and> length (t ! i) = cols \<and> (\<forall>j < cols. src i j = Some (u ! i ! j)) \<Longrightarrow>
    \<exists>r. add_cells src cols is t = Some r \<and> length r = length t \<and> (\<forall>a. length (r ! a) = length (t ! a)) \<and>
      (\<forall>a b. b < cols \<longrightarrow> r ! a ! b = (if a \<in> set is then t ! a ! b + u ! a ! b else t ! a ! b))"
proof (induction "is" arbitrary: t)
  case (Cons i "is")
  from Cons.prems have i: "i < length t" "length (t ! i) = cols" "\<forall>j < cols. src i j = Some (u ! i ! j)" by auto
  obtain row where row: "add_row (src i) [0..<cols] (t ! i) = Some row" "length row = cols"
    "\<forall>b < cols. row ! b = t ! i ! b + u ! i ! b"
    using add_row_ok [of "[0..<cols]" "t ! i" "src i" "u ! i"] i by auto
  have "\<forall>k \<in> set is. t[i := row] ! k = t ! k" using Cons.prems by (auto simp: nth_list_update)
  with Cons.IH [of "t[i := row]"] Cons.prems obtain r where
    r: "add_cells src cols is (t[i := row]) = Some r" "length r = length t" "\<forall>a. length (r ! a) = length (t[i := row] ! a)"
    "\<forall>a b. b < cols \<longrightarrow> r ! a ! b = (if a \<in> set is then t[i := row] ! a ! b + u ! a ! b else t[i := row] ! a ! b)"
    by auto
  have len: "length (r ! a) = length (t ! a)" for a using r(3) i(1,2) row(2) by (auto simp: nth_list_update)
  have cells: "r ! a ! b = (if a \<in> set (i # is) then t ! a ! b + u ! a ! b else t ! a ! b)" if "b < cols" for a b
    using r(4) that row(3) i(1) Cons.prems by (auto simp: nth_list_update)
  show ?case using r(1,2) row(1) len cells by simp
qed simp

lemma merge_cells:
  assumes "\<forall>(s, t) \<in> set l. length t = 11 \<and> (\<forall>i < 11. length (t ! i) = cols)" and "distinct (map fst l)" and "wf_map cols ret"
    and "\<forall>(s, t) \<in> set l. map_of ret s \<noteq> None \<longrightarrow>
      (\<exists>u. length u = 11 \<and> (\<forall>i < 11. \<forall>j < cols. stats_at cs (int i) (int j) fail s = Some (u ! i ! j)))"
  shows "\<exists>r. merge_map cs fail cols l ret = Some r \<and> wf_map cols r \<and>
    (\<forall>s. s \<notin> fst ` set l \<longrightarrow> map_of r s = map_of ret s) \<and>
    (\<forall>s t. (s, t) \<in> set l \<longrightarrow> (if map_of ret s = None then map_of r s = Some t
       else \<forall>a < 11. \<forall>b < cols. Some (cell r s a b) = map_option (\<lambda>v. cell ret s a b + v) (stats_at cs (int a) (int b) fail s)))"
  using assms
proof (induction l arbitrary: ret)
  case (Cons p l)
  obtain s t where p: "p = (s, t)" by (cases p)
  have st: "length t = 11" "\<forall>i < 11. length (t ! i) = cols" "s \<notin> fst ` set l"
    using Cons.prems p by auto
  define ret1 where "ret1 = (case map_of ret s of None \<Rightarrow> AList.update s t ret
     | Some t0 \<Rightarrow> AList.update s (the (add_cells (\<lambda>ty status. stats_at cs (int ty) (int status) fail s) cols [0..<11] t0)) ret)"
  have step: "merge_map cs fail cols (p # l) ret = merge_map cs fail cols l ret1 \<and> wf_map cols ret1 \<and>
      (\<forall>s'. s' \<noteq> s \<longrightarrow> map_of ret1 s' = map_of ret s') \<and>
      (if map_of ret s = None then map_of ret1 s = Some t
       else \<forall>a < 11. \<forall>b < cols. Some (cell ret1 s a b) = map_option (\<lambda>v. cell ret s a b + v) (stats_at cs (int a) (int b) fail s))"
  proof (cases "map_of ret s")
    case None
    then show ?thesis using st Cons.prems(3) by (simp add: p ret1_def wf_map_update)
  next
    case (Some t0)
    then have t0: "length t0 = 11" "\<forall>i < 11. length (t0 ! i) = cols" using Cons.prems(3) by (auto simp: wf_map_def)
    from Cons.prems(4) p Some obtain u where
      u: "\<forall>i < 11. \<forall>j < cols. stats_at cs (int i) (int j) fail s = Some (u ! i ! j)" by auto
    from add_cells_ok [of "[0..<11]" t0 cols "\<lambda>ty status. stats_at cs (int ty) (int status) fail s" u] t0 u
    obtain r where r: "add_cells (\<lambda>ty status. stats_at cs (int ty) (int status) fail s) cols [0..<11] t0 = Some r"
      "length r = 11" "\<forall>a. length (r ! a) = length (t0 ! a)"
      "\<forall>a b. b < cols \<longrightarrow> r ! a ! b = (if a < 11 then t0 ! a ! b + u ! a ! b else t0 ! a ! b)" by auto
    have "ret1 = AList.update s r ret" using Some r(1) by (simp add: ret1_def)
    then show ?thesis using Some r t0 u Cons.prems(3)
      by (simp add: p wf_map_update cell_def)
  qed
  have keep: "map_of ret1 s' = map_of ret s'" if "s' \<in> fst ` set l" for s' using step st(3) that by auto
  have "\<exists>r. merge_map cs fail cols l ret1 = Some r \<and> wf_map cols r \<and>
    (\<forall>s. s \<notin> fst ` set l \<longrightarrow> map_of r s = map_of ret1 s) \<and>
    (\<forall>s t. (s, t) \<in> set l \<longrightarrow> (if map_of ret1 s = None then map_of r s = Some t
       else \<forall>a < 11. \<forall>b < cols. Some (cell r s a b) = map_option (\<lambda>v. cell ret1 s a b + v) (stats_at cs (int a) (int b) fail s)))"
  proof (rule Cons.IH)
    show "\<forall>(s, t) \<in> set l. length t = 11 \<and> (\<forall>i < 11. length (t ! i) = cols)" using Cons.prems(1) by auto
    show "distinct (map fst l)" using Cons.prems(2) by simp
    show "wf_map cols ret1" using step by blast
    show "\<forall>(s, t) \<in> set l. map_of ret1 s \<noteq> None \<longrightarrow>
      (\<exists>u. length u = 11 \<and> (\<forall>i < 11. \<forall>j < cols. stats_at cs (int i) (int j) fail s = Some (u ! i ! j)))"
    proof (clarify)
      fix s' t' y
      assume in': "(s', t') \<in> set l" and "map_of ret1 s' = Some y"
      moreover from in' have "s' \<in> fst ` set l" by force
      ultimately have "map_of ret s' \<noteq> None" using keep by simp
      with in' Cons.prems(4)
      show "\<exists>u. length u = 11 \<and> (\<forall>i < 11. \<forall>j < cols. stats_at cs (int i) (int j) fail s' = Some (u ! i ! j))"
        by fastforce
    qed
  qed
  then obtain r where r: "merge_map cs fail cols l ret1 = Some r" "wf_map cols r"
    "\<And>s. s \<notin> fst ` set l \<Longrightarrow> map_of r s = map_of ret1 s"
    "\<And>s t. (s, t) \<in> set l \<Longrightarrow> (if map_of ret1 s = None then map_of r s = Some t
       else \<forall>a < 11. \<forall>b < cols. Some (cell r s a b) = map_option (\<lambda>v. cell ret1 s a b + v) (stats_at cs (int a) (int b) fail s))"
    by blast
  have same: "cell ret1 s' a b = cell ret s' a b" if "s' \<in> fst ` set l" for s' a b
    using keep [OF that] by (simp add: cell_def)
  have head: "cell r s a b = cell ret1 s a b" "map_of r s = map_of ret1 s" for a b
    using r(3) [OF st(3)] by (simp_all add: cell_def)
  show ?case
  proof (rule exI [of _ r], intro conjI allI impI)
    show "merge_map cs fail cols (p # l) ret = Some r" using step r(1) by simp
    show "wf_map cols r" by (rule r(2))
    show "map_of r s' = map_of ret s'" if "s' \<notin> fst ` set (p # l)" for s'
      using that r(3) [of s'] step p by auto
    show "if map_of ret s' = None then map_of r s' = Some t'
       else \<forall>a < 11. \<forall>b < cols. Some (cell r s' a b) = map_option (\<lambda>v. cell ret s' a b + v) (stats_at cs (int a) (int b) fail s')"
      if "(s', t') \<in> set (p # l)" for s' t'
    proof (cases "(s', t') = p")
      case True
      then show ?thesis using step head p by (auto split: if_splits)
    next
      case False
      with that have in': "(s', t') \<in> set l" by simp
      then have "s' \<in> fst ` set l" by force
      with r(4) [OF in'] keep same show ?thesis by simp
    qed
  qed
qed simp

lemma merge_stats:
  assumes src: "wf_map cols m" and ret: "wf_map cols ret" and l: "wf_map cols l"
    and at: "\<And>i j s. i < 11 \<Longrightarrow> j < cols \<Longrightarrow> stats_at cs (int i) (int j) fail s = map_option (\<lambda>t. t ! i ! j) (map_of m s)"
    and sub: "\<And>s. map_of l s \<noteq> None \<Longrightarrow> map_of ret s \<noteq> None \<Longrightarrow> map_of m s \<noteq> None"
  shows "\<exists>r. merge_map cs fail cols l ret = Some r \<and> wf_map cols r \<and>
    (\<forall>s i j. i < 11 \<and> j < cols \<longrightarrow> cell r s i j = cell ret s i j +
       (if map_of l s = None then 0 else if map_of ret s = None then cell l s i j else cell m s i j))"
proof -
  have key: "map_of l s = Some t" if "(s, t) \<in> set l" for s t
    using l that by (simp add: wf_map_def)
  have "\<exists>r. merge_map cs fail cols l ret = Some r \<and> wf_map cols r \<and>
    (\<forall>s. s \<notin> fst ` set l \<longrightarrow> map_of r s = map_of ret s) \<and>
    (\<forall>s t. (s, t) \<in> set l \<longrightarrow> (if map_of ret s = None then map_of r s = Some t
       else \<forall>a < 11. \<forall>b < cols. Some (cell r s a b) = map_option (\<lambda>v. cell ret s a b + v) (stats_at cs (int a) (int b) fail s)))"
  proof (rule merge_cells)
    show "\<forall>(s, t) \<in> set l. length t = 11 \<and> (\<forall>i < 11. length (t ! i) = cols)"
      using key l by (fastforce simp: wf_map_def)
    show "distinct (map fst l)" using l by (simp add: wf_map_def)
    show "\<forall>(s, t) \<in> set l. map_of ret s \<noteq> None \<longrightarrow>
      (\<exists>u. length u = 11 \<and> (\<forall>i < 11. \<forall>j < cols. stats_at cs (int i) (int j) fail s = Some (u ! i ! j)))"
    proof (clarify)
      fix s t y assume "(s, t) \<in> set l" "map_of ret s = Some y"
      then obtain u where u: "map_of m s = Some u" using sub [of s] key by auto
      then have "length u = 11" using src by (simp add: wf_map_def)
      with u at show "\<exists>u. length u = 11 \<and> (\<forall>i < 11. \<forall>j < cols. stats_at cs (int i) (int j) fail s = Some (u ! i ! j))"
        by auto
    qed
  qed (rule ret)
  then obtain r where r: "merge_map cs fail cols l ret = Some r" "wf_map cols r"
    "\<And>s. s \<notin> fst ` set l \<Longrightarrow> map_of r s = map_of ret s"
    "\<And>s t. (s, t) \<in> set l \<Longrightarrow> (if map_of ret s = None then map_of r s = Some t
       else \<forall>a < 11. \<forall>b < cols. Some (cell r s a b) = map_option (\<lambda>v. cell ret s a b + v) (stats_at cs (int a) (int b) fail s))"
    by blast
  have "cell r s i j = cell ret s i j +
       (if map_of l s = None then 0 else if map_of ret s = None then cell l s i j else cell m s i j)"
    if ij: "i < 11" "j < cols" for s i j
  proof (cases "map_of l s")
    case None
    then show ?thesis using r(3) [of s] by (simp add: cell_def map_of_None_iff)
  next
    case (Some t)
    then have in': "(s, t) \<in> set l" by (rule map_of_SomeD)
    show ?thesis
    proof (cases "map_of ret s")
      case None
      with r(4) [OF in'] Some show ?thesis by (simp add: cell_def)
    next
      case (Some y)
      with sub [of s] \<open>map_of l s = Some t\<close> obtain u where "map_of m s = Some u" by auto
      moreover have "stats_at cs (int i) (int j) fail s = Some (cell m s i j)"
        using at [OF ij] \<open>map_of m s = Some u\<close> by (simp add: cell_def)
      moreover have "Some (cell r s i j) = map_option (\<lambda>v. cell ret s i j + v) (stats_at cs (int i) (int j) fail s)"
        using r(4) [OF in'] Some ij by simp
      ultimately show ?thesis using Some \<open>map_of l s = Some t\<close> by simp
    qed
  qed
  with r(1,2) show ?thesis by blast
qed

lemma stats_at_eq:
  "i < 11 \<Longrightarrow> j < 6 \<Longrightarrow> stats_at cs (int i) (int j) False s = map_option (\<lambda>t. t ! i ! j) (map_of (m_stats cs) s)"
  "i < 11 \<Longrightarrow> j < 5 \<Longrightarrow> stats_at cs (int i) (int j) True s = map_option (\<lambda>t. t ! i ! j) (map_of (m_fail_stats cs) s)"
  by (cases "map_of (m_stats cs) s"; simp add: stats_at_def check_valid_def)
    (cases "map_of (m_fail_stats cs) s"; simp add: stats_at_def check_fail_valid_def)

lemma plus_assign_same: "stats_plus a b = stats_plus_assign a b"
  by (cases a) (simp add: stats_plus_def stats_plus_assign_def Let_def cache_stats_new_def)

lemma stats_plus_cells:
  assumes "wf_stats a" and "wf_stats b"
    and "\<And>s. map_of (m_stats_pw b) s \<noteq> None \<Longrightarrow> map_of (m_stats_pw a) s \<noteq> None \<Longrightarrow> map_of (m_stats b) s \<noteq> None"
  shows "\<exists>r. stats_plus a b = Some r \<and> wf_stats r \<and>
    (\<forall>s i j. i < 11 \<and> j < 6 \<longrightarrow> cell (m_stats r) s i j = cell (m_stats a) s i j + cell (m_stats b) s i j) \<and>
    (\<forall>s i j. i < 11 \<and> j < 5 \<longrightarrow> cell (m_fail_stats r) s i j = cell (m_fail_stats a) s i j + cell (m_fail_stats b) s i j) \<and>
    (\<forall>s i j. i < 11 \<and> j < 6 \<longrightarrow> cell (m_stats_pw r) s i j = cell (m_stats_pw a) s i j +
       (if map_of (m_stats_pw b) s = None then 0 else if map_of (m_stats_pw a) s = None then cell (m_stats_pw b) s i j
        else cell (m_stats b) s i j))"
proof -
  have w: "wf_map 6 (m_stats a)" "wf_map 6 (m_stats_pw a)" "wf_map 5 (m_fail_stats a)"
    "wf_map 6 (m_stats b)" "wf_map 6 (m_stats_pw b)" "wf_map 5 (m_fail_stats b)"
    using assms by (simp_all add: wf_stats_def)
  obtain s where s: "merge_map b False 6 (m_stats b) (m_stats a) = Some s" "wf_map 6 s"
    "\<And>st i j. i < 11 \<Longrightarrow> j < 6 \<Longrightarrow> cell s st i j = cell (m_stats a) st i j +
       (if map_of (m_stats b) st = None then 0 else if map_of (m_stats a) st = None then cell (m_stats b) st i j else cell (m_stats b) st i j)"
    using merge_stats [OF w(4,1,4) stats_at_eq(1)] by blast
  obtain pw where pw: "merge_map b False 6 (m_stats_pw b) (m_stats_pw a) = Some pw" "wf_map 6 pw"
    "\<And>st i j. i < 11 \<Longrightarrow> j < 6 \<Longrightarrow> cell pw st i j = cell (m_stats_pw a) st i j +
       (if map_of (m_stats_pw b) st = None then 0 else if map_of (m_stats_pw a) st = None then cell (m_stats_pw b) st i j else cell (m_stats b) st i j)"
    using merge_stats [OF w(4,2,5) stats_at_eq(1) assms(3)] by blast
  obtain f where f: "merge_map b True 5 (m_fail_stats b) (m_fail_stats a) = Some f" "wf_map 5 f"
    "\<And>st i j. i < 11 \<Longrightarrow> j < 5 \<Longrightarrow> cell f st i j = cell (m_fail_stats a) st i j +
       (if map_of (m_fail_stats b) st = None then 0 else if map_of (m_fail_stats a) st = None then cell (m_fail_stats b) st i j else cell (m_fail_stats b) st i j)"
    using merge_stats [OF w(6,3,6) stats_at_eq(2)] by blast
  have z: "map_of m st = None \<Longrightarrow> cell m st i j = 0" for m st i j by (simp add: cell_def)
  have s3: "cell s st i j = cell (m_stats a) st i j + cell (m_stats b) st i j" if "i < 11" "j < 6" for st i j
    using s(3) [OF that] z by auto
  have f3: "cell f st i j = cell (m_fail_stats a) st i j + cell (m_fail_stats b) st i j" if "i < 11" "j < 5" for st i j
    using f(3) [OF that] z by auto
  show ?thesis
    using s(1,2) pw f(1,2) s3 f3 by (simp add: stats_plus_def Let_def wf_stats_def)
qed

text \<open>
  \<^verbatim>\<open>operator+\<close> and \<^verbatim>\<open>operator+=\<close> agree, and on the cumulative and the failure tables every counter
  of the result is the sum of the two counters (a stream one side lacks counts as zero).
\<close>

theorem stats_plus_adds:
  assumes "wf_stats a" and "wf_stats b" and "\<forall>s. map_of (m_stats_pw b) s \<noteq> None \<longrightarrow> map_of (m_stats b) s \<noteq> None"
  shows "stats_plus a b = stats_plus_assign a b \<and> (\<exists>r. stats_plus a b = Some r \<and> wf_stats r \<and>
    (\<forall>s i j. i < 11 \<and> j < 6 \<longrightarrow> cell (m_stats r) s i j = cell (m_stats a) s i j + cell (m_stats b) s i j) \<and>
    (\<forall>s i j. i < 11 \<and> j < 5 \<longrightarrow> cell (m_fail_stats r) s i j = cell (m_fail_stats a) s i j + cell (m_fail_stats b) s i j))"
proof (rule conjI [OF plus_assign_same])
  obtain r where "stats_plus a b = Some r" "wf_stats r"
    "\<forall>s i j. i < 11 \<and> j < 6 \<longrightarrow> cell (m_stats r) s i j = cell (m_stats a) s i j + cell (m_stats b) s i j"
    "\<forall>s i j. i < 11 \<and> j < 5 \<longrightarrow> cell (m_fail_stats r) s i j = cell (m_fail_stats a) s i j + cell (m_fail_stats b) s i j"
    using stats_plus_cells [OF assms(1,2)] assms(3) by blast
  then show "\<exists>r. stats_plus a b = Some r \<and> wf_stats r \<and>
    (\<forall>s i j. i < 11 \<and> j < 6 \<longrightarrow> cell (m_stats r) s i j = cell (m_stats a) s i j + cell (m_stats b) s i j) \<and>
    (\<forall>s i j. i < 11 \<and> j < 5 \<longrightarrow> cell (m_fail_stats r) s i j = cell (m_fail_stats a) s i j + cell (m_fail_stats b) s i j)"
    by blast
qed

text \<open>Two statistics objects after one recorded miss, resp. after two misses of which one is in the window.\<close>

definition demo_stats1 :: cache_stats where
  "demo_stats1 = the (do { cs \<leftarrow> inc_stats cache_stats_new 0 2 0; inc_stats_pw cs 0 2 0 })"

definition demo_stats2 :: cache_stats where
  "demo_stats2 = the (do { cs \<leftarrow> inc_stats cache_stats_new 0 2 0; cs \<leftarrow> inc_stats cs 0 2 0; inc_stats_pw cs 0 2 0 })"

lemma demo_stats_wf:
  "wf_stats demo_stats1 \<and> wf_stats demo_stats2 \<and>
   (\<forall>s. map_of (m_stats_pw demo_stats2) s \<noteq> None \<longrightarrow> map_of (m_stats demo_stats2) s \<noteq> None)"
proof -
  have 1: "demo_stats1 = cache_stats_new\<lparr>m_stats := [(0, bump (zero_table 6) 0 2)], m_stats_pw := [(0, bump (zero_table 6) 0 2)]\<rparr>"
    by (simp add: demo_stats1_def inc_stats_def inc_stats_pw_def check_valid_def bump_map_def Let_def cache_stats_new_def)
  have 2: "demo_stats2 = cache_stats_new\<lparr>m_stats := [(0, bump (bump (zero_table 6) 0 2) 0 2)], m_stats_pw := [(0, bump (zero_table 6) 0 2)]\<rparr>"
    by (simp add: demo_stats2_def inc_stats_def inc_stats_pw_def check_valid_def bump_map_def Let_def cache_stats_new_def)
  have "length (zero_table 6) = 11" "\<forall>i < 11. length (zero_table 6 ! i) = 6" by (simp_all add: zero_table_def)
  then show ?thesis unfolding 1 2 by (simp add: wf_stats_def wf_map_def cache_stats_new_def bump_shape)
qed

lemma stats_plus_adds_witness:
  "stats_plus demo_stats1 demo_stats2 = stats_plus_assign demo_stats1 demo_stats2 \<and>
   (\<exists>r. stats_plus demo_stats1 demo_stats2 = Some r \<and> wf_stats r)"
  using stats_plus_adds [of demo_stats1 demo_stats2] demo_stats_wf by blast

text \<open>
  the per-window tables are not added: for a stream both objects have, the result's per-window
  counter is the first one's per-window counter plus the second one's \<^emph>\<open>cumulative\<close> counter, since
  the loop over \<^verbatim>\<open>m_stats_pw\<close> reads \<^verbatim>\<open>cs(type, status, false, streamID)\<close>.
\<close>

theorem stats_plus_pw_reads_cumulative:
  assumes "wf_stats a" and "wf_stats b" and "map_of (m_stats_pw a) s \<noteq> None" and "map_of (m_stats_pw b) s \<noteq> None"
    and "\<forall>s. map_of (m_stats_pw b) s \<noteq> None \<longrightarrow> map_of (m_stats b) s \<noteq> None" and "i < 11" and "j < 6"
  shows "\<exists>r. stats_plus a b = Some r \<and> cell (m_stats_pw r) s i j = cell (m_stats_pw a) s i j + cell (m_stats b) s i j"
proof -
  obtain r where "stats_plus a b = Some r"
    "\<forall>s i j. i < 11 \<and> j < 6 \<longrightarrow> cell (m_stats_pw r) s i j = cell (m_stats_pw a) s i j +
       (if map_of (m_stats_pw b) s = None then 0 else if map_of (m_stats_pw a) s = None then cell (m_stats_pw b) s i j
        else cell (m_stats b) s i j)"
    using stats_plus_cells [OF assms(1,2)] assms(5) by blast
  with assms(3,4,6,7) show ?thesis by auto
qed

lemma stats_plus_pw_reads_cumulative_witness:
  "\<exists>r. stats_plus demo_stats1 demo_stats2 = Some r \<and> cell (m_stats_pw r) 0 0 2 = 3 \<and>
    cell (m_stats_pw demo_stats1) 0 0 2 + cell (m_stats_pw demo_stats2) 0 0 2 = 2"
proof -
  have n: "map_of (m_stats_pw demo_stats1) 0 \<noteq> None" "map_of (m_stats_pw demo_stats2) 0 \<noteq> None"
    and v: "cell (m_stats_pw demo_stats1) 0 0 2 = 1" "cell (m_stats_pw demo_stats2) 0 0 2 = 1" "cell (m_stats demo_stats2) 0 0 2 = 2"
    by code_simp+
  obtain r where "stats_plus demo_stats1 demo_stats2 = Some r"
    "cell (m_stats_pw r) 0 0 2 = cell (m_stats_pw demo_stats1) 0 0 2 + cell (m_stats demo_stats2) 0 0 2"
    using stats_plus_pw_reads_cumulative [of demo_stats1 demo_stats2 0 0 2] demo_stats_wf n by auto
  then show ?thesis using v by auto
qed

text \<open>Adding two \<^verbatim>\<open>cache_sub_stats_pw\<close> objects forgets the hit counters of both.\<close>

theorem sub_stats_pw_plus_drops_hits:
  "read_hits (sub_stats_pw_plus a b) = 0 \<and> write_hits (sub_stats_pw_plus a b) = 0 \<and>
   read_hits (sub_stats_pw_plus_assign a b) = read_hits a \<and> write_hits (sub_stats_pw_plus_assign a b) = write_hits a"
  by (simp add: sub_stats_pw_plus_def sub_stats_pw_plus_assign_def sub_stats_pw_clear_def)

end
