(* ===== verification/Cache_Block.thy ===== *)
theory Cache_Block
  imports Cache_Types
begin

text \<open>
  The cache block classes of \<^verbatim>\<open>src/gpgpu-sim/gpu-cache.h\<close>: the base \<^verbatim>\<open>cache_block_t\<close> (tag and block
  address), \<^verbatim>\<open>line_cache_block\<close> (one state for the whole line) and \<^verbatim>\<open>sector_cache_block\<close> (four
  32-byte sectors). Inheritance is record extension, the virtual calls dispatch on the datatype
  \<open>cache_block\<close>. The locale \<open>cache_block_iface\<close> states the contract of the virtual interface
  that the tag array relies on; it is interpreted for both classes and for the dispatching type.
\<close>

abbreviation (input) SECTOR_CHUNCK_SIZE :: nat where "SECTOR_CHUNCK_SIZE \<equiv> 4"
abbreviation (input) SECTOR_SIZE :: nat where "SECTOR_SIZE \<equiv> 32"

section \<open>Data\<close>

record cache_block_t =
  m_tag :: u64
  m_block_addr :: u64

record line_cache_block = cache_block_t +
  l_alloc_time :: u64
  l_last_access_time :: u64
  l_fill_time :: u64
  l_status :: cache_block_state
  l_ignore_on_fill_status :: bool
  l_set_modified_on_fill :: bool
  l_set_readable_on_fill :: bool
  l_set_byte_mask_on_fill :: bool
  l_readable :: bool
  l_dirty_byte_mask :: byte_mask

record sector_cache_block = cache_block_t +
  s_sector_alloc_time :: "u32 list"
  s_last_sector_access_time :: "u32 list"
  s_sector_fill_time :: "u32 list"
  s_line_alloc_time :: u32
  s_line_last_access_time :: u32
  s_line_fill_time :: u32
  s_status :: "cache_block_state list"
  s_ignore_on_fill_status :: "bool list"
  s_set_modified_on_fill :: "bool list"
  s_set_readable_on_fill :: "bool list"
  s_set_byte_mask_on_fill :: bool
  s_readable :: "bool list"
  s_dirty_byte_mask :: byte_mask

section \<open>The line block\<close>

text \<open>
  The constructor. It leaves \<^verbatim>\<open>m_set_byte_mask_on_fill\<close> unset; \<^verbatim>\<open>allocate\<close> sets it before \<^verbatim>\<open>fill\<close>
  reads it, so its first value here (False) is never used.
\<close>

definition line_init :: line_cache_block where
  "line_init = \<lparr>m_tag = 0, m_block_addr = 0, l_alloc_time = 0, l_last_access_time = 0,
     l_fill_time = 0, l_status = INVALID, l_ignore_on_fill_status = False,
     l_set_modified_on_fill = False, l_set_readable_on_fill = False,
     l_set_byte_mask_on_fill = False, l_readable = True, l_dirty_byte_mask = 0\<rparr>"

definition line_allocate :: "line_cache_block \<Rightarrow> u64 \<Rightarrow> u64 \<Rightarrow> u32 \<Rightarrow> line_cache_block" where
  "line_allocate b tag block_addr time = b\<lparr>
     m_tag := tag, m_block_addr := block_addr,
     l_alloc_time := ucast time, l_last_access_time := ucast time, l_fill_time := 0,
     l_status := RESERVED, l_ignore_on_fill_status := False, l_set_modified_on_fill := False,
     l_set_readable_on_fill := False, l_set_byte_mask_on_fill := False\<rparr>"

definition line_set_byte_mask :: "line_cache_block \<Rightarrow> byte_mask \<Rightarrow> line_cache_block" where
  "line_set_byte_mask b m = b\<lparr>l_dirty_byte_mask := l_dirty_byte_mask b OR m\<rparr>"

definition line_fill :: "line_cache_block \<Rightarrow> u32 \<Rightarrow> byte_mask \<Rightarrow> line_cache_block" where
  "line_fill b time byte_mask =
     (let b1 = b\<lparr>l_status := (if l_set_modified_on_fill b then MODIFIED else VALID)\<rparr>;
          b2 = (if l_set_readable_on_fill b1 then b1\<lparr>l_readable := True\<rparr> else b1);
          b3 = (if l_set_byte_mask_on_fill b2 then line_set_byte_mask b2 byte_mask else b2)
      in b3\<lparr>l_fill_time := ucast time\<rparr>)"

definition line_get_dirty_sector_mask :: "line_cache_block \<Rightarrow> sector_mask" where
  "line_get_dirty_sector_mask b = (if l_status b = MODIFIED then mask 4 else 0)"

section \<open>The sector block\<close>

text \<open>The index of the one set bit; \<^verbatim>\<open>assert(sector_mask.count() == 1)\<close> fails otherwise.\<close>

definition get_sector_index :: "sector_mask \<Rightarrow> nat option" where
  "get_sector_index m =
     (if bcount m = 1 then Some (case find (bit m) [0..<4] of Some i \<Rightarrow> i | None \<Rightarrow> SECTOR_CHUNCK_SIZE)
      else None)"

definition sector_bit :: "nat \<Rightarrow> sector_mask" where
  "sector_bit j = set_bit j 0"

definition sector_init :: "sector_cache_block \<Rightarrow> sector_cache_block" where
  "sector_init b = b\<lparr>
     s_sector_alloc_time := replicate 4 0, s_sector_fill_time := replicate 4 0,
     s_last_sector_access_time := replicate 4 0, s_status := replicate 4 INVALID,
     s_ignore_on_fill_status := replicate 4 False, s_set_modified_on_fill := replicate 4 False,
     s_set_readable_on_fill := replicate 4 False, s_readable := replicate 4 True,
     s_line_alloc_time := 0, s_line_last_access_time := 0, s_line_fill_time := 0,
     s_dirty_byte_mask := 0\<rparr>"

definition sector_block_new :: sector_cache_block where
  "sector_block_new = sector_init \<lparr>m_tag = 0, m_block_addr = 0, s_sector_alloc_time = [],
     s_last_sector_access_time = [], s_sector_fill_time = [], s_line_alloc_time = 0,
     s_line_last_access_time = 0, s_line_fill_time = 0, s_status = [],
     s_ignore_on_fill_status = [], s_set_modified_on_fill = [], s_set_readable_on_fill = [],
     s_set_byte_mask_on_fill = False, s_readable = [], s_dirty_byte_mask = 0\<rparr>"

definition sector_allocate_line ::
  "sector_cache_block \<Rightarrow> u64 \<Rightarrow> u64 \<Rightarrow> u32 \<Rightarrow> sector_mask \<Rightarrow> sector_cache_block option" where
  "sector_allocate_line b0 tag block_addr time smask = do {
     let b = (sector_init b0)\<lparr>m_tag := tag, m_block_addr := block_addr\<rparr>;
     sidx \<leftarrow> get_sector_index smask;
     Some (b\<lparr>
       s_sector_alloc_time := (s_sector_alloc_time b)[sidx := time],
       s_last_sector_access_time := (s_last_sector_access_time b)[sidx := time],
       s_sector_fill_time := (s_sector_fill_time b)[sidx := 0],
       s_status := (s_status b)[sidx := RESERVED],
       s_ignore_on_fill_status := (s_ignore_on_fill_status b)[sidx := False],
       s_set_modified_on_fill := (s_set_modified_on_fill b)[sidx := False],
       s_set_readable_on_fill := (s_set_readable_on_fill b)[sidx := False],
       s_set_byte_mask_on_fill := False,
       s_line_alloc_time := time, s_line_last_access_time := time, s_line_fill_time := 0\<rparr>)
   }"

definition sector_is_invalid_line :: "sector_cache_block \<Rightarrow> bool" where
  "sector_is_invalid_line b = (\<forall>i < SECTOR_CHUNCK_SIZE. s_status b ! i = INVALID)"

definition sector_is_reserved_line :: "sector_cache_block \<Rightarrow> bool" where
  "sector_is_reserved_line b = (\<exists>i < SECTOR_CHUNCK_SIZE. s_status b ! i = RESERVED)"

definition sector_is_modified_line :: "sector_cache_block \<Rightarrow> bool" where
  "sector_is_modified_line b = (\<exists>i < SECTOR_CHUNCK_SIZE. s_status b ! i = MODIFIED)"

definition sector_allocate_sector ::
  "sector_cache_block \<Rightarrow> u32 \<Rightarrow> sector_mask \<Rightarrow> sector_cache_block option" where
  "sector_allocate_sector b time smask = do {
     guard (\<not> sector_is_invalid_line b);
     sidx \<leftarrow> get_sector_index smask;
     Some (b\<lparr>
       s_sector_alloc_time := (s_sector_alloc_time b)[sidx := time],
       s_last_sector_access_time := (s_last_sector_access_time b)[sidx := time],
       s_sector_fill_time := (s_sector_fill_time b)[sidx := 0],
       s_set_modified_on_fill := (s_set_modified_on_fill b)[sidx := s_status b ! sidx = MODIFIED],
       s_set_readable_on_fill := (s_set_readable_on_fill b)[sidx := False],
       s_status := (s_status b)[sidx := RESERVED],
       s_ignore_on_fill_status := (s_ignore_on_fill_status b)[sidx := False],
       s_readable := (s_readable b)[sidx := True],
       s_line_last_access_time := time, s_line_fill_time := 0\<rparr>)
   }"

definition sector_set_byte_mask :: "sector_cache_block \<Rightarrow> byte_mask \<Rightarrow> sector_cache_block" where
  "sector_set_byte_mask b m = b\<lparr>s_dirty_byte_mask := s_dirty_byte_mask b OR m\<rparr>"

definition sector_fill ::
  "sector_cache_block \<Rightarrow> u32 \<Rightarrow> sector_mask \<Rightarrow> byte_mask \<Rightarrow> sector_cache_block option" where
  "sector_fill b time smask byte_mask = do {
     sidx \<leftarrow> get_sector_index smask;
     let b1 = b\<lparr>s_status := (s_status b)[sidx :=
           (if s_set_modified_on_fill b ! sidx then MODIFIED else VALID)]\<rparr>;
     let b2 = (if s_set_readable_on_fill b1 ! sidx
           then b1\<lparr>s_readable := (s_readable b1)[sidx := True],
                   s_set_readable_on_fill := (s_set_readable_on_fill b1)[sidx := False]\<rparr>
           else b1);
     let b3 = (if s_set_byte_mask_on_fill b2 then sector_set_byte_mask b2 byte_mask else b2);
     Some (b3\<lparr>s_sector_fill_time := (s_sector_fill_time b3)[sidx := time],
              s_line_fill_time := time\<rparr>)
   }"

fun sector_dirty_mask_from :: "cache_block_state list \<Rightarrow> nat \<Rightarrow> sector_mask \<Rightarrow> sector_mask" where
  "sector_dirty_mask_from [] i m = m"
| "sector_dirty_mask_from (st # sts) i m =
     sector_dirty_mask_from sts (Suc i) (if st = MODIFIED then set_bit i m else m)"

definition sector_get_dirty_sector_mask :: "sector_cache_block \<Rightarrow> sector_mask" where
  "sector_get_dirty_sector_mask b = sector_dirty_mask_from (s_status b) 0 0"

definition sector_get_modified_size :: "sector_cache_block \<Rightarrow> nat" where
  "sector_get_modified_size b = length (filter (\<lambda>st. st = MODIFIED) (s_status b)) * SECTOR_SIZE"


section \<open>Virtual dispatch\<close>

datatype cache_block = LineBlock line_cache_block | SectorBlock sector_cache_block

fun blk_tag :: "cache_block \<Rightarrow> u64" where
  "blk_tag (LineBlock b) = m_tag b"
| "blk_tag (SectorBlock b) = m_tag b"

fun blk_block_addr :: "cache_block \<Rightarrow> u64" where
  "blk_block_addr (LineBlock b) = m_block_addr b"
| "blk_block_addr (SectorBlock b) = m_block_addr b"

fun allocate :: "cache_block \<Rightarrow> u64 \<Rightarrow> u64 \<Rightarrow> u32 \<Rightarrow> sector_mask \<Rightarrow> cache_block option" where
  "allocate (LineBlock b) tag ba time m = Some (LineBlock (line_allocate b tag ba time))"
| "allocate (SectorBlock b) tag ba time m =
     map_option SectorBlock (sector_allocate_line b tag ba time m)"

text \<open>The cast to \<^verbatim>\<open>sector_cache_block *\<close> is guarded by the cache type at every call.\<close>

fun allocate_sector :: "cache_block \<Rightarrow> u32 \<Rightarrow> sector_mask \<Rightarrow> cache_block option" where
  "allocate_sector (LineBlock b) time m = None"
| "allocate_sector (SectorBlock b) time m = map_option SectorBlock (sector_allocate_sector b time m)"

fun block_fill :: "cache_block \<Rightarrow> u32 \<Rightarrow> sector_mask \<Rightarrow> byte_mask \<Rightarrow> cache_block option" where
  "block_fill (LineBlock b) time m bm = Some (LineBlock (line_fill b time bm))"
| "block_fill (SectorBlock b) time m bm = map_option SectorBlock (sector_fill b time m bm)"

fun is_invalid_line :: "cache_block \<Rightarrow> bool" where
  "is_invalid_line (LineBlock b) = (l_status b = INVALID)"
| "is_invalid_line (SectorBlock b) = sector_is_invalid_line b"

fun is_valid_line :: "cache_block \<Rightarrow> bool" where
  "is_valid_line (LineBlock b) = (l_status b = VALID)"
| "is_valid_line (SectorBlock b) = (\<not> sector_is_invalid_line b)"

fun is_reserved_line :: "cache_block \<Rightarrow> bool" where
  "is_reserved_line (LineBlock b) = (l_status b = RESERVED)"
| "is_reserved_line (SectorBlock b) = sector_is_reserved_line b"

fun is_modified_line :: "cache_block \<Rightarrow> bool" where
  "is_modified_line (LineBlock b) = (l_status b = MODIFIED)"
| "is_modified_line (SectorBlock b) = sector_is_modified_line b"

fun get_status :: "cache_block \<Rightarrow> sector_mask \<Rightarrow> cache_block_state option" where
  "get_status (LineBlock b) m = Some (l_status b)"
| "get_status (SectorBlock b) m = do { i \<leftarrow> get_sector_index m; Some (s_status b ! i) }"

fun set_status :: "cache_block \<Rightarrow> cache_block_state \<Rightarrow> sector_mask \<Rightarrow> cache_block option" where
  "set_status (LineBlock b) st m = Some (LineBlock (b\<lparr>l_status := st\<rparr>))"
| "set_status (SectorBlock b) st m = do {
     i \<leftarrow> get_sector_index m; Some (SectorBlock (b\<lparr>s_status := (s_status b)[i := st]\<rparr>)) }"

fun set_byte_mask :: "cache_block \<Rightarrow> byte_mask \<Rightarrow> cache_block" where
  "set_byte_mask (LineBlock b) bm = LineBlock (line_set_byte_mask b bm)"
| "set_byte_mask (SectorBlock b) bm = SectorBlock (sector_set_byte_mask b bm)"

fun get_dirty_byte_mask :: "cache_block \<Rightarrow> byte_mask" where
  "get_dirty_byte_mask (LineBlock b) = l_dirty_byte_mask b"
| "get_dirty_byte_mask (SectorBlock b) = s_dirty_byte_mask b"

fun get_dirty_sector_mask :: "cache_block \<Rightarrow> sector_mask" where
  "get_dirty_sector_mask (LineBlock b) = line_get_dirty_sector_mask b"
| "get_dirty_sector_mask (SectorBlock b) = sector_get_dirty_sector_mask b"

fun get_last_access_time :: "cache_block \<Rightarrow> u64" where
  "get_last_access_time (LineBlock b) = l_last_access_time b"
| "get_last_access_time (SectorBlock b) = ucast (s_line_last_access_time b)"

fun set_last_access_time :: "cache_block \<Rightarrow> u64 \<Rightarrow> sector_mask \<Rightarrow> cache_block option" where
  "set_last_access_time (LineBlock b) time m = Some (LineBlock (b\<lparr>l_last_access_time := time\<rparr>))"
| "set_last_access_time (SectorBlock b) time m = do {
     i \<leftarrow> get_sector_index m;
     Some (SectorBlock (b\<lparr>
       s_last_sector_access_time := (s_last_sector_access_time b)[i := ucast time],
       s_line_last_access_time := ucast time\<rparr>)) }"

fun get_alloc_time :: "cache_block \<Rightarrow> u64" where
  "get_alloc_time (LineBlock b) = l_alloc_time b"
| "get_alloc_time (SectorBlock b) = ucast (s_line_alloc_time b)"

fun set_ignore_on_fill :: "cache_block \<Rightarrow> bool \<Rightarrow> sector_mask \<Rightarrow> cache_block option" where
  "set_ignore_on_fill (LineBlock b) v m = Some (LineBlock (b\<lparr>l_ignore_on_fill_status := v\<rparr>))"
| "set_ignore_on_fill (SectorBlock b) v m = do {
     i \<leftarrow> get_sector_index m;
     Some (SectorBlock (b\<lparr>s_ignore_on_fill_status := (s_ignore_on_fill_status b)[i := v]\<rparr>)) }"

fun set_modified_on_fill :: "cache_block \<Rightarrow> bool \<Rightarrow> sector_mask \<Rightarrow> cache_block option" where
  "set_modified_on_fill (LineBlock b) v m = Some (LineBlock (b\<lparr>l_set_modified_on_fill := v\<rparr>))"
| "set_modified_on_fill (SectorBlock b) v m = do {
     i \<leftarrow> get_sector_index m;
     Some (SectorBlock (b\<lparr>s_set_modified_on_fill := (s_set_modified_on_fill b)[i := v]\<rparr>)) }"

fun set_byte_mask_on_fill :: "cache_block \<Rightarrow> bool \<Rightarrow> cache_block" where
  "set_byte_mask_on_fill (LineBlock b) v = LineBlock (b\<lparr>l_set_byte_mask_on_fill := v\<rparr>)"
| "set_byte_mask_on_fill (SectorBlock b) v = SectorBlock (b\<lparr>s_set_byte_mask_on_fill := v\<rparr>)"

fun set_readable_on_fill :: "cache_block \<Rightarrow> bool \<Rightarrow> sector_mask \<Rightarrow> cache_block option" where
  "set_readable_on_fill (LineBlock b) v m = Some (LineBlock (b\<lparr>l_set_readable_on_fill := v\<rparr>))"
| "set_readable_on_fill (SectorBlock b) v m = do {
     i \<leftarrow> get_sector_index m;
     Some (SectorBlock (b\<lparr>s_set_readable_on_fill := (s_set_readable_on_fill b)[i := v]\<rparr>)) }"

fun set_m_readable :: "cache_block \<Rightarrow> bool \<Rightarrow> sector_mask \<Rightarrow> cache_block option" where
  "set_m_readable (LineBlock b) v m = Some (LineBlock (b\<lparr>l_readable := v\<rparr>))"
| "set_m_readable (SectorBlock b) v m = do {
     i \<leftarrow> get_sector_index m;
     Some (SectorBlock (b\<lparr>s_readable := (s_readable b)[i := v]\<rparr>)) }"

fun is_readable :: "cache_block \<Rightarrow> sector_mask \<Rightarrow> bool option" where
  "is_readable (LineBlock b) m = Some (l_readable b)"
| "is_readable (SectorBlock b) m = do { i \<leftarrow> get_sector_index m; Some (s_readable b ! i) }"

fun get_modified_size :: "cache_block \<Rightarrow> nat" where
  "get_modified_size (LineBlock b) = SECTOR_CHUNCK_SIZE * SECTOR_SIZE"
| "get_modified_size (SectorBlock b) = sector_get_modified_size b"

lemma upt_0_4: "[0..<4] = [0, 1, 2, 3 :: nat]"
  by (simp add: upt_rec)

lemma bcount_sector:
  "bcount (m :: sector_mask) = of_bool (bit m 0) + of_bool (bit m 1) + of_bool (bit m 2) + of_bool (bit m 3)"
  by (simp add: bcount_def upt_0_4)

lemma all_less4: "(\<forall>i < (4::nat). P i) \<longleftrightarrow> P 0 \<and> P 1 \<and> P 2 \<and> P 3"
  by (auto simp: less_Suc_eq numeral_eq_Suc)

lemma ex_less4: "(\<exists>i < (4::nat). P i) \<longleftrightarrow> P 0 \<or> P 1 \<or> P 2 \<or> P 3"
  using all_less4 [of "\<lambda>i. \<not> P i"] by auto

lemma get_sector_index_Some:
  "get_sector_index m = Some i \<longleftrightarrow> i < 4 \<and> (\<forall>j < 4. bit m j \<longleftrightarrow> j = i)"
  by (cases "bit m 0"; cases "bit m 1"; cases "bit m 2"; cases "bit m 3")
    (auto simp: get_sector_index_def bcount_sector upt_0_4 all_less4)

lemma get_sector_index_bit [simp]: "j < 4 \<Longrightarrow> get_sector_index (sector_bit j) = Some j"
  by (auto simp: get_sector_index_Some sector_bit_def bit_simps)

lemma get_sector_index_less: "get_sector_index m = Some i \<Longrightarrow> i < 4"
  by (simp add: get_sector_index_Some)

lemma ex_lt4 [simp]: "\<exists>j. j < (4::nat)"
  by (rule exI [of _ 0]) simp

section \<open>Well-formed blocks\<close>

definition wf_sector :: "sector_cache_block \<Rightarrow> bool" where
  "wf_sector b \<longleftrightarrow> length (s_sector_alloc_time b) = 4 \<and> length (s_last_sector_access_time b) = 4
     \<and> length (s_sector_fill_time b) = 4 \<and> length (s_status b) = 4
     \<and> length (s_ignore_on_fill_status b) = 4 \<and> length (s_set_modified_on_fill b) = 4
     \<and> length (s_set_readable_on_fill b) = 4 \<and> length (s_readable b) = 4"

fun wf_block :: "cache_block \<Rightarrow> bool" where
  "wf_block (LineBlock b) = True"
| "wf_block (SectorBlock b) = wf_sector b"

lemma wf_sector_init [simp]: "wf_sector (sector_init b)"
  by (simp add: wf_sector_def sector_init_def)

lemmas sector_line_defs =
  sector_is_invalid_line_def sector_is_reserved_line_def sector_is_modified_line_def

lemma length4_conv: "length xs = 4 \<longleftrightarrow> (\<exists>a b c d. xs = [a, b, c, d])"
  by (auto simp: length_Suc_conv numeral_eq_Suc)

locale cache_block_iface =
  fixes alloc :: "'b \<Rightarrow> u64 \<Rightarrow> u64 \<Rightarrow> u32 \<Rightarrow> sector_mask \<Rightarrow> 'b option"
    and fill :: "'b \<Rightarrow> u32 \<Rightarrow> sector_mask \<Rightarrow> byte_mask \<Rightarrow> 'b option"
    and status :: "'b \<Rightarrow> sector_mask \<Rightarrow> cache_block_state option"
    and put_status :: "'b \<Rightarrow> cache_block_state \<Rightarrow> sector_mask \<Rightarrow> 'b option"
    and invalid :: "'b \<Rightarrow> bool" and reserved :: "'b \<Rightarrow> bool" and modified :: "'b \<Rightarrow> bool"
    and tag :: "'b \<Rightarrow> u64"
    and wf :: "'b \<Rightarrow> bool"
  assumes status_total: "get_sector_index m \<noteq> None \<Longrightarrow> status b m \<noteq> None"
    and invalid_iff: "wf b \<Longrightarrow> invalid b \<longleftrightarrow> (\<forall>j < 4. status b (sector_bit j) = Some INVALID)"
    and reserved_iff: "wf b \<Longrightarrow> reserved b \<longleftrightarrow> (\<exists>j < 4. status b (sector_bit j) = Some RESERVED)"
    and modified_iff: "wf b \<Longrightarrow> modified b \<longleftrightarrow> (\<exists>j < 4. status b (sector_bit j) = Some MODIFIED)"
    and status_of: "get_sector_index m = Some j \<Longrightarrow> status b m = status b (sector_bit j)"
    and alloc_ok: "wf b \<Longrightarrow> get_sector_index m \<noteq> None \<Longrightarrow>
      \<exists>b'. alloc b t a time m = Some b' \<and> wf b' \<and> tag b' = t \<and> status b' m = Some RESERVED
        \<and> \<not> modified b'"
    and fill_ok: "wf b \<Longrightarrow> get_sector_index m \<noteq> None \<Longrightarrow>
      \<exists>b'. fill b time m bm = Some b' \<and> wf b' \<and> tag b' = tag b
        \<and> (status b' m = Some VALID \<or> status b' m = Some MODIFIED)"
    and put_ok: "wf b \<Longrightarrow> get_sector_index m \<noteq> None \<Longrightarrow>
      \<exists>b'. put_status b st m = Some b' \<and> wf b' \<and> tag b' = tag b \<and> status b' m = Some st"
begin

lemma statusD: "wf b \<Longrightarrow> status b m = Some st \<Longrightarrow> get_sector_index m \<noteq> None \<Longrightarrow>
    (st = MODIFIED \<longrightarrow> modified b) \<and> (st = RESERVED \<longrightarrow> reserved b) \<and> (st \<noteq> INVALID \<longrightarrow> \<not> invalid b)"
  using status_of [of m] invalid_iff [of b] reserved_iff [of b] modified_iff [of b]
  by (auto dest: get_sector_index_less) 

text \<open>The life of a block: allocated it is reserved, filled it holds data.\<close>

lemma alloc_then_fill:
  assumes "wf b" and "get_sector_index m \<noteq> None"
  obtains b1 b2 where "alloc b t a time m = Some b1" and "reserved b1"
    and "fill b1 time' m bm = Some b2" and "tag b2 = t"
    and "status b2 m = Some VALID \<or> status b2 m = Some MODIFIED"
proof -
  obtain b1 where b1: "alloc b t a time m = Some b1" "wf b1" "tag b1 = t" "status b1 m = Some RESERVED"
    using alloc_ok [OF assms] by blast
  then have "reserved b1" using statusD assms(2) by blast
  with b1 show ?thesis using fill_ok [OF b1(2) assms(2)] that by metis
qed

lemma put_modified: "wf b \<Longrightarrow> put_status b MODIFIED m = Some b' \<Longrightarrow> get_sector_index m \<noteq> None \<Longrightarrow> modified b'"
  using put_ok [of b m MODIFIED] statusD by fastforce

end

interpretation line_if: cache_block_iface
  "\<lambda>b t a time m. Some (line_allocate b t a time)" "\<lambda>b time m bm. Some (line_fill b time bm)"
  "\<lambda>b m. Some (l_status b)" "\<lambda>b st m. Some (b\<lparr>l_status := st\<rparr>)"
  "\<lambda>b. l_status b = INVALID" "\<lambda>b. l_status b = RESERVED" "\<lambda>b. l_status b = MODIFIED"
  m_tag "\<lambda>b. True"
  by unfold_locales
    (auto simp: line_allocate_def line_fill_def line_set_byte_mask_def Let_def)

lemma sector_allocate_line_Some:
  "sector_allocate_line b t a time m = Some b' \<Longrightarrow>
    wf_sector b' \<and> m_tag b' = t \<and> m_block_addr b' = a \<and>
    (\<exists>i < 4. get_sector_index m = Some i \<and> s_status b' = (replicate 4 INVALID)[i := RESERVED])"
  by (auto simp: sector_allocate_line_def sector_init_def wf_sector_def bind_eq_Some_conv
      dest: get_sector_index_less)

lemma sector_fill_Some:
  "wf_sector b \<Longrightarrow> sector_fill b time m bm = Some b' \<Longrightarrow>
    wf_sector b' \<and> m_tag b' = m_tag b \<and> m_block_addr b' = m_block_addr b \<and>
    (\<exists>i < 4. get_sector_index m = Some i \<and> s_status b' = (s_status b)[i := (if s_set_modified_on_fill b ! i then MODIFIED else VALID)])"
  by (auto simp: sector_fill_def sector_set_byte_mask_def wf_sector_def bind_eq_Some_conv Let_def
      dest: get_sector_index_less)

interpretation sector_if: cache_block_iface
  sector_allocate_line sector_fill
  "\<lambda>b m. do { i \<leftarrow> get_sector_index m; Some (s_status b ! i) }"
  "\<lambda>b st m. do { i \<leftarrow> get_sector_index m; Some (b\<lparr>s_status := (s_status b)[i := st]\<rparr>) }"
  sector_is_invalid_line sector_is_reserved_line sector_is_modified_line
  m_tag wf_sector
proof unfold_locales
  fix b m t a time
  assume "wf_sector b" and m: "get_sector_index m \<noteq> None"
  then obtain b' where b': "sector_allocate_line b t a time m = Some b'"
    by (auto simp: sector_allocate_line_def)
  from sector_allocate_line_Some [OF b'] b'
  show "\<exists>b'. sector_allocate_line b t a time m = Some b' \<and> wf_sector b' \<and> m_tag b' = t \<and>
     Option.bind (get_sector_index m) (\<lambda>i. Some (s_status b' ! i)) = Some RESERVED \<and> \<not> sector_is_modified_line b'"
    by (auto simp: sector_is_modified_line_def nth_list_update split: if_splits)
next
  fix b m time bm
  assume wf: "wf_sector b" and m: "get_sector_index m \<noteq> None"
  then obtain b' where b': "sector_fill b time m bm = Some b'"
    by (auto simp: sector_fill_def Let_def)
  from sector_fill_Some [OF wf b'] b' wf
  show "\<exists>b'. sector_fill b time m bm = Some b' \<and> wf_sector b' \<and> m_tag b' = m_tag b \<and>
     (Option.bind (get_sector_index m) (\<lambda>i. Some (s_status b' ! i)) = Some VALID \<or>
      Option.bind (get_sector_index m) (\<lambda>i. Some (s_status b' ! i)) = Some MODIFIED)"
    by (auto simp: wf_sector_def)
next
  fix b m st
  assume wf: "wf_sector b" and m: "get_sector_index m \<noteq> None"
  then obtain i where i: "get_sector_index m = Some i" "i < 4"
    using get_sector_index_less by auto
  with wf show "\<exists>b'. Option.bind (get_sector_index m) (\<lambda>i. Some (b\<lparr>s_status := (s_status b)[i := st]\<rparr>)) = Some b' \<and>
      wf_sector b' \<and> m_tag b' = m_tag b \<and>
      Option.bind (get_sector_index m) (\<lambda>i. Some (s_status b' ! i)) = Some st"
    by (simp add: wf_sector_def)
qed (auto simp: sector_line_defs dest: get_sector_index_less)


lemma blk_line_iff:
  "is_invalid_line b \<longleftrightarrow> (\<forall>j < 4. get_status b (sector_bit j) = Some INVALID)"
  "is_reserved_line b \<longleftrightarrow> (\<exists>j < 4. get_status b (sector_bit j) = Some RESERVED)"
  "is_modified_line b \<longleftrightarrow> (\<exists>j < 4. get_status b (sector_bit j) = Some MODIFIED)"
  by (cases b; auto simp: sector_line_defs)+

interpretation blk: cache_block_iface
  allocate block_fill get_status set_status is_invalid_line is_reserved_line is_modified_line
  blk_tag wf_block
proof unfold_locales
  fix b m t a time
  assume wf: "wf_block b" and m: "get_sector_index m \<noteq> None"
  show "\<exists>b'. allocate b t a time m = Some b' \<and> wf_block b' \<and> blk_tag b' = t \<and>
      get_status b' m = Some RESERVED \<and> \<not> is_modified_line b'"
  proof (cases b)
    case (LineBlock l)
    then show ?thesis using line_if.alloc_ok [OF TrueI m] by auto
  next
    case (SectorBlock c)
    then show ?thesis using sector_if.alloc_ok [OF _ m, of c] wf by fastforce
  qed
next
  fix b m time bm
  assume wf: "wf_block b" and m: "get_sector_index m \<noteq> None"
  show "\<exists>b'. block_fill b time m bm = Some b' \<and> wf_block b' \<and> blk_tag b' = blk_tag b \<and>
      (get_status b' m = Some VALID \<or> get_status b' m = Some MODIFIED)"
  proof (cases b)
    case (LineBlock l)
    then show ?thesis using line_if.fill_ok [OF TrueI m] by auto
  next
    case (SectorBlock c)
    then show ?thesis using sector_if.fill_ok [OF _ m, of c] wf by fastforce
  qed
next
  fix b m st
  assume wf: "wf_block b" and m: "get_sector_index m \<noteq> None"
  show "\<exists>b'. set_status b st m = Some b' \<and> wf_block b' \<and> blk_tag b' = blk_tag b \<and>
      get_status b' m = Some st"
  proof (cases b)
    case (LineBlock l)
    then show ?thesis by simp
  next
    case (SectorBlock c)
    then show ?thesis using sector_if.put_ok [OF _ m, of c st] wf m by auto
  qed
next
  fix b m
  assume "get_sector_index m \<noteq> None"
  then show "get_status b m \<noteq> None" by (cases b) auto
next
  fix b m j
  assume "get_sector_index m = Some j"
  then show "get_status b m = get_status b (sector_bit j)"
    by (cases b) (auto dest: get_sector_index_less)
qed (rule blk_line_iff)+

section \<open>What the other operations leave alone\<close>

text \<open>\<open>same_state b b'\<close>: tag, address and every sector's state agree.\<close>

definition same_state :: "cache_block \<Rightarrow> cache_block \<Rightarrow> bool" where
  "same_state b b' \<longleftrightarrow> blk_tag b' = blk_tag b \<and> blk_block_addr b' = blk_block_addr b
     \<and> (\<forall>m. get_status b' m = get_status b m)
     \<and> is_invalid_line b' = is_invalid_line b \<and> is_reserved_line b' = is_reserved_line b
     \<and> is_modified_line b' = is_modified_line b \<and> is_valid_line b' = is_valid_line b
     \<and> (wf_block b \<longrightarrow> wf_block b')"

lemma same_state_refl [simp]: "same_state b b"
  by (simp add: same_state_def)

lemma same_state_trans [trans]: "same_state a b \<Longrightarrow> same_state b c \<Longrightarrow> same_state a c"
  by (simp add: same_state_def)

lemma same_state_ops:
  "same_state b (set_byte_mask b bm)"
  "same_state b (set_byte_mask_on_fill b v)"
  "set_last_access_time b t m = Some b' \<Longrightarrow> same_state b b'"
  "set_ignore_on_fill b v m = Some b' \<Longrightarrow> same_state b b'"
  "set_modified_on_fill b v m = Some b' \<Longrightarrow> same_state b b'"
  "set_readable_on_fill b v m = Some b' \<Longrightarrow> same_state b b'"
  "set_m_readable b v m = Some b' \<Longrightarrow> same_state b b'"
  by (cases b; auto simp: same_state_def line_set_byte_mask_def sector_set_byte_mask_def
      sector_line_defs wf_sector_def bind_eq_Some_conv)+

lemma block_ops_total:
  assumes "get_sector_index m = Some i"
  shows "set_last_access_time b t m \<noteq> None" "set_ignore_on_fill b v m \<noteq> None"
    "set_modified_on_fill b v m \<noteq> None" "set_readable_on_fill b v m \<noteq> None"
    "set_m_readable b v m \<noteq> None" "is_readable b m \<noteq> None" "get_status b m \<noteq> None"
    "set_status b st m \<noteq> None" "allocate b tg a time m \<noteq> None" "block_fill b time m bm \<noteq> None"
  using assms by (cases b; simp add: sector_allocate_line_def sector_fill_def Let_def)+

lemma valid_not_invalid: "is_valid_line b \<Longrightarrow> \<not> is_invalid_line b"
  by (cases b) auto

lemma allocate_addr: "allocate b t a time m = Some b' \<Longrightarrow> blk_tag b' = t \<and> blk_block_addr b' = a"
  by (cases b) (auto simp: line_allocate_def dest: sector_allocate_line_Some)

lemma fill_addr: "block_fill b time m bm = Some b' \<Longrightarrow>
    blk_tag b' = blk_tag b \<and> blk_block_addr b' = blk_block_addr b"
  by (cases b) (auto simp: line_fill_def line_set_byte_mask_def sector_fill_def sector_set_byte_mask_def
      Let_def bind_eq_Some_conv)

lemma set_status_addr: "set_status b st m = Some b' \<Longrightarrow>
    blk_tag b' = blk_tag b \<and> blk_block_addr b' = blk_block_addr b"
  by (cases b) (auto simp: bind_eq_Some_conv)

section \<open>A sector is re-fetched without losing its dirty state\<close>

lemma sector_allocate_sector_Some:
  "wf_sector b \<Longrightarrow> sector_allocate_sector b time m = Some b' \<Longrightarrow>
    wf_sector b' \<and> m_tag b' = m_tag b \<and> m_block_addr b' = m_block_addr b \<and>
    (\<exists>i < 4. get_sector_index m = Some i \<and> s_status b' = (s_status b)[i := RESERVED] \<and>
      s_set_modified_on_fill b' = (s_set_modified_on_fill b)[i := s_status b ! i = MODIFIED])"
  by (auto simp: sector_allocate_sector_def wf_sector_def bind_eq_Some_conv dest: get_sector_index_less)

lemma sector_refetch_status:
  assumes "wf_sector b" and "sector_allocate_sector b time m = Some b1"
    and "sector_fill b1 time' m bm = Some b2"
  shows "\<exists>i < 4. get_sector_index m = Some i \<and>
    s_status b2 = (s_status b)[i := (if s_status b ! i = MODIFIED then MODIFIED else VALID)]"
proof -
  from sector_allocate_sector_Some [OF assms(1,2)] obtain i where i: "i < 4" "wf_sector b1"
      "get_sector_index m = Some i" "s_status b1 = (s_status b)[i := RESERVED]"
      "s_set_modified_on_fill b1 = (s_set_modified_on_fill b)[i := s_status b ! i = MODIFIED]"
    by auto
  with sector_fill_Some [OF i(2) assms(3)] assms(1) show ?thesis
    by (auto simp: wf_sector_def)
qed

end
