(* ===== verification/Cache_Config.thy ===== *)
theory Cache_Config
  imports Cache_Types
begin

text \<open>
  \<^verbatim>\<open>class cache_config\<close> of \<^verbatim>\<open>src/gpgpu-sim/gpu-cache.h\<close>: the parameters of a cache, their
  construction from the tokens of a configuration string (\<^verbatim>\<open>init\<close>, with every parse error and
  assertion), the address functions \<^verbatim>\<open>tag\<close>, \<^verbatim>\<open>block_addr\<close>, \<^verbatim>\<open>mshr_addr\<close>, and \<^verbatim>\<open>LOGB2\<close> of
  \<^verbatim>\<open>src/gpgpu-sim/gpu-misc.cc\<close>. The members a \<^verbatim>\<open>union\<close> overlays for texture caches are the same
  fields here.
\<close>

datatype replacement_policy_t = LRU | FIFO

datatype write_policy_t = READ_ONLY | WRITE_BACK | WRITE_THROUGH | WRITE_EVICT | LOCAL_WB_GLOBAL_WT

datatype allocation_policy_t = ON_MISS | ON_FILL | STREAMING

datatype write_allocate_policy_t =
  NO_WRITE_ALLOCATE | WRITE_ALLOCATE | FETCH_ON_WRITE | LAZY_FETCH_ON_READ

datatype mshr_config_t = TEX_FIFO | ASSOC | SECTOR_TEX_FIFO | SECTOR_ASSOC

datatype set_index_function =
  LINEAR_SET_FUNCTION | BITWISE_XORING_FUNCTION | HASH_IPOLY_FUNCTION | FERMI_HASH_SET_FUNCTION
| CUSTOM_SET_FUNCTION

datatype cache_type = NORMAL | SECTOR

record cache_config =
  m_valid :: bool
  m_disabled :: bool
  m_cache_type :: cache_type
  m_replacement_policy :: replacement_policy_t
  m_write_policy :: write_policy_t
  m_alloc_policy :: allocation_policy_t
  m_is_streaming :: bool
  m_write_alloc_policy :: write_allocate_policy_t
  m_mshr_type :: mshr_config_t
  m_set_index_function :: set_index_function
  m_nset :: nat
  m_nset_log2 :: nat
  m_line_sz :: nat
  m_line_sz_log2 :: nat
  m_assoc :: nat
  original_m_assoc :: nat
  m_atom_sz :: nat
  m_sector_sz_log2 :: nat
  m_mshr_entries :: nat
  m_mshr_max_merge :: nat
  m_miss_queue_size :: nat
  m_result_fifo_entries :: nat
  m_data_port_width :: nat
  m_wr_percent :: nat

section \<open>The binary logarithm\<close>

text \<open>\<^verbatim>\<open>LOGB2\<close>: a binary search over the bits of a 32-bit value.\<close>

definition logb2_stage :: "u32 \<Rightarrow> nat \<Rightarrow> u32 \<times> nat \<Rightarrow> u32 \<times> nat" where
  "logb2_stage m s vr = (let (v, r) = vr; shift = (if v AND m \<noteq> 0 then s else 0)
     in (drop_bit shift v, r OR shift))"

definition LOGB2 :: "u32 \<Rightarrow> nat" where
  "LOGB2 v = snd (logb2_stage 0x2 1 (logb2_stage 0xC 2 (logb2_stage 0xF0 4
     (logb2_stage 0xFF00 8 (logb2_stage 0xFFFF0000 16 (v, 0))))))"

section \<open>Building a configuration\<close>

text \<open>
  What \<^verbatim>\<open>sscanf\<close> read: the number of fields converted and their values. A field that was not
  converted keeps the member's earlier value (the constructor sets the data port width to 0).
\<close>

record config_tokens =
  tk_ntok :: nat
  tk_is_none :: bool
  tk_ct :: char
  tk_nset :: nat
  tk_line_sz :: nat
  tk_assoc :: nat
  tk_rp :: char
  tk_wp :: char
  tk_ap :: char
  tk_wap :: char
  tk_sif :: char
  tk_mshr_type :: char
  tk_mshr_entries :: nat
  tk_mshr_max_merge :: nat
  tk_miss_queue_size :: nat
  tk_result_fifo_entries :: nat
  tk_data_port_width :: nat

datatype config_error =
  Parse_error          \<comment> \<open>\<^verbatim>\<open>exit_parse_error()\<close>\<close>
| Assertion_failed     \<comment> \<open>an \<^verbatim>\<open>assert\<close> of \<^verbatim>\<open>init\<close>\<close>
| Division_by_zero     \<comment> \<open>\<^verbatim>\<open>m_line_sz % m_data_port_width\<close> with a zero port width\<close>

definition parse_cache_type :: "char \<Rightarrow> cache_type option" where
  "parse_cache_type c =
     (if c = CHR ''N'' then Some NORMAL else if c = CHR ''S'' then Some SECTOR else None)"

definition parse_replacement :: "char \<Rightarrow> replacement_policy_t option" where
  "parse_replacement c =
     (if c = CHR ''L'' then Some LRU else if c = CHR ''F'' then Some FIFO else None)"

definition parse_write_policy :: "char \<Rightarrow> write_policy_t option" where
  "parse_write_policy c =
     (if c = CHR ''R'' then Some READ_ONLY
      else if c = CHR ''B'' then Some WRITE_BACK
      else if c = CHR ''T'' then Some WRITE_THROUGH
      else if c = CHR ''E'' then Some WRITE_EVICT
      else if c = CHR ''L'' then Some LOCAL_WB_GLOBAL_WT else None)"

definition parse_alloc_policy :: "char \<Rightarrow> allocation_policy_t option" where
  "parse_alloc_policy c =
     (if c = CHR ''m'' then Some ON_MISS
      else if c = CHR ''f'' then Some ON_FILL
      else if c = CHR ''s'' then Some STREAMING else None)"

definition parse_mshr_type :: "char \<Rightarrow> mshr_config_t option" where
  "parse_mshr_type c =
     (if c = CHR ''F'' then Some TEX_FIFO
      else if c = CHR ''T'' then Some SECTOR_TEX_FIFO
      else if c = CHR ''A'' then Some ASSOC
      else if c = CHR ''S'' then Some SECTOR_ASSOC else None)"

definition parse_write_alloc :: "char \<Rightarrow> write_allocate_policy_t option" where
  "parse_write_alloc c =
     (if c = CHR ''N'' then Some NO_WRITE_ALLOCATE
      else if c = CHR ''W'' then Some WRITE_ALLOCATE
      else if c = CHR ''F'' then Some FETCH_ON_WRITE
      else if c = CHR ''L'' then Some LAZY_FETCH_ON_READ else None)"

definition parse_set_index :: "char \<Rightarrow> set_index_function option" where
  "parse_set_index c =
     (if c = CHR ''H'' then Some FERMI_HASH_SET_FUNCTION
      else if c = CHR ''P'' then Some HASH_IPOLY_FUNCTION
      else if c = CHR ''C'' then Some CUSTOM_SET_FUNCTION
      else if c = CHR ''L'' then Some LINEAR_SET_FUNCTION
      else if c = CHR ''X'' then Some BITWISE_XORING_FUNCTION else None)"

definition require :: "'e \<Rightarrow> 'a option \<Rightarrow> ('a \<Rightarrow> 'e + 'b) \<Rightarrow> 'e + 'b" where
  "require e x f = (case x of None \<Rightarrow> Inl e | Some v \<Rightarrow> f v)"

definition check :: "'e \<Rightarrow> bool \<Rightarrow> 'e + 'b \<Rightarrow> 'e + 'b" where
  "check e b k = (if b then k else Inl e)"

definition config_init :: "cache_config \<Rightarrow> config_tokens \<Rightarrow> config_error + cache_config" where
  "config_init c t =
    (if tk_ntok t < 12 then
       (if tk_is_none t then Inr (c\<lparr>m_disabled := True\<rparr>) else Inl Parse_error)
     else
     require Parse_error (parse_cache_type (tk_ct t)) (\<lambda>ct.
     require Parse_error (parse_replacement (tk_rp t)) (\<lambda>rp.
     require Parse_error (parse_write_policy (tk_wp t)) (\<lambda>wp.
     require Parse_error (parse_alloc_policy (tk_ap t)) (\<lambda>ap0.
     let is_streaming = (if ap0 = STREAMING then True else m_is_streaming c);
         ap = (if ap0 = STREAMING then ON_FILL else ap0) in
     require Parse_error (parse_mshr_type (tk_mshr_type t)) (\<lambda>mt.
     check Assertion_failed (mt \<in> {TEX_FIFO, SECTOR_TEX_FIFO} \<longrightarrow> tk_ntok t = 14) (
     let atom = (if ct = SECTOR then 32 else tk_line_sz t) in
     require Parse_error (parse_write_alloc (tk_wap t)) (\<lambda>wap.
     check Assertion_failed (\<not> ((ap = ON_FILL \<or> ap = STREAMING) \<and> wp = WRITE_BACK)) (
     check Assertion_failed (\<not> ((wap = FETCH_ON_WRITE \<or> wap = LAZY_FETCH_ON_READ) \<and> ap = ON_FILL)) (
     check Assertion_failed (ct = SECTOR \<longrightarrow> tk_line_sz t div 32 = 4 \<and> tk_line_sz t mod 32 = 0) (
     let width = (if tk_data_port_width t = 0 then tk_line_sz t else tk_data_port_width t) in
     check Division_by_zero (width \<noteq> 0) (
     check Assertion_failed (tk_line_sz t mod width = 0) (
     require Parse_error (parse_set_index (tk_sif t)) (\<lambda>sif.
     Inr (c\<lparr>m_valid := True, m_cache_type := ct, m_replacement_policy := rp, m_write_policy := wp,
        m_alloc_policy := ap, m_is_streaming := is_streaming, m_write_alloc_policy := wap,
        m_mshr_type := mt, m_set_index_function := sif,
        m_nset := tk_nset t, m_nset_log2 := LOGB2 (of_nat (tk_nset t)),
        m_line_sz := tk_line_sz t, m_line_sz_log2 := LOGB2 (of_nat (tk_line_sz t)),
        m_assoc := tk_assoc t, original_m_assoc := tk_assoc t,
        m_atom_sz := atom, m_sector_sz_log2 := LOGB2 32,
        m_mshr_entries := tk_mshr_entries t, m_mshr_max_merge := tk_mshr_max_merge t,
        m_miss_queue_size := tk_miss_queue_size t,
        m_result_fifo_entries := tk_result_fifo_entries t,
        m_data_port_width := width\<rparr>)))))))))))))))"

section \<open>Addresses\<close>

definition tag :: "cache_config \<Rightarrow> u64 \<Rightarrow> u64" where
  "tag c addr = addr AND NOT (ucast (of_nat (m_line_sz c) - 1 :: u32))"

definition block_addr :: "cache_config \<Rightarrow> u64 \<Rightarrow> u64" where
  "block_addr c addr = addr AND NOT (ucast (of_nat (m_line_sz c) - 1 :: u32))"

definition mshr_addr :: "cache_config \<Rightarrow> u64 \<Rightarrow> u64" where
  "mshr_addr c addr = addr AND NOT (ucast (of_nat (m_atom_sz c) - 1 :: u32))"

definition get_num_lines :: "cache_config \<Rightarrow> nat" where
  "get_num_lines c = m_nset c * m_assoc c"

definition get_max_num_lines :: "cache_config \<Rightarrow> nat" where
  "get_max_num_lines c = 4 * m_nset c * original_m_assoc c"

section \<open>Lemmas\<close>

lemma or_shifts:
  "a \<in> {0, 16} \<Longrightarrow> b \<in> {0, 8} \<Longrightarrow> c \<in> {0, 4} \<Longrightarrow> d \<in> {0, 2} \<Longrightarrow> e \<in> {0, 1 :: nat} \<Longrightarrow>
    (((((0 OR a) OR b) OR c) OR d) OR e) = a + b + c + d + e"
  by (elim insertE emptyE; hypsubst; simp)

lemma logb2_stage_unat:
  assumes "unat v < 2 ^ (2 * s)" and "m = push_bit s (mask s)" and "0 < s"
  shows "logb2_stage m s (v, r) = (drop_bit (if 2 ^ s \<le> unat v then s else 0) v, r OR (if 2 ^ s \<le> unat v then s else 0))"
proof -
  have "unat (drop_bit (2 * s) v) = 0"
    using assms(1) by (simp only: unat_drop_bit_div div_less)
  then have zero: "drop_bit (2 * s) v = 0" by (simp add: unat_eq_zero)
  have "i < 2 * s" if "bit v i" for i
  proof (rule ccontr)
    assume "\<not> i < 2 * s"
    with that have "bit (drop_bit (2 * s) v) (i - 2 * s)" by (simp add: bit_drop_bit_eq)
    with zero show False by simp
  qed
  then have "v AND m = push_bit s (drop_bit s v)"
    unfolding assms(2) by (intro bit_word_eqI) (auto simp: bit_simps less_diff_conv2 mult_2)
  moreover have "push_bit s (drop_bit s v) \<noteq> 0 \<longleftrightarrow> 2 ^ s \<le> unat v"
  proof -
    have "push_bit s (drop_bit s v) \<noteq> 0 \<longleftrightarrow> unat (push_bit s (drop_bit s v)) \<noteq> 0"
      by (simp add: unat_eq_zero)
    also have "\<dots> \<longleftrightarrow> 2 ^ s \<le> unat v"
      unfolding unat_push_drop by (simp add: div_eq_0_iff not_less)
    finally show ?thesis .
  qed
  ultimately show ?thesis by (simp add: logb2_stage_def Let_def)
qed

text \<open>
  the five-stage binary search of \<^verbatim>\<open>LOGB2\<close> computes the position of the highest set bit: for a
  nonzero 32-bit value \<open>v\<close>, \<open>2 ^ LOGB2 v\<close> is the greatest power of two not above \<open>v\<close>.
\<close>

theorem LOGB2_floor:
  assumes "v \<noteq> 0"
  shows "2 ^ LOGB2 v \<le> unat v \<and> unat v < 2 ^ Suc (LOGB2 v)"
proof -
  define s0 where "s0 = (if 2 ^ 16 \<le> unat v then 16 else 0 :: nat)"
  define v1 where "v1 = drop_bit s0 v"
  define s1 where "s1 = (if 2 ^ 8 \<le> unat v1 then 8 else 0 :: nat)"
  define v2 where "v2 = drop_bit s1 v1"
  define s2 where "s2 = (if 2 ^ 4 \<le> unat v2 then 4 else 0 :: nat)"
  define v3 where "v3 = drop_bit s2 v2"
  define s3 where "s3 = (if 2 ^ 2 \<le> unat v3 then 2 else 0 :: nat)"
  define v4 where "v4 = drop_bit s3 v3"
  define s4 where "s4 = (if 2 ^ 1 \<le> unat v4 then 1 else 0 :: nat)"
  define v5 where "v5 = drop_bit s4 v4"
  have l0: "unat v < 2 ^ (2 * 16)" using unsigned_less [of v] by simp
  have shrink: "unat w < 2 ^ (2 * k) \<Longrightarrow> unat (drop_bit (if 2 ^ k \<le> unat w then k else 0) w) < 2 ^ k"
    for w :: u32 and k by (auto simp: unat_drop_bit_div less_mult_imp_div_less power2_eq_square mult_2 power_add)
  have keep: "unat w \<noteq> 0 \<Longrightarrow> unat (drop_bit (if 2 ^ k \<le> unat w then k else 0) w) \<noteq> 0" for w :: u32 and k
    by (auto simp: unat_drop_bit_div div_eq_0_iff)
  have l1: "unat v1 < 2 ^ (2 * 8)" using shrink [OF l0] by (simp add: v1_def s0_def)
  have l2: "unat v2 < 2 ^ (2 * 4)" using shrink [OF l1] by (simp add: v2_def s1_def)
  have l3: "unat v3 < 2 ^ (2 * 2)" using shrink [OF l2] by (simp add: v3_def s2_def)
  have l4: "unat v4 < 2 ^ (2 * 1)" using shrink [OF l3] by (simp add: v4_def s3_def)
  have l5: "unat v5 < 2" using shrink [OF l4] by (simp add: v5_def s4_def)
  have "unat v \<noteq> 0" using assms by (simp add: unat_eq_zero)
  then have "unat v1 \<noteq> 0" using keep [of v 16] by (simp add: v1_def s0_def)
  then have "unat v2 \<noteq> 0" using keep [of v1 8] by (simp add: v2_def s1_def)
  then have "unat v3 \<noteq> 0" using keep [of v2 4] by (simp add: v3_def s2_def)
  then have "unat v4 \<noteq> 0" using keep [of v3 2] by (simp add: v4_def s3_def)
  then have "unat v5 \<noteq> 0" using keep [of v4 1] by (simp add: v5_def s4_def)
  with l5 have one: "unat v5 = 1" by simp
  have "unat v5 = unat v div 2 ^ (s0 + s1 + s2 + s3 + s4)"
    by (simp add: v5_def v4_def v3_def v2_def v1_def unat_drop_bit_div power_add ac_simps flip: div_mult2_eq)
  with one have "unat v div 2 ^ (s0 + s1 + s2 + s3 + s4) = 1" by simp
  then have bounds: "2 ^ (s0 + s1 + s2 + s3 + s4) \<le> unat v \<and> unat v < 2 ^ Suc (s0 + s1 + s2 + s3 + s4)"
    by (simp only: power_Suc div_eq_1_iff zero_less_power zero_less_numeral)
  note st = logb2_stage_unat
  have "logb2_stage 0xFFFF0000 16 (v, 0) = (v1, 0 OR s0)"
    unfolding v1_def s0_def by (rule st [OF l0]) (simp_all add: mask_eq_exp_minus_1 push_bit_eq_mult)
  moreover have "logb2_stage 0xFF00 8 (v1, r) = (v2, r OR s1)" for r
    unfolding v2_def s1_def by (rule st [OF l1]) (simp_all add: mask_eq_exp_minus_1 push_bit_eq_mult)
  moreover have "logb2_stage 0xF0 4 (v2, r) = (v3, r OR s2)" for r
    unfolding v3_def s2_def by (rule st [OF l2]) (simp_all add: mask_eq_exp_minus_1 push_bit_eq_mult)
  moreover have "logb2_stage 0xC 2 (v3, r) = (v4, r OR s3)" for r
    unfolding v4_def s3_def by (rule st [OF l3]) (simp_all add: mask_eq_exp_minus_1 push_bit_eq_mult)
  moreover have "logb2_stage 0x2 1 (v4, r) = (v5, r OR s4)" for r
    unfolding v5_def s4_def by (rule st [OF l4]) (simp_all add: mask_eq_exp_minus_1 push_bit_eq_mult)
  ultimately have "LOGB2 v = (((((0 OR s0) OR s1) OR s2) OR s3) OR s4)"
    by (simp only: LOGB2_def snd_conv)
  also have "\<dots> = s0 + s1 + s2 + s3 + s4"
    by (rule or_shifts) (simp_all add: s0_def s1_def s2_def s3_def s4_def)
  finally show ?thesis using bounds by simp
qed

lemma LOGB2_floor_witness:
  "(100 :: u32) \<noteq> 0 \<and> 2 ^ LOGB2 100 \<le> unat (100 :: u32) \<and> unat (100 :: u32) < 2 ^ Suc (LOGB2 100)
   \<and> LOGB2 100 = 6"
proof -
  have "(100 :: u32) \<noteq> 0" by simp
  moreover have "LOGB2 100 = 6" by (simp add: LOGB2_def logb2_stage_def)
  ultimately show ?thesis using LOGB2_floor [of 100] by blast
qed

lemma line_mask:
  assumes "k < 32"
  shows "ucast (of_nat (2 ^ k) - 1 :: u32) = (mask k :: u64)"
proof -
  have "(of_nat (2 ^ k) - 1 :: u32) = mask k" by (simp add: mask_eq_exp_minus_1)
  then show ?thesis using assms by (intro bit_word_eqI) (auto simp: bit_simps)
qed

lemma block_addr_mask: "m_line_sz c = 2 ^ k \<Longrightarrow> k < 32 \<Longrightarrow> block_addr c a = a AND NOT (mask k)"
  by (simp only: block_addr_def line_mask)

lemma mshr_addr_mask: "m_atom_sz c = 2 ^ k \<Longrightarrow> k < 32 \<Longrightarrow> mshr_addr c a = a AND NOT (mask k)"
  by (simp only: mshr_addr_def line_mask)

lemma tag_eq_block_addr: "tag c a = block_addr c a"
  by (simp add: tag_def block_addr_def)

lemma block_addr_idem [simp]: "block_addr c (block_addr c a) = block_addr c a"
  by (simp add: block_addr_def and.assoc)

text \<open>
  with a line of \<open>2 ^ k\<close> bytes and an atom of \<open>2 ^ j\<close> bytes, \<^verbatim>\<open>block_addr\<close> is the address of the
  line that holds \<open>a\<close>, two addresses have the same block exactly when they lie in the same line, and
  the MSHR address of a request lies in the request's own line.
\<close>

theorem block_addr_spec:
  assumes "m_line_sz c = 2 ^ k" and "m_atom_sz c = 2 ^ j" and "j \<le> k" and "k < 32"
  shows "unat (block_addr c a) = unat a div 2 ^ k * 2 ^ k \<and>
    (block_addr c a = block_addr c b \<longleftrightarrow> unat a div 2 ^ k = unat b div 2 ^ k) \<and>
    block_addr c (mshr_addr c a) = block_addr c a"
proof -
  have *: "unat (block_addr c a) = unat a div 2 ^ k * 2 ^ k" for a
    using assms by (simp add: block_addr_mask unat_and_not_mask)
  have "block_addr c a = block_addr c b \<longleftrightarrow> unat a div 2 ^ k = unat b div 2 ^ k"
    using * [of a] * [of b] by (simp add: word_unat_eq_iff)
  moreover have "block_addr c (mshr_addr c a) = block_addr c a"
    using assms by (simp add: block_addr_mask mshr_addr_mask and_not_mask_le)
  ultimately show ?thesis using * by blast
qed

lemma require_Inr: "require e x f = Inr y \<longleftrightarrow> (\<exists>v. x = Some v \<and> f v = Inr y)"
  by (auto simp: require_def split: option.splits)

lemma check_Inr: "check e b k = Inr y \<longleftrightarrow> b \<and> k = Inr y"
  by (simp add: check_def)

text \<open>
  A configuration that \<^verbatim>\<open>init\<close> accepts is consistent: a streaming cache has become allocate-on-fill,
  allocate-on-fill excludes write-back and the two fetching write policies, a sector cache has
  128-byte lines with 32-byte atoms, and the data port width is positive and divides the line.
\<close>

theorem config_init_valid:
  assumes "config_init c t = Inr c'" and "12 \<le> tk_ntok t"
  shows "m_valid c' \<and> m_alloc_policy c' \<noteq> STREAMING \<and>
    (m_alloc_policy c' = ON_FILL \<longrightarrow> m_write_policy c' \<noteq> WRITE_BACK \<and>
      m_write_alloc_policy c' \<notin> {FETCH_ON_WRITE, LAZY_FETCH_ON_READ}) \<and>
    (m_cache_type c' = SECTOR \<longrightarrow> m_line_sz c' = 128 \<and> m_atom_sz c' = 32) \<and>
    (m_cache_type c' = NORMAL \<longrightarrow> m_atom_sz c' = m_line_sz c') \<and>
    0 < m_data_port_width c' \<and> m_data_port_width c' dvd m_line_sz c'"
proof -
  have sector: "n div 32 = 4 \<and> n mod 32 = 0 \<Longrightarrow> n = 128" for n :: nat
    using div_mult_mod_eq [of n 32] by simp
  from assms(2) have "\<not> tk_ntok t < 12" by simp
  with assms(1) show ?thesis
    unfolding config_init_def Let_def
    apply (simp only: if_False require_Inr check_Inr sum.inject)
    apply (elim exE conjE, hypsubst)
    subgoal for ct rp wp ap mt wap sif
      by (cases ap; cases ct) (simp_all add: sector dvd_eq_mod_eq_0)
    done
qed

text \<open>The L2 slice of \<^verbatim>\<open>configs/tested-cfgs/SM7_QV100\<close>: \<^verbatim>\<open>S:32:128:24,L:B:m:L:P,A:192:4,32:0,32\<close>.\<close>

definition config_blank :: cache_config where
  "config_blank = \<lparr>m_valid = False, m_disabled = False, m_cache_type = NORMAL,
     m_replacement_policy = LRU, m_write_policy = READ_ONLY, m_alloc_policy = ON_MISS,
     m_is_streaming = False, m_write_alloc_policy = NO_WRITE_ALLOCATE, m_mshr_type = ASSOC,
     m_set_index_function = LINEAR_SET_FUNCTION, m_nset = 0, m_nset_log2 = 0, m_line_sz = 0,
     m_line_sz_log2 = 0, m_assoc = 0, original_m_assoc = 0, m_atom_sz = 0, m_sector_sz_log2 = 0,
     m_mshr_entries = 0, m_mshr_max_merge = 0, m_miss_queue_size = 0, m_result_fifo_entries = 0,
     m_data_port_width = 0, m_wr_percent = 0\<rparr>"

definition l2_tokens :: config_tokens where
  "l2_tokens = \<lparr>tk_ntok = 15, tk_is_none = False, tk_ct = CHR ''S'', tk_nset = 32, tk_line_sz = 128,
     tk_assoc = 24, tk_rp = CHR ''L'', tk_wp = CHR ''B'', tk_ap = CHR ''m'', tk_wap = CHR ''L'',
     tk_sif = CHR ''P'', tk_mshr_type = CHR ''A'', tk_mshr_entries = 192, tk_mshr_max_merge = 4,
     tk_miss_queue_size = 32, tk_result_fifo_entries = 0, tk_data_port_width = 32\<rparr>"

definition l2_config :: cache_config where
  "l2_config = config_blank\<lparr>m_valid := True, m_cache_type := SECTOR, m_write_policy := WRITE_BACK,
     m_write_alloc_policy := LAZY_FETCH_ON_READ, m_set_index_function := HASH_IPOLY_FUNCTION,
     m_nset := 32, m_nset_log2 := 5, m_line_sz := 128, m_line_sz_log2 := 7, m_assoc := 24,
     original_m_assoc := 24, m_atom_sz := 32, m_sector_sz_log2 := 5, m_mshr_entries := 192,
     m_mshr_max_merge := 4, m_miss_queue_size := 32, m_data_port_width := 32\<rparr>"

lemmas parse_defs = parse_cache_type_def parse_replacement_def parse_write_policy_def
  parse_alloc_policy_def parse_mshr_type_def parse_write_alloc_def parse_set_index_def

lemma l2_config_init: "config_init config_blank l2_tokens = Inr l2_config"
  by (simp add: config_init_def l2_tokens_def l2_config_def config_blank_def require_def check_def
      parse_defs LOGB2_def logb2_stage_def)

lemma config_init_valid_witness:
  "m_valid l2_config \<and> m_alloc_policy l2_config \<noteq> STREAMING \<and> m_line_sz l2_config = 128 \<and>
   m_data_port_width l2_config dvd m_line_sz l2_config"
proof -
  have "12 \<le> tk_ntok l2_tokens" and "m_cache_type l2_config = SECTOR"
    by (simp_all add: l2_tokens_def l2_config_def)
  then show ?thesis using config_init_valid [OF l2_config_init] by blast
qed

lemma block_addr_spec_witness:
  "unat (block_addr l2_config 0x12345) = unat (0x12345 :: u64) div 2 ^ 7 * 2 ^ 7 \<and>
   (block_addr l2_config 0x12345 = block_addr l2_config 0x12310 \<longleftrightarrow>
      unat (0x12345 :: u64) div 2 ^ 7 = unat (0x12310 :: u64) div 2 ^ 7) \<and>
   block_addr l2_config (mshr_addr l2_config 0x12345) = block_addr l2_config 0x12345"
proof -
  have h: "m_line_sz l2_config = 2 ^ 7" "m_atom_sz l2_config = 2 ^ 5" "(5::nat) \<le> 7" "(7::nat) < 32"
    by (simp_all add: l2_config_def)
  show ?thesis by (rule block_addr_spec [OF h])
qed

end
