(* ===== verification/Set_Index.thy ===== *)
theory Set_Index
  imports Cache_Config
begin

text \<open>
  How an address chooses its set: the hash functions of \<^verbatim>\<open>src/gpgpu-sim/hashing.cc\<close> and the
  set-index computations of \<^verbatim>\<open>src/gpgpu-sim/gpu-cache.cc\<close> (\<^verbatim>\<open>cache_config::hash_function\<close>,
  \<^verbatim>\<open>cache_config::set_index\<close>, \<^verbatim>\<open>l1d_cache_config::set_bank\<close>, \<^verbatim>\<open>l2_cache_config::set_index\<close>).
  The locale \<open>set_mapping\<close> is what the tag array needs of a set index: it is in range and it is
  the same for all addresses of a line.
\<close>

section \<open>Hash functions\<close>

text \<open>\<open>xbits a is\<close> is the exclusive or of the bits \<open>is\<close> of \<open>a\<close>; \<open>bits_val\<close> is \<^verbatim>\<open>to_ulong\<close>.\<close>

definition xbits :: "'a::len word \<Rightarrow> nat list \<Rightarrow> bool" where
  "xbits a is = foldr (\<lambda>i x. bit a i \<noteq> x) is False"

definition bits_val :: "bool list \<Rightarrow> u32" where
  "bits_val bs = horner_sum of_bool 2 bs"

definition ipoly_hash_function :: "u64 \<Rightarrow> u32 \<Rightarrow> u32 \<Rightarrow> u32 option" where
  "ipoly_hash_function a b bank_set_num =
    (if bank_set_num = 16 then Some (bits_val [
        xbits a [11, 10, 9, 8, 6, 4, 3, 0] \<noteq> bit b 0,
        xbits a [12, 8, 7, 6, 5, 3, 1, 0] \<noteq> bit b 1,
        xbits a [9, 8, 7, 6, 4, 2, 1] \<noteq> bit b 2,
        xbits a [10, 9, 8, 7, 5, 3, 2] \<noteq> bit b 3])
     else if bank_set_num = 32 then Some (bits_val [
        xbits a [13, 12, 11, 10, 9, 6, 5, 3, 0] \<noteq> bit b 0,
        xbits a [14, 13, 12, 11, 10, 7, 6, 4, 1] \<noteq> bit b 1,
        xbits a [14, 10, 9, 8, 7, 6, 3, 2, 0] \<noteq> bit b 2,
        xbits a [11, 10, 9, 8, 7, 4, 3, 1] \<noteq> bit b 3,
        xbits a [12, 11, 10, 9, 8, 5, 4, 2] \<noteq> bit b 4])
     else if bank_set_num = 64 then Some (bits_val [
        xbits a [18, 17, 16, 15, 12, 10, 6, 5, 0] \<noteq> bit b 0,
        xbits a [15, 13, 12, 11, 10, 7, 5, 1, 0] \<noteq> bit b 1,
        xbits a [16, 14, 13, 12, 11, 8, 6, 2, 1] \<noteq> bit b 2,
        xbits a [17, 15, 14, 13, 12, 9, 7, 3, 2] \<noteq> bit b 3,
        xbits a [18, 16, 15, 14, 13, 10, 8, 4, 3] \<noteq> bit b 4,
        xbits a [17, 16, 15, 14, 11, 9, 5, 4] \<noteq> bit b 5])
     else None)"

definition bitwise_hash_function :: "u64 \<Rightarrow> u32 \<Rightarrow> u32 \<Rightarrow> u32" where
  "bitwise_hash_function higher_bits index bank_set_num =
     ucast ((ucast index :: u64) XOR (higher_bits AND ucast (bank_set_num - 1)))"

definition PAE_hash_function :: "u64 \<Rightarrow> u32 \<Rightarrow> u32 \<Rightarrow> u32 option" where
  "PAE_hash_function a b bank_set_num =
    (if bank_set_num = 32 then Some (bits_val [
        xbits a [13, 10, 9, 5, 0] \<noteq> xbits b [3, 0, 0],
        xbits a [12, 11, 6, 1] \<noteq> xbits b [3, 2, 1, 1],
        xbits a [14, 9, 8, 7, 2] \<noteq> xbits b [1, 2],
        xbits a [11, 10, 8, 3] \<noteq> xbits b [2, 3, 3],
        xbits a [12, 9, 8, 5, 4] \<noteq> xbits b [1, 0, 4]])
     else None)"

section \<open>Set indices\<close>

text \<open>\<open>line_index\<close> is \<^verbatim>\<open>(addr >> m_line_sz_log2) & (m_nset - 1)\<close>.\<close>

definition line_index :: "u64 \<Rightarrow> nat \<Rightarrow> u32 \<Rightarrow> u32" where
  "line_index addr line_sz_log2 nset = ucast (drop_bit line_sz_log2 addr AND ucast (nset - 1))"

definition fermi_index :: "u64 \<Rightarrow> u32 \<Rightarrow> nat \<Rightarrow> u32 option" where
  "fermi_index addr nset line_sz_log2 =
    (if nset = 32 \<or> nset = 64 then
       (let lower_xor = ucast (drop_bit line_sz_log2 addr AND 0x1F) :: u32;
            upper0 = ucast (drop_bit 13 (addr AND 0xE000)) :: u32;
            upper1 = upper0 OR ucast (drop_bit 14 (addr AND 0x20000));
            upper_xor = upper1 OR ucast (drop_bit 15 (addr AND 0x80000));
            s = lower_xor XOR upper_xor
        in Some (if nset = 64 then s OR ucast (drop_bit 7 (addr AND 0x1000)) else s))
     else None)"

definition hash_function :: "u64 \<Rightarrow> u32 \<Rightarrow> nat \<Rightarrow> nat \<Rightarrow> set_index_function \<Rightarrow> u32 option" where
  "hash_function addr nset line_sz_log2 nset_log2 fn = do {
     set_index \<leftarrow> (case fn of
       FERMI_HASH_SET_FUNCTION \<Rightarrow> fermi_index addr nset line_sz_log2
     | BITWISE_XORING_FUNCTION \<Rightarrow>
         (let higher_bits = drop_bit (line_sz_log2 + nset_log2) addr;
              index = line_index addr line_sz_log2 nset
          in Some (bitwise_hash_function higher_bits index nset))
     | HASH_IPOLY_FUNCTION \<Rightarrow>
         (let higher_bits = drop_bit (line_sz_log2 + nset_log2) addr;
              index = line_index addr line_sz_log2 nset
          in ipoly_hash_function higher_bits index nset)
     | CUSTOM_SET_FUNCTION \<Rightarrow> Some 0
     | LINEAR_SET_FUNCTION \<Rightarrow> Some (line_index addr line_sz_log2 nset));
     guard (set_index < nset);
     Some set_index
   }"

definition set_index :: "cache_config \<Rightarrow> u64 \<Rightarrow> nat option" where
  "set_index c addr = map_option unat
     (hash_function addr (of_nat (m_nset c)) (m_line_sz_log2 c) (m_nset_log2 c) (m_set_index_function c))"

record l1d_bank_config =
  l1_banks :: nat
  l1_banks_log2 :: nat
  l1_banks_byte_interleaving_log2 :: nat
  l1_banks_hashing_function :: set_index_function

definition set_bank :: "l1d_bank_config \<Rightarrow> u64 \<Rightarrow> nat option" where
  "set_bank b addr = map_option unat
     (hash_function addr (of_nat (l1_banks b)) (l1_banks_byte_interleaving_log2 b) (l1_banks_log2 b)
        (l1_banks_hashing_function b))"

text \<open>The L2 slice indexes by the address within its memory partition, when a mapping is given.\<close>

definition l2_set_index :: "(u64 \<Rightarrow> u64) option \<Rightarrow> cache_config \<Rightarrow> u64 \<Rightarrow> nat option" where
  "l2_set_index address_mapping c addr =
     (let part_addr = (case address_mapping of None \<Rightarrow> addr | Some f \<Rightarrow> f addr)
      in set_index c part_addr)"

section \<open>Bits of the index\<close>

lemma bit_bits_val: "bit (bits_val bs) n \<longleftrightarrow> n < 32 \<and> n < length bs \<and> bs ! n"
  by (auto simp: bits_val_def bit_horner_sum_bit_word_iff)

lemma bits_val_nth: "n < length bs \<Longrightarrow> n < 32 \<Longrightarrow> bit (bits_val bs) n = bs ! n"
  by (simp add: bit_bits_val)

lemma bound_by_bits:
  fixes w :: u32
  assumes "\<And>i. bit w i \<Longrightarrow> i < k"
  shows "unat w < 2 ^ k"
proof -
  have "take_bit k w = w" using assms by (intro bit_eqI) (auto simp: bit_take_bit_iff)
  then have "unat w = take_bit k (unat w)" by (metis unsigned_take_bit_eq)
  then show ?thesis by (metis take_bit_nat_less_exp)
qed

lemma bits_val_less: "unat (bits_val bs) < 2 ^ length bs"
  by (rule bound_by_bits) (simp add: bit_bits_val)

lemma nset_mask: "k < 32 \<Longrightarrow> (ucast ((2 :: u32) ^ k - 1) :: u64) = mask k"
  using line_mask [of k] by simp

lemma bit_line_index:
  "k < 32 \<Longrightarrow> bit (line_index a l (2 ^ k)) i \<longleftrightarrow> i < k \<and> bit a (l + i)"
  unfolding line_index_def nset_mask by (auto simp: bit_simps dest: bit_imp_le_length)

lemma line_index_less: "k < 32 \<Longrightarrow> unat (line_index a l (2 ^ k)) < 2 ^ k"
  by (rule bound_by_bits) (simp add: bit_line_index)

lemma unat_pow2: "k < 32 \<Longrightarrow> unat ((2 :: u32) ^ k) = 2 ^ k"
proof -
  assume "k < 32"
  then have "(2 :: nat) ^ k < 2 ^ 32" by (intro power_strict_increasing) simp_all
  then show ?thesis
    using unat_of_nat [of "2 ^ k", where 'a = 32] by (simp add: take_bit_nat_eq_self)
qed

lemma line_index_determines:
  assumes "k < 32" and "\<And>i. i < k \<Longrightarrow> bit (line_index a l (2 ^ k)) i = bit (line_index b l (2 ^ k)) i"
    and "drop_bit (l + k) a = drop_bit (l + k) b"
  shows "drop_bit l a = drop_bit l b"
proof (rule bit_word_eqI)
  fix i
  have "bit a (l + i) = bit b (l + i)"
  proof (cases "i < k")
    case True
    then show ?thesis using assms(1,2) by (simp add: bit_line_index)
  next
    case False
    then show ?thesis
      using arg_cong [OF assms(3), of "\<lambda>w. bit w (i - k)"] by (simp add: bit_drop_bit_eq)
  qed
  then show "bit (drop_bit l a) i = bit (drop_bit l b) i" by (simp add: bit_drop_bit_eq)
qed


section \<open>Range and distribution\<close>

definition index_supported :: "set_index_function \<Rightarrow> nat \<Rightarrow> bool" where
  "index_supported fn k \<longleftrightarrow> (fn = HASH_IPOLY_FUNCTION \<longrightarrow> k \<in> {4, 5, 6}) \<and>
     (fn = FERMI_HASH_SET_FUNCTION \<longrightarrow> k \<in> {5, 6})"

lemma upt_456: "[0..<4] = [0, 1, 2, 3 :: nat]" "[0..<5] = [0, 1, 2, 3, 4 :: nat]"
  "[0..<6] = [0, 1, 2, 3, 4, 5 :: nat]"
  by (simp_all add: upt_rec)

lemma ipoly_bits:
  assumes "k \<in> {4, 5, 6}"
  obtains rows where "length rows = k"
    and "\<And>b. ipoly_hash_function a b (2 ^ k) = Some (bits_val (map (\<lambda>i. rows ! i \<noteq> bit b i) [0..<k]))"
proof -
  have "\<exists>rows. length rows = k \<and> (\<forall>b. ipoly_hash_function a b (2 ^ k) =
      Some (bits_val (map (\<lambda>i. rows ! i \<noteq> bit b i) [0..<k])))"
    using assms
  proof (elim insertE emptyE)
    assume k: "k = 4"
    show ?thesis unfolding k ipoly_hash_function_def
      by (rule exI [of _ "[xbits a [11, 10, 9, 8, 6, 4, 3, 0], xbits a [12, 8, 7, 6, 5, 3, 1, 0],
        xbits a [9, 8, 7, 6, 4, 2, 1], xbits a [10, 9, 8, 7, 5, 3, 2]]"]) (simp add: upt_456)
  next
    assume k: "k = 5"
    show ?thesis unfolding k ipoly_hash_function_def
      by (rule exI [of _ "[xbits a [13, 12, 11, 10, 9, 6, 5, 3, 0], xbits a [14, 13, 12, 11, 10, 7, 6, 4, 1],
        xbits a [14, 10, 9, 8, 7, 6, 3, 2, 0], xbits a [11, 10, 9, 8, 7, 4, 3, 1],
        xbits a [12, 11, 10, 9, 8, 5, 4, 2]]"]) (simp add: upt_456)
  next
    assume k: "k = 6"
    show ?thesis unfolding k ipoly_hash_function_def
      by (rule exI [of _ "[xbits a [18, 17, 16, 15, 12, 10, 6, 5, 0], xbits a [15, 13, 12, 11, 10, 7, 5, 1, 0],
        xbits a [16, 14, 13, 12, 11, 8, 6, 2, 1], xbits a [17, 15, 14, 13, 12, 9, 7, 3, 2],
        xbits a [18, 16, 15, 14, 13, 10, 8, 4, 3], xbits a [17, 16, 15, 14, 11, 9, 5, 4]]"])
        (simp add: upt_456)
  qed
  then show ?thesis using that by blast
qed

lemma bit_bitwise_hash:
  "k < 32 \<Longrightarrow> bit (bitwise_hash_function h x (2 ^ k)) i \<longleftrightarrow> i < 32 \<and> (bit x i \<noteq> (i < k \<and> bit h i))"
  unfolding bitwise_hash_function_def nset_mask by (auto simp: bit_simps dest: bit_imp_le_length)

lemma fermi_masks:
  "(0x1F :: u64) = mask 5" "(0xE000 :: u64) = push_bit 13 (mask 3)"
  "(0x20000 :: u64) = push_bit 17 (mask 1)" "(0x80000 :: u64) = push_bit 19 (mask 1)"
  "(0x1000 :: u64) = push_bit 12 (mask 1)"
  by (simp_all add: mask_eq_exp_minus_1 push_bit_eq_mult)

definition fermi_bit :: "u64 \<Rightarrow> nat \<Rightarrow> nat \<Rightarrow> bool" where
  "fermi_bit a l i \<longleftrightarrow> (i < 5 \<and> bit a (l + i)) \<noteq>
     ((i < 3 \<and> bit a (13 + i)) \<or> (i = 3 \<and> bit a 17) \<or> (i = 4 \<and> bit a 19))"

lemma fermi_some:
  assumes "k \<in> {5, 6}"
  shows "\<exists>w. fermi_index a (2 ^ k) l = Some w \<and>
     (\<forall>i. bit w i \<longleftrightarrow> fermi_bit a l i \<or> (k = 6 \<and> i = 5 \<and> bit a 12))"
proof -
  have field: "bit (ucast (drop_bit d (a AND push_bit p (mask n))) :: u32) i \<longleftrightarrow>
      i < 32 \<and> p \<le> d + i \<and> d + i < p + n \<and> bit a (d + i)" for d p n i
    by (auto simp: bit_simps dest: bit_imp_le_length)
  have f1: "bit (ucast (drop_bit l a AND mask 5) :: u32) i \<longleftrightarrow> i < 5 \<and> bit a (l + i)" for i
    by (auto simp: bit_simps)
  have f2: "bit (ucast (drop_bit 7 (a AND push_bit 12 (mask 1))) :: u32) i \<longleftrightarrow> i = 5 \<and> bit a 12" for i
    unfolding field by (cases "i = 5") auto
  have f3: "bit (ucast (drop_bit 14 (a AND push_bit 17 (mask 1))) :: u32) i \<longleftrightarrow> i = 3 \<and> bit a 17" for i
    unfolding field by (cases "i = 3") auto
  have f4: "bit (ucast (drop_bit 15 (a AND push_bit 19 (mask 1))) :: u32) i \<longleftrightarrow> i = 4 \<and> bit a 19" for i
    unfolding field by (cases "i = 4") auto
  have f5: "bit (ucast (drop_bit 13 (a AND push_bit 13 (mask 3))) :: u32) i \<longleftrightarrow> i < 3 \<and> bit a (13 + i)" for i
    unfolding field by auto
  define low :: u32 where "low = ucast (drop_bit l a AND 0x1F) XOR
      ((ucast (drop_bit 13 (a AND 0xE000)) OR ucast (drop_bit 14 (a AND 0x20000))) OR
       ucast (drop_bit 15 (a AND 0x80000)))"
  define top :: u32 where "top = ucast (drop_bit 7 (a AND 0x1000))"
  have g1: "bit low i \<longleftrightarrow> fermi_bit a l i" and g2: "bit top i \<longleftrightarrow> i = 5 \<and> bit a 12" for i
    by (simp_all only: low_def top_def fermi_masks fermi_bit_def bit_or_iff bit_xor_iff f1 f2 f3 f4 f5 disj_assoc)
  have "fermi_index a (2 ^ 5) l = Some low" "fermi_index a (2 ^ 6) l = Some (low OR top)"
    by (simp_all add: fermi_index_def Let_def low_def top_def)
  with assms g1 g2 show ?thesis by (elim insertE emptyE; hypsubst) (simp_all add: bit_or_iff)
qed

text \<open>The hash before the range check, and the check.\<close>

lemma hash_function_Some:
  assumes "k < 32" and "index_supported fn k"
  shows "\<exists>w. hash_function a (2 ^ k) l k fn = Some w \<and> w < 2 ^ k \<and>
    (fn = LINEAR_SET_FUNCTION \<longrightarrow> (\<forall>i < k. bit w i = bit (line_index a l (2 ^ k)) i)) \<and>
    (fn = BITWISE_XORING_FUNCTION \<longrightarrow>
      (\<forall>i < k. bit w i = (bit (line_index a l (2 ^ k)) i \<noteq> bit a (l + k + i)))) \<and>
    (fn = HASH_IPOLY_FUNCTION \<longrightarrow> ipoly_hash_function (drop_bit (l + k) a) (line_index a l (2 ^ k)) (2 ^ k) = Some w) \<and>
    (fn = FERMI_HASH_SET_FUNCTION \<longrightarrow> (\<forall>i. bit w i \<longleftrightarrow> fermi_bit a l i \<or> (k = 6 \<and> i = 5 \<and> bit a 12)))"
proof -
  have bound: "w < 2 ^ k" if "\<And>i. bit w i \<Longrightarrow> i < k" for w :: u32
    using bound_by_bits [OF that] by (simp add: word_less_nat_alt unat_pow2 [OF assms(1)])
  show ?thesis
  proof (cases fn)
    case LINEAR_SET_FUNCTION
    then show ?thesis
      using bound [of "line_index a l (2 ^ k)"] assms(1) by (simp add: hash_function_def bit_line_index)
  next
    case BITWISE_XORING_FUNCTION
    have "bitwise_hash_function (drop_bit (l + k) a) (line_index a l (2 ^ k)) (2 ^ k) < 2 ^ k"
      by (rule bound) (auto simp: bit_bitwise_hash assms(1) bit_line_index)
    with BITWISE_XORING_FUNCTION show ?thesis using assms(1)
      by (simp add: hash_function_def Let_def bit_bitwise_hash bit_drop_bit_eq)
  next
    case HASH_IPOLY_FUNCTION
    then have "k \<in> {4, 5, 6}" using assms(2) by (simp add: index_supported_def)
    then obtain rows where "length rows = k" and rows: "\<And>b. ipoly_hash_function (drop_bit (l + k) a) b (2 ^ k) =
        Some (bits_val (map (\<lambda>i. rows ! i \<noteq> bit b i) [0..<k]))"
      using ipoly_bits [of k "drop_bit (l + k) a"] by blast
    have "bits_val (map (\<lambda>i. rows ! i \<noteq> bit b i) [0..<k]) < 2 ^ k" for b :: u32
      by (rule bound) (simp add: bit_bits_val)
    with HASH_IPOLY_FUNCTION show ?thesis by (simp add: hash_function_def Let_def rows)
  next
    case FERMI_HASH_SET_FUNCTION
    then have k: "k \<in> {5, 6}" using assms(2) by (simp add: index_supported_def)
    from fermi_some [OF this, of a l] obtain w where w: "fermi_index a (2 ^ k) l = Some w"
      "\<And>i. bit w i \<longleftrightarrow> fermi_bit a l i \<or> (k = 6 \<and> i = 5 \<and> bit a 12)" by blast
    have "w < 2 ^ k" using k by (intro bound) (auto simp: w(2) fermi_bit_def)
    with FERMI_HASH_SET_FUNCTION w show ?thesis by (simp add: hash_function_def)
  next
    case CUSTOM_SET_FUNCTION
    have "(0 :: u32) < 2 ^ k" by (rule bound) simp
    with CUSTOM_SET_FUNCTION show ?thesis by (simp add: hash_function_def)
  qed
qed

lemma hash_total:
  "k < 32 \<Longrightarrow> index_supported fn k \<Longrightarrow> \<exists>w. hash_function a (2 ^ k) l k fn = Some w \<and> w < 2 ^ k"
  by (drule (1) hash_function_Some [of k fn a l], elim exE conjE, intro exI conjI)

text \<open>
  C32: for a power-of-two number of sets the configured index function computes a set, in range, for
  every address, whenever it supports that number of sets (IPOLY: 16, 32, 64; Fermi: 32, 64): neither
  the unsupported-size assertion nor the bounds assertion of \<^verbatim>\<open>hash_function\<close> can fail.
\<close>

theorem set_index_in_range:
  assumes "m_nset c = 2 ^ k" and "m_nset_log2 c = k" and "k < 32"
    and "index_supported (m_set_index_function c) k"
  shows "\<exists>s. set_index c addr = Some s \<and> s < m_nset c"
proof -
  obtain w where w: "hash_function addr (2 ^ k) (m_line_sz_log2 c) k (m_set_index_function c) = Some w"
    and "w < 2 ^ k" using hash_total [OF assms(3,4)] by blast
  then have "unat w < 2 ^ k" by (simp add: word_less_nat_alt unat_pow2 [OF assms(3)])
  with w assms(1,2) show ?thesis by (simp add: set_index_def)
qed

lemma set_index_in_range_witness:
  "m_nset l2_config = 2 ^ 5 \<and> (\<exists>s. set_index l2_config 0xC0FFEE00 = Some s \<and> s < m_nset l2_config)"
proof -
  have h: "m_nset l2_config = 2 ^ 5" "m_nset_log2 l2_config = 5" "(5 :: nat) < 32"
    "index_supported (m_set_index_function l2_config) 5"
    by (simp_all add: l2_config_def index_supported_def)
  show ?thesis using set_index_in_range [OF h] h(1) by blast
qed

lemma hash_bits:
  assumes "k < 32" and "index_supported fn k" and "hash_function a (2 ^ k) l k fn = Some w"
  shows "fn = LINEAR_SET_FUNCTION \<Longrightarrow> i < k \<Longrightarrow> bit w i = bit (line_index a l (2 ^ k)) i"
    and "fn = BITWISE_XORING_FUNCTION \<Longrightarrow> i < k \<Longrightarrow>
      bit w i = (bit (line_index a l (2 ^ k)) i \<noteq> bit a (l + k + i))"
    and "fn = HASH_IPOLY_FUNCTION \<Longrightarrow>
      ipoly_hash_function (drop_bit (l + k) a) (line_index a l (2 ^ k)) (2 ^ k) = Some w"
    and "fn = FERMI_HASH_SET_FUNCTION \<Longrightarrow>
      bit w i \<longleftrightarrow> fermi_bit a l i \<or> (k = 6 \<and> i = 5 \<and> bit a 12)"
  using hash_function_Some [OF assms(1,2), of a l] unfolding assms(3) by auto

lemma hash_same_high:
  assumes "k < 32" and "index_supported fn k" and "fn \<noteq> CUSTOM_SET_FUNCTION"
    and "fn = FERMI_HASH_SET_FUNCTION \<longrightarrow> l = 7"
    and "hash_function a (2 ^ k) l k fn = hash_function b (2 ^ k) l k fn"
    and "drop_bit (l + k) a = drop_bit (l + k) b"
  shows "drop_bit l a = drop_bit l b"
proof -
  have high: "bit a (l + k + i) = bit b (l + k + i)" for i
    using arg_cong [OF assms(6), of "\<lambda>w. bit w i"] by (simp add: bit_drop_bit_eq)
  from hash_total [OF assms(1,2)] obtain w where wa: "hash_function a (2 ^ k) l k fn = Some w"
    by blast
  with assms(5) have wb: "hash_function b (2 ^ k) l k fn = Some w" by simp
  note A = hash_bits [OF assms(1,2) wa] and B = hash_bits [OF assms(1,2) wb]
  show ?thesis
  proof (rule line_index_determines [OF assms(1) _ assms(6)])
    fix i assume i: "i < k"
    show "bit (line_index a l (2 ^ k)) i = bit (line_index b l (2 ^ k)) i"
    proof (cases fn)
      case LINEAR_SET_FUNCTION
      then show ?thesis using A(1) B(1) i by blast
    next
      case BITWISE_XORING_FUNCTION
      then show ?thesis using A(2) B(2) i high [of i] by blast
    next
      case HASH_IPOLY_FUNCTION
      then have "k \<in> {4, 5, 6}" using assms(2) by (simp add: index_supported_def)
      then obtain rows where "length rows = k" and rows: "\<And>b. ipoly_hash_function (drop_bit (l + k) a) b (2 ^ k) =
          Some (bits_val (map (\<lambda>i. rows ! i \<noteq> bit b i) [0..<k]))"
        using ipoly_bits [of k "drop_bit (l + k) a"] by blast
      with A(3) [OF HASH_IPOLY_FUNCTION] B(3) [OF HASH_IPOLY_FUNCTION] assms(6)
      have "bits_val (map (\<lambda>i. rows ! i \<noteq> bit (line_index a l (2 ^ k)) i) [0..<k]) =
          bits_val (map (\<lambda>i. rows ! i \<noteq> bit (line_index b l (2 ^ k)) i) [0..<k])" (is "bits_val ?x = bits_val ?y")
        by simp
      then have "bit (bits_val ?x) i = bit (bits_val ?y) i" by simp
      then show ?thesis using i assms(1) by (auto simp: bits_val_nth)
    next
      case FERMI_HASH_SET_FUNCTION
      then have "l = 7" and k: "k \<in> {5, 6}" using assms(2,4) by (auto simp: index_supported_def)
      have hi: "bit a j = bit b j" if "7 + k \<le> j" for j
        using high [of "j - (7 + k)"] that \<open>l = 7\<close> by simp
      show ?thesis
      proof (cases "i < 5")
        case True
        have "bit a 17 = bit b 17" "bit a 19 = bit b 19" "bit a (13 + i) = bit b (13 + i)"
          by (rule hi; use k in auto)+
        with A(4) [OF FERMI_HASH_SET_FUNCTION, of i] B(4) [OF FERMI_HASH_SET_FUNCTION, of i] True i \<open>l = 7\<close> assms(1) show ?thesis
          by (auto simp: fermi_bit_def bit_line_index)
      next
        case False
        with i k have "i = 5" "k = 6" by auto
        with A(4) [OF FERMI_HASH_SET_FUNCTION, of 5] B(4) [OF FERMI_HASH_SET_FUNCTION, of 5]
        have "bit a 12 = bit b 12" by (simp add: fermi_bit_def)
        moreover have "bit (line_index c 7 (2 ^ 6)) 5 = bit c 12" for c
          by (subst bit_line_index) auto
        ultimately show ?thesis unfolding \<open>i = 5\<close> \<open>k = 6\<close> \<open>l = 7\<close> by blast
      qed
    qed (use assms(3) in auto)
  qed
qed

text \<open>
  the linear, XOR, IPOLY and (for 128-byte lines) Fermi index functions never send two different
  lines with the same higher address bits to the same set, so consecutive lines spread over all
  sets: the set index together with the bits above it determines the line.
\<close>

theorem set_index_separates_lines:
  assumes "m_nset c = 2 ^ k" and "m_nset_log2 c = k" and "k < 32"
    and "index_supported (m_set_index_function c) k"
    and "m_set_index_function c \<noteq> CUSTOM_SET_FUNCTION"
    and "m_set_index_function c = FERMI_HASH_SET_FUNCTION \<longrightarrow> m_line_sz_log2 c = 7"
    and "m_line_sz c = 2 ^ m_line_sz_log2 c" and "m_line_sz_log2 c < 32"
    and "set_index c a = set_index c b"
    and "drop_bit (m_line_sz_log2 c + k) a = drop_bit (m_line_sz_log2 c + k) b"
  shows "block_addr c a = block_addr c b"
proof -
  have "hash_function a (2 ^ k) (m_line_sz_log2 c) k (m_set_index_function c) =
      hash_function b (2 ^ k) (m_line_sz_log2 c) k (m_set_index_function c)"
    using assms(9) hash_total [OF assms(3,4), of a "m_line_sz_log2 c"]
      hash_total [OF assms(3,4), of b "m_line_sz_log2 c"]
    unfolding set_index_def assms(1,2) by (auto simp: word_unat_eq_iff)
  with hash_same_high [OF assms(3-6)] assms(10)
  have "drop_bit (m_line_sz_log2 c) a = drop_bit (m_line_sz_log2 c) b" by blast
  then show ?thesis
    unfolding block_addr_mask [OF assms(7,8)] and_not_mask by simp
qed

text \<open>The hash sees only the bits above the line offset.\<close>

lemma and_high_mask_cong:
  fixes a b :: u64
  assumes "drop_bit l a = drop_bit l b" and "l \<le> p"
  shows "a AND push_bit p (mask n) = b AND push_bit p (mask n)"
proof (rule bit_word_eqI)
  fix i
  have "bit a i = bit b i" if "p \<le> i"
    using arg_cong [OF assms(1), of "\<lambda>w. bit w (i - l)"] assms(2) that by (simp add: bit_drop_bit_eq)
  then show "bit (a AND push_bit p (mask n)) i = bit (b AND push_bit p (mask n)) i"
    by (auto simp: bit_simps)
qed

lemma hash_line_cong:
  assumes "drop_bit l a = drop_bit l b" and "fn = FERMI_HASH_SET_FUNCTION \<longrightarrow> l \<le> 12"
  shows "hash_function a n l k fn = hash_function b n l k fn"
proof -
  have d: "drop_bit (l + k) a = drop_bit (l + k) b"
    using arg_cong [OF assms(1), of "drop_bit k"] by (simp add: drop_bit_drop_bit add.commute)
  have i: "line_index a l n = line_index b l n" unfolding line_index_def assms(1) ..
  have f: "fermi_index a n l = fermi_index b n l" if "l \<le> 12"
  proof -
    have "a AND 0xE000 = b AND 0xE000" "a AND 0x20000 = b AND 0x20000"
      "a AND 0x80000 = b AND 0x80000" "a AND 0x1000 = b AND 0x1000"
      unfolding fermi_masks by (rule and_high_mask_cong [OF assms(1)]; use that in simp)+
    then show ?thesis unfolding fermi_index_def assms(1) by (simp only:)
  qed
  show ?thesis using f assms(2) unfolding hash_function_def d i by (cases fn) simp_all
qed

section \<open>The contract of a set index\<close>

locale set_mapping =
  fixes idx :: "u64 \<Rightarrow> nat option" and nset :: nat and blk :: "u64 \<Rightarrow> u64"
  assumes idx_range: "\<exists>s. idx a = Some s \<and> s < nset"
    and idx_block: "blk a = blk b \<Longrightarrow> idx a = idx b"
begin

text \<open>The ways of a set are in range, and two lines that meet in a way share the set.\<close>

lemma way_in_range: "idx a = Some s \<Longrightarrow> w < assoc \<Longrightarrow> s * assoc + w < nset * assoc"
proof -
  assume "idx a = Some s" and w: "w < assoc"
  then have "Suc s \<le> nset" using idx_range [of a] by auto
  then have "Suc s * assoc \<le> nset * assoc" by (rule mult_le_mono1)
  with w show ?thesis by simp
qed

lemma way_determines_set:
  "w < assoc \<Longrightarrow> w' < assoc \<Longrightarrow> s * assoc + w = s' * assoc + w' \<Longrightarrow> s = s' \<and> w = w'"
  for s s' :: nat
proof -
  assume w: "w < assoc" "w' < assoc" and eq: "s * assoc + w = s' * assoc + w'"
  have "(s * assoc + w) div assoc = s" "(s' * assoc + w') div assoc = s'" using w by auto
  with eq show ?thesis by auto
qed

end

definition wf_config :: "cache_config \<Rightarrow> bool" where
  "wf_config c \<longleftrightarrow> m_nset c = 2 ^ m_nset_log2 c \<and> m_nset_log2 c < 32
     \<and> m_line_sz c = 2 ^ m_line_sz_log2 c \<and> m_line_sz_log2 c \<le> 12
     \<and> index_supported (m_set_index_function c) (m_nset_log2 c)
     \<and> 0 < m_assoc c \<and> m_nset c * m_assoc c < 2 ^ 32"

locale indexed_config =
  fixes c :: cache_config
  assumes wf: "wf_config c"
begin

lemma block_eq_iff: "block_addr c a = block_addr c b \<longleftrightarrow> drop_bit (m_line_sz_log2 c) a = drop_bit (m_line_sz_log2 c) b"
proof -
  have m: "block_addr c x = push_bit (m_line_sz_log2 c) (drop_bit (m_line_sz_log2 c) x)" for x
    using wf block_addr_mask [of c "m_line_sz_log2 c" x] by (simp add: wf_config_def and_not_mask)
  have "drop_bit l (push_bit l (drop_bit l x)) = drop_bit l x" for l and x :: u64
    by (rule bit_word_eqI) (auto simp: bit_simps dest: bit_imp_le_length)
  then show ?thesis unfolding m by metis
qed

end

sublocale indexed_config \<subseteq> set_mapping "set_index c" "m_nset c" "block_addr c"
proof
  fix a
  show "\<exists>s. set_index c a = Some s \<and> s < m_nset c"
    using wf by (intro set_index_in_range [of c "m_nset_log2 c"]) (auto simp: wf_config_def)
next
  fix a b
  assume "block_addr c a = block_addr c b"
  then have "drop_bit (m_line_sz_log2 c) a = drop_bit (m_line_sz_log2 c) b" by (simp add: block_eq_iff)
  then show "set_index c a = set_index c b"
    using wf unfolding set_index_def by (intro arg_cong [of _ _ "map_option unat"] hash_line_cong) (auto simp: wf_config_def)
qed

interpretation l2_idx: indexed_config l2_config
  by unfold_locales (simp add: wf_config_def l2_config_def index_supported_def)

lemma set_index_separates_lines_witness:
  "set_index l2_config 0x12345 = set_index l2_config 0x12310 \<and>
   block_addr l2_config 0x12345 = block_addr l2_config 0x12310"
proof -
  have h: "m_nset l2_config = 2 ^ 5" "m_nset_log2 l2_config = 5" "(5 :: nat) < 32"
    "index_supported (m_set_index_function l2_config) 5"
    "m_set_index_function l2_config \<noteq> CUSTOM_SET_FUNCTION"
    "m_set_index_function l2_config = FERMI_HASH_SET_FUNCTION \<longrightarrow> m_line_sz_log2 l2_config = 7"
    "m_line_sz l2_config = 2 ^ m_line_sz_log2 l2_config" "m_line_sz_log2 l2_config < 32"
    by (simp_all add: l2_config_def index_supported_def)
  have d: "drop_bit 7 (0x12345 :: u64) = drop_bit 7 0x12310" by simp
  have "set_index l2_config 0x12345 = set_index l2_config 0x12310"
    by (rule l2_idx.idx_block) (simp only: l2_idx.block_eq_iff, simp add: l2_config_def)
  moreover from set_index_separates_lines [OF h this]
  have "block_addr l2_config 0x12345 = block_addr l2_config 0x12310" by (simp add: l2_config_def)
  ultimately show ?thesis by blast
qed

text \<open>
  \<^verbatim>\<open>PAE_hash_function\<close> cancels terms (\<^verbatim>\<open>b[0] ^ b[0]\<close>) and is not a permutation of the bank indices:
  indices 0 and 17 collide whatever the higher address bits are.
\<close>

theorem PAE_hash_collision:
  "PAE_hash_function h 0 32 = PAE_hash_function h 17 32 \<and> PAE_hash_function h 0 32 \<noteq> None"
proof -
  have "bit (17 :: u32) 0" "bit (17 :: u32) 4" "\<not> bit (17 :: u32) 1" "\<not> bit (17 :: u32) 2" "\<not> bit (17 :: u32) 3"
    by (simp_all add: bit_numeral_rec)
  then show ?thesis by (simp add: PAE_hash_function_def xbits_def)
qed

end
