(* ===== verification/Mem_Fetch.thy ===== *)
theory Mem_Fetch
  imports Cache_Types
begin

text \<open>
  Memory requests: \<^verbatim>\<open>mem_access_t\<close> (\<^verbatim>\<open>src/abstract_hardware_model.h\<close>), \<^verbatim>\<open>mem_fetch\<close>
  (\<^verbatim>\<open>src/gpgpu-sim/mem_fetch.h\<close>, \<^verbatim>\<open>mem_fetch.cc\<close>) and the two allocators of
  \<^verbatim>\<open>src/gpgpu-sim/shader.cc\<close> and \<^verbatim>\<open>src/gpgpu-sim/l2cache.cc\<close>. Requests are shared by pointer between
  queues, so they live in a heap: a pointer is a key of \<open>mf_heap\<close>, \<^verbatim>\<open>new\<close> takes a fresh key and
  \<^verbatim>\<open>delete\<close> removes it. The address decoding of \<^verbatim>\<open>memory_config\<close> is a parameter of the constructor.
\<close>

section \<open>Memory accesses\<close>

record mem_access =
  acc_uid :: nat
  acc_addr :: u64
  acc_write :: bool
  acc_req_size :: nat
  acc_type :: mem_access_type
  acc_warp_mask :: warp_mask
  acc_byte_mask :: byte_mask
  acc_sector_mask :: sector_mask

text \<open>\<^verbatim>\<open>init\<close> gives every access the next number of the context's counter.\<close>

definition mem_access_new ::
  "nat \<Rightarrow> mem_access_type \<Rightarrow> u64 \<Rightarrow> nat \<Rightarrow> bool \<Rightarrow> warp_mask \<Rightarrow> byte_mask \<Rightarrow> sector_mask \<Rightarrow> mem_access \<times> nat" where
  "mem_access_new sm_next_access_uid ty address req_size wr active_mask byte_mask sector_mask =
     (\<lparr>acc_uid = Suc sm_next_access_uid, acc_addr = address, acc_write = wr, acc_req_size = req_size,
       acc_type = ty, acc_warp_mask = active_mask, acc_byte_mask = byte_mask,
       acc_sector_mask = sector_mask\<rparr>, Suc sm_next_access_uid)"

section \<open>Requests\<close>

datatype mem_fetch_status =
  MEM_FETCH_INITIALIZED | IN_L1I_MISS_QUEUE | IN_L1D_MISS_QUEUE | IN_L1T_MISS_QUEUE
| IN_L1C_MISS_QUEUE | IN_L1TLB_MISS_QUEUE | IN_VM_MANAGER_QUEUE | IN_ICNT_TO_MEM
| IN_PARTITION_ROP_DELAY | IN_PARTITION_ICNT_TO_L2_QUEUE | IN_PARTITION_L2_TO_DRAM_QUEUE
| IN_PARTITION_DRAM_LATENCY_QUEUE | IN_PARTITION_L2_MISS_QUEUE | IN_PARTITION_MC_INTERFACE_QUEUE
| IN_PARTITION_MC_INPUT_QUEUE | IN_PARTITION_MC_BANK_ARB_QUEUE | IN_PARTITION_DRAM
| IN_PARTITION_MC_RETURNQ | IN_PARTITION_DRAM_TO_L2_QUEUE | IN_PARTITION_L2_FILL_QUEUE
| IN_PARTITION_L2_TO_ICNT_QUEUE | IN_ICNT_TO_SHADER | IN_CLUSTER_TO_SHADER_QUEUE
| IN_SHADER_LDST_RESPONSE_FIFO | IN_SHADER_FETCHED | IN_SHADER_L1T_ROB | MEM_FETCH_DELETED

datatype mf_type = READ_REQUEST | WRITE_REQUEST | READ_REPLY | WRITE_ACK

datatype memory_space =
  undefined_space | reg_space | local_space | shared_space | sstarr_space
| param_space_unclassified | param_space_kernel | param_space_local | const_space | tex_space
| surf_space | global_space | generic_space | instruction_space

text \<open>The part of a \<^verbatim>\<open>warp_inst_t\<close> that a request reads; an empty instruction is \<open>None\<close>.\<close>

record inst_info =
  inst_uid :: u32
  inst_warp_id :: nat
  inst_isatomic :: bool
  inst_space :: memory_space
  inst_pc :: u64

record mem_fetch =
  mf_request_uid :: nat
  mf_sid :: nat
  mf_tpc :: nat
  mf_wid :: nat
  mf_status :: mem_fetch_status
  mf_status_change :: u64
  mf_access :: mem_access
  mf_data_size :: nat
  mf_ctrl_size :: nat
  mf_partition_addr :: u64
  mf_chip :: nat
  mf_sub_partition :: nat
  mf_type :: mf_type
  mf_timestamp :: u64
  mf_timestamp2 :: u64
  mf_inst :: "inst_info option"
  mf_streamID :: u64
  mf_icnt_flit_size :: nat
  mf_original_mf :: "nat option"
  mf_original_wr_mf :: "nat option"

record memory_config =
  SST_mode :: bool
  addrdec_tlx :: "u64 \<Rightarrow> nat \<times> nat"
  partition_address :: "u64 \<Rightarrow> u64"
  icnt_flit_size :: nat

definition get_addr :: "mem_fetch \<Rightarrow> u64" where
  "get_addr mf = acc_addr (mf_access mf)"

definition is_write :: "mem_fetch \<Rightarrow> bool" where
  "is_write mf = acc_write (mf_access mf)"

definition get_access_type :: "mem_fetch \<Rightarrow> mem_access_type" where
  "get_access_type mf = acc_type (mf_access mf)"

definition get_access_sector_mask :: "mem_fetch \<Rightarrow> sector_mask" where
  "get_access_sector_mask mf = acc_sector_mask (mf_access mf)"

definition get_access_byte_mask :: "mem_fetch \<Rightarrow> byte_mask" where
  "get_access_byte_mask mf = acc_byte_mask (mf_access mf)"

definition get_access_warp_mask :: "mem_fetch \<Rightarrow> warp_mask" where
  "get_access_warp_mask mf = acc_warp_mask (mf_access mf)"

definition mf_size :: "mem_fetch \<Rightarrow> nat" where
  "mf_size mf = mf_data_size mf + mf_ctrl_size mf"

definition set_addr :: "mem_fetch \<Rightarrow> u64 \<Rightarrow> mem_fetch" where
  "set_addr mf a = mf\<lparr>mf_access := (mf_access mf)\<lparr>acc_addr := a\<rparr>\<rparr>"

definition set_mf_status :: "mem_fetch \<Rightarrow> mem_fetch_status \<Rightarrow> u64 \<Rightarrow> mem_fetch" where
  "set_mf_status mf status cycle = mf\<lparr>mf_status := status, mf_status_change := cycle\<rparr>"

definition isatomic :: "mem_fetch \<Rightarrow> bool" where
  "isatomic mf = (case mf_inst mf of None \<Rightarrow> False | Some i \<Rightarrow> inst_isatomic i)"

definition istexture :: "mem_fetch \<Rightarrow> bool" where
  "istexture mf = (case mf_inst mf of None \<Rightarrow> False | Some i \<Rightarrow> inst_space i = tex_space)"

definition isconst :: "mem_fetch \<Rightarrow> bool" where
  "isconst mf = (case mf_inst mf of None \<Rightarrow> False
     | Some i \<Rightarrow> inst_space i = const_space \<or> inst_space i = param_space_kernel)"

definition get_num_flits :: "mem_fetch \<Rightarrow> bool \<Rightarrow> nat" where
  "get_num_flits mf simt_to_mem =
     (let sz = (if isatomic mf \<or> (simt_to_mem \<and> is_write mf) \<or> \<not> (simt_to_mem \<or> is_write mf)
                then mf_size mf else mf_ctrl_size mf)
      in sz div mf_icnt_flit_size mf + (if sz mod mf_icnt_flit_size mf \<noteq> 0 then 1 else 0))"

definition set_reply :: "mem_fetch \<Rightarrow> mem_fetch option" where
  "set_reply mf = do {
     guard (get_access_type mf \<noteq> L1_WRBK_ACC \<and> get_access_type mf \<noteq> L2_WRBK_ACC);
     (if mf_type mf = READ_REQUEST then do {
        guard (\<not> is_write mf);
        Some (mf\<lparr>mf_type := READ_REPLY\<rparr>) }
      else if mf_type mf = WRITE_REQUEST then do {
        guard (is_write mf);
        Some (mf\<lparr>mf_type := WRITE_ACK\<rparr>) }
      else Some mf) }"

section \<open>The request heap\<close>

record mf_heap =
  mfs :: "nat \<Rightarrow> mem_fetch option"
  next_ptr :: nat
  sm_next_mf_request_uid :: nat
  sm_next_access_uid :: nat

definition mf_heap_init :: mf_heap where
  "mf_heap_init = \<lparr>mfs = (\<lambda>_. None), next_ptr = 0, sm_next_mf_request_uid = 1, sm_next_access_uid = 0\<rparr>"

definition wf_heap :: "mf_heap \<Rightarrow> bool" where
  "wf_heap h \<longleftrightarrow> (\<forall>p. mfs h p \<noteq> None \<longrightarrow> p < next_ptr h)"

definition put_mf :: "mf_heap \<Rightarrow> nat \<Rightarrow> mem_fetch \<Rightarrow> mf_heap" where
  "put_mf h p mf = h\<lparr>mfs := (mfs h)(p \<mapsto> mf)\<rparr>"

definition delete_mf :: "mf_heap \<Rightarrow> nat \<Rightarrow> mf_heap" where
  "delete_mf h p = h\<lparr>mfs := (mfs h)(p := None)\<rparr>"

definition mem_fetch_new ::
  "mf_heap \<Rightarrow> mem_access \<Rightarrow> inst_info option \<Rightarrow> u64 \<Rightarrow> nat \<Rightarrow> nat \<Rightarrow> nat \<Rightarrow> nat \<Rightarrow> memory_config \<Rightarrow> u64 \<Rightarrow>
   nat option \<Rightarrow> nat option \<Rightarrow> (nat \<times> mf_heap) option" where
  "mem_fetch_new h access inst streamID ctrl_size wid sid tpc config cycle original_mf original_wr_mf = do {
     guard (case inst of None \<Rightarrow> True | Some i \<Rightarrow> wid = inst_warp_id i);
     let (chip0, sub0) = (if \<not> SST_mode config then addrdec_tlx config (acc_addr access) else (0, 0));
     let paddr = (if \<not> SST_mode config then partition_address config (acc_addr access) else 0);
     (chip, sub) \<leftarrow> (case original_mf of None \<Rightarrow> Some (chip0, sub0)
        | Some p \<Rightarrow> map_option (\<lambda>r. (mf_chip r, mf_sub_partition r)) (mfs h p));
     let mf = \<lparr>mf_request_uid = sm_next_mf_request_uid h, mf_sid = sid, mf_tpc = tpc, mf_wid = wid,
        mf_status = MEM_FETCH_INITIALIZED, mf_status_change = cycle, mf_access = access,
        mf_data_size = acc_req_size access, mf_ctrl_size = ctrl_size, mf_partition_addr = paddr,
        mf_chip = chip, mf_sub_partition = sub,
        mf_type = (if acc_write access then WRITE_REQUEST else READ_REQUEST),
        mf_timestamp = cycle, mf_timestamp2 = 0, mf_inst = inst, mf_streamID = streamID,
        mf_icnt_flit_size = icnt_flit_size config,
        mf_original_mf = original_mf, mf_original_wr_mf = original_wr_mf\<rparr>;
     Some (next_ptr h, h\<lparr>mfs := (mfs h)(next_ptr h \<mapsto> mf), next_ptr := Suc (next_ptr h),
        sm_next_mf_request_uid := Suc (sm_next_mf_request_uid h)\<rparr>)
   }"

text \<open>
  The allocators. \<open>core\<close> is \<open>Some (core_id, cluster_id)\<close> for the shader's allocator, which ignores
  the caller's SM and TPC numbers, and \<open>None\<close> for the memory partition's.
\<close>

abbreviation (input) READ_PACKET_SIZE :: nat where "READ_PACKET_SIZE \<equiv> 8"
abbreviation (input) WRITE_PACKET_SIZE :: nat where "WRITE_PACKET_SIZE \<equiv> 8"

definition mf_alloc ::
  "(nat \<times> nat) option \<Rightarrow> memory_config \<Rightarrow> mf_heap \<Rightarrow> u64 \<Rightarrow> mem_access_type \<Rightarrow> warp_mask \<Rightarrow> byte_mask \<Rightarrow>
   sector_mask \<Rightarrow> nat \<Rightarrow> bool \<Rightarrow> u64 \<Rightarrow> nat \<Rightarrow> nat \<Rightarrow> nat \<Rightarrow> nat option \<Rightarrow> u64 \<Rightarrow> (nat \<times> mf_heap) option" where
  "mf_alloc core config h addr ty active_mask byte_mask sector_mask req_size wr cycle wid sid tpc original_mf streamID =
     (let (access, uid) = mem_access_new (sm_next_access_uid h) ty addr req_size wr active_mask byte_mask sector_mask;
          (sid', tpc') = (case core of None \<Rightarrow> (sid, tpc) | Some (c, cl) \<Rightarrow> (c, cl))
      in mem_fetch_new (h\<lparr>sm_next_access_uid := uid\<rparr>) access None streamID
           (if wr then WRITE_PACKET_SIZE else READ_PACKET_SIZE) wid sid' tpc' config cycle original_mf None)"

section \<open>Lemmas\<close>

lemma set_addr_simps [simp]:
  "get_addr (set_addr mf a) = a" "is_write (set_addr mf a) = is_write mf"
  "get_access_sector_mask (set_addr mf a) = get_access_sector_mask mf"
  "get_access_byte_mask (set_addr mf a) = get_access_byte_mask mf"
  "get_access_type (set_addr mf a) = get_access_type mf"
  "mf_data_size (set_addr mf a) = mf_data_size mf" "isatomic (set_addr mf a) = isatomic mf"
  by (simp_all add: set_addr_def get_addr_def is_write_def get_access_sector_mask_def
      get_access_byte_mask_def get_access_type_def isatomic_def)

lemma mfs_put [simp]: "mfs (put_mf h p mf) = (mfs h)(p \<mapsto> mf)"
  by (simp add: put_mf_def)

lemma mfs_delete [simp]: "mfs (delete_mf h p) = (mfs h)(p := None)"
  by (simp add: delete_mf_def)

lemma mem_fetch_new_Some:
  "mem_fetch_new h access inst s cs wid sid tpc config cycle omf owr = Some (p, h') \<Longrightarrow>
    p = next_ptr h \<and> next_ptr h' = Suc p \<and>
    (\<exists>mf. mfs h' = (mfs h)(p \<mapsto> mf) \<and> mf_access mf = access \<and> mf_data_size mf = acc_req_size access \<and>
      mf_inst mf = inst \<and> mf_original_mf mf = omf \<and> mf_original_wr_mf mf = owr \<and> mf_streamID mf = s \<and>
      mf_type mf = (if acc_write access then WRITE_REQUEST else READ_REQUEST) \<and> mf_ctrl_size mf = cs)"
  unfolding mem_fetch_new_def Let_def by (auto simp: bind_eq_Some_conv split: prod.splits)

text \<open>A freshly allocated request never aliases a live one.\<close>

lemma mem_fetch_new_fresh:
  "wf_heap h \<Longrightarrow> mem_fetch_new h access inst s cs wid sid tpc config cycle omf owr = Some (p, h') \<Longrightarrow>
    mfs h p = None \<and> wf_heap h'"
  by (drule mem_fetch_new_Some) (fastforce simp: wf_heap_def less_Suc_eq split: if_splits)

end
