(* ===== verification/Tag_Array.thy ===== *)
theory Tag_Array
  imports Cache_Block Set_Index Mem_Fetch
begin

text \<open>
  \<^verbatim>\<open>class tag_array\<close> of \<^verbatim>\<open>src/gpgpu-sim/gpu-cache.cc\<close>: the tags and blocks of a cache, their
  lookup (\<^verbatim>\<open>probe\<close>: match or choose a victim), the effect of an access, the fills, \<^verbatim>\<open>flush\<close> and
  \<^verbatim>\<open>invalidate\<close>, the dirty-line counter and the statistics counters.

  The reference argument \<^verbatim>\<open>idx\<close> of \<^verbatim>\<open>probe\<close> is part of the result: \<open>None\<close> when the code leaves it
  unwritten. The virtual \<^verbatim>\<open>m_config.set_index\<close> is the field \<open>ta_set_index\<close>, so that the same tag
  array serves the L1 caches and the L2 slices.
\<close>

section \<open>State\<close>

record tag_array =
  ta_config :: cache_config
  ta_set_index :: "u64 \<Rightarrow> nat option"
  m_lines :: "cache_block list"
  m_access :: u32
  m_miss :: u32
  m_pending_hit :: u32
  m_res_fail :: u32
  m_sector_miss :: u32
  m_dirty :: u32
  m_prev_snapshot_access :: u32
  m_prev_snapshot_miss :: u32
  m_prev_snapshot_pending_hit :: u32
  is_used :: bool
  pending_lines :: "(u64 \<times> u32) list"

definition new_block :: "cache_config \<Rightarrow> cache_block" where
  "new_block c = (case m_cache_type c of NORMAL \<Rightarrow> LineBlock line_init
     | SECTOR \<Rightarrow> SectorBlock sector_block_new)"

definition tag_array_new :: "cache_config \<Rightarrow> (u64 \<Rightarrow> nat option) \<Rightarrow> tag_array" where
  "tag_array_new config idx_fn = \<lparr>ta_config = config, ta_set_index = idx_fn,
     m_lines = replicate (get_max_num_lines config) (new_block config),
     m_access = 0, m_miss = 0, m_pending_hit = 0, m_res_fail = 0, m_sector_miss = 0, m_dirty = 0,
     m_prev_snapshot_access = 0, m_prev_snapshot_miss = 0, m_prev_snapshot_pending_hit = 0,
     is_used = False, pending_lines = []\<rparr>"

definition update_cache_parameters :: "tag_array \<Rightarrow> cache_config \<Rightarrow> tag_array" where
  "update_cache_parameters ta config = ta\<lparr>ta_config := config\<rparr>"

text \<open>The hash map of pending lines, keyed by block address.\<close>

definition add_pending_line :: "tag_array \<Rightarrow> mem_fetch \<Rightarrow> tag_array" where
  "add_pending_line ta mf =
     (let addr = block_addr (ta_config ta) (get_addr mf) in
      case map_of (pending_lines ta) addr of
        None \<Rightarrow> ta\<lparr>pending_lines := AList.update addr
          (case mf_inst mf of None \<Rightarrow> 0 | Some i \<Rightarrow> inst_uid i) (pending_lines ta)\<rparr>
      | Some _ \<Rightarrow> ta)"

definition remove_pending_line :: "tag_array \<Rightarrow> mem_fetch \<Rightarrow> tag_array" where
  "remove_pending_line ta mf =
     (let addr = block_addr (ta_config ta) (get_addr mf) in
      case map_of (pending_lines ta) addr of
        None \<Rightarrow> ta
      | Some _ \<Rightarrow> ta\<lparr>pending_lines := AList.delete addr (pending_lines ta)\<rparr>)"

section \<open>Lookup\<close>

text \<open>
  \<open>tag_match\<close> is the body of \<^verbatim>\<open>if (line->m_tag == tag)\<close>: the outcome it returns, or \<open>Some None\<close> when
  the scan goes on. The outer option is the failed assertion.
\<close>

definition tag_match ::
  "cache_block \<Rightarrow> sector_mask \<Rightarrow> bool \<Rightarrow> cache_request_status option option" where
  "tag_match line smask wr = do {
     st \<leftarrow> get_status line smask;
     (if st = RESERVED then Some (Some HIT_RESERVED)
      else if st = VALID then Some (Some HIT)
      else if st = MODIFIED then do {
        readable \<leftarrow> is_readable line smask;
        (if (\<not> wr \<and> readable) \<or> wr then Some (Some HIT) else Some (Some SECTOR_MISS)) }
      else if is_valid_line line \<and> st = INVALID then Some (Some SECTOR_MISS)
      else do { guard (st = INVALID); Some None })
   }"

text \<open>The dirty share of the cache, in percent, in single precision.\<close>

definition dirty_line_percentage :: "tag_array \<Rightarrow> rat" where
  "dirty_line_percentage ta =
     f32_round (f32_round (f32_round (of_nat (unat (m_dirty ta))) /
       f32_round (of_nat (m_nset (ta_config ta) * m_assoc (ta_config ta)))) * 100)"

definition evictable :: "tag_array \<Rightarrow> cache_block \<Rightarrow> bool" where
  "evictable ta line \<longleftrightarrow> \<not> is_reserved_line line \<and>
     (\<not> is_modified_line line \<or> dirty_line_percentage ta \<ge> f32_round (of_nat (m_wr_percent (ta_config ta))))"

record victim_scan =
  invalid_line :: "nat option"
  valid_line :: "nat option"
  valid_timestamp :: u64
  all_reserved :: bool

definition victim_init :: victim_scan where
  "victim_init = \<lparr>invalid_line = None, valid_line = None, valid_timestamp = 0xFFFFFFFF, all_reserved = True\<rparr>"

definition replacement_time :: "cache_config \<Rightarrow> cache_block \<Rightarrow> u64" where
  "replacement_time c line = (case m_replacement_policy c of
     LRU \<Rightarrow> get_last_access_time line | FIFO \<Rightarrow> get_alloc_time line)"

definition victim_step :: "tag_array \<Rightarrow> nat \<Rightarrow> cache_block \<Rightarrow> victim_scan \<Rightarrow> victim_scan" where
  "victim_step ta index line v =
     (if evictable ta line then
        (let v = v\<lparr>all_reserved := False\<rparr> in
         if is_invalid_line line then v\<lparr>invalid_line := Some index\<rparr>
         else if replacement_time (ta_config ta) line < valid_timestamp v
         then v\<lparr>valid_timestamp := replacement_time (ta_config ta) line, valid_line := Some index\<rparr>
         else v)
      else v)"

fun probe_ways ::
  "tag_array \<Rightarrow> u64 \<Rightarrow> sector_mask \<Rightarrow> bool \<Rightarrow> nat list \<Rightarrow> victim_scan \<Rightarrow>
   ((cache_request_status \<times> nat) + victim_scan) option" where
  "probe_ways ta tg smask wr [] v = Some (Inr v)"
| "probe_ways ta tg smask wr (index # rest) v =
    (if index < length (m_lines ta) then
       (let line = m_lines ta ! index in
        do {
          found \<leftarrow> (if blk_tag line = tg then tag_match line smask wr else Some None);
          (case found of Some st \<Rightarrow> Some (Inl (st, index))
           | None \<Rightarrow> probe_ways ta tg smask wr rest (victim_step ta index line v)) })
     else None)"

definition probe ::
  "tag_array \<Rightarrow> u64 \<Rightarrow> sector_mask \<Rightarrow> bool \<Rightarrow> (cache_request_status \<times> nat option) option" where
  "probe ta addr smask wr = do {
     s \<leftarrow> ta_set_index ta addr;
     let c = ta_config ta;
     r \<leftarrow> probe_ways ta (tag c addr) smask wr
            (map (\<lambda>way. s * m_assoc c + way) [0..<m_assoc c]) victim_init;
     (case r of Inl (st, index) \<Rightarrow> Some (st, Some index)
      | Inr v \<Rightarrow>
          if all_reserved v then do {
            guard (m_alloc_policy c = ON_MISS);
            Some (RESERVATION_FAIL, None) }
          else (case invalid_line v of Some i \<Rightarrow> Some (MISS, Some i)
            | None \<Rightarrow> (case valid_line v of Some i \<Rightarrow> Some (MISS, Some i) | None \<Rightarrow> None)))
   }"

section \<open>Access\<close>

definition set_line :: "tag_array \<Rightarrow> nat \<Rightarrow> cache_block \<Rightarrow> tag_array" where
  "set_line ta i b = ta\<lparr>m_lines := (m_lines ta)[i := b]\<rparr>"

definition evicted_info :: "cache_block \<Rightarrow> evicted_block_info" where
  "evicted_info line = \<lparr>ev_block_addr = blk_block_addr line, ev_modified_size = get_modified_size line,
     ev_byte_mask = get_dirty_byte_mask line, ev_sector_mask = get_dirty_sector_mask line\<rparr>"

text \<open>The three ways \<^verbatim>\<open>access\<close> treats the line that \<^verbatim>\<open>probe\<close> names.\<close>

definition access_touch :: "tag_array \<Rightarrow> u32 \<Rightarrow> mem_fetch \<Rightarrow> nat \<Rightarrow> tag_array option" where
  "access_touch ta time mf i = do {
     b \<leftarrow> set_last_access_time (m_lines ta ! i) (ucast time) (get_access_sector_mask mf);
     Some (set_line ta i b) }"

definition access_miss ::
  "tag_array \<Rightarrow> u64 \<Rightarrow> u32 \<Rightarrow> bool \<Rightarrow> evicted_block_info \<Rightarrow> mem_fetch \<Rightarrow> nat \<Rightarrow>
   (tag_array \<times> bool \<times> evicted_block_info) option" where
  "access_miss ta addr time wb evicted mf i =
     (let c = ta_config ta; line = m_lines ta ! i in
      if m_alloc_policy c = ON_MISS then
        (let (ta, wb, evicted) =
           (if is_modified_line line
            then (ta\<lparr>m_dirty := m_dirty ta - 1\<rparr>, True, evicted_info line)
            else (ta, wb, evicted))
         in do {
           b \<leftarrow> allocate line (tag c addr) (block_addr c addr) time (get_access_sector_mask mf);
           Some (set_line ta i b, wb, evicted) })
      else Some (ta, wb, evicted))"

definition access_sector_miss :: "tag_array \<Rightarrow> u32 \<Rightarrow> mem_fetch \<Rightarrow> nat \<Rightarrow> tag_array option" where
  "access_sector_miss ta time mf i =
     (if m_alloc_policy (ta_config ta) = ON_MISS then do {
        let before = is_modified_line (m_lines ta ! i);
        b \<leftarrow> allocate_sector (m_lines ta ! i) time (get_access_sector_mask mf);
        let ta = set_line ta i b;
        Some (if before \<and> \<not> is_modified_line b then ta\<lparr>m_dirty := m_dirty ta - 1\<rparr> else ta) }
      else Some ta)"

text \<open>
  The result: the outcome, the index (as for \<open>probe\<close>), the new tag array, the write-back flag and
  the eviction record, which keep their input values unless a modified line is evicted.
\<close>

definition access ::
  "tag_array \<Rightarrow> u64 \<Rightarrow> u32 \<Rightarrow> bool \<Rightarrow> evicted_block_info \<Rightarrow> mem_fetch \<Rightarrow>
   (cache_request_status \<times> nat option \<times> tag_array \<times> bool \<times> evicted_block_info) option" where
  "access ta addr time wb evicted mf = do {
     let ta = ta\<lparr>m_access := m_access ta + 1, is_used := True\<rparr>;
     (status, idx) \<leftarrow> probe ta addr (get_access_sector_mask mf) (is_write mf);
     (case status of
       HIT_RESERVED \<Rightarrow> do {
         i \<leftarrow> idx;
         ta \<leftarrow> access_touch (ta\<lparr>m_pending_hit := m_pending_hit ta + 1\<rparr>) time mf i;
         Some (status, idx, ta, wb, evicted) }
     | HIT \<Rightarrow> do {
         i \<leftarrow> idx;
         ta \<leftarrow> access_touch ta time mf i;
         Some (status, idx, ta, wb, evicted) }
     | MISS \<Rightarrow> do {
         i \<leftarrow> idx;
         (ta, wb, evicted) \<leftarrow> access_miss (ta\<lparr>m_miss := m_miss ta + 1\<rparr>) addr time wb evicted mf i;
         Some (status, idx, ta, wb, evicted) }
     | SECTOR_MISS \<Rightarrow> do {
         i \<leftarrow> idx;
         guard (m_cache_type (ta_config ta) = SECTOR);
         ta \<leftarrow> access_sector_miss (ta\<lparr>m_sector_miss := m_sector_miss ta + 1\<rparr>) time mf i;
         Some (status, idx, ta, wb, evicted) }
     | RESERVATION_FAIL \<Rightarrow> Some (status, idx, ta\<lparr>m_res_fail := m_res_fail ta + 1\<rparr>, wb, evicted)
     | MSHR_HIT \<Rightarrow> None)
   }"

text \<open>The overload without eviction asserts that nothing had to be written back.\<close>

definition access_no_wb ::
  "tag_array \<Rightarrow> u64 \<Rightarrow> u32 \<Rightarrow> mem_fetch \<Rightarrow> (cache_request_status \<times> nat option \<times> tag_array) option" where
  "access_no_wb ta addr time mf = do {
     (result, idx, ta', wb, _) \<leftarrow> access ta addr time False evicted_block_info_init mf;
     guard (\<not> wb);
     Some (result, idx, ta') }"

section \<open>Fill\<close>

definition fill_line ::
  "tag_array \<Rightarrow> nat \<Rightarrow> u32 \<Rightarrow> sector_mask \<Rightarrow> byte_mask \<Rightarrow> tag_array option" where
  "fill_line ta i time smask byte_mask = do {
     guard (i < length (m_lines ta));
     let before = is_modified_line (m_lines ta ! i);
     b \<leftarrow> block_fill (m_lines ta ! i) time smask byte_mask;
     let ta = set_line ta i b;
     Some (if is_modified_line b \<and> \<not> before then ta\<lparr>m_dirty := m_dirty ta + 1\<rparr> else ta) }"

definition fill_addr_mask ::
  "tag_array \<Rightarrow> u64 \<Rightarrow> u32 \<Rightarrow> sector_mask \<Rightarrow> byte_mask \<Rightarrow> bool \<Rightarrow> tag_array option" where
  "fill_addr_mask ta addr time smask byte_mask wr = do {
     let c = ta_config ta;
     (status, idx) \<leftarrow> probe ta addr smask wr;
     (case idx of
        None \<Rightarrow> do { guard (status = RESERVATION_FAIL); Some ta }
      | Some i \<Rightarrow> do {
          let before = is_modified_line (m_lines ta ! i);
          b \<leftarrow> (if status = MISS then
                  allocate (m_lines ta ! i) (tag c addr) (block_addr c addr) time smask
                else if status = SECTOR_MISS then do {
                  guard (m_cache_type c = SECTOR);
                  allocate_sector (m_lines ta ! i) time smask }
                else Some (m_lines ta ! i));
          let ta = set_line ta i b;
          let ta = (if before \<and> \<not> is_modified_line b then ta\<lparr>m_dirty := m_dirty ta - 1\<rparr> else ta);
          fill_line ta i time smask byte_mask }) }"

definition fill_addr :: "tag_array \<Rightarrow> u64 \<Rightarrow> u32 \<Rightarrow> mem_fetch \<Rightarrow> bool \<Rightarrow> tag_array option" where
  "fill_addr ta addr time mf wr =
     fill_addr_mask ta addr time (get_access_sector_mask mf) (get_access_byte_mask mf) wr"

definition fill_index :: "tag_array \<Rightarrow> nat \<Rightarrow> u32 \<Rightarrow> mem_fetch \<Rightarrow> tag_array option" where
  "fill_index ta index time mf = do {
     guard (m_alloc_policy (ta_config ta) = ON_MISS);
     fill_line ta index time (get_access_sector_mask mf) (get_access_byte_mask mf) }"

section \<open>Flush and invalidate\<close>

text \<open>\<^verbatim>\<open>set_status(INVALID, mem_access_sector_mask_t().set(j))\<close> for the four sectors.\<close>

definition invalidate_line :: "cache_block \<Rightarrow> cache_block option" where
  "invalidate_line b = do {
     b \<leftarrow> set_status b INVALID (sector_bit 0);
     b \<leftarrow> set_status b INVALID (sector_bit 1);
     b \<leftarrow> set_status b INVALID (sector_bit 2);
     set_status b INVALID (sector_bit 3) }"

fun flush_lines :: "(cache_block \<Rightarrow> bool) \<Rightarrow> nat \<Rightarrow> cache_block list \<Rightarrow> cache_block list option" where
  "flush_lines sel 0 bs = Some bs"
| "flush_lines sel (Suc n) [] = None"
| "flush_lines sel (Suc n) (b # bs) = do {
     b' \<leftarrow> (if sel b then invalidate_line b else Some b);
     bs' \<leftarrow> flush_lines sel n bs;
     Some (b' # bs') }"

definition flush :: "tag_array \<Rightarrow> tag_array option" where
  "flush ta =
     (if \<not> is_used ta then Some ta else do {
        bs \<leftarrow> flush_lines is_modified_line (get_num_lines (ta_config ta)) (m_lines ta);
        Some (ta\<lparr>m_lines := bs, m_dirty := 0, is_used := False\<rparr>) })"

definition invalidate :: "tag_array \<Rightarrow> tag_array option" where
  "invalidate ta =
     (if \<not> is_used ta then Some ta else do {
        bs \<leftarrow> flush_lines (\<lambda>_. True) (get_num_lines (ta_config ta)) (m_lines ta);
        Some (ta\<lparr>m_lines := bs, m_dirty := 0, is_used := False\<rparr>) })"

section \<open>Statistics\<close>

definition windowed_miss_rate :: "tag_array \<Rightarrow> rat" where
  "windowed_miss_rate ta =
     (let n_access = m_access ta - m_prev_snapshot_access ta;
          n_miss = (m_miss ta + m_sector_miss ta) - m_prev_snapshot_miss ta
      in if n_access \<noteq> 0
         then f32_round (f32_round (of_nat (unat (n_miss + m_sector_miss ta))) / f32_round (of_nat (unat n_access)))
         else 0)"

definition new_window :: "tag_array \<Rightarrow> tag_array" where
  "new_window ta = ta\<lparr>m_prev_snapshot_access := m_access ta,
     m_prev_snapshot_miss := m_miss ta + m_sector_miss ta,
     m_prev_snapshot_pending_hit := m_pending_hit ta\<rparr>"

definition get_stats :: "tag_array \<Rightarrow> u32 \<times> u32 \<times> u32 \<times> u32" where
  "get_stats ta = (m_access ta, m_miss ta + m_sector_miss ta, m_pending_hit ta, m_res_fail ta)"

definition inc_dirty :: "tag_array \<Rightarrow> tag_array" where
  "inc_dirty ta = ta\<lparr>m_dirty := m_dirty ta + 1\<rparr>"

text \<open>
  The sequence by which a data cache writes to a block it got from \<^verbatim>\<open>get_block\<close>: count the line if it
  becomes dirty, then \<^verbatim>\<open>set_status(MODIFIED, ...)\<close>.
\<close>

definition mark_modified :: "tag_array \<Rightarrow> nat \<Rightarrow> sector_mask \<Rightarrow> tag_array option" where
  "mark_modified ta i m = do {
     guard (i < length (m_lines ta));
     let ta' = (if \<not> is_modified_line (m_lines ta ! i) then inc_dirty ta else ta);
     b \<leftarrow> set_status (m_lines ta ! i) MODIFIED m;
     Some (set_line ta' i b) }"

end
