(* ===== verification/Tag_Lookup.thy ===== *)
theory Tag_Lookup
  imports Tag_Array
begin

text \<open>
  What \<^verbatim>\<open>tag_array::probe\<close> computes. \<open>wf_tags\<close> is the invariant of a tag array (blocks of the
  configured kind, every non-invalid line in its set, no tag twice in the array); under it the scan
  over the ways is exactly a lookup followed by a victim choice, which the theorems of this file
  state for each outcome.
\<close>

section \<open>The invariant\<close>

definition line_count :: "tag_array \<Rightarrow> nat" where
  "line_count ta = m_nset (ta_config ta) * m_assoc (ta_config ta)"

fun kind_ok :: "cache_config \<Rightarrow> cache_block \<Rightarrow> bool" where
  "kind_ok c (LineBlock b) = (m_cache_type c = NORMAL)"
| "kind_ok c (SectorBlock b) = (m_cache_type c = SECTOR)"

definition slot_ok :: "tag_array \<Rightarrow> nat \<Rightarrow> cache_block \<Rightarrow> bool" where
  "slot_ok ta i b \<longleftrightarrow> wf_block b \<and> kind_ok (ta_config ta) b \<and>
     (\<not> is_invalid_line b \<longrightarrow>
        blk_block_addr b = blk_tag b \<and> block_addr (ta_config ta) (blk_tag b) = blk_tag b \<and>
        ta_set_index ta (blk_tag b) = Some (i div m_assoc (ta_config ta)))"

definition tags_unique :: "tag_array \<Rightarrow> bool" where
  "tags_unique ta \<longleftrightarrow> (\<forall>i < line_count ta. \<forall>j < line_count ta.
     \<not> is_invalid_line (m_lines ta ! i) \<and> \<not> is_invalid_line (m_lines ta ! j) \<and>
     blk_tag (m_lines ta ! i) = blk_tag (m_lines ta ! j) \<longrightarrow> i = j)"

definition wf_tags :: "tag_array \<Rightarrow> bool" where
  "wf_tags ta \<longleftrightarrow> set_mapping (ta_set_index ta) (m_nset (ta_config ta)) (block_addr (ta_config ta))
     \<and> 0 < m_assoc (ta_config ta) \<and> line_count ta \<le> length (m_lines ta)
     \<and> (\<forall>i < line_count ta. slot_ok ta i (m_lines ta ! i)) \<and> tags_unique ta"

definition modified_count :: "tag_array \<Rightarrow> nat" where
  "modified_count ta = length (filter is_modified_line (take (line_count ta) (m_lines ta)))"

definition dirty_ok :: "tag_array \<Rightarrow> bool" where
  "dirty_ok ta \<longleftrightarrow> m_dirty ta = of_nat (modified_count ta)"

text \<open>The ways of the set of an address.\<close>

definition ways :: "tag_array \<Rightarrow> u64 \<Rightarrow> nat list" where
  "ways ta addr = (case ta_set_index ta addr of None \<Rightarrow> []
     | Some s \<Rightarrow> map (\<lambda>w. s * m_assoc (ta_config ta) + w) [0..<m_assoc (ta_config ta)])"

text \<open>The line at \<open>i\<close> holds the block of \<open>addr\<close>.\<close>

definition holds :: "tag_array \<Rightarrow> u64 \<Rightarrow> nat \<Rightarrow> bool" where
  "holds ta addr i \<longleftrightarrow> i < line_count ta \<and> \<not> is_invalid_line (m_lines ta ! i)
     \<and> blk_tag (m_lines ta ! i) = block_addr (ta_config ta) addr"

lemma in_ways:
  "i \<in> set (ways ta addr) \<longleftrightarrow> (\<exists>s. ta_set_index ta addr = Some s \<and>
     s * m_assoc (ta_config ta) \<le> i \<and> i < s * m_assoc (ta_config ta) + m_assoc (ta_config ta))"
  by (cases "ta_set_index ta addr") (auto simp: ways_def add.commute)

lemma ways_range:
  assumes wf: "wf_tags ta" and i: "i \<in> set (ways ta addr)"
  shows "i < line_count ta \<and> ta_set_index ta addr = Some (i div m_assoc (ta_config ta))"
proof -
  let ?k = "m_assoc (ta_config ta)"
  from i obtain s where s: "ta_set_index ta addr = Some s" and b: "s * ?k \<le> i" "i < s * ?k + ?k"
    unfolding in_ways by blast
  have map: "set_mapping (ta_set_index ta) (m_nset (ta_config ta)) (block_addr (ta_config ta))"
    using wf by (simp add: wf_tags_def)
  have "i - s * ?k < ?k" using b by linarith
  from set_mapping.way_in_range [OF map s this] b have "i < line_count ta" by (simp add: line_count_def)
  moreover have "i div ?k = s" using b by (intro div_nat_eqI) (auto simp: mult.commute)
  ultimately show ?thesis using s by simp
qed

lemma set_index_block: "wf_tags ta \<Longrightarrow> ta_set_index ta (block_addr (ta_config ta) a) = ta_set_index ta a"
  unfolding wf_tags_def by (metis set_mapping.idx_block block_addr_idem)

lemma set_index_total: "wf_tags ta \<Longrightarrow> \<exists>s. ta_set_index ta a = Some s"
  unfolding wf_tags_def by (metis set_mapping.idx_range)

lemma holds_in_ways:
  assumes wf: "wf_tags ta" and h: "holds ta addr i"
  shows "i \<in> set (ways ta addr)"
proof -
  let ?k = "m_assoc (ta_config ta)"
  have "ta_set_index ta (block_addr (ta_config ta) addr) = Some (i div ?k)"
    using wf h by (auto simp: wf_tags_def slot_ok_def holds_def)
  then have "ta_set_index ta addr = Some (i div ?k)" by (simp only: set_index_block [OF wf])
  moreover have "i < ?k + i div ?k * ?k"
    using wf by (intro dividend_less_div_times) (simp add: wf_tags_def)
  ultimately show ?thesis by (simp add: in_ways add.commute)
qed

lemma holds_unique: "wf_tags ta \<Longrightarrow> holds ta addr i \<Longrightarrow> holds ta addr j \<Longrightarrow> i = j"
  by (auto simp: wf_tags_def tags_unique_def holds_def)

lemma probe_eq:
  "wf_tags ta \<Longrightarrow> probe ta addr m w = do {
     r \<leftarrow> probe_ways ta (block_addr (ta_config ta) addr) m w (ways ta addr) victim_init;
     (case r of Inl (st, index) \<Rightarrow> Some (st, Some index)
      | Inr v \<Rightarrow>
          if all_reserved v then do {
            guard (m_alloc_policy (ta_config ta) = ON_MISS); Some (RESERVATION_FAIL, None) }
          else (case invalid_line v of Some i \<Rightarrow> Some (MISS, Some i)
            | None \<Rightarrow> (case valid_line v of Some i \<Rightarrow> Some (MISS, Some i) | None \<Rightarrow> None))) }"
  using set_index_total [of ta addr] by (auto simp: probe_def Let_def ways_def tag_eq_block_addr)

section \<open>Matching\<close>

lemma tag_match_Some_None:
  assumes "get_sector_index m \<noteq> None"
  shows "tag_match b m w = Some None \<longleftrightarrow> is_invalid_line b"
proof (cases b)
  case (LineBlock l)
  then show ?thesis by (cases "l_status l") (auto simp: tag_match_def)
next
  case (SectorBlock s)
  obtain j where j: "get_sector_index m = Some j" "j < 4" using assms get_sector_index_less by auto
  show ?thesis
    by (cases "s_status s ! j") (use j in \<open>auto simp: SectorBlock tag_match_def sector_is_invalid_line_def\<close>)
qed

lemma tag_match_total: "get_sector_index m \<noteq> None \<Longrightarrow> tag_match b m w \<noteq> None"
proof -
  assume "get_sector_index m \<noteq> None"
  then obtain j where j: "get_sector_index m = Some j" by blast
  obtain st where st: "get_status b m = Some st" using block_ops_total(7) [OF j] by blast
  obtain r where r: "is_readable b m = Some r" using block_ops_total(6) [OF j] by blast
  show ?thesis using valid_not_invalid by (cases st) (auto simp: tag_match_def st r)
qed

lemma tag_match_cases:
  assumes "tag_match b m w = Some (Some st)"
  shows "(st = HIT \<longleftrightarrow> get_status b m = Some VALID \<or>
        get_status b m = Some MODIFIED \<and> (w \<or> is_readable b m = Some True))
    \<and> (st = HIT_RESERVED \<longleftrightarrow> get_status b m = Some RESERVED)
    \<and> (st = SECTOR_MISS \<longleftrightarrow> get_status b m = Some MODIFIED \<and> \<not> w \<and> is_readable b m = Some False \<or>
        get_status b m = Some INVALID \<and> is_valid_line b)
    \<and> st \<in> {HIT, HIT_RESERVED, SECTOR_MISS}"
  using assms by (auto simp: tag_match_def bind_eq_Some_conv split: if_splits cache_block_state.splits)

text \<open>The scan: the first way that matches, or the victim choice over all of them.\<close>

lemma probe_ways_Cons:
  "probe_ways ta tg m w (i # is) v =
    (if i < length (m_lines ta) then
       (case (if blk_tag (m_lines ta ! i) = tg then tag_match (m_lines ta ! i) m w else Some None) of
          None \<Rightarrow> None
        | Some None \<Rightarrow> probe_ways ta tg m w is (victim_step ta i (m_lines ta ! i) v)
        | Some (Some st) \<Rightarrow> Some (Inl (st, i)))
     else None)"
  by (simp add: Let_def split: option.split)

declare probe_ways.simps(2) [simp del]

lemma probe_ways_found:
  "probe_ways ta tg m w is v = Some (Inl (st, i)) \<Longrightarrow>
    i \<in> set is \<and> i < length (m_lines ta) \<and> blk_tag (m_lines ta ! i) = tg \<and>
    tag_match (m_lines ta ! i) m w = Some (Some st)"
  by (induction "is" arbitrary: v) (auto simp: probe_ways_Cons split: if_splits option.splits)

lemma probe_ways_none:
  "probe_ways ta tg m w is v = Some (Inr v') \<Longrightarrow>
    v' = fold (\<lambda>i. victim_step ta i (m_lines ta ! i)) is v \<and>
    (\<forall>i \<in> set is. i < length (m_lines ta) \<and>
       (blk_tag (m_lines ta ! i) = tg \<longrightarrow> tag_match (m_lines ta ! i) m w = Some None))"
  by (induction "is" arbitrary: v) (auto simp: probe_ways_Cons split: if_splits option.splits)

lemma probe_ways_total:
  "get_sector_index m \<noteq> None \<Longrightarrow> \<forall>i \<in> set is. i < length (m_lines ta) \<Longrightarrow> probe_ways ta tg m w is v \<noteq> None"
proof (induction "is" arbitrary: v)
  case (Cons i "is")
  have "tag_match (m_lines ta ! i) m w \<noteq> None" by (rule tag_match_total [OF Cons.prems(1)])
  with Cons show ?case by (auto simp: probe_ways_Cons split: option.split)
qed simp

section \<open>The victim\<close>

definition candidate :: "tag_array \<Rightarrow> nat list \<Rightarrow> nat \<Rightarrow> bool" where
  "candidate ta is i \<longleftrightarrow> i \<in> set is \<and> evictable ta (m_lines ta ! i)"

definition line_time :: "tag_array \<Rightarrow> nat \<Rightarrow> u64" where
  "line_time ta i = replacement_time (ta_config ta) (m_lines ta ! i)"

definition scan_ok :: "tag_array \<Rightarrow> nat list \<Rightarrow> victim_scan \<Rightarrow> bool" where
  "scan_ok ta is v \<longleftrightarrow>
     (all_reserved v \<longleftrightarrow> (\<forall>i. \<not> candidate ta is i)) \<and>
     (case invalid_line v of
        None \<Rightarrow> \<forall>i. candidate ta is i \<longrightarrow> \<not> is_invalid_line (m_lines ta ! i)
      | Some i \<Rightarrow> candidate ta is i \<and> is_invalid_line (m_lines ta ! i)) \<and>
     (\<forall>i. candidate ta is i \<and> \<not> is_invalid_line (m_lines ta ! i) \<longrightarrow> valid_timestamp v \<le> line_time ta i) \<and>
     (case valid_line v of
        None \<Rightarrow> valid_timestamp v = 0xFFFFFFFF
      | Some i \<Rightarrow> candidate ta is i \<and> \<not> is_invalid_line (m_lines ta ! i) \<and> valid_timestamp v = line_time ta i)"

lemma candidate_snoc: "candidate ta (is @ [i]) j \<longleftrightarrow> candidate ta is j \<or> j = i \<and> evictable ta (m_lines ta ! i)"
  by (auto simp: candidate_def)

lemma scan_ok_step:
  assumes "scan_ok ta is v"
  shows "scan_ok ta (is @ [i]) (victim_step ta i (m_lines ta ! i) v)"
proof (cases "evictable ta (m_lines ta ! i)")
  case False
  then have "candidate ta (is @ [i]) = candidate ta is" "victim_step ta i (m_lines ta ! i) v = v"
    by (auto simp: candidate_snoc victim_step_def)
  then show ?thesis using assms unfolding scan_ok_def by (auto split: option.splits)
next
  case True
  have ord: "valid_timestamp v \<le> line_time ta j"
    if "candidate ta is j" "\<not> is_invalid_line (m_lines ta ! j)" for j
    using assms that by (simp add: scan_ok_def)
  show ?thesis
  proof (cases "is_invalid_line (m_lines ta ! i)")
    case True
    with assms \<open>evictable ta _\<close> show ?thesis
      by (auto simp: scan_ok_def victim_step_def candidate_snoc split: option.splits)
  next
    case False
    with assms \<open>evictable ta _\<close> ord show ?thesis
      by (auto simp: scan_ok_def victim_step_def Let_def candidate_snoc line_time_def not_less
          split: option.splits intro: order.trans [OF less_imp_le])
  qed
qed

lemma scan_ok_init: "scan_ok ta [] victim_init"
  by (simp add: scan_ok_def victim_init_def candidate_def)

lemma scan_ok_fold: "scan_ok ta is (fold (\<lambda>i. victim_step ta i (m_lines ta ! i)) is victim_init)"
proof -
  have "scan_ok ta pre v \<Longrightarrow> scan_ok ta (pre @ is) (fold (\<lambda>i. victim_step ta i (m_lines ta ! i)) is v)" for pre v
  proof (induction "is" arbitrary: pre v)
    case (Cons i "is")
    from Cons.IH [OF scan_ok_step [OF Cons.prems]] show ?case by simp
  qed simp
  from this [OF scan_ok_init] show ?thesis by simp
qed

section \<open>The outcomes of a probe\<close>

lemma found_holds:
  assumes "wf_tags ta" and "get_sector_index m \<noteq> None"
    and "probe_ways ta (block_addr (ta_config ta) addr) m w (ways ta addr) v = Some (Inl (st, i))"
  shows "holds ta addr i \<and> tag_match (m_lines ta ! i) m w = Some (Some st)"
proof -
  from probe_ways_found [OF assms(3)]
  have f: "i \<in> set (ways ta addr)" "blk_tag (m_lines ta ! i) = block_addr (ta_config ta) addr"
    "tag_match (m_lines ta ! i) m w = Some (Some st)" by auto
  from f(3) have "\<not> is_invalid_line (m_lines ta ! i)"
    using tag_match_Some_None [OF assms(2), of "m_lines ta ! i" w] by auto
  then show ?thesis using ways_range [OF assms(1) f(1)] f(2,3) by (simp add: holds_def)
qed

lemma none_holds:
  assumes "wf_tags ta" and "get_sector_index m \<noteq> None"
    and "probe_ways ta (block_addr (ta_config ta) addr) m w (ways ta addr) v = Some (Inr v')"
  shows "\<not> holds ta addr i"
proof
  assume h: "holds ta addr i"
  with probe_ways_none [OF assms(3)] holds_in_ways [OF assms(1) h]
  have "tag_match (m_lines ta ! i) m w = Some None" by (simp add: holds_def)
  with h tag_match_Some_None [OF assms(2)] show False by (auto simp: holds_def)
qed

lemma scan_total:
  assumes "wf_tags ta" and "get_sector_index m \<noteq> None"
  shows "probe_ways ta tg m w (ways ta addr) v \<noteq> None"
  using assms ways_range [OF assms(1), of _ addr]
  by (intro probe_ways_total) (auto simp: wf_tags_def dest: less_le_trans)

lemma probe_match:
  assumes "wf_tags ta" and "get_sector_index m \<noteq> None"
    and "holds ta addr i" and "tag_match (m_lines ta ! i) m w = Some (Some st)"
  shows "probe ta addr m w = Some (st, Some i)"
proof -
  obtain r where r: "probe_ways ta (block_addr (ta_config ta) addr) m w (ways ta addr) victim_init = Some r"
    using scan_total [OF assms(1,2)] by blast
  then obtain st' j where "r = Inl (st', j)"
    using none_holds [OF assms(1,2)] assms(3) by (cases r) auto
  with found_holds [OF assms(1,2)] r have "holds ta addr j" "tag_match (m_lines ta ! j) m w = Some (Some st')"
    by blast+
  with holds_unique [OF assms(1,3)] assms(4) have "j = i" "st' = st" by auto
  with r \<open>r = _\<close> show ?thesis by (simp add: probe_eq [OF assms(1)])
qed

lemma probe_cases:
  assumes wf: "wf_tags ta" and m: "get_sector_index m \<noteq> None" and p: "probe ta addr m w = Some (st, idx)"
  obtains
    (match) i where "idx = Some i" and "holds ta addr i" and "tag_match (m_lines ta ! i) m w = Some (Some st)"
      and "st \<in> {HIT, HIT_RESERVED, SECTOR_MISS}"
  | (full) "\<forall>i. \<not> holds ta addr i" and "\<forall>i. \<not> candidate ta (ways ta addr) i"
      and "st = RESERVATION_FAIL" and "idx = None" and "m_alloc_policy (ta_config ta) = ON_MISS"
  | (victim) v i where "\<forall>i. \<not> holds ta addr i" and "scan_ok ta (ways ta addr) v" and "st = MISS"
      and "idx = Some i" and "invalid_line v = Some i \<or> invalid_line v = None \<and> valid_line v = Some i"
proof -
  let ?b = "block_addr (ta_config ta) addr"
  from p obtain r where r: "probe_ways ta ?b m w (ways ta addr) victim_init = Some r"
    unfolding probe_eq [OF wf] by (auto simp: bind_eq_Some_conv)
  show ?thesis
  proof (cases r)
    case (Inl si)
    then have si: "idx = Some (snd si)" "st = fst si"
      using p r by (auto simp: probe_eq [OF wf] split: prod.splits)
    have f: "holds ta addr (snd si)" "tag_match (m_lines ta ! snd si) m w = Some (Some st)"
      using found_holds [OF wf m, of addr w victim_init st "snd si"] r Inl si by auto
    with si tag_match_cases [OF f(2)] show ?thesis using match by blast
  next
    case (Inr v)
    have no: "\<forall>i. \<not> holds ta addr i" using none_holds [OF wf m] r Inr by blast
    have v: "scan_ok ta (ways ta addr) v"
      using probe_ways_none [OF r [unfolded Inr]] scan_ok_fold by simp
    show ?thesis
    proof (cases "all_reserved v")
      case True
      then have "\<forall>i. \<not> candidate ta (ways ta addr) i" using v by (simp add: scan_ok_def)
      with True no full p r Inr show ?thesis by (auto simp: probe_eq [OF wf])
    next
      case False
      then have eq: "(case invalid_line v of Some i \<Rightarrow> Some (MISS, Some i)
          | None \<Rightarrow> (case valid_line v of Some i \<Rightarrow> Some (MISS, Some i) | None \<Rightarrow> None)) = Some (st, idx)"
        using p r Inr by (simp add: probe_eq [OF wf])
      show ?thesis
      proof (cases "invalid_line v")
        case (Some i)
        then have "st = MISS" "idx = Some i" using eq by simp_all
        with Some show ?thesis using victim [OF no v] by blast
      next
        case None
        with eq obtain i where "valid_line v = Some i" by (cases "valid_line v") simp_all
        moreover from this None eq have "st = MISS" "idx = Some i" by simp_all
        ultimately show ?thesis using None victim [OF no v] by blast
      qed
    qed
  qed
qed

text \<open>
  C24: under the tag-array invariant a probe hits exactly when some line of the array holds the block
  and its addressed sector is valid, or modified and readable (a write hits a modified sector even
  when it is not fully written); the index returned is that line's, which is unique.
\<close>

theorem probe_hit_iff:
  assumes "wf_tags ta" and "get_sector_index m \<noteq> None"
  shows "probe ta addr m w = Some (HIT, Some i) \<longleftrightarrow>
    holds ta addr i \<and> (get_status (m_lines ta ! i) m = Some VALID \<or>
      get_status (m_lines ta ! i) m = Some MODIFIED \<and> (w \<or> is_readable (m_lines ta ! i) m = Some True))"
    (is "?P \<longleftrightarrow> ?Q")
proof
  assume ?P
  then show ?Q using assms by (elim probe_cases) (auto dest: tag_match_cases)
next
  assume Q: ?Q
  obtain j where "get_sector_index m = Some j" using assms(2) by blast
  then obtain r where "is_readable (m_lines ta ! i) m = Some r"
    using block_ops_total(6) by blast
  with Q have "tag_match (m_lines ta ! i) m w = Some (Some HIT)" by (auto simp: tag_match_def)
  with Q probe_match [OF assms] show ?P by blast
qed

text \<open>
  C23: a miss names a victim of the addressed set and only when no line holds the block. The victim is
  never a reserved line and is modified only once the dirty share has reached the write threshold;
  an invalid way is taken first, otherwise the way with the least access time (LRU) or allocation
  time (FIFO) among those that may be evicted.
\<close>

theorem probe_miss_victim:
  assumes "wf_tags ta" and "get_sector_index m \<noteq> None" and "probe ta addr m w = Some (MISS, idx)"
  shows "\<exists>i. idx = Some i \<and> (\<forall>j. \<not> holds ta addr j) \<and> i \<in> set (ways ta addr) \<and>
    evictable ta (m_lines ta ! i) \<and>
    (is_invalid_line (m_lines ta ! i) \<or>
     (\<forall>j \<in> set (ways ta addr). evictable ta (m_lines ta ! j) \<longrightarrow>
        \<not> is_invalid_line (m_lines ta ! j) \<and> line_time ta i \<le> line_time ta j))"
  using assms(1-3)
proof (cases rule: probe_cases)
  case (victim v i)
  from victim(2) have ok: "case invalid_line v of
        None \<Rightarrow> \<forall>i. candidate ta (ways ta addr) i \<longrightarrow> \<not> is_invalid_line (m_lines ta ! i)
      | Some i \<Rightarrow> candidate ta (ways ta addr) i \<and> is_invalid_line (m_lines ta ! i)"
    "\<And>i. candidate ta (ways ta addr) i \<Longrightarrow> \<not> is_invalid_line (m_lines ta ! i) \<Longrightarrow> valid_timestamp v \<le> line_time ta i"
    "case valid_line v of None \<Rightarrow> valid_timestamp v = 0xFFFFFFFF
      | Some i \<Rightarrow> candidate ta (ways ta addr) i \<and> \<not> is_invalid_line (m_lines ta ! i) \<and> valid_timestamp v = line_time ta i"
    by (auto simp: scan_ok_def)
  from victim(5) ok have "candidate ta (ways ta addr) i \<and> (is_invalid_line (m_lines ta ! i) \<or>
     (\<forall>j. candidate ta (ways ta addr) j \<longrightarrow> \<not> is_invalid_line (m_lines ta ! j) \<and> line_time ta i \<le> line_time ta j))"
    by (elim disjE) auto
  with victim(1,4) show ?thesis by (auto simp: candidate_def)
qed (use assms(3) in auto)

text \<open>
  With allocate-on-miss a probe reports a reservation failure exactly when no line holds the block
  and no way of the set may be evicted: each is reserved, or modified while the dirty share of the
  cache is still below the write threshold.
\<close>

theorem probe_reservation_fail_iff:
  assumes "wf_tags ta" and "get_sector_index m \<noteq> None" and "m_alloc_policy (ta_config ta) = ON_MISS"
  shows "probe ta addr m w = Some (RESERVATION_FAIL, None) \<longleftrightarrow>
    (\<forall>i. \<not> holds ta addr i) \<and> (\<forall>i \<in> set (ways ta addr). \<not> evictable ta (m_lines ta ! i))"
    (is "?P \<longleftrightarrow> ?Q")
proof
  assume ?P
  then show ?Q using assms by (elim probe_cases) (auto simp: candidate_def)
next
  assume Q: ?Q
  obtain r where r: "probe_ways ta (block_addr (ta_config ta) addr) m w (ways ta addr) victim_init = Some r"
    using scan_total [OF assms(1,2)] by blast
  have "r \<noteq> Inl (a, b)" for a b
    using found_holds [OF assms(1,2), of addr w victim_init a b] r Q by auto
  then obtain v where v: "r = Inr v" by (cases r) auto
  have "scan_ok ta (ways ta addr) v"
    using probe_ways_none [OF r [unfolded v]] scan_ok_fold by simp
  with Q have "all_reserved v" by (auto simp: scan_ok_def candidate_def)
  with r v assms(3) show ?P by (simp add: probe_eq [OF assms(1)])
qed

end
