(* ===== verification/Tag_Effects.thy ===== *)
theory Tag_Effects
  imports Tag_Lookup
begin

text \<open>
  What the operations of a tag array do to its lines. Every operation but \<^verbatim>\<open>flush\<close> and
  \<^verbatim>\<open>invalidate\<close> replaces at most one line (\<open>line_update\<close>) and moves the dirty counter with it;
  from this the invariant \<open>wf_tags\<close> and the exactness of \<^verbatim>\<open>m_dirty\<close> follow for every operation and,
  by rule induction, for every reachable tag array.
\<close>

section \<open>Fields that do not matter\<close>

lemma wf_tags_frame [frame_simps]:
  "wf_tags (ta\<lparr>m_access := x\<rparr>) = wf_tags ta" "wf_tags (ta\<lparr>m_miss := x\<rparr>) = wf_tags ta"
  "wf_tags (ta\<lparr>m_pending_hit := x\<rparr>) = wf_tags ta" "wf_tags (ta\<lparr>m_res_fail := x\<rparr>) = wf_tags ta"
  "wf_tags (ta\<lparr>m_sector_miss := x\<rparr>) = wf_tags ta" "wf_tags (ta\<lparr>m_dirty := x\<rparr>) = wf_tags ta"
  "wf_tags (ta\<lparr>is_used := u\<rparr>) = wf_tags ta" "wf_tags (ta\<lparr>pending_lines := p\<rparr>) = wf_tags ta"
  "wf_tags (ta\<lparr>m_prev_snapshot_access := x\<rparr>) = wf_tags ta"
  "wf_tags (ta\<lparr>m_prev_snapshot_miss := x\<rparr>) = wf_tags ta"
  "wf_tags (ta\<lparr>m_prev_snapshot_pending_hit := x\<rparr>) = wf_tags ta"
  by (simp_all add: wf_tags_def slot_ok_def tags_unique_def line_count_def)

lemma same_lines_wf:
  "m_lines ta' = m_lines ta \<Longrightarrow> ta_config ta' = ta_config ta \<Longrightarrow> ta_set_index ta' = ta_set_index ta \<Longrightarrow>
    wf_tags ta' = wf_tags ta"
  by (simp add: wf_tags_def slot_ok_def tags_unique_def line_count_def)

lemma same_lines_probe:
  assumes "m_lines ta' = m_lines ta" and "ta_config ta' = ta_config ta"
    and "ta_set_index ta' = ta_set_index ta" and "m_dirty ta' = m_dirty ta"
  shows "probe ta' a m w = probe ta a m w"
proof -
  have v: "victim_step ta' i b v = victim_step ta i b v" for i b v
    unfolding victim_step_def evictable_def dirty_line_percentage_def assms ..
  have "probe_ways ta' tg m w is v = probe_ways ta tg m w is v" for tg "is" v
    by (induction "is" arbitrary: v) (simp_all add: probe_ways_Cons assms(1) v cong: option.case_cong)
  then show ?thesis using assms by (simp add: probe_def)
qed

lemma probe_frame [frame_simps]:
  "probe (ta\<lparr>m_access := x\<rparr>) a m w = probe ta a m w"
  "probe (ta\<lparr>is_used := u\<rparr>) a m w = probe ta a m w"
  by (rule same_lines_probe; simp)+

section \<open>Replacing a line\<close>

definition line_update :: "tag_array \<Rightarrow> nat \<Rightarrow> cache_block \<Rightarrow> tag_array \<Rightarrow> bool" where
  "line_update ta i b ta' \<longleftrightarrow> i < line_count ta \<and> ta_config ta' = ta_config ta \<and>
     ta_set_index ta' = ta_set_index ta \<and> m_lines ta' = (m_lines ta)[i := b] \<and>
     m_dirty ta' = m_dirty ta - of_bool (is_modified_line (m_lines ta ! i)) + of_bool (is_modified_line b)"

definition tag_fresh :: "tag_array \<Rightarrow> nat \<Rightarrow> cache_block \<Rightarrow> bool" where
  "tag_fresh ta i b \<longleftrightarrow> is_invalid_line b
     \<or> (\<not> is_invalid_line (m_lines ta ! i) \<and> blk_tag b = blk_tag (m_lines ta ! i))
     \<or> (\<forall>j. \<not> holds ta (blk_tag b) j)"

lemma line_update_wf:
  assumes wf: "wf_tags ta" and u: "line_update ta i b ta'" and b: "slot_ok ta i b" "tag_fresh ta i b"
  shows "wf_tags ta'"
proof -
  have i: "i < line_count ta" and len: "i < length (m_lines ta)"
    and eq: "ta_config ta' = ta_config ta" "ta_set_index ta' = ta_set_index ta" "m_lines ta' = (m_lines ta)[i := b]"
    using u wf by (auto simp: line_update_def wf_tags_def)
  have lc: "line_count ta' = line_count ta" by (simp add: line_count_def eq)
  have new: "blk_tag (m_lines ta ! j) \<noteq> blk_tag b"
    if "j < line_count ta" "j \<noteq> i" "\<not> is_invalid_line (m_lines ta ! j)" "\<not> is_invalid_line b" for j
  proof
    assume t: "blk_tag (m_lines ta ! j) = blk_tag b"
    have "block_addr (ta_config ta) (blk_tag b) = blk_tag b" using b(1) that(4) by (simp add: slot_ok_def)
    then have "holds ta (blk_tag b) j" using that t by (simp add: holds_def)
    with b(2) that(4) have "\<not> is_invalid_line (m_lines ta ! i)" "blk_tag b = blk_tag (m_lines ta ! i)"
      by (auto simp: tag_fresh_def)
    with wf that i t show False by (auto simp: wf_tags_def tags_unique_def)
  qed
  have slots: "slot_ok ta' j (m_lines ta' ! j)" if "j < line_count ta" for j
    using wf that b(1) len by (cases "j = i") (auto simp: eq wf_tags_def slot_ok_def)
  have uni: "tags_unique ta'"
    unfolding tags_unique_def lc
  proof (intro allI impI)
    fix j k
    assume jk: "j < line_count ta" "k < line_count ta" and n: "\<not> is_invalid_line (m_lines ta' ! j) \<and>
      \<not> is_invalid_line (m_lines ta' ! k) \<and> blk_tag (m_lines ta' ! j) = blk_tag (m_lines ta' ! k)"
    show "j = k"
      using jk n new [of j] new [of k] wf len
      by (cases "j = i"; cases "k = i") (auto simp: eq wf_tags_def tags_unique_def)
  qed
  show ?thesis using wf slots uni unfolding wf_tags_def lc by (simp add: eq)
qed

text \<open>By how much the dirty counter exceeds the number of modified lines. A replaced line does not change it.\<close>

definition dirty_gap :: "tag_array \<Rightarrow> u32" where
  "dirty_gap ta = m_dirty ta - of_nat (modified_count ta)"

lemma dirty_ok_gap: "dirty_ok ta \<longleftrightarrow> dirty_gap ta = 0"
  by (simp add: dirty_ok_def dirty_gap_def)

lemma line_update_gap:
  assumes wf: "wf_tags ta" and u: "line_update ta i b ta'"
  shows "dirty_gap ta' = dirty_gap ta"
proof -
  let ?old = "is_modified_line (m_lines ta ! i)" and ?new = "is_modified_line b"
  have i: "i < line_count ta" and n: "line_count ta \<le> length (m_lines ta)"
    and eq: "ta_config ta' = ta_config ta" "m_lines ta' = (m_lines ta)[i := b]"
      "m_dirty ta' = m_dirty ta - of_bool ?old + of_bool ?new"
    using u wf by (auto simp: line_update_def wf_tags_def)
  have lc: "line_count ta' = line_count ta" by (simp add: line_count_def eq)
  have "modified_count ta' = length (filter is_modified_line ((take (line_count ta) (m_lines ta))[i := b]))"
    by (simp add: modified_count_def lc eq take_update_swap)
  with length_filter_update [of i "take (line_count ta) (m_lines ta)" is_modified_line b] i n
  have "modified_count ta' + of_bool ?old = modified_count ta + of_bool ?new"
    by (simp add: modified_count_def of_bool_def)
  then have "(of_nat (modified_count ta' + of_bool ?old) :: u32) = of_nat (modified_count ta + of_bool ?new)"
    by (rule arg_cong)
  then have "of_nat (modified_count ta') = (of_nat (modified_count ta) - of_bool ?old + of_bool ?new :: u32)"
    by (cases ?old; cases ?new) (auto simp: algebra_simps)
  then show ?thesis using eq by (simp add: dirty_gap_def)
qed

lemma line_update_dirty: "wf_tags ta \<Longrightarrow> line_update ta i b ta' \<Longrightarrow> dirty_ok ta \<Longrightarrow> dirty_ok ta'"
  by (simp add: dirty_ok_gap line_update_gap)

section \<open>What happens to the line\<close>

lemma allocate_ok:
  assumes a: "allocate b t a time m = Some b'" and "wf_block b" and "kind_ok c b" and m: "get_sector_index m \<noteq> None"
  shows "wf_block b' \<and> kind_ok c b' \<and> blk_tag b' = t \<and> blk_block_addr b' = a \<and>
    \<not> is_invalid_line b' \<and> \<not> is_modified_line b' \<and> get_status b' m = Some RESERVED"
proof -
  obtain b1 where b1: "allocate b t a time m = Some b1" "wf_block b1" "blk_tag b1 = t"
      "get_status b1 m = Some RESERVED" "\<not> is_modified_line b1"
    using blk.alloc_ok [OF assms(2) m] by blast
  moreover have "b1 = b'" using b1(1) a by simp
  moreover have "kind_ok c b'" using a assms(3) by (cases b) auto
  ultimately show ?thesis using blk.statusD [OF b1(2,4) m] allocate_addr [OF a] by simp
qed

lemma allocate_sector_ok:
  assumes a: "allocate_sector b time m = Some b'" and "wf_block b" and "kind_ok c b"
  shows "wf_block b' \<and> kind_ok c b' \<and> blk_tag b' = blk_tag b \<and> blk_block_addr b' = blk_block_addr b \<and>
    \<not> is_invalid_line b' \<and> \<not> is_invalid_line b \<and> get_status b' m = Some RESERVED \<and> (is_modified_line b' \<longrightarrow> is_modified_line b)"
proof (cases b)
  case (SectorBlock sb)
  with a obtain sb' where sb': "sector_allocate_sector sb time m = Some sb'" "b' = SectorBlock sb'" by auto
  have wf: "wf_sector sb" using assms(2) SectorBlock by simp
  from sector_allocate_sector_Some [OF wf sb'(1)] obtain i where
    i: "i < 4" "get_sector_index m = Some i" "s_status sb' = (s_status sb)[i := RESERVED]"
    and f: "wf_sector sb'" "m_tag sb' = m_tag sb" "m_block_addr sb' = m_block_addr sb" by blast
  have len: "length (s_status sb) = 4" using wf by (simp add: wf_sector_def)
  have ni: "\<not> sector_is_invalid_line sb"
    using sb'(1) by (auto simp: sector_allocate_sector_def)
  moreover have "\<not> sector_is_invalid_line sb'"
    using i len by (auto simp: sector_is_invalid_line_def)
  moreover have "sector_is_modified_line sb' \<longrightarrow> sector_is_modified_line sb"
    using i len by (auto simp: sector_is_modified_line_def nth_list_update split: if_splits)
  ultimately show ?thesis using f i len assms(3) SectorBlock sb'(2) by simp
qed (use a in auto)

lemma block_fill_ok:
  assumes a: "block_fill b time m bm = Some b'" and "wf_block b" and "kind_ok c b" and m: "get_sector_index m \<noteq> None"
  shows "wf_block b' \<and> kind_ok c b' \<and> blk_tag b' = blk_tag b \<and> blk_block_addr b' = blk_block_addr b \<and>
    \<not> is_invalid_line b' \<and> (get_status b' m = Some VALID \<or> get_status b' m = Some MODIFIED)"
proof -
  obtain b1 where b1: "block_fill b time m bm = Some b1" "wf_block b1"
      "get_status b1 m = Some VALID \<or> get_status b1 m = Some MODIFIED"
    using blk.fill_ok [OF assms(2) m] by blast
  moreover have "b1 = b'" using b1(1) a by simp
  moreover have "kind_ok c b'" using a assms(3) by (cases b) auto
  ultimately show ?thesis using blk.statusD [OF b1(2) _ m] fill_addr [OF a] by auto
qed

lemma kind_ok_same: "set_last_access_time b t m = Some b' \<Longrightarrow> kind_ok c b' = kind_ok c b"
  by (cases b) (auto simp: bind_eq_Some_conv)

section \<open>Access\<close>

lemma slotD: "wf_tags ta \<Longrightarrow> i < line_count ta \<Longrightarrow> slot_ok ta i (m_lines ta ! i)"
  by (simp add: wf_tags_def)

lemma slot_same: "slot_ok ta i b \<Longrightarrow> wf_block b' \<Longrightarrow> kind_ok (ta_config ta) b' \<Longrightarrow> blk_tag b' = blk_tag b \<Longrightarrow>
    blk_block_addr b' = blk_block_addr b \<Longrightarrow> is_invalid_line b' \<or> \<not> is_invalid_line b \<Longrightarrow> slot_ok ta i b'"
  by (auto simp: slot_ok_def)

lemma slot_new:
  assumes "wf_tags ta" and "i \<in> set (ways ta addr)" and "wf_block b" and "kind_ok (ta_config ta) b"
    and "blk_tag b = block_addr (ta_config ta) addr" and "blk_block_addr b = block_addr (ta_config ta) addr"
  shows "slot_ok ta i b"
  using assms ways_range [OF assms(1,2)] set_index_block [OF assms(1)] by (simp add: slot_ok_def)

lemma holds_block [simp]: "holds ta (block_addr (ta_config ta) a) i = holds ta a i"
  by (simp add: holds_def)

definition access_line :: "tag_array \<Rightarrow> u64 \<Rightarrow> u32 \<Rightarrow> sector_mask \<Rightarrow> cache_request_status \<Rightarrow> cache_block \<Rightarrow> cache_block \<Rightarrow> bool" where
  "access_line ta addr time m st old b \<longleftrightarrow> (case st of
     MISS \<Rightarrow> (if m_alloc_policy (ta_config ta) = ON_MISS
       then allocate old (block_addr (ta_config ta) addr) (block_addr (ta_config ta) addr) time m = Some b
       else b = old)
   | SECTOR_MISS \<Rightarrow> (if m_alloc_policy (ta_config ta) = ON_MISS
       then allocate_sector old time m = Some b else b = old)
   | _ \<Rightarrow> set_last_access_time old (ucast time) m = Some b)"

definition evicts :: "tag_array \<Rightarrow> cache_request_status \<Rightarrow> cache_block \<Rightarrow> bool" where
  "evicts ta st old \<longleftrightarrow> st = MISS \<and> m_alloc_policy (ta_config ta) = ON_MISS \<and> is_modified_line old"

lemma access_cases:
  assumes "access ta addr time wb ev mf = Some (st, idx, ta', wb', ev')"
  shows "probe ta addr (get_access_sector_mask mf) (is_write mf) = Some (st, idx) \<and>
    (let ta0 = ta\<lparr>m_access := m_access ta + 1, is_used := True\<rparr> in case st of
       HIT_RESERVED \<Rightarrow> \<exists>i. idx = Some i \<and> access_touch (ta0\<lparr>m_pending_hit := m_pending_hit ta + 1\<rparr>) time mf i = Some ta' \<and> wb' = wb \<and> ev' = ev
     | HIT \<Rightarrow> \<exists>i. idx = Some i \<and> access_touch ta0 time mf i = Some ta' \<and> wb' = wb \<and> ev' = ev
     | MISS \<Rightarrow> \<exists>i. idx = Some i \<and> access_miss (ta0\<lparr>m_miss := m_miss ta + 1\<rparr>) addr time wb ev mf i = Some (ta', wb', ev')
     | SECTOR_MISS \<Rightarrow> \<exists>i. idx = Some i \<and> m_cache_type (ta_config ta) = SECTOR \<and>
         access_sector_miss (ta0\<lparr>m_sector_miss := m_sector_miss ta + 1\<rparr>) time mf i = Some ta' \<and> wb' = wb \<and> ev' = ev
     | RESERVATION_FAIL \<Rightarrow> ta' = ta0\<lparr>m_res_fail := m_res_fail ta + 1\<rparr> \<and> wb' = wb \<and> ev' = ev
     | MSHR_HIT \<Rightarrow> False)"
proof -
  have "probe ta addr (get_access_sector_mask mf) (is_write mf) \<noteq> None"
    using assms by (intro notI) (simp add: access_def Let_def frame_simps)
  then obtain st0 idx0 where p: "probe ta addr (get_access_sector_mask mf) (is_write mf) = Some (st0, idx0)"
    by fast
  show ?thesis
    using assms unfolding access_def Let_def frame_simps p bind.bind_lunit
    by (cases st0) (auto simp: bind_eq_Some_conv)
qed

lemma access_probe:
  "access ta addr time wb ev mf = Some (st, idx, ta', wb', ev') \<Longrightarrow>
    probe ta addr (get_access_sector_mask mf) (is_write mf) = Some (st, idx)"
  by (drule access_cases) simp

lemma access_touch_Some:
  "access_touch ta time mf i = Some ta' \<Longrightarrow>
    \<exists>b. set_last_access_time (m_lines ta ! i) (ucast time) (get_access_sector_mask mf) = Some b \<and> ta' = set_line ta i b"
  by (auto simp: access_touch_def bind_eq_Some_conv)

lemma access_miss_Some:
  "access_miss ta addr time wb ev mf i = Some (ta', wb', ev') \<Longrightarrow>
    \<exists>b. access_line ta addr time (get_access_sector_mask mf) MISS (m_lines ta ! i) b \<and>
      (if evicts ta MISS (m_lines ta ! i)
       then wb' \<and> ev' = evicted_info (m_lines ta ! i) \<and> ta' = (set_line ta i b)\<lparr>m_dirty := m_dirty ta - 1\<rparr>
       else wb' = wb \<and> ev' = ev \<and> ta' = set_line ta i b)"
  unfolding access_miss_def Let_def evicts_def access_line_def tag_eq_block_addr
  by (cases "m_alloc_policy (ta_config ta) = ON_MISS"; cases "is_modified_line (m_lines ta ! i)")
    (auto simp: bind_eq_Some_conv set_line_def)

lemma access_sector_miss_Some:
  "access_sector_miss ta time mf i = Some ta' \<Longrightarrow>
    \<exists>b. access_line ta addr time (get_access_sector_mask mf) SECTOR_MISS (m_lines ta ! i) b \<and>
      ta' = (set_line ta i b)\<lparr>m_dirty := m_dirty ta -
        of_bool (is_modified_line (m_lines ta ! i) \<and> \<not> is_modified_line b)\<rparr>"
  unfolding access_sector_miss_def Let_def access_line_def
  by (cases "m_alloc_policy (ta_config ta) = ON_MISS"; cases "is_modified_line (m_lines ta ! i)")
    (auto simp: bind_eq_Some_conv set_line_def)

text \<open>The line an access leaves behind keeps the invariant, and its dirty state is accounted for.\<close>

lemma miss_in_ways:
  assumes wf: "wf_tags ta" and m: "get_sector_index m \<noteq> None" and p: "probe ta addr m w = Some (MISS, Some i)"
  shows "i \<in> set (ways ta addr) \<and> (\<forall>j. \<not> holds ta addr j) \<and> \<not> is_reserved_line (m_lines ta ! i)"
  using assms
proof (cases rule: probe_cases)
  case (victim v k)
  then have "candidate ta (ways ta addr) k" by (auto simp: scan_ok_def split: option.splits)
  with victim show ?thesis by (auto simp: candidate_def evictable_def)
qed simp_all

lemma hit_holds:
  assumes "wf_tags ta" and "get_sector_index m \<noteq> None" and "probe ta addr m w = Some (st, Some i)" and "st \<noteq> MISS"
  shows "holds ta addr i"
  using assms(1-3) by (cases rule: probe_cases) (use assms(4) in auto)

lemma access_line_hold:
  assumes "wf_tags ta" and "holds ta addr i" and "st \<in> {HIT, HIT_RESERVED, SECTOR_MISS}"
    and "access_line ta addr time m st (m_lines ta ! i) b"
  shows "slot_ok ta i b \<and> tag_fresh ta i b \<and>
    (is_modified_line b \<longrightarrow> is_modified_line (m_lines ta ! i)) \<and>
    (\<not> (st = SECTOR_MISS \<and> m_alloc_policy (ta_config ta) = ON_MISS) \<longrightarrow> is_modified_line b = is_modified_line (m_lines ta ! i))"
proof -
  let ?l = "m_lines ta ! i"
  have i: "i < line_count ta" "\<not> is_invalid_line ?l" using assms(2) by (auto simp: holds_def)
  have s: "slot_ok ta i ?l" by (rule slotD [OF assms(1) i(1)])
  consider (touch) "set_last_access_time ?l (ucast time) m = Some b" "st \<noteq> SECTOR_MISS"
    | (sector) "allocate_sector ?l time m = Some b" "st = SECTOR_MISS" "m_alloc_policy (ta_config ta) = ON_MISS"
    | (none) "b = ?l"
    using assms(3,4) by (auto simp: access_line_def split: if_splits)
  then show ?thesis
  proof cases
    case touch
    then have ss: "same_state ?l b" using same_state_ops(3) by blast
    moreover have "kind_ok (ta_config ta) b" using s kind_ok_same [OF touch(1)] by (simp add: slot_ok_def)
    ultimately have "slot_ok ta i b" using s by (auto simp: same_state_def slot_ok_def)
    with ss touch i show ?thesis by (auto simp: same_state_def tag_fresh_def)
  next
    case sector
    from allocate_sector_ok [OF sector(1), of "ta_config ta"] s
    have f: "wf_block b" "kind_ok (ta_config ta) b" "blk_tag b = blk_tag ?l" "blk_block_addr b = blk_block_addr ?l"
      "is_modified_line b \<longrightarrow> is_modified_line ?l" by (auto simp: slot_ok_def)
    with sector i slot_same [OF s f(1-4)] show ?thesis by (auto simp: tag_fresh_def)
  next
    case none
    with s i show ?thesis by (simp add: tag_fresh_def)
  qed
qed

lemma access_update:
  assumes wf: "wf_tags ta" and m: "get_sector_index (get_access_sector_mask mf) \<noteq> None"
    and a: "access ta addr time wb ev mf = Some (st, Some i, ta', wb', ev')"
  shows "\<exists>b. access_line ta addr time (get_access_sector_mask mf) st (m_lines ta ! i) b \<and>
    line_update ta i b ta' \<and> slot_ok ta i b \<and> tag_fresh ta i b"
proof -
  let ?m = "get_access_sector_mask mf" and ?l = "m_lines ta ! i"
  note c = access_cases [OF a]
  have p: "probe ta addr ?m (is_write mf) = Some (st, Some i)" using c by simp
  show ?thesis
  proof (cases "st = MISS")
    case True
    with p miss_in_ways [OF wf m] have v: "i \<in> set (ways ta addr)" "\<forall>j. \<not> holds ta addr j" by blast+
    then have i: "i < line_count ta" using ways_range [OF wf] by blast
    let ?t = "ta\<lparr>m_access := m_access ta + 1, is_used := True, m_miss := m_miss ta + 1\<rparr>"
    from c True have "access_miss ?t addr time wb ev mf i = Some (ta', wb', ev')" by (simp add: Let_def)
    from access_miss_Some [OF this] obtain b where b0: "access_line ?t addr time ?m MISS (m_lines ?t ! i) b" and
      ta': "if evicts ?t MISS (m_lines ?t ! i) then wb' \<and> ev' = evicted_info (m_lines ?t ! i) \<and>
         ta' = (set_line ?t i b)\<lparr>m_dirty := m_dirty ?t - 1\<rparr>
       else wb' = wb \<and> ev' = ev \<and> ta' = set_line ?t i b"
      by blast
    from b0 have b: "access_line ta addr time ?m MISS ?l b" by (simp add: access_line_def split: if_splits)
    have s: "slot_ok ta i ?l" by (rule slotD [OF wf i])
    show ?thesis
    proof (cases "m_alloc_policy (ta_config ta) = ON_MISS")
      case on: True
      with b have al: "allocate ?l (block_addr (ta_config ta) addr) (block_addr (ta_config ta) addr) time ?m = Some b"
        by (simp add: access_line_def)
      from allocate_ok [OF al _ _ m] s
      have f: "wf_block b" "kind_ok (ta_config ta) b" "blk_tag b = block_addr (ta_config ta) addr"
        "blk_block_addr b = block_addr (ta_config ta) addr" "\<not> is_modified_line b" by (auto simp: slot_ok_def)
      have "slot_ok ta i b" by (rule slot_new [OF wf v(1) f(1-4)])
      moreover have "tag_fresh ta i b" using v(2) f(3) by (simp add: tag_fresh_def)
      moreover have "line_update ta i b ta'"
        using ta' i f(5) on by (auto simp: line_update_def set_line_def evicts_def split: if_splits)
      ultimately show ?thesis using b True by blast
    next
      case False
      then have "b = ?l" using b by (simp add: access_line_def)
      moreover from this have "line_update ta i b ta'"
        using ta' i False by (simp add: line_update_def set_line_def evicts_def)
      moreover have "tag_fresh ta i ?l" by (auto simp: tag_fresh_def)
      ultimately show ?thesis using b s True by blast
    qed
  next
    case False
    then have h: "holds ta addr i" using hit_holds [OF wf m p] by blast
    have st: "st \<in> {HIT, HIT_RESERVED, SECTOR_MISS}" using wf m p False by (cases rule: probe_cases) auto
    have "\<exists>b. access_line ta addr time ?m st ?l b \<and> m_lines ta' = (m_lines ta)[i := b] \<and>
        ta_config ta' = ta_config ta \<and> ta_set_index ta' = ta_set_index ta \<and> m_dirty ta' = m_dirty ta -
          of_bool (st = SECTOR_MISS \<and> is_modified_line ?l \<and> \<not> is_modified_line b)"
    proof (cases "st = SECTOR_MISS")
      case True
      let ?t = "ta\<lparr>m_access := m_access ta + 1, is_used := True, m_sector_miss := m_sector_miss ta + 1\<rparr>"
      from c True have "access_sector_miss ?t time mf i = Some ta'" by (simp add: Let_def)
      from access_sector_miss_Some [OF this, of addr] obtain b where
        b0: "access_line ?t addr time ?m SECTOR_MISS (m_lines ?t ! i) b" and
        ta': "ta' = (set_line ?t i b)\<lparr>m_dirty := m_dirty ?t -
          of_bool (is_modified_line (m_lines ?t ! i) \<and> \<not> is_modified_line b)\<rparr>" by blast
      from b0 have "access_line ta addr time ?m SECTOR_MISS ?l b" by (simp add: access_line_def split: if_splits)
      with True ta' show ?thesis by (intro exI [of _ b]) (simp add: set_line_def)
    next
      case False
      with c st obtain b where "set_last_access_time ?l (ucast time) ?m = Some b"
        and "m_lines ta' = (m_lines ta)[i := b]" "ta_config ta' = ta_config ta"
          "ta_set_index ta' = ta_set_index ta" "m_dirty ta' = m_dirty ta"
        by (auto dest!: access_touch_Some simp: set_line_def Let_def)
      with False st show ?thesis by (intro exI [of _ b]) (auto simp: access_line_def)
    qed
    then obtain b where b: "access_line ta addr time ?m st ?l b"
      and ta': "m_lines ta' = (m_lines ta)[i := b]" "ta_config ta' = ta_config ta" "ta_set_index ta' = ta_set_index ta"
        "m_dirty ta' = m_dirty ta - of_bool (st = SECTOR_MISS \<and> is_modified_line ?l \<and> \<not> is_modified_line b)"
      by blast
    from access_line_hold [OF wf h st b] have "slot_ok ta i b \<and> tag_fresh ta i b \<and> line_update ta i b ta'"
      using ta' h by (auto simp: line_update_def holds_def)
    with b show ?thesis by blast
  qed
qed

section \<open>Fill\<close>

lemma fill_keeps_modified:
  assumes "block_fill b time m bm = Some b'" and "wf_block b" and "get_status b m = Some RESERVED"
    and "is_modified_line b"
  shows "is_modified_line b'"
proof (cases b)
  case (SectorBlock sb)
  with assms obtain sb' where sb': "sector_fill sb time m bm = Some sb'" "b' = SectorBlock sb'" by auto
  have wf: "wf_sector sb" using assms(2) SectorBlock by simp
  from sector_fill_Some [OF wf sb'(1)] obtain i where
    i: "i < 4" "get_sector_index m = Some i"
      "s_status sb' = (s_status sb)[i := (if s_set_modified_on_fill sb ! i then MODIFIED else VALID)]" by blast
  from assms(4) obtain j where j: "j < 4" "s_status sb ! j = MODIFIED"
    by (auto simp: SectorBlock sector_is_modified_line_def)
  have "s_status sb ! i = RESERVED" using assms(3) i(2) SectorBlock by simp
  with j have "j \<noteq> i" by auto
  then have "s_status sb' ! j = MODIFIED" using i(3) j(2) by simp
  then show ?thesis using sb'(2) j(1) by (auto simp: sector_is_modified_line_def)
qed (use assms in auto)

lemma set_line_dirty [simp]: "m_dirty (set_line ta i b) = m_dirty ta"
  by (simp add: set_line_def)

lemma fill_line_update:
  assumes wf: "wf_tags ta" and m: "get_sector_index m \<noteq> None" and i: "i < line_count ta"
    and r: "get_status (m_lines ta ! i) m = Some RESERVED" and f: "fill_line ta i time m bm = Some ta'"
  shows "\<exists>b. block_fill (m_lines ta ! i) time m bm = Some b \<and> line_update ta i b ta' \<and>
    slot_ok ta i b \<and> tag_fresh ta i b"
proof -
  let ?l = "m_lines ta ! i"
  from f obtain b where b: "block_fill ?l time m bm = Some b"
    and ta': "ta' = (if is_modified_line b \<and> \<not> is_modified_line ?l
      then (set_line ta i b)\<lparr>m_dirty := m_dirty ta + 1\<rparr> else set_line ta i b)"
    by (auto simp: fill_line_def Let_def bind_eq_Some_conv set_line_def)
  have s: "slot_ok ta i ?l" by (rule slotD [OF wf i])
  have ni: "\<not> is_invalid_line ?l"
    using blk.statusD [OF _ r m] s by (auto simp: slot_ok_def)
  from block_fill_ok [OF b _ _ m, of "ta_config ta"] s
  have o: "wf_block b" "kind_ok (ta_config ta) b" "blk_tag b = blk_tag ?l" "blk_block_addr b = blk_block_addr ?l"
    by (auto simp: slot_ok_def)
  have "is_modified_line ?l \<Longrightarrow> is_modified_line b"
    using fill_keeps_modified [OF b _ r] s by (auto simp: slot_ok_def)
  then have "line_update ta i b ta'" using i by (auto simp: ta' line_update_def set_line_def)
  moreover have "slot_ok ta i b" using slot_same [OF s o(1-4)] ni by blast
  moreover have "tag_fresh ta i b" using ni o(3) by (simp add: tag_fresh_def)
  ultimately show ?thesis using b by blast
qed

text \<open>
  A fill of any line that is not wholly invalid. If it makes the only modified sector of the line clean, the line is no
  longer modified, and the fill, which only counts up, leaves it in the dirty counter.
\<close>

definition fill_drops :: "tag_array \<Rightarrow> nat \<Rightarrow> tag_array \<Rightarrow> nat" where
  "fill_drops ta i ta' = of_bool (is_modified_line (m_lines ta ! i) \<and> \<not> is_modified_line (m_lines ta' ! i))"

lemma fill_line_gap:
  assumes wf: "wf_tags ta" and m: "get_sector_index m \<noteq> None" and i: "i < line_count ta"
    and ni: "\<not> is_invalid_line (m_lines ta ! i)" and f: "fill_line ta i time m bm = Some ta'"
  shows "wf_tags ta' \<and> dirty_gap ta' = dirty_gap ta + of_nat (fill_drops ta i ta')"
proof -
  let ?l = "m_lines ta ! i"
  from f obtain b where b: "block_fill ?l time m bm = Some b"
    and ta': "ta' = (if is_modified_line b \<and> \<not> is_modified_line ?l
      then (set_line ta i b)\<lparr>m_dirty := m_dirty ta + 1\<rparr> else set_line ta i b)"
    by (auto simp: fill_line_def Let_def bind_eq_Some_conv set_line_def)
  let ?t = "ta'\<lparr>m_dirty := m_dirty ta - of_bool (is_modified_line ?l) + of_bool (is_modified_line b)\<rparr>"
  have s: "slot_ok ta i ?l" and len: "i < length (m_lines ta)" using slotD [OF wf i] wf i by (simp_all add: wf_tags_def)
  from block_fill_ok [OF b _ _ m, of "ta_config ta"] s
  have o: "wf_block b" "kind_ok (ta_config ta) b" "blk_tag b = blk_tag ?l" "blk_block_addr b = blk_block_addr ?l"
    by (auto simp: slot_ok_def)
  have u: "line_update ta i b ?t" using i by (simp add: ta' line_update_def set_line_def)
  have "slot_ok ta i b" using slot_same [OF s o(1-4)] ni by blast
  moreover have "tag_fresh ta i b" using ni o(3) by (simp add: tag_fresh_def)
  ultimately have "wf_tags ?t" by (rule line_update_wf [OF wf u])
  moreover have "dirty_gap ?t = dirty_gap ta" by (rule line_update_gap [OF wf u])
  moreover have "modified_count ?t = modified_count ta'" by (simp add: modified_count_def line_count_def)
  moreover have "m_lines ta' ! i = b" using len by (simp add: ta' set_line_def)
  moreover have "m_dirty ta' = m_dirty ta + of_bool (is_modified_line b \<and> \<not> is_modified_line ?l)" by (simp add: ta')
  ultimately show ?thesis
    by (cases "is_modified_line ?l"; cases "is_modified_line b") (auto simp: dirty_gap_def fill_drops_def frame_simps algebra_simps)
qed

lemma fill_addr_update:
  assumes wf: "wf_tags ta" and m: "get_sector_index m \<noteq> None"
    and f: "fill_addr_mask ta addr time m bm w = Some ta'" and p: "probe ta addr m w = Some (st, idx)" and st: "st \<noteq> HIT"
  shows "wf_tags ta' \<and> dirty_gap ta' = dirty_gap ta"
proof (cases idx)
  case None
  then show ?thesis using f p wf by (auto simp: fill_addr_mask_def)
next
  case (Some i)
  let ?l = "m_lines ta ! i" and ?a = "block_addr (ta_config ta) addr"
  from f p Some obtain b where
    b: "(if st = MISS then allocate ?l ?a ?a time m
         else if st = SECTOR_MISS then do { guard (m_cache_type (ta_config ta) = SECTOR); allocate_sector ?l time m }
         else Some ?l) = Some b"
    and f1: "fill_line (if is_modified_line ?l \<and> \<not> is_modified_line b
        then (set_line ta i b)\<lparr>m_dirty := m_dirty ta - 1\<rparr> else set_line ta i b) i time m bm = Some ta'"
      (is "fill_line ?ta1 i time m bm = Some ta'")
    unfolding fill_addr_mask_def Let_def tag_eq_block_addr by (auto simp: bind_eq_Some_conv cong: if_cong)
  have step: "line_update ta i b ?ta1 \<and> slot_ok ta i b \<and> tag_fresh ta i b \<and> get_status b m = Some RESERVED"
  proof (cases "st = MISS")
    case True
    with p Some miss_in_ways [OF wf m, of addr w i]
    have v: "i \<in> set (ways ta addr)" "\<forall>j. \<not> holds ta addr j" by auto
    then have i: "i < line_count ta" using ways_range [OF wf] by blast
    have s: "slot_ok ta i ?l" by (rule slotD [OF wf i])
    have al: "allocate ?l ?a ?a time m = Some b" using b True by simp
    from allocate_ok [OF al _ _ m] s
    have o: "wf_block b" "kind_ok (ta_config ta) b" "blk_tag b = ?a" "blk_block_addr b = ?a" "\<not> is_modified_line b"
      "get_status b m = Some RESERVED" by (auto simp: slot_ok_def)
    have "line_update ta i b ?ta1" using i o(5) by (auto simp: line_update_def set_line_def)
    moreover have "tag_fresh ta i b" using v(2) o(3) by (simp add: tag_fresh_def)
    ultimately show ?thesis using slot_new [OF wf v(1) o(1-4)] o(6) by blast
  next
    case False
    then have h: "holds ta addr i" using hit_holds [OF wf m] p Some by blast
    then have i: "i < line_count ta" "\<not> is_invalid_line ?l" by (auto simp: holds_def)
    have s: "slot_ok ta i ?l" by (rule slotD [OF wf i(1)])
    have "st \<in> {HIT_RESERVED, SECTOR_MISS}" using wf m p
    proof (cases rule: probe_cases)
      case full
      then show ?thesis using Some by simp
    qed (use False st in auto)
    then show ?thesis
    proof (elim insertE emptyE)
      assume "st = HIT_RESERVED"
      then have bl: "b = ?l" using b by simp
      have "get_status ?l m = Some RESERVED" using wf m p
        by (cases rule: probe_cases) (use \<open>st = HIT_RESERVED\<close> Some tag_match_cases in auto)
      with bl i s show ?thesis by (simp add: line_update_def set_line_def tag_fresh_def)
    next
      assume "st = SECTOR_MISS"
      with b have al: "allocate_sector ?l time m = Some b" by simp
      from allocate_sector_ok [OF al, of "ta_config ta"] s
      have o: "wf_block b" "kind_ok (ta_config ta) b" "blk_tag b = blk_tag ?l" "blk_block_addr b = blk_block_addr ?l"
        "get_status b m = Some RESERVED" "is_modified_line b \<longrightarrow> is_modified_line ?l" by (auto simp: slot_ok_def)
      then show ?thesis using i slot_same [OF s o(1-4)] by (auto simp: line_update_def set_line_def tag_fresh_def)
    qed
  qed
  have wf1: "wf_tags ?ta1" and d1: "dirty_gap ?ta1 = dirty_gap ta"
    using step line_update_wf [OF wf] line_update_gap [OF wf] by blast+
  have i1: "i < line_count ?ta1" "get_status (m_lines ?ta1 ! i) m = Some RESERVED"
    using step wf by (auto simp: line_update_def line_count_def set_line_def wf_tags_def)
  from fill_line_update [OF wf1 m i1 f1] obtain b' where
    "line_update ?ta1 i b' ta'" "slot_ok ?ta1 i b'" "tag_fresh ?ta1 i b'" by blast
  then show ?thesis using line_update_wf [OF wf1] line_update_gap [OF wf1] d1 by metis
qed

text \<open>A fill by address that hits: the line is filled as it is.\<close>

lemma fill_addr_hit:
  assumes wf: "wf_tags ta" and m: "get_sector_index m \<noteq> None"
    and f: "fill_addr_mask ta addr time m bm w = Some ta'" and p: "probe ta addr m w = Some (HIT, Some i)"
  shows "wf_tags ta' \<and> dirty_gap ta' = dirty_gap ta + of_nat (fill_drops ta i ta')"
proof -
  have "fill_line ta i time m bm = Some ta'" using f p by (simp add: fill_addr_mask_def set_line_def)
  moreover have "i < line_count ta \<and> \<not> is_invalid_line (m_lines ta ! i)"
    using hit_holds [OF wf m p] by (simp add: holds_def)
  ultimately show ?thesis using fill_line_gap [OF wf m] by blast
qed

section \<open>Flush and invalidate\<close>

lemma invalidate_line_ok:
  assumes "wf_block b"
  shows "\<exists>b'. invalidate_line b = Some b' \<and> wf_block b' \<and> is_invalid_line b' \<and> \<not> is_modified_line b' \<and>
    (kind_ok c b \<longrightarrow> kind_ok c b')"
proof (cases b)
  case (SectorBlock sb)
  then have "length (s_status sb) = 4" using assms by (simp add: wf_sector_def)
  then obtain p q r s where st: "s_status sb = [p, q, r, s]" by (auto simp: length4_conv)
  have "invalidate_line b = Some (SectorBlock (sb\<lparr>s_status := [INVALID, INVALID, INVALID, INVALID]\<rparr>))"
    by (simp add: invalidate_line_def SectorBlock st numeral_eq_Suc)
  moreover have "sector_is_invalid_line (sb\<lparr>s_status := [INVALID, INVALID, INVALID, INVALID]\<rparr>)"
    "\<not> sector_is_modified_line (sb\<lparr>s_status := [INVALID, INVALID, INVALID, INVALID]\<rparr>)"
    by (simp_all add: sector_is_invalid_line_def sector_is_modified_line_def all_less4 ex_less4)
  ultimately show ?thesis using assms SectorBlock by (auto simp: wf_sector_def)
qed (simp add: invalidate_line_def)

lemma flush_lines_Some:
  "flush_lines sel n bs = Some bs' \<Longrightarrow> length bs' = length bs \<and> (\<forall>i. n \<le> i \<longrightarrow> bs' ! i = bs ! i) \<and>
    (\<forall>i < n. i < length bs \<and> (if sel (bs ! i) then invalidate_line (bs ! i) = Some (bs' ! i) else bs' ! i = bs ! i))"
proof (induction sel n bs arbitrary: bs' rule: flush_lines.induct)
  case (3 sel n b bs)
  from 3(2) obtain c cs where c: "(if sel b then invalidate_line b else Some b) = Some c"
    and cs: "flush_lines sel n bs = Some cs" and bs': "bs' = c # cs"
    by (auto simp: bind_eq_Some_conv)
  from 3(1) [OF c cs] c show ?case
    by (auto simp: bs' nth_Cons split: nat.split if_splits)
qed auto

lemma flush_lines_total:
  "n \<le> length bs \<Longrightarrow> \<forall>i < n. wf_block (bs ! i) \<Longrightarrow> flush_lines sel n bs \<noteq> None"
proof (induction sel n bs rule: flush_lines.induct)
  case (3 sel n b bs)
  then have "wf_block b" and "\<forall>i < n. wf_block (bs ! i)" by fastforce+
  with 3 invalidate_line_ok [of b] show ?case by (cases "sel b") fastforce+
qed auto

lemma clean_no_modified:
  assumes "\<forall>i < n. \<not> is_modified_line (bs ! i)" and "n \<le> length bs"
  shows "filter is_modified_line (take n bs) = []"
  using assms by (auto simp: filter_empty_conv in_set_conv_nth)

text \<open>\<open>swept ta sel ta'\<close>: every selected line of \<open>ta\<close> is invalid in \<open>ta'\<close>, the others are as they were.\<close>

definition swept :: "tag_array \<Rightarrow> (cache_block \<Rightarrow> bool) \<Rightarrow> tag_array \<Rightarrow> bool" where
  "swept ta sel ta' \<longleftrightarrow> ta_config ta' = ta_config ta \<and> ta_set_index ta' = ta_set_index ta \<and>
     length (m_lines ta') = length (m_lines ta) \<and>
     (\<forall>i < line_count ta. if sel (m_lines ta ! i) then is_invalid_line (m_lines ta' ! i)
        else m_lines ta' ! i = m_lines ta ! i)"

lemma sweep_ok:
  assumes wf: "wf_tags ta" and f: "flush_lines sel (get_num_lines (ta_config ta)) (m_lines ta) = Some bs"
    and sel: "\<And>b. is_modified_line b \<Longrightarrow> sel b"
    and ta': "ta' = ta\<lparr>m_lines := bs, m_dirty := 0, is_used := False\<rparr>"
  shows "wf_tags ta' \<and> dirty_ok ta' \<and> swept ta sel ta' \<and> modified_count ta' = 0"
proof -
  have n: "get_num_lines (ta_config ta) = line_count ta" by (simp add: get_num_lines_def line_count_def)
  have lc: "line_count ta' = line_count ta" by (simp add: ta' line_count_def)
  note fl = flush_lines_Some [OF f [unfolded n]]
  have each: "slot_ok ta' i (bs ! i) \<and> \<not> is_modified_line (bs ! i) \<and>
      (if sel (m_lines ta ! i) then is_invalid_line (bs ! i) else bs ! i = m_lines ta ! i)"
    if i: "i < line_count ta" for i
  proof (cases "sel (m_lines ta ! i)")
    case True
    have s: "slot_ok ta i (m_lines ta ! i)" by (rule slotD [OF wf i])
    then obtain b' where b': "invalidate_line (m_lines ta ! i) = Some b'" "wf_block b'" "is_invalid_line b'"
        "\<not> is_modified_line b'" "kind_ok (ta_config ta) b'"
      using invalidate_line_ok [of "m_lines ta ! i" "ta_config ta"] by (auto simp: slot_ok_def)
    with fl i True have "bs ! i = b'" by auto
    with b' True show ?thesis by (simp add: slot_ok_def ta')
  next
    case False
    with fl i have "bs ! i = m_lines ta ! i" by auto
    with False sel slotD [OF wf i] show ?thesis by (auto simp: slot_ok_def ta')
  qed
  have keep: "\<not> is_invalid_line (bs ! i) \<Longrightarrow> bs ! i = m_lines ta ! i" if "i < line_count ta" for i
    using each [OF that] by (auto split: if_splits)
  have uni: "tags_unique ta'"
    unfolding tags_unique_def lc
  proof (intro allI impI)
    fix i j
    assume ij: "i < line_count ta" "j < line_count ta" and h: "\<not> is_invalid_line (m_lines ta' ! i) \<and>
      \<not> is_invalid_line (m_lines ta' ! j) \<and> blk_tag (m_lines ta' ! i) = blk_tag (m_lines ta' ! j)"
    then have "bs ! i = m_lines ta ! i" "bs ! j = m_lines ta ! j" using keep by (simp_all add: ta')
    with h ij wf show "i = j" by (simp add: ta' wf_tags_def tags_unique_def)
  qed
  have zero: "modified_count ta' = 0"
    using each fl wf clean_no_modified [of "line_count ta" bs]
    by (simp add: modified_count_def lc) (simp add: ta' wf_tags_def)
  have "wf_tags ta'" using wf each uni fl unfolding wf_tags_def lc by (simp add: ta')
  moreover have "dirty_ok ta'" using zero by (simp add: dirty_ok_def ta')
  moreover have "swept ta sel ta'" using each fl by (simp add: swept_def ta')
  ultimately show ?thesis using zero by blast
qed

end
