(* ===== verification/Tag_Properties.thy ===== *)
theory Tag_Properties
  imports Tag_Effects
begin

text \<open>
  The tag array as a state machine. \<open>tag_reach c idx k ta\<close>: the cache code can build \<open>ta\<close> by accesses, fills, writes to
  resident lines, flag changes, flushes and statistics windows, in any order, and \<open>k\<close> fills since the last effective
  flush have made the only modified sector of a line clean. The properties of this file hold of every reachable tag array.
\<close>

section \<open>Reachable tag arrays\<close>

definition geometry_ok :: "cache_config \<Rightarrow> (u64 \<Rightarrow> nat option) \<Rightarrow> bool" where
  "geometry_ok c idx \<longleftrightarrow> set_mapping idx (m_nset c) (block_addr c) \<and> 0 < m_assoc c \<and>
     m_assoc c \<le> 4 * original_m_assoc c"

text \<open>
  A fill by index meets whatever the line holds by then: the reserved sector, a sector that was written meanwhile, or
  another block if the line was evicted. Only a line that a flush or an invalidation has cleared while the fill was on
  its way is left out: the fill would make its sector valid under the old tag, which may be elsewhere by then.
\<close>

inductive tag_reach :: "cache_config \<Rightarrow> (u64 \<Rightarrow> nat option) \<Rightarrow> nat \<Rightarrow> tag_array \<Rightarrow> bool" for c idx where
  reach_new: "tag_reach c idx 0 (tag_array_new c idx)"
| reach_access: "tag_reach c idx k ta \<Longrightarrow> get_sector_index (get_access_sector_mask mf) \<noteq> None \<Longrightarrow>
    access ta addr time wb ev mf = Some (st, i, ta', wb', ev') \<Longrightarrow> tag_reach c idx k ta'"
| reach_fill_index: "tag_reach c idx k ta \<Longrightarrow> i < line_count ta \<Longrightarrow>
    get_sector_index (get_access_sector_mask mf) \<noteq> None \<Longrightarrow> \<not> is_invalid_line (m_lines ta ! i) \<Longrightarrow>
    fill_index ta i time mf = Some ta' \<Longrightarrow> tag_reach c idx (k + fill_drops ta i ta') ta'"
| reach_fill_addr: "tag_reach c idx k ta \<Longrightarrow> get_sector_index m \<noteq> None \<Longrightarrow>
    probe ta addr m w = Some (st, i) \<Longrightarrow> st \<noteq> HIT \<Longrightarrow>
    fill_addr_mask ta addr time m bm w = Some ta' \<Longrightarrow> tag_reach c idx k ta'"
| reach_fill_hit: "tag_reach c idx k ta \<Longrightarrow> get_sector_index m \<noteq> None \<Longrightarrow>
    probe ta addr m w = Some (HIT, Some i) \<Longrightarrow>
    fill_addr_mask ta addr time m bm w = Some ta' \<Longrightarrow> tag_reach c idx (k + fill_drops ta i ta') ta'"
| reach_write: "tag_reach c idx k ta \<Longrightarrow> i < line_count ta \<Longrightarrow> get_sector_index m \<noteq> None \<Longrightarrow>
    \<not> is_invalid_line (m_lines ta ! i) \<Longrightarrow> mark_modified ta i m = Some ta' \<Longrightarrow> tag_reach c idx k ta'"
| reach_flags: "tag_reach c idx k ta \<Longrightarrow> i < line_count ta \<Longrightarrow> same_state (m_lines ta ! i) b \<Longrightarrow>
    kind_ok c b \<Longrightarrow> tag_reach c idx k (set_line ta i b)"
| reach_flush: "tag_reach c idx k ta \<Longrightarrow> flush ta = Some ta' \<Longrightarrow> tag_reach c idx (if is_used ta then 0 else k) ta'"
| reach_invalidate: "tag_reach c idx k ta \<Longrightarrow> invalidate ta = Some ta' \<Longrightarrow> tag_reach c idx (if is_used ta then 0 else k) ta'"
| reach_window: "tag_reach c idx k ta \<Longrightarrow> tag_reach c idx k (new_window ta)"
| reach_pending: "tag_reach c idx k ta \<Longrightarrow> tag_reach c idx k (add_pending_line ta mf)"
| reach_pending_done: "tag_reach c idx k ta \<Longrightarrow> tag_reach c idx k (remove_pending_line ta mf)"

lemma mark_modified_update:
  assumes wf: "wf_tags ta" and i: "i < line_count ta" and m: "get_sector_index m \<noteq> None"
    and ni: "\<not> is_invalid_line (m_lines ta ! i)" and f: "mark_modified ta i m = Some ta'"
  shows "\<exists>b. set_status (m_lines ta ! i) MODIFIED m = Some b \<and> line_update ta i b ta' \<and> slot_ok ta i b \<and> tag_fresh ta i b"
proof -
  let ?l = "m_lines ta ! i"
  from f obtain b where b: "set_status ?l MODIFIED m = Some b"
    and ta': "ta' = set_line (if \<not> is_modified_line ?l then inc_dirty ta else ta) i b"
    by (auto simp: mark_modified_def Let_def bind_eq_Some_conv)
  have s: "slot_ok ta i ?l" by (rule slotD [OF wf i])
  obtain b1 where b1: "set_status ?l MODIFIED m = Some b1" "wf_block b1" "get_status b1 m = Some MODIFIED"
    using blk.put_ok [OF _ m, of ?l MODIFIED] s by (auto simp: slot_ok_def)
  with b have [simp]: "b1 = b" by simp
  have st: "is_modified_line b" "\<not> is_invalid_line b" using blk.statusD [OF b1(2,3) m] by auto
  have k: "kind_ok (ta_config ta) b" using b s by (cases ?l) (auto simp: slot_ok_def bind_eq_Some_conv)
  have "slot_ok ta i b" using slot_same [OF s _ k] b1(2) set_status_addr [OF b] ni by auto
  moreover have "tag_fresh ta i b" using ni set_status_addr [OF b] by (simp add: tag_fresh_def)
  moreover have "line_update ta i b ta'" using i st by (simp add: line_update_def ta' set_line_def inc_dirty_def)
  ultimately show ?thesis using b by blast
qed

lemma flags_update:
  assumes "wf_tags ta" and "i < line_count ta" and "same_state (m_lines ta ! i) b" and "kind_ok (ta_config ta) b"
  shows "line_update ta i b (set_line ta i b) \<and> slot_ok ta i b \<and> tag_fresh ta i b"
  using slotD [OF assms(1,2)] assms
  by (auto simp: line_update_def set_line_def same_state_def slot_ok_def tag_fresh_def)

lemma new_wf:
  assumes "geometry_ok c idx"
  shows "wf_tags (tag_array_new c idx) \<and> dirty_ok (tag_array_new c idx)"
proof -
  let ?ta = "tag_array_new c idx"
  have b: "wf_block (new_block c) \<and> kind_ok c (new_block c) \<and> is_invalid_line (new_block c) \<and> \<not> is_modified_line (new_block c)"
    by (cases "m_cache_type c")
      (simp_all add: new_block_def line_init_def sector_block_new_def sector_is_invalid_line_def
        sector_is_modified_line_def sector_init_def wf_sector_def)
  have "m_assoc c * m_nset c \<le> 4 * original_m_assoc c * m_nset c"
    using assms by (intro mult_le_mono1) (simp add: geometry_ok_def)
  then have n: "line_count ?ta \<le> get_max_num_lines c"
    by (simp add: line_count_def tag_array_new_def get_max_num_lines_def mult.commute mult.left_commute)
  have l: "m_lines ?ta ! i = new_block c" if "i < line_count ?ta" for i
    using n that by (simp add: tag_array_new_def)
  have "filter is_modified_line (take (line_count ?ta) (m_lines ?ta)) = []"
    using b by (auto simp: tag_array_new_def filter_empty_conv in_set_conv_nth)
  then have "dirty_ok ?ta" by (simp add: dirty_ok_def modified_count_def) (simp add: tag_array_new_def)
  moreover have "wf_tags ?ta"
    using assms b l n unfolding wf_tags_def tags_unique_def
    by (auto simp: slot_ok_def geometry_ok_def) (simp_all add: tag_array_new_def)
  ultimately show ?thesis by blast
qed

lemma sweep_step:
  assumes "wf_tags ta" and "flush ta = Some ta' \<or> invalidate ta = Some ta'"
  shows "wf_tags ta' \<and> dirty_gap ta' = (if is_used ta then 0 else dirty_gap ta) \<and>
    ta_config ta' = ta_config ta \<and> ta_set_index ta' = ta_set_index ta"
proof (cases "is_used ta")
  case True
  with assms(2) obtain sel bs where
    "flush_lines sel (get_num_lines (ta_config ta)) (m_lines ta) = Some bs" "\<And>b. is_modified_line b \<Longrightarrow> sel b"
    "ta' = ta\<lparr>m_lines := bs, m_dirty := 0, is_used := False\<rparr>"
    by (auto simp: flush_def invalidate_def bind_eq_Some_conv)
  from sweep_ok [OF assms(1) this] True show ?thesis by (simp add: swept_def dirty_ok_gap)
next
  case False
  with assms show ?thesis by (auto simp: flush_def invalidate_def)
qed

lemma fill_line_frame:
  "fill_line ta i time m bm = Some ta' \<Longrightarrow> ta_config ta' = ta_config ta \<and> ta_set_index ta' = ta_set_index ta"
  by (auto simp: fill_line_def set_line_def Let_def bind_eq_Some_conv)

lemma fill_addr_frame:
  assumes "fill_addr_mask ta addr time m bm w = Some ta'"
  shows "ta_config ta' = ta_config ta \<and> ta_set_index ta' = ta_set_index ta"
proof -
  obtain st idx where p: "probe ta addr m w = Some (st, idx)"
    using assms by (cases "probe ta addr m w") (auto simp: fill_addr_mask_def)
  show ?thesis
  proof (cases idx)
    case None
    then show ?thesis using assms p by (simp add: fill_addr_mask_def)
  next
    case (Some i)
    with assms p obtain ta1 where "fill_line ta1 i time m bm = Some ta'"
      and "ta_config ta1 = ta_config ta" "ta_set_index ta1 = ta_set_index ta"
      by (fastforce simp: fill_addr_mask_def Let_def set_line_def bind_eq_Some_conv)
    then show ?thesis using fill_line_frame by metis
  qed
qed

definition reach_inv :: "cache_config \<Rightarrow> (u64 \<Rightarrow> nat option) \<Rightarrow> nat \<Rightarrow> tag_array \<Rightarrow> bool" where
  "reach_inv c idx k ta \<longleftrightarrow> wf_tags ta \<and> dirty_gap ta = of_nat k \<and> ta_config ta = c \<and> ta_set_index ta = idx"

lemma reach_inv_update:
  assumes "reach_inv c idx k ta" and "line_update ta i b ta'" and "slot_ok ta i b" and "tag_fresh ta i b"
  shows "reach_inv c idx k ta'"
  using assms line_update_wf [of ta i b ta'] line_update_gap [of ta i b ta'] by (simp add: reach_inv_def line_update_def)

lemma reach_ok:
  assumes "tag_reach c idx k ta" and "geometry_ok c idx"
  shows "reach_inv c idx k ta"
  using assms(1)
proof induction
  case reach_new
  then show ?case using new_wf [OF assms(2)] by (simp add: reach_inv_def dirty_ok_gap) (simp add: tag_array_new_def)
next
  case (reach_access k ta mf addr time wb ev st i ta' wb' ev')
  then have wf: "wf_tags ta" by (simp add: reach_inv_def)
  show ?case
  proof (cases i)
    case None
    then have "ta' = ta\<lparr>m_access := m_access ta + 1, is_used := True, m_res_fail := m_res_fail ta + 1\<rparr>"
      using access_cases [OF reach_access(3)] by (cases st) (auto simp: Let_def)
    then show ?thesis using reach_access(4)
      by (auto simp: reach_inv_def frame_simps dirty_gap_def modified_count_def line_count_def)
  next
    case (Some j)
    from access_update [OF wf reach_access(2) reach_access(3) [unfolded Some]] reach_inv_update [OF reach_access(4)]
    show ?thesis by blast
  qed
next
  case (reach_fill_index k ta i mf time ta')
  then have wf: "wf_tags ta" and f: "fill_line ta i time (get_access_sector_mask mf) (get_access_byte_mask mf) = Some ta'"
    by (simp_all add: reach_inv_def fill_index_def)
  from fill_line_gap [OF wf reach_fill_index(3,2,4) f] fill_line_frame [OF f] reach_fill_index(6) show ?case
    by (simp add: reach_inv_def)
next
  case (reach_fill_addr k ta m addr w st i time bm ta')
  then show ?case using fill_addr_update [of ta m addr time bm w ta' st i] fill_addr_frame [of ta addr time m bm w ta']
    by (simp add: reach_inv_def)
next
  case (reach_fill_hit k ta m addr w i time bm ta')
  then show ?case using fill_addr_hit [of ta m addr time bm w ta' i] fill_addr_frame [of ta addr time m bm w ta']
    by (simp add: reach_inv_def)
next
  case (reach_write k ta i m ta')
  then have "wf_tags ta" by (simp add: reach_inv_def)
  from mark_modified_update [OF this reach_write(2-5)] reach_inv_update [OF reach_write(6)] show ?case by blast
next
  case (reach_flags k ta i b)
  then have "wf_tags ta" "kind_ok (ta_config ta) b" by (simp_all add: reach_inv_def)
  from flags_update [OF this(1) reach_flags(2,3) this(2)] reach_inv_update [OF reach_flags(5)] show ?case by blast
next
  case (reach_flush k ta ta')
  then show ?case using sweep_step [of ta ta'] by (simp add: reach_inv_def)
next
  case (reach_invalidate k ta ta')
  then show ?case using sweep_step [of ta ta'] by (simp add: reach_inv_def)
qed (auto simp: reach_inv_def new_window_def add_pending_line_def remove_pending_line_def frame_simps dirty_gap_def
      modified_count_def line_count_def Let_def split: option.split)

section \<open>A small sector cache\<close>

text \<open>Two sets of two 128-byte lines, allocate-on-miss, write-back, as in an L2 slice.\<close>

definition tiny_config :: cache_config where
  "tiny_config = l2_config\<lparr>m_set_index_function := LINEAR_SET_FUNCTION, m_nset := 2, m_nset_log2 := 1,
     m_assoc := 2, original_m_assoc := 1, m_mshr_entries := 4, m_mshr_max_merge := 2, m_miss_queue_size := 4\<rparr>"

definition demo_mf :: "u64 \<Rightarrow> bool \<Rightarrow> sector_mask \<Rightarrow> byte_mask \<Rightarrow> mem_fetch" where
  "demo_mf addr wr sectors bytes = \<lparr>mf_request_uid = 1, mf_sid = 0, mf_tpc = 0, mf_wid = 0,
     mf_status = MEM_FETCH_INITIALIZED, mf_status_change = 0,
     mf_access = \<lparr>acc_uid = 1, acc_addr = addr, acc_write = wr, acc_req_size = 32,
       acc_type = (if wr then GLOBAL_ACC_W else GLOBAL_ACC_R), acc_warp_mask = 1,
       acc_byte_mask = bytes, acc_sector_mask = sectors\<rparr>,
     mf_data_size = 32, mf_ctrl_size = 8, mf_partition_addr = 0, mf_chip = 0, mf_sub_partition = 0,
     mf_type = (if wr then WRITE_REQUEST else READ_REQUEST), mf_timestamp = 0, mf_timestamp2 = 0,
     mf_inst = None, mf_streamID = 0, mf_icnt_flit_size = 32, mf_original_mf = None,
     mf_original_wr_mf = None\<rparr>"

interpretation tiny_idx: indexed_config tiny_config
  by unfold_locales (simp add: wf_config_def tiny_config_def l2_config_def index_supported_def)

definition tiny_tags :: tag_array where
  "tiny_tags = tag_array_new tiny_config (set_index tiny_config)"

lemma tiny_geometry: "geometry_ok tiny_config (set_index tiny_config)"
  using tiny_idx.set_mapping_axioms by (simp add: geometry_ok_def tiny_config_def l2_config_def)

lemma tiny_wf: "wf_tags tiny_tags \<and> dirty_ok tiny_tags"
  unfolding tiny_tags_def by (rule new_wf [OF tiny_geometry])

lemma sector_of_1 [simp]: "get_sector_index 1 = Some 0"
  by (simp add: get_sector_index_Some all_less4)

section \<open>Properties\<close>

text \<open>
  C17: in every reachable tag array a block is in at most one line, each non-invalid line sits in the
  set its address maps to, and \<^verbatim>\<open>m_dirty\<close> is the number of modified lines plus the number of fills since the last
  effective flush that have made the only modified sector of a line clean: accesses that evict or re-fetch, all other
  fills, writes, flushes and invalidations keep the counter exact. The fills are those of lines that have not been
  cleared by a flush or an invalidation since their miss.
\<close>

theorem tag_array_invariant:
  assumes "tag_reach c idx k ta" and "geometry_ok c idx"
  shows "wf_tags ta \<and> m_dirty ta = of_nat (modified_count ta + k)"
  using reach_ok [OF assms] by (simp add: reach_inv_def dirty_gap_def algebra_simps)

text \<open>
  A miss, a complete write of its sector while the fill is on its way, and the fill: the line is clean, and \<^verbatim>\<open>m_dirty\<close> is 1.
\<close>

definition demo_fill :: "(tag_array \<times> tag_array \<times> tag_array) option" where
  "demo_fill = do {
     (st, i, ta, wb, ev) \<leftarrow> access tiny_tags 0x1080 1 False evicted_block_info_init (demo_mf 0x1080 False 1 0);
     ta1 \<leftarrow> mark_modified ta 3 1;
     ta2 \<leftarrow> fill_index ta1 3 9 (demo_mf 0x1080 False 1 0);
     Some (ta, ta1, ta2) }"

lemma fill_drops_written_sector:
  "map_option (\<lambda>(ta, ta1, ta2). (m_dirty ta2, modified_count ta2, fill_drops ta1 3 ta2)) demo_fill = Some (1, 0, 1)"
  by code_simp

lemma tag_array_invariant_witness:
  "\<exists>ta ta1 ta2. demo_fill = Some (ta, ta1, ta2) \<and> wf_tags ta \<and> m_dirty ta = of_nat (modified_count ta) \<and>
    m_dirty ta1 = of_nat (modified_count ta1) \<and> wf_tags ta2 \<and> m_dirty ta2 = of_nat (modified_count ta2 + 1)"
proof -
  let ?mf = "demo_mf 0x1080 False 1 0" and ?r = "tag_reach tiny_config (set_index tiny_config)"
  obtain ta ta1 ta2 st i wb ev where a: "access tiny_tags 0x1080 1 False evicted_block_info_init ?mf = Some (st, i, ta, wb, ev)"
    and w: "mark_modified ta 3 1 = Some ta1" and f: "fill_index ta1 3 9 ?mf = Some ta2" and d: "demo_fill = Some (ta, ta1, ta2)"
    and k: "fill_drops ta1 3 ta2 = 1"
    using fill_drops_written_sector by (auto simp: demo_fill_def bind_eq_Some_conv)
  have ok: "case demo_fill of None \<Rightarrow> False | Some (ta, ta1, ta2) \<Rightarrow> 3 < line_count ta \<and> 3 < line_count ta1 \<and>
      \<not> is_invalid_line (m_lines ta ! 3) \<and> \<not> is_invalid_line (m_lines ta1 ! 3)" by code_simp
  have ok': "3 < line_count ta" "3 < line_count ta1" "\<not> is_invalid_line (m_lines ta ! 3)" "\<not> is_invalid_line (m_lines ta1 ! 3)"
    using ok by (simp_all add: d)
  have m: "get_sector_index (get_access_sector_mask ?mf) \<noteq> None" "get_sector_index (1 :: sector_mask) \<noteq> None"
    by (simp_all add: demo_mf_def get_access_sector_mask_def)
  have "?r 0 tiny_tags" unfolding tiny_tags_def by (rule reach_new)
  then have r0: "?r 0 ta" by (rule reach_access [OF _ m(1) a])
  have r1: "?r 0 ta1" by (rule reach_write [OF r0 _ m(2) _ w]) (use ok' in simp_all)
  have r2: "?r (0 + fill_drops ta1 3 ta2) ta2" by (rule reach_fill_index [OF r1 _ m(1) _ f]) (use ok' in simp_all)
  from tag_array_invariant [OF r0 tiny_geometry] tag_array_invariant [OF r1 tiny_geometry]
    tag_array_invariant [OF r2 tiny_geometry] d k
  show ?thesis by (intro exI [of _ ta] exI [of _ ta1] exI [of _ ta2]) simp
qed

lemma alloc_fill_valid:
  assumes a: "allocate b t ad time m = Some b1" and f: "block_fill b1 time' m bm = Some b2" and wf: "wf_block b"
  shows "get_status b2 m = Some VALID"
proof (cases b)
  case (LineBlock l)
  then show ?thesis using a f
    by (auto simp: line_allocate_def line_fill_def line_set_byte_mask_def Let_def)
next
  case (SectorBlock sb)
  with a obtain c where c: "sector_allocate_line sb t ad time m = Some c" "b1 = SectorBlock c" by auto
  with f obtain c2 where c2: "sector_fill c time' m bm = Some c2" "b2 = SectorBlock c2" by auto
  from sector_allocate_line_Some [OF c(1)] obtain i where
    i: "wf_sector c" "i < 4" "get_sector_index m = Some i" by blast
  have "\<not> s_set_modified_on_fill c ! i"
    using c(1) i(2,3) by (auto simp: sector_allocate_line_def sector_init_def)
  moreover obtain k where "get_sector_index m = Some k"
      "s_status c2 = (s_status c)[k := (if s_set_modified_on_fill c ! k then MODIFIED else VALID)]"
    using sector_fill_Some [OF i(1) c2(1)] by blast
  ultimately show ?thesis using i c2(2) by (simp add: wf_sector_def)
qed

text \<open>
  C28: with allocate-on-miss, an access that misses reserves a line which the later fill of that index
  completes: after it, any probe for the same sector hits in exactly that line.
\<close>

theorem miss_fill_hit:
  assumes wf: "wf_tags ta" and m: "get_sector_index (get_access_sector_mask mf) \<noteq> None"
    and a: "access ta addr time wb ev mf = Some (MISS, Some i, ta', wb', ev')"
    and f: "fill_index ta' i time' mf = Some ta''"
  shows "probe ta'' addr (get_access_sector_mask mf) w = Some (HIT, Some i)"
proof -
  let ?m = "get_access_sector_mask mf" and ?b = "block_addr (ta_config ta) addr"
  from access_update [OF wf m a] obtain b where b: "access_line ta addr time ?m MISS (m_lines ta ! i) b"
    and u: "line_update ta i b ta'" "slot_ok ta i b" "tag_fresh ta i b" by blast
  from f u(1) have on: "m_alloc_policy (ta_config ta) = ON_MISS"
    and f1: "fill_line ta' i time' ?m (get_access_byte_mask mf) = Some ta''"
    by (auto simp: fill_index_def line_update_def)
  have wf': "wf_tags ta'" by (rule line_update_wf [OF wf u])
  have len: "i < line_count ta" "i < length (m_lines ta)" "line_count ta' = line_count ta"
    and l': "m_lines ta' ! i = b" and c': "ta_config ta' = ta_config ta"
    using u(1) wf by (auto simp: line_update_def wf_tags_def line_count_def)
  have s: "slot_ok ta i (m_lines ta ! i)" by (rule slotD [OF wf len(1)])
  from b on have al: "allocate (m_lines ta ! i) ?b ?b time ?m = Some b" by (simp add: access_line_def)
  from allocate_ok [OF al _ _ m] s have o: "blk_tag b = ?b" "get_status b ?m = Some RESERVED"
    by (auto simp: slot_ok_def)
  have "i < line_count ta'" using len by simp
  from fill_line_update [OF wf' m this _ f1] l' o(2) obtain b2 where
    b2: "block_fill b time' ?m (get_access_byte_mask mf) = Some b2" and
    u2: "line_update ta' i b2 ta''" "slot_ok ta' i b2" "tag_fresh ta' i b2" by auto
  have wf'': "wf_tags ta''" by (rule line_update_wf [OF wf' u2])
  have v: "get_status b2 ?m = Some VALID"
    using alloc_fill_valid [OF al b2] s by (simp add: slot_ok_def)
  have "\<not> is_invalid_line b2" using blk.statusD [OF _ v m] u2(2) by (auto simp: slot_ok_def)
  moreover have "m_lines ta'' ! i = b2" using u2(1) u(1) len by (simp add: line_update_def)
  ultimately have "holds ta'' addr i"
    using u2(1) len o(1) fill_addr [OF b2] c' by (auto simp: holds_def line_update_def line_count_def)
  moreover have "tag_match (m_lines ta'' ! i) ?m w = Some (Some HIT)"
    using v \<open>m_lines ta'' ! i = b2\<close> by (simp add: tag_match_def)
  ultimately show ?thesis by (rule probe_match [OF wf'' m])
qed

lemma miss_fill_hit_witness:
  "\<exists>ta' ta''. map_option (\<lambda>(st, i, t, w, e). (st, i, t)) (access tiny_tags 0x1080 1 False evicted_block_info_init (demo_mf 0x1080 False 1 0))
      = Some (MISS, Some 3, ta') \<and> fill_index ta' 3 9 (demo_mf 0x1080 False 1 0) = Some ta'' \<and>
      probe ta'' 0x1080 1 False = Some (HIT, Some 3)"
proof -
  let ?mf = "demo_mf 0x1080 False 1 0"
  have "case access tiny_tags 0x1080 1 False evicted_block_info_init ?mf of
      Some (st, i, t, r) \<Rightarrow> st = MISS \<and> i = Some 3 \<and> fill_index t 3 9 ?mf \<noteq> None | None \<Rightarrow> False"
    by code_simp
  then obtain ta' wb ev ta'' where a: "access tiny_tags 0x1080 1 False evicted_block_info_init ?mf = Some (MISS, Some 3, ta', wb, ev)"
    and f: "fill_index ta' 3 9 ?mf = Some ta''"
    by (auto split: option.splits)
  have m: "get_access_sector_mask ?mf = 1" by (simp add: demo_mf_def get_access_sector_mask_def)
  have "get_sector_index (get_access_sector_mask ?mf) \<noteq> None" by (simp add: m)
  from miss_fill_hit [OF conjunct1 [OF tiny_wf] this a f] a f m show ?thesis by auto
qed

lemma probe_hit_iff_witness:
  "probe tiny_tags 0x1080 1 False = Some (HIT, Some 3) \<longleftrightarrow>
    holds tiny_tags 0x1080 3 \<and> (get_status (m_lines tiny_tags ! 3) 1 = Some VALID \<or>
      get_status (m_lines tiny_tags ! 3) 1 = Some MODIFIED \<and> (False \<or> is_readable (m_lines tiny_tags ! 3) 1 = Some True))"
  by (rule probe_hit_iff [OF conjunct1 [OF tiny_wf]]) simp

lemma probe_miss_victim_witness:
  "probe tiny_tags 0x1080 1 False = Some (MISS, Some 3) \<and>
   (\<exists>i. Some 3 = Some i \<and> (\<forall>j. \<not> holds tiny_tags 0x1080 j) \<and> i \<in> set (ways tiny_tags 0x1080) \<and>
    evictable tiny_tags (m_lines tiny_tags ! i) \<and>
    (is_invalid_line (m_lines tiny_tags ! i) \<or>
     (\<forall>j \<in> set (ways tiny_tags 0x1080). evictable tiny_tags (m_lines tiny_tags ! j) \<longrightarrow>
        \<not> is_invalid_line (m_lines tiny_tags ! j) \<and> line_time tiny_tags i \<le> line_time tiny_tags j)))"
proof -
  have p: "probe tiny_tags 0x1080 1 False = Some (MISS, Some 3)" by code_simp
  have "get_sector_index (1 :: sector_mask) \<noteq> None" by simp
  from probe_miss_victim [OF conjunct1 [OF tiny_wf] this p] p show ?thesis by blast
qed

lemma probe_reservation_fail_iff_witness:
  "probe tiny_tags 0x1080 1 False = Some (RESERVATION_FAIL, None) \<longleftrightarrow>
    (\<forall>i. \<not> holds tiny_tags 0x1080 i) \<and> (\<forall>i \<in> set (ways tiny_tags 0x1080). \<not> evictable tiny_tags (m_lines tiny_tags ! i))"
proof (rule probe_reservation_fail_iff [OF conjunct1 [OF tiny_wf]])
  show "m_alloc_policy (ta_config tiny_tags) = ON_MISS"
    by (simp add: tiny_tags_def tag_array_new_def tiny_config_def l2_config_def config_blank_def)
qed simp

text \<open>
  an access that misses under allocate-on-miss requests a write-back exactly when the victim was
  modified (or one was already pending), the eviction record is then the victim's address, size and
  dirty masks, and the victim's address is not the one being accessed.
\<close>

theorem access_evicts:
  assumes wf: "wf_tags ta" and m: "get_sector_index (get_access_sector_mask mf) \<noteq> None"
    and on: "m_alloc_policy (ta_config ta) = ON_MISS"
    and a: "access ta addr time wb ev mf = Some (MISS, Some i, ta', wb', ev')"
  shows "(wb' \<longleftrightarrow> wb \<or> is_modified_line (m_lines ta ! i)) \<and>
    ev' = (if is_modified_line (m_lines ta ! i) then evicted_info (m_lines ta ! i) else ev) \<and>
    (is_modified_line (m_lines ta ! i) \<longrightarrow> blk_block_addr (m_lines ta ! i) \<noteq> block_addr (ta_config ta) addr) \<and>
    \<not> is_reserved_line (m_lines ta ! i)"
proof -
  let ?t = "ta\<lparr>m_access := m_access ta + 1, is_used := True, m_miss := m_miss ta + 1\<rparr>"
  from access_cases [OF a] have p: "probe ta addr (get_access_sector_mask mf) (is_write mf) = Some (MISS, Some i)"
    and "access_miss ?t addr time wb ev mf i = Some (ta', wb', ev')" by (simp_all add: Let_def)
  from access_miss_Some [OF this(2)] on
  have r: "(wb' \<longleftrightarrow> wb \<or> is_modified_line (m_lines ta ! i)) \<and>
    ev' = (if is_modified_line (m_lines ta ! i) then evicted_info (m_lines ta ! i) else ev)"
    by (auto simp: evicts_def split: if_splits)
  from miss_in_ways [OF wf m p] have v: "i \<in> set (ways ta addr)" "\<not> holds ta addr i"
    "\<not> is_reserved_line (m_lines ta ! i)" by blast+
  then have i: "i < line_count ta" using ways_range [OF wf] by blast
  have "blk_block_addr (m_lines ta ! i) \<noteq> block_addr (ta_config ta) addr" if md: "is_modified_line (m_lines ta ! i)"
  proof -
    have "\<not> is_invalid_line (m_lines ta ! i)" using md by (auto simp: blk_line_iff)
    then show ?thesis using v(2) i slotD [OF wf i] by (auto simp: holds_def slot_ok_def)
  qed
  with r v(3) show ?thesis by blast
qed

lemma access_evicts_witness:
  "\<exists>ta' wb' ev'. access tiny_tags 0x1080 1 False evicted_block_info_init (demo_mf 0x1080 False 1 0) = Some (MISS, Some 3, ta', wb', ev')
     \<and> (wb' \<longleftrightarrow> False \<or> is_modified_line (m_lines tiny_tags ! 3))"
proof -
  let ?mf = "demo_mf 0x1080 False 1 0"
  have "case access tiny_tags 0x1080 1 False evicted_block_info_init ?mf of Some (st, i, r) \<Rightarrow> st = MISS \<and> i = Some 3 | None \<Rightarrow> False"
    by code_simp
  then obtain ta' wb ev where a: "access tiny_tags 0x1080 1 False evicted_block_info_init ?mf = Some (MISS, Some 3, ta', wb, ev)"
    by (auto split: option.splits)
  have m: "get_sector_index (get_access_sector_mask ?mf) \<noteq> None"
    by (simp add: demo_mf_def get_access_sector_mask_def)
  have "m_alloc_policy (ta_config tiny_tags) = ON_MISS"
    by (simp add: tiny_tags_def tag_array_new_def tiny_config_def l2_config_def config_blank_def)
  from access_evicts [OF conjunct1 [OF tiny_wf] m this a] a show ?thesis by blast
qed

text \<open>
  \<^verbatim>\<open>Flush\<close> always succeeds on a well-formed array; if the array was used since the last sweep it
  leaves no modified line, resets the dirty counter, invalidates every sector of the lines that were
  modified and leaves all other lines alone, and otherwise does nothing.
\<close>

theorem flush_spec:
  assumes "wf_tags ta"
  shows "\<exists>ta'. flush ta = Some ta' \<and> wf_tags ta' \<and> \<not> is_used ta' \<and>
    (if is_used ta then m_dirty ta' = 0 \<and> modified_count ta' = 0 \<and> swept ta is_modified_line ta' else ta' = ta)"
proof (cases "is_used ta")
  case True
  have n: "get_num_lines (ta_config ta) = line_count ta" by (simp add: get_num_lines_def line_count_def)
  have "flush_lines is_modified_line (line_count ta) (m_lines ta) \<noteq> None"
    using assms by (intro flush_lines_total) (auto simp: wf_tags_def slot_ok_def)
  then obtain bs where bs: "flush_lines is_modified_line (get_num_lines (ta_config ta)) (m_lines ta) = Some bs"
    by (auto simp: n)
  with sweep_ok [OF assms bs _ refl] True show ?thesis by (simp add: flush_def)
qed (use assms in \<open>simp add: flush_def\<close>)

lemma flush_spec_witness:
  "\<exists>ta'. flush (tiny_tags\<lparr>is_used := True\<rparr>) = Some ta' \<and> wf_tags ta' \<and> \<not> is_used ta' \<and>
    (if is_used (tiny_tags\<lparr>is_used := True\<rparr>)
     then m_dirty ta' = 0 \<and> modified_count ta' = 0 \<and> swept (tiny_tags\<lparr>is_used := True\<rparr>) is_modified_line ta'
     else ta' = tiny_tags\<lparr>is_used := True\<rparr>)"
  by (rule flush_spec) (simp add: frame_simps tiny_wf)

section \<open>Two flaws\<close>

text \<open>
  \<^verbatim>\<open>m_ignore_on_fill_status\<close> is set for a sector that is written completely while its fill is in
  flight, but no fill reads it: the fill still turns the written (modified) sector into a clean one.
\<close>

theorem ignored_fill_still_cleans:
  assumes "wf_block b" and "allocate b t ad time m = Some b0" and "set_status b0 MODIFIED m = Some b1"
    and "set_ignore_on_fill b1 True m = Some b2" and "block_fill b2 time' m bm = Some b3"
  shows "get_status b3 m = Some VALID"
proof (cases b)
  case (LineBlock l)
  then show ?thesis using assms
    by (auto simp: line_allocate_def line_fill_def line_set_byte_mask_def Let_def)
next
  case (SectorBlock sb)
  with assms obtain c i where c: "sector_allocate_line sb t ad time m = Some c" "b0 = SectorBlock c"
    and i: "get_sector_index m = Some i"
    by (auto simp: sector_allocate_line_def bind_eq_Some_conv)
  have wf: "wf_sector c" "i < 4" "\<not> s_set_modified_on_fill c ! i"
    using sector_allocate_line_Some [OF c(1)] c(1) i
    by (auto simp: sector_allocate_line_def sector_init_def dest: get_sector_index_less)
  define c2 where "c2 = c\<lparr>s_status := (s_status c)[i := MODIFIED], s_ignore_on_fill_status := (s_ignore_on_fill_status c)[i := True]\<rparr>"
  have "b2 = SectorBlock c2" using assms(3,4) c(2) i by (auto simp: c2_def)
  with assms(5) obtain c3 where c3: "sector_fill c2 time' m bm = Some c3" "b3 = SectorBlock c3" by auto
  have "wf_sector c2" using wf(1) by (simp add: c2_def wf_sector_def)
  from sector_fill_Some [OF this c3(1)] i wf have "s_status c3 ! i = VALID"
    by (auto simp: c2_def wf_sector_def)
  with c3(2) i show ?thesis by simp
qed

text \<open>
  \<^verbatim>\<open>windowed_miss_rate\<close> adds \<^verbatim>\<open>m_sector_miss\<close> to a miss count that already contains it: four sector
  misses in four accesses are reported as a rate of two.
\<close>

theorem windowed_miss_rate_above_one:
  "windowed_miss_rate (tiny_tags\<lparr>m_access := 4, m_sector_miss := 4\<rparr>) = 2"
  by code_simp

end
