(* ===== verification/Mshr_Table.thy ===== *)
theory Mshr_Table
  imports Mem_Fetch
begin

text \<open>
  \<^verbatim>\<open>class mshr_table\<close> of \<^verbatim>\<open>src/gpgpu-sim/gpu-cache.cc\<close>: the miss status holding registers. A table
  entry collects the requests (pointers into the request heap) that wait for one block; when the block
  returns (\<^verbatim>\<open>mark_ready\<close>) they are handed back one per \<^verbatim>\<open>next_access\<close>. The hash map is an association
  list with one pair per key; \<^verbatim>\<open>m_data[a]\<close> inserts an empty entry when \<open>a\<close> is absent, as
  \<^verbatim>\<open>operator[]\<close> does.
\<close>

section \<open>State and operations\<close>

record mshr_entry =
  m_list :: "nat list"
  m_has_atomic :: bool

definition mshr_entry_new :: mshr_entry where
  "mshr_entry_new = \<lparr>m_list = [], m_has_atomic = False\<rparr>"

record mshr_table =
  m_num_entries :: nat
  m_max_merged :: nat
  m_data :: "(u64 \<times> mshr_entry) list"
  m_current_response :: "u64 list"

definition mshr_table_new :: "nat \<Rightarrow> nat \<Rightarrow> mshr_table" where
  "mshr_table_new num_entries max_merged =
     \<lparr>m_num_entries = num_entries, m_max_merged = max_merged, m_data = [], m_current_response = []\<rparr>"

definition entry_at :: "mshr_table \<Rightarrow> u64 \<Rightarrow> mshr_entry" where
  "entry_at t a = (case map_of (m_data t) a of None \<Rightarrow> mshr_entry_new | Some e \<Rightarrow> e)"

definition put_entry :: "mshr_table \<Rightarrow> u64 \<Rightarrow> mshr_entry \<Rightarrow> mshr_table" where
  "put_entry t a e = t\<lparr>m_data := AList.update a e (m_data t)\<rparr>"

definition mshr_probe :: "mshr_table \<Rightarrow> u64 \<Rightarrow> bool" where
  "mshr_probe t block_addr = (map_of (m_data t) block_addr \<noteq> None)"

definition mshr_full :: "mshr_table \<Rightarrow> u64 \<Rightarrow> bool" where
  "mshr_full t block_addr = (case map_of (m_data t) block_addr of
     Some e \<Rightarrow> m_max_merged t \<le> length (m_list e)
   | None \<Rightarrow> m_num_entries t \<le> length (m_data t))"

text \<open>\<^verbatim>\<open>add\<close>; \<open>atomic\<close> is \<^verbatim>\<open>mf->isatomic()\<close>.\<close>

definition mshr_add :: "mshr_table \<Rightarrow> u64 \<Rightarrow> nat \<Rightarrow> bool \<Rightarrow> mshr_table option" where
  "mshr_add t block_addr mf atomic = do {
     let e = entry_at t block_addr;
     let e = e\<lparr>m_list := m_list e @ [mf]\<rparr>;
     let t = put_entry t block_addr e;
     guard (length (m_data t) \<le> m_num_entries t);
     guard (length (m_list e) \<le> m_max_merged t);
     Some (if atomic then put_entry t block_addr (e\<lparr>m_has_atomic := True\<rparr>) else t) }"

text \<open>\<^verbatim>\<open>is_read_after_write_pending\<close>: the scan over the requests, \<open>wr p\<close> being \<^verbatim>\<open>is_write()\<close>.\<close>

fun raw_scan :: "(nat \<Rightarrow> bool) \<Rightarrow> bool \<Rightarrow> nat list \<Rightarrow> bool" where
  "raw_scan wr write_found [] = False"
| "raw_scan wr write_found (p # ps) =
     (if wr p then raw_scan wr True ps else if write_found then True else raw_scan wr write_found ps)"

definition is_read_after_write_pending :: "mshr_table \<Rightarrow> (nat \<Rightarrow> bool) \<Rightarrow> u64 \<Rightarrow> bool \<times> mshr_table" where
  "is_read_after_write_pending t wr block_addr =
     (let e = entry_at t block_addr in (raw_scan wr False (m_list e), put_entry t block_addr e))"

definition mark_ready :: "mshr_table \<Rightarrow> u64 \<Rightarrow> (bool \<times> mshr_table) option" where
  "mark_ready t block_addr = do {
     e \<leftarrow> map_of (m_data t) block_addr;
     let t = t\<lparr>m_current_response := m_current_response t @ [block_addr]\<rparr>;
     guard (length (m_current_response t) \<le> length (m_data t));
     Some (m_has_atomic e, t) }"

definition access_ready :: "mshr_table \<Rightarrow> bool" where
  "access_ready t = (m_current_response t \<noteq> [])"

definition next_access :: "mshr_table \<Rightarrow> (nat \<times> mshr_table) option" where
  "next_access t = (case m_current_response t of
     [] \<Rightarrow> None
   | block_addr # rest \<Rightarrow>
      (case m_list (entry_at t block_addr) of
         [] \<Rightarrow> None
       | result # ps \<Rightarrow>
           Some (result, if ps = []
             then t\<lparr>m_data := AList.delete block_addr (m_data t), m_current_response := rest\<rparr>
             else put_entry t block_addr ((entry_at t block_addr)\<lparr>m_list := ps\<rparr>))))"

definition check_mshr_parameters :: "mshr_table \<Rightarrow> nat \<Rightarrow> nat \<Rightarrow> unit option" where
  "check_mshr_parameters t num_entries max_merged = do {
     guard (m_num_entries t = num_entries); guard (m_max_merged t = max_merged) }"

section \<open>The invariant\<close>

definition wf_mshr :: "mshr_table \<Rightarrow> bool" where
  "wf_mshr t \<longleftrightarrow> distinct (map fst (m_data t)) \<and> length (m_data t) \<le> m_num_entries t \<and>
     (\<forall>a e. map_of (m_data t) a = Some e \<longrightarrow> m_list e \<noteq> [] \<and> length (m_list e) \<le> m_max_merged t) \<and>
     distinct (m_current_response t) \<and> (\<forall>a \<in> set (m_current_response t). map_of (m_data t) a \<noteq> None)"

definition waiting :: "mshr_table \<Rightarrow> u64 \<Rightarrow> nat list" where
  "waiting t a = m_list (entry_at t a)"

lemma entry_at_put [simp]: "entry_at (put_entry t a e) b = (if b = a then e else entry_at t b)"
  by (simp add: entry_at_def put_entry_def)

lemma map_of_put [simp]: "map_of (m_data (put_entry t a e)) = (map_of (m_data t))(a \<mapsto> e)"
  by (simp add: put_entry_def)

lemma put_entry_simps [simp]:
  "m_num_entries (put_entry t a e) = m_num_entries t" "m_max_merged (put_entry t a e) = m_max_merged t"
  "m_current_response (put_entry t a e) = m_current_response t"
  "length (m_data (put_entry t a e)) = length (m_data t) + (if map_of (m_data t) a = None then 1 else 0)"
  "distinct (map fst (m_data t)) \<Longrightarrow> distinct (map fst (m_data (put_entry t a e)))"
  by (simp_all add: put_entry_def length_alist_update distinct_keys_update)

lemma put_entry_same: "map_of (m_data t) a = Some e \<Longrightarrow> put_entry t a e = t"
  by (simp add: put_entry_def update_triv)

lemma wf_mshr_new: "wf_mshr (mshr_table_new n k)"
  by (simp add: wf_mshr_def mshr_table_new_def)

lemma add_Some:
  "mshr_add t a p atomic = Some t' \<Longrightarrow>
    \<exists>e'. map_of (m_data t') = (map_of (m_data t))(a \<mapsto> e') \<and> m_list e' = waiting t a @ [p] \<and>
      m_has_atomic e' = (m_has_atomic (entry_at t a) \<or> atomic) \<and>
      length (m_list e') \<le> m_max_merged t \<and> length (m_data t') \<le> m_num_entries t \<and>
      (distinct (map fst (m_data t)) \<longrightarrow> distinct (map fst (m_data t'))) \<and>
      m_num_entries t' = m_num_entries t \<and> m_max_merged t' = m_max_merged t \<and>
      m_current_response t' = m_current_response t"
  by (rule exI [of _ "(entry_at t a)\<lparr>m_list := waiting t a @ [p], m_has_atomic := m_has_atomic (entry_at t a) \<or> atomic\<rparr>"])
    (auto simp: mshr_add_def Let_def waiting_def)

lemma mshr_add_ok:
  assumes "wf_mshr t" and "0 < m_max_merged t"
  shows "(if mshr_full t a then mshr_add t a p atomic = None
    else \<exists>t'. mshr_add t a p atomic = Some t' \<and> wf_mshr t' \<and> waiting t' a = waiting t a @ [p] \<and>
      (\<forall>b. b \<noteq> a \<longrightarrow> waiting t' b = waiting t b) \<and> mshr_probe t' a)"
proof (cases "mshr_add t a p atomic")
  case None
  then have "mshr_full t a" using assms
    by (cases "map_of (m_data t) a") (auto simp: mshr_add_def Let_def mshr_full_def entry_at_def mshr_entry_new_def guard_def wf_mshr_def split: if_splits)
  with None show ?thesis by simp
next
  case (Some t')
  from add_Some [OF Some] obtain e' where e': "map_of (m_data t') = (map_of (m_data t))(a \<mapsto> e')"
    "m_list e' = waiting t a @ [p]" "length (m_list e') \<le> m_max_merged t" "length (m_data t') \<le> m_num_entries t"
    "distinct (map fst (m_data t)) \<longrightarrow> distinct (map fst (m_data t'))" "m_num_entries t' = m_num_entries t"
    "m_max_merged t' = m_max_merged t" "m_current_response t' = m_current_response t" by blast
  have "length (m_data t') = length (m_data t) + (if map_of (m_data t) a = None then 1 else 0)"
    using Some by (auto simp: mshr_add_def Let_def split: if_splits)
  then have "\<not> mshr_full t a" using e'(2,3,4)
    by (auto simp: mshr_full_def waiting_def entry_at_def split: option.splits)
  moreover have "wf_mshr t'" using assms(1) e' by (auto simp: wf_mshr_def)
  ultimately show ?thesis using Some e'(1,2) by (auto simp: waiting_def entry_at_def mshr_probe_def)
qed

text \<open>
  \<^verbatim>\<open>full\<close> is the exact guard of \<^verbatim>\<open>add\<close>: when the table has room for the block, by merging or by a
  new entry, the request is appended to the requests waiting for that block, those of all other blocks
  are untouched and the invariant holds again; when it is full the assertions of \<^verbatim>\<open>add\<close> fail.
\<close>

theorem mshr_add_iff:
  assumes "wf_mshr t" and "0 < m_max_merged t"
  shows "(if mshr_full t a then mshr_add t a p atomic = None
    else \<exists>t'. mshr_add t a p atomic = Some t' \<and> wf_mshr t' \<and> waiting t' a = waiting t a @ [p] \<and>
      (\<forall>b. b \<noteq> a \<longrightarrow> waiting t' b = waiting t b) \<and> mshr_probe t' a)"
  by (rule mshr_add_ok [OF assms])

lemma mshr_add_iff_witness:
  "mshr_full (mshr_table_new 2 2) 64 = False \<and>
   (if mshr_full (mshr_table_new 2 2) 64 then mshr_add (mshr_table_new 2 2) 64 7 False = None
    else \<exists>t'. mshr_add (mshr_table_new 2 2) 64 7 False = Some t' \<and> wf_mshr t' \<and>
      waiting t' 64 = waiting (mshr_table_new 2 2) 64 @ [7] \<and>
      (\<forall>b. b \<noteq> 64 \<longrightarrow> waiting t' b = waiting (mshr_table_new 2 2) b) \<and> mshr_probe t' 64)"
proof (rule conjI)
  show "mshr_full (mshr_table_new 2 2) 64 = False" by (simp add: mshr_full_def mshr_table_new_def)
qed (rule mshr_add_iff [OF wf_mshr_new], simp add: mshr_table_new_def)

section \<open>Responses\<close>

lemma next_access_Some:
  assumes "wf_mshr t" and "m_current_response t = a # rest"
  obtains p ps t' where "waiting t a = p # ps" and "next_access t = Some (p, t')" and "wf_mshr t'"
    and "waiting t' a = ps" and "\<And>b. b \<noteq> a \<Longrightarrow> waiting t' b = waiting t b"
    and "m_current_response t' = (if ps = [] then rest else a # rest)"
    and "mshr_probe t' a \<longleftrightarrow> ps \<noteq> []" and "m_num_entries t' = m_num_entries t" and "m_max_merged t' = m_max_merged t"
    and "\<And>b. b \<noteq> a \<Longrightarrow> map_of (m_data t') b = map_of (m_data t) b"
proof -
  from assms obtain e where e: "map_of (m_data t) a = Some e" "m_list e \<noteq> []" "length (m_list e) \<le> m_max_merged t"
    by (fastforce simp: wf_mshr_def)
  then obtain p ps where p: "m_list e = p # ps" by (cases "m_list e") auto
  show ?thesis
  proof (cases "ps = []")
    case True
    let ?t = "t\<lparr>m_data := AList.delete a (m_data t), m_current_response := rest\<rparr>"
    have "next_access t = Some (p, ?t)" using assms(2) e p True by (simp add: next_access_def entry_at_def)
    moreover have "wf_mshr ?t"
      using assms length_delete_le [of a "m_data t"] by (auto simp: wf_mshr_def distinct_keys_delete)
    ultimately show ?thesis using that e p True by (auto simp: waiting_def entry_at_def mshr_probe_def mshr_entry_new_def)
  next
    case False
    let ?t = "put_entry t a (e\<lparr>m_list := ps\<rparr>)"
    have "next_access t = Some (p, ?t)" using assms(2) e p False by (simp add: next_access_def entry_at_def)
    moreover have "wf_mshr ?t" using assms e p False by (auto simp: wf_mshr_def)
    ultimately show ?thesis using that e p False assms(2) by (auto simp: waiting_def entry_at_def mshr_probe_def)
  qed
qed

fun drain :: "nat \<Rightarrow> mshr_table \<Rightarrow> (nat list \<times> mshr_table) option" where
  "drain 0 t = Some ([], t)"
| "drain (Suc n) t = do { (p, t') \<leftarrow> next_access t; (ps, t'') \<leftarrow> drain n t'; Some (p # ps, t'') }"

lemma drain_ok:
  "wf_mshr t \<Longrightarrow> m_current_response t = a # rest \<Longrightarrow> waiting t a = p # ps \<Longrightarrow>
    \<exists>t'. drain (length (p # ps)) t = Some (p # ps, t') \<and> wf_mshr t' \<and> m_current_response t' = rest \<and>
      \<not> mshr_probe t' a \<and> (\<forall>b. b \<noteq> a \<longrightarrow> waiting t' b = waiting t b)"
proof (induction ps arbitrary: t p)
  case Nil
  from next_access_Some [OF Nil(1,2)] obtain t' where "next_access t = Some (p, t')" "wf_mshr t'"
    "m_current_response t' = rest" "\<not> mshr_probe t' a" "\<And>b. b \<noteq> a \<Longrightarrow> waiting t' b = waiting t b"
    using Nil(3) by (metis list.inject)
  then show ?case by auto
next
  case (Cons q ps)
  from next_access_Some [OF Cons.prems(1,2)] obtain t1 where t1: "next_access t = Some (p, t1)" "wf_mshr t1"
    "m_current_response t1 = a # rest" "waiting t1 a = q # ps" "\<And>b. b \<noteq> a \<Longrightarrow> waiting t1 b = waiting t b"
    using Cons.prems(3) by (metis list.inject list.distinct(1))
  from Cons.IH [OF t1(2-4)] obtain t2 where d: "drain (length (q # ps)) t1 = Some (q # ps, t2)"
    and r: "wf_mshr t2" "m_current_response t2 = rest" "\<not> mshr_probe t2 a" "\<And>b. b \<noteq> a \<Longrightarrow> waiting t2 b = waiting t1 b"
    by blast
  have "length (p # q # ps) = Suc (length (q # ps))" by simp
  then have "drain (length (p # q # ps)) t = Some (p # q # ps, t2)"
    by (simp only: drain.simps(2) t1(1) d bind.bind_lunit prod.case)
  with r t1(5) show ?case by auto
qed

text \<open>
  when the block at the head of the response list is ready, successive \<^verbatim>\<open>next_access\<close> calls return
  the requests merged into its entry in the order in which they were added, then the entry is gone, the
  next response is at the head, and the requests waiting for other blocks are untouched.
\<close>

theorem mshr_fifo:
  assumes "wf_mshr t" and "m_current_response t = a # rest"
  shows "\<exists>t'. drain (length (waiting t a)) t = Some (waiting t a, t') \<and> wf_mshr t' \<and>
    m_current_response t' = rest \<and> \<not> mshr_probe t' a \<and> (\<forall>b. b \<noteq> a \<longrightarrow> waiting t' b = waiting t b)"
proof -
  obtain p ps where "waiting t a = p # ps" using next_access_Some [OF assms] by metis
  then show ?thesis using drain_ok [OF assms] by simp
qed

lemma raw_scan_iff:
  "raw_scan wr w ps \<longleftrightarrow> (\<exists>j < length ps. \<not> wr (ps ! j) \<and> (w \<or> (\<exists>i < j. wr (ps ! i))))"
proof (induction ps arbitrary: w)
  case (Cons p ps)
  show ?case
  proof (cases "wr p")
    case True
    then have "raw_scan wr w (p # ps) \<longleftrightarrow> (\<exists>j < length ps. \<not> wr (ps ! j))" using Cons.IH [of True] by simp
    also have "\<dots> \<longleftrightarrow> (\<exists>j < length (p # ps). \<not> wr ((p # ps) ! j) \<and> (w \<or> (\<exists>i < j. wr ((p # ps) ! i))))"
      (is "?L \<longleftrightarrow> ?R")
    proof
      assume ?L
      then obtain j where "j < length ps" "\<not> wr (ps ! j)" by blast
      then show ?R using True by (intro exI [of _ "Suc j"]) (auto intro: exI [of _ 0])
    next
      assume ?R
      then obtain j where j: "j < length (p # ps)" "\<not> wr ((p # ps) ! j)" by blast
      with True show ?L by (cases j) auto
    qed
    finally show ?thesis .
  next
    case False
    then show ?thesis
      using Cons.IH [of w] by (auto simp: nth_Cons Ex_less_Suc2 split: nat.splits)
  qed
qed simp

text \<open>
  the scan of \<^verbatim>\<open>is_read_after_write_pending\<close> finds a read merged behind a write: the answer is true
  exactly when some request of the entry is a write and a later one is a read; the table is left as it
  was when the block has an entry.
\<close>

theorem raw_pending_iff:
  assumes "mshr_probe t a" and "is_read_after_write_pending t wr a = (r, t')"
  shows "t' = t \<and> (r \<longleftrightarrow> (\<exists>j < length (waiting t a). \<not> wr (waiting t a ! j) \<and> (\<exists>i < j. wr (waiting t a ! i))))"
proof -
  obtain e where e: "map_of (m_data t) a = Some e" using assms(1) by (auto simp: mshr_probe_def)
  then show ?thesis
    using assms(2) raw_scan_iff [of wr False "m_list e"]
    by (auto simp: is_read_after_write_pending_def Let_def entry_at_def waiting_def put_entry_same)
qed

definition demo_mshr :: mshr_table where
  "demo_mshr = \<lparr>m_num_entries = 2, m_max_merged = 3,
     m_data = [(64, \<lparr>m_list = [1, 2], m_has_atomic = False\<rparr>), (128, \<lparr>m_list = [3], m_has_atomic = False\<rparr>)],
     m_current_response = [64]\<rparr>"

lemma demo_mshr_wf: "wf_mshr demo_mshr"
  by (auto simp: demo_mshr_def wf_mshr_def split: if_splits)

lemma mshr_fifo_witness:
  "\<exists>t'. drain 2 demo_mshr = Some ([1, 2], t') \<and> wf_mshr t' \<and> m_current_response t' = [] \<and>
    \<not> mshr_probe t' 64 \<and> (\<forall>b. b \<noteq> 64 \<longrightarrow> waiting t' b = waiting demo_mshr b)"
proof -
  have "m_current_response demo_mshr = [64]" and w: "waiting demo_mshr 64 = [1, 2]"
    by (simp_all add: demo_mshr_def waiting_def entry_at_def)
  from mshr_fifo [OF demo_mshr_wf this(1)] show ?thesis unfolding w by (simp add: numeral_2_eq_2)
qed

lemma raw_pending_iff_witness:
  "mshr_probe demo_mshr 64 \<and> is_read_after_write_pending demo_mshr (\<lambda>p. p = 1) 64 = (True, demo_mshr)
   \<and> (\<exists>j < length (waiting demo_mshr 64). \<not> waiting demo_mshr 64 ! j = 1 \<and> (\<exists>i < j. waiting demo_mshr 64 ! i = 1))"
proof -
  have p: "mshr_probe demo_mshr 64" by (simp add: demo_mshr_def mshr_probe_def)
  have r: "is_read_after_write_pending demo_mshr (\<lambda>p. p = 1) 64 = (True, demo_mshr)"
    by (simp add: demo_mshr_def is_read_after_write_pending_def entry_at_def put_entry_def)
  from raw_pending_iff [OF p r] p r show ?thesis by blast
qed

section \<open>The table as a machine\<close>

text \<open>
  The events a cache applies to its table, and the protocol it follows: \<^verbatim>\<open>add\<close> only when not full,
  \<^verbatim>\<open>mark_ready\<close> only for a pending block that is not already answered, \<^verbatim>\<open>next_access\<close> only when
  \<^verbatim>\<open>access_ready\<close>.
\<close>

datatype mshr_event = Mshr_add u64 nat bool | Mshr_ready u64 | Mshr_next

fun mshr_step :: "mshr_table \<Rightarrow> mshr_event \<Rightarrow> mshr_table option" where
  "mshr_step t (Mshr_add a p atomic) = mshr_add t a p atomic"
| "mshr_step t (Mshr_ready a) = map_option snd (mark_ready t a)"
| "mshr_step t Mshr_next = map_option snd (next_access t)"

fun mshr_ok :: "mshr_table \<Rightarrow> mshr_event \<Rightarrow> bool" where
  "mshr_ok t (Mshr_add a p atomic) = (\<not> mshr_full t a)"
| "mshr_ok t (Mshr_ready a) = (mshr_probe t a \<and> a \<notin> set (m_current_response t))"
| "mshr_ok t Mshr_next = access_ready t"

definition mshr_inv :: "mshr_table \<Rightarrow> bool" where
  "mshr_inv t \<longleftrightarrow> wf_mshr t \<and> 0 < m_max_merged t"

lemma response_bound:
  assumes "wf_mshr t" and "mshr_probe t a" and "a \<notin> set (m_current_response t)"
  shows "length (m_current_response t) < length (m_data t)"
proof -
  have "set (a # m_current_response t) \<subseteq> fst ` set (m_data t)"
    using assms by (auto simp: wf_mshr_def mshr_probe_def map_of_None_iff)
  then have "card (set (a # m_current_response t)) \<le> card (fst ` set (m_data t))"
    by (rule card_mono [rotated]) simp
  also have "\<dots> \<le> length (m_data t)" using card_length [of "map fst (m_data t)"] by simp
  finally show ?thesis using assms by (simp add: wf_mshr_def distinct_card)
qed

lemma mark_ready_Some:
  assumes "wf_mshr t" and "mshr_probe t a" and "a \<notin> set (m_current_response t)"
  shows "\<exists>e. map_of (m_data t) a = Some e \<and> mark_ready t a =
    Some (m_has_atomic e, t\<lparr>m_current_response := m_current_response t @ [a]\<rparr>) \<and>
    wf_mshr (t\<lparr>m_current_response := m_current_response t @ [a]\<rparr>)"
  using assms response_bound [OF assms]
  by (auto simp: mark_ready_def mshr_probe_def wf_mshr_def)

lemma next_step:
  assumes "wf_mshr t" and "m_current_response t = a # rest"
  shows "\<exists>p t'. next_access t = Some (p, t') \<and> wf_mshr t' \<and> m_max_merged t' = m_max_merged t"
  by (rule next_access_Some [OF assms]) (intro exI conjI)

interpretation mshr: live_system mshr_step mshr_inv mshr_ok
proof unfold_locales
  fix t e t'
  assume inv: "mshr_inv t" and ok: "mshr_ok t e" and st: "mshr_step t e = Some t'"
  show "mshr_inv t'"
  proof (cases e)
    case (Mshr_add a p atomic)
    with inv ok st mshr_add_ok [of t a p atomic] show ?thesis
      by (auto simp: mshr_inv_def dest!: add_Some)
  next
    case (Mshr_ready a)
    with inv ok st mark_ready_Some [of t a] show ?thesis by (auto simp: mshr_inv_def)
  next
    case Mshr_next
    then obtain a rest where r: "m_current_response t = a # rest"
      using ok by (auto simp: access_ready_def neq_Nil_conv)
    have "wf_mshr t" using inv by (simp add: mshr_inv_def)
    from next_step [OF this r] obtain p t1 where "next_access t = Some (p, t1)" "wf_mshr t1"
      "m_max_merged t1 = m_max_merged t" by blast
    with inv st Mshr_next show ?thesis by (simp add: mshr_inv_def)
  qed
next
  fix t e
  assume inv: "mshr_inv t" and ok: "mshr_ok t e"
  show "mshr_step t e \<noteq> None"
  proof (cases e)
    case (Mshr_add a p atomic)
    with inv ok mshr_add_ok [of t a p atomic] show ?thesis by (auto simp: mshr_inv_def)
  next
    case (Mshr_ready a)
    with inv ok mark_ready_Some [of t a] show ?thesis by (auto simp: mshr_inv_def)
  next
    case Mshr_next
    then obtain a rest where r: "m_current_response t = a # rest"
      using ok by (auto simp: access_ready_def neq_Nil_conv)
    have "wf_mshr t" using inv by (simp add: mshr_inv_def)
    from next_step [OF this r] obtain p t1 where "next_access t = Some (p, t1)" by blast
    with Mshr_next show ?thesis by simp
  qed
qed

text \<open>
  C27: a cache that follows the protocol (add only when not full, answer each pending block once, take
  requests only when one is ready) never trips an assertion of the table, however its calls interleave,
  and the table stays within its configured numbers of entries and merged requests.
\<close>

theorem mshr_never_asserts:
  assumes "0 < k" and "mshr.run_ok (mshr_table_new n k) es"
  shows "\<exists>t. run mshr_step (mshr_table_new n k) es = Some t \<and> wf_mshr t"
proof -
  have "mshr_inv (mshr_table_new n k)"
    using assms(1) wf_mshr_new by (simp add: mshr_inv_def mshr_table_new_def)
  from mshr.run_live [OF this assms(2)] show ?thesis by (auto simp: mshr_inv_def)
qed

lemma mshr_never_asserts_witness:
  "\<exists>t. run mshr_step (mshr_table_new 2 2) [Mshr_add 64 1 False, Mshr_add 64 2 True, Mshr_ready 64, Mshr_next, Mshr_next] = Some t \<and> wf_mshr t"
proof (rule mshr_never_asserts)
  show "mshr.run_ok (mshr_table_new 2 2) [Mshr_add 64 1 False, Mshr_add 64 2 True, Mshr_ready 64, Mshr_next, Mshr_next]"
    by (simp add: mshr_table_new_def mshr_full_def mshr_add_def put_entry_def entry_at_def mshr_entry_new_def
        mshr_probe_def mark_ready_def access_ready_def next_access_def)
qed simp

end
