(* ===== verification/Baseline_Cache.thy ===== *)
theory Baseline_Cache
  imports Tag_Array Mshr_Table Cache_Stats
begin

text \<open>
  \<^verbatim>\<open>baseline_cache\<close> of \<^verbatim>\<open>src/gpgpu-sim/gpu-cache.cc\<close>: the state that the read-only and the data cache
  share, its ports, its miss queue, the requests to the next level and the fills. The state
  holds everything the methods read or write: the tag array (whose configuration is \<^verbatim>\<open>m_config\<close>), the
  MSHR table, the miss queue and \<^verbatim>\<open>m_extra_mf_fields\<close> (keyed by request pointer), the statistics, the
  port occupation, and the request heap with its allocators. A method that asserts or aborts is
  \<open>None\<close>; references are returned. The unused index \<^verbatim>\<open>(unsigned)-1\<close> is \<open>NO_INDEX\<close>.
\<close>

section \<open>State\<close>

record extra_mf_fields =
  x_valid :: bool
  x_block_addr :: u64
  x_addr :: u64
  x_cache_index :: nat
  x_data_size :: nat
  pending_read :: u32

definition extra_mf_fields_new :: "u64 \<Rightarrow> u64 \<Rightarrow> nat \<Rightarrow> nat \<Rightarrow> cache_config \<Rightarrow> extra_mf_fields" where
  "extra_mf_fields_new a ad i d c = \<lparr>x_valid = True, x_block_addr = a, x_addr = ad, x_cache_index = i,
     x_data_size = d,
     pending_read = (if m_mshr_type c = SECTOR_ASSOC then of_nat (m_line_sz c div SECTOR_SIZE) else 0)\<rparr>"

record data_cache =
  tags :: tag_array
  mshrs :: mshr_table
  miss_queue :: "nat list"
  miss_queue_status :: mem_fetch_status
  extra_fields :: "(nat \<times> extra_mf_fields) list"
  stats :: cache_stats
  data_port_occupied_cycles :: nat
  fill_port_occupied_cycles :: nat
  wr_alloc_type :: mem_access_type
  wrbk_type :: mem_access_type
  mf_creator :: "(nat \<times> nat) option"
  mem_config :: memory_config
  heap :: mf_heap
  sim_cycle :: u64

abbreviation config :: "data_cache \<Rightarrow> cache_config" where
  "config dc \<equiv> ta_config (tags dc)"

abbreviation (input) NO_INDEX :: nat where "NO_INDEX \<equiv> 4294967295"
abbreviation (input) UINT_MAX :: nat where "UINT_MAX \<equiv> 4294967295"

definition get_mf :: "data_cache \<Rightarrow> nat \<Rightarrow> mem_fetch option" where
  "get_mf dc p = mfs (heap dc) p"

definition set_mf :: "data_cache \<Rightarrow> nat \<Rightarrow> mem_fetch \<Rightarrow> data_cache" where
  "set_mf dc p mf = dc\<lparr>heap := put_mf (heap dc) p mf\<rparr>"

definition miss_queue_full :: "data_cache \<Rightarrow> nat \<Rightarrow> bool" where
  "miss_queue_full dc num_miss = (m_miss_queue_size (config dc) \<le> length (miss_queue dc) + num_miss)"

section \<open>Statistics\<close>

definition count_stat :: "data_cache \<Rightarrow> mem_fetch \<Rightarrow> cache_request_status \<Rightarrow> data_cache option" where
  "count_stat dc mf st = do {
     s \<leftarrow> inc_stats (stats dc) (int (access_code (get_access_type mf))) (int (status_code st)) (mf_streamID mf);
     Some (dc\<lparr>stats := s\<rparr>) }"

definition count_stat_pw :: "data_cache \<Rightarrow> mem_fetch \<Rightarrow> cache_request_status \<Rightarrow> data_cache option" where
  "count_stat_pw dc mf st = do {
     s \<leftarrow> inc_stats_pw (stats dc) (int (access_code (get_access_type mf))) (int (status_code st)) (mf_streamID mf);
     Some (dc\<lparr>stats := s\<rparr>) }"

definition count_fail :: "data_cache \<Rightarrow> mem_fetch \<Rightarrow> cache_reservation_fail_reason \<Rightarrow> data_cache option" where
  "count_fail dc mf r = do {
     s \<leftarrow> inc_fail_stats (stats dc) (int (access_code (get_access_type mf))) (int (fail_code r)) (mf_streamID mf);
     Some (dc\<lparr>stats := s\<rparr>) }"

section \<open>Bandwidth\<close>

definition use_data_port ::
  "data_cache \<Rightarrow> mem_fetch \<Rightarrow> cache_request_status \<Rightarrow> cache_event list \<Rightarrow> data_cache option" where
  "use_data_port dc mf outcome events =
     (let data_size = mf_data_size mf; port_width = m_data_port_width (config dc) in
      case outcome of
        HIT \<Rightarrow> Some (dc\<lparr>data_port_occupied_cycles := data_port_occupied_cycles dc +
          (data_size div port_width + (if data_size mod port_width > 0 then 1 else 0))\<rparr>)
      | HIT_RESERVED \<Rightarrow> Some (let (sent, ev) = was_writeback_sent events (cache_event1 WRITE_BACK_REQUEST_SENT) in
          if sent then dc\<lparr>data_port_occupied_cycles := data_port_occupied_cycles dc +
            ev_modified_size (m_evicted_block ev) div port_width\<rparr> else dc)
      | MISS \<Rightarrow> Some (let (sent, ev) = was_writeback_sent events (cache_event1 WRITE_BACK_REQUEST_SENT) in
          if sent then dc\<lparr>data_port_occupied_cycles := data_port_occupied_cycles dc +
            ev_modified_size (m_evicted_block ev) div port_width\<rparr> else dc)
      | SECTOR_MISS \<Rightarrow> Some dc
      | RESERVATION_FAIL \<Rightarrow> Some dc
      | MSHR_HIT \<Rightarrow> None)"

definition use_fill_port :: "data_cache \<Rightarrow> data_cache" where
  "use_fill_port dc = dc\<lparr>fill_port_occupied_cycles := fill_port_occupied_cycles dc +
     m_atom_sz (config dc) div m_data_port_width (config dc)\<rparr>"

definition replenish_port_bandwidth :: "data_cache \<Rightarrow> data_cache" where
  "replenish_port_bandwidth dc =
     (let dc = (if data_port_occupied_cycles dc > 0
                then dc\<lparr>data_port_occupied_cycles := data_port_occupied_cycles dc - 1\<rparr> else dc)
      in if fill_port_occupied_cycles dc > 0
         then dc\<lparr>fill_port_occupied_cycles := fill_port_occupied_cycles dc - 1\<rparr> else dc)"

definition data_port_free :: "data_cache \<Rightarrow> bool" where
  "data_port_free dc = (data_port_occupied_cycles dc = 0)"

definition fill_port_free :: "data_cache \<Rightarrow> bool" where
  "fill_port_free dc = (fill_port_occupied_cycles dc = 0)"

text \<open>
  One cycle. \<open>memport_full\<close> is the answer of the port's \<^verbatim>\<open>full(size, is_write)\<close>; the request handed
  to \<^verbatim>\<open>push\<close> is returned.
\<close>

definition cache_cycle :: "(nat \<Rightarrow> bool \<Rightarrow> bool) \<Rightarrow> data_cache \<Rightarrow> (nat option \<times> data_cache) option" where
  "cache_cycle memport_full dc = do {
     (pushed, dc) \<leftarrow> (case miss_queue dc of
         [] \<Rightarrow> Some (None, dc)
       | p # ps \<Rightarrow> do {
           mf \<leftarrow> get_mf dc p;
           Some (if \<not> memport_full (mf_size mf) (is_write mf) then (Some p, dc\<lparr>miss_queue := ps\<rparr>) else (None, dc)) });
     let data_port_busy = \<not> data_port_free dc;
     let fill_port_busy = \<not> fill_port_free dc;
     let dc = dc\<lparr>stats := sample_cache_port_utility (stats dc) data_port_busy fill_port_busy\<rparr>;
     Some (pushed, replenish_port_bandwidth dc) }"

section \<open>Blocks\<close>

definition update_block :: "data_cache \<Rightarrow> nat \<Rightarrow> (cache_block \<Rightarrow> cache_block option) \<Rightarrow> data_cache option" where
  "update_block dc i f = do {
     guard (i < length (m_lines (tags dc)));
     b \<leftarrow> f (m_lines (tags dc) ! i);
     Some (dc\<lparr>tags := set_line (tags dc) i b\<rparr>) }"

text \<open>
  \<^verbatim>\<open>if (!block->is_modified_line()) inc_dirty(); block->set_status(MODIFIED, mask); block->set_byte_mask(mf)\<close>.
\<close>

definition write_block :: "data_cache \<Rightarrow> nat \<Rightarrow> mem_fetch \<Rightarrow> data_cache option" where
  "write_block dc i mf = do {
     ta \<leftarrow> mark_modified (tags dc) i (get_access_sector_mask mf);
     update_block (dc\<lparr>tags := ta\<rparr>) i (\<lambda>b. Some (set_byte_mask b (get_access_byte_mask mf))) }"

text \<open>The tag access without eviction; \<^verbatim>\<open>cache_index\<close> is overwritten when \<^verbatim>\<open>probe\<close> writes it.\<close>

definition touch_tags :: "data_cache \<Rightarrow> u64 \<Rightarrow> u32 \<Rightarrow> nat \<Rightarrow> mem_fetch \<Rightarrow> (cache_request_status \<times> nat \<times> data_cache) option" where
  "touch_tags dc addr time cache_index mf = do {
     (st, idx, ta) \<leftarrow> access_no_wb (tags dc) addr time mf;
     Some (st, (case idx of None \<Rightarrow> cache_index | Some i \<Rightarrow> i), dc\<lparr>tags := ta\<rparr>) }"

definition access_tags ::
  "data_cache \<Rightarrow> u64 \<Rightarrow> u32 \<Rightarrow> nat \<Rightarrow> bool \<Rightarrow> evicted_block_info \<Rightarrow> mem_fetch \<Rightarrow>
   (cache_request_status \<times> nat \<times> bool \<times> evicted_block_info \<times> data_cache) option" where
  "access_tags dc addr time cache_index wb evicted mf = do {
     (st, idx, ta, wb, evicted) \<leftarrow> access (tags dc) addr time wb evicted mf;
     Some (st, (case idx of None \<Rightarrow> cache_index | Some i \<Rightarrow> i), wb, evicted, dc\<lparr>tags := ta\<rparr>) }"

section \<open>Requests to the next level\<close>

text \<open>The result: \<^verbatim>\<open>do_miss\<close>, \<^verbatim>\<open>wb\<close>, \<^verbatim>\<open>evicted\<close>, the events and the state.\<close>

definition send_read_request ::
  "data_cache \<Rightarrow> u64 \<Rightarrow> nat \<Rightarrow> nat \<Rightarrow> u32 \<Rightarrow> cache_event list \<Rightarrow> bool \<Rightarrow> bool \<Rightarrow>
   (bool \<times> bool \<times> evicted_block_info \<times> cache_event list \<times> data_cache) option" where
  "send_read_request dc baddr cache_index p time events read_only wa = do {
     mf \<leftarrow> get_mf dc p;
     let a = mshr_addr (config dc) (get_addr mf);
     let mshr_hit = mshr_probe (mshrs dc) a;
     let mshr_avail = \<not> mshr_full (mshrs dc) a;
     (if mshr_hit \<and> mshr_avail then do {
        (_, cache_index, wb, evicted, dc) \<leftarrow> (if read_only
           then do { (st, i, dc) \<leftarrow> touch_tags dc baddr time cache_index mf;
                     Some (st, i, False, evicted_block_info_init, dc) }
           else access_tags dc baddr time cache_index False evicted_block_info_init mf);
        m \<leftarrow> mshr_add (mshrs dc) a p (isatomic mf);
        dc \<leftarrow> count_stat (dc\<lparr>mshrs := m\<rparr>) mf MSHR_HIT;
        Some (True, wb, evicted, events, dc) }
      else if \<not> mshr_hit \<and> mshr_avail \<and> length (miss_queue dc) < m_miss_queue_size (config dc) then do {
        (_, cache_index, wb, evicted, dc) \<leftarrow> (if read_only
           then do { (st, i, dc) \<leftarrow> touch_tags dc baddr time cache_index mf;
                     Some (st, i, False, evicted_block_info_init, dc) }
           else access_tags dc baddr time cache_index False evicted_block_info_init mf);
        m \<leftarrow> mshr_add (mshrs dc) a p (isatomic mf);
        let x = extra_mf_fields_new a (get_addr mf) cache_index (mf_data_size mf) (config dc);
        let mf' = set_mf_status (set_addr (mf\<lparr>mf_data_size := m_atom_sz (config dc)\<rparr>) a) (miss_queue_status dc) (ucast time);
        let dc = (set_mf dc p mf')\<lparr>mshrs := m, extra_fields := AList.update p x (extra_fields dc),
                   miss_queue := miss_queue dc @ [p]\<rparr>;
        Some (True, wb, evicted, (if \<not> wa then events @ [cache_event1 READ_REQUEST_SENT] else events), dc) }
      else if mshr_hit \<and> \<not> mshr_avail then do {
        dc \<leftarrow> count_fail dc mf MSHR_MERGE_ENRTY_FAIL;
        Some (False, False, evicted_block_info_init, events, dc) }
      else if \<not> mshr_hit \<and> \<not> mshr_avail then do {
        dc \<leftarrow> count_fail dc mf MSHR_ENRTY_FAIL;
        Some (False, False, evicted_block_info_init, events, dc) }
      else None) }"

section \<open>Fills\<close>

text \<open>The part of \<^verbatim>\<open>fill\<close> after the reassembly of sector requests.\<close>

definition fill_request :: "data_cache \<Rightarrow> nat \<Rightarrow> u32 \<Rightarrow> data_cache option" where
  "fill_request dc p time = do {
     x \<leftarrow> map_of (extra_fields dc) p;
     guard (x_valid x);
     mf \<leftarrow> get_mf dc p;
     let mf = set_addr (mf\<lparr>mf_data_size := x_data_size x\<rparr>) (x_addr x);
     let dc = set_mf dc p mf;
     ta \<leftarrow> (case m_alloc_policy (config dc) of
         ON_MISS \<Rightarrow> fill_index (tags dc) (x_cache_index x) time mf
       | ON_FILL \<Rightarrow> fill_addr (tags dc) (x_block_addr x) time mf (is_write mf)
       | STREAMING \<Rightarrow> None);
     (has_atomic, m) \<leftarrow> mark_ready (mshrs dc) (x_block_addr x);
     let dc = dc\<lparr>tags := ta, mshrs := m\<rparr>;
     dc \<leftarrow> (if has_atomic then do {
         guard (m_alloc_policy (config dc) = ON_MISS);
         write_block dc (x_cache_index x) mf } else Some dc);
     Some (use_fill_port (dc\<lparr>extra_fields := AList.delete p (extra_fields dc)\<rparr>)) }"

text \<open>
  A \<^verbatim>\<open>SECTOR_ASSOC\<close> cache receives its block in sector replies; all but the last only count down.
\<close>

definition cache_fill :: "data_cache \<Rightarrow> nat \<Rightarrow> u32 \<Rightarrow> data_cache option" where
  "cache_fill dc p time =
     (if m_mshr_type (config dc) = SECTOR_ASSOC then do {
        mf \<leftarrow> get_mf dc p;
        orig \<leftarrow> mf_original_mf mf;
        x \<leftarrow> map_of (extra_fields dc) orig;
        let x = x\<lparr>pending_read := pending_read x - 1\<rparr>;
        let dc = dc\<lparr>extra_fields := AList.update orig x (extra_fields dc), heap := delete_mf (heap dc) p\<rparr>;
        (if pending_read x > 0 then Some dc else fill_request dc orig time) }
      else fill_request dc p time)"

definition waiting_for_fill :: "data_cache \<Rightarrow> nat \<Rightarrow> bool" where
  "waiting_for_fill dc p = (map_of (extra_fields dc) p \<noteq> None)"

section \<open>The rest of the interface\<close>

definition baseline_new ::
  "cache_config \<Rightarrow> (u64 \<Rightarrow> nat option) \<Rightarrow> mem_fetch_status \<Rightarrow> mem_access_type \<Rightarrow> mem_access_type \<Rightarrow>
   (nat \<times> nat) option \<Rightarrow> memory_config \<Rightarrow> mf_heap \<Rightarrow> u64 \<Rightarrow> data_cache option" where
  "baseline_new c idx status wr_alloc wrbk creator mc h cycle = do {
     guard (m_mshr_type c = ASSOC \<or> m_mshr_type c = SECTOR_ASSOC);
     Some \<lparr>tags = tag_array_new c idx, mshrs = mshr_table_new (m_mshr_entries c) (m_mshr_max_merge c),
       miss_queue = [], miss_queue_status = status, extra_fields = [], stats = cache_stats_new,
       data_port_occupied_cycles = 0, fill_port_occupied_cycles = 0, wr_alloc_type = wr_alloc,
       wrbk_type = wrbk, mf_creator = creator, mem_config = mc, heap = h, sim_cycle = cycle\<rparr> }"

definition cache_update_parameters :: "data_cache \<Rightarrow> cache_config \<Rightarrow> data_cache option" where
  "cache_update_parameters dc c = do {
     let dc = dc\<lparr>tags := update_cache_parameters (tags dc) c\<rparr>;
     check_mshr_parameters (mshrs dc) (m_mshr_entries c) (m_mshr_max_merge c);
     Some dc }"

definition cache_access_ready :: "data_cache \<Rightarrow> bool" where
  "cache_access_ready dc = access_ready (mshrs dc)"

definition cache_next_access :: "data_cache \<Rightarrow> (nat \<times> data_cache) option" where
  "cache_next_access dc = do {
     (p, m) \<leftarrow> next_access (mshrs dc);
     Some (p, dc\<lparr>mshrs := m\<rparr>) }"

definition cache_flush :: "data_cache \<Rightarrow> data_cache option" where
  "cache_flush dc = do { ta \<leftarrow> flush (tags dc); Some (dc\<lparr>tags := ta\<rparr>) }"

definition cache_invalidate :: "data_cache \<Rightarrow> data_cache option" where
  "cache_invalidate dc = do { ta \<leftarrow> invalidate (tags dc); Some (dc\<lparr>tags := ta\<rparr>) }"

text \<open>\<^verbatim>\<open>memcpy\<close> from the host marks the block as present; the byte mask is empty.\<close>

definition force_tag_access :: "data_cache \<Rightarrow> u64 \<Rightarrow> u32 \<Rightarrow> sector_mask \<Rightarrow> data_cache option" where
  "force_tag_access dc addr time smask = do {
     ta \<leftarrow> fill_addr_mask (tags dc) addr time smask 0 True;
     Some (dc\<lparr>tags := ta\<rparr>) }"

end
