(* ===== verification/Data_Cache.thy ===== *)
theory Data_Cache
  imports Baseline_Cache
begin

text \<open>
  \<^verbatim>\<open>read_only_cache\<close> and \<^verbatim>\<open>data_cache\<close> of \<^verbatim>\<open>src/gpgpu-sim/gpu-cache.cc\<close>: the write-hit policies
  (write-back, write-through, write-evict, local write-back/global write-evict), the write-miss
  policies (no allocate, naive allocate, fetch on write, lazy fetch on read), the read policies, the
  dispatch on the outcome of the tag probe, and \<^verbatim>\<open>access\<close>. \<^verbatim>\<open>l1_cache::access\<close> and
  \<^verbatim>\<open>l2_cache::access\<close> call \<^verbatim>\<open>data_cache::access\<close>.

  Every policy has the type \<open>handler\<close>: it returns the access outcome, the events and the cache.
\<close>

type_synonym handler = "data_cache \<Rightarrow> u64 \<Rightarrow> nat \<Rightarrow> nat \<Rightarrow> u32 \<Rightarrow> cache_event list \<Rightarrow> cache_request_status \<Rightarrow>
  (cache_request_status \<times> cache_event list \<times> data_cache) option"

section \<open>Shared steps\<close>

definition sector_all_set :: "byte_mask \<Rightarrow> nat \<Rightarrow> bool" where
  "sector_all_set bm i = (\<forall>k \<in> set [i * SECTOR_SIZE ..< (i + 1) * SECTOR_SIZE]. bit bm k)"

fun update_readable_from :: "data_cache \<Rightarrow> mem_fetch \<Rightarrow> nat \<Rightarrow> nat list \<Rightarrow> data_cache option" where
  "update_readable_from dc mf cache_index [] = Some dc"
| "update_readable_from dc mf cache_index (i # is) = do {
     dc \<leftarrow> (if bit (get_access_sector_mask mf) i \<and>
              sector_all_set (get_dirty_byte_mask (m_lines (tags dc) ! cache_index)) i
            then update_block dc cache_index (\<lambda>b. set_m_readable b True (get_access_sector_mask mf))
            else Some dc);
     update_readable_from dc mf cache_index is }"

definition update_m_readable :: "data_cache \<Rightarrow> mem_fetch \<Rightarrow> nat \<Rightarrow> data_cache option" where
  "update_m_readable dc mf cache_index = do {
     guard (cache_index < length (m_lines (tags dc)));
     update_readable_from dc mf cache_index [0, 1, 2, 3] }"

definition send_write_request ::
  "data_cache \<Rightarrow> nat \<Rightarrow> cache_event \<Rightarrow> u32 \<Rightarrow> cache_event list \<Rightarrow> (cache_event list \<times> data_cache) option" where
  "send_write_request dc p request time events = do {
     mf \<leftarrow> get_mf dc p;
     let dc = (set_mf dc p (set_mf_status mf (miss_queue_status dc) (ucast time)))\<lparr>miss_queue := miss_queue dc @ [p]\<rparr>;
     Some (events @ [request], dc) }"

text \<open>The write-back request for an evicted block, sent to the partition of the request that evicts it.\<close>

definition send_writeback ::
  "data_cache \<Rightarrow> mem_fetch \<Rightarrow> evicted_block_info \<Rightarrow> cache_event \<Rightarrow> u32 \<Rightarrow> cache_event list \<Rightarrow>
   (cache_event list \<times> data_cache) option" where
  "send_writeback dc mf evicted request time events = do {
     (wb, h) \<leftarrow> mf_alloc (mf_creator dc) (mem_config dc) (heap dc) (ev_block_addr evicted) (wrbk_type dc)
        (get_access_warp_mask mf) (ev_byte_mask evicted) (ev_sector_mask evicted) (ev_modified_size evicted) True
        (sim_cycle dc) UINT_MAX UINT_MAX UINT_MAX None (mf_streamID mf);
     wmf \<leftarrow> mfs h wb;
     let h = put_mf h wb (wmf\<lparr>mf_chip := mf_chip mf, mf_sub_partition := mf_sub_partition mf\<rparr>);
     send_write_request (dc\<lparr>heap := h\<rparr>) wb request time events }"

text \<open>The read request that fetches the rest of a written block.\<close>

definition new_alloc_read :: "data_cache \<Rightarrow> mem_fetch \<Rightarrow> nat option \<Rightarrow> (nat \<times> data_cache) option" where
  "new_alloc_read dc mf original_wr_mf = do {
     let (ma, uid) = mem_access_new (sm_next_access_uid (heap dc)) (wr_alloc_type dc) (get_addr mf)
        (m_atom_sz (config dc)) False (get_access_warp_mask mf) (get_access_byte_mask mf) (get_access_sector_mask mf);
     (n, h) \<leftarrow> mem_fetch_new ((heap dc)\<lparr>sm_next_access_uid := uid\<rparr>) ma None (mf_streamID mf) (mf_ctrl_size mf)
        (mf_wid mf) (mf_sid mf) (mf_tpc mf) (mem_config dc) (sim_cycle dc) None original_wr_mf;
     Some (n, dc\<lparr>heap := h\<rparr>) }"

text \<open>\<^verbatim>\<open>if (wb && (m_config.m_write_policy != WRITE_THROUGH))\<close> and its body.\<close>

definition writeback_evicted ::
  "data_cache \<Rightarrow> mem_fetch \<Rightarrow> bool \<Rightarrow> evicted_block_info \<Rightarrow> cache_event \<Rightarrow> u32 \<Rightarrow> cache_event list \<Rightarrow>
   (cache_event list \<times> data_cache) option" where
  "writeback_evicted dc mf wb evicted request time events =
     (if wb \<and> m_write_policy (config dc) \<noteq> WRITE_THROUGH
      then send_writeback dc mf evicted request time events else Some (events, dc))"

definition reservation_fail ::
  "data_cache \<Rightarrow> mem_fetch \<Rightarrow> cache_reservation_fail_reason \<Rightarrow> cache_event list \<Rightarrow>
   (cache_request_status \<times> cache_event list \<times> data_cache) option" where
  "reservation_fail dc mf r events = do { dc \<leftarrow> count_fail dc mf r; Some (RESERVATION_FAIL, events, dc) }"

text \<open>
  The resource check of the allocating write misses, which need \<open>num\<close> places in the miss queue: the
  inner \<open>None\<close> lets the request proceed, the outer one is \<^verbatim>\<open>assert(0)\<close>.
\<close>

definition write_allocate_blocked ::
  "data_cache \<Rightarrow> nat \<Rightarrow> u64 \<Rightarrow> cache_reservation_fail_reason option option" where
  "write_allocate_blocked dc num a =
     (let mshr_hit = mshr_probe (mshrs dc) a; mshr_avail = \<not> mshr_full (mshrs dc) a in
      if miss_queue_full dc num \<or>
         (\<not> (mshr_hit \<and> mshr_avail) \<and>
          \<not> (\<not> mshr_hit \<and> mshr_avail \<and> length (miss_queue dc) < m_miss_queue_size (config dc)))
      then if miss_queue_full dc num then Some (Some MISS_QUEUE_FULL)
        else if mshr_hit \<and> \<not> mshr_avail then Some (Some MSHR_MERGE_ENRTY_FAIL)
        else if \<not> mshr_hit \<and> \<not> mshr_avail then Some (Some MSHR_ENRTY_FAIL)
        else None
      else Some None)"

section \<open>Write hits\<close>

definition wr_hit_wb :: handler where
  "wr_hit_wb dc addr cache_index p time events st = do {
     mf \<leftarrow> get_mf dc p;
     (_, i, dc) \<leftarrow> touch_tags dc (block_addr (config dc) addr) time cache_index mf;
     dc \<leftarrow> write_block dc i mf;
     dc \<leftarrow> update_m_readable dc mf i;
     Some (HIT, events, dc) }"

definition wr_hit_wt :: handler where
  "wr_hit_wt dc addr cache_index p time events st = do {
     mf \<leftarrow> get_mf dc p;
     (if miss_queue_full dc 0 then reservation_fail dc mf MISS_QUEUE_FULL events
      else do {
        (_, i, dc) \<leftarrow> touch_tags dc (block_addr (config dc) addr) time cache_index mf;
        dc \<leftarrow> write_block dc i mf;
        dc \<leftarrow> update_m_readable dc mf i;
        (events, dc) \<leftarrow> send_write_request dc p (cache_event1 WRITE_REQUEST_SENT) time events;
        Some (HIT, events, dc) }) }"

definition wr_hit_we :: handler where
  "wr_hit_we dc addr cache_index p time events st = do {
     mf \<leftarrow> get_mf dc p;
     (if miss_queue_full dc 0 then reservation_fail dc mf MISS_QUEUE_FULL events
      else do {
        (events, dc) \<leftarrow> send_write_request dc p (cache_event1 WRITE_REQUEST_SENT) time events;
        dc \<leftarrow> update_block dc cache_index (\<lambda>b. set_status b INVALID (get_access_sector_mask mf));
        Some (HIT, events, dc) }) }"

definition wr_hit_global_we_local_wb :: handler where
  "wr_hit_global_we_local_wb dc addr cache_index p time events st = do {
     mf \<leftarrow> get_mf dc p;
     (if get_access_type mf = GLOBAL_ACC_W then wr_hit_we dc addr cache_index p time events st
      else wr_hit_wb dc addr cache_index p time events st) }"

section \<open>Write misses\<close>

definition wr_miss_wa_naive :: handler where
  "wr_miss_wa_naive dc addr cache_index p time events st = do {
     mf \<leftarrow> get_mf dc p;
     blocked \<leftarrow> write_allocate_blocked dc 2 (mshr_addr (config dc) (get_addr mf));
     (case blocked of Some r \<Rightarrow> reservation_fail dc mf r events
      | None \<Rightarrow> do {
        (events, dc) \<leftarrow> send_write_request dc p (cache_event1 WRITE_REQUEST_SENT) time events;
        (n, dc) \<leftarrow> new_alloc_read dc mf None;
        (do_miss, wb, evicted, events, dc) \<leftarrow>
          send_read_request dc (block_addr (config dc) addr) cache_index n time events False True;
        let events = events @ [cache_event1 WRITE_ALLOCATE_SENT];
        (if do_miss then do {
           guard (wb \<and> m_write_policy (config dc) \<noteq> WRITE_THROUGH \<longrightarrow> st = MISS);
           (events, dc) \<leftarrow> writeback_evicted dc mf wb evicted (cache_event2 WRITE_BACK_REQUEST_SENT evicted) time events;
           Some (MISS, events, dc) }
         else Some (RESERVATION_FAIL, events, dc)) }) }"

text \<open>A write of the whole atom needs no fetch.\<close>

definition fetch_on_write_full :: "data_cache \<Rightarrow> u64 \<Rightarrow> nat \<Rightarrow> mem_fetch \<Rightarrow> u32 \<Rightarrow> cache_event list \<Rightarrow>
   (cache_request_status \<times> cache_event list \<times> data_cache) option" where
  "fetch_on_write_full dc addr cache_index mf time events =
     (if miss_queue_full dc 0 then reservation_fail dc mf MISS_QUEUE_FULL events
      else do {
        (st, i, wb, evicted, dc) \<leftarrow>
          access_tags dc (block_addr (config dc) addr) time cache_index False evicted_block_info_init mf;
        guard (st \<noteq> HIT);
        dc \<leftarrow> write_block dc i mf;
        dc \<leftarrow> (if st = HIT_RESERVED
               then update_block dc i (\<lambda>b. set_ignore_on_fill b True (get_access_sector_mask mf)) else Some dc);
        (if st \<noteq> RESERVATION_FAIL then do {
           (events, dc) \<leftarrow> writeback_evicted dc mf wb evicted (cache_event2 WRITE_BACK_REQUEST_SENT evicted) time events;
           Some (MISS, events, dc) }
         else Some (RESERVATION_FAIL, events, dc)) })"

text \<open>\<^verbatim>\<open>m_mshrs.probe(a) && m_mshrs.is_read_after_write_pending(a) && mf->is_write()\<close>.\<close>

definition raw_blocked :: "data_cache \<Rightarrow> mem_fetch \<Rightarrow> u64 \<Rightarrow> bool \<times> data_cache" where
  "raw_blocked dc mf a =
     (if mshr_probe (mshrs dc) a
      then (let (raw, m) = is_read_after_write_pending (mshrs dc)
                  (\<lambda>q. case get_mf dc q of None \<Rightarrow> False | Some r \<Rightarrow> is_write r) a
            in (raw \<and> is_write mf, dc\<lparr>mshrs := m\<rparr>))
      else (False, dc))"

definition fetch_on_write_partial :: "data_cache \<Rightarrow> u64 \<Rightarrow> nat \<Rightarrow> nat \<Rightarrow> mem_fetch \<Rightarrow> u32 \<Rightarrow> cache_event list \<Rightarrow>
   (cache_request_status \<times> cache_event list \<times> data_cache) option" where
  "fetch_on_write_partial dc addr cache_index p mf time events = do {
     let a = mshr_addr (config dc) (get_addr mf);
     blocked \<leftarrow> write_allocate_blocked dc 1 a;
     (case blocked of Some r \<Rightarrow> reservation_fail dc mf r events
      | None \<Rightarrow> do {
        let (raw, dc) = raw_blocked dc mf a;
        (if raw then reservation_fail dc mf MSHR_RW_PENDING events
         else do {
           (n, dc) \<leftarrow> new_alloc_read dc mf (Some p);
           (do_miss, wb, evicted, events, dc) \<leftarrow>
             send_read_request dc (block_addr (config dc) addr) cache_index n time events False True;
           dc \<leftarrow> update_block dc cache_index (\<lambda>b. do {
             b \<leftarrow> set_modified_on_fill b True (get_access_sector_mask mf);
             Some (set_byte_mask_on_fill b True) });
           let events = events @ [cache_event1 WRITE_ALLOCATE_SENT];
           (if do_miss then do {
              (events, dc) \<leftarrow> writeback_evicted dc mf wb evicted (cache_event2 WRITE_BACK_REQUEST_SENT evicted) time events;
              Some (MISS, events, dc) }
            else Some (RESERVATION_FAIL, events, dc)) }) }) }"

definition wr_miss_wa_fetch_on_write :: handler where
  "wr_miss_wa_fetch_on_write dc addr cache_index p time events st = do {
     mf \<leftarrow> get_mf dc p;
     (if bcount (get_access_byte_mask mf) = m_atom_sz (config dc)
      then fetch_on_write_full dc addr cache_index mf time events
      else fetch_on_write_partial dc addr cache_index p mf time events) }"

text \<open>What the lazy policy does to the block it writes, the tag access having returned \<open>st\<close>.\<close>

definition lazy_write_block :: "data_cache \<Rightarrow> nat \<Rightarrow> mem_fetch \<Rightarrow> cache_request_status \<Rightarrow> data_cache option" where
  "lazy_write_block dc i mf st = do {
     dc \<leftarrow> write_block dc i mf;
     dc \<leftarrow> update_block dc i (\<lambda>b. do {
       b \<leftarrow> (if st = HIT_RESERVED then do {
            b \<leftarrow> set_ignore_on_fill b True (get_access_sector_mask mf);
            b \<leftarrow> set_modified_on_fill b True (get_access_sector_mask mf);
            Some (set_byte_mask_on_fill b True) } else Some b);
       (if bcount (get_access_byte_mask mf) = m_atom_sz (config dc)
        then set_m_readable b True (get_access_sector_mask mf)
        else do {
          b \<leftarrow> set_m_readable b False (get_access_sector_mask mf);
          (if st = HIT_RESERVED then set_readable_on_fill b True (get_access_sector_mask mf) else Some b) }) });
     update_m_readable dc mf i }"

definition wr_miss_wa_lazy_fetch_on_read :: handler where
  "wr_miss_wa_lazy_fetch_on_read dc addr cache_index p time events st = do {
     mf \<leftarrow> get_mf dc p;
     (if miss_queue_full dc 0 then reservation_fail dc mf MISS_QUEUE_FULL events
      else do {
        (events, dc) \<leftarrow> (if m_write_policy (config dc) = WRITE_THROUGH
          then send_write_request dc p (cache_event1 WRITE_REQUEST_SENT) time events else Some (events, dc));
        (m_status, i, wb, evicted, dc) \<leftarrow>
          access_tags dc (block_addr (config dc) addr) time cache_index False evicted_block_info_init mf;
        guard (m_status \<noteq> HIT);
        dc \<leftarrow> lazy_write_block dc i mf m_status;
        (if m_status \<noteq> RESERVATION_FAIL then do {
           (events, dc) \<leftarrow> writeback_evicted dc mf wb evicted (cache_event2 WRITE_BACK_REQUEST_SENT evicted) time events;
           Some (MISS, events, dc) }
         else Some (RESERVATION_FAIL, events, dc)) }) }"

definition wr_miss_no_wa :: handler where
  "wr_miss_no_wa dc addr cache_index p time events st = do {
     mf \<leftarrow> get_mf dc p;
     (if miss_queue_full dc 0 then reservation_fail dc mf MISS_QUEUE_FULL events
      else do {
        (events, dc) \<leftarrow> send_write_request dc p (cache_event1 WRITE_REQUEST_SENT) time events;
        Some (MISS, events, dc) }) }"

section \<open>Reads\<close>

definition rd_hit_base :: handler where
  "rd_hit_base dc addr cache_index p time events st = do {
     mf \<leftarrow> get_mf dc p;
     (_, i, dc) \<leftarrow> touch_tags dc (block_addr (config dc) addr) time cache_index mf;
     dc \<leftarrow> (if isatomic mf then do {
         guard (get_access_type mf = GLOBAL_ACC_R);
         write_block dc i mf } else Some dc);
     Some (HIT, events, dc) }"

definition rd_miss_base :: handler where
  "rd_miss_base dc addr cache_index p time events st = do {
     mf \<leftarrow> get_mf dc p;
     (if miss_queue_full dc 1 then reservation_fail dc mf MISS_QUEUE_FULL events
      else do {
        (do_miss, wb, evicted, events, dc) \<leftarrow>
          send_read_request dc (block_addr (config dc) addr) cache_index p time events False False;
        (if do_miss then do {
           (events, dc) \<leftarrow> writeback_evicted dc mf wb evicted (cache_event1 WRITE_BACK_REQUEST_SENT) time events;
           Some (MISS, events, dc) }
         else Some (RESERVATION_FAIL, events, dc)) }) }"

section \<open>Dispatch\<close>

text \<open>The policies that \<^verbatim>\<open>init\<close> selects; a read-only data cache is refused.\<close>

definition wr_hit :: "cache_config \<Rightarrow> handler option" where
  "wr_hit c = (case m_write_policy c of
     READ_ONLY \<Rightarrow> None
   | WRITE_BACK \<Rightarrow> Some wr_hit_wb
   | WRITE_THROUGH \<Rightarrow> Some wr_hit_wt
   | WRITE_EVICT \<Rightarrow> Some wr_hit_we
   | LOCAL_WB_GLOBAL_WT \<Rightarrow> Some wr_hit_global_we_local_wb)"

definition wr_miss :: "cache_config \<Rightarrow> handler" where
  "wr_miss c = (case m_write_alloc_policy c of
     NO_WRITE_ALLOCATE \<Rightarrow> wr_miss_no_wa
   | WRITE_ALLOCATE \<Rightarrow> wr_miss_wa_naive
   | FETCH_ON_WRITE \<Rightarrow> wr_miss_wa_fetch_on_write
   | LAZY_FETCH_ON_READ \<Rightarrow> wr_miss_wa_lazy_fetch_on_read)"

definition dispatch_probe :: "bool \<Rightarrow> cache_request_status \<Rightarrow> handler" where
  "dispatch_probe wr probe_status dc addr cache_index p time events st = do {
     mf \<leftarrow> get_mf dc p;
     (if wr then
        (if probe_status = HIT then do { h \<leftarrow> wr_hit (config dc); h dc addr cache_index p time events st }
         else if probe_status \<noteq> RESERVATION_FAIL \<or>
             (probe_status = RESERVATION_FAIL \<and> m_write_alloc_policy (config dc) = NO_WRITE_ALLOCATE)
         then wr_miss (config dc) dc addr cache_index p time events st
         else do { dc \<leftarrow> count_fail dc mf LINE_ALLOC_FAIL; Some (probe_status, events, dc) })
      else
        (if probe_status = HIT then rd_hit_base dc addr cache_index p time events st
         else if probe_status \<noteq> RESERVATION_FAIL then rd_miss_base dc addr cache_index p time events st
         else do { dc \<leftarrow> count_fail dc mf LINE_ALLOC_FAIL; Some (probe_status, events, dc) })) }"

definition process_tag_probe :: "bool \<Rightarrow> handler" where
  "process_tag_probe wr dc addr cache_index p time events probe_status = do {
     (access_status, events, dc) \<leftarrow> dispatch_probe wr probe_status dc addr cache_index p time events probe_status;
     mf \<leftarrow> get_mf dc p;
     dc \<leftarrow> use_data_port dc mf access_status events;
     Some (access_status, events, dc) }"

section \<open>Access\<close>

definition count_access ::
  "data_cache \<Rightarrow> mem_fetch \<Rightarrow> cache_request_status \<Rightarrow> cache_request_status \<Rightarrow> data_cache option" where
  "count_access dc mf probe_status access_status = do {
     dc \<leftarrow> count_stat dc mf (select_stats_status probe_status access_status);
     count_stat_pw dc mf (select_stats_status probe_status access_status) }"

definition data_cache_access ::
  "data_cache \<Rightarrow> u64 \<Rightarrow> nat \<Rightarrow> u32 \<Rightarrow> cache_event list \<Rightarrow>
   (cache_request_status \<times> cache_event list \<times> data_cache) option" where
  "data_cache_access dc addr p time events = do {
     mf \<leftarrow> get_mf dc p;
     guard (mf_data_size mf \<le> m_atom_sz (config dc));
     (probe_status, idx) \<leftarrow>
       probe (tags dc) (block_addr (config dc) addr) (get_access_sector_mask mf) (is_write mf);
     (access_status, events, dc) \<leftarrow> process_tag_probe (is_write mf) dc addr
       (case idx of None \<Rightarrow> NO_INDEX | Some i \<Rightarrow> i) p time events probe_status;
     mf \<leftarrow> get_mf dc p;
     dc \<leftarrow> count_access dc mf probe_status access_status;
     Some (access_status, events, dc) }"

definition read_only_access ::
  "data_cache \<Rightarrow> u64 \<Rightarrow> nat \<Rightarrow> u32 \<Rightarrow> cache_event list \<Rightarrow>
   (cache_request_status \<times> cache_event list \<times> data_cache) option" where
  "read_only_access dc addr p time events = do {
     mf \<leftarrow> get_mf dc p;
     guard (mf_data_size mf \<le> m_atom_sz (config dc));
     guard (m_write_policy (config dc) = READ_ONLY);
     guard (\<not> is_write mf);
     (st, idx) \<leftarrow> probe (tags dc) (block_addr (config dc) addr) (get_access_sector_mask mf) (is_write mf);
     let cache_index = (case idx of None \<Rightarrow> NO_INDEX | Some i \<Rightarrow> i);
     (cache_status, events, dc) \<leftarrow>
       (if st = HIT then do {
          (st', _, dc) \<leftarrow> touch_tags dc (block_addr (config dc) addr) time cache_index mf;
          Some (st', events, dc) }
        else if st \<noteq> RESERVATION_FAIL then
          (if \<not> miss_queue_full dc 0 then do {
             (do_miss, _, _, events, dc) \<leftarrow>
               send_read_request dc (block_addr (config dc) addr) cache_index p time events True False;
             Some (if do_miss then MISS else RESERVATION_FAIL, events, dc) }
           else reservation_fail dc mf MISS_QUEUE_FULL events)
        else reservation_fail dc mf LINE_ALLOC_FAIL events);
     mf \<leftarrow> get_mf dc p;
     dc \<leftarrow> count_access dc mf st cache_status;
     Some (cache_status, events, dc) }"

end
