(* ===== verification/Cache_Traffic.thy ===== *)
theory Cache_Traffic
  imports Data_Cache Tag_Properties
begin

text \<open>
  What the accesses of a cache do to its miss queue, its MSHRs and its requests in flight. The relation
  \<open>traffic\<close> lists the elementary moves of the code (write to the tags or the counters, queue a write,
  create a request, ask for a block); every policy of \<open>Data_Cache\<close> is a chain of them, so that an
  invariant proved move by move, by rule induction, holds of all policies.
\<close>

section \<open>Operations that cause no traffic\<close>

definition quiet :: "data_cache \<Rightarrow> data_cache \<Rightarrow> bool" where
  "quiet dc dc' \<longleftrightarrow> mshrs dc' = mshrs dc \<and> extra_fields dc' = extra_fields dc \<and> miss_queue dc' = miss_queue dc \<and>
     heap dc' = heap dc \<and> config dc' = config dc \<and> length (m_lines (tags dc')) = length (m_lines (tags dc)) \<and>
     data_port_occupied_cycles dc' = data_port_occupied_cycles dc \<and>
     fill_port_occupied_cycles dc' = fill_port_occupied_cycles dc"

lemma quiet_refl [simp]: "quiet dc dc"
  by (simp add: quiet_def)

lemma quiet_trans [trans]: "quiet a b \<Longrightarrow> quiet b c \<Longrightarrow> quiet a c"
  by (simp add: quiet_def)

named_theorems quiet_dest

lemma count_quiet [quiet_dest]:
  "count_stat dc mf st = Some dc' \<Longrightarrow> quiet dc dc' \<and> tags dc' = tags dc"
  "count_stat_pw dc mf st = Some dc' \<Longrightarrow> quiet dc dc' \<and> tags dc' = tags dc"
  "count_fail dc mf r = Some dc' \<Longrightarrow> quiet dc dc' \<and> tags dc' = tags dc"
  by (auto simp: count_stat_def count_stat_pw_def count_fail_def quiet_def bind_eq_Some_conv)

lemma count_access_quiet [quiet_dest]:
  "count_access dc mf st st' = Some dc' \<Longrightarrow> quiet dc dc' \<and> tags dc' = tags dc"
  unfolding count_access_def by (auto simp: bind_eq_Some_conv dest!: count_quiet intro: quiet_trans)

lemma set_line_frame [simp]:
  "ta_config (set_line ta i b) = ta_config ta" "length (m_lines (set_line ta i b)) = length (m_lines ta)"
  by (simp_all add: set_line_def)

lemma access_frame:
  "access ta addr time wb ev mf = Some (st, idx, ta', wb', ev') \<Longrightarrow>
    ta_config ta' = ta_config ta \<and> length (m_lines ta') = length (m_lines ta)"
  by (drule access_cases) (auto simp: Let_def split: cache_request_status.splits if_splits
    dest!: access_touch_Some access_miss_Some access_sector_miss_Some [where addr = 0])

lemma access_tags_quiet [quiet_dest]:
  "access_tags dc addr time i wb ev mf = Some (st, j, wb', ev', dc') \<Longrightarrow> quiet dc dc'"
  unfolding access_tags_def by (auto simp: bind_eq_Some_conv quiet_def dest: access_frame)

lemma touch_tags_quiet [quiet_dest]: "touch_tags dc addr time i mf = Some (st, j, dc') \<Longrightarrow> quiet dc dc'"
  unfolding touch_tags_def access_no_wb_def by (auto simp: bind_eq_Some_conv quiet_def dest: access_frame)

lemma update_block_quiet [quiet_dest]: "update_block dc i f = Some dc' \<Longrightarrow> quiet dc dc'"
  by (auto simp: update_block_def bind_eq_Some_conv quiet_def)

lemma write_block_quiet [quiet_dest]: "write_block dc i mf = Some dc' \<Longrightarrow> quiet dc dc'"
  by (auto simp: write_block_def update_block_def mark_modified_def Let_def inc_dirty_def bind_eq_Some_conv quiet_def)

lemma update_readable_from_quiet: "update_readable_from dc mf i is = Some dc' \<Longrightarrow> quiet dc dc'"
proof (induction dc mf i "is" rule: update_readable_from.induct)
  case (2 dc mf i k "is")
  from "2.prems" obtain dc1 where
    a: "(if bit (get_access_sector_mask mf) k \<and> sector_all_set (get_dirty_byte_mask (m_lines (tags dc) ! i)) k
        then update_block dc i (\<lambda>b. set_m_readable b True (get_access_sector_mask mf)) else Some dc) = Some dc1"
    and b: "update_readable_from dc1 mf i is = Some dc'"
    by (auto simp: bind_eq_Some_conv)
  have "quiet dc dc1" using a by (auto split: if_splits dest: update_block_quiet)
  also have "quiet dc1 dc'" using "2.IH" a b by blast
  finally show ?case .
qed simp

lemma update_m_readable_quiet [quiet_dest]: "update_m_readable dc mf i = Some dc' \<Longrightarrow> quiet dc dc'"
  unfolding update_m_readable_def bind_guard_eq_Some by (blast dest: update_readable_from_quiet)

lemma lazy_write_block_quiet [quiet_dest]: "lazy_write_block dc i mf st = Some dc' \<Longrightarrow> quiet dc dc'"
  unfolding lazy_write_block_def bind_eq_Some_conv
  by (elim exE conjE) (blast dest: write_block_quiet update_block_quiet update_m_readable_quiet intro: quiet_trans)

section \<open>The moves\<close>

text \<open>The block index that \<^verbatim>\<open>probe\<close> writes is a line of the cache.\<close>

lemma probe_ways_index:
  "probe_ways ta t m w is v = Some (Inl (st, i)) \<Longrightarrow> i < length (m_lines ta)"
  by (induction "is" arbitrary: v) (auto simp: bind_eq_Some_conv Let_def split: if_splits option.splits)

lemma probe_ways_victim:
  "probe_ways ta t m w is v = Some (Inr v') \<Longrightarrow>
    (\<forall>i. invalid_line v = Some i \<or> valid_line v = Some i \<longrightarrow> i < length (m_lines ta)) \<Longrightarrow>
    (\<forall>i. invalid_line v' = Some i \<or> valid_line v' = Some i \<longrightarrow> i < length (m_lines ta))"
proof (induction "is" arbitrary: v)
  case (Cons k "is")
  let ?b = "m_lines ta ! k"
  from Cons.prems(1) have k: "k < length (m_lines ta)"
    and r: "probe_ways ta t m w is (victim_step ta k ?b v) = Some (Inr v')"
    by (auto simp: bind_eq_Some_conv Let_def split: if_splits option.splits)
  have "\<forall>i. invalid_line (victim_step ta k ?b v) = Some i \<or> valid_line (victim_step ta k ?b v) = Some i \<longrightarrow>
      i < length (m_lines ta)"
    using Cons.prems(2) k by (simp add: victim_step_def Let_def)
  from Cons.IH [OF r this] show ?case .
qed simp

lemma tag_match_status: "tag_match b m w = Some (Some st) \<Longrightarrow> st = HIT \<or> st = HIT_RESERVED \<or> st = SECTOR_MISS"
  by (auto simp: tag_match_def bind_eq_Some_conv split: if_splits)

lemma probe_ways_status:
  "probe_ways ta t m w is v = Some (Inl (st, i)) \<Longrightarrow> st = HIT \<or> st = HIT_RESERVED \<or> st = SECTOR_MISS"
  by (induction "is" arbitrary: v) (auto simp: bind_eq_Some_conv Let_def split: if_splits option.splits dest!: tag_match_status)

lemma choose_Some:
  "(case x of Some i \<Rightarrow> Some (MISS, Some i) | None \<Rightarrow> (case y of Some i \<Rightarrow> Some (MISS, Some i) | None \<Rightarrow> None)) =
    Some (st, idx) \<Longrightarrow> st = MISS \<and> (\<exists>i. idx = Some i \<and> (x = Some i \<or> y = Some i))"
  by (cases x; cases y) auto

lemma probe_shape:
  assumes "probe ta a m w = Some (st, idx)"
  shows "(\<exists>i. idx = Some i \<and> i < length (m_lines ta)) \<and> st \<in> {HIT, HIT_RESERVED, SECTOR_MISS, MISS} \<or>
    idx = None \<and> st = RESERVATION_FAIL"
proof -
  define ws where "ws s = map (\<lambda>way. s * m_assoc (ta_config ta) + way) [0..<m_assoc (ta_config ta)]" for s
  from assms obtain s r where r: "probe_ways ta (tag (ta_config ta) a) m w (ws s) victim_init = Some r"
    and k: "(case r of Inl (st, index) \<Rightarrow> Some (st, Some index)
      | Inr v \<Rightarrow> if all_reserved v then do { guard (m_alloc_policy (ta_config ta) = ON_MISS); Some (RESERVATION_FAIL, None) }
          else (case invalid_line v of Some i \<Rightarrow> Some (MISS, Some i)
            | None \<Rightarrow> (case valid_line v of Some i \<Rightarrow> Some (MISS, Some i) | None \<Rightarrow> None))) = Some (st, idx)"
    unfolding probe_def Let_def bind_eq_Some_conv ws_def by blast
  show ?thesis
  proof (cases r)
    case (Inl x)
    obtain st' i where x: "x = (st', i)" by fastforce
    with k Inl have "st = st'" "idx = Some i" by simp_all
    with r [unfolded Inl x] show ?thesis by (auto dest: probe_ways_index probe_ways_status)
  next
    case (Inr v)
    have v: "\<forall>i. invalid_line v = Some i \<or> valid_line v = Some i \<longrightarrow> i < length (m_lines ta)"
      using probe_ways_victim [OF r [unfolded Inr]] by (simp add: victim_init_def)
    show ?thesis
    proof (cases "all_reserved v")
      case True
      with k Inr show ?thesis by simp
    next
      case False
      with k Inr have "(case invalid_line v of Some i \<Rightarrow> Some (MISS, Some i)
            | None \<Rightarrow> (case valid_line v of Some i \<Rightarrow> Some (MISS, Some i) | None \<Rightarrow> None)) = Some (st, idx)"
        by simp
      from choose_Some [OF this] v show ?thesis by blast
    qed
  qed
qed

lemma probe_index: "probe ta a m w = Some (st, Some i) \<Longrightarrow> i < length (m_lines ta)"
  by (drule probe_shape) simp

text \<open>
  \<open>tag_step\<close> is the tag access of a read request. \<open>queued\<close> is the state after a request for a new block:
  it waits in an MSHR, is remembered in \<^verbatim>\<open>m_extra_mf_fields\<close> and stands in the miss queue.
\<close>

definition tag_step :: "bool \<Rightarrow> data_cache \<Rightarrow> u64 \<Rightarrow> u32 \<Rightarrow> nat \<Rightarrow> mem_fetch \<Rightarrow>
    (cache_request_status \<times> nat \<times> bool \<times> evicted_block_info \<times> data_cache) option" where
  "tag_step read_only dc baddr time i mf = (if read_only
     then do { (st, i, dc) \<leftarrow> touch_tags dc baddr time i mf; Some (st, i, False, evicted_block_info_init, dc) }
     else access_tags dc baddr time i False evicted_block_info_init mf)"

definition queued :: "data_cache \<Rightarrow> nat \<Rightarrow> mem_fetch \<Rightarrow> nat \<Rightarrow> u32 \<Rightarrow> mshr_table \<Rightarrow> data_cache" where
  "queued dc p mf j time m =
     (let a = mshr_addr (config dc) (get_addr mf);
          mf' = set_mf_status (set_addr (mf\<lparr>mf_data_size := m_atom_sz (config dc)\<rparr>) a) (miss_queue_status dc) (ucast time)
      in (set_mf dc p mf')\<lparr>mshrs := m, extra_fields := AList.update p
             (extra_mf_fields_new a (get_addr mf) j (mf_data_size mf) (config dc)) (extra_fields dc),
           miss_queue := miss_queue dc @ [p]\<rparr>)"

lemma tag_step_quiet: "tag_step ro dc baddr time i mf = Some (st, j, wb, ev, dc') \<Longrightarrow> quiet dc dc'"
  unfolding tag_step_def
  by (cases ro) (auto simp: bind_eq_Some_conv dest: touch_tags_quiet access_tags_quiet)

lemma tag_step_index:
  "tag_step ro dc baddr time i mf = Some (st, j, wb, ev, dc') \<Longrightarrow>
    probe (tags dc) baddr (get_access_sector_mask mf) (is_write mf) = Some (st, k) \<and>
    j = (case k of None \<Rightarrow> i | Some i \<Rightarrow> i)" if "probe (tags dc) baddr (get_access_sector_mask mf) (is_write mf) = Some (st', k)"
  using that unfolding tag_step_def touch_tags_def access_tags_def access_no_wb_def
  by (cases ro) (auto simp: bind_eq_Some_conv dest!: access_probe)

lemma send_read_cases:
  assumes "send_read_request dc baddr i p time events ro wa = Some (do_miss, wb, ev, events', dc')"
  obtains (fail) mf r where "get_mf dc p = Some mf" "\<not> do_miss" "\<not> wb" "events' = events"
      "mshr_full (mshrs dc) (mshr_addr (config dc) (get_addr mf))" "count_fail dc mf r = Some dc'"
  | (merge) mf st j dc1 m where "get_mf dc p = Some mf" "do_miss" "events' = events"
      "mshr_probe (mshrs dc) (mshr_addr (config dc) (get_addr mf))"
      "\<not> mshr_full (mshrs dc) (mshr_addr (config dc) (get_addr mf))"
      "tag_step ro dc baddr time i mf = Some (st, j, wb, ev, dc1)"
      "mshr_add (mshrs dc) (mshr_addr (config dc) (get_addr mf)) p (isatomic mf) = Some m"
      "count_stat (dc1\<lparr>mshrs := m\<rparr>) mf MSHR_HIT = Some dc'"
  | (queue) mf st j dc1 m where "get_mf dc p = Some mf" "do_miss"
      "events' = (if \<not> wa then events @ [cache_event1 READ_REQUEST_SENT] else events)"
      "\<not> mshr_probe (mshrs dc) (mshr_addr (config dc) (get_addr mf))"
      "\<not> mshr_full (mshrs dc) (mshr_addr (config dc) (get_addr mf))"
      "length (miss_queue dc) < m_miss_queue_size (config dc)"
      "tag_step ro dc baddr time i mf = Some (st, j, wb, ev, dc1)"
      "mshr_add (mshrs dc) (mshr_addr (config dc) (get_addr mf)) p (isatomic mf) = Some m"
      "dc' = queued dc1 p mf j time m"
proof -
  from assms obtain mf where mf: "get_mf dc p = Some mf" unfolding send_read_request_def by (auto simp: bind_eq_Some_conv)
  let ?a = "mshr_addr (config dc) (get_addr mf)"
  let ?hit = "mshr_probe (mshrs dc) ?a" and ?avail = "\<not> mshr_full (mshrs dc) ?a"
  note r = assms [unfolded send_read_request_def mf bind.bind_lunit Let_def, folded tag_step_def]
  consider "?hit \<and> ?avail" | "\<not> ?hit \<and> ?avail" | "\<not> ?avail" by blast
  then show thesis
  proof cases
    case 1
    from r 1 obtain st j dc1 m where t: "tag_step ro dc baddr time i mf = Some (st, j, wb, ev, dc1)"
      "mshr_add (mshrs dc1) ?a p (isatomic mf) = Some m" "count_stat (dc1\<lparr>mshrs := m\<rparr>) mf MSHR_HIT = Some dc'"
      "do_miss" "events' = events"
      by (auto simp: bind_eq_Some_conv)
    moreover have "mshrs dc1 = mshrs dc" using tag_step_quiet [OF t(1)] by (simp add: quiet_def)
    ultimately show thesis using merge [OF mf] 1 by simp
  next
    case 2
    from r 2 have q: "length (miss_queue dc) < m_miss_queue_size (config dc)" by (auto split: if_splits)
    from r 2 q obtain st j dc1 m where t: "tag_step ro dc baddr time i mf = Some (st, j, wb, ev, dc1)"
      "mshr_add (mshrs dc1) ?a p (isatomic mf) = Some m" "do_miss"
      "events' = (if \<not> wa then events @ [cache_event1 READ_REQUEST_SENT] else events)"
      "dc' = (set_mf dc1 p (set_mf_status (set_addr (mf\<lparr>mf_data_size := m_atom_sz (config dc1)\<rparr>) ?a)
          (miss_queue_status dc1) (ucast time)))
        \<lparr>mshrs := m, extra_fields := AList.update p
          (extra_mf_fields_new ?a (get_addr mf) j (mf_data_size mf) (config dc1)) (extra_fields dc1),
          miss_queue := miss_queue dc1 @ [p]\<rparr>"
      by (auto simp: bind_eq_Some_conv)
    moreover have "mshrs dc1 = mshrs dc" "config dc1 = config dc" using tag_step_quiet [OF t(1)] by (simp_all add: quiet_def)
    ultimately show thesis using queue [OF mf] 2 q by (simp add: queued_def Let_def)
  next
    case 3
    with r obtain r' where "count_fail dc mf r' = Some dc'" "\<not> do_miss" "\<not> wb" "events' = events"
      by (cases ?hit) (auto simp: bind_eq_Some_conv)
    with fail [OF mf] 3 show thesis by blast
  qed
qed

end
