(* ===== verification/Cache_Flight.thy ===== *)
theory Cache_Flight
  imports Cache_Traffic
begin

text \<open>
  The requests in flight of a cache. \<open>flight_ok\<close> relates the MSHRs to \<^verbatim>\<open>m_extra_mf_fields\<close>: every block
  that waits for memory has exactly one request in flight, recorded with the line it will fill, and
  that request is the first one waiting for the block. \<open>traffic\<close> is the step relation of the accesses.
\<close>

declare map_of_eq_Some_iff [simp del] Some_eq_map_of_iff [simp del]

definition flight_entry :: "data_cache \<Rightarrow> nat \<Rightarrow> extra_mf_fields \<Rightarrow> bool" where
  "flight_entry dc p x \<longleftrightarrow> x_valid x \<and> get_mf dc p \<noteq> None \<and> x_cache_index x < length (m_lines (tags dc)) \<and>
     mshr_probe (mshrs dc) (x_block_addr x) \<and> x_block_addr x \<notin> set (m_current_response (mshrs dc)) \<and>
     hd (waiting (mshrs dc) (x_block_addr x)) = p"

definition covered :: "data_cache \<Rightarrow> bool" where
  "covered dc \<longleftrightarrow> (\<forall>a. mshr_probe (mshrs dc) a \<and> a \<notin> set (m_current_response (mshrs dc)) \<longrightarrow>
     (\<exists>p x. map_of (extra_fields dc) p = Some x \<and> x_block_addr x = a))"

definition flight_ok :: "data_cache \<Rightarrow> bool" where
  "flight_ok dc \<longleftrightarrow> wf_heap (heap dc) \<and> wf_mshr (mshrs dc) \<and> distinct (map fst (extra_fields dc)) \<and>
     (\<forall>p x. map_of (extra_fields dc) p = Some x \<longrightarrow> flight_entry dc p x) \<and> covered dc"

text \<open>Two requests in flight never ask for the same block.\<close>

lemma flight_inj:
  "flight_ok dc \<Longrightarrow> map_of (extra_fields dc) p = Some x \<Longrightarrow> map_of (extra_fields dc) q = Some y \<Longrightarrow>
    x_block_addr x = x_block_addr y \<Longrightarrow> p = q"
  unfolding flight_ok_def flight_entry_def by metis

lemma flightD:
  "flight_ok dc \<Longrightarrow> map_of (extra_fields dc) p = Some x \<Longrightarrow> flight_entry dc p x"
  by (simp add: flight_ok_def)

lemma flight_frame:
  assumes "flight_ok dc" and "mshrs dc' = mshrs dc" and "extra_fields dc' = extra_fields dc"
    and "wf_heap (heap dc')" and "\<And>p. get_mf dc p \<noteq> None \<Longrightarrow> get_mf dc' p \<noteq> None"
    and "length (m_lines (tags dc')) = length (m_lines (tags dc))"
  shows "flight_ok dc'"
  using assms by (simp add: flight_ok_def flight_entry_def covered_def)

inductive traffic :: "data_cache \<Rightarrow> nat \<Rightarrow> data_cache \<Rightarrow> bool" where
  Quiet: "quiet a b \<Longrightarrow> traffic a 0 b"
| Port: "traffic dc 0 (dc\<lparr>data_port_occupied_cycles := n\<rparr>)"
| Update: "get_mf dc p = Some mf \<Longrightarrow> traffic dc 0 (set_mf dc p mf')"
| Push: "get_mf dc p = Some mf \<Longrightarrow> traffic dc 1 (dc\<lparr>miss_queue := miss_queue dc @ [p]\<rparr>)"
| New: "n = next_ptr (heap dc) \<Longrightarrow> mfs h = (mfs (heap dc))(n \<mapsto> mf) \<Longrightarrow> next_ptr h = Suc n \<Longrightarrow>
    traffic dc 0 (dc\<lparr>heap := h\<rparr>)"
| Merge: "get_mf dc p = Some mf \<Longrightarrow> mshr_probe (mshrs dc) a \<Longrightarrow> mshr_add (mshrs dc) a p atomic = Some m \<Longrightarrow>
    traffic dc 0 (dc\<lparr>mshrs := m\<rparr>)"
| Queue: "get_mf dc p = Some mf \<Longrightarrow> \<not> waiting_for_fill dc p \<Longrightarrow>
    \<not> mshr_probe (mshrs dc) (mshr_addr (config dc) (get_addr mf)) \<Longrightarrow> j < length (m_lines (tags dc)) \<Longrightarrow>
    mshr_add (mshrs dc) (mshr_addr (config dc) (get_addr mf)) p (isatomic mf) = Some m \<Longrightarrow>
    traffic dc 1 (queued dc p mf j time m)"
| Trans: "traffic a m b \<Longrightarrow> traffic b n c \<Longrightarrow> traffic a (m + n) c"

lemma wf_mshr_add: "wf_mshr t \<Longrightarrow> mshr_add t a p atomic = Some t' \<Longrightarrow> wf_mshr t'"
  by (drule add_Some) (auto simp: wf_mshr_def split: if_splits)

lemma add_waiting: "mshr_add t a p atomic = Some t' \<Longrightarrow>
    waiting t' b = (if b = a then waiting t a @ [p] else waiting t b) \<and>
    (mshr_probe t' b \<longleftrightarrow> b = a \<or> mshr_probe t b) \<and> m_current_response t' = m_current_response t"
  by (drule add_Some) (auto simp: waiting_def entry_at_def mshr_probe_def)

lemma waiting_nonempty: "wf_mshr t \<Longrightarrow> mshr_probe t a \<Longrightarrow> waiting t a \<noteq> []"
  by (auto simp: wf_mshr_def mshr_probe_def waiting_def entry_at_def)

lemma waiting_absent: "\<not> mshr_probe t a \<Longrightarrow> waiting t a = []"
  by (simp add: mshr_probe_def waiting_def entry_at_def mshr_entry_new_def)

lemma merge_flight:
  assumes ok: "flight_ok dc" and pr: "mshr_probe (mshrs dc) a" and m: "mshr_add (mshrs dc) a p atomic = Some m"
  shows "flight_ok (dc\<lparr>mshrs := m\<rparr>)"
proof -
  note w = add_waiting [OF m]
  have wf: "wf_mshr (mshrs dc)" using ok by (simp add: flight_ok_def)
  from waiting_nonempty [OF wf pr] have "hd (waiting (mshrs dc) a @ [p]) = hd (waiting (mshrs dc) a)" by simp
  then have e: "flight_entry (dc\<lparr>mshrs := m\<rparr>) q x" if "flight_entry dc q x" for q x
    using that w by (auto simp: flight_entry_def get_mf_def)
  have "covered (dc\<lparr>mshrs := m\<rparr>)" using ok w pr by (auto simp: covered_def flight_ok_def)
  with ok e wf_mshr_add [OF wf m] show ?thesis by (simp add: flight_ok_def)
qed

lemma queue_flight:
  assumes ok: "flight_ok dc" and mf: "get_mf dc p = Some mf" and np: "\<not> waiting_for_fill dc p"
    and pr: "\<not> mshr_probe (mshrs dc) (mshr_addr (config dc) (get_addr mf))" and j: "j < length (m_lines (tags dc))"
    and m: "mshr_add (mshrs dc) (mshr_addr (config dc) (get_addr mf)) p (isatomic mf) = Some m"
  shows "flight_ok (queued dc p mf j time m)"
proof -
  let ?a = "mshr_addr (config dc) (get_addr mf)" and ?d = "queued dc p mf j time m"
  note w = add_waiting [OF m]
  have wf: "wf_mshr (mshrs dc)" and h: "wf_heap (heap dc)" using ok by (simp_all add: flight_ok_def)
  have f: "mshrs ?d = m" "tags ?d = tags dc" "extra_fields ?d = AList.update p (extra_mf_fields_new ?a (get_addr mf) j (mf_data_size mf) (config dc)) (extra_fields dc)"
    by (simp_all add: queued_def Let_def set_mf_def)
  have g: "get_mf ?d q \<noteq> None" if "get_mf dc q \<noteq> None" for q
    using that by (simp add: queued_def Let_def set_mf_def get_mf_def)
  have gp: "get_mf ?d p \<noteq> None" by (simp add: queued_def Let_def set_mf_def get_mf_def)
  have nr: "?a \<notin> set (m_current_response (mshrs dc))" using wf pr by (auto simp: wf_mshr_def mshr_probe_def)
  have "flight_entry ?d q x" if x: "map_of (extra_fields ?d) q = Some x" for q x
  proof (cases "q = p")
    case True
    with x have "x = extra_mf_fields_new ?a (get_addr mf) j (mf_data_size mf) (config dc)" by (simp add: f)
    with True gp j w nr pr show ?thesis
      by (simp add: flight_entry_def f extra_mf_fields_new_def waiting_absent)
  next
    case False
    with x have old: "flight_entry dc q x" using flightD [OF ok] by (simp add: f)
    then have "x_block_addr x \<noteq> ?a" using pr by (auto simp: flight_entry_def)
    with old g w show ?thesis by (simp add: flight_entry_def f)
  qed
  moreover have "covered ?d"
    unfolding covered_def
  proof (intro allI impI)
    fix b assume "mshr_probe (mshrs ?d) b \<and> b \<notin> set (m_current_response (mshrs ?d))"
    then have b: "b = ?a \<or> mshr_probe (mshrs dc) b" "b \<notin> set (m_current_response (mshrs dc))" by (simp_all add: f w)
    show "\<exists>q x. map_of (extra_fields ?d) q = Some x \<and> x_block_addr x = b"
    proof (cases "b = ?a")
      case True
      then show ?thesis by (intro exI [of _ p]) (simp add: f extra_mf_fields_new_def)
    next
      case False
      with b ok obtain q x where q: "map_of (extra_fields dc) q = Some x" "x_block_addr x = b"
        by (auto simp: flight_ok_def covered_def)
      then have "q \<noteq> p" using np by (auto simp: waiting_for_fill_def)
      with q show ?thesis by (intro exI [of _ q]) (simp add: f)
    qed
  qed
  moreover have "wf_heap (heap ?d)" using h mf
    by (auto simp: queued_def Let_def set_mf_def wf_heap_def put_mf_def get_mf_def)
  ultimately show ?thesis using ok wf_mshr_add [OF wf m]
    by (simp add: flight_ok_def f distinct_keys_update)
qed

text \<open>Every move keeps the invariant and lengthens the miss queue by its weight.\<close>

lemma flight_wf: "flight_ok dc \<Longrightarrow> wf_heap (heap dc)"
  by (simp add: flight_ok_def)

lemma traffic_flight: "traffic dc n dc' \<Longrightarrow> flight_ok dc \<Longrightarrow> flight_ok dc'"
proof (induction rule: traffic.induct)
  case (Quiet a b)
  from Quiet(1) flight_wf [OF Quiet(2)] show ?case
    by (intro flight_frame [OF Quiet(2)]) (simp_all add: quiet_def get_mf_def)
next
  case (Port dc n)
  from flight_wf [OF Port] show ?case by (intro flight_frame [OF Port]) (simp_all add: get_mf_def)
next
  case (Update dc p mf mf')
  from flight_wf [OF Update(2)] Update(1) have "wf_heap (heap (set_mf dc p mf'))"
    by (auto simp: set_mf_def wf_heap_def put_mf_def get_mf_def)
  then show ?case by (intro flight_frame [OF Update(2)]) (simp_all add: set_mf_def get_mf_def)
next
  case (Push dc p mf)
  from flight_wf [OF Push(2)] show ?case by (intro flight_frame [OF Push(2)]) (simp_all add: get_mf_def)
next
  case (New n dc h mf)
  from flight_wf [OF New(4)] New(1-3) have "wf_heap h" by (auto simp: wf_heap_def less_Suc_eq)
  with New(1-3) show ?case by (intro flight_frame [OF New(4)]) (simp_all add: get_mf_def)
next
  case (Merge dc p mf a atomic m)
  then show ?case by (blast intro: merge_flight)
next
  case (Queue dc p mf j m time)
  then show ?case by (blast intro: queue_flight)
qed blast

lemma traffic_queue: "traffic dc n dc' \<Longrightarrow> length (miss_queue dc') = length (miss_queue dc) + n \<and> config dc' = config dc"
  by (induction rule: traffic.induct) (auto simp: quiet_def set_mf_def queued_def Let_def)

section \<open>The steps of the policies as moves\<close>

lemma traffic_0: "traffic dc 0 dc1 \<Longrightarrow> traffic dc1 n dc2 \<Longrightarrow> traffic dc n dc2"
  using Trans [of dc 0 dc1 n dc2] by simp

lemma traffic_0r: "traffic dc n dc1 \<Longrightarrow> traffic dc1 0 dc2 \<Longrightarrow> traffic dc n dc2"
  using Trans [of dc n dc1 0 dc2] by simp

lemma send_write_traffic:
  assumes "send_write_request dc p req time ev = Some (ev', dc')"
  shows "traffic dc 1 dc' \<and> ev' = ev @ [req] \<and> tags dc' = tags dc \<and> mshrs dc' = mshrs dc \<and>
    extra_fields dc' = extra_fields dc \<and> miss_queue dc' = miss_queue dc @ [p]"
proof -
  from assms obtain mf where mf: "get_mf dc p = Some mf" and e: "ev' = ev @ [req]"
    and d: "dc' = (set_mf dc p (set_mf_status mf (miss_queue_status dc) (ucast time)))\<lparr>miss_queue := miss_queue dc @ [p]\<rparr>"
    by (auto simp: send_write_request_def Let_def bind_eq_Some_conv)
  let ?d = "set_mf dc p (set_mf_status mf (miss_queue_status dc) (ucast time))"
  have g: "get_mf ?d p = Some (set_mf_status mf (miss_queue_status dc) (ucast time))"
    by (simp add: get_mf_def set_mf_def)
  have "miss_queue ?d = miss_queue dc" by (simp add: set_mf_def)
  with traffic_0 [OF Update [OF mf] Push [OF g]] have "traffic dc 1 dc'" by (simp add: d)
  then show ?thesis by (simp add: d e set_mf_def)
qed

lemma mf_alloc_Some:
  assumes "mf_alloc core cf h a ty wm bm sm sz w cy wid sid tpc omf s = Some (p, h')"
  shows "\<exists>mf. p = next_ptr h \<and> next_ptr h' = Suc p \<and> mfs h' = (mfs h)(p \<mapsto> mf) \<and> get_addr mf = a \<and> get_access_type mf = ty \<and>
    is_write mf = w \<and> mf_data_size mf = sz \<and> get_access_byte_mask mf = bm \<and> get_access_sector_mask mf = sm"
proof -
  from assms obtain acc uid i' j' where a: "(acc, uid) = mem_access_new (sm_next_access_uid h) ty a sz w wm bm sm"
    and r: "mem_fetch_new (h\<lparr>sm_next_access_uid := uid\<rparr>) acc None s (if w then WRITE_PACKET_SIZE else READ_PACKET_SIZE)
        wid i' j' cf cy omf None = Some (p, h')"
    unfolding mf_alloc_def by (auto simp: Let_def split: prod.splits)
  from mem_fetch_new_Some [OF r] a show ?thesis
    by (auto simp: mem_access_new_def get_addr_def get_access_type_def is_write_def get_access_byte_mask_def
        get_access_sector_mask_def)
qed

lemma send_writeback_traffic:
  assumes "send_writeback dc mf evd req time ev = Some (ev', dc')"
  shows "traffic dc 1 dc' \<and> ev' = ev @ [req] \<and> tags dc' = tags dc \<and> mshrs dc' = mshrs dc \<and>
    extra_fields dc' = extra_fields dc"
proof -
  from assms obtain p h r where al: "mf_alloc (mf_creator dc) (mem_config dc) (heap dc) (ev_block_addr evd) (wrbk_type dc)
        (get_access_warp_mask mf) (ev_byte_mask evd) (ev_sector_mask evd) (ev_modified_size evd) True
        (sim_cycle dc) UINT_MAX UINT_MAX UINT_MAX None (mf_streamID mf) = Some (p, h)"
    and r: "mfs h p = Some r"
    and w: "send_write_request (dc\<lparr>heap := put_mf h p (r\<lparr>mf_chip := mf_chip mf, mf_sub_partition := mf_sub_partition mf\<rparr>)\<rparr>)
        p req time ev = Some (ev', dc')"
    unfolding send_writeback_def Let_def by (auto simp: bind_eq_Some_conv)
  let ?r = "r\<lparr>mf_chip := mf_chip mf, mf_sub_partition := mf_sub_partition mf\<rparr>"
  from mf_alloc_Some [OF al] have n: "p = next_ptr (heap dc)" "mfs (put_mf h p ?r) = (mfs (heap dc))(p \<mapsto> ?r)"
    "next_ptr (put_mf h p ?r) = Suc p" by (auto simp: put_mf_def)
  from traffic_0 [OF New [OF n]] send_write_traffic [OF w] show ?thesis by simp
qed

text \<open>\<open>moves dc k dc'\<close>: a chain of moves that queues at most \<open>k\<close> requests.\<close>

definition moves :: "data_cache \<Rightarrow> nat \<Rightarrow> data_cache \<Rightarrow> bool" where
  "moves dc k dc' \<longleftrightarrow> (\<exists>n \<le> k. traffic dc n dc')"

lemma movesI: "traffic dc n dc' \<Longrightarrow> n \<le> k \<Longrightarrow> moves dc k dc'"
  by (auto simp: moves_def)

lemma moves_quiet: "quiet dc dc' \<Longrightarrow> moves dc k dc'"
  by (rule movesI [OF Quiet]) simp_all

lemma moves_trans: "moves a m b \<Longrightarrow> moves b n c \<Longrightarrow> m + n \<le> k \<Longrightarrow> moves a k c"
  unfolding moves_def by (meson Trans add_le_mono le_trans)

lemma moves_quiet_left: "quiet a b \<Longrightarrow> moves b k c \<Longrightarrow> moves a k c"
  by (rule moves_trans [OF moves_quiet [where k = 0]]) auto

lemma moves_quiet_right: "moves a k b \<Longrightarrow> quiet b c \<Longrightarrow> moves a k c"
  by (rule moves_trans [OF _ moves_quiet [where k = 0]]) auto

lemma writeback_traffic:
  "writeback_evicted dc mf wb evd req time ev = Some (ev', dc') \<Longrightarrow>
    moves dc 1 dc' \<and> tags dc' = tags dc \<and> mshrs dc' = mshrs dc \<and> extra_fields dc' = extra_fields dc"
  by (cases "wb \<and> m_write_policy (config dc) \<noteq> WRITE_THROUGH")
    (auto simp: writeback_evicted_def moves_quiet dest: send_writeback_traffic intro: movesI)

lemma new_alloc_traffic:
  assumes "new_alloc_read dc mf ow = Some (n, dc')"
  shows "traffic dc 0 dc' \<and> tags dc' = tags dc \<and> mshrs dc' = mshrs dc \<and> extra_fields dc' = extra_fields dc \<and>
    miss_queue dc' = miss_queue dc \<and> n = next_ptr (heap dc) \<and>
    (\<exists>r. get_mf dc' n = Some r \<and> get_addr r = get_addr mf \<and> \<not> is_write r \<and>
       get_access_sector_mask r = get_access_sector_mask mf \<and> mf_original_wr_mf r = ow \<and> \<not> isatomic r)"
proof -
  from assms obtain acc uid h where a: "(acc, uid) = mem_access_new (sm_next_access_uid (heap dc)) (wr_alloc_type dc) (get_addr mf)
        (m_atom_sz (config dc)) False (get_access_warp_mask mf) (get_access_byte_mask mf) (get_access_sector_mask mf)"
    and r: "mem_fetch_new ((heap dc)\<lparr>sm_next_access_uid := uid\<rparr>) acc None (mf_streamID mf) (mf_ctrl_size mf)
        (mf_wid mf) (mf_sid mf) (mf_tpc mf) (mem_config dc) (sim_cycle dc) None ow = Some (n, h)"
    and d: "dc' = dc\<lparr>heap := h\<rparr>"
    unfolding new_alloc_read_def by (auto simp: Let_def bind_eq_Some_conv split: prod.splits)
  from mem_fetch_new_Some [OF r] obtain f where f: "n = next_ptr (heap dc)" "mfs h = (mfs (heap dc))(n \<mapsto> f)"
    "next_ptr h = Suc n" "mf_access f = acc" "mf_original_wr_mf f = ow" "mf_inst f = None" by auto
  from New [OF f(1-3)] a d f show ?thesis
    by (auto simp: mem_access_new_def get_mf_def get_addr_def is_write_def get_access_sector_mask_def isatomic_def)
qed

text \<open>A probe for reading finds what a probe for writing finds, unless that was a hit.\<close>

lemma tag_match_read:
  "tag_match b m True = Some r \<Longrightarrow> r \<noteq> Some HIT \<Longrightarrow> tag_match b m False = Some r"
  by (auto simp: tag_match_def bind_eq_Some_conv split: if_splits)

lemma probe_ways_read:
  "probe_ways ta t m True is v = Some r \<Longrightarrow> (\<forall>i. r \<noteq> Inl (HIT, i)) \<Longrightarrow> probe_ways ta t m False is v = Some r"
proof (induction "is" arbitrary: v)
  case (Cons k "is")
  let ?b = "m_lines ta ! k" and ?v = "victim_step ta k (m_lines ta ! k) v"
  have k: "k < length (m_lines ta)" using Cons.prems(1) by (auto split: if_splits)
  show ?case
  proof (cases "blk_tag ?b = t")
    case False
    with Cons k show ?thesis by simp
  next
    case True
    with Cons.prems(1) k obtain f where f: "tag_match ?b m True = Some f" by (auto simp: Let_def bind_eq_Some_conv)
    with True k Cons.prems(1) have r: "(case f of Some st \<Rightarrow> Some (Inl (st, k)) | None \<Rightarrow> probe_ways ta t m True is ?v) = Some r"
      by (simp add: Let_def)
    with Cons.prems(2) have "f \<noteq> Some HIT" by (auto split: option.splits)
    from tag_match_read [OF f this] r True k Cons.IH [OF _ Cons.prems(2)] show ?thesis
      by (cases f) (simp_all add: Let_def)
  qed
qed simp

lemma probe_read:
  assumes "probe ta a m True = Some (st, idx)" and "st \<noteq> HIT"
  shows "probe ta a m False = Some (st, idx)"
proof -
  define ws where "ws s = map (\<lambda>way. s * m_assoc (ta_config ta) + way) [0..<m_assoc (ta_config ta)]" for s
  from assms(1) obtain s r where s: "ta_set_index ta a = Some s"
    and r: "probe_ways ta (tag (ta_config ta) a) m True (ws s) victim_init = Some r"
    and k: "(case r of Inl (st, index) \<Rightarrow> Some (st, Some index)
      | Inr v \<Rightarrow> if all_reserved v then do { guard (m_alloc_policy (ta_config ta) = ON_MISS); Some (RESERVATION_FAIL, None) }
          else (case invalid_line v of Some i \<Rightarrow> Some (MISS, Some i)
            | None \<Rightarrow> (case valid_line v of Some i \<Rightarrow> Some (MISS, Some i) | None \<Rightarrow> None))) = Some (st, idx)"
    unfolding probe_def Let_def bind_eq_Some_conv ws_def by blast
  have "\<forall>i. r \<noteq> Inl (HIT, i)" using k assms(2) by auto
  from probe_ways_read [OF r this] s k show ?thesis
    unfolding probe_def Let_def ws_def by simp
qed

lemma send_read_traffic:
  assumes "send_read_request dc baddr i p time ev ro wa = Some (do_miss, wb, evd, ev', dc')"
    and "\<not> waiting_for_fill dc p" and "get_mf dc p = Some mf"
    and "probe (tags dc) baddr (get_access_sector_mask mf) (is_write mf) = Some (st, Some k)"
  shows "moves dc 1 dc' \<and> length (m_lines (tags dc')) = length (m_lines (tags dc))"
  using assms(1)
proof (cases rule: send_read_cases)
  case (fail mf' r)
  from count_quiet(3) [OF fail(6)] show ?thesis by (simp add: moves_quiet)
next
  case (merge mf' st' j dc1 m)
  have q: "quiet dc dc1" by (rule tag_step_quiet [OF merge(6)])
  then have "mshrs dc1 = mshrs dc" "get_mf dc1 p = Some mf'" using merge(1) by (simp_all add: quiet_def get_mf_def)
  then have "traffic dc1 0 (dc1\<lparr>mshrs := m\<rparr>)"
    using merge(4,7) by (intro Merge) simp_all
  from moves_quiet_left [OF q movesI [OF this, of 1]] count_quiet(1) [OF merge(8)] q show ?thesis
    by (auto simp: quiet_def intro: moves_quiet_right)
next
  case (queue mf' st' j dc1 m)
  have q: "quiet dc dc1" by (rule tag_step_quiet [OF queue(7)])
  have same: "mf' = mf" using queue(1) assms(3) by simp
  have "j = k" using tag_step_index [OF _ queue(7)] assms(4) same by fastforce
  then have j: "j < length (m_lines (tags dc1))" using probe_index [OF assms(4)] q by (simp add: quiet_def)
  have f: "mshrs dc1 = mshrs dc" "config dc1 = config dc" "get_mf dc1 p = Some mf'" "\<not> waiting_for_fill dc1 p"
    using q queue(1) assms(2) by (simp_all add: quiet_def get_mf_def waiting_for_fill_def)
  have "traffic dc1 1 (queued dc1 p mf' j time m)"
    using queue(4,8) by (intro Queue) (simp_all add: f j)
  with moves_quiet_left [OF q movesI] queue(9) q show ?thesis
    by (simp add: queued_def Let_def set_mf_def quiet_def)
qed

end
