(* ===== verification/Cache_Safety.thy ===== *)
theory Cache_Safety
  imports Cache_Flight
begin

text \<open>
  Safety of the cache controllers: every policy is a chain of moves that fits the miss queue, so the
  queue never exceeds its configured size and the requests in flight stay consistent; a failed access
  changes nothing but the statistics; a fill completes the request it belongs to.
\<close>

section \<open>Every policy fits the miss queue\<close>

definition fits :: "data_cache \<Rightarrow> data_cache \<Rightarrow> bool" where
  "fits dc dc' \<longleftrightarrow> (\<exists>k. moves dc k dc' \<and> (k = 0 \<or> length (miss_queue dc) + k \<le> m_miss_queue_size (config dc)))"

lemma fits_quiet: "quiet dc dc' \<Longrightarrow> fits dc dc'"
  unfolding fits_def by (rule exI [of _ 0]) (simp add: moves_quiet)

lemma fitsI: "moves dc k dc' \<Longrightarrow> length (miss_queue dc) + k \<le> m_miss_queue_size (config dc) \<Longrightarrow> fits dc dc'"
  by (auto simp: fits_def)

lemma fits_flight: "fits dc dc' \<Longrightarrow> flight_ok dc \<Longrightarrow> flight_ok dc'"
  by (auto simp: fits_def moves_def dest: traffic_flight)

lemma moves_queue: "moves dc k dc' \<Longrightarrow> length (miss_queue dc') \<le> length (miss_queue dc) + k \<and> config dc' = config dc"
  by (auto simp: moves_def dest: traffic_queue)

lemma fits_queue:
  "fits dc dc' \<Longrightarrow> length (miss_queue dc) \<le> m_miss_queue_size (config dc) \<Longrightarrow>
    length (miss_queue dc') \<le> m_miss_queue_size (config dc') \<and> config dc' = config dc"
  by (auto simp: fits_def dest!: moves_queue)

lemma reservation_fail_quiet:
  "reservation_fail dc mf r ev = Some (st, ev', dc') \<Longrightarrow>
    quiet dc dc' \<and> tags dc' = tags dc \<and> st = RESERVATION_FAIL \<and> ev' = ev"
  by (auto simp: reservation_fail_def bind_eq_Some_conv dest: count_quiet)

text \<open>The situation in which \<^verbatim>\<open>process_tag_probe\<close> calls a policy.\<close>

definition probed :: "data_cache \<Rightarrow> u64 \<Rightarrow> nat \<Rightarrow> nat \<Rightarrow> mem_fetch \<Rightarrow> cache_request_status \<Rightarrow> bool" where
  "probed dc addr i p mf st \<longleftrightarrow> get_mf dc p = Some mf \<and>
     (\<exists>idx. probe (tags dc) (block_addr (config dc) addr) (get_access_sector_mask mf) (is_write mf) = Some (st, idx) \<and>
        i = (case idx of None \<Rightarrow> NO_INDEX | Some i \<Rightarrow> i))"

lemma probed_index:
  "probed dc addr i p mf st \<Longrightarrow> st \<noteq> RESERVATION_FAIL \<Longrightarrow>
    probe (tags dc) (block_addr (config dc) addr) (get_access_sector_mask mf) (is_write mf) = Some (st, Some i)"
  unfolding probed_def by (auto split: option.splits dest: probe_shape)

lemma wr_hit_wb_fits: "wr_hit_wb dc addr i p time ev st = Some (st', ev', dc') \<Longrightarrow> quiet dc dc' \<and> st' = HIT \<and> ev' = ev"
  unfolding wr_hit_wb_def
  by (auto simp: bind_eq_Some_conv dest!: quiet_dest intro: quiet_trans)

lemma wr_hit_wt_fits: "wr_hit_wt dc addr i p time ev st = Some (st', ev', dc') \<Longrightarrow> fits dc dc'"
proof -
  assume r: "wr_hit_wt dc addr i p time ev st = Some (st', ev', dc')"
  show "fits dc dc'"
  proof (cases "miss_queue_full dc 0")
    case True
    with r show ?thesis by (auto simp: wr_hit_wt_def bind_eq_Some_conv dest!: reservation_fail_quiet intro: fits_quiet)
  next
    case False
    with r obtain mf s j dc1 dc2 dc3 where q: "touch_tags dc (block_addr (config dc) addr) time i mf = Some (s, j, dc1)"
      "write_block dc1 j mf = Some dc2" "update_m_readable dc2 mf j = Some dc3"
      and w: "send_write_request dc3 p (cache_event1 WRITE_REQUEST_SENT) time ev = Some (ev', dc')"
      by (auto simp: wr_hit_wt_def bind_eq_Some_conv)
    from q have "quiet dc dc3" by (auto dest!: quiet_dest intro: quiet_trans)
    from moves_quiet_left [OF this movesI] send_write_traffic [OF w] False show ?thesis
      by (intro fitsI [of _ 1]) (auto simp: miss_queue_full_def)
  qed
qed

lemma wr_hit_we_fits: "wr_hit_we dc addr i p time ev st = Some (st', ev', dc') \<Longrightarrow> fits dc dc'"
proof -
  assume r: "wr_hit_we dc addr i p time ev st = Some (st', ev', dc')"
  show "fits dc dc'"
  proof (cases "miss_queue_full dc 0")
    case True
    with r show ?thesis by (auto simp: wr_hit_we_def bind_eq_Some_conv dest!: reservation_fail_quiet intro: fits_quiet)
  next
    case False
    with r obtain mf dc1 where w: "send_write_request dc p (cache_event1 WRITE_REQUEST_SENT) time ev = Some (ev', dc1)"
      and u: "update_block dc1 i (\<lambda>b. set_status b INVALID (get_access_sector_mask mf)) = Some dc'"
      by (auto simp: wr_hit_we_def bind_eq_Some_conv)
    from send_write_traffic [OF w] moves_quiet_right [OF movesI update_block_quiet [OF u]] False show ?thesis
      by (intro fitsI [of _ 1]) (auto simp: miss_queue_full_def)
  qed
qed

lemma wr_hit_global_fits: "wr_hit_global_we_local_wb dc addr i p time ev st = Some (st', ev', dc') \<Longrightarrow> fits dc dc'"
  by (auto simp: wr_hit_global_we_local_wb_def bind_eq_Some_conv split: if_splits
      dest: wr_hit_we_fits wr_hit_wb_fits intro: fits_quiet)

lemma wr_miss_no_wa_fits: "wr_miss_no_wa dc addr i p time ev st = Some (st', ev', dc') \<Longrightarrow> fits dc dc'"
proof -
  assume r: "wr_miss_no_wa dc addr i p time ev st = Some (st', ev', dc')"
  show "fits dc dc'"
  proof (cases "miss_queue_full dc 0")
    case True
    with r show ?thesis by (auto simp: wr_miss_no_wa_def bind_eq_Some_conv dest!: reservation_fail_quiet intro: fits_quiet)
  next
    case False
    with r have w: "send_write_request dc p (cache_event1 WRITE_REQUEST_SENT) time ev = Some (ev', dc')"
      by (auto simp: wr_miss_no_wa_def bind_eq_Some_conv)
    from send_write_traffic [OF w] movesI [of dc 1 dc' 1] False show ?thesis
      by (intro fitsI [of _ 1]) (auto simp: miss_queue_full_def)
  qed
qed

lemma rd_hit_base_fits: "rd_hit_base dc addr i p time ev st = Some (st', ev', dc') \<Longrightarrow> quiet dc dc' \<and> st' = HIT \<and> ev' = ev"
  unfolding rd_hit_base_def
  by (auto simp: bind_eq_Some_conv split: if_splits dest!: quiet_dest intro: quiet_trans)

lemma rd_miss_base_fits:
  assumes r: "rd_miss_base dc addr i p time ev st = Some (st', ev', dc')"
    and pr: "probed dc addr i p mf st" "st \<noteq> RESERVATION_FAIL" and np: "\<not> waiting_for_fill dc p"
  shows "fits dc dc'"
proof (cases "miss_queue_full dc 1")
  case True
  with r show ?thesis by (auto simp: rd_miss_base_def bind_eq_Some_conv dest!: reservation_fail_quiet intro: fits_quiet)
next
  case False
  have mf: "get_mf dc p = Some mf" using pr(1) by (simp add: probed_def)
  from r False mf obtain do_miss wb evd ev1 dc1 where
    s: "send_read_request dc (block_addr (config dc) addr) i p time ev False False = Some (do_miss, wb, evd, ev1, dc1)"
    and rest: "if do_miss then (\<exists>e. writeback_evicted dc1 mf wb evd (cache_event1 WRITE_BACK_REQUEST_SENT) time ev1 = Some (e, dc'))
        else dc' = dc1"
    by (auto simp: rd_miss_base_def bind_eq_Some_conv split: if_splits)
  from send_read_traffic [OF s np mf probed_index [OF pr]] have "moves dc 1 dc1" by simp
  moreover have "moves dc1 1 dc'" using rest by (auto split: if_splits dest!: writeback_traffic intro: moves_quiet)
  ultimately have "moves dc 2 dc'" by (rule moves_trans) simp
  with False show ?thesis by (intro fitsI [of _ 2]) (auto simp: miss_queue_full_def)
qed

text \<open>The allocating write misses.\<close>

lemma not_blocked:
  "write_allocate_blocked dc num a = Some None \<Longrightarrow> \<not> miss_queue_full dc num \<and> \<not> mshr_full (mshrs dc) a"
  by (auto simp: write_allocate_blocked_def Let_def split: if_splits)

text \<open>The read that fetches the rest of the block cannot fail once the resources are checked.\<close>

lemma alloc_read_moves:
  assumes n: "new_alloc_read dc mf ow = Some (n, dc1)"
    and s: "send_read_request dc1 baddr i n time ev ro wa = Some (do_miss, wb, evd, ev', dc2)"
    and ok: "flight_ok dc" and av: "\<not> mshr_full (mshrs dc) (mshr_addr (config dc) (get_addr mf))"
    and p: "probe (tags dc) baddr (get_access_sector_mask mf) (is_write mf) = Some (st, Some i)"
    and h: "st \<noteq> HIT"
  shows "do_miss \<and> moves dc 1 dc2 \<and> length (m_lines (tags dc2)) = length (m_lines (tags dc))"
proof -
  from new_alloc_traffic [OF n] obtain r where t: "traffic dc 0 dc1" "tags dc1 = tags dc" "mshrs dc1 = mshrs dc"
    "extra_fields dc1 = extra_fields dc" "n = next_ptr (heap dc)" and r: "get_mf dc1 n = Some r" "get_addr r = get_addr mf"
    "\<not> is_write r" "get_access_sector_mask r = get_access_sector_mask mf" by blast
  have "\<not> waiting_for_fill dc n"
  proof
    assume "waiting_for_fill dc n"
    with ok have "get_mf dc n \<noteq> None" by (auto simp: waiting_for_fill_def flight_ok_def flight_entry_def)
    with flight_wf [OF ok] t(5) show False by (auto simp: wf_heap_def get_mf_def)
  qed
  then have w: "\<not> waiting_for_fill dc1 n" using t(4) by (simp add: waiting_for_fill_def)
  have "probe (tags dc1) baddr (get_access_sector_mask r) (is_write r) = Some (st, Some i)"
    using p probe_read [OF _ h] r t(2) by (cases "is_write mf") simp_all
  from send_read_traffic [OF s w r(1) this] have m: "moves dc1 1 dc2" "length (m_lines (tags dc2)) = length (m_lines (tags dc1))"
    by simp_all
  have "do_miss" using s
  proof (cases rule: send_read_cases)
    case (fail mf' r')
    with r av t show ?thesis by simp
  qed simp_all
  with moves_trans [OF movesI [OF t(1), of 0] m(1), of 1] m(2) t(2) show ?thesis by simp
qed

lemma wr_miss_wa_naive_fits:
  assumes r: "wr_miss_wa_naive dc addr i p time ev st = Some (st', ev', dc')"
    and pr: "probed dc addr i p mf st" "st \<noteq> RESERVATION_FAIL" "st \<noteq> HIT" and ok: "flight_ok dc"
  shows "fits dc dc' \<and> (st' = RESERVATION_FAIL \<longrightarrow> quiet dc dc' \<and> tags dc' = tags dc \<and> ev' = ev)"
proof -
  have mf: "get_mf dc p = Some mf" using pr(1) by (simp add: probed_def)
  let ?a = "mshr_addr (config dc) (get_addr mf)"
  from r mf obtain b where b: "write_allocate_blocked dc 2 ?a = Some b"
    unfolding wr_miss_wa_naive_def by (auto simp: bind_eq_Some_conv)
  show ?thesis
  proof (cases b)
    case (Some c)
    with r mf b show ?thesis by (auto simp: wr_miss_wa_naive_def dest!: reservation_fail_quiet intro: fits_quiet)
  next
    case None
    from r mf b None obtain ev1 dc1 n dc2 do_miss wb evd ev2 dc3 where
      w: "send_write_request dc p (cache_event1 WRITE_REQUEST_SENT) time ev = Some (ev1, dc1)"
      and n: "new_alloc_read dc1 mf None = Some (n, dc2)"
      and s: "send_read_request dc2 (block_addr (config dc2) addr) i n time ev1 False True = Some (do_miss, wb, evd, ev2, dc3)"
      and rest: "if do_miss then st' = MISS \<and> (\<exists>e. writeback_evicted dc3 mf wb evd (cache_event2 WRITE_BACK_REQUEST_SENT evd) time
            (ev2 @ [cache_event1 WRITE_ALLOCATE_SENT]) = Some (e, dc'))
          else dc' = dc3"
      unfolding wr_miss_wa_naive_def by (auto simp: bind_eq_Some_conv Let_def split: if_splits)
    note wt = send_write_traffic [OF w]
    have c: "config dc2 = config dc" using new_alloc_traffic [OF n] wt by simp
    have ok1: "flight_ok dc1" using wt traffic_flight ok by blast
    from alloc_read_moves [OF n s ok1, where st = st] not_blocked [OF b [unfolded None]] wt c
      probed_index [OF pr(1,2)] pr(3)
    have m: "do_miss" "moves dc1 1 dc3" by simp_all
    with rest have "moves dc3 1 dc'" "st' = MISS" by (auto dest!: writeback_traffic)
    with m wt have "moves dc 3 dc'" using movesI [of dc 1 dc1 1] moves_trans [of dc1 1 dc3 1 dc' 2] moves_trans [of dc 1 dc1 2 dc' 3]
      by simp
    with not_blocked [OF b [unfolded None]] \<open>st' = MISS\<close> show ?thesis
      by (auto simp: miss_queue_full_def intro: fitsI)
  qed
qed

lemma access_tags_probe:
  "access_tags dc a time i wb ev mf = Some (st, j, wb', ev', dc') \<Longrightarrow>
    \<exists>k. probe (tags dc) a (get_access_sector_mask mf) (is_write mf) = Some (st, k) \<and> j = (case k of None \<Rightarrow> i | Some k \<Rightarrow> k)"
  unfolding access_tags_def by (auto simp: bind_eq_Some_conv dest!: access_probe)

lemma fetch_on_write_full_fits:
  assumes r: "fetch_on_write_full dc addr i mf time ev = Some (st', ev', dc')"
    and pr: "probed dc addr i p mf st" "st \<noteq> RESERVATION_FAIL"
  shows "fits dc dc' \<and> (st' = RESERVATION_FAIL \<longrightarrow> quiet dc dc' \<and> tags dc' = tags dc \<and> ev' = ev)"
proof (cases "miss_queue_full dc 0")
  case True
  with r show ?thesis by (auto simp: fetch_on_write_full_def dest!: reservation_fail_quiet intro: fits_quiet)
next
  case False
  with r obtain st1 j wb evd dc1 dc2 dc3 where
    a: "access_tags dc (block_addr (config dc) addr) time i False evicted_block_info_init mf = Some (st1, j, wb, evd, dc1)"
    and b: "write_block dc1 j mf = Some dc2"
    and c: "(if st1 = HIT_RESERVED then update_block dc2 j (\<lambda>b. set_ignore_on_fill b True (get_access_sector_mask mf))
        else Some dc2) = Some dc3"
    and rest: "(if st1 \<noteq> RESERVATION_FAIL then do {
           (events, dc) \<leftarrow> writeback_evicted dc3 mf wb evd (cache_event2 WRITE_BACK_REQUEST_SENT evd) time ev;
           Some (MISS, events, dc) }
         else Some (RESERVATION_FAIL, ev, dc3)) = Some (st', ev', dc')"
    unfolding fetch_on_write_full_def by (auto simp: bind_eq_Some_conv split del: if_split)
  have "st1 = st" using access_tags_probe [OF a] probed_index [OF pr] by auto
  with rest pr(2) have "moves dc3 1 dc'" "st' = MISS" by (auto simp: bind_eq_Some_conv dest!: writeback_traffic)
  moreover have "quiet dc2 dc3" using c by (auto split: if_splits dest: update_block_quiet)
  then have "quiet dc dc3" using a b by (auto dest!: access_tags_quiet write_block_quiet intro: quiet_trans)
  ultimately show ?thesis using False
    by (auto simp: miss_queue_full_def intro: fitsI moves_quiet_left)
qed

lemma raw_blocked_same: "raw_blocked dc mf a = (raw, dc') \<Longrightarrow> dc' = dc"
  by (auto simp: raw_blocked_def is_read_after_write_pending_def mshr_probe_def entry_at_def put_entry_same
      split: if_splits option.splits)

lemma fetch_on_write_partial_fits:
  assumes r: "fetch_on_write_partial dc addr i p mf time ev = Some (st', ev', dc')"
    and pr: "probed dc addr i p mf st" "st \<noteq> RESERVATION_FAIL" "st \<noteq> HIT" and ok: "flight_ok dc"
  shows "fits dc dc' \<and> (st' = RESERVATION_FAIL \<longrightarrow> quiet dc dc' \<and> tags dc' = tags dc \<and> ev' = ev)"
proof -
  let ?a = "mshr_addr (config dc) (get_addr mf)"
  from r obtain b where b: "write_allocate_blocked dc 1 ?a = Some b"
    unfolding fetch_on_write_partial_def by (auto simp: bind_eq_Some_conv Let_def)
  obtain raw d where raw: "raw_blocked dc mf ?a = (raw, d)" by fastforce
  then have d: "d = dc" by (rule raw_blocked_same)
  note raw = raw [unfolded d]
  consider c where "b = Some c" | "b = None" "raw" | "b = None" "\<not> raw" by (cases b) auto
  then show ?thesis
  proof cases
    case 1
    with r b show ?thesis by (auto simp: fetch_on_write_partial_def Let_def dest!: reservation_fail_quiet intro: fits_quiet)
  next
    case 2
    with r b raw show ?thesis by (auto simp: fetch_on_write_partial_def Let_def dest!: reservation_fail_quiet intro: fits_quiet)
  next
    case 3
    with r b raw obtain n dc1 do_miss wb evd ev2 dc2 f dc3 where
      n: "new_alloc_read dc mf (Some p) = Some (n, dc1)"
      and s: "send_read_request dc1 (block_addr (config dc1) addr) i n time ev False True = Some (do_miss, wb, evd, ev2, dc2)"
      and u: "update_block dc2 i f = Some dc3"
      and rest: "if do_miss then st' = MISS \<and> (\<exists>e. writeback_evicted dc3 mf wb evd (cache_event2 WRITE_BACK_REQUEST_SENT evd) time
            (ev2 @ [cache_event1 WRITE_ALLOCATE_SENT]) = Some (e, dc'))
          else dc' = dc3"
      unfolding fetch_on_write_partial_def by (auto simp: bind_eq_Some_conv Let_def split: if_splits)
    have c: "config dc1 = config dc" using new_alloc_traffic [OF n] by simp
    from alloc_read_moves [OF n s ok, where st = st] not_blocked [OF b [unfolded 3]] c probed_index [OF pr(1,2)] pr(3)
    have m: "do_miss" "moves dc 1 dc2" by simp_all
    from m(1) rest have w: "moves dc3 1 dc'" "st' = MISS" by (auto dest!: writeback_traffic)
    have "moves dc 2 dc'" by (rule moves_trans [OF moves_quiet_right [OF m(2) update_block_quiet [OF u]] w(1)]) simp
    with not_blocked [OF b [unfolded 3(1)]] w(2) show ?thesis by (auto simp: miss_queue_full_def intro: fitsI)
  qed
qed

lemma wr_miss_wa_fetch_on_write_fits:
  assumes "wr_miss_wa_fetch_on_write dc addr i p time ev st = Some (st', ev', dc')"
    and "probed dc addr i p mf st" "st \<noteq> RESERVATION_FAIL" "st \<noteq> HIT" and "flight_ok dc"
  shows "fits dc dc' \<and> (st' = RESERVATION_FAIL \<longrightarrow> quiet dc dc' \<and> tags dc' = tags dc \<and> ev' = ev)"
proof -
  have "get_mf dc p = Some mf" using assms(2) by (simp add: probed_def)
  with assms show ?thesis unfolding wr_miss_wa_fetch_on_write_def
    by (auto split: if_splits dest: fetch_on_write_full_fits fetch_on_write_partial_fits)
qed

lemma wr_miss_wa_lazy_fits:
  assumes r: "wr_miss_wa_lazy_fetch_on_read dc addr i p time ev st = Some (st', ev', dc')"
    and pr: "probed dc addr i p mf st" "st \<noteq> RESERVATION_FAIL"
  shows "fits dc dc' \<and> (st' = RESERVATION_FAIL \<longrightarrow> quiet dc dc' \<and> tags dc' = tags dc \<and> ev' = ev)"
proof (cases "miss_queue_full dc 0")
  case True
  with r show ?thesis by (auto simp: wr_miss_wa_lazy_fetch_on_read_def bind_eq_Some_conv dest!: reservation_fail_quiet intro: fits_quiet)
next
  case False
  have mf: "get_mf dc p = Some mf" using pr(1) by (simp add: probed_def)
  from r False mf obtain ev1 dc0 st1 j wb evd dc1 dc2 where
    z: "(if m_write_policy (config dc) = WRITE_THROUGH
          then send_write_request dc p (cache_event1 WRITE_REQUEST_SENT) time ev else Some (ev, dc)) = Some (ev1, dc0)"
    and a: "access_tags dc0 (block_addr (config dc0) addr) time i False evicted_block_info_init mf = Some (st1, j, wb, evd, dc1)"
    and b: "lazy_write_block dc1 j mf st1 = Some dc2"
    and rest: "if st1 \<noteq> RESERVATION_FAIL then st' = MISS \<and> (\<exists>e. writeback_evicted dc2 mf wb evd
        (cache_event2 WRITE_BACK_REQUEST_SENT evd) time ev1 = Some (e, dc')) else dc' = dc2"
    unfolding wr_miss_wa_lazy_fetch_on_read_def by (auto simp: bind_eq_Some_conv split: if_splits)
  have t: "tags dc0 = tags dc" using z by (auto split: if_splits dest: send_write_traffic)
  then have "st1 = st" using access_tags_probe [OF a] probed_index [OF pr] by auto
  with rest pr(2) have w: "st' = MISS" "\<exists>e. writeback_evicted dc2 mf wb evd
        (cache_event2 WRITE_BACK_REQUEST_SENT evd) time ev1 = Some (e, dc')" by simp_all
  have q: "quiet dc0 dc2" using a b by (auto dest!: access_tags_quiet lazy_write_block_quiet intro: quiet_trans)
  have "moves dc 1 dc'"
  proof (cases "m_write_policy (config dc) = WRITE_THROUGH")
    case True
    then have "m_write_policy (config dc2) = WRITE_THROUGH" using q t by (simp add: quiet_def)
    with w(2) have "dc' = dc2" by (auto simp: writeback_evicted_def)
    moreover have "traffic dc 1 dc0" using True z by (auto dest: send_write_traffic)
    ultimately show ?thesis using q movesI [of dc 1 dc0 1] by (auto intro: moves_quiet_right)
  next
    case False
    with z have "dc0 = dc" by simp
    with w(2) q show ?thesis by (auto dest!: writeback_traffic intro: moves_quiet_left)
  qed
  with False w(1) show ?thesis by (auto simp: miss_queue_full_def intro: fitsI)
qed

section \<open>Dispatch and access\<close>

definition unchanged :: "cache_request_status \<Rightarrow> cache_event list \<Rightarrow> cache_event list \<Rightarrow> data_cache \<Rightarrow> data_cache \<Rightarrow> bool" where
  "unchanged st ev ev' dc dc' \<longleftrightarrow> (st = RESERVATION_FAIL \<longrightarrow> quiet dc dc' \<and> tags dc' = tags dc \<and> ev' = ev)"

lemma unchanged_hit [simp]: "unchanged HIT ev ev' dc dc'"
  by (simp add: unchanged_def)

lemma wr_hit_fits:
  assumes "wr_hit (config dc) = Some h" and r: "h dc addr i p time ev st = Some (st', ev', dc')"
  shows "fits dc dc' \<and> unchanged st' ev ev' dc dc'"
proof -
  have wt: "unchanged st' ev ev' dc dc'" if "wr_hit_wt dc addr i p time ev st = Some (st', ev', dc')"
    using that by (auto simp: unchanged_def wr_hit_wt_def bind_eq_Some_conv split: if_splits dest: reservation_fail_quiet)
  have we: "unchanged st' ev ev' dc dc'" if "wr_hit_we dc addr i p time ev st = Some (st', ev', dc')"
    using that by (auto simp: unchanged_def wr_hit_we_def bind_eq_Some_conv split: if_splits dest: reservation_fail_quiet)
  have g: "unchanged st' ev ev' dc dc'" if "wr_hit_global_we_local_wb dc addr i p time ev st = Some (st', ev', dc')"
    using that we by (auto simp: wr_hit_global_we_local_wb_def bind_eq_Some_conv unchanged_def split: if_splits dest: wr_hit_wb_fits)
  from assms show ?thesis
    by (cases "m_write_policy (config dc)") (auto simp: wr_hit_def wt we g
      dest: wr_hit_wb_fits wr_hit_wt_fits wr_hit_we_fits wr_hit_global_fits intro: fits_quiet)
qed

lemma wr_miss_fits:
  assumes r: "wr_miss (config dc) dc addr i p time ev st = Some (st', ev', dc')"
    and pr: "probed dc addr i p mf st" "st \<noteq> HIT" and ok: "flight_ok dc"
    and rf: "st \<noteq> RESERVATION_FAIL \<or> m_write_alloc_policy (config dc) = NO_WRITE_ALLOCATE"
  shows "fits dc dc' \<and> unchanged st' ev ev' dc dc'"
proof (cases "m_write_alloc_policy (config dc) = NO_WRITE_ALLOCATE")
  case True
  with r have n: "wr_miss_no_wa dc addr i p time ev st = Some (st', ev', dc')" by (simp add: wr_miss_def)
  then have "unchanged st' ev ev' dc dc'"
    by (auto simp: wr_miss_no_wa_def unchanged_def bind_eq_Some_conv split: if_splits dest: reservation_fail_quiet)
  with wr_miss_no_wa_fits [OF n] show ?thesis by simp
next
  case False
  with rf have st: "st \<noteq> RESERVATION_FAIL" by simp
  from r False show ?thesis
    using wr_miss_wa_naive_fits [OF _ pr(1) st pr(2) ok, of time ev st' ev' dc']
      wr_miss_wa_fetch_on_write_fits [OF _ pr(1) st pr(2) ok, of time ev st' ev' dc']
      wr_miss_wa_lazy_fits [OF _ pr(1) st, of time ev st' ev' dc']
    by (cases "m_write_alloc_policy (config dc)") (simp_all add: wr_miss_def unchanged_def)
qed

lemma rd_miss_unchanged:
  assumes "rd_miss_base dc addr i p time ev st = Some (st', ev', dc')"
  shows "unchanged st' ev ev' dc dc'"
proof (cases "miss_queue_full dc 1")
  case True
  with assms show ?thesis by (auto simp: rd_miss_base_def unchanged_def bind_eq_Some_conv dest!: reservation_fail_quiet)
next
  case False
  with assms obtain do_miss wb evd ev1 dc1 where
    s: "send_read_request dc (block_addr (config dc) addr) i p time ev False False = Some (do_miss, wb, evd, ev1, dc1)"
    and rest: "do_miss \<and> st' = MISS \<or> \<not> do_miss \<and> ev' = ev1 \<and> dc' = dc1"
    by (auto simp: rd_miss_base_def bind_eq_Some_conv split: if_splits)
  from s show ?thesis
    by (cases rule: send_read_cases) (use rest in \<open>auto simp: unchanged_def dest: count_quiet\<close>)
qed

lemma dispatch_fits:
  assumes r: "dispatch_probe wr st dc addr i p time ev st = Some (st', ev', dc')"
    and pr: "probed dc addr i p mf st" and ok: "flight_ok dc" and np: "\<not> waiting_for_fill dc p"
  shows "fits dc dc' \<and> unchanged st' ev ev' dc dc'"
proof -
  have mf: "get_mf dc p = Some mf" using pr by (simp add: probed_def)
  note d = r [unfolded dispatch_probe_def mf bind.bind_lunit]
  consider (fail) "count_fail dc mf LINE_ALLOC_FAIL = Some dc'" "st' = st" "ev' = ev"
    | (wh) h where "wr_hit (config dc) = Some h" "h dc addr i p time ev st = Some (st', ev', dc')"
    | (wm) "wr_miss (config dc) dc addr i p time ev st = Some (st', ev', dc')" "st \<noteq> HIT"
        "st \<noteq> RESERVATION_FAIL \<or> m_write_alloc_policy (config dc) = NO_WRITE_ALLOCATE"
    | (rh) "rd_hit_base dc addr i p time ev st = Some (st', ev', dc')"
    | (rm) "rd_miss_base dc addr i p time ev st = Some (st', ev', dc')" "st \<noteq> RESERVATION_FAIL"
    using d by (auto simp: bind_eq_Some_conv split: if_splits)
  then show ?thesis
  proof cases
    case fail
    with count_quiet(3) show ?thesis by (auto simp: unchanged_def intro: fits_quiet)
  next
    case wh
    then show ?thesis by (rule wr_hit_fits)
  next
    case wm
    then show ?thesis using wr_miss_fits pr ok by blast
  next
    case rh
    from rd_hit_base_fits [OF this] show ?thesis by (auto simp: unchanged_def intro: fits_quiet)
  next
    case rm
    with rd_miss_base_fits [OF rm(1) pr rm(2) np] rd_miss_unchanged show ?thesis by blast
  qed
qed

lemma use_data_port_Some:
  "use_data_port dc mf st ev = Some dc' \<Longrightarrow>
    (\<exists>n. dc' = dc\<lparr>data_port_occupied_cycles := n\<rparr>) \<and> (st = RESERVATION_FAIL \<longrightarrow> dc' = dc)"
  by (cases st) (auto simp: use_data_port_def Let_def split: prod.splits if_splits
      intro: exI [of _ "data_port_occupied_cycles dc"])

lemma fits_port: "fits dc dc' \<Longrightarrow> fits dc (dc'\<lparr>data_port_occupied_cycles := n\<rparr>)"
  unfolding fits_def using moves_trans [OF _ movesI [OF Port, of 0]] by (metis add_0_right order_refl)

lemma fits_quiet_right: "fits dc dc' \<Longrightarrow> quiet dc' dc'' \<Longrightarrow> fits dc dc''"
  unfolding fits_def using moves_quiet_right by blast

lemma data_cache_access_fits:
  assumes r: "data_cache_access dc addr p time ev = Some (st', ev', dc')"
    and ok: "flight_ok dc" and np: "\<not> waiting_for_fill dc p"
  shows "fits dc dc' \<and> unchanged st' ev ev' dc dc'"
proof -
  from r obtain mf st idx dc1 mf1 dc2 mf2 where mf: "get_mf dc p = Some mf"
    and pr: "probe (tags dc) (block_addr (config dc) addr) (get_access_sector_mask mf) (is_write mf) = Some (st, idx)"
    and d: "dispatch_probe (is_write mf) st dc addr (case idx of None \<Rightarrow> NO_INDEX | Some i \<Rightarrow> i) p time ev st = Some (st', ev', dc1)"
    and u: "use_data_port dc1 mf1 st' ev' = Some dc2" and c: "count_access dc2 mf2 st st' = Some dc'"
    unfolding data_cache_access_def process_tag_probe_def by (auto simp: bind_eq_Some_conv)
  have "probed dc addr (case idx of None \<Rightarrow> NO_INDEX | Some i \<Rightarrow> i) p mf st" using mf pr by (auto simp: probed_def)
  from dispatch_fits [OF d this ok np] have f: "fits dc dc1" "unchanged st' ev ev' dc dc1" by simp_all
  note us = use_data_port_Some [OF u] and cs = count_access_quiet [OF c]
  from us have "fits dc dc2" using fits_port [OF f(1)] by auto
  moreover have "unchanged st' ev ev' dc dc'" using f(2) us cs by (auto simp: unchanged_def intro: quiet_trans)
  ultimately show ?thesis using cs by (blast intro: fits_quiet_right)
qed

end
