(* ===== verification/Cache_Tags.thy ===== *)
theory Cache_Tags
  imports Cache_Safety
begin

text \<open>
  The cache controllers and the invariant of their tag array: every access of a write-back or
  write-through cache keeps each block in at most one line and keeps the count of dirty lines.
\<close>

definition tags_ok :: "data_cache \<Rightarrow> bool" where
  "tags_ok dc \<longleftrightarrow> wf_tags (tags dc) \<and> dirty_ok (tags dc)"

definition live_line :: "data_cache \<Rightarrow> nat \<Rightarrow> bool" where
  "live_line dc i \<longleftrightarrow> i < line_count (tags dc) \<and> \<not> is_invalid_line (m_lines (tags dc) ! i)"

text \<open>\<open>keeps dc i dc'\<close>: the invariant survives, and the line \<open>i\<close> is still live.\<close>

definition keeps :: "data_cache \<Rightarrow> nat \<Rightarrow> data_cache \<Rightarrow> bool" where
  "keeps dc i dc' \<longleftrightarrow> (tags_ok dc \<and> live_line dc i \<longrightarrow> tags_ok dc' \<and> live_line dc' i) \<and> config dc' = config dc"

lemma keeps_refl [simp]: "keeps dc i dc"
  by (simp add: keeps_def)

lemma keeps_trans: "keeps a i b \<Longrightarrow> keeps b i c \<Longrightarrow> keeps a i c"
  by (auto simp: keeps_def)

lemma keepsD: "keeps dc i dc' \<Longrightarrow> tags_ok dc \<Longrightarrow> live_line dc i \<Longrightarrow> tags_ok dc' \<and> live_line dc' i"
  by (simp add: keeps_def)

lemma tags_ok_update:
  assumes "tags_ok dc" and "line_update (tags dc) i b ta" and "slot_ok (tags dc) i b" and "tag_fresh (tags dc) i b"
    and "tags dc' = ta"
  shows "tags_ok dc'"
  using assms line_update_wf [of "tags dc" i b ta] line_update_dirty [of "tags dc" i b ta] by (simp add: tags_ok_def)

lemma live_after:
  assumes "line_update (tags dc) i b ta" and "wf_tags (tags dc)" and "\<not> is_invalid_line b" and "tags dc' = ta"
  shows "live_line dc' i"
  using assms by (auto simp: live_line_def line_update_def line_count_def wf_tags_def)

lemma access_live:
  assumes ok: "tags_ok dc" and m: "get_sector_index (get_access_sector_mask mf) \<noteq> None"
    and on: "m_alloc_policy (config dc) = ON_MISS"
    and a: "access (tags dc) addr time wb ev mf = Some (st, idx, ta, wb', ev')"
    and d: "tags dc' = ta"
  shows "tags_ok dc' \<and> (\<forall>i. idx = Some i \<longrightarrow> live_line dc' i)"
proof (cases idx)
  case None
  note c = access_cases [OF a]
  have "st = RESERVATION_FAIL" using probe_shape [OF access_probe [OF a]] None by simp
  with c have "ta = (tags dc)\<lparr>m_access := m_access (tags dc) + 1, is_used := True, m_res_fail := m_res_fail (tags dc) + 1\<rparr>"
    by (simp add: Let_def)
  with ok d None show ?thesis by (simp add: tags_ok_def frame_simps dirty_ok_def modified_count_def line_count_def)
next
  case (Some i)
  have wf: "wf_tags (tags dc)" using ok by (simp add: tags_ok_def)
  from access_update [OF wf m a [unfolded Some]] obtain b where
    b: "access_line (tags dc) addr time (get_access_sector_mask mf) st (m_lines (tags dc) ! i) b"
    and u: "line_update (tags dc) i b ta" "slot_ok (tags dc) i b" "tag_fresh (tags dc) i b" by blast
  have p: "probe (tags dc) addr (get_access_sector_mask mf) (is_write mf) = Some (st, Some i)"
    using access_probe [OF a] Some by simp
  have il: "i < line_count (tags dc)" using u(1) by (simp add: line_update_def)
  have s: "slot_ok (tags dc) i (m_lines (tags dc) ! i)" by (rule slotD [OF wf il])
  have "\<not> is_invalid_line b"
  proof (cases "st = MISS")
    case True
    with b on have al: "allocate (m_lines (tags dc) ! i) (block_addr (config dc) addr) (block_addr (config dc) addr) time
        (get_access_sector_mask mf) = Some b" by (simp add: access_line_def)
    from allocate_ok [OF al _ _ m] s show ?thesis by (auto simp: slot_ok_def)
  next
    case False
    from hit_holds [OF wf m p False] have n: "\<not> is_invalid_line (m_lines (tags dc) ! i)" by (simp add: holds_def)
    show ?thesis
    proof (cases "st = SECTOR_MISS")
      case True
      with b on have al: "allocate_sector (m_lines (tags dc) ! i) time (get_access_sector_mask mf) = Some b"
        by (simp add: access_line_def)
      from allocate_sector_ok [OF al] s show ?thesis by (auto simp: slot_ok_def)
    next
      case ns: False
      with False b have "set_last_access_time (m_lines (tags dc) ! i) (ucast time) (get_access_sector_mask mf) = Some b"
        by (cases st) (simp_all add: access_line_def)
      from same_state_ops(3) [OF this] n show ?thesis by (simp add: same_state_def)
    qed
  qed
  with tags_ok_update [OF ok u d] live_after [OF u(1) wf _ d] Some show ?thesis by simp
qed

lemma write_block_keeps:
  assumes w: "write_block dc i mf = Some dc'" and m: "get_sector_index (get_access_sector_mask mf) \<noteq> None"
  shows "keeps dc i dc'"
proof -
  from w obtain ta where ta: "mark_modified (tags dc) i (get_access_sector_mask mf) = Some ta"
    and d: "dc' = dc\<lparr>tags := set_line ta i (set_byte_mask (m_lines ta ! i) (get_access_byte_mask mf))\<rparr>"
    by (auto simp: write_block_def update_block_def bind_eq_Some_conv)
  let ?b = "set_byte_mask (m_lines ta ! i) (get_access_byte_mask mf)" and ?d = "dc\<lparr>tags := ta\<rparr>"
  have "tags_ok dc' \<and> live_line dc' i" if ok: "tags_ok dc" and l: "live_line dc i"
  proof -
    have wf: "wf_tags (tags dc)" and i: "i < line_count (tags dc)" "\<not> is_invalid_line (m_lines (tags dc) ! i)"
      using ok l by (simp_all add: tags_ok_def live_line_def)
    from mark_modified_update [OF wf i(1) m i(2) ta] obtain b where
      b: "set_status (m_lines (tags dc) ! i) MODIFIED (get_access_sector_mask mf) = Some b"
      and u: "line_update (tags dc) i b ta" "slot_ok (tags dc) i b" "tag_fresh (tags dc) i b" by blast
    have wb: "wf_block (m_lines (tags dc) ! i)" using slotD [OF wf i(1)] by (simp add: slot_ok_def)
    obtain b1 where b1: "set_status (m_lines (tags dc) ! i) MODIFIED (get_access_sector_mask mf) = Some b1" "wf_block b1"
        "get_status b1 (get_access_sector_mask mf) = Some MODIFIED"
      using blk.put_ok [OF wb m] by blast
    from blk.statusD [OF b1(2,3) m] b b1(1) have n: "\<not> is_invalid_line b" by simp
    have ok1: "tags_ok ?d" by (rule tags_ok_update [OF ok u]) simp
    have l1: "live_line ?d i" by (rule live_after [OF u(1) wf n]) simp
    have k: "kind_ok (ta_config ta) ?b"
      using slotD [of "tags ?d" i] ok1 l1 by (cases "m_lines ta ! i") (auto simp: tags_ok_def live_line_def slot_ok_def)
    have ss: "same_state (m_lines (tags ?d) ! i) ?b" using same_state_ops(1) by simp
    have w1: "wf_tags (tags ?d)" and i1: "i < line_count (tags ?d)" using ok1 l1 by (simp_all add: tags_ok_def live_line_def)
    have k1: "kind_ok (config ?d) ?b" using k by simp
    note fu = flags_update [OF w1 i1 ss k1]
    have dt: "tags dc' = set_line (tags ?d) i ?b" by (simp add: d)
    have "tags_ok dc'" using tags_ok_update [OF ok1 _ _ _ dt] fu by blast
    moreover have "live_line dc' i" using live_after [OF _ w1 _ dt] fu l1 ss by (auto simp: live_line_def same_state_def)
    ultimately show ?thesis by blast
  qed
  moreover have "config dc' = config dc" using write_block_quiet [OF w] by (simp add: quiet_def)
  ultimately show ?thesis by (simp add: keeps_def)
qed

text \<open>Changing flags and masks of a block changes none of this.\<close>

definition flag_op :: "(cache_block \<Rightarrow> cache_block option) \<Rightarrow> bool" where
  "flag_op f \<longleftrightarrow> (\<forall>b b' c. f b = Some b' \<longrightarrow> same_state b b' \<and> kind_ok c b' = kind_ok c b)"

lemma flag_op_bind: "flag_op f \<Longrightarrow> flag_op g \<Longrightarrow> flag_op (\<lambda>b. Option.bind (f b) g)"
  unfolding flag_op_def bind_eq_Some_conv by (blast intro: same_state_trans)

lemma flag_ops [simp]:
  "flag_op (\<lambda>b. set_ignore_on_fill b v m)" "flag_op (\<lambda>b. set_modified_on_fill b v m)"
  "flag_op (\<lambda>b. set_readable_on_fill b v m)" "flag_op (\<lambda>b. set_m_readable b v m)"
  "flag_op (\<lambda>b. Some (set_byte_mask_on_fill b v))" "flag_op Some"
  unfolding flag_op_def
  by (intro allI impI conjI, (auto dest: same_state_ops(3-7) intro: same_state_ops(2)) [1],
      (case_tac b; auto simp: bind_eq_Some_conv) [1])+

lemma update_block_keeps:
  assumes u: "update_block dc i f = Some dc'" and f: "flag_op f"
  shows "keeps dc i dc'"
proof -
  from u obtain b where b: "f (m_lines (tags dc) ! i) = Some b" and d: "dc' = dc\<lparr>tags := set_line (tags dc) i b\<rparr>"
    by (auto simp: update_block_def bind_eq_Some_conv)
  have ss: "same_state (m_lines (tags dc) ! i) b" and k: "kind_ok c b = kind_ok c (m_lines (tags dc) ! i)" for c
    using b f by (auto simp: flag_op_def)
  have "tags_ok dc' \<and> live_line dc' i" if ok: "tags_ok dc" and l: "live_line dc i"
  proof -
    have wf: "wf_tags (tags dc)" and i: "i < line_count (tags dc)" using ok l by (simp_all add: tags_ok_def live_line_def)
    have "kind_ok (config dc) b" using slotD [OF wf i] k by (simp add: slot_ok_def)
    note fu = flags_update [OF wf i ss this]
    have dt: "tags dc' = set_line (tags dc) i b" by (simp add: d)
    have "tags_ok dc'" using tags_ok_update [OF ok _ _ _ dt] fu by blast
    moreover have "live_line dc' i" using live_after [OF _ wf _ dt] fu l ss by (auto simp: live_line_def same_state_def)
    ultimately show ?thesis by blast
  qed
  then show ?thesis by (simp add: keeps_def d)
qed

text \<open>\<open>settles dc dc' i\<close>: the tag access left the invariant and a live line \<open>i\<close>, unless it failed.\<close>

definition settles :: "data_cache \<Rightarrow> cache_request_status \<Rightarrow> nat \<Rightarrow> data_cache \<Rightarrow> bool" where
  "settles dc st i dc' \<longleftrightarrow> tags_ok dc' \<and> config dc' = config dc \<and> (st \<noteq> RESERVATION_FAIL \<longrightarrow> live_line dc' i)"

lemma access_tags_settles:
  assumes a: "access_tags dc addr time i wb ev mf = Some (st, j, wb', ev', dc')" and ok: "tags_ok dc"
    and m: "get_sector_index (get_access_sector_mask mf) \<noteq> None" and on: "m_alloc_policy (config dc) = ON_MISS"
  shows "settles dc st j dc'"
proof -
  from a obtain idx ta where r: "access (tags dc) addr time wb ev mf = Some (st, idx, ta, wb', ev')"
    and j: "j = (case idx of None \<Rightarrow> i | Some i \<Rightarrow> i)" and d: "dc' = dc\<lparr>tags := ta\<rparr>"
    by (auto simp: access_tags_def bind_eq_Some_conv)
  from access_live [OF ok m on r, of dc'] d have l: "tags_ok dc'" "\<forall>i. idx = Some i \<longrightarrow> live_line dc' i" by simp_all
  have "st \<noteq> RESERVATION_FAIL \<Longrightarrow> idx = Some j" using probe_shape [OF access_probe [OF r]] j by auto
  moreover have "config dc' = config dc" using access_tags_quiet [OF a] by (simp add: quiet_def)
  ultimately show ?thesis using l by (auto simp: settles_def)
qed

lemma touch_tags_access:
  "touch_tags dc addr time i mf = Some (st, j, dc') \<Longrightarrow>
    \<exists>ev'. access_tags dc addr time i False evicted_block_info_init mf = Some (st, j, False, ev', dc')"
  by (auto simp: touch_tags_def access_tags_def access_no_wb_def bind_eq_Some_conv)

lemma tag_step_settles:
  "tag_step ro dc baddr time i mf = Some (st, j, wb, ev, dc') \<Longrightarrow> tags_ok dc \<Longrightarrow>
    get_sector_index (get_access_sector_mask mf) \<noteq> None \<Longrightarrow> m_alloc_policy (config dc) = ON_MISS \<Longrightarrow> settles dc st j dc'"
  unfolding tag_step_def
  by (cases ro) (auto simp: bind_eq_Some_conv dest!: touch_tags_access intro: access_tags_settles)

lemma send_read_settles:
  assumes s: "send_read_request dc baddr i p time ev ro wa = Some (do_miss, wb, evd, ev', dc')"
    and mf: "get_mf dc p = Some mf" and ok: "tags_ok dc"
    and m: "get_sector_index (get_access_sector_mask mf) \<noteq> None" and on: "m_alloc_policy (config dc) = ON_MISS"
    and p: "probe (tags dc) baddr (get_access_sector_mask mf) (is_write mf) = Some (st, Some i)"
  shows "tags_ok dc' \<and> config dc' = config dc \<and> (do_miss \<longrightarrow> live_line dc' i)"
  using s
proof (cases rule: send_read_cases)
  case (fail mf' r)
  from count_quiet(3) [OF fail(6)] ok fail(2) show ?thesis by (simp add: tags_ok_def)
next
  case (merge mf' st' j dc1 m')
  have e: "mf' = mf" using merge(1) mf by simp
  note t = merge(6) [unfolded e]
  have j: "st' = st" "j = i" using tag_step_index [OF p t] p by auto
  have "tags dc' = tags dc1" using count_quiet(1) [OF merge(8)] by simp
  with tag_step_settles [OF t ok m on] j probe_shape [OF p] show ?thesis
    by (auto simp: settles_def tags_ok_def live_line_def)
next
  case (queue mf' st' j dc1 m')
  have e: "mf' = mf" using queue(1) mf by simp
  note t = queue(7) [unfolded e]
  have j: "st' = st" "j = i" using tag_step_index [OF p t] p by auto
  have "tags dc' = tags dc1" by (simp add: queue(9) queued_def Let_def set_mf_def)
  with tag_step_settles [OF t ok m on] j probe_shape [OF p] show ?thesis
    by (auto simp: settles_def tags_ok_def live_line_def)
qed

lemma readable_from_keeps: "update_readable_from dc mf i is = Some dc' \<Longrightarrow> keeps dc i dc'"
proof (induction dc mf i "is" rule: update_readable_from.induct)
  case (2 dc mf i k "is")
  from "2.prems" obtain dc1 where
    a: "(if bit (get_access_sector_mask mf) k \<and> sector_all_set (get_dirty_byte_mask (m_lines (tags dc) ! i)) k
        then update_block dc i (\<lambda>b. set_m_readable b True (get_access_sector_mask mf)) else Some dc) = Some dc1"
    and b: "update_readable_from dc1 mf i is = Some dc'"
    by (auto simp: bind_eq_Some_conv)
  have "keeps dc i dc1" using a by (auto split: if_splits dest: update_block_keeps)
  moreover have "keeps dc1 i dc'" using "2.IH" a b by blast
  ultimately show ?case by (rule keeps_trans)
qed simp

lemma m_readable_keeps: "update_m_readable dc mf i = Some dc' \<Longrightarrow> keeps dc i dc'"
  unfolding update_m_readable_def bind_guard_eq_Some by (blast dest: readable_from_keeps)

lemma lazy_flag_op:
  "flag_op (\<lambda>b. do {
       b \<leftarrow> (if r then do {
            b \<leftarrow> set_ignore_on_fill b True m; b \<leftarrow> set_modified_on_fill b True m; Some (set_byte_mask_on_fill b True) } else Some b);
       (if full then set_m_readable b True m
        else do { b \<leftarrow> set_m_readable b False m; (if r then set_readable_on_fill b True m else Some b) }) })"
proof -
  have f: "flag_op (\<lambda>b. if c then f b else g b)" if "flag_op f" "flag_op g" for c f g
    using that by (cases c) simp_all
  show ?thesis by (intro flag_op_bind f flag_ops)
qed

lemma lazy_keeps:
  assumes "lazy_write_block dc i mf st = Some dc'" and "get_sector_index (get_access_sector_mask mf) \<noteq> None"
  shows "keeps dc i dc'"
proof -
  from assms(1) obtain dc1 dc2 where "write_block dc i mf = Some dc1" and u: "update_block dc1 i (\<lambda>b. do {
       b \<leftarrow> (if st = HIT_RESERVED then do {
            b \<leftarrow> set_ignore_on_fill b True (get_access_sector_mask mf);
            b \<leftarrow> set_modified_on_fill b True (get_access_sector_mask mf);
            Some (set_byte_mask_on_fill b True) } else Some b);
       (if bcount (get_access_byte_mask mf) = m_atom_sz (config dc1)
        then set_m_readable b True (get_access_sector_mask mf)
        else do {
          b \<leftarrow> set_m_readable b False (get_access_sector_mask mf);
          (if st = HIT_RESERVED then set_readable_on_fill b True (get_access_sector_mask mf) else Some b) }) }) = Some dc2"
    and "update_m_readable dc2 mf i = Some dc'"
    unfolding lazy_write_block_def bind_eq_Some_conv by blast
  with write_block_keeps [OF _ assms(2)] m_readable_keeps update_block_keeps [OF u lazy_flag_op] show ?thesis
    by (blast intro: keeps_trans)
qed

section \<open>The policies\<close>

text \<open>The situation of the policies: a probed request with one sector, and allocate-on-miss.\<close>

definition ready :: "data_cache \<Rightarrow> u64 \<Rightarrow> nat \<Rightarrow> nat \<Rightarrow> mem_fetch \<Rightarrow> cache_request_status \<Rightarrow> bool" where
  "ready dc addr i p mf st \<longleftrightarrow> tags_ok dc \<and> probed dc addr i p mf st \<and> m_alloc_policy (config dc) = ON_MISS \<and>
     get_sector_index (get_access_sector_mask mf) \<noteq> None"

lemma tags_ok_same: "tags dc' = tags dc \<Longrightarrow> tags_ok dc \<Longrightarrow> tags_ok dc'"
  by (simp add: tags_ok_def)

lemma ready_access:
  assumes r: "ready dc addr i p mf st" and st: "st \<noteq> RESERVATION_FAIL"
    and a: "access_tags dc (block_addr (config dc) addr) time i wb ev mf = Some (st', j, wb', ev', dc')"
  shows "st' = st \<and> tags_ok dc' \<and> live_line dc' j"
proof -
  have pr: "probe (tags dc) (block_addr (config dc) addr) (get_access_sector_mask mf) (is_write mf) = Some (st, Some i)"
    using r st by (auto simp: ready_def dest: probed_index)
  with access_tags_probe [OF a] have "st' = st" by auto
  with access_tags_settles [OF a] r st show ?thesis by (auto simp: ready_def settles_def)
qed

lemma ready_touch:
  "ready dc addr i p mf st \<Longrightarrow> st \<noteq> RESERVATION_FAIL \<Longrightarrow>
    touch_tags dc (block_addr (config dc) addr) time i mf = Some (st', j, dc') \<Longrightarrow> tags_ok dc' \<and> live_line dc' j"
  by (drule touch_tags_access) (blast dest: ready_access)

lemma ready_mf: "ready dc addr i p mf st \<Longrightarrow> get_mf dc p = Some mf \<and> get_sector_index (get_access_sector_mask mf) \<noteq> None"
  by (simp add: ready_def probed_def)

lemma fail_tags: "reservation_fail dc mf r ev = Some (st', ev', dc') \<Longrightarrow> tags dc' = tags dc"
  by (drule reservation_fail_quiet) simp

lemma writeback_tags: "writeback_evicted dc mf wb evd req time ev = Some (ev', dc') \<Longrightarrow> tags dc' = tags dc"
  by (drule writeback_traffic) simp

lemma send_write_tags: "send_write_request dc p req time ev = Some (ev', dc') \<Longrightarrow> tags dc' = tags dc"
  by (drule send_write_traffic) simp

lemma wr_hit_wb_tags:
  assumes r: "ready dc addr i p mf HIT" and h: "wr_hit_wb dc addr i p time ev st = Some (st', ev', dc')"
  shows "tags_ok dc'"
proof -
  note mf = ready_mf [OF r]
  from h mf obtain s j dc1 dc2 where t: "touch_tags dc (block_addr (config dc) addr) time i mf = Some (s, j, dc1)"
    and w: "write_block dc1 j mf = Some dc2" and u: "update_m_readable dc2 mf j = Some dc'"
    by (auto simp: wr_hit_wb_def bind_eq_Some_conv)
  from ready_touch [OF r _ t] write_block_keeps [OF w] m_readable_keeps [OF u] mf show ?thesis
    by (auto dest!: keepsD)
qed

lemma wr_hit_wt_tags:
  assumes r: "ready dc addr i p mf HIT" and h: "wr_hit_wt dc addr i p time ev st = Some (st', ev', dc')"
  shows "tags_ok dc'"
proof (cases "miss_queue_full dc 0")
  case True
  with h r show ?thesis
    by (auto simp: wr_hit_wt_def bind_eq_Some_conv ready_def dest!: fail_tags intro: tags_ok_same)
next
  case False
  note mf = ready_mf [OF r]
  from h mf False obtain s j dc1 dc2 dc3 ev1 where t: "touch_tags dc (block_addr (config dc) addr) time i mf = Some (s, j, dc1)"
    and w: "write_block dc1 j mf = Some dc2" and u: "update_m_readable dc2 mf j = Some dc3"
    and q: "send_write_request dc3 p (cache_event1 WRITE_REQUEST_SENT) time ev = Some (ev1, dc')"
    by (auto simp: wr_hit_wt_def bind_eq_Some_conv)
  from ready_touch [OF r _ t] write_block_keeps [OF w] m_readable_keeps [OF u] mf have "tags_ok dc3"
    by (auto dest!: keepsD)
  then show ?thesis by (rule tags_ok_same [OF send_write_tags [OF q]])
qed

lemma rd_hit_base_tags:
  assumes r: "ready dc addr i p mf HIT" and h: "rd_hit_base dc addr i p time ev st = Some (st', ev', dc')"
  shows "tags_ok dc'"
proof -
  note mf = ready_mf [OF r]
  from h mf obtain s j dc1 where t: "touch_tags dc (block_addr (config dc) addr) time i mf = Some (s, j, dc1)"
    and w: "dc' = dc1 \<or> write_block dc1 j mf = Some dc'"
    by (auto simp: rd_hit_base_def bind_eq_Some_conv split: if_splits)
  from ready_touch [OF r _ t] have "tags_ok dc1" "live_line dc1 j" by simp_all
  with w write_block_keeps mf show ?thesis by (blast dest: keepsD)
qed

lemma ready_send_read:
  assumes "ready dc addr i p mf st" and "st \<noteq> RESERVATION_FAIL"
    and "send_read_request dc (block_addr (config dc) addr) i p time ev ro wa = Some (do_miss, wb, evd, ev', dc')"
  shows "tags_ok dc'"
  using send_read_settles [OF assms(3)] assms(1,2) probed_index by (fastforce simp: ready_def probed_def)

lemma rd_miss_base_tags:
  assumes r: "ready dc addr i p mf st" "st \<noteq> RESERVATION_FAIL" and h: "rd_miss_base dc addr i p time ev st = Some (st', ev', dc')"
  shows "tags_ok dc'"
proof (cases "miss_queue_full dc 1")
  case True
  with h r show ?thesis
    by (auto simp: rd_miss_base_def bind_eq_Some_conv ready_def dest!: fail_tags intro: tags_ok_same)
next
  case False
  note mf = ready_mf [OF r(1)]
  from h mf False obtain do_miss wb evd ev1 dc1 where
    s: "send_read_request dc (block_addr (config dc) addr) i p time ev False False = Some (do_miss, wb, evd, ev1, dc1)"
    and rest: "dc' = dc1 \<or> (\<exists>e. writeback_evicted dc1 mf wb evd (cache_event1 WRITE_BACK_REQUEST_SENT) time ev1 = Some (e, dc'))"
    by (auto simp: rd_miss_base_def bind_eq_Some_conv split: if_splits)
  from ready_send_read [OF r s] rest show ?thesis by (auto dest!: writeback_tags intro: tags_ok_same)
qed

text \<open>The read that an allocating write miss creates.\<close>

lemma alloc_read_settles:
  assumes n: "new_alloc_read dc mf ow = Some (n, dc1)" and r: "ready d0 addr i p mf st" "st \<noteq> RESERVATION_FAIL" "st \<noteq> HIT"
    and d0: "tags dc = tags d0"
    and s: "send_read_request dc1 (block_addr (config dc1) addr) i n time ev ro wa = Some (do_miss, wb, evd, ev', dc2)"
  shows "tags_ok dc2 \<and> (do_miss \<longrightarrow> live_line dc2 i)"
proof -
  from new_alloc_traffic [OF n] obtain f where f: "tags dc1 = tags d0" "get_mf dc1 n = Some f"
    "\<not> is_write f" "get_access_sector_mask f = get_access_sector_mask mf" using d0 by auto
  have "probe (tags d0) (block_addr (config d0) addr) (get_access_sector_mask mf) (is_write mf) = Some (st, Some i)"
    using r by (auto simp: ready_def dest: probed_index)
  then have p: "probe (tags dc1) (block_addr (config dc1) addr) (get_access_sector_mask f) (is_write f) = Some (st, Some i)"
    using probe_read [OF _ r(3)] f by (cases "is_write mf") simp_all
  have "tags_ok dc1" using r(1) f(1) by (auto simp: ready_def intro: tags_ok_same)
  with send_read_settles [OF s f(2) _ _ _ p] r(1) f show ?thesis by (auto simp: ready_def)
qed

lemma wr_miss_wa_naive_tags:
  assumes h: "wr_miss_wa_naive dc addr i p time ev st = Some (st', ev', dc')"
    and r: "ready dc addr i p mf st" "st \<noteq> RESERVATION_FAIL" "st \<noteq> HIT"
  shows "tags_ok dc'"
proof -
  note mf = ready_mf [OF r(1)]
  let ?a = "mshr_addr (config dc) (get_addr mf)"
  from h mf obtain b where b: "write_allocate_blocked dc 2 ?a = Some b"
    unfolding wr_miss_wa_naive_def by (auto simp: bind_eq_Some_conv)
  show ?thesis
  proof (cases b)
    case (Some c)
    with h mf b r show ?thesis by (auto simp: wr_miss_wa_naive_def ready_def dest!: fail_tags intro: tags_ok_same)
  next
    case None
    from h mf b None obtain ev1 dc1 n dc2 do_miss wb evd ev2 dc3 where
      w: "send_write_request dc p (cache_event1 WRITE_REQUEST_SENT) time ev = Some (ev1, dc1)"
      and n: "new_alloc_read dc1 mf None = Some (n, dc2)"
      and s: "send_read_request dc2 (block_addr (config dc2) addr) i n time ev1 False True = Some (do_miss, wb, evd, ev2, dc3)"
      and rest: "dc' = dc3 \<or> (\<exists>e. writeback_evicted dc3 mf wb evd (cache_event2 WRITE_BACK_REQUEST_SENT evd) time
            (ev2 @ [cache_event1 WRITE_ALLOCATE_SENT]) = Some (e, dc'))"
      unfolding wr_miss_wa_naive_def by (auto simp: bind_eq_Some_conv Let_def split: if_splits)
    have "tags_ok dc3" using alloc_read_settles [OF n r send_write_tags [OF w] s] by simp
    with rest show ?thesis by (auto dest!: writeback_tags intro: tags_ok_same)
  qed
qed

lemma fetch_on_write_full_tags:
  assumes h: "fetch_on_write_full dc addr i mf time ev = Some (st', ev', dc')"
    and r: "ready dc addr i p mf st" "st \<noteq> RESERVATION_FAIL"
  shows "tags_ok dc'"
proof (cases "miss_queue_full dc 0")
  case True
  with h r show ?thesis by (auto simp: fetch_on_write_full_def ready_def dest!: fail_tags intro: tags_ok_same)
next
  case False
  with h obtain st1 j wb evd dc1 dc2 dc3 where
    a: "access_tags dc (block_addr (config dc) addr) time i False evicted_block_info_init mf = Some (st1, j, wb, evd, dc1)"
    and b: "write_block dc1 j mf = Some dc2"
    and c: "(if st1 = HIT_RESERVED then update_block dc2 j (\<lambda>b. set_ignore_on_fill b True (get_access_sector_mask mf))
        else Some dc2) = Some dc3"
    and rest: "(if st1 \<noteq> RESERVATION_FAIL then do {
           (events, dc) \<leftarrow> writeback_evicted dc3 mf wb evd (cache_event2 WRITE_BACK_REQUEST_SENT evd) time ev;
           Some (MISS, events, dc) }
         else Some (RESERVATION_FAIL, ev, dc3)) = Some (st', ev', dc')"
    unfolding fetch_on_write_full_def by (auto simp: bind_eq_Some_conv split del: if_split)
  have "keeps dc2 j dc3" using c by (auto split: if_splits dest: update_block_keeps)
  then have "keeps dc1 j dc3" using write_block_keeps [OF b] ready_mf [OF r(1)] keeps_trans by blast
  with ready_access [OF r a] have "tags_ok dc3" by (auto dest: keepsD)
  moreover have "tags dc' = tags dc3" using rest by (auto simp: bind_eq_Some_conv split: if_splits dest: writeback_tags)
  ultimately show ?thesis by (blast intro: tags_ok_same)
qed

lemma fetch_on_write_partial_tags:
  assumes h: "fetch_on_write_partial dc addr i p mf time ev = Some (st', ev', dc')"
    and r: "ready dc addr i p mf st" "st \<noteq> RESERVATION_FAIL" "st \<noteq> HIT" and ok: "flight_ok dc"
  shows "tags_ok dc'"
proof -
  let ?a = "mshr_addr (config dc) (get_addr mf)"
  from h obtain b where b: "write_allocate_blocked dc 1 ?a = Some b"
    unfolding fetch_on_write_partial_def by (auto simp: bind_eq_Some_conv Let_def)
  obtain raw d where raw: "raw_blocked dc mf ?a = (raw, d)" by fastforce
  then have d: "d = dc" by (rule raw_blocked_same)
  note raw = raw [unfolded d]
  consider (failed) c where "reservation_fail dc mf c ev = Some (st', ev', dc')" | (go) "b = None" "\<not> raw"
    using h b raw by (cases b; cases raw) (auto simp: fetch_on_write_partial_def Let_def)
  then show ?thesis
  proof cases
    case failed
    with r(1) show ?thesis by (auto simp: ready_def dest!: fail_tags intro: tags_ok_same)
  next
    case go
    let ?f = "\<lambda>b. do { b \<leftarrow> set_modified_on_fill b True (get_access_sector_mask mf); Some (set_byte_mask_on_fill b True) }"
    from h b raw go obtain n dc1 do_miss wb evd ev2 dc2 dc3 where
      n: "new_alloc_read dc mf (Some p) = Some (n, dc1)"
      and s: "send_read_request dc1 (block_addr (config dc1) addr) i n time ev False True = Some (do_miss, wb, evd, ev2, dc2)"
      and u: "update_block dc2 i ?f = Some dc3"
      and rest: "dc' = dc3 \<or> (\<exists>e. writeback_evicted dc3 mf wb evd (cache_event2 WRITE_BACK_REQUEST_SENT evd) time
            (ev2 @ [cache_event1 WRITE_ALLOCATE_SENT]) = Some (e, dc'))"
      unfolding fetch_on_write_partial_def by (auto simp: bind_eq_Some_conv Let_def split: if_splits)
    have c: "config dc1 = config dc" using new_alloc_traffic [OF n] by simp
    have pr: "probe (tags dc) (block_addr (config dc) addr) (get_access_sector_mask mf) (is_write mf) = Some (st, Some i)"
      using r by (auto simp: ready_def dest: probed_index)
    have "do_miss" using alloc_read_moves [OF n s ok _ _ r(3)] not_blocked [OF b [unfolded go]] c pr by simp
    with alloc_read_settles [OF n r refl s] have "tags_ok dc2" "live_line dc2 i" by simp_all
    moreover have "keeps dc2 i dc3" using update_block_keeps [OF u] flag_op_bind flag_ops(2,5) by blast
    ultimately have "tags_ok dc3" by (auto dest: keepsD)
    with rest show ?thesis by (auto dest!: writeback_tags intro: tags_ok_same)
  qed
qed

lemma wr_miss_wa_lazy_tags:
  assumes h: "wr_miss_wa_lazy_fetch_on_read dc addr i p time ev st = Some (st', ev', dc')"
    and r: "ready dc addr i p mf st" "st \<noteq> RESERVATION_FAIL"
  shows "tags_ok dc'"
proof (cases "miss_queue_full dc 0")
  case True
  with h r show ?thesis
    by (auto simp: wr_miss_wa_lazy_fetch_on_read_def bind_eq_Some_conv ready_def dest!: fail_tags intro: tags_ok_same)
next
  case False
  note mf = ready_mf [OF r(1)]
  from h False mf obtain ev1 dc0 st1 j wb evd dc1 dc2 where
    z: "(if m_write_policy (config dc) = WRITE_THROUGH
          then send_write_request dc p (cache_event1 WRITE_REQUEST_SENT) time ev else Some (ev, dc)) = Some (ev1, dc0)"
    and a: "access_tags dc0 (block_addr (config dc0) addr) time i False evicted_block_info_init mf = Some (st1, j, wb, evd, dc1)"
    and b: "lazy_write_block dc1 j mf st1 = Some dc2"
    and rest: "dc' = dc2 \<or> (\<exists>e. writeback_evicted dc2 mf wb evd
        (cache_event2 WRITE_BACK_REQUEST_SENT evd) time ev1 = Some (e, dc'))"
    unfolding wr_miss_wa_lazy_fetch_on_read_def by (auto simp: bind_eq_Some_conv split: if_splits)
  have t: "tags dc0 = tags dc" using z by (auto split: if_splits dest: send_write_tags)
  have pr: "probe (tags dc) (block_addr (config dc) addr) (get_access_sector_mask mf) (is_write mf) = Some (st, Some i)"
    using r by (auto simp: ready_def dest: probed_index)
  have "st1 = st" using access_tags_probe [OF a] pr t by auto
  moreover have "tags_ok dc0" using r(1) t by (auto simp: ready_def intro: tags_ok_same)
  ultimately have "tags_ok dc1 \<and> live_line dc1 j"
    using access_tags_settles [OF a] r t by (auto simp: ready_def settles_def)
  then have "tags_ok dc2" using lazy_keeps [OF b] mf by (auto dest: keepsD)
  with rest show ?thesis by (auto dest!: writeback_tags intro: tags_ok_same)
qed

lemma dispatch_tags:
  assumes d: "dispatch_probe wr st dc addr i p time ev st = Some (st', ev', dc')"
    and r: "ready dc addr i p mf st" and ok: "flight_ok dc"
    and pol: "m_write_policy (config dc) = WRITE_BACK \<or> m_write_policy (config dc) = WRITE_THROUGH"
  shows "tags_ok dc'"
proof -
  have mf: "get_mf dc p = Some mf" using ready_mf [OF r] by simp
  consider (fail) "count_fail dc mf LINE_ALLOC_FAIL = Some dc'"
    | (wb) "st = HIT" "wr_hit_wb dc addr i p time ev st = Some (st', ev', dc')"
    | (wt) "st = HIT" "wr_hit_wt dc addr i p time ev st = Some (st', ev', dc')"
    | (wm) "wr_miss (config dc) dc addr i p time ev st = Some (st', ev', dc')" "st \<noteq> HIT"
        "st \<noteq> RESERVATION_FAIL \<or> m_write_alloc_policy (config dc) = NO_WRITE_ALLOCATE"
    | (rh) "st = HIT" "rd_hit_base dc addr i p time ev st = Some (st', ev', dc')"
    | (rm) "rd_miss_base dc addr i p time ev st = Some (st', ev', dc')" "st \<noteq> RESERVATION_FAIL"
    using d [unfolded dispatch_probe_def mf bind.bind_lunit] pol
    by (auto simp: bind_eq_Some_conv wr_hit_def split: if_splits)
  then show ?thesis
  proof cases
    case fail
    with count_quiet(3) r show ?thesis by (auto simp: ready_def intro: tags_ok_same)
  next
    case wm
    show ?thesis
    proof (cases "m_write_alloc_policy (config dc) = NO_WRITE_ALLOCATE")
      case True
      with wm(1) r show ?thesis
        by (auto simp: wr_miss_def wr_miss_no_wa_def bind_eq_Some_conv ready_def split: if_splits
            dest!: fail_tags send_write_tags intro: tags_ok_same)
    next
      case False
      with wm(3) have st: "st \<noteq> RESERVATION_FAIL" by simp
      from wm(1) False mf show ?thesis
        by (cases "m_write_alloc_policy (config dc)")
          (auto simp: wr_miss_def wr_miss_wa_fetch_on_write_def split: if_splits
            dest: wr_miss_wa_naive_tags [OF _ r st wm(2)] fetch_on_write_full_tags [OF _ r st]
              fetch_on_write_partial_tags [OF _ r st wm(2) ok] wr_miss_wa_lazy_tags [OF _ r st])
    qed
  next
    case wb
    from wr_hit_wb_tags [OF r [unfolded wb(1)] wb(2)] show ?thesis .
  next
    case wt
    from wr_hit_wt_tags [OF r [unfolded wt(1)] wt(2)] show ?thesis .
  next
    case rh
    from rd_hit_base_tags [OF r [unfolded rh(1)] rh(2)] show ?thesis .
  next
    case rm
    from rd_miss_base_tags [OF r rm(2,1)] show ?thesis .
  qed
qed

lemma data_cache_access_tags:
  assumes r: "data_cache_access dc addr p time ev = Some (st', ev', dc')" and ok: "flight_ok dc" and t: "tags_ok dc"
    and on: "m_alloc_policy (config dc) = ON_MISS"
    and pol: "m_write_policy (config dc) = WRITE_BACK \<or> m_write_policy (config dc) = WRITE_THROUGH"
    and m: "\<And>mf. get_mf dc p = Some mf \<Longrightarrow> get_sector_index (get_access_sector_mask mf) \<noteq> None"
  shows "tags_ok dc'"
proof -
  from r obtain mf st idx dc1 mf1 dc2 mf2 where mf: "get_mf dc p = Some mf"
    and pr: "probe (tags dc) (block_addr (config dc) addr) (get_access_sector_mask mf) (is_write mf) = Some (st, idx)"
    and d: "dispatch_probe (is_write mf) st dc addr (case idx of None \<Rightarrow> NO_INDEX | Some i \<Rightarrow> i) p time ev st = Some (st', ev', dc1)"
    and u: "use_data_port dc1 mf1 st' ev' = Some dc2" and c: "count_access dc2 mf2 st st' = Some dc'"
    unfolding data_cache_access_def process_tag_probe_def by (auto simp: bind_eq_Some_conv)
  have "ready dc addr (case idx of None \<Rightarrow> NO_INDEX | Some i \<Rightarrow> i) p mf st"
    using mf pr t on m by (auto simp: ready_def probed_def)
  from dispatch_tags [OF d this ok pol] have "tags_ok dc1" .
  moreover have "tags dc' = tags dc1" using use_data_port_Some [OF u] count_access_quiet [OF c] by auto
  ultimately show ?thesis by (blast intro: tags_ok_same)
qed

end
