(* ===== verification/Cache_Properties.thy ===== *)
theory Cache_Properties
  imports Cache_Tags
begin

text \<open>
  The properties of the cache controllers, over all interleavings of accesses, fills, responses,
  cycles, flushes and changes that the rest of the simulator makes to its requests.
\<close>

lemma case_option_False: "case_option False P x \<longleftrightarrow> (\<exists>y. x = Some y \<and> P y)"
  by (cases x) auto

section \<open>The cache as a machine\<close>

datatype cache_op =
  Do_access u64 nat u32 "cache_event list"
| Do_read u64 nat u32 "cache_event list"
| Do_fill nat u32
| Do_next
| Do_cycle "nat \<Rightarrow> bool \<Rightarrow> bool"
| Do_flush
| Do_invalidate
| Do_force u64 u32 sector_mask
| Do_env mf_heap

fun cache_do :: "data_cache \<Rightarrow> cache_op \<Rightarrow> data_cache option" where
  "cache_do dc (Do_access addr p time ev) = map_option (\<lambda>(_, _, dc). dc) (data_cache_access dc addr p time ev)"
| "cache_do dc (Do_read addr p time ev) = map_option (\<lambda>(_, _, dc). dc) (read_only_access dc addr p time ev)"
| "cache_do dc (Do_fill p time) = cache_fill dc p time"
| "cache_do dc Do_next = map_option snd (cache_next_access dc)"
| "cache_do dc (Do_cycle memport_full) = map_option snd (cache_cycle memport_full dc)"
| "cache_do dc Do_flush = cache_flush dc"
| "cache_do dc Do_invalidate = cache_invalidate dc"
| "cache_do dc (Do_force addr time m) = force_tag_access dc addr time m"
| "cache_do dc (Do_env h) = Some (dc\<lparr>heap := h\<rparr>)"

text \<open>
  What the callers respect: a request is not handed to the cache again while it waits for its fill, a
  sector reply is not itself a waiting request, and the rest of the simulator does not delete requests
  that wait for a fill.
\<close>

fun cache_op_ok :: "data_cache \<Rightarrow> cache_op \<Rightarrow> bool" where
  "cache_op_ok dc (Do_access addr p time ev) = (\<not> waiting_for_fill dc p)"
| "cache_op_ok dc (Do_read addr p time ev) = (\<not> waiting_for_fill dc p)"
| "cache_op_ok dc (Do_fill p time) = (m_mshr_type (config dc) = SECTOR_ASSOC \<longrightarrow> \<not> waiting_for_fill dc p)"
| "cache_op_ok dc (Do_env h) = (wf_heap h \<and> (\<forall>p. waiting_for_fill dc p \<longrightarrow> mfs h p \<noteq> None))"
| "cache_op_ok dc _ = True"

definition cache_inv :: "cache_config \<Rightarrow> data_cache \<Rightarrow> bool" where
  "cache_inv c dc \<longleftrightarrow> flight_ok dc \<and> config dc = c \<and> length (miss_queue dc) \<le> m_miss_queue_size c"

lemma cache_inv_fits: "cache_inv c dc \<Longrightarrow> fits dc dc' \<Longrightarrow> cache_inv c dc'"
  by (auto simp: cache_inv_def dest: fits_flight fits_queue)

lemma read_only_access_fits:
  assumes r: "read_only_access dc addr p time ev = Some (st', ev', dc')"
    and np: "\<not> waiting_for_fill dc p"
  shows "fits dc dc' \<and> unchanged st' ev ev' dc dc'"
proof -
  from r obtain mf st idx dc1 mf2 where mf: "get_mf dc p = Some mf"
    and pr: "probe (tags dc) (block_addr (config dc) addr) (get_access_sector_mask mf) (is_write mf) = Some (st, idx)"
    and d: "(if st = HIT then do {
          (st', _, dc) \<leftarrow> touch_tags dc (block_addr (config dc) addr) time (case idx of None \<Rightarrow> NO_INDEX | Some i \<Rightarrow> i) mf;
          Some (st', ev, dc) }
        else if st \<noteq> RESERVATION_FAIL then
          (if \<not> miss_queue_full dc 0 then do {
             (do_miss, _, _, events, dc) \<leftarrow> send_read_request dc (block_addr (config dc) addr)
               (case idx of None \<Rightarrow> NO_INDEX | Some i \<Rightarrow> i) p time ev True False;
             Some (if do_miss then MISS else RESERVATION_FAIL, events, dc) }
           else reservation_fail dc mf MISS_QUEUE_FULL ev)
        else reservation_fail dc mf LINE_ALLOC_FAIL ev) = Some (st', ev', dc1)"
    and c: "count_access dc1 mf2 st st' = Some dc'"
    unfolding read_only_access_def Let_def by (auto simp: bind_eq_Some_conv split del: if_split)
  let ?i = "case idx of None \<Rightarrow> NO_INDEX | Some i \<Rightarrow> i"
  have "probed dc addr ?i p mf st" using mf pr by (auto simp: probed_def)
  note pi = probed_index [OF this]
  consider (hit) "st = HIT" | (miss) "st \<noteq> HIT" "st \<noteq> RESERVATION_FAIL" "\<not> miss_queue_full dc 0"
    | (fail) rr where "reservation_fail dc mf rr ev = Some (st', ev', dc1)"
    using d by (cases "st = HIT"; cases "st = RESERVATION_FAIL"; cases "miss_queue_full dc 0") auto
  then have "fits dc dc1 \<and> unchanged st' ev ev' dc dc1"
  proof cases
    case hit
    with d obtain j where t: "touch_tags dc (block_addr (config dc) addr) time ?i mf = Some (st', j, dc1)" and "ev' = ev"
      by (auto simp: bind_eq_Some_conv)
    moreover have "st' = HIT" using t pr hit
      by (auto simp: touch_tags_def access_no_wb_def bind_eq_Some_conv dest!: access_probe)
    ultimately show ?thesis by (auto dest: touch_tags_quiet intro: fits_quiet)
  next
    case miss
    with d obtain do_miss wb evd where
      s: "send_read_request dc (block_addr (config dc) addr) ?i p time ev True False = Some (do_miss, wb, evd, ev', dc1)"
      and st': "st' = (if do_miss then MISS else RESERVATION_FAIL)"
      by (auto simp: bind_eq_Some_conv)
    have m: "moves dc 1 dc1" using send_read_traffic [OF s np mf pi] miss by simp
    have "unchanged st' ev ev' dc dc1" using s
      by (cases rule: send_read_cases) (use st' in \<open>auto simp: unchanged_def dest: count_quiet\<close>)
    with m miss(3) show ?thesis by (auto simp: miss_queue_full_def intro: fitsI)
  next
    case fail
    then show ?thesis by (auto simp: unchanged_def dest!: reservation_fail_quiet intro: fits_quiet)
  qed
  with count_access_quiet [OF c] show ?thesis
    by (auto simp: unchanged_def intro: fits_quiet_right quiet_trans)
qed

section \<open>Fills and responses\<close>

lemma fill_line_length: "fill_line ta i time m bm = Some ta' \<Longrightarrow> length (m_lines ta') = length (m_lines ta)"
  by (auto simp: fill_line_def Let_def bind_eq_Some_conv)

lemma fill_addr_length:
  assumes "fill_addr_mask ta addr time m bm w = Some ta'"
  shows "length (m_lines ta') = length (m_lines ta)"
proof -
  obtain st idx where p: "probe ta addr m w = Some (st, idx)"
    using assms by (cases "probe ta addr m w") (auto simp: fill_addr_mask_def)
  show ?thesis
  proof (cases idx)
    case None
    then show ?thesis using assms p by (simp add: fill_addr_mask_def)
  next
    case (Some i)
    with assms p obtain ta1 where "fill_line ta1 i time m bm = Some ta'" and "length (m_lines ta1) = length (m_lines ta)"
      by (fastforce simp: fill_addr_mask_def Let_def set_line_def bind_eq_Some_conv)
    then show ?thesis using fill_line_length by metis
  qed
qed

text \<open>A fill answers the block of the request and forgets the request.\<close>

lemma set_mf_tags: "tags (set_mf dc p mf) = tags dc" and set_mf_mshrs: "mshrs (set_mf dc p mf) = mshrs dc"
  by (simp_all add: set_mf_def)

lemma fill_request_Some:
  assumes "fill_request dc p time = Some dc'"
  obtains x mf ta e m dc1 where "map_of (extra_fields dc) p = Some x" and "get_mf dc p = Some mf"
    and "mark_ready (mshrs dc) (x_block_addr x) = Some (e, m)"
    and "length (m_lines ta) = length (m_lines (tags dc))" and "ta_config ta = config dc"
    and "quiet ((set_mf dc p (set_addr (mf\<lparr>mf_data_size := x_data_size x\<rparr>) (x_addr x)))\<lparr>tags := ta, mshrs := m\<rparr>) dc1"
    and "dc' = use_fill_port (dc1\<lparr>extra_fields := AList.delete p (extra_fields dc1)\<rparr>)"
proof -
  from assms obtain x mf ta e m dc1 where x: "map_of (extra_fields dc) p = Some x" and mf: "get_mf dc p = Some mf"
    and ta: "(case m_alloc_policy (config (set_mf dc p (set_addr (mf\<lparr>mf_data_size := x_data_size x\<rparr>) (x_addr x)))) of
         ON_MISS \<Rightarrow> fill_index (tags (set_mf dc p (set_addr (mf\<lparr>mf_data_size := x_data_size x\<rparr>) (x_addr x)))) (x_cache_index x) time (set_addr (mf\<lparr>mf_data_size := x_data_size x\<rparr>) (x_addr x))
       | ON_FILL \<Rightarrow> fill_addr (tags (set_mf dc p (set_addr (mf\<lparr>mf_data_size := x_data_size x\<rparr>) (x_addr x)))) (x_block_addr x) time (set_addr (mf\<lparr>mf_data_size := x_data_size x\<rparr>) (x_addr x)) (is_write (set_addr (mf\<lparr>mf_data_size := x_data_size x\<rparr>) (x_addr x)))
       | STREAMING \<Rightarrow> None) = Some ta"
    and m: "mark_ready (mshrs dc) (x_block_addr x) = Some (e, m)"
    and d1: "(if e then do { guard (m_alloc_policy (config ((set_mf dc p (set_addr (mf\<lparr>mf_data_size := x_data_size x\<rparr>) (x_addr x)))\<lparr>tags := ta, mshrs := m\<rparr>)) = ON_MISS);
         write_block ((set_mf dc p (set_addr (mf\<lparr>mf_data_size := x_data_size x\<rparr>) (x_addr x)))\<lparr>tags := ta, mshrs := m\<rparr>)
           (x_cache_index x) (set_addr (mf\<lparr>mf_data_size := x_data_size x\<rparr>) (x_addr x)) }
         else Some ((set_mf dc p (set_addr (mf\<lparr>mf_data_size := x_data_size x\<rparr>) (x_addr x)))\<lparr>tags := ta, mshrs := m\<rparr>)) = Some dc1"
    and d: "dc' = use_fill_port (dc1\<lparr>extra_fields := AList.delete p (extra_fields dc1)\<rparr>)"
    using set_mf_mshrs unfolding fill_request_def Let_def by (auto simp: bind_eq_Some_conv set_mf_mshrs split del: if_split)
  have "length (m_lines ta) = length (m_lines (tags dc)) \<and> ta_config ta = config dc" using ta [unfolded set_mf_tags]
    by (cases "m_alloc_policy (config dc)")
      (auto simp: fill_index_def fill_addr_def dest: fill_line_length fill_addr_length fill_line_frame fill_addr_frame)
  moreover have "quiet ((set_mf dc p (set_addr (mf\<lparr>mf_data_size := x_data_size x\<rparr>) (x_addr x)))\<lparr>tags := ta, mshrs := m\<rparr>) dc1"
    using d1 by (auto split: if_splits dest: write_block_quiet)
  ultimately show thesis using that [OF x mf m _ _ _ d] by blast
qed

lemma fill_request_effect:
  assumes ok: "flight_ok dc" and f: "fill_request dc p time = Some dc'" and x: "map_of (extra_fields dc) p = Some x"
  shows "flight_ok dc' \<and> extra_fields dc' = AList.delete p (extra_fields dc) \<and> miss_queue dc' = miss_queue dc \<and>
    config dc' = config dc \<and>
    mshrs dc' = (mshrs dc)\<lparr>m_current_response := m_current_response (mshrs dc) @ [x_block_addr x]\<rparr>"
proof -
  from f obtain x' mf ta e m dc1 where x': "map_of (extra_fields dc) p = Some x'" and mf: "get_mf dc p = Some mf"
    and mr: "mark_ready (mshrs dc) (x_block_addr x') = Some (e, m)"
    and ta: "length (m_lines ta) = length (m_lines (tags dc))" "ta_config ta = config dc"
    and q: "quiet ((set_mf dc p (set_addr (mf\<lparr>mf_data_size := x_data_size x'\<rparr>) (x_addr x')))\<lparr>tags := ta, mshrs := m\<rparr>) dc1"
    and d: "dc' = use_fill_port (dc1\<lparr>extra_fields := AList.delete p (extra_fields dc1)\<rparr>)"
    by (rule fill_request_Some)
  let ?a = "x_block_addr x" and ?r = "m_current_response (mshrs dc)"
  have xx: "x' = x" using x x' by simp
  have fe: "flight_entry dc p x" using flightD [OF ok x] .
  then have a: "mshr_probe (mshrs dc) ?a" "?a \<notin> set ?r" by (auto simp: flight_entry_def)
  have wf: "wf_mshr (mshrs dc)" using ok by (simp add: flight_ok_def)
  let ?m = "(mshrs dc)\<lparr>m_current_response := ?r @ [?a]\<rparr>"
  from mark_ready_Some [OF wf a] mr have m: "m = ?m" "wf_mshr ?m" by (auto simp: xx)
  have s: "mshrs dc' = ?m" "extra_fields dc' = AList.delete p (extra_fields dc)" "miss_queue dc' = miss_queue dc"
    "config dc' = config dc" "length (m_lines (tags dc')) = length (m_lines (tags dc))"
    "heap dc' = put_mf (heap dc) p (set_addr (mf\<lparr>mf_data_size := x_data_size x'\<rparr>) (x_addr x'))"
    using q ta by (simp_all add: d quiet_def use_fill_port_def set_mf_def m)
  have g: "get_mf dc' q \<noteq> None" if "get_mf dc q \<noteq> None" for q using that by (simp add: get_mf_def s)
  have h: "wf_heap (heap dc')" using flight_wf [OF ok] mf by (auto simp: s wf_heap_def put_mf_def get_mf_def)
  have w: "waiting ?m b = waiting (mshrs dc) b" "mshr_probe ?m b = mshr_probe (mshrs dc) b" for b
    by (simp_all add: waiting_def entry_at_def mshr_probe_def)
  have "flight_entry dc' q y" if y: "map_of (extra_fields dc') q = Some y" for q y
  proof -
    from y have o: "map_of (extra_fields dc) q = Some y" "q \<noteq> p" by (simp_all add: s split: if_splits)
    then have "x_block_addr y \<noteq> ?a" using flight_inj [OF ok o(1) x] by blast
    with flightD [OF ok o(1)] g show ?thesis by (simp add: flight_entry_def s w)
  qed
  moreover have "covered dc'"
    unfolding covered_def
  proof (intro allI impI)
    fix b assume "mshr_probe (mshrs dc') b \<and> b \<notin> set (m_current_response (mshrs dc'))"
    then have b: "mshr_probe (mshrs dc) b" "b \<notin> set ?r" "b \<noteq> ?a" by (simp_all add: s w)
    then obtain q y where y: "map_of (extra_fields dc) q = Some y" "x_block_addr y = b"
      using ok unfolding flight_ok_def covered_def by blast
    moreover have "q \<noteq> p" using y b(3) x by auto
    ultimately show "\<exists>q y. map_of (extra_fields dc') q = Some y \<and> x_block_addr y = b" by (auto simp: s)
  qed
  ultimately have "flight_ok dc'" using h m(2) ok by (simp add: flight_ok_def s distinct_keys_delete)
  with s show ?thesis by simp
qed

lemma fill_request_waiting: "fill_request dc p time = Some dc' \<Longrightarrow> \<exists>x. map_of (extra_fields dc) p = Some x"
  by (erule fill_request_Some) simp

lemma cache_fill_inv:
  assumes ok: "flight_ok dc" and f: "cache_fill dc p time = Some dc'"
    and np: "m_mshr_type (config dc) = SECTOR_ASSOC \<Longrightarrow> \<not> waiting_for_fill dc p"
  shows "flight_ok dc' \<and> miss_queue dc' = miss_queue dc \<and> config dc' = config dc"
proof (cases "m_mshr_type (config dc) = SECTOR_ASSOC")
  case False
  with f have f1: "fill_request dc p time = Some dc'" by (simp add: cache_fill_def)
  from fill_request_waiting [OF f1] fill_request_effect [OF ok f1] show ?thesis by blast
next
  case True
  with f obtain mf o' x where mf: "get_mf dc p = Some mf" and x: "map_of (extra_fields dc) o' = Some x"
    and r: "(if pending_read x - 1 > 0
        then Some (dc\<lparr>extra_fields := AList.update o' (x\<lparr>pending_read := pending_read x - 1\<rparr>) (extra_fields dc), heap := delete_mf (heap dc) p\<rparr>)
        else fill_request (dc\<lparr>extra_fields := AList.update o' (x\<lparr>pending_read := pending_read x - 1\<rparr>) (extra_fields dc), heap := delete_mf (heap dc) p\<rparr>) o' time)
      = Some dc'"
    unfolding cache_fill_def by (auto simp: bind_eq_Some_conv Let_def)
  let ?x = "x\<lparr>pending_read := pending_read x - 1\<rparr>"
  let ?d = "dc\<lparr>extra_fields := AList.update o' ?x (extra_fields dc), heap := delete_mf (heap dc) p\<rparr>"
  have e: "flight_entry ?d q y" if y: "map_of (extra_fields ?d) q = Some y" for q y
  proof -
    have "\<exists>z. map_of (extra_fields dc) q = Some z \<and> x_valid y = x_valid z \<and> x_cache_index y = x_cache_index z \<and>
        x_block_addr y = x_block_addr z"
      using y x by (auto split: if_splits)
    then obtain z where z: "map_of (extra_fields dc) q = Some z" "x_valid y = x_valid z"
      "x_cache_index y = x_cache_index z" "x_block_addr y = x_block_addr z" by blast
    have "q \<noteq> p" using np [OF True] z(1) by (auto simp: waiting_for_fill_def)
    with flightD [OF ok z(1)] z(2-4) show ?thesis by (simp add: flight_entry_def get_mf_def)
  qed
  have "covered ?d" unfolding covered_def
  proof (intro allI impI)
    fix b assume "mshr_probe (mshrs ?d) b \<and> b \<notin> set (m_current_response (mshrs ?d))"
    then obtain q y where y: "map_of (extra_fields dc) q = Some y" "x_block_addr y = b"
      using ok unfolding flight_ok_def covered_def by auto
    then show "\<exists>q y. map_of (extra_fields ?d) q = Some y \<and> x_block_addr y = b"
      using x by (intro exI [of _ q] exI [of _ "if q = o' then ?x else y"]) auto
  qed
  moreover have "wf_heap (delete_mf (heap dc) p)" using flight_wf [OF ok] by (simp add: wf_heap_def delete_mf_def)
  ultimately have okd: "flight_ok ?d" using ok e by (simp add: flight_ok_def distinct_keys_update)
  show ?thesis
  proof (cases "pending_read x - 1 > 0")
    case True
    with r have "dc' = ?d" by simp
    with okd show ?thesis by simp
  next
    case False
    with r have f1: "fill_request ?d o' time = Some dc'" by simp
    from fill_request_waiting [OF f1] obtain y where "map_of (extra_fields ?d) o' = Some y" by blast
    from fill_request_effect [OF okd f1 this] show ?thesis by simp
  qed
qed

lemma next_access_flight:
  assumes ok: "flight_ok dc" and n: "cache_next_access dc = Some (p, dc')"
  shows "flight_ok dc' \<and> miss_queue dc' = miss_queue dc \<and> config dc' = config dc"
proof -
  from n obtain m where m: "next_access (mshrs dc) = Some (p, m)" "dc' = dc\<lparr>mshrs := m\<rparr>"
    by (auto simp: cache_next_access_def bind_eq_Some_conv)
  from m(1) obtain a rest where a: "m_current_response (mshrs dc) = a # rest"
    by (cases "m_current_response (mshrs dc)") (auto simp: next_access_def)
  have wf: "wf_mshr (mshrs dc)" using ok by (simp add: flight_ok_def)
  obtain p' ps t' where "waiting (mshrs dc) a = p' # ps" and n': "next_access (mshrs dc) = Some (p', t')" and w1: "wf_mshr t'"
    and "waiting t' a = ps" and w2: "\<And>b. b \<noteq> a \<Longrightarrow> waiting t' b = waiting (mshrs dc) b"
    and w3: "m_current_response t' = (if ps = [] then rest else a # rest)"
    and w4: "mshr_probe t' a \<longleftrightarrow> ps \<noteq> []" and "m_num_entries t' = m_num_entries (mshrs dc)"
    and "m_max_merged t' = m_max_merged (mshrs dc)"
    and w5: "\<And>b. b \<noteq> a \<Longrightarrow> map_of (m_data t') b = map_of (m_data (mshrs dc)) b"
    by (rule next_access_Some [OF wf a]) (rule that; (assumption | simp))
  have "t' = m" using n' m(1) by simp
  note w = w1 [unfolded this] w2 [unfolded this] w3 [unfolded this] w4 [unfolded this] w5 [unfolded this]
  have na: "a \<notin> set rest" using wf a by (simp add: wf_mshr_def)
  have e: "flight_entry dc' q x" if "flight_entry dc q x" for q x
    using that w a unfolding m(2) flight_entry_def by (auto simp: get_mf_def mshr_probe_def split: if_splits)
  have "covered dc'"
    unfolding covered_def
  proof (intro allI impI)
    fix b assume b: "mshr_probe (mshrs dc') b \<and> b \<notin> set (m_current_response (mshrs dc'))"
    then have "b \<noteq> a" using w(3,4) by (auto simp: m(2) split: if_splits)
    with b w(3,5) a have "mshr_probe (mshrs dc) b" "b \<notin> set (m_current_response (mshrs dc))"
      by (auto simp: m(2) mshr_probe_def split: if_splits)
    then show "\<exists>q x. map_of (extra_fields dc') q = Some x \<and> x_block_addr x = b"
      using ok unfolding flight_ok_def covered_def m(2) by simp
  qed
  with ok e w(1) show ?thesis by (simp add: flight_ok_def m(2))
qed

lemma tags_only_flight:
  "flight_ok dc \<Longrightarrow> length (m_lines ta) = length (m_lines (tags dc)) \<Longrightarrow> flight_ok (dc\<lparr>tags := ta\<rparr>)"
  by (rule flight_frame) (simp_all add: get_mf_def flight_wf)

lemma flush_frame:
  "flush ta = Some ta' \<or> invalidate ta = Some ta' \<Longrightarrow> length (m_lines ta') = length (m_lines ta) \<and> ta_config ta' = ta_config ta"
  by (auto simp: flush_def invalidate_def bind_eq_Some_conv split: if_splits dest: flush_lines_Some)

lemma cycle_flight:
  assumes ok: "flight_ok dc" and c: "cache_cycle full dc = Some (r, dc')"
  shows "flight_ok dc' \<and> config dc' = config dc \<and> (miss_queue dc' = miss_queue dc \<and> r = None \<or>
    (\<exists>p. r = Some p \<and> miss_queue dc = p # miss_queue dc'))"
proof -
  from c obtain d where d: "(case miss_queue dc of
         [] \<Rightarrow> Some (None, dc)
       | p # ps \<Rightarrow> do {
           mf \<leftarrow> get_mf dc p;
           Some (if \<not> full (mf_size mf) (is_write mf) then (Some p, dc\<lparr>miss_queue := ps\<rparr>) else (None, dc)) }) = Some (r, d)"
    and dc': "dc' = replenish_port_bandwidth (d\<lparr>stats := sample_cache_port_utility (stats d) (\<not> data_port_free d) (\<not> fill_port_free d)\<rparr>)"
    unfolding cache_cycle_def Let_def by (auto simp: bind_eq_Some_conv)
  have e: "d = dc \<and> r = None \<or> (\<exists>p ps. r = Some p \<and> miss_queue dc = p # ps \<and> d = dc\<lparr>miss_queue := ps\<rparr>)"
    using d by (cases "miss_queue dc") (auto simp: bind_eq_Some_conv split: if_splits)
  have s: "mshrs dc' = mshrs d" "extra_fields dc' = extra_fields d" "heap dc' = heap d" "tags dc' = tags d"
    "miss_queue dc' = miss_queue d" by (simp_all add: dc' replenish_port_bandwidth_def Let_def)
  have "mshrs d = mshrs dc" "extra_fields d = extra_fields dc" "heap d = heap dc" "tags d = tags dc" using e by auto
  with s flight_wf [OF ok] have "flight_ok dc'" by (intro flight_frame [OF ok]) (simp_all add: get_mf_def)
  with e s show ?thesis by auto
qed

interpretation cache: step_system cache_do "cache_inv c" cache_op_ok for c
proof unfold_locales
  fix dc e dc'
  assume inv: "cache_inv c dc" and ok: "cache_op_ok dc e" and st: "cache_do dc e = Some dc'"
  have fl: "flight_ok dc" and cf: "config dc = c" and len: "length (miss_queue dc) \<le> m_miss_queue_size c"
    using inv by (simp_all add: cache_inv_def)
  show "cache_inv c dc'"
  proof (cases e)
    case (Do_access addr p time ev)
    with st obtain s ev' where r: "data_cache_access dc addr p time ev = Some (s, ev', dc')" by auto
    have "\<not> waiting_for_fill dc p" using ok Do_access by simp
    with data_cache_access_fits [OF r fl] have "fits dc dc'" by blast
    then show ?thesis by (rule cache_inv_fits [OF inv])
  next
    case (Do_read addr p time ev)
    with st obtain s ev' where r: "read_only_access dc addr p time ev = Some (s, ev', dc')" by auto
    have "\<not> waiting_for_fill dc p" using ok Do_read by simp
    with read_only_access_fits [OF r] have "fits dc dc'" by blast
    then show ?thesis by (rule cache_inv_fits [OF inv])
  next
    case (Do_fill p time)
    with cache_fill_inv [OF fl, of p time dc'] ok st len cf show ?thesis by (simp add: cache_inv_def)
  next
    case Do_next
    with st obtain p where "cache_next_access dc = Some (p, dc')" by auto
    from next_access_flight [OF fl this] len cf show ?thesis by (simp add: cache_inv_def)
  next
    case (Do_cycle full)
    with st obtain r where "cache_cycle full dc = Some (r, dc')" by auto
    from cycle_flight [OF fl this] len cf show ?thesis by (auto simp: cache_inv_def)
  next
    case Do_flush
    with st obtain ta where "flush (tags dc) = Some ta" "dc' = dc\<lparr>tags := ta\<rparr>" by (auto simp: cache_flush_def bind_eq_Some_conv)
    with flush_frame [of "tags dc" ta] tags_only_flight [OF fl, of ta] len cf show ?thesis by (simp add: cache_inv_def)
  next
    case Do_invalidate
    with st obtain ta where "invalidate (tags dc) = Some ta" "dc' = dc\<lparr>tags := ta\<rparr>" by (auto simp: cache_invalidate_def bind_eq_Some_conv)
    with flush_frame [of "tags dc" ta] tags_only_flight [OF fl, of ta] len cf show ?thesis by (simp add: cache_inv_def)
  next
    case (Do_force addr time m)
    with st obtain ta where "fill_addr_mask (tags dc) addr time m 0 True = Some ta" "dc' = dc\<lparr>tags := ta\<rparr>"
      by (auto simp: force_tag_access_def bind_eq_Some_conv)
    with fill_addr_length [of "tags dc"] fill_addr_frame [of "tags dc"] tags_only_flight [OF fl, of ta] len cf
    show ?thesis by (auto simp: cache_inv_def)
  next
    case (Do_env h)
    have live: "mfs h p \<noteq> None" if "map_of (extra_fields dc) p \<noteq> None" for p
      using ok Do_env that by (simp add: waiting_for_fill_def)
    have e: "flight_entry (dc\<lparr>heap := h\<rparr>) p x" if "map_of (extra_fields dc) p = Some x" for p x
      using flightD [OF fl that] live [of p] that by (simp add: flight_entry_def get_mf_def)
    have "flight_ok (dc\<lparr>heap := h\<rparr>)" using fl e ok Do_env by (simp add: flight_ok_def covered_def)
    moreover have "dc' = dc\<lparr>heap := h\<rparr>" using Do_env st by simp
    ultimately show ?thesis using len cf by (simp add: cache_inv_def)
  qed
qed

section \<open>A small cache\<close>

definition demo_memory :: memory_config where
  "demo_memory = \<lparr>SST_mode = False, addrdec_tlx = (\<lambda>_. (0, 0)), partition_address = (\<lambda>a. a), icnt_flit_size = 32\<rparr>"

text \<open>Two reads of one sector, a partial write to it and a full write to another block.\<close>

definition demo_heap :: mf_heap where
  "demo_heap = \<lparr>mfs = [0 \<mapsto> demo_mf 0x1080 False 1 0, 1 \<mapsto> demo_mf 0x1080 False 1 0,
     2 \<mapsto> demo_mf 0x1080 True 1 0xF, 3 \<mapsto> demo_mf 0x2080 True 1 0xFFFFFFFF], next_ptr = 4,
     sm_next_mf_request_uid = 5, sm_next_access_uid = 5\<rparr>"

definition demo_cache :: "cache_config \<Rightarrow> data_cache" where
  "demo_cache c = \<lparr>tags = tag_array_new c (set_index tiny_config), mshrs = mshr_table_new (m_mshr_entries c) (m_mshr_max_merge c),
     miss_queue = [], miss_queue_status = IN_PARTITION_L2_MISS_QUEUE, extra_fields = [], stats = cache_stats_new,
     data_port_occupied_cycles = 0, fill_port_occupied_cycles = 0, wr_alloc_type = L2_WR_ALLOC_R,
     wrbk_type = L2_WRBK_ACC, mf_creator = None, mem_config = demo_memory, heap = demo_heap, sim_cycle = 0\<rparr>"

lemma demo_new: "baseline_new tiny_config (set_index tiny_config) IN_PARTITION_L2_MISS_QUEUE L2_WR_ALLOC_R L2_WRBK_ACC
    None demo_memory demo_heap 0 = Some (demo_cache tiny_config)"
  by (simp add: baseline_new_def demo_cache_def tiny_config_def l2_config_def config_blank_def)

lemma demo_heap_wf: "wf_heap demo_heap"
  by (simp add: wf_heap_def demo_heap_def)

lemma demo_flight: "flight_ok (demo_cache c)"
  by (simp add: flight_ok_def demo_cache_def demo_heap_wf wf_mshr_new covered_def)
    (simp add: mshr_probe_def mshr_table_new_def)

lemma demo_tags_ok: "tags_ok (demo_cache tiny_config)"
  using new_wf [OF tiny_geometry] by (simp add: tags_ok_def demo_cache_def)

section \<open>Properties\<close>

text \<open>
  C16: from a fresh cache, whatever the order of accesses, fills, responses, cycles, flushes and outside
  changes, the miss queue never exceeds \<^verbatim>\<open>m_miss_queue_size\<close>, every block that waits in an MSHR has exactly one request in
  flight, namely the first request that missed on it, and every request in flight is alive and recorded
  with a line of the cache. So a fill never hits the asserts on an unknown request.
\<close>

theorem cache_run_invariant:
  assumes new: "baseline_new c idx st wa wb creator mc h cycle = Some dc" and "wf_heap h"
    and "cache.run_ok dc ops" and run: "run cache_do dc ops = Some dc'"
  shows "length (miss_queue dc') \<le> m_miss_queue_size c \<and>
    (\<forall>a. mshr_probe (mshrs dc') a \<and> a \<notin> set (m_current_response (mshrs dc')) \<longrightarrow>
       (\<exists>!p. \<exists>x. map_of (extra_fields dc') p = Some x \<and> x_block_addr x = a)) \<and>
    (\<forall>p x. map_of (extra_fields dc') p = Some x \<longrightarrow> x_valid x \<and> get_mf dc' p \<noteq> None \<and>
       x_cache_index x < length (m_lines (tags dc')) \<and> mshr_probe (mshrs dc') (x_block_addr x) \<and>
       x_block_addr x \<notin> set (m_current_response (mshrs dc')) \<and> hd (waiting (mshrs dc') (x_block_addr x)) = p)"
proof -
  have "\<not> mshr_probe (mshr_table_new n k) a" for n k a by (simp add: mshr_table_new_def mshr_probe_def)
  then have "cache_inv c dc" using new assms(2)
    by (auto simp: baseline_new_def cache_inv_def flight_ok_def covered_def wf_mshr_new tag_array_new_def)
  from cache.run_inv [OF this assms(3) run] have i: "flight_ok dc'" "length (miss_queue dc') \<le> m_miss_queue_size c"
    by (simp_all add: cache_inv_def)
  have "\<exists>!p. \<exists>x. map_of (extra_fields dc') p = Some x \<and> x_block_addr x = a"
    if "mshr_probe (mshrs dc') a \<and> a \<notin> set (m_current_response (mshrs dc'))" for a
    using that i(1) flight_inj [OF i(1)] unfolding flight_ok_def covered_def by blast
  with i(2) flightD [OF i(1)] show ?thesis unfolding flight_entry_def by blast
qed

lemma cache_run_invariant_witness:
  "\<exists>dc. run cache_do (demo_cache tiny_config) [Do_access 0x1080 0 1 [], Do_access 0x1080 1 2 [], Do_fill 0 9] = Some dc \<and>
    length (miss_queue dc) \<le> m_miss_queue_size tiny_config \<and> m_current_response (mshrs dc) = [0x1080]"
proof -
  have "case data_cache_access (demo_cache tiny_config) 0x1080 0 1 [] of None \<Rightarrow> False | Some (_, _, dc1) \<Rightarrow>
      \<not> waiting_for_fill dc1 1 \<and> (case data_cache_access dc1 0x1080 1 2 [] of None \<Rightarrow> False | Some (_, _, dc2) \<Rightarrow>
        m_mshr_type (config dc2) = ASSOC \<and> (case cache_fill dc2 0 9 of None \<Rightarrow> False | Some dc3 \<Rightarrow>
          m_current_response (mshrs dc3) = [0x1080]))"
    by code_simp
  then obtain s1 e1 dc1 s2 e2 dc2 dc3 where
    r: "data_cache_access (demo_cache tiny_config) 0x1080 0 1 [] = Some (s1, e1, dc1)" "\<not> waiting_for_fill dc1 1"
      "data_cache_access dc1 0x1080 1 2 [] = Some (s2, e2, dc2)" "m_mshr_type (config dc2) = ASSOC"
      "cache_fill dc2 0 9 = Some dc3" "m_current_response (mshrs dc3) = [0x1080]"
    by (auto simp: case_option_False)
  let ?ops = "[Do_access 0x1080 0 1 [], Do_access 0x1080 1 2 [], Do_fill 0 9]"
  have "\<not> waiting_for_fill (demo_cache tiny_config) 0" by (simp add: waiting_for_fill_def demo_cache_def)
  with r have "cache.run_ok (demo_cache tiny_config) ?ops" by simp
  moreover have run: "run cache_do (demo_cache tiny_config) ?ops = Some dc3" using r by simp
  ultimately have "length (miss_queue dc3) \<le> m_miss_queue_size tiny_config"
    using cache_run_invariant [OF demo_new demo_heap_wf] by blast
  with run r(6) show ?thesis by blast
qed

text \<open>
  C25: an access that returns \<^verbatim>\<open>RESERVATION_FAIL\<close> has no effect but on the statistics: the tags, the MSHRs,
  the miss queue, the requests, the ports and the events are as before, so the caller may simply
  present the request again.
\<close>

theorem failed_access_unchanged:
  assumes "flight_ok dc" and "\<not> waiting_for_fill dc p"
    and "data_cache_access dc addr p time ev = Some (RESERVATION_FAIL, ev', dc')"
  shows "tags dc' = tags dc \<and> mshrs dc' = mshrs dc \<and> miss_queue dc' = miss_queue dc \<and>
    extra_fields dc' = extra_fields dc \<and> heap dc' = heap dc \<and>
    data_port_occupied_cycles dc' = data_port_occupied_cycles dc \<and> ev' = ev"
  using data_cache_access_fits [OF assms(3,1,2)] by (simp add: unchanged_def quiet_def)

lemma failed_access_unchanged_witness:
  "\<exists>ev dc. data_cache_access (demo_cache (tiny_config\<lparr>m_miss_queue_size := 0\<rparr>)) 0x2080 3 1 [] = Some (RESERVATION_FAIL, ev, dc) \<and>
    tags dc = tags (demo_cache (tiny_config\<lparr>m_miss_queue_size := 0\<rparr>)) \<and> ev = []"
proof -
  let ?d = "demo_cache (tiny_config\<lparr>m_miss_queue_size := 0\<rparr>)"
  have "case data_cache_access ?d 0x2080 3 1 [] of None \<Rightarrow> False | Some (st, _, _) \<Rightarrow> st = RESERVATION_FAIL" by code_simp
  then obtain ev dc where r: "data_cache_access ?d 0x2080 3 1 [] = Some (RESERVATION_FAIL, ev, dc)"
    by (auto simp: case_option_False)
  have "\<not> waiting_for_fill ?d 3" by (simp add: waiting_for_fill_def demo_cache_def)
  from failed_access_unchanged [OF demo_flight this r] r show ?thesis by blast
qed

text \<open>
  C26: in an allocate-on-miss cache with MSHRs of type ASSOC, well-formed tags and the cache index of the request in
  range, the fill of a request in flight for one sector succeeds, takes the request out of flight and appends its block
  to the ready blocks; all other requests in flight, the requests merged on all blocks and the miss
  queue are untouched, and the request that caused the miss is the first to be returned for the block.
\<close>

theorem fill_completes:
  assumes ok: "flight_ok dc" and wf: "wf_tags (tags dc)" and on: "m_alloc_policy (config dc) = ON_MISS"
    and as: "m_mshr_type (config dc) = ASSOC"
    and x: "map_of (extra_fields dc) p = Some x" and i: "x_cache_index x < line_count (tags dc)"
    and mf: "get_mf dc p = Some mf" and m: "get_sector_index (get_access_sector_mask mf) \<noteq> None"
  shows "\<exists>dc'. cache_fill dc p time = Some dc' \<and> extra_fields dc' = AList.delete p (extra_fields dc) \<and>
    m_current_response (mshrs dc') = m_current_response (mshrs dc) @ [x_block_addr x] \<and>
    waiting (mshrs dc') = waiting (mshrs dc) \<and> hd (waiting (mshrs dc') (x_block_addr x)) = p \<and>
    miss_queue dc' = miss_queue dc"
proof -
  let ?mf = "set_addr (mf\<lparr>mf_data_size := x_data_size x\<rparr>) (x_addr x)" and ?a = "x_block_addr x"
  have fe: "flight_entry dc p x" by (rule flightD [OF ok x])
  have sm: "get_access_sector_mask (mf\<lparr>mf_data_size := v\<rparr>) = get_access_sector_mask mf"
    "get_access_byte_mask (mf\<lparr>mf_data_size := v\<rparr>) = get_access_byte_mask mf" for v
    by (simp_all add: get_access_sector_mask_def get_access_byte_mask_def)
  have il: "x_cache_index x < length (m_lines (tags dc))" using fe by (simp add: flight_entry_def)
  let ?l = "m_lines (tags dc) ! x_cache_index x"
  have wb: "wf_block ?l" using slotD [OF wf i] by (simp add: slot_ok_def)
  obtain b where b: "block_fill ?l time (get_access_sector_mask mf) (get_access_byte_mask mf) = Some b" "wf_block b"
    using blk.fill_ok [OF wb m] by blast
  then obtain ta where ta: "fill_index (tags dc) (x_cache_index x) time ?mf = Some ta"
      and tl: "m_lines ta = (m_lines (tags dc))[x_cache_index x := b]" and tc: "ta_config ta = config dc"
    using il on by (auto simp: fill_index_def fill_line_def Let_def sm set_line_def)
  have wfm: "wf_mshr (mshrs dc)" using ok by (simp add: flight_ok_def)
  have a: "mshr_probe (mshrs dc) ?a" "?a \<notin> set (m_current_response (mshrs dc))" using fe by (simp_all add: flight_entry_def)
  from mark_ready_Some [OF wfm a] obtain e m' where mr: "mark_ready (mshrs dc) ?a = Some (e, m')" by blast
  let ?d = "(set_mf dc p ?mf)\<lparr>tags := ta, mshrs := m'\<rparr>"
  from m obtain k where "get_sector_index (get_access_sector_mask mf) = Some k" by blast
  then have "write_block ?d (x_cache_index x) ?mf \<noteq> None"
    using il tl block_ops_total(8) [of "get_access_sector_mask mf" k b MODIFIED]
    by (auto simp: write_block_def mark_modified_def update_block_def sm Let_def inc_dirty_def)
  then obtain dc1 where "(if e then do { guard (m_alloc_policy (config ?d) = ON_MISS); write_block ?d (x_cache_index x) ?mf }
      else Some ?d) = Some dc1" using tc on by (cases e) auto
  then obtain dc' where f: "fill_request dc p time = Some dc'"
    using x mf ta mr fe on by (simp add: fill_request_def Let_def set_mf_tags set_mf_mshrs flight_entry_def)
  from fill_request_effect [OF ok f x] fe have "extra_fields dc' = AList.delete p (extra_fields dc)"
    "m_current_response (mshrs dc') = m_current_response (mshrs dc) @ [?a]" "waiting (mshrs dc') = waiting (mshrs dc)"
    "hd (waiting (mshrs dc') ?a) = p" "miss_queue dc' = miss_queue dc"
    by (auto simp: flight_entry_def waiting_def entry_at_def)
  moreover have "cache_fill dc p time = Some dc'" using f as by (simp add: cache_fill_def)
  ultimately show ?thesis by blast
qed

lemma fill_completes_witness:
  "\<exists>s ev dc1 dc2. data_cache_access (demo_cache tiny_config) 0x1080 0 1 [] = Some (s, ev, dc1) \<and>
    cache_fill dc1 0 9 = Some dc2 \<and> \<not> waiting_for_fill dc2 0 \<and> hd (waiting (mshrs dc2) 0x1080) = 0"
proof -
  have "case data_cache_access (demo_cache tiny_config) 0x1080 0 1 [] of None \<Rightarrow> False | Some (_, _, dc1) \<Rightarrow>
      m_alloc_policy (config dc1) = ON_MISS \<and> m_mshr_type (config dc1) = ASSOC \<and>
      (case map_of (extra_fields dc1) 0 of None \<Rightarrow> False | Some x \<Rightarrow> x_cache_index x < line_count (tags dc1) \<and> x_block_addr x = 0x1080) \<and>
      (case get_mf dc1 0 of None \<Rightarrow> False | Some mf \<Rightarrow> get_access_sector_mask mf = 1)"
    by code_simp
  then obtain s ev dc1 x mf where a: "data_cache_access (demo_cache tiny_config) 0x1080 0 1 [] = Some (s, ev, dc1)"
    and h: "m_alloc_policy (config dc1) = ON_MISS" "m_mshr_type (config dc1) = ASSOC"
      "map_of (extra_fields dc1) 0 = Some x" "x_cache_index x < line_count (tags dc1)" "get_mf dc1 0 = Some mf"
    and k: "x_block_addr x = 0x1080" "get_access_sector_mask mf = 1"
    by (auto simp: case_option_False)
  have np: "\<not> waiting_for_fill (demo_cache tiny_config) 0" by (simp add: waiting_for_fill_def demo_cache_def)
  have ok: "flight_ok dc1" using data_cache_access_fits [OF a demo_flight np] demo_flight by (blast intro: fits_flight)
  have on: "m_alloc_policy (config (demo_cache tiny_config)) = ON_MISS" "m_write_policy (config (demo_cache tiny_config)) = WRITE_BACK"
    by (simp_all add: demo_cache_def tag_array_new_def tiny_config_def l2_config_def config_blank_def)
  have "get_sector_index (get_access_sector_mask f) \<noteq> None" if "get_mf (demo_cache tiny_config) 0 = Some f" for f
    using that by (auto simp: get_mf_def demo_cache_def demo_heap_def demo_mf_def get_access_sector_mask_def)
  with data_cache_access_tags [OF a demo_flight demo_tags_ok on(1)] on(2)
  have wf: "wf_tags (tags dc1)" by (auto simp: tags_ok_def)
  have m: "get_sector_index (get_access_sector_mask mf) \<noteq> None" by (simp add: k)
  from fill_completes [OF ok wf h m, of 9] a k show ?thesis by (auto simp: waiting_for_fill_def)
qed

text \<open>
  C18: with allocate-on-miss, every access of a write-back or write-through cache, whatever the write-miss
  policy and the outcome, leaves a well-formed tag array in which \<^verbatim>\<open>m_dirty\<close> is the number of modified
  lines.
\<close>

theorem access_keeps_tags:
  assumes "data_cache_access dc addr p time ev = Some (st, ev', dc')" and "flight_ok dc"
    and "wf_tags (tags dc)" and "m_dirty (tags dc) = of_nat (modified_count (tags dc))"
    and "m_alloc_policy (config dc) = ON_MISS" and "m_write_policy (config dc) \<in> {WRITE_BACK, WRITE_THROUGH}"
    and "get_mf dc p = Some mf" and "get_sector_index (get_access_sector_mask mf) \<noteq> None"
  shows "wf_tags (tags dc') \<and> m_dirty (tags dc') = of_nat (modified_count (tags dc'))"
  using data_cache_access_tags [OF assms(1,2)] assms(3-8) by (auto simp: tags_ok_def dirty_ok_def)

lemma access_keeps_tags_witness:
  "\<exists>st ev dc. data_cache_access (demo_cache tiny_config) 0x2080 3 1 [] = Some (st, ev, dc) \<and> m_dirty (tags dc) = 1 \<and>
    (of_nat (modified_count (tags dc)) :: u32) = 1 \<and> wf_tags (tags dc)"
proof -
  let ?d = "demo_cache tiny_config"
  have "case data_cache_access ?d 0x2080 3 1 [] of None \<Rightarrow> False | Some (_, _, dc) \<Rightarrow> m_dirty (tags dc) = 1" by code_simp
  then obtain st ev dc where a: "data_cache_access ?d 0x2080 3 1 [] = Some (st, ev, dc)" and m: "m_dirty (tags dc) = 1"
    by (auto simp: case_option_False)
  have c: "m_alloc_policy (config ?d) = ON_MISS" "m_write_policy (config ?d) \<in> {WRITE_BACK, WRITE_THROUGH}"
    by (simp_all add: demo_cache_def tag_array_new_def tiny_config_def l2_config_def config_blank_def)
  have f: "get_mf ?d 3 = Some (demo_mf 0x2080 True 1 0xFFFFFFFF)" by (simp add: get_mf_def demo_cache_def demo_heap_def)
  have k: "get_sector_index (get_access_sector_mask (demo_mf 0x2080 True 1 0xFFFFFFFF)) \<noteq> None"
    by (simp add: demo_mf_def get_access_sector_mask_def)
  have t: "wf_tags (tags ?d)" "m_dirty (tags ?d) = of_nat (modified_count (tags ?d))"
    using demo_tags_ok by (simp_all add: tags_ok_def dirty_ok_def)
  from access_keeps_tags [OF a demo_flight t c f k] have w: "wf_tags (tags dc)" "m_dirty (tags dc) = of_nat (modified_count (tags dc))"
    by simp_all
  with a m show ?thesis by auto
qed

end
