(* ===== verification/Instruction.thy ===== *)
theory Instruction
  imports Mem_Fetch
begin

text \<open>
  The part of \<^verbatim>\<open>inst_t\<close> and \<^verbatim>\<open>warp_inst_t\<close> (abstract_hardware_model.h) that the core model
  reads: the opcode, the register operands and the memory space. Register number 0 stands for
  "no operand", as in the code.
\<close>

datatype op_type =
  NO_OP | ALU_OP | SFU_OP | TENSOR_CORE_OP | DP_OP | SP_OP | INTP_OP | ALU_SFU_OP | LOAD_OP
| TENSOR_CORE_LOAD_OP | TENSOR_CORE_STORE_OP | STORE_OP | BRANCH_OP | BARRIER_OP
| MEMORY_BARRIER_OP | CALL_OPS | RET_OPS | EXIT_OPS
| SPECIALIZED_UNIT_1_OP | SPECIALIZED_UNIT_2_OP | SPECIALIZED_UNIT_3_OP | SPECIALIZED_UNIT_4_OP
| SPECIALIZED_UNIT_5_OP | SPECIALIZED_UNIT_6_OP | SPECIALIZED_UNIT_7_OP | SPECIALIZED_UNIT_8_OP

datatype memory_op = no_memory_op | memory_load | memory_store

definition MAX_OUTPUT_VALUES :: nat where
  "MAX_OUTPUT_VALUES = 8"

definition MAX_INPUT_VALUES :: nat where
  "MAX_INPUT_VALUES = 24"

text \<open>
  \<open>i_out\<close> and \<open>i_in\<close> are the arrays \<^verbatim>\<open>out[8]\<close> and \<^verbatim>\<open>in[24]\<close>; \<open>i_outcount\<close> and \<open>i_incount\<close>
  say how many of their entries are operands. The predicate and address registers are
  \<^verbatim>\<open>int\<close>s.
\<close>

record inst_t =
  i_op :: op_type
  i_memory_op :: memory_op
  i_space :: memory_space
  i_out :: "u32 list"
  i_outcount :: nat
  i_in :: "u32 list"
  i_incount :: nat
  i_pred :: int
  i_ar1 :: int
  i_ar2 :: int
  i_warp_id :: nat

definition is_load :: "inst_t \<Rightarrow> bool" where
  "is_load i \<longleftrightarrow> i_op i = LOAD_OP \<or> i_op i = TENSOR_CORE_LOAD_OP \<or> i_memory_op i = memory_load"

definition is_store :: "inst_t \<Rightarrow> bool" where
  "is_store i \<longleftrightarrow> i_op i = STORE_OP \<or> i_op i = TENSOR_CORE_STORE_OP \<or> i_memory_op i = memory_store"

text \<open>
  What the decoders establish: the arrays have their declared sizes, the entries that are no
  operand are zero, and no register is a destination twice.
\<close>

definition inst_wf :: "inst_t \<Rightarrow> bool" where
  "inst_wf i \<longleftrightarrow> length (i_out i) = MAX_OUTPUT_VALUES \<and> length (i_in i) = MAX_INPUT_VALUES \<and>
    i_outcount i \<le> MAX_OUTPUT_VALUES \<and> i_incount i \<le> MAX_INPUT_VALUES \<and>
    (\<forall>r \<in> set (drop (i_outcount i) (i_out i)). r = 0) \<and>
    distinct (filter (\<lambda>r. r \<noteq> 0) (i_out i))"

end
