(* ===== verification/Scoreboard.thy ===== *)
theory Scoreboard
  imports Instruction
begin

text \<open>
  The register scoreboard of a shader core (scoreboard.cc): for every warp the registers with a
  pending write and, beside them, the destinations of long-latency loads.

  \<open>reserveRegister\<close> aborts on a register that is already reserved; it is \<open>None\<close> there, and where
  the code indexes the table past the number of warps. The events of the core (issue, write
  back of an instruction, write back of one register) form a machine that is compared with the
  specification \<open>last_write\<close>: a register is pending exactly when the last event that names it
  is an issue.
\<close>

section \<open>State and operations\<close>

record scoreboard =
  reg_table :: "u32 set list"
  longopregs :: "u32 set list"

definition scoreboard_new :: "nat \<Rightarrow> scoreboard" where
  "scoreboard_new n_warps =
    \<lparr>reg_table = replicate n_warps {}, longopregs = replicate n_warps {}\<rparr>"

definition reserveRegister :: "scoreboard \<Rightarrow> nat \<Rightarrow> u32 \<Rightarrow> scoreboard option" where
  "reserveRegister sb wid regnum = do {
     guard (wid < length (reg_table sb));
     guard (regnum \<notin> reg_table sb ! wid);
     Some (sb\<lparr>reg_table := (reg_table sb)[wid := insert regnum (reg_table sb ! wid)]\<rparr>)
   }"

definition releaseRegister :: "scoreboard \<Rightarrow> nat \<Rightarrow> u32 \<Rightarrow> scoreboard option" where
  "releaseRegister sb wid regnum = do {
     guard (wid < length (reg_table sb));
     Some (if regnum \<notin> reg_table sb ! wid then sb
           else sb\<lparr>reg_table := (reg_table sb)[wid := reg_table sb ! wid - {regnum}]\<rparr>)
   }"

definition islongop :: "scoreboard \<Rightarrow> nat \<Rightarrow> u32 \<Rightarrow> bool" where
  "islongop sb wid regnum \<longleftrightarrow> regnum \<in> longopregs sb ! wid"

text \<open>The loop over the destination registers, entry 0 of the array first.\<close>

fun reserve_loop :: "scoreboard \<Rightarrow> nat \<Rightarrow> u32 list \<Rightarrow> scoreboard option" where
  "reserve_loop sb wid [] = Some sb"
| "reserve_loop sb wid (r # rs) =
    (if 0 < r then Option.bind (reserveRegister sb wid r) (\<lambda>sb'. reserve_loop sb' wid rs)
     else reserve_loop sb wid rs)"

text \<open>The loads whose destination is long-latency.\<close>

definition long_latency_space :: "memory_space \<Rightarrow> bool" where
  "long_latency_space s \<longleftrightarrow> s = global_space \<or> s = local_space \<or> s = param_space_kernel \<or>
     s = param_space_local \<or> s = param_space_unclassified \<or> s = tex_space"

fun mark_longop :: "scoreboard \<Rightarrow> nat \<Rightarrow> u32 list \<Rightarrow> scoreboard" where
  "mark_longop sb wid [] = sb"
| "mark_longop sb wid (r # rs) = mark_longop
    (if 0 < r then sb\<lparr>longopregs := (longopregs sb)[wid := insert r (longopregs sb ! wid)]\<rparr> else sb)
    wid rs"

definition reserveRegisters :: "scoreboard \<Rightarrow> inst_t \<Rightarrow> scoreboard option" where
  "reserveRegisters sb inst = do {
     sb \<leftarrow> reserve_loop sb (i_warp_id inst) (take MAX_OUTPUT_VALUES (i_out inst));
     Some (if is_load inst \<and> long_latency_space (i_space inst)
           then mark_longop sb (i_warp_id inst) (take MAX_OUTPUT_VALUES (i_out inst))
           else sb)
   }"

fun release_loop :: "scoreboard \<Rightarrow> nat \<Rightarrow> u32 list \<Rightarrow> scoreboard option" where
  "release_loop sb wid [] = Some sb"
| "release_loop sb wid (r # rs) =
    (if 0 < r then Option.bind (releaseRegister sb wid r) (\<lambda>sb'. release_loop
        (sb'\<lparr>longopregs := (longopregs sb')[wid := longopregs sb' ! wid - {r}]\<rparr>) wid rs)
     else release_loop sb wid rs)"

definition releaseRegisters :: "scoreboard \<Rightarrow> inst_t \<Rightarrow> scoreboard option" where
  "releaseRegisters sb inst = release_loop sb (i_warp_id inst) (take MAX_OUTPUT_VALUES (i_out inst))"

text \<open>
  The registers an instruction names. The predicate and address registers are \<^verbatim>\<open>int\<close>s compared
  with \<^verbatim>\<open>0\<close>; looking a register up in the table converts it to \<^verbatim>\<open>unsigned\<close>.
\<close>

definition inst_regs :: "inst_t \<Rightarrow> u32 set" where
  "inst_regs inst = set (take (i_outcount inst) (i_out inst)) \<union> set (take (i_incount inst) (i_in inst))
     \<union> (if 0 < i_pred inst then {word_of_int (i_pred inst)} else {})
     \<union> (if 0 < i_ar1 inst then {word_of_int (i_ar1 inst)} else {})
     \<union> (if 0 < i_ar2 inst then {word_of_int (i_ar2 inst)} else {})"

definition checkCollision :: "scoreboard \<Rightarrow> nat \<Rightarrow> inst_t \<Rightarrow> bool" where
  "checkCollision sb wid inst \<longleftrightarrow> (\<exists>r \<in> inst_regs inst. r \<in> reg_table sb ! wid)"

definition pendingWrites :: "scoreboard \<Rightarrow> nat \<Rightarrow> bool" where
  "pendingWrites sb wid \<longleftrightarrow> reg_table sb ! wid \<noteq> {}"

section \<open>The effect of the operations\<close>

definition sb_inv :: "nat \<Rightarrow> scoreboard \<Rightarrow> bool" where
  "sb_inv n sb \<longleftrightarrow> length (reg_table sb) = n \<and> length (longopregs sb) = n \<and>
     (\<forall>w < n. 0 \<notin> reg_table sb ! w)"

definition outs :: "inst_t \<Rightarrow> u32 list" where
  "outs inst = filter (\<lambda>r. 0 < r) (take MAX_OUTPUT_VALUES (i_out inst))"

lemma reserve_loop_eq:
  "length (reg_table sb) = n \<Longrightarrow> wid < n \<Longrightarrow> reserve_loop sb wid rs =
     (if distinct (filter ((<) 0) rs) \<and> set (filter ((<) 0) rs) \<inter> reg_table sb ! wid = {}
      then Some (sb\<lparr>reg_table := (reg_table sb)
             [wid := reg_table sb ! wid \<union> set (filter ((<) 0) rs)]\<rparr>)
      else None)"
proof (induction rs arbitrary: sb)
  case (Cons r rs)
  show ?case
  proof (cases "0 < r \<and> r \<notin> reg_table sb ! wid")
    case True
    let ?sb = "sb\<lparr>reg_table := (reg_table sb)[wid := insert r (reg_table sb ! wid)]\<rparr>"
    have "length (reg_table ?sb) = n" using Cons.prems by simp
    note IH = Cons.IH [OF this Cons.prems(2)]
    have "reserveRegister sb wid r = Some ?sb" using True Cons.prems by (simp add: reserveRegister_def)
    then have "reserve_loop sb wid (r # rs) = reserve_loop ?sb wid rs" using True by simp
    then show ?thesis using True Cons.prems by (auto simp: IH)
  next
    case False
    then show ?thesis using Cons.prems Cons.IH [OF Cons.prems] by (auto simp: reserveRegister_def)
  qed
qed simp

lemma mark_longop_frame [simp]:
  "reg_table (mark_longop sb wid rs) = reg_table sb"
  "length (longopregs (mark_longop sb wid rs)) = length (longopregs sb)"
  by (induction rs arbitrary: sb) simp_all

lemma mark_longop_at:
  "w < length (longopregs sb) \<Longrightarrow> longopregs (mark_longop sb wid rs) ! w =
     longopregs sb ! w \<union> (if w = wid then set (filter ((<) 0) rs) else {})"
  by (induction rs arbitrary: sb) (auto simp: nth_list_update)

lemma releaseRegister_eq:
  "wid < length (reg_table sb) \<Longrightarrow> releaseRegister sb wid r =
     Some (sb\<lparr>reg_table := (reg_table sb)[wid := reg_table sb ! wid - {r}]\<rparr>)"
  by (simp add: releaseRegister_def)

lemma release_loop_eq:
  "length (reg_table sb) = n \<Longrightarrow> wid < n \<Longrightarrow> \<exists>sb'. release_loop sb wid rs = Some sb' \<and>
     length (longopregs sb') = length (longopregs sb) \<and>
     reg_table sb' = (reg_table sb)[wid := reg_table sb ! wid - set (filter ((<) 0) rs)]"
proof (induction rs arbitrary: sb)
  case (Cons r rs)
  show ?case
  proof (cases "0 < r")
    case True
    obtain s1 where s1: "releaseRegister sb wid r = Some s1" "longopregs s1 = longopregs sb"
        "reg_table s1 = (reg_table sb)[wid := reg_table sb ! wid - {r}]"
      using that [of "sb\<lparr>reg_table := (reg_table sb)[wid := reg_table sb ! wid - {r}]\<rparr>"] Cons.prems
      by (simp add: releaseRegister_eq)
    have "length (reg_table s1) = n" using s1(3) Cons.prems by simp
    then have "length (reg_table (s1\<lparr>longopregs := (longopregs s1)[wid := longopregs s1 ! wid - {r}]\<rparr>)) = n"
      by simp
    from Cons.IH [OF this Cons.prems(2)] True s1 Cons.prems show ?thesis
      by (auto simp: Diff_insert2 [symmetric])
  next
    case False
    then show ?thesis using Cons.IH [OF Cons.prems] by simp
  qed
qed simp

lemma reserveRegisters_eq:
  assumes "length (reg_table sb) = n" and "i_warp_id inst < n"
  shows "(\<exists>sb'. reserveRegisters sb inst = Some sb' \<and> length (longopregs sb') = length (longopregs sb) \<and>
      reg_table sb' = (reg_table sb)[i_warp_id inst := reg_table sb ! i_warp_id inst \<union> set (outs inst)])
    \<longleftrightarrow> distinct (outs inst) \<and> set (outs inst) \<inter> reg_table sb ! i_warp_id inst = {}"
    and "reserveRegisters sb inst = Some sb' \<Longrightarrow> length (longopregs sb') = length (longopregs sb) \<and>
      reg_table sb' = (reg_table sb)[i_warp_id inst := reg_table sb ! i_warp_id inst \<union> set (outs inst)]"
  using assms
  by (auto simp: reserveRegisters_def reserve_loop_eq outs_def split: if_splits)

lemma outs_subset_regs:
  assumes "inst_wf inst" shows "set (outs inst) \<subseteq> inst_regs inst" and "distinct (outs inst)"
proof -
  have "i_out inst = take (i_outcount inst) (i_out inst) @ drop (i_outcount inst) (i_out inst)" by simp
  then have "set (i_out inst) \<subseteq> set (take (i_outcount inst) (i_out inst)) \<union> {0}"
    using assms by (metis Un_mono inst_wf_def set_append subset_refl subset_singletonD subsetI singletonI)
  then show "set (outs inst) \<subseteq> inst_regs inst"
    using assms by (auto simp: outs_def inst_regs_def inst_wf_def)
  have "(\<lambda>r::u32. 0 < r) = (\<lambda>r. r \<noteq> 0)" by (auto simp: word_gt_0)
  then show "distinct (outs inst)" using assms by (simp add: outs_def inst_wf_def)
qed

section \<open>The scoreboard in the core\<close>

text \<open>
  The core issues an instruction only when \<open>checkCollision\<close> finds no hazard
  (\<^verbatim>\<open>scheduler_unit::cycle\<close>), and releases its destinations when it writes back, all at once
  or register by register (loads).
\<close>

datatype sb_event = Issue inst_t | Complete inst_t | Writeback nat u32

fun sb_step :: "scoreboard \<Rightarrow> sb_event \<Rightarrow> scoreboard option" where
  "sb_step sb (Issue i) = reserveRegisters sb i"
| "sb_step sb (Complete i) = releaseRegisters sb i"
| "sb_step sb (Writeback w r) = releaseRegister sb w r"

fun sb_ok :: "nat \<Rightarrow> scoreboard \<Rightarrow> sb_event \<Rightarrow> bool" where
  "sb_ok n sb (Issue i) = (i_warp_id i < n \<and> inst_wf i \<and> \<not> checkCollision sb (i_warp_id i) i)"
| "sb_ok n sb (Complete i) = (i_warp_id i < n)"
| "sb_ok n sb (Writeback w r) = (w < n)"

text \<open>The specification: what the last event that names register \<open>r\<close> of warp \<open>w\<close> did to it.\<close>

fun last_write :: "sb_event list \<Rightarrow> nat \<Rightarrow> u32 \<Rightarrow> bool" where
  "last_write [] w r = False"
| "last_write (e # past) w r = (case e of
       Issue i \<Rightarrow> i_warp_id i = w \<and> r \<in> set (outs i) \<or> last_write past w r
     | Complete i \<Rightarrow> \<not> (i_warp_id i = w \<and> r \<in> set (outs i)) \<and> last_write past w r
     | Writeback w' r' \<Rightarrow> \<not> (w' = w \<and> r' = r) \<and> last_write past w r)"

lemma sb_step_effect:
  assumes "sb_inv n sb" and "sb_ok n sb e"
  shows "\<exists>sb'. sb_step sb e = Some sb' \<and> sb_inv n sb' \<and> (\<forall>w < n. reg_table sb' ! w = (case e of
       Issue i \<Rightarrow> reg_table sb ! w \<union> (if i_warp_id i = w then set (outs i) else {})
     | Complete i \<Rightarrow> reg_table sb ! w - (if i_warp_id i = w then set (outs i) else {})
     | Writeback w' r \<Rightarrow> reg_table sb ! w - (if w' = w then {r} else {})))"
proof (cases e)
  case (Issue i)
  then have i: "i_warp_id i < n" "length (reg_table sb) = n" "distinct (outs i)"
      "set (outs i) \<inter> reg_table sb ! i_warp_id i = {}"
    using assms outs_subset_regs [of i] by (auto simp: sb_inv_def checkCollision_def)
  have "\<forall>r \<in> set (outs i). r \<noteq> 0" by (auto simp: outs_def)
  with reserveRegisters_eq(1) [OF i(2,1)] i show ?thesis
    using assms(1) Issue by (auto simp: sb_inv_def nth_list_update)
next
  case (Complete i)
  with assms have i: "length (reg_table sb) = n" "i_warp_id i < n" by (auto simp: sb_inv_def)
  from release_loop_eq [OF this, of "take MAX_OUTPUT_VALUES (i_out i)"] Complete assms(1) i
  show ?thesis by (auto simp: sb_inv_def releaseRegisters_def outs_def nth_list_update)
next
  case (Writeback w r)
  with assms show ?thesis by (auto simp: sb_inv_def releaseRegister_eq nth_list_update)
qed

interpretation sb: live_system sb_step "sb_inv n" "sb_ok n" for n
  by unfold_locales (use sb_step_effect in fastforce)+

lemma sb_run_pending:
  assumes "sb_inv n sb" and "sb.run_ok n sb es" and "run sb_step sb es = Some sb'"
    and "\<forall>w < n. \<forall>r. r \<in> reg_table sb ! w \<longleftrightarrow> last_write past w r"
    and "w < n"
  shows "r \<in> reg_table sb' ! w \<longleftrightarrow> last_write (rev es @ past) w r"
  using assms
proof (induction es arbitrary: sb past)
  case (Cons e es)
  then have ok: "sb_ok n sb e" by simp
  obtain s1 where s1: "sb_step sb e = Some s1" "sb_inv n s1"
      and tab: "\<forall>w < n. reg_table s1 ! w = (case e of
       Issue i \<Rightarrow> reg_table sb ! w \<union> (if i_warp_id i = w then set (outs i) else {})
     | Complete i \<Rightarrow> reg_table sb ! w - (if i_warp_id i = w then set (outs i) else {})
     | Writeback w' r \<Rightarrow> reg_table sb ! w - (if w' = w then {r} else {}))"
    using sb_step_effect [OF Cons.prems(1) ok] by blast
  have "\<forall>w < n. \<forall>r. r \<in> reg_table s1 ! w \<longleftrightarrow> last_write (e # past) w r"
    using tab Cons.prems(4) by (auto split: sb_event.splits if_splits)
  from Cons.IH [OF s1(2) _ _ this Cons.prems(5)] s1 Cons.prems show ?case by simp
qed simp

section \<open>Properties\<close>

text \<open>
  C21: refinement of the event history. Whatever the interleaving of issues, completions and
  register write-backs of all warps, as long as instructions are issued only when
  \<open>checkCollision\<close> allows them, the scoreboard never aborts, and a register of a warp is pending
  exactly when the last event that names it is an issue.
\<close>

theorem scoreboard_refines_history:
  assumes "sb.run_ok n (scoreboard_new n) es" and "w < n"
  shows "\<exists>sb. run sb_step (scoreboard_new n) es = Some sb \<and>
    (\<forall>r. r \<in> reg_table sb ! w \<longleftrightarrow> last_write (rev es) w r) \<and>
    (pendingWrites sb w \<longleftrightarrow> (\<exists>r. last_write (rev es) w r))"
proof -
  have inv: "sb_inv n (scoreboard_new n)" by (simp add: sb_inv_def scoreboard_new_def)
  obtain sb where sb: "run sb_step (scoreboard_new n) es = Some sb"
    using sb.run_live [OF inv assms(1)] by blast
  have "\<forall>r. r \<in> reg_table sb ! w \<longleftrightarrow> last_write (rev es) w r"
    using sb_run_pending [OF inv assms(1) sb, of "[]" w] assms(2)
    by (simp add: scoreboard_new_def)
  with sb show ?thesis by (auto simp: pendingWrites_def)
qed

definition demo_load :: inst_t where
  "demo_load = \<lparr>i_op = LOAD_OP, i_memory_op = memory_load, i_space = global_space,
     i_out = [5, 0, 0, 0, 0, 0, 0, 0], i_outcount = 1, i_in = 3 # replicate 23 0, i_incount = 1,
     i_pred = 0, i_ar1 = 0, i_ar2 = 0, i_warp_id = 1\<rparr>"

definition demo_add :: inst_t where
  "demo_add = \<lparr>i_op = ALU_OP, i_memory_op = no_memory_op, i_space = undefined_space,
     i_out = [7, 0, 0, 0, 0, 0, 0, 0], i_outcount = 1, i_in = [5, 6] @ replicate 22 0, i_incount = 2,
     i_pred = 2, i_ar1 = 0, i_ar2 = 0, i_warp_id = 1\<rparr>"

lemma demo_inst [simp]:
  "inst_wf demo_load" "inst_wf demo_add" "i_warp_id demo_load = 1" "i_warp_id demo_add = 1"
  "outs demo_load = [5]" "outs demo_add = [7]"
  "inst_regs demo_load = {5, 3}" "inst_regs demo_add = {7, 5, 6, 2}"
  by code_simp+

lemma demo_reserve [simp]:
  "reserveRegisters sb demo_load = Option.bind (reserveRegister sb 1 5)
     (\<lambda>sb'. Some (sb'\<lparr>longopregs := (longopregs sb')[1 := insert 5 (longopregs sb' ! 1)]\<rparr>))"
  "reserveRegisters sb demo_add = reserveRegister sb 1 7"
  by (simp_all add: reserveRegisters_def demo_load_def demo_add_def MAX_OUTPUT_VALUES_def is_load_def
      long_latency_space_def)

lemmas demo_run_simps = scoreboard_new_def reserveRegister_def releaseRegister_def checkCollision_def
  numeral_2_eq_2

theorem scoreboard_refines_history_witness:
  "\<exists>sb. run sb_step (scoreboard_new 2) [Issue demo_load, Writeback 1 5, Issue demo_add] = Some sb \<and>
    (\<forall>r. r \<in> reg_table sb ! 1 \<longleftrightarrow>
      last_write [Issue demo_add, Writeback 1 5, Issue demo_load] 1 r)"
proof -
  have ok: "sb.run_ok 2 (scoreboard_new 2) [Issue demo_load, Writeback 1 5, Issue demo_add]"
    by (auto simp: demo_run_simps)
  show ?thesis using scoreboard_refines_history [OF ok, of 1] by auto
qed

text \<open>
  C29: the hazard check is exact. \<open>checkCollision\<close> holds exactly when the last event of one of these registers is an
  issue: the first \<^verbatim>\<open>outcount\<close> output operands (write after write), the first \<^verbatim>\<open>incount\<close> input operands, the
  predicate register and the two address registers where they are positive (read after write). Nothing else delays an
  instruction.
\<close>

theorem collision_iff_hazard:
  assumes "sb.run_ok n (scoreboard_new n) es" and "w < n"
    and "run sb_step (scoreboard_new n) es = Some sb"
  shows "checkCollision sb w inst \<longleftrightarrow>
    (\<exists>k < length (i_out inst). k < i_outcount inst \<and> last_write (rev es) w (i_out inst ! k)) \<or>
    (\<exists>k < length (i_in inst). k < i_incount inst \<and> last_write (rev es) w (i_in inst ! k)) \<or>
    (0 < i_pred inst \<and> last_write (rev es) w (word_of_int (i_pred inst))) \<or>
    (0 < i_ar1 inst \<and> last_write (rev es) w (word_of_int (i_ar1 inst))) \<or>
    (0 < i_ar2 inst \<and> last_write (rev es) w (word_of_int (i_ar2 inst)))"
proof -
  have inv: "sb_inv n (scoreboard_new n)" by (simp add: sb_inv_def scoreboard_new_def)
  have pending: "r \<in> reg_table sb ! w \<longleftrightarrow> last_write (rev es) w r" for r
    using sb_run_pending [OF inv assms(1,3), of "[]" w] assms(2) by (simp add: scoreboard_new_def)
  have operand: "(\<exists>r \<in> set (take m xs). P r) \<longleftrightarrow> (\<exists>k < length xs. k < m \<and> P (xs ! k))" for m and xs :: "u32 list" and P
  proof
    assume "\<exists>r \<in> set (take m xs). P r"
    then obtain k where "k < length (take m xs)" "P (take m xs ! k)" by (auto simp: in_set_conv_nth)
    then show "\<exists>k < length xs. k < m \<and> P (xs ! k)" by (intro exI [of _ k]) simp
  next
    assume "\<exists>k < length xs. k < m \<and> P (xs ! k)"
    then obtain k where "k < length (take m xs)" "P (take m xs ! k)" by auto
    then show "\<exists>r \<in> set (take m xs). P r" using nth_mem by blast
  qed
  show ?thesis unfolding checkCollision_def pending inst_regs_def bex_Un operand by auto
qed

text \<open>A second addition that only shares its predicate register with the register the load writes.\<close>

definition demo_guarded :: inst_t where
  "demo_guarded = demo_add\<lparr>i_in := [6, 5] @ replicate 22 0, i_incount := 1, i_pred := 5\<rparr>"

theorem collision_iff_hazard_witness:
  "\<exists>sb. run sb_step (scoreboard_new 2) [Issue demo_load] = Some sb \<and>
    checkCollision sb 1 demo_guarded \<and> \<not> checkCollision sb 1 (demo_guarded\<lparr>i_pred := 0\<rparr>) \<and> \<not> checkCollision sb 0 demo_guarded"
proof -
  have ok: "sb.run_ok 2 (scoreboard_new 2) [Issue demo_load]" by (auto simp: demo_run_simps)
  obtain sb where sb: "run sb_step (scoreboard_new 2) [Issue demo_load] = Some sb"
    by (simp add: demo_run_simps)
  have last: "last_write (rev [Issue demo_load]) w r \<longleftrightarrow> w = 1 \<and> r = 5" for w r by (auto simp: demo_run_simps)
  note exact = collision_iff_hazard [OF ok _ sb, unfolded last]
  have "checkCollision sb 1 demo_guarded" by (subst exact) (simp_all add: demo_guarded_def)
  moreover have "\<not> checkCollision sb 1 (demo_guarded\<lparr>i_pred := 0\<rparr>)"
    by (subst exact) (auto simp: demo_guarded_def demo_add_def)
  moreover have "\<not> checkCollision sb 0 demo_guarded" by (subst exact) simp_all
  ultimately show ?thesis using sb by blast
qed

text \<open>
  The comment of \<^verbatim>\<open>longopregs\<close> in scoreboard.h calls it a subset of the pending registers. A load
  releases its destination with \<open>releaseRegister\<close>, which leaves the long-latency mark: after the
  load has completed the register is no longer pending and \<open>islongop\<close> still holds.
\<close>

lemma longop_outlives_load:
  "\<exists>sb. run sb_step (scoreboard_new 2) [Issue demo_load, Writeback 1 5] = Some sb \<and>
    \<not> pendingWrites sb 1 \<and> islongop sb 1 5"
  by (simp add: demo_run_simps pendingWrites_def islongop_def)

end
