(* ===== verification/Simt_Stack.thy ===== *)
theory Simt_Stack
  imports Instruction
begin

text \<open>
  The SIMT reconvergence stack of a warp (\<^verbatim>\<open>simt_stack\<close>, abstract_hardware_model.cc).

  A stack is the list of its entries, the top (the back of the code's \<^verbatim>\<open>deque\<close>) first. After an
  instruction, \<open>simt_update\<close> groups the active threads by their next program counter
  (\<open>group_paths\<close>, the \<^verbatim>\<open>while\<close> loop with the map \<^verbatim>\<open>divergent_paths\<close>) and rewrites the top of
  the stack path by path (\<open>path_loop\<close>). The map is an association list; its first element in
  iteration order is the one with the least key. Failed assertions are \<open>None\<close>.
\<close>

section \<open>State\<close>

datatype stack_entry_type = STACK_ENTRY_TYPE_NORMAL | STACK_ENTRY_TYPE_CALL

record simt_stack_entry =
  se_pc :: u64
  se_calldepth :: nat
  se_active_mask :: warp_mask
  se_recvg_pc :: u64
  se_branch_div_cycle :: u64
  se_type :: stack_entry_type

type_synonym simt_stack = "simt_stack_entry list"

definition null_pc :: u64 where
  "null_pc = - 1"

definition simt_stack_entry_new :: simt_stack_entry where
  "simt_stack_entry_new = \<lparr>se_pc = - 1, se_calldepth = 0, se_active_mask = 0, se_recvg_pc = - 1,
     se_branch_div_cycle = 0, se_type = STACK_ENTRY_TYPE_NORMAL\<rparr>"

definition simt_launch :: "u64 \<Rightarrow> warp_mask \<Rightarrow> simt_stack" where
  "simt_launch start_pc active_mask = [simt_stack_entry_new
     \<lparr>se_pc := start_pc, se_calldepth := 1, se_active_mask := active_mask,
      se_type := STACK_ENTRY_TYPE_NORMAL\<rparr>]"

definition get_active_mask :: "simt_stack \<Rightarrow> warp_mask option" where
  "get_active_mask stk = (case stk of [] \<Rightarrow> None | e # _ \<Rightarrow> Some (se_active_mask e))"

text \<open>The two program counters are returned in \<^verbatim>\<open>unsigned\<close> variables.\<close>

definition get_pdom_stack_top_info :: "simt_stack \<Rightarrow> (u32 \<times> u32) option" where
  "get_pdom_stack_top_info stk =
    (case stk of [] \<Rightarrow> None | e # _ \<Rightarrow> Some (ucast (se_pc e), ucast (se_recvg_pc e)))"

definition get_rp :: "simt_stack \<Rightarrow> u32 option" where
  "get_rp stk = (case stk of [] \<Rightarrow> None | e # _ \<Rightarrow> Some (ucast (se_recvg_pc e)))"

section \<open>Grouping the threads by their next program counter\<close>

text \<open>
  One pass of the \<^verbatim>\<open>for\<close> loop, lane \<open>i - 1\<close> down to lane 0: finished threads and the threads at
  the first program counter met leave \<open>act\<close>; the latter are collected in \<open>m\<close>.
\<close>

fun group_pass :: "warp_mask \<Rightarrow> u64 list \<Rightarrow> nat \<Rightarrow> warp_mask \<Rightarrow> u64 \<Rightarrow> warp_mask \<Rightarrow>
    warp_mask \<times> u64 \<times> warp_mask" where
  "group_pass thread_done next_pc 0 act pc m = (act, pc, m)"
| "group_pass thread_done next_pc (Suc i) act pc m =
    (if bit act i then
       (if bit thread_done i then group_pass thread_done next_pc i (unset_bit i act) pc m
        else if pc = null_pc then
          group_pass thread_done next_pc i (unset_bit i act) (next_pc ! i) (set_bit i m)
        else if pc = next_pc ! i then
          group_pass thread_done next_pc i (unset_bit i act) pc (set_bit i m)
        else group_pass thread_done next_pc i act pc m)
     else group_pass thread_done next_pc i act pc m)"

lemma group_pass_mono:
  "bit (fst (group_pass thread_done next_pc i act pc m)) t \<Longrightarrow> bit act t"
proof (induction i arbitrary: act pc m)
  case (Suc i)
  from Suc.prems show ?case
    by (auto split: if_splits simp: bit_unset_bit_iff dest!: Suc.IH)
qed simp

lemma group_pass_progress:
  "fst (snd (group_pass thread_done next_pc i act null_pc 0)) \<noteq> null_pc \<Longrightarrow>
     \<exists>t < i. bit act t \<and> \<not> bit (fst (group_pass thread_done next_pc i act null_pc 0)) t"
proof (induction i arbitrary: act)
  case (Suc i)
  show ?case
  proof (cases "bit act i")
    case False
    then show ?thesis using Suc.IH [of act] Suc.prems by (auto intro: less_SucI)
  next
    case True
    have "\<not> bit (fst (group_pass thread_done next_pc (Suc i) act null_pc 0)) i"
      using True by (auto dest!: group_pass_mono simp: bit_unset_bit_iff)
    with True show ?thesis by blast
  qed
qed simp

lemma bcount_less:
  fixes a b :: "'a::len word"
  assumes "\<And>t. bit a t \<Longrightarrow> bit b t" and "bit b i" and "\<not> bit a i"
  shows "bcount a < bcount b"
proof -
  have len: "bcount w = card {t. bit w t}" for w :: "'a word"
  proof -
    have "{t. bit w t} = set (filter (bit w) [0..<LENGTH('a)])" by (auto dest: bit_imp_le_length)
    then show ?thesis by (simp only: bcount_def distinct_card [OF distinct_filter [OF distinct_upt], symmetric])
  qed
  have "finite {t. bit b t}"
    by (rule finite_subset [of _ "{..<LENGTH('a)}"]) (auto dest: bit_imp_le_length)
  then show ?thesis unfolding len by (rule psubset_card_mono) (use assms in auto)
qed

text \<open>
  The \<^verbatim>\<open>while\<close> loop: every pass that finds a program counter takes at least one thread out of
  \<open>act\<close>; a pass that finds none has to have emptied it.
\<close>

function group_paths :: "nat \<Rightarrow> warp_mask \<Rightarrow> u64 list \<Rightarrow> warp_mask \<Rightarrow> (u64 \<times> warp_mask) list \<Rightarrow> nat \<Rightarrow>
    ((u64 \<times> warp_mask) list \<times> nat) option" where
  "group_paths ws thread_done next_pc act paths n =
    (if act = 0 then Some (paths, n)
     else let (act', pc, m) = group_pass thread_done next_pc ws act null_pc 0 in
       if pc = null_pc then (if act' = 0 then Some (paths, n) else None)
       else group_paths ws thread_done next_pc act' (AList.update pc m paths) (Suc n))"
  by auto

termination
proof (relation "measure (\<lambda>(ws, thread_done, next_pc, act, paths, n). bcount act)")
  fix ws thread_done next_pc and act :: warp_mask and paths :: "(u64 \<times> warp_mask) list"
    and n :: nat and x y act' pc m
  assume x: "x = group_pass thread_done next_pc ws act null_pc 0" "(act', y) = x" "(pc, m) = y"
    and pc: "pc \<noteq> null_pc"
  then have g: "group_pass thread_done next_pc ws act null_pc 0 = (act', pc, m)" by simp
  obtain t where t: "bit act t" "\<not> bit act' t"
    using group_pass_progress [of thread_done next_pc ws act] pc unfolding g by auto
  have "bit act' u \<Longrightarrow> bit act u" for u
    using group_pass_mono [of thread_done next_pc ws act null_pc 0 u] unfolding g by simp
  from bcount_less [OF this t] have "bcount act' < bcount act" .
  then show "((ws, thread_done, next_pc, act', AList.update pc m paths, Suc n),
      ws, thread_done, next_pc, act, paths, n) \<in> measure (\<lambda>(ws, thread_done, next_pc, act, paths, n). bcount act)"
    by simp
qed simp

declare group_paths.simps [simp del]

section \<open>Rewriting the stack\<close>

text \<open>What an update reads besides the stack: the top entry as it was before and the instruction.\<close>

record update_ctx =
  u_num_paths :: nat
  u_not_taken_pc :: u64
  u_recvg_pc :: u64
  u_op :: op_type
  u_now :: u64
  u_top_recvg_pc :: u64
  u_top_type :: stack_entry_type

text \<open>The path processed in round \<open>i\<close>: the fall-through path if there is one.\<close>

definition choose_path :: "update_ctx \<Rightarrow> nat \<Rightarrow> (u64 \<times> warp_mask) list \<Rightarrow>
    (u64 \<times> warp_mask \<times> (u64 \<times> warp_mask) list) option" where
  "choose_path c i paths =
    (case map_of paths (u_not_taken_pc c) of
       Some m \<Rightarrow> (if i = 0 then Some (u_not_taken_pc c, m, AList.delete (u_not_taken_pc c) paths) else None)
     | None \<Rightarrow> (if paths = [] then None else
         let pc = Min (fst ` set paths) in Some (pc, the (map_of paths pc), AList.delete pc paths)))"

definition call_path :: "update_ctx \<Rightarrow> simt_stack \<Rightarrow> u64 \<Rightarrow> warp_mask \<Rightarrow> simt_stack option" where
  "call_path c stk pc m = do {
     guard (u_num_paths c = 1);
     Some (simt_stack_entry_new\<lparr>se_pc := pc, se_active_mask := m, se_branch_div_cycle := u_now c,
             se_type := STACK_ENTRY_TYPE_CALL\<rparr> # stk)
   }"

definition ret_path :: "update_ctx \<Rightarrow> simt_stack \<Rightarrow> u64 \<Rightarrow> simt_stack option" where
  "ret_path c stk pc = do {
     guard (u_num_paths c = 1);
     (case tl stk of
        [] \<Rightarrow> None
      | b # bs \<Rightarrow> Some (if pc = se_recvg_pc b \<and> se_type b \<noteq> STACK_ENTRY_TYPE_CALL then bs
                        else b\<lparr>se_pc := pc\<rparr> # bs))
   }"

text \<open>The first divergent path turns the top into the entry of the reconvergence point.\<close>

definition set_recvg :: "update_ctx \<Rightarrow> simt_stack \<Rightarrow> simt_stack" where
  "set_recvg c stk = (case stk of
       [] \<Rightarrow> []
     | e # bs \<Rightarrow> (if u_recvg_pc c \<noteq> u_top_recvg_pc c
         then simt_stack_entry_new # e\<lparr>se_pc := u_recvg_pc c, se_branch_div_cycle := u_now c\<rparr> # bs
         else stk))"

text \<open>
  A path that is neither call nor return: \<open>(stack, warp_diverged, new_recvg_pc)\<close> after it.
\<close>

definition plain_path :: "update_ctx \<Rightarrow> simt_stack \<times> bool \<times> u64 \<Rightarrow> u64 \<Rightarrow> warp_mask \<Rightarrow>
    simt_stack \<times> bool \<times> u64" where
  "plain_path c st pc m = (case st of (stk, diverged, new_recvg) \<Rightarrow>
     if pc = u_top_recvg_pc c \<and> u_top_type c \<noteq> STACK_ENTRY_TYPE_CALL then st
     else let first = u_num_paths c > 1 \<and> \<not> diverged;
              stk = (if first then set_recvg c stk else stk);
              new_recvg = (if first then u_recvg_pc c else new_recvg);
              diverged = (diverged \<or> first)
       in if diverged \<and> pc = new_recvg then (stk, diverged, new_recvg)
          else (case stk of
            [] \<Rightarrow> (stk, diverged, new_recvg)
          | e # bs \<Rightarrow> (simt_stack_entry_new #
              (if diverged
               then e\<lparr>se_pc := pc, se_active_mask := m, se_calldepth := 0, se_recvg_pc := new_recvg\<rparr>
               else e\<lparr>se_pc := pc, se_active_mask := m, se_recvg_pc := u_top_recvg_pc c\<rparr>) # bs,
              diverged, new_recvg)))"

text \<open>
  The \<^verbatim>\<open>for\<close> loop from round \<open>i\<close> with \<open>k\<close> rounds to go. Calls and returns leave the function at
  once; otherwise the entry left on the top is dropped at the end. The second component of the
  result tells whether the warp diverged (the code then counts it for the source line).
\<close>

fun path_loop :: "update_ctx \<Rightarrow> nat \<Rightarrow> nat \<Rightarrow> simt_stack \<times> bool \<times> u64 \<Rightarrow> (u64 \<times> warp_mask) list \<Rightarrow>
    (simt_stack \<times> bool) option" where
  "path_loop c i 0 st paths = (case st of (stk, diverged, _) \<Rightarrow>
     if stk = [] then None else Some (tl stk, diverged))"
| "path_loop c i (Suc k) st paths =
     (case choose_path c i paths of
        None \<Rightarrow> None
      | Some (pc, m, paths') \<Rightarrow>
          if u_op c = CALL_OPS then map_option (\<lambda>s. (s, False)) (call_path c (fst st) pc m)
          else if u_op c = RET_OPS \<and> u_top_type c = STACK_ENTRY_TYPE_CALL
            then map_option (\<lambda>s. (s, False)) (ret_path c (fst st) pc)
          else path_loop c (Suc i) k (plain_path c st pc m) paths')"

definition simt_update :: "nat \<Rightarrow> u64 \<Rightarrow> simt_stack \<Rightarrow> warp_mask \<Rightarrow> u64 list \<Rightarrow> u64 \<Rightarrow> op_type \<Rightarrow> u32 \<Rightarrow>
    u64 \<Rightarrow> (simt_stack \<times> bool) option" where
  "simt_update ws now stk thread_done next_pc recvg_pc op isize ipc = (case stk of
       [] \<Rightarrow> None
     | e # _ \<Rightarrow> do {
         guard (length next_pc = ws);
         guard (se_pc e = ipc);
         guard (se_active_mask e \<noteq> 0);
         (paths, n) \<leftarrow> group_paths ws thread_done next_pc (se_active_mask e) [] 0;
         guard (n \<le> 2);
         path_loop \<lparr>u_num_paths = n, u_not_taken_pc = ipc + ucast isize, u_recvg_pc = recvg_pc,
             u_op = op, u_now = now, u_top_recvg_pc = se_recvg_pc e, u_top_type = se_type e\<rparr>
           0 n (stk, False, null_pc) paths
       })"

section \<open>What the grouping computes\<close>

text \<open>\<open>live\<close>: the lanes of \<open>act\<close> that are not finished.\<close>

abbreviation live :: "warp_mask \<Rightarrow> warp_mask \<Rightarrow> nat \<Rightarrow> bool" where
  "live act thread_done t \<equiv> bit act t \<and> \<not> bit thread_done t"

lemma word_nonzero_iff: "w \<noteq> 0 \<longleftrightarrow> (\<exists>t. bit w t)" for w :: "'a::len word"
  by (metis bit_0_eq bot_apply bot_bool_def bit_word_eqI)

lemma mask_eq_iff: "a = b \<longleftrightarrow> (\<forall>t. bit a t \<longleftrightarrow> bit b t)" for a b :: warp_mask
  by (metis bit_word_eqI)

lemma group_pass_rest:
  "pc \<noteq> null_pc \<Longrightarrow> group_pass td nx i act pc m = (act', pc', m') \<Longrightarrow>
    pc' = pc \<and> (\<forall>t. bit act' t \<longleftrightarrow> bit act t \<and> \<not> (t < i \<and> (bit td t \<or> nx ! t = pc))) \<and>
    (\<forall>t. bit m' t \<longleftrightarrow> bit m t \<or> t < i \<and> live act td t \<and> nx ! t = pc)"
proof (induction i arbitrary: act m)
  case (Suc i)
  show ?case
  proof (cases "bit act i \<and> (bit td i \<or> pc = nx ! i)")
    case True
    let ?m = "if bit td i then m else set_bit i m"
    have "i < 32" using True by (auto dest: bit_imp_le_length)
    moreover have "group_pass td nx i (unset_bit i act) pc ?m = (act', pc', m')"
      using Suc.prems True by (auto split: if_splits)
    note Suc.IH [OF Suc.prems(1) this]
    ultimately show ?thesis using True
      by (auto simp: bit_unset_bit_iff bit_set_bit_iff bit_exp_iff less_Suc_eq)
  next
    case False
    then have "group_pass td nx i act pc m = (act', pc', m')" using Suc.prems by (auto split: if_splits)
    from Suc.IH [OF Suc.prems(1) this] False show ?thesis by (auto simp: less_Suc_eq)
  qed
qed auto

lemma group_pass_first:
  "\<forall>t < i. live act td t \<longrightarrow> nx ! t \<noteq> null_pc \<Longrightarrow>
    group_pass td nx i act null_pc 0 = (act', pc, m) \<Longrightarrow>
    (if pc = null_pc then (\<forall>t < i. \<not> live act td t) \<and> (\<forall>t. bit act' t \<longleftrightarrow> bit act t \<and> \<not> t < i)
     else (\<exists>t < i. live act td t \<and> nx ! t = pc) \<and>
       (\<forall>t. bit act' t \<longleftrightarrow> bit act t \<and> \<not> (t < i \<and> (bit td t \<or> nx ! t = pc))) \<and>
       (\<forall>t. bit m t \<longleftrightarrow> t < i \<and> live act td t \<and> nx ! t = pc))"
proof (induction i arbitrary: act)
  case (Suc i)
  consider "live act td i" | "bit act i" "bit td i" | "\<not> bit act i" by blast
  then show ?case
  proof cases
    case 1
    then have "i < 32" and nx: "nx ! i \<noteq> null_pc"
      using Suc.prems(1) by (auto dest: bit_imp_le_length)
    moreover have "group_pass td nx i (unset_bit i act) (nx ! i) (set_bit i 0) = (act', pc, m)"
      using Suc.prems 1 by simp
    note group_pass_rest [OF nx this]
    ultimately show ?thesis using 1
      by (auto simp: bit_unset_bit_iff bit_set_bit_iff bit_exp_iff less_Suc_eq)
  next
    case 2
    have "group_pass td nx i (unset_bit i act) null_pc 0 = (act', pc, m)" using Suc.prems 2 by simp
    moreover have "\<forall>t < i. live (unset_bit i act) td t \<longrightarrow> nx ! t \<noteq> null_pc"
      using Suc.prems(1) by (auto simp: bit_unset_bit_iff)
    ultimately show ?thesis using Suc.IH [of "unset_bit i act"] 2
      by (simp add: bit_unset_bit_iff less_Suc_eq split: if_splits) blast+
  next
    case 3
    then have "group_pass td nx i act null_pc 0 = (act', pc, m)" using Suc.prems by simp
    with Suc.IH [of act] Suc.prems(1) 3 show ?thesis
      by (simp add: less_Suc_eq split: if_splits) blast+
  qed
qed auto

lemma group_paths_spec_aux:
  assumes "\<forall>t. bit act t \<longrightarrow> t < ws" and "\<forall>t. live act td t \<longrightarrow> nx ! t \<noteq> null_pc"
    and "distinct (map fst paths)" and "n = length paths"
    and "\<forall>t. live act td t \<longrightarrow> map_of paths (nx ! t) = None"
  shows "\<exists>paths'. group_paths ws td nx act paths n = Some (paths', length paths') \<and>
    distinct (map fst paths') \<and>
    (\<forall>pc m. map_of paths' pc = Some m \<longleftrightarrow> map_of paths pc = Some m \<or>
       m \<noteq> 0 \<and> (\<forall>t. bit m t \<longleftrightarrow> live act td t \<and> nx ! t = pc))"
  using assms
proof (induction ws td nx act paths n rule: group_paths.induct)
  case (1 ws td nx act paths n)
  obtain act' pc m where g: "group_pass td nx ws act null_pc 0 = (act', pc, m)"
    by (cases "group_pass td nx ws act null_pc 0")
  have live: "\<forall>t < ws. live act td t \<longrightarrow> nx ! t \<noteq> null_pc" using "1.prems"(2) by simp
  note spec = group_pass_first [OF live g]
  consider "act = 0" | "act \<noteq> 0" "pc = null_pc" | "act \<noteq> 0" "pc \<noteq> null_pc" by blast
  then show ?case
  proof cases
    case 1
    then show ?thesis using "1.prems" by (auto simp: group_paths.simps mask_eq_iff)
  next
    case 2
    then have "act' = 0" using spec "1.prems"(1) by (auto intro!: bit_word_eqI)
    moreover have "\<not> live act td t" for t using 2 spec "1.prems"(1) by auto
    ultimately show ?thesis using 2 "1.prems" g
      by (auto simp: group_paths.simps [of ws td nx act] mask_eq_iff)
  next
    case 3
    let ?paths = "AList.update pc m paths"
    from spec 3 have ex: "\<exists>t < ws. live act td t \<and> nx ! t = pc"
      and a: "\<And>t. bit act' t \<longleftrightarrow> bit act t \<and> \<not> (t < ws \<and> (bit td t \<or> nx ! t = pc))"
      and m: "\<And>t. bit m t \<longleftrightarrow> t < ws \<and> live act td t \<and> nx ! t = pc" by auto
    have new: "map_of paths pc = None" using ex "1.prems"(5) by auto
    have live': "live act' td t \<longleftrightarrow> live act td t \<and> nx ! t \<noteq> pc" for t
      using a "1.prems"(1) by auto
    have "m \<noteq> 0" using ex m unfolding word_nonzero_iff by blast
    have "\<exists>paths'. group_paths ws td nx act' ?paths (Suc n) = Some (paths', length paths') \<and>
        distinct (map fst paths') \<and> (\<forall>pc' m'. map_of paths' pc' = Some m' \<longleftrightarrow>
          map_of ?paths pc' = Some m' \<or> m' \<noteq> 0 \<and> (\<forall>t. bit m' t \<longleftrightarrow> live act' td t \<and> nx ! t = pc'))"
    proof (rule "1.IH" [OF 3(1) g [symmetric] refl refl 3(2)])
      show "\<forall>t. bit act' t \<longrightarrow> t < ws" using a "1.prems"(1) by simp
      show "\<forall>t. live act' td t \<longrightarrow> nx ! t \<noteq> null_pc" using live' "1.prems"(2) by simp
      show "distinct (map fst ?paths)" by (rule distinct_keys_update [OF "1.prems"(3)])
      show "Suc n = length ?paths" using new "1.prems"(4) by (simp add: length_alist_update)
      show "\<forall>t. live act' td t \<longrightarrow> map_of ?paths (nx ! t) = None" using live' "1.prems"(5) by auto
    qed
    then obtain paths' where p: "group_paths ws td nx act' ?paths (Suc n) = Some (paths', length paths')"
        "distinct (map fst paths')"
      and lookup: "\<And>pc' m'. map_of paths' pc' = Some m' \<longleftrightarrow> map_of ?paths pc' = Some m' \<or>
          m' \<noteq> 0 \<and> (\<forall>t. bit m' t \<longleftrightarrow> live act' td t \<and> nx ! t = pc')" by blast
    have "map_of paths' pc' = Some m' \<longleftrightarrow> map_of paths pc' = Some m' \<or>
        m' \<noteq> 0 \<and> (\<forall>t. bit m' t \<longleftrightarrow> live act td t \<and> nx ! t = pc')" for pc' m'
    proof (cases "pc' = pc")
      case True
      have "m' = m \<longleftrightarrow> (\<forall>t. bit m' t \<longleftrightarrow> live act td t \<and> nx ! t = pc)"
        using m "1.prems"(1) by (auto simp: mask_eq_iff)
      moreover have "m' \<noteq> 0 \<Longrightarrow> \<exists>t. bit m' t" by (simp add: word_nonzero_iff)
      ultimately show ?thesis using True new \<open>m \<noteq> 0\<close> lookup [of pc m'] live' by auto
    next
      case False
      have "(live act' td t \<and> nx ! t = pc') = (live act td t \<and> nx ! t = pc')" for t
        using False live' by auto
      then show ?thesis using False lookup [of pc' m'] by simp
    qed
    with p show ?thesis using 3 g by (auto simp: group_paths.simps [of ws td nx act])
  qed
qed

lemma group_paths_spec:
  assumes "\<forall>t. bit act t \<longrightarrow> t < ws" and "\<forall>t. live act td t \<longrightarrow> nx ! t \<noteq> null_pc"
  obtains paths where "group_paths ws td nx act [] 0 = Some (paths, length paths)"
    and "distinct (map fst paths)"
    and "\<And>pc m. map_of paths pc = Some m \<longleftrightarrow> m \<noteq> 0 \<and> (\<forall>t. bit m t \<longleftrightarrow> live act td t \<and> nx ! t = pc)"
  using group_paths_spec_aux [OF assms, of "[]" 0] by auto

end
