(* ===== verification/Simt_Properties.thy ===== *)
theory Simt_Properties
  imports Simt_Stack
begin

text \<open>
  Correctness of the SIMT stack: an invariant on the nesting of its entries, no live thread is
  ever lost, and after an update every live thread sits at its own next program counter.
\<close>

section \<open>The shape of a stack\<close>

definition submask :: "warp_mask \<Rightarrow> warp_mask \<Rightarrow> bool" where
  "submask a b \<longleftrightarrow> a AND b = a"

definition meets :: "warp_mask \<Rightarrow> warp_mask \<Rightarrow> bool" where
  "meets a b \<longleftrightarrow> a AND b \<noteq> 0"

lemma submask_iff: "submask a b \<longleftrightarrow> (\<forall>t. bit a t \<longrightarrow> bit b t)"
  by (auto simp: submask_def mask_eq_iff bit_and_iff)

lemma meets_iff: "meets a b \<longleftrightarrow> (\<exists>t. bit a t \<and> bit b t)"
  by (auto simp: meets_def word_nonzero_iff bit_and_iff)

text \<open>The nearest entry below that shares a lane with the mask.\<close>

fun first_hit :: "warp_mask \<Rightarrow> simt_stack \<Rightarrow> simt_stack_entry option" where
  "first_hit m [] = None"
| "first_hit m (b # bs) = (if meets m (se_active_mask b) then Some b else first_hit m bs)"

text \<open>
  An entry and what lies below it: the nearest entry that shares a lane contains all of its
  lanes; for a call this is the caller, directly below; for an ordinary entry with a
  reconvergence point it waits at this point.
\<close>

definition entry_ok :: "simt_stack_entry \<Rightarrow> simt_stack \<Rightarrow> bool" where
  "entry_ok e bs \<longleftrightarrow> (case first_hit (se_active_mask e) bs of
       None \<Rightarrow> se_type e = STACK_ENTRY_TYPE_NORMAL \<and> se_recvg_pc e = null_pc
     | Some b \<Rightarrow> submask (se_active_mask e) (se_active_mask b) \<and>
         (if se_type e = STACK_ENTRY_TYPE_CALL
          then se_recvg_pc e = null_pc \<and> meets (se_active_mask e) (se_active_mask (hd bs))
          else se_recvg_pc e = null_pc \<or> se_pc b = se_recvg_pc e))"

fun stack_wf :: "nat \<Rightarrow> simt_stack \<Rightarrow> bool" where
  "stack_wf ws [] = True"
| "stack_wf ws (e # bs) = (se_active_mask e \<noteq> 0 \<and> drop_bit ws (se_active_mask e) = 0 \<and>
     entry_ok e bs \<and> stack_wf ws bs)"

text \<open>The lanes of a stack, and where a lane executes next: at the nearest entry that holds it.\<close>

fun covered :: "simt_stack \<Rightarrow> warp_mask" where
  "covered [] = 0"
| "covered (e # bs) = se_active_mask e OR covered bs"

definition thread_pc :: "simt_stack \<Rightarrow> nat \<Rightarrow> u64 option" where
  "thread_pc stk t = map_option se_pc (List.find (\<lambda>e. bit (se_active_mask e) t) stk)"

lemma thread_pc_Cons [simp]:
  "thread_pc (e # bs) t = (if bit (se_active_mask e) t then Some (se_pc e) else thread_pc bs t)"
  by (simp add: thread_pc_def)

lemma bits_below: "drop_bit ws m = 0 \<longleftrightarrow> (\<forall>t. bit m t \<longrightarrow> t < ws)" for m :: warp_mask
proof
  assume "drop_bit ws m = 0"
  then have "\<not> bit (drop_bit ws m) (t - ws)" for t by simp
  then show "\<forall>t. bit m t \<longrightarrow> t < ws"
    by (metis bit_drop_bit_eq comp_apply le_add_diff_inverse not_le)
next
  assume "\<forall>t. bit m t \<longrightarrow> t < ws"
  then show "drop_bit ws m = 0" by (auto simp: mask_eq_iff bit_drop_bit_eq)
qed

lemma bit_covered: "bit (covered stk) t \<longleftrightarrow> (\<exists>e \<in> set stk. bit (se_active_mask e) t)"
  by (induction stk) (auto simp: bit_or_iff)

lemma first_hit_mem: "first_hit m bs = Some b \<Longrightarrow> b \<in> set bs \<and> meets m (se_active_mask b)"
  by (induction bs) (auto split: if_splits)

lemma first_hit_submask:
  assumes "submask m m'" and "m \<noteq> 0" and "\<And>b. first_hit m' bs = Some b \<Longrightarrow> submask m' (se_active_mask b)"
  shows "first_hit m bs = first_hit m' bs"
  using assms(3)
proof (induction bs)
  case (Cons b bs)
  have "meets m (se_active_mask b) = meets m' (se_active_mask b)"
    using assms(1,2) Cons.prems [of b] unfolding meets_iff submask_iff word_nonzero_iff
    by (metis first_hit.simps(2) meets_iff submask_iff)
  with Cons show ?case by auto
qed simp

lemma find_first_hit:
  assumes "bit m t" and "\<And>b. first_hit m bs = Some b \<Longrightarrow> submask m (se_active_mask b)"
  shows "List.find (\<lambda>e. bit (se_active_mask e) t) bs = first_hit m bs"
  using assms(2)
proof (induction bs)
  case (Cons b bs)
  show ?case
  proof (cases "meets m (se_active_mask b)")
    case True
    then have "bit (se_active_mask b) t" using Cons.prems [of b] assms(1) by (simp add: submask_iff)
    with True show ?thesis by simp
  next
    case False
    then have "\<not> bit (se_active_mask b) t" using assms(1) by (auto simp: meets_iff)
    with False Cons show ?thesis by simp
  qed
qed simp

lemma entry_ok_submask: "entry_ok e bs \<Longrightarrow> first_hit (se_active_mask e) bs = Some b \<Longrightarrow>
    submask (se_active_mask e) (se_active_mask b)"
  by (simp add: entry_ok_def)

text \<open>An entry may lose lanes, move its program counter, or become part of a shorter entry.\<close>

lemma entry_ok_shrink:
  assumes "entry_ok e bs" and "submask (se_active_mask e') (se_active_mask e)" and "se_active_mask e' \<noteq> 0"
    and "se_type e' = se_type e \<or> se_type e' = STACK_ENTRY_TYPE_NORMAL \<and> se_recvg_pc e = null_pc"
    and "se_recvg_pc e' = se_recvg_pc e"
  shows "entry_ok e' bs"
proof -
  have hit: "first_hit (se_active_mask e') bs = first_hit (se_active_mask e) bs"
    using first_hit_submask [OF assms(2,3)] entry_ok_submask [OF assms(1)] by blast
  have sub: "submask (se_active_mask e') m" if "submask (se_active_mask e) m" for m
    using that assms(2) by (simp add: submask_iff)
  show ?thesis
  proof (cases "first_hit (se_active_mask e) bs")
    case None
    with assms hit show ?thesis by (auto simp: entry_ok_def)
  next
    case (Some b)
    have "meets (se_active_mask e') (se_active_mask (hd bs))"
      if "meets (se_active_mask e) (se_active_mask (hd bs))"
    proof -
      from Some obtain c cs where bs: "bs = c # cs" by (cases bs) auto
      then have "b = c" using Some that by simp
      then show ?thesis using hit Some bs by (auto split: if_splits dest: first_hit_mem)
    qed
    with Some assms hit sub show ?thesis by (auto simp: entry_ok_def split: if_splits)
  qed
qed

text \<open>A new entry within the lanes of the one directly below it.\<close>

lemma entry_ok_child:
  assumes "submask (se_active_mask p) (se_active_mask r)" and "se_active_mask p \<noteq> 0"
    and "if se_type p = STACK_ENTRY_TYPE_CALL then se_recvg_pc p = null_pc
         else se_recvg_pc p = null_pc \<or> se_pc r = se_recvg_pc p"
  shows "entry_ok p (r # bs)"
proof -
  have "meets (se_active_mask p) (se_active_mask r)"
    using assms(1,2) by (auto simp: meets_iff submask_iff word_nonzero_iff)
  with assms show ?thesis by (simp add: entry_ok_def)
qed

lemma entry_ok_skip:
  assumes "\<not> meets (se_active_mask p) (se_active_mask q)" and "entry_ok p bs"
    and "se_type p = STACK_ENTRY_TYPE_NORMAL"
  shows "entry_ok p (q # bs)"
  using assms by (auto simp: entry_ok_def split: option.splits)

section \<open>The two kinds of update\<close>

lemma choose_path_single:
  "choose_path c 0 [(a, x)] = Some (a, x, [])"
  "a \<noteq> u_not_taken_pc c \<Longrightarrow> choose_path c i [(a, x)] = Some (a, x, [])"
  by (auto simp: choose_path_def)

lemma choose_path_two:
  assumes "a \<noteq> b"
  obtains "choose_path c 0 [(a, x), (b, y)] = Some (a, x, [(b, y)])" "b \<noteq> u_not_taken_pc c"
  | "choose_path c 0 [(a, x), (b, y)] = Some (b, y, [(a, x)])" "a \<noteq> u_not_taken_pc c"
proof -
  consider "u_not_taken_pc c = a" | "u_not_taken_pc c = b" | "u_not_taken_pc c \<notin> {a, b}" "a < b"
    | "u_not_taken_pc c \<notin> {a, b}" "b < a"
    using assms by (auto dest: neq_iff [THEN iffD1])
  then show ?thesis
    by cases (use assms that in \<open>auto simp: choose_path_def Let_def min_def\<close>)
qed

text \<open>The context \<open>simt_update\<close> builds.\<close>

definition upd_ctx :: "simt_stack_entry \<Rightarrow> u64 \<Rightarrow> u64 \<Rightarrow> op_type \<Rightarrow> u32 \<Rightarrow> nat \<Rightarrow> update_ctx" where
  "upd_ctx e now recvg_pc op isize n = \<lparr>u_num_paths = n, u_not_taken_pc = se_pc e + ucast isize,
     u_recvg_pc = recvg_pc, u_op = op, u_now = now, u_top_recvg_pc = se_recvg_pc e, u_top_type = se_type e\<rparr>"

lemma upd_ctx_simps [simp]:
  "u_num_paths (upd_ctx e now r op isize n) = n" "u_recvg_pc (upd_ctx e now r op isize n) = r"
  "u_op (upd_ctx e now r op isize n) = op" "u_now (upd_ctx e now r op isize n) = now"
  "u_top_recvg_pc (upd_ctx e now r op isize n) = se_recvg_pc e"
  "u_top_type (upd_ctx e now r op isize n) = se_type e"
  by (simp_all add: upd_ctx_def)

text \<open>The threads that execute the top entry and the program counters they continue at.\<close>

definition lanes_at :: "warp_mask \<Rightarrow> warp_mask \<Rightarrow> u64 list \<Rightarrow> u64 \<Rightarrow> warp_mask \<Rightarrow> bool" where
  "lanes_at act td nx pc m \<longleftrightarrow> m \<noteq> 0 \<and> (\<forall>t. bit m t \<longleftrightarrow> live act td t \<and> nx ! t = pc)"

text \<open>Every selection of lanes is a mask.\<close>

lemma lane_word:
  obtains m :: warp_mask where "\<forall>u. bit m u \<longleftrightarrow> live act td u \<and> nx ! u = pc"
proof -
  let ?sel = "\<lambda>u. live act td u \<and> nx ! u = pc"
  let ?m = "horner_sum of_bool 2 (map ?sel [0..<32]) :: warp_mask"
  have "u < 32" if "bit act u" for u using bit_imp_le_length [OF that] by simp
  then have "bit ?m u \<longleftrightarrow> ?sel u" for u
    by (cases "u < 32") (auto simp: bit_horner_sum_bit_word_iff)
  then show ?thesis using that by blast
qed

lemma simt_update_cases:
  assumes upd: "simt_update ws now (e # bs) td nx r op isize ipc = Some (stk', d)"
    and below: "drop_bit ws (se_active_mask e) = 0"
    and pcs: "\<forall>t. live (se_active_mask e) td t \<longrightarrow> nx ! t \<noteq> null_pc"
  obtains (none) "\<forall>t. \<not> live (se_active_mask e) td t" and "stk' = bs"
  | (one) pc m where "lanes_at (se_active_mask e) td nx pc m"
      and "\<forall>t. live (se_active_mask e) td t \<longrightarrow> nx ! t = pc"
      and "path_loop (upd_ctx e now r op isize 1) 0 1 (e # bs, False, null_pc) [(pc, m)] = Some (stk', d)"
  | (two) pc1 m1 pc2 m2 where "pc1 \<noteq> pc2" and "lanes_at (se_active_mask e) td nx pc1 m1"
      and "lanes_at (se_active_mask e) td nx pc2 m2"
      and "\<forall>t. live (se_active_mask e) td t \<longrightarrow> nx ! t = pc1 \<or> nx ! t = pc2"
      and "\<not> (op = RET_OPS \<and> se_type e = STACK_ENTRY_TYPE_CALL)"
      and "stk' = tl (fst (plain_path (upd_ctx e now r op isize 2)
             (plain_path (upd_ctx e now r op isize 2) (e # bs, False, null_pc) pc1 m1) pc2 m2))"
proof -
  have ws: "\<forall>t. bit (se_active_mask e) t \<longrightarrow> t < ws" using below by (simp add: bits_below)
  obtain paths where g: "group_paths ws td nx (se_active_mask e) [] 0 = Some (paths, length paths)"
      "distinct (map fst paths)"
    and look: "\<And>pc m. map_of paths pc = Some m \<longleftrightarrow>
        m \<noteq> 0 \<and> (\<forall>t. bit m t \<longleftrightarrow> live (se_active_mask e) td t \<and> nx ! t = pc)"
    using group_paths_spec [OF ws pcs] by blast
  have at: "lanes_at (se_active_mask e) td nx pc m" if "map_of paths pc = Some m" for pc m
    using look that by (simp add: lanes_at_def)
  have every: "nx ! t \<in> fst ` set paths" if t: "live (se_active_mask e) td t" for t
  proof -
    obtain m :: warp_mask where "\<forall>u. bit m u \<longleftrightarrow> live (se_active_mask e) td u \<and> nx ! u = nx ! t"
      by (rule lane_word [of "se_active_mask e" td nx "nx ! t"]) (rule that, assumption)
    then have "map_of paths (nx ! t) = Some m" using t look [of "nx ! t" m] by (auto simp: word_nonzero_iff)
    then show ?thesis by (force dest: map_of_SomeD)
  qed
  from upd g have len: "length paths \<le> 2"
    and loop: "path_loop (upd_ctx e now r op isize (length paths)) 0 (length paths)
        (e # bs, False, null_pc) paths = Some (stk', d)"
    by (auto simp: simt_update_def upd_ctx_def)
  consider "paths = []" | a x where "paths = [(a, x)]" | a x b y where "paths = [(a, x), (b, y)]"
  proof (cases paths)
    case (Cons p ps)
    then show ?thesis
    proof (cases ps)
      case (Cons q qs)
      then have "paths = [p, q]" using \<open>paths = p # ps\<close> len by simp
      then show ?thesis using that(3) [of "fst p" "snd p" "fst q" "snd q"] by simp
    qed (use that(2) [of "fst p" "snd p"] in simp)
  qed (use that(1) in simp)
  then show ?thesis
  proof cases
    case 1
    then show ?thesis using loop every by (intro none) auto
  next
    case 2
    then have "lanes_at (se_active_mask e) td nx a x" using at by simp
    moreover have "\<forall>t. live (se_active_mask e) td t \<longrightarrow> nx ! t = a" using every 2 by simp
    ultimately show ?thesis using loop 2 by (intro one) simp_all
  next
    case 3
    then have ab: "a \<noteq> b" using g(2) by simp
    have all: "\<forall>t. live (se_active_mask e) td t \<longrightarrow> nx ! t = a \<or> nx ! t = b"
      using every 3 by simp
    have lx: "lanes_at (se_active_mask e) td nx a x" and ly: "lanes_at (se_active_mask e) td nx b y"
      using at 3 ab by auto
    note l = loop [unfolded 3, simplified]
    from ab show ?thesis
    proof (cases rule: choose_path_two [of a b "upd_ctx e now r op isize 2" x y])
      case 1
      then have "\<not> (op = RET_OPS \<and> se_type e = STACK_ENTRY_TYPE_CALL) \<and>
          stk' = tl (fst (plain_path (upd_ctx e now r op isize 2)
             (plain_path (upd_ctx e now r op isize 2) (e # bs, False, null_pc) a x) b y))"
        using l by (auto simp: numeral_2_eq_2 choose_path_single call_path_def ret_path_def
            split: if_splits prod.splits)
      then show ?thesis using two [OF ab lx ly] all by blast
    next
      case 2
      then have "\<not> (op = RET_OPS \<and> se_type e = STACK_ENTRY_TYPE_CALL) \<and>
          stk' = tl (fst (plain_path (upd_ctx e now r op isize 2)
             (plain_path (upd_ctx e now r op isize 2) (e # bs, False, null_pc) b y) a x))"
        using l by (auto simp: numeral_2_eq_2 choose_path_single call_path_def ret_path_def
            split: if_splits prod.splits)
      then show ?thesis using two [OF ab [symmetric] ly lx] all by blast
    qed
  qed
qed

section \<open>One path\<close>

lemma lanes_at_submask: "lanes_at act td nx pc m \<Longrightarrow> submask m act"
  by (auto simp: lanes_at_def submask_iff)

lemma lanes_at_below: "lanes_at act td nx pc m \<Longrightarrow> drop_bit ws act = 0 \<Longrightarrow> drop_bit ws m = 0"
  by (auto simp: lanes_at_def bits_below)

text \<open>What one path does to a well-formed stack: call, return, join, or step on.\<close>

lemma one_path_cases:
  assumes "path_loop (upd_ctx e now r op isize 1) 0 1 (e # bs, False, null_pc) [(pc, m)] = Some (stk', d)"
  obtains (call) "op = CALL_OPS"
      and "stk' = simt_stack_entry_new\<lparr>se_pc := pc, se_active_mask := m,
        se_branch_div_cycle := now, se_type := STACK_ENTRY_TYPE_CALL\<rparr> # e # bs"
  | (ret) b cs where "op = RET_OPS" and "se_type e = STACK_ENTRY_TYPE_CALL" and "bs = b # cs"
      and "stk' = (if pc = se_recvg_pc b \<and> se_type b \<noteq> STACK_ENTRY_TYPE_CALL then cs else b\<lparr>se_pc := pc\<rparr> # cs)"
  | (join) "pc = se_recvg_pc e" and "se_type e = STACK_ENTRY_TYPE_NORMAL" and "stk' = bs"
  | (step) "pc \<noteq> se_recvg_pc e \<or> se_type e = STACK_ENTRY_TYPE_CALL"
      and "stk' = e\<lparr>se_pc := pc, se_active_mask := m, se_recvg_pc := se_recvg_pc e\<rparr> # bs"
proof (cases "op = CALL_OPS")
  case True
  then show ?thesis using assms call
    by (auto simp: choose_path_single call_path_def)
next
  case False
  show ?thesis
  proof (cases "op = RET_OPS \<and> se_type e = STACK_ENTRY_TYPE_CALL")
    case True
    then show ?thesis using assms False
      by (cases bs) (auto simp: choose_path_single ret_path_def intro: ret)
  next
    case no_ret: False
    then have stk: "stk' = tl (fst (plain_path (upd_ctx e now r op isize 1) (e # bs, False, null_pc) pc m))"
      using assms False by (auto simp: choose_path_single split: prod.splits if_splits)
    show ?thesis
    proof (cases "pc = se_recvg_pc e \<and> se_type e \<noteq> STACK_ENTRY_TYPE_CALL")
      case True
      then have "se_type e = STACK_ENTRY_TYPE_NORMAL" by (cases "se_type e") auto
      then show ?thesis using True stk by (intro join) (auto simp: plain_path_def)
    next
      case False
      then show ?thesis using stk by (intro step) (auto simp: plain_path_def)
    qed
  qed
qed

lemma stack_wf_tl: "stack_wf ws (e # bs) \<Longrightarrow> stack_wf ws bs"
  by simp

lemma stack_wf_pc: "stack_wf ws (b # cs) \<Longrightarrow> stack_wf ws (b\<lparr>se_pc := pc\<rparr> # cs)"
  by (cases "first_hit (se_active_mask b) cs") (auto simp: entry_ok_def)

text \<open>A joining thread waits in the entry of the reconvergence point.\<close>

lemma join_find:
  assumes "entry_ok e bs" and "se_type e = STACK_ENTRY_TYPE_NORMAL" and "se_recvg_pc e = pc"
    and "pc \<noteq> null_pc" and "bit (se_active_mask e) t"
  shows "thread_pc bs t = Some pc" and "bit (covered bs) t"
proof -
  obtain b where b: "first_hit (se_active_mask e) bs = Some b" "submask (se_active_mask e) (se_active_mask b)"
      "se_pc b = pc"
    using assms by (cases "first_hit (se_active_mask e) bs") (auto simp: entry_ok_def)
  then show "bit (covered bs) t"
    using assms(5) by (auto simp: bit_covered submask_iff dest!: first_hit_mem)
  show "thread_pc bs t = Some pc"
    using find_first_hit [OF assms(5), of bs] b by (simp add: thread_pc_def)
qed

lemma one_path_wf:
  assumes "path_loop (upd_ctx e now r op isize 1) 0 1 (e # bs, False, null_pc) [(pc, m)] = Some (stk', d)"
    and wf: "stack_wf ws (e # bs)" and at: "lanes_at (se_active_mask e) td nx pc m" and "pc \<noteq> null_pc"
    and all: "\<forall>t. live (se_active_mask e) td t \<longrightarrow> nx ! t = pc"
  shows "stack_wf ws stk'"
    and "bit (covered stk') t \<Longrightarrow> bit (covered (e # bs)) t"
    and "live (covered (e # bs)) td t \<Longrightarrow> bit (covered stk') t"
    and "live (se_active_mask e) td t \<Longrightarrow> thread_pc stk' t = Some (nx ! t)"
proof -
  have m: "m \<noteq> 0" "submask m (se_active_mask e)" "drop_bit ws m = 0"
    using at wf lanes_at_submask [OF at] lanes_at_below [OF at] by (auto simp: lanes_at_def)
  have bits: "\<And>t. bit m t \<longleftrightarrow> live (se_active_mask e) td t" using at all by (auto simp: lanes_at_def)
  have "stack_wf ws stk' \<and> (bit (covered stk') t \<longrightarrow> bit (covered (e # bs)) t) \<and>
      (live (covered (e # bs)) td t \<longrightarrow> bit (covered stk') t) \<and>
      (live (se_active_mask e) td t \<longrightarrow> thread_pc stk' t = Some (nx ! t))"
    using assms(1)
  proof (cases rule: one_path_cases)
    case call
    have "entry_ok (simt_stack_entry_new\<lparr>se_pc := pc, se_active_mask := m, se_branch_div_cycle := now,
        se_type := STACK_ENTRY_TYPE_CALL\<rparr>) (e # bs)"
      by (rule entry_ok_child) (use m in \<open>simp_all add: simt_stack_entry_new_def null_pc_def\<close>)
    with call m wf bits all show ?thesis by (auto simp: bit_or_iff thread_pc_def)
  next
    case (ret b cs)
    have sub: "submask (se_active_mask e) (se_active_mask b)"
      using wf ret by (auto simp: entry_ok_def split: option.splits if_splits)
    have wfb: "stack_wf ws (b # cs)" using wf ret by simp
    show ?thesis
    proof (cases "pc = se_recvg_pc b \<and> se_type b \<noteq> STACK_ENTRY_TYPE_CALL")
      case True
      then have "se_type b = STACK_ENTRY_TYPE_NORMAL" by (cases "se_type b") auto
      note j = join_find [OF _ this, of cs pc t]
      have "entry_ok b cs" using wfb by simp
      with j True \<open>pc \<noteq> null_pc\<close> have "bit (se_active_mask b) t \<Longrightarrow> bit (covered cs) t \<and> thread_pc cs t = Some pc"
        by simp
      then show ?thesis using True ret wfb sub all by (auto simp: bit_or_iff submask_iff)
    next
      case False
      then show ?thesis using ret stack_wf_pc [OF wfb] sub all
        by (auto simp: bit_or_iff submask_iff thread_pc_def)
    qed
  next
    case join
    have "entry_ok e bs" using wf by simp
    note j = join_find [OF this join(2) join(1) [symmetric] \<open>pc \<noteq> null_pc\<close>, of t]
    then show ?thesis using join wf all by (auto simp: bit_or_iff)
  next
    case step
    have "entry_ok (e\<lparr>se_pc := pc, se_active_mask := m, se_recvg_pc := se_recvg_pc e\<rparr>) bs"
      by (rule entry_ok_shrink [of e]) (use wf m in simp_all)
    with step m wf bits all show ?thesis by (auto simp: bit_or_iff thread_pc_def)
  qed
  then show "stack_wf ws stk'"
    and "bit (covered stk') t \<Longrightarrow> bit (covered (e # bs)) t"
    and "live (covered (e # bs)) td t \<Longrightarrow> bit (covered stk') t"
    and "live (se_active_mask e) td t \<Longrightarrow> thread_pc stk' t = Some (nx ! t)" by blast+
qed

section \<open>Two paths\<close>

definition joins :: "simt_stack_entry \<Rightarrow> u64 \<Rightarrow> bool" where
  "joins e pc \<longleftrightarrow> pc = se_recvg_pc e \<and> se_type e \<noteq> STACK_ENTRY_TYPE_CALL"

text \<open>The entry of a divergent path, and the entry that waits at the reconvergence point.\<close>

definition child :: "u64 \<Rightarrow> simt_stack_entry \<Rightarrow> u64 \<times> warp_mask \<Rightarrow> simt_stack_entry" where
  "child r x p = x\<lparr>se_pc := fst p, se_active_mask := snd p, se_calldepth := 0, se_recvg_pc := r\<rparr>"

definition waiting :: "u64 \<Rightarrow> u64 \<Rightarrow> simt_stack_entry \<Rightarrow> simt_stack_entry" where
  "waiting r now e = e\<lparr>se_pc := r, se_branch_div_cycle := now\<rparr>"

lemma child_simps [simp]:
  "se_pc (child r x p) = fst p" "se_active_mask (child r x p) = snd p" "se_recvg_pc (child r x p) = r"
  "se_type (child r x p) = se_type x"
  by (simp_all add: child_def)

lemma waiting_simps [simp]:
  "se_pc (waiting r now e) = r" "se_active_mask (waiting r now e) = se_active_mask e"
  "se_recvg_pc (waiting r now e) = se_recvg_pc e" "se_type (waiting r now e) = se_type e"
  by (simp_all add: waiting_def)

lemma new_entry_type [simp]: "se_type simt_stack_entry_new = STACK_ENTRY_TYPE_NORMAL"
  by (simp add: simt_stack_entry_new_def)

lemma two_path_result:
  assumes "pc1 \<noteq> pc2"
  shows "tl (fst (plain_path (upd_ctx e now r op isize 2)
      (plain_path (upd_ctx e now r op isize 2) (e # bs, False, null_pc) pc1 m1) pc2 m2)) =
    (let kids = filter (\<lambda>p. \<not> joins e (fst p) \<and> fst p \<noteq> r) [(pc1, m1), (pc2, m2)] in
     if r \<noteq> se_recvg_pc e then rev (map (child r simt_stack_entry_new) kids) @ waiting r now e # bs
     else rev (map (child r simt_stack_entry_new) (tl kids)) @ child r e (hd kids) # bs)"
proof (cases "r = se_recvg_pc e")
  case True
  then show ?thesis using assms
    by (auto simp: plain_path_def set_recvg_def joins_def child_def Let_def)
next
  case False
  then show ?thesis using assms
    by (auto simp: plain_path_def set_recvg_def joins_def child_def waiting_def Let_def)
qed

lemma two_path_wf:
  fixes e pc1 pc2 m1 m2 r now bs
  defines "kids \<equiv> filter (\<lambda>p. \<not> joins e (fst p) \<and> fst p \<noteq> r) [(pc1, m1), (pc2, m2)]"
  defines "stk' \<equiv> (if r \<noteq> se_recvg_pc e then rev (map (child r simt_stack_entry_new) kids) @ waiting r now e # bs
     else rev (map (child r simt_stack_entry_new) (tl kids)) @ child r e (hd kids) # bs)"
  assumes wf: "stack_wf ws (e # bs)" and "pc1 \<noteq> pc2" and "pc1 \<noteq> null_pc" and "pc2 \<noteq> null_pc"
    and at1: "lanes_at (se_active_mask e) td nx pc1 m1" and at2: "lanes_at (se_active_mask e) td nx pc2 m2"
    and all: "\<forall>t. live (se_active_mask e) td t \<longrightarrow> nx ! t = pc1 \<or> nx ! t = pc2"
  shows "stack_wf ws stk'"
    and "bit (covered stk') t \<Longrightarrow> bit (covered (e # bs)) t"
    and "live (covered (e # bs)) td t \<Longrightarrow> bit (covered stk') t"
    and "(joins e pc1 \<or> joins e pc2 \<longrightarrow> r = se_recvg_pc e) \<Longrightarrow> live (se_active_mask e) td t \<Longrightarrow>
      thread_pc stk' t = Some (nx ! t)"
proof -
  have m1: "m1 \<noteq> 0" "submask m1 (se_active_mask e)" "drop_bit ws m1 = 0"
    using at1 wf lanes_at_submask [OF at1] lanes_at_below [OF at1] by (auto simp: lanes_at_def)
  have m2: "m2 \<noteq> 0" "submask m2 (se_active_mask e)" "drop_bit ws m2 = 0"
    using at2 wf lanes_at_submask [OF at2] lanes_at_below [OF at2] by (auto simp: lanes_at_def)
  have b1: "\<And>t. bit m1 t \<longleftrightarrow> live (se_active_mask e) td t \<and> nx ! t = pc1"
    and b2: "\<And>t. bit m2 t \<longleftrightarrow> live (se_active_mask e) td t \<and> nx ! t = pc2"
    using at1 at2 by (auto simp: lanes_at_def)
  have dis: "\<not> meets m2 m1" using b1 b2 \<open>pc1 \<noteq> pc2\<close> by (auto simp: meets_iff)
  have e: "entry_ok e bs" using wf by simp
  have call: "se_type e = STACK_ENTRY_TYPE_CALL \<Longrightarrow> se_recvg_pc e = null_pc"
    using e by (auto simp: entry_ok_def split: option.splits)
  have normal: "se_type e \<noteq> STACK_ENTRY_TYPE_CALL \<Longrightarrow> se_type e = STACK_ENTRY_TYPE_NORMAL"
    by (cases "se_type e") auto
  have R: "entry_ok (waiting r now e) bs"
    by (rule entry_ok_shrink [OF e]) (use wf in \<open>simp_all add: submask_iff\<close>)
  have kid: "entry_ok (child r simt_stack_entry_new (p, m)) (waiting r now e # cs)"
    if "submask m (se_active_mask e)" "m \<noteq> 0" for p m cs
    by (rule entry_ok_child) (use that in simp_all)
  have kid_skip: "entry_ok (child r simt_stack_entry_new (pc2, m2))
      (child r simt_stack_entry_new (pc1, m1) # waiting r now e # bs)"
    by (rule entry_ok_skip) (use dis kid m2 in simp_all)
  have top: "entry_ok (child r e (p, m)) bs" if "r = se_recvg_pc e" "submask m (se_active_mask e)" "m \<noteq> 0" for p m
    by (rule entry_ok_shrink [OF e]) (use that in simp_all)
  have plain: "entry_ok (child r simt_stack_entry_new (p, m)) bs"
    if "r = se_recvg_pc e" "submask m (se_active_mask e)" "m \<noteq> 0" for p m
    by (rule entry_ok_shrink [OF e]) (use that call normal in \<open>cases "se_type e"; simp\<close>)+
  have second: "entry_ok (child r simt_stack_entry_new (pc2, m2)) (child r e (pc1, m1) # bs)"
    if "r = se_recvg_pc e"
    by (rule entry_ok_skip) (use dis plain m2 that in simp_all)
  have join: "joins e pc \<Longrightarrow> pc \<noteq> null_pc \<Longrightarrow> bit (se_active_mask e) t \<Longrightarrow>
      thread_pc bs t = Some pc \<and> bit (covered bs) t" for pc t
    using join_find [OF e normal, of pc t] by (auto simp: joins_def)
  have no_join: "r = se_recvg_pc e \<Longrightarrow> pc \<noteq> null_pc \<Longrightarrow> \<not> joins e pc \<Longrightarrow> pc \<noteq> r" for pc
    using call by (auto simp: joins_def)
  show "stack_wf ws stk'"
    using m1 m2 R kid kid_skip top second wf no_join [OF _ \<open>pc1 \<noteq> null_pc\<close>] no_join [OF _ \<open>pc2 \<noteq> null_pc\<close>]
      \<open>pc1 \<noteq> pc2\<close>
    by (auto simp: stk'_def kids_def joins_def)
  show "bit (covered stk') t \<Longrightarrow> bit (covered (e # bs)) t"
    using m1(2) m2(2) \<open>pc1 \<noteq> pc2\<close> no_join [OF _ \<open>pc1 \<noteq> null_pc\<close>] no_join [OF _ \<open>pc2 \<noteq> null_pc\<close>]
    by (auto simp: stk'_def kids_def bit_or_iff submask_iff joins_def split: if_splits)
  have cov1: "bit (covered stk') t" if "live (se_active_mask e) td t" "nx ! t = pc1"
    using that b1 join [OF _ \<open>pc1 \<noteq> null_pc\<close>, of t] no_join [OF _ \<open>pc1 \<noteq> null_pc\<close>] \<open>pc1 \<noteq> pc2\<close>
    by (auto simp: stk'_def kids_def bit_or_iff joins_def)
  have cov2: "bit (covered stk') t" if "live (se_active_mask e) td t" "nx ! t = pc2"
    using that b2 join [OF _ \<open>pc2 \<noteq> null_pc\<close>, of t] no_join [OF _ \<open>pc2 \<noteq> null_pc\<close>] \<open>pc1 \<noteq> pc2\<close>
    by (auto simp: stk'_def kids_def bit_or_iff joins_def)
  have "bit (covered bs) t \<Longrightarrow> bit (covered stk') t"
    by (auto simp: stk'_def kids_def bit_or_iff)
  then show "live (covered (e # bs)) td t \<Longrightarrow> bit (covered stk') t"
    using cov1 cov2 all by (auto simp: bit_or_iff)
  show "thread_pc stk' t = Some (nx ! t)"
    if ip: "joins e pc1 \<or> joins e pc2 \<longrightarrow> r = se_recvg_pc e" and t: "live (se_active_mask e) td t"
  proof -
    consider "nx ! t = pc1" | "nx ! t = pc2" using all t by blast
    then show ?thesis
    proof cases
      case 1
      then have "bit m1 t" "\<not> bit m2 t" using t b1 b2 \<open>pc1 \<noteq> pc2\<close> by auto
      note bits = this
      consider "joins e pc1" | "\<not> joins e pc1" "pc1 = r" | "\<not> joins e pc1" "pc1 \<noteq> r" by blast
      then show ?thesis
      proof cases
        case 1
        then have q: "r = se_recvg_pc e" "pc2 \<noteq> r" "\<not> joins e pc2"
          using ip \<open>pc1 \<noteq> pc2\<close> by (auto simp: joins_def)
        have "thread_pc bs t = Some pc1" using join [OF 1 \<open>pc1 \<noteq> null_pc\<close>] t by simp
        then show ?thesis using 1 q bits \<open>nx ! t = pc1\<close> by (simp add: stk'_def kids_def)
      next
        case 2
        have "r \<noteq> se_recvg_pc e" using no_join [OF _ \<open>pc1 \<noteq> null_pc\<close> 2(1)] 2(2) by blast
        then show ?thesis using 2 t bits \<open>nx ! t = pc1\<close> by (simp add: stk'_def kids_def)
      next
        case 3
        then show ?thesis using t bits \<open>nx ! t = pc1\<close>
          by (cases "r = se_recvg_pc e") (simp_all add: stk'_def kids_def)
      qed
    next
      case 2
      then have "bit m2 t" "\<not> bit m1 t" using t b1 b2 \<open>pc1 \<noteq> pc2\<close> by auto
      note bits = this
      consider "joins e pc2" | "\<not> joins e pc2" "pc2 = r" | "\<not> joins e pc2" "pc2 \<noteq> r" by blast
      then show ?thesis
      proof cases
        case 1
        then have q: "r = se_recvg_pc e" "pc1 \<noteq> r" "\<not> joins e pc1"
          using ip \<open>pc1 \<noteq> pc2\<close> by (auto simp: joins_def)
        have "thread_pc bs t = Some pc2" using join [OF 1 \<open>pc2 \<noteq> null_pc\<close>] t by simp
        then show ?thesis using 1 q bits \<open>nx ! t = pc2\<close> by (simp add: stk'_def kids_def)
      next
        case 2
        have "r \<noteq> se_recvg_pc e" using no_join [OF _ \<open>pc2 \<noteq> null_pc\<close> 2(1)] 2(2) by blast
        then show ?thesis using 2 t bits \<open>nx ! t = pc2\<close> by (simp add: stk'_def kids_def)
      next
        case 3
        then show ?thesis using t bits \<open>nx ! t = pc2\<close>
          by (cases "r = se_recvg_pc e") (simp_all add: stk'_def kids_def)
      qed
    qed
  qed
qed

section \<open>Runs\<close>

lemma simt_update_keeps:
  assumes upd: "simt_update ws now stk td nx r op isize ipc = Some (stk', d)" and wf: "stack_wf ws stk"
    and pcs: "\<forall>t. live (se_active_mask (hd stk)) td t \<longrightarrow> nx ! t \<noteq> null_pc"
  shows "stack_wf ws stk' \<and> (bit (covered stk') t \<longrightarrow> bit (covered stk) t) \<and>
    (live (covered stk) td t \<longrightarrow> bit (covered stk') t)"
proof -
  from upd obtain e bs where stk: "stk = e # bs" by (cases stk) (auto simp: simt_update_def)
  note wf' = wf [unfolded stk] and pcs' = pcs [unfolded stk list.sel]
  have "drop_bit ws (se_active_mask e) = 0" using wf' by simp
  from upd [unfolded stk] this pcs' show ?thesis
  proof (cases rule: simt_update_cases)
    case none
    then show ?thesis using stk wf' by (auto simp: bit_or_iff)
  next
    case (one pc m)
    then obtain u where "live (se_active_mask e) td u" "nx ! u = pc"
      by (auto simp: lanes_at_def word_nonzero_iff)
    then have "pc \<noteq> null_pc" using pcs' by auto
    note w = one_path_wf [OF one(3) wf' one(1) this one(2)]
    show ?thesis unfolding stk using w(1-3) by blast
  next
    case (two pc1 m1 pc2 m2)
    then obtain u v where "live (se_active_mask e) td u" "nx ! u = pc1" "live (se_active_mask e) td v" "nx ! v = pc2"
      unfolding lanes_at_def word_nonzero_iff by metis
    then have n: "pc1 \<noteq> null_pc" "pc2 \<noteq> null_pc" using pcs' by auto
    note w = two_path_wf [OF wf' two(1) n two(2-4), where r = r and now = now]
    show ?thesis unfolding stk two(6) two_path_result [OF two(1)] Let_def using w(1-3) by blast
  qed
qed

text \<open>A call of \<^verbatim>\<open>update\<close> by the core (\<^verbatim>\<open>core_t::updateSIMTStack\<close>) with its arguments.\<close>

record simt_event =
  ev_now :: u64
  ev_done :: warp_mask
  ev_next_pc :: "u64 list"
  ev_recvg_pc :: u64
  ev_op :: op_type
  ev_isize :: u32
  ev_pc :: u64

definition simt_step :: "nat \<Rightarrow> simt_stack \<Rightarrow> simt_event \<Rightarrow> simt_stack option" where
  "simt_step ws stk ev = map_option fst (simt_update ws (ev_now ev) stk (ev_done ev) (ev_next_pc ev)
     (ev_recvg_pc ev) (ev_op ev) (ev_isize ev) (ev_pc ev))"

text \<open>The core passes the program counter -1 for finished threads only.\<close>

definition simt_ok :: "simt_stack \<Rightarrow> simt_event \<Rightarrow> bool" where
  "simt_ok stk ev \<longleftrightarrow> (stk \<noteq> [] \<longrightarrow>
     (\<forall>t < 32. live (se_active_mask (hd stk)) (ev_done ev) t \<longrightarrow> ev_next_pc ev ! t \<noteq> null_pc))"

lemma simt_ok_live:
  assumes "simt_ok stk ev" and "stk \<noteq> []"
  shows "\<forall>t. live (se_active_mask (hd stk)) (ev_done ev) t \<longrightarrow> ev_next_pc ev ! t \<noteq> null_pc"
proof -
  have "t < 32" if "bit (se_active_mask (hd stk)) t" for t using bit_imp_le_length [OF that] by simp
  then show ?thesis using assms by (auto simp: simt_ok_def)
qed

lemma simt_step_keeps:
  assumes "simt_step ws stk ev = Some stk'" and "stack_wf ws stk" and "simt_ok stk ev"
  shows "stack_wf ws stk' \<and> (bit (covered stk') t \<longrightarrow> bit (covered stk) t) \<and>
    (live (covered stk) (ev_done ev) t \<longrightarrow> bit (covered stk') t)"
proof -
  have "stk \<noteq> []" using assms(1) by (auto simp: simt_step_def simt_update_def)
  with assms show ?thesis
    using simt_update_keeps simt_ok_live [OF assms(3)] by (fastforce simp: simt_step_def)
qed

interpretation simt: step_system "simt_step ws" "stack_wf ws" simt_ok for ws
  by unfold_locales (use simt_step_keeps in blast)

lemma simt_run_keeps:
  "run (simt_step ws) stk evs = Some stk' \<Longrightarrow> stack_wf ws stk \<Longrightarrow> simt.run_ok ws stk evs \<Longrightarrow>
    (bit (covered stk') t \<longrightarrow> bit (covered stk) t) \<and>
    (bit (covered stk) t \<and> (\<forall>ev \<in> set evs. \<not> bit (ev_done ev) t) \<longrightarrow> bit (covered stk') t)"
proof (induction evs arbitrary: stk)
  case Nil
  then show ?case by simp
next
  case (Cons ev evs)
  from Cons.prems(1) obtain s1 where s1: "simt_step ws stk ev = Some s1" "run (simt_step ws) s1 evs = Some stk'"
    by (simp split: option.splits)
  have ok: "simt_ok stk ev" "simt.run_ok ws s1 evs" using Cons.prems(3) s1(1) by simp_all
  note k = simt_step_keeps [OF s1(1) Cons.prems(2) ok(1)]
  then have "stack_wf ws s1" by blast
  note IH = Cons.IH [OF s1(2) this ok(2)]
  show ?case
  proof (intro conjI impI)
    show "bit (covered stk) t" if "bit (covered stk') t" using that IH k [of t] by blast
    assume a: "bit (covered stk) t \<and> (\<forall>ev \<in> set (ev # evs). \<not> bit (ev_done ev) t)"
    then have "bit (covered s1) t" using k [of t] by simp
    moreover have "\<forall>ev \<in> set evs. \<not> bit (ev_done ev) t" using a by simp
    ultimately show "bit (covered stk') t" using IH by blast
  qed
qed

section \<open>Properties\<close>

text \<open>
  C19: invariant of every run. Starting from the launch of a warp, after any sequence of updates in
  which live threads have a program counter, the entries are nested properly (an entry lies
  within the lanes of the entry that waits at its reconvergence point), no thread appears from
  nowhere, and a thread that never finishes is never lost: it stays in some entry of the stack.
\<close>

theorem simt_run_invariant:
  assumes "m \<noteq> 0" and "drop_bit ws m = 0"
    and "simt.run_ok ws (simt_launch start_pc m) evs"
    and "run (simt_step ws) (simt_launch start_pc m) evs = Some stk"
  shows "stack_wf ws stk \<and> submask (covered stk) m \<and>
    (\<forall>t. bit m t \<and> (\<forall>ev \<in> set evs. \<not> bit (ev_done ev) t) \<longrightarrow> thread_pc stk t \<noteq> None)"
proof -
  let ?s = "simt_launch start_pc m"
  have wf: "stack_wf ws ?s"
    using assms(1,2) by (simp add: simt_launch_def simt_stack_entry_new_def entry_ok_def null_pc_def)
  have cov: "covered ?s = m" by (simp add: simt_launch_def)
  have "thread_pc stk t \<noteq> None" if "bit (covered stk) t" for t
    using that by (induction stk) (auto simp: bit_or_iff)
  moreover have "stack_wf ws stk" by (rule simt.run_inv [OF wf assms(3,4)])
  ultimately show ?thesis
    using simt_run_keeps [OF assms(4) wf assms(3)] unfolding cov submask_iff by blast
qed

text \<open>
  A warp of four lanes: a branch that sends lanes 2 and 3 to 24 while lanes 0 and 1 fall
  through to 16, with reconvergence at 40.
\<close>

definition demo_branch :: simt_event where
  "demo_branch = \<lparr>ev_now = 5, ev_done = 0, ev_next_pc = [16, 16, 24, 24], ev_recvg_pc = 40,
     ev_op = BRANCH_OP, ev_isize = 8, ev_pc = 8\<rparr>"

definition demo_join :: simt_event where
  "demo_join = \<lparr>ev_now = 6, ev_done = 4, ev_next_pc = [16, 16, -1, 40], ev_recvg_pc = -1,
     ev_op = ALU_OP, ev_isize = 8, ev_pc = 24\<rparr>"

definition demo_stack :: simt_stack where
  "demo_stack = [
     \<lparr>se_pc = 24, se_calldepth = 0, se_active_mask = 12, se_recvg_pc = 40, se_branch_div_cycle = 0,
       se_type = STACK_ENTRY_TYPE_NORMAL\<rparr>,
     \<lparr>se_pc = 16, se_calldepth = 0, se_active_mask = 3, se_recvg_pc = 40, se_branch_div_cycle = 0,
       se_type = STACK_ENTRY_TYPE_NORMAL\<rparr>,
     \<lparr>se_pc = 40, se_calldepth = 1, se_active_mask = 15, se_recvg_pc = -1, se_branch_div_cycle = 5,
       se_type = STACK_ENTRY_TYPE_NORMAL\<rparr>]"

definition demo_stack_end :: simt_stack where
  "demo_stack_end = tl demo_stack"

lemma demo_steps:
  "simt_step 4 (simt_launch 8 15) demo_branch = Some demo_stack"
  "simt_step 4 demo_stack demo_join = Some demo_stack_end"
  "simt_update 4 5 (simt_launch 8 15) 0 [16, 16, 24, 24] 40 BRANCH_OP 8 8 = Some (demo_stack, True)"
  by code_simp+

lemma demo_mask: "(15 :: warp_mask) \<noteq> 0" "drop_bit 4 (15 :: warp_mask) = 0"
  by code_simp+

lemma demo_pcs:
  assumes "t < 4" shows "[16, 16, 24, 24] ! t \<in> {16, 24 :: u64}"
proof -
  from assms consider "t = 0" | "t = 1" | "t = 2" | "t = 3" by linarith
  then show ?thesis by cases simp_all
qed

lemma demo_pcs_live: "t < 4 \<Longrightarrow> [16, 16, 24, 24] ! t \<noteq> (-1 :: u64)"
  using demo_pcs [of t] by auto

lemma demo_lanes:
  "bit (15 :: warp_mask) t \<Longrightarrow> t < 4" "bit (12 :: warp_mask) t \<Longrightarrow> t = 2 \<or> t = 3"
proof -
  show *: "bit (15 :: warp_mask) t \<Longrightarrow> t < 4"
    using bits_below [of 4 "15 :: warp_mask"] demo_mask(2) by blast
  assume 12: "bit (12 :: warp_mask) t"
  have "drop_bit 4 (12 :: warp_mask) = 0" by code_simp
  then have "t < 4" using bits_below [of 4 "12 :: warp_mask"] 12 by blast
  then consider "t = 0" | "t = 1" | "t = 2" | "t = 3" by linarith
  then show "t = 2 \<or> t = 3" using 12 by cases simp_all
qed

lemma demo_ok: "simt_ok (simt_launch 8 15) demo_branch" "simt_ok demo_stack demo_join"
proof -
  have "\<forall>t. bit (15 :: warp_mask) t \<longrightarrow> [16, 16, 24, 24] ! t \<noteq> null_pc"
    using demo_lanes(1) demo_pcs_live unfolding null_pc_def by blast
  then show "simt_ok (simt_launch 8 15) demo_branch"
    by (simp add: simt_ok_def simt_launch_def demo_branch_def)
  have that_lane: "t = 3" if "bit (12 :: warp_mask) t" "\<not> bit (4 :: warp_mask) t" for t
    using demo_lanes(2) [OF that(1)] that(2) by auto
  have "\<forall>t. bit (12 :: warp_mask) t \<and> \<not> bit (4 :: warp_mask) t \<longrightarrow> [16, 16, -1, 40] ! t \<noteq> null_pc"
    unfolding null_pc_def
  proof (intro allI impI)
    fix t assume "live (12 :: warp_mask) 4 t"
    with that_lane have "t = 3" by blast
    then show "[16, 16, -1, 40] ! t \<noteq> (-1 :: u64)" by simp
  qed
  then show "simt_ok demo_stack demo_join"
    by (simp add: simt_ok_def demo_stack_def demo_join_def)
qed

theorem simt_run_invariant_witness:
  "stack_wf 4 demo_stack_end \<and> submask (covered demo_stack_end) 15 \<and>
   thread_pc demo_stack_end 3 \<noteq> None"
proof -
  have ok: "simt.run_ok 4 (simt_launch 8 15) [demo_branch, demo_join]"
    by (simp add: demo_steps demo_ok)
  have run: "run (simt_step 4) (simt_launch 8 15) [demo_branch, demo_join] = Some demo_stack_end"
    by (simp add: demo_steps)
  have "ev_done demo_branch = 0" "ev_done demo_join = 4"
    by (simp_all add: demo_branch_def demo_join_def)
  moreover have "bit (15 :: warp_mask) 3" "\<not> bit (4 :: warp_mask) 3" by (simp_all add: bit_numeral_rec)
  ultimately show ?thesis using simt_run_invariant [OF demo_mask ok run] by simp
qed

text \<open>
  C20: after an update of a well-formed stack by a branch that reconverges as described below, every active thread that
  has not finished executes at its own next
  program counter: it is the one of the nearest stack entry that holds the thread. The
  hypothesis on the reconvergence point says that it is an immediate post-dominator: a branch
  one of whose sides leads straight to the enclosing reconvergence point reconverges there.
\<close>

theorem simt_update_next_pc:
  assumes upd: "simt_update ws now (e # bs) td nx r op isize ipc = Some (stk', d)"
    and wf: "stack_wf ws (e # bs)"
    and pcs: "\<forall>t. live (se_active_mask e) td t \<longrightarrow> nx ! t \<noteq> null_pc"
    and ipdom: "\<forall>t u. live (se_active_mask e) td t \<and> live (se_active_mask e) td u \<and>
        nx ! t = se_recvg_pc e \<and> nx ! u \<noteq> se_recvg_pc e \<longrightarrow> r = se_recvg_pc e"
    and t: "live (se_active_mask e) td t"
  shows "thread_pc stk' t = Some (nx ! t)"
proof -
  have "drop_bit ws (se_active_mask e) = 0" using wf by simp
  from upd this pcs show ?thesis
  proof (cases rule: simt_update_cases)
    case none
    then show ?thesis using t by blast
  next
    case (one pc m)
    then have "pc \<noteq> null_pc" using pcs t by blast
    then show ?thesis using one_path_wf(4) [OF one(3) wf one(1) _ one(2) t] by blast
  next
    case (two pc1 m1 pc2 m2)
    then obtain u v where u: "live (se_active_mask e) td u" "nx ! u = pc1"
        and v: "live (se_active_mask e) td v" "nx ! v = pc2"
      unfolding lanes_at_def word_nonzero_iff by metis
    then have n: "pc1 \<noteq> null_pc" "pc2 \<noteq> null_pc" using pcs by auto
    have ip: "joins e pc1 \<or> joins e pc2 \<longrightarrow> r = se_recvg_pc e"
      using ipdom u v two(1) unfolding joins_def by metis
    show ?thesis unfolding two(6) two_path_result [OF two(1)] Let_def
      by (rule two_path_wf(4) [OF wf two(1) n two(2-4) ip t])
  qed
qed

theorem simt_update_next_pc_witness:
  "thread_pc demo_stack 3 = Some 24 \<and> thread_pc demo_stack 0 = Some 16"
proof -
  obtain e where e: "simt_launch 8 15 = [e]" "se_active_mask e = 15" "se_recvg_pc e = -1"
    by (simp add: simt_launch_def simt_stack_entry_new_def)
  have lt: "t < 4" if "live (15 :: warp_mask) 0 t" for t using that demo_lanes(1) by blast
  have wf: "stack_wf 4 [e]" unfolding e(1) [symmetric] by code_simp
  have pcs: "\<forall>t. live (se_active_mask e) 0 t \<longrightarrow> [16, 16, 24, 24] ! t \<noteq> null_pc"
    using demo_pcs_live lt unfolding e null_pc_def by blast
  have ip: "\<forall>t u. live (se_active_mask e) 0 t \<and> live (se_active_mask e) 0 u \<and>
      [16, 16, 24, 24] ! t = se_recvg_pc e \<and> [16, 16, 24, 24] ! u \<noteq> se_recvg_pc e \<longrightarrow> 40 = se_recvg_pc e"
    using demo_pcs_live lt unfolding e by metis
  have b: "live (se_active_mask e) 0 3" "live (se_active_mask e) 0 0" unfolding e by simp_all
  note at = simt_update_next_pc [OF demo_steps(3) [unfolded e(1)] wf pcs ip]
  from at [OF b(1)] at [OF b(2)] show ?thesis by simp
qed

text \<open>
  C30: the grouping loop terminates, with one entry of \<^verbatim>\<open>divergent_paths\<close> for each program counter
  at which some active, unfinished thread continues, and that entry holds exactly these threads.
\<close>

theorem group_paths_terminates:
  assumes "\<forall>t. bit act t \<longrightarrow> t < ws" and "\<forall>t. live act td t \<longrightarrow> nx ! t \<noteq> null_pc"
  shows "\<exists>paths. group_paths ws td nx act [] 0 = Some (paths, card {nx ! t | t. live act td t}) \<and>
    distinct (map fst paths) \<and> (\<forall>pc m. map_of paths pc = Some m \<longleftrightarrow>
      m \<noteq> 0 \<and> (\<forall>t. bit m t \<longleftrightarrow> live act td t \<and> nx ! t = pc))"
proof -
  obtain paths where p: "group_paths ws td nx act [] 0 = Some (paths, length paths)"
      "distinct (map fst paths)"
    and look: "\<And>pc m. map_of paths pc = Some m \<longleftrightarrow> m \<noteq> 0 \<and> (\<forall>t. bit m t \<longleftrightarrow> live act td t \<and> nx ! t = pc)"
    using group_paths_spec [OF assms] by blast
  have "fst ` set paths = {nx ! t | t. live act td t}"
  proof (intro set_eqI iffI)
    fix pc assume "pc \<in> fst ` set paths"
    then obtain m where "map_of paths pc = Some m"
      by (metis map_of_eq_None_iff not_Some_eq)
    then show "pc \<in> {nx ! t | t. live act td t}" using look by (auto simp: word_nonzero_iff)
  next
    fix pc assume "pc \<in> {nx ! t | t. live act td t}"
    then obtain t where t: "live act td t" "pc = nx ! t" by blast
    obtain m :: warp_mask where "\<forall>u. bit m u \<longleftrightarrow> live act td u \<and> nx ! u = pc"
      by (rule lane_word [of act td nx pc]) (rule that, assumption)
    then have "map_of paths pc = Some m" using look t by (auto simp: word_nonzero_iff)
    then show "pc \<in> fst ` set paths" by (force dest: map_of_SomeD)
  qed
  then have "length paths = card {nx ! t | t. live act td t}"
    using distinct_card [OF p(2)] by simp
  with p look show ?thesis by auto
qed

theorem group_paths_terminates_witness:
  "\<exists>paths. group_paths 4 0 [16, 16, 24, 24] 15 [] 0 =
     Some (paths, card {[16, 16, 24, 24 :: u64] ! t | t. live 15 0 t}) \<and> distinct (map fst paths)"
proof -
  have lt: "\<forall>t. bit (15 :: warp_mask) t \<longrightarrow> t < 4" using demo_lanes(1) by blast
  have "\<forall>t. live 15 0 t \<longrightarrow> [16, 16, 24, 24] ! t \<noteq> null_pc" using lt demo_pcs_live unfolding null_pc_def by blast
  from group_paths_terminates [OF lt this] show ?thesis by (elim exE conjE) (intro exI conjI)
qed

text \<open>
  Without the hypothesis on the reconvergence point a thread can end at the wrong place: in a
  divergent region that reconverges at 40, a branch between 40 and 16 with reconvergence point
  48 leaves the threads that go to 40 in the entry that waits at 48.
\<close>

definition demo_bad_join :: simt_event where
  "demo_bad_join = \<lparr>ev_now = 6, ev_done = 0, ev_next_pc = [16, 16, 40, 32], ev_recvg_pc = 48,
     ev_op = BRANCH_OP, ev_isize = 8, ev_pc = 24\<rparr>"

lemma join_under_later_reconvergence:
  "map_option (\<lambda>stk. (stack_wf 4 stk, thread_pc stk 2)) (simt_step 4 demo_stack demo_bad_join) =
     Some (True, Some 48)"
  by code_simp

end
