(* ===== verification/Fifo_Ring.thy ===== *)
theory Fifo_Ring
  imports Sim_Prelude
begin

text \<open>
  The ring buffer \<^verbatim>\<open>tex_cache::fifo\<close> (gpu-cache.h): an array of \<^verbatim>\<open>m_size\<close> cells, the cell to
  write (\<^verbatim>\<open>m_head\<close>), the cell to read (\<^verbatim>\<open>m_tail\<close>) and the number of elements. It implements the
  contract \<open>bounded_fifo\<close>; the failed assertions of \<^verbatim>\<open>push\<close> and \<^verbatim>\<open>pop\<close> are \<open>None\<close>.
\<close>

record 'a ring =
  r_head :: nat
  r_tail :: nat
  r_num :: nat
  r_size :: nat
  r_data :: "'a list"

text \<open>\<^verbatim>\<open>new T[size]\<close> fills the array with the default value of \<^verbatim>\<open>T\<close>, here \<open>d\<close>.\<close>

definition ring_new :: "'a \<Rightarrow> nat \<Rightarrow> 'a ring" where
  "ring_new d sz = \<lparr>r_head = 0, r_tail = 0, r_num = 0, r_size = sz, r_data = replicate sz d\<rparr>"

definition ring_full :: "'a ring \<Rightarrow> bool" where
  "ring_full q \<longleftrightarrow> r_num q = r_size q"

definition ring_empty :: "'a ring \<Rightarrow> bool" where
  "ring_empty q \<longleftrightarrow> r_num q = 0"

text \<open>\<^verbatim>\<open>push\<close> returns the cell it wrote.\<close>

definition ring_push :: "'a ring \<Rightarrow> 'a \<Rightarrow> (nat \<times> 'a ring) option" where
  "ring_push q e = do {
     guard (\<not> ring_full q);
     Some (r_head q, q\<lparr>r_data := (r_data q)[r_head q := e],
             r_head := (r_head q + 1) mod r_size q, r_num := r_num q + 1\<rparr>)
   }"

definition ring_pop :: "'a ring \<Rightarrow> ('a \<times> 'a ring) option" where
  "ring_pop q = do {
     guard (\<not> ring_empty q);
     Some (r_data q ! r_tail q, q\<lparr>r_tail := (r_tail q + 1) mod r_size q, r_num := r_num q - 1\<rparr>)
   }"

definition ring_peek :: "'a ring \<Rightarrow> nat \<Rightarrow> 'a option" where
  "ring_peek q i = (if i < r_size q then Some (r_data q ! i) else None)"

definition ring_set :: "'a ring \<Rightarrow> nat \<Rightarrow> ('a \<Rightarrow> 'a) \<Rightarrow> 'a ring" where
  "ring_set q i f = q\<lparr>r_data := (r_data q)[i := f (r_data q ! i)]\<rparr>"

definition ring_top :: "'a ring \<Rightarrow> 'a" where
  "ring_top q = r_data q ! r_tail q"

text \<open>The elements, oldest first.\<close>

definition ring_contents :: "'a ring \<Rightarrow> 'a list" where
  "ring_contents q = map (\<lambda>i. r_data q ! ((r_tail q + i) mod r_size q)) [0..<r_num q]"

definition ring_inv :: "'a ring \<Rightarrow> bool" where
  "ring_inv q \<longleftrightarrow> 0 < r_size q \<and> length (r_data q) = r_size q \<and> r_tail q < r_size q \<and>
     r_num q \<le> r_size q \<and> r_head q = (r_tail q + r_num q) mod r_size q"

lemma ring_new_inv: "0 < sz \<Longrightarrow> ring_inv (ring_new d sz)"
  by (simp add: ring_inv_def ring_new_def)

lemma ring_new_contents [simp]: "ring_contents (ring_new d sz) = []" "r_size (ring_new d sz) = sz"
  by (simp_all add: ring_contents_def ring_new_def)

lemma length_ring_contents [simp]: "length (ring_contents q) = r_num q"
  by (simp add: ring_contents_def)

lemma mod_cell_inj:
  fixes a i j n :: nat
  assumes "i < n" and "j < n" and "(a + i) mod n = (a + j) mod n" shows "i = j"
  using assms
proof (induction i j rule: linorder_wlog)
  case (le i j)
  then have "n dvd (a + j) - (a + i)" using mod_eq_dvd_iff_nat [of "a + i" "a + j" n] by simp
  then have "n dvd j - i" by simp
  moreover have "j - i < n" using le by simp
  ultimately have "j - i = 0" using dvd_imp_le by fastforce
  then show ?case using le by simp
qed simp

lemma ring_push_ok:
  assumes "ring_inv q" and "\<not> ring_full q"
  shows "\<exists>q'. ring_push q x = Some (r_head q, q') \<and> ring_inv q' \<and>
    ring_contents q' = ring_contents q @ [x] \<and> r_size q' = r_size q"
proof -
  let ?q = "q\<lparr>r_data := (r_data q)[r_head q := x], r_head := (r_head q + 1) mod r_size q, r_num := r_num q + 1\<rparr>"
  have lt: "r_num q < r_size q" using assms by (simp add: ring_inv_def ring_full_def)
  have "r_head q \<noteq> (r_tail q + i) mod r_size q" if "i < r_num q" for i
    using mod_cell_inj [of "r_num q" "r_size q" i "r_tail q"] lt that assms(1) by (auto simp: ring_inv_def)
  then have "ring_contents ?q = ring_contents q @ [x]"
    using assms(1) by (auto simp: ring_contents_def ring_inv_def)
  moreover have "ring_inv ?q" using assms(1) lt by (simp add: ring_inv_def mod_simps)
  ultimately show ?thesis using assms(2) by (simp add: ring_push_def)
qed

lemma ring_pop_ok:
  assumes "ring_inv q" and "ring_contents q = x # xs"
  shows "\<exists>q'. ring_pop q = Some (x, q') \<and> ring_inv q' \<and> ring_contents q' = xs \<and> r_size q' = r_size q"
proof -
  let ?q = "q\<lparr>r_tail := (r_tail q + 1) mod r_size q, r_num := r_num q - 1\<rparr>"
  obtain n where n: "r_num q = Suc n"
    using assms(2) by (cases "r_num q") (auto simp: ring_contents_def)
  have "ring_contents q = r_data q ! r_tail q # ring_contents ?q"
    using assms(1) by (simp add: ring_contents_def n map_upt_Suc ring_inv_def mod_simps del: upt_Suc)
  then have "x = r_data q ! r_tail q" "xs = ring_contents ?q" using assms(2) by simp_all
  moreover have "ring_inv ?q" using assms(1) n by (auto simp: ring_inv_def mod_simps)
  ultimately show ?thesis using n by (simp add: ring_pop_def ring_empty_def)
qed

interpretation ring: bounded_fifo ring_contents r_size ring_full
  "\<lambda>q x. map_option snd (ring_push q x)" ring_pop ring_inv
proof
  show "ring_full q \<longleftrightarrow> length (ring_contents q) = r_size q" for q :: "'a ring"
    by (simp add: ring_full_def)
  show "ring_inv q \<Longrightarrow> length (ring_contents q) \<le> r_size q" for q :: "'a ring"
    by (simp add: ring_inv_def)
  show "ring_full q \<Longrightarrow> map_option snd (ring_push q x) = None" for q :: "'a ring" and x
    by (simp add: ring_push_def)
  show "ring_contents q = [] \<Longrightarrow> ring_pop q = None" for q :: "'a ring"
    by (simp add: ring_pop_def ring_empty_def ring_contents_def)
qed (use ring_push_ok ring_pop_ok in fastforce)+

text \<open>
  C31: the ring buffer refines a bounded queue. Every sequence of pushes and pops on a ring of
  \<open>sz\<close> cells fails exactly when it fails on a list of at most \<open>sz\<close> elements, and pops the same values.
\<close>

theorem ring_refines_list:
  assumes "0 < sz"
  shows "map_option (\<lambda>(q, ys). (ring_contents q, ys)) (ring.drive (ring_new d sz) ops) =
    list_drive sz [] ops"
  using ring.drive_refines [OF ring_new_inv [OF assms], of d ops] by (auto split: option.splits)

theorem ring_refines_list_witness:
  "map_option (\<lambda>(q, ys). (ring_contents q, ys))
     (ring.drive (ring_new (0 :: nat) 2) [Some 5, Some 6, None, Some 7, None]) = Some ([7], [5, 6])"
  unfolding ring_refines_list [of 2 0, OF zero_less_numeral] by simp

end
