(* ===== verification/Delay_Queue.thy ===== *)
theory Delay_Queue
  imports Sim_Prelude
begin

text \<open>
  The delay queue \<^verbatim>\<open>fifo_pipeline\<close> (delayqueue.h): a linked list of cells that hold a pointer or
  \<^verbatim>\<open>NULL\<close>, never shorter than a minimum length. A cell is an \<open>option\<close>; the list is the chain from
  \<^verbatim>\<open>m_head\<close> to \<^verbatim>\<open>m_tail\<close>; \<^verbatim>\<open>m_length\<close> and \<^verbatim>\<open>m_n_element\<close> are the counters the code keeps beside
  it, the latter with its wrap-around. Failed assertions are \<open>None\<close>.
\<close>

section \<open>Operations\<close>

record 'a delay_queue =
  dq_min_len :: nat
  dq_max_len :: nat
  dq_length :: nat
  dq_n_element :: u32
  dq_cells :: "'a option list"

definition dq_push :: "'a delay_queue \<Rightarrow> 'a option \<Rightarrow> 'a delay_queue option" where
  "dq_push q data = do {
     guard (dq_length q < dq_max_len q);
     Some (if dq_cells q = [] \<or> last (dq_cells q) \<noteq> None \<or> dq_length q < dq_min_len q
           then q\<lparr>dq_cells := dq_cells q @ [data], dq_length := dq_length q + 1,
                  dq_n_element := dq_n_element q + 1\<rparr>
           else q\<lparr>dq_cells := butlast (dq_cells q) @ [data]\<rparr>)
   }"

definition dq_pop :: "'a delay_queue \<Rightarrow> ('a option \<times> 'a delay_queue) option" where
  "dq_pop q = (case dq_cells q of
       [] \<Rightarrow> Some (None, q)
     | data # rest \<Rightarrow>
         let q1 = q\<lparr>dq_cells := rest, dq_length := dq_length q - 1, dq_n_element := dq_n_element q - 1\<rparr>
         in do {
           guard (dq_length q1 = 0 \<longrightarrow> rest = []);
           q2 \<leftarrow> (if dq_min_len q \<noteq> 0 \<and> dq_length q1 < dq_min_len q
                 then map_option (\<lambda>p. p\<lparr>dq_n_element := dq_n_element p - 1\<rparr>) (dq_push q1 None)
                 else Some q1);
           Some (data, q2)
         })"

definition dq_top :: "'a delay_queue \<Rightarrow> 'a option" where
  "dq_top q = (case dq_cells q of [] \<Rightarrow> None | data # _ \<Rightarrow> data)"

text \<open>The constructor fills the queue up to its minimum length.\<close>

fun dq_fill :: "nat \<Rightarrow> 'a delay_queue \<Rightarrow> 'a delay_queue option" where
  "dq_fill 0 q = Some q"
| "dq_fill (Suc n) q = Option.bind (dq_push q None) (dq_fill n)"

definition dq_new :: "nat \<Rightarrow> nat \<Rightarrow> 'a delay_queue option" where
  "dq_new minlen maxlen = do {
     guard (maxlen \<noteq> 0);
     dq_fill minlen \<lparr>dq_min_len = minlen, dq_max_len = maxlen, dq_length = 0, dq_n_element = 0, dq_cells = []\<rparr>
   }"

text \<open>The two loops of \<^verbatim>\<open>set_min_length\<close>: padding at the tail, and dropping empty tail cells.\<close>

function dq_pad :: "'a delay_queue \<Rightarrow> 'a delay_queue option" where
  "dq_pad q = (if dq_length q < dq_min_len q then
       (case dq_push q None of None \<Rightarrow> None
        | Some p \<Rightarrow> dq_pad (p\<lparr>dq_n_element := dq_n_element p - 1\<rparr>))
     else Some q)"
  by auto
termination
  by (relation "measure (\<lambda>q. dq_min_len q - dq_length q)")
    (auto simp: dq_push_def split: if_splits)

function dq_trim :: "'a delay_queue \<Rightarrow> 'a delay_queue option" where
  "dq_trim q = (if dq_min_len q < dq_length q \<and> dq_cells q \<noteq> [] \<and> last (dq_cells q) = None then
       (if length (dq_cells q) = 1 then map_option snd (dq_pop q)
        else dq_trim (q\<lparr>dq_cells := butlast (dq_cells q), dq_length := dq_length q - 1\<rparr>))
     else Some q)"
  by auto
termination
  by (relation "measure dq_length") auto

declare dq_pad.simps [simp del] dq_trim.simps [simp del]

definition dq_set_min_length :: "'a delay_queue \<Rightarrow> nat \<Rightarrow> 'a delay_queue option" where
  "dq_set_min_length q new_min_len =
    (if new_min_len = dq_min_len q then Some q
     else if dq_min_len q < new_min_len then dq_pad (q\<lparr>dq_min_len := new_min_len\<rparr>)
     else if dq_cells q = [] then None
     else dq_trim (q\<lparr>dq_min_len := new_min_len\<rparr>))"

definition dq_full :: "'a delay_queue \<Rightarrow> bool" where
  "dq_full q \<longleftrightarrow> dq_max_len q \<noteq> 0 \<and> dq_max_len q \<le> dq_length q"

text \<open>\<^verbatim>\<open>is_avilable_size\<close> (sic), in unsigned arithmetic.\<close>

definition dq_is_avilable_size :: "'a delay_queue \<Rightarrow> u32 \<Rightarrow> bool" where
  "dq_is_avilable_size q sz \<longleftrightarrow> dq_max_len q \<noteq> 0 \<and> of_nat (dq_max_len q) \<le> of_nat (dq_length q) + sz - 1"

definition dq_empty :: "'a delay_queue \<Rightarrow> bool" where
  "dq_empty q \<longleftrightarrow> dq_cells q = []"

section \<open>Invariant\<close>

definition dq_inv :: "'a delay_queue \<Rightarrow> bool" where
  "dq_inv q \<longleftrightarrow> dq_length q = length (dq_cells q) \<and> dq_min_len q \<le> dq_length q \<and>
     dq_length q \<le> dq_max_len q \<and> 0 < dq_max_len q"

text \<open>The values in a list of cells, and in the queue, oldest first.\<close>

definition vals :: "'a option list \<Rightarrow> 'a list" where
  "vals xs = map the (filter (\<lambda>c. c \<noteq> None) xs)"

definition dq_data :: "'a delay_queue \<Rightarrow> 'a list" where
  "dq_data q = vals (dq_cells q)"

lemma vals_simps [simp]: "vals [] = []" "vals (d # ds) = (case d of None \<Rightarrow> [] | Some x \<Rightarrow> [x]) @ vals ds"
  by (auto simp: vals_def split: option.splits)

lemma vals_append [simp]: "vals (xs @ ys) = vals xs @ vals ys"
  by (simp add: vals_def)

lemma vals_replicate_None [simp]: "vals (replicate n None) = []"
  by (induction n) simp_all

lemma vals_butlast: "xs \<noteq> [] \<Longrightarrow> last xs = None \<Longrightarrow> vals (butlast xs) = vals xs"
  by (cases xs rule: rev_cases) simp_all

lemma dq_fill_spec:
  "dq_cells q = replicate k None \<Longrightarrow> dq_length q = k \<Longrightarrow> k + n = dq_min_len q \<Longrightarrow> dq_min_len q \<le> dq_max_len q \<Longrightarrow>
    \<exists>q'. dq_fill n q = Some q' \<and> dq_cells q' = replicate (dq_min_len q) None \<and>
      dq_length q' = dq_min_len q \<and> dq_min_len q' = dq_min_len q \<and> dq_max_len q' = dq_max_len q"
proof (induction n arbitrary: q k)
  case (Suc n)
  let ?q = "q\<lparr>dq_cells := dq_cells q @ [None], dq_length := dq_length q + 1, dq_n_element := dq_n_element q + 1\<rparr>"
  have "dq_push q None = Some ?q" using Suc.prems by (simp add: dq_push_def)
  moreover have "dq_cells ?q = replicate (Suc k) None" using Suc.prems by (simp add: replicate_append_same)
  ultimately show ?case using Suc.IH [of ?q "Suc k"] Suc.prems by simp
qed auto

lemma dq_new_spec:
  assumes "0 < maxlen" and "minlen \<le> maxlen"
  shows "\<exists>q. dq_new minlen maxlen = Some q \<and> dq_inv q \<and> dq_data q = [] \<and> dq_min_len q = minlen \<and>
    dq_max_len q = maxlen"
  using dq_fill_spec [of "\<lparr>dq_min_len = minlen, dq_max_len = maxlen, dq_length = 0, dq_n_element = 0, dq_cells = []\<rparr>" 0 minlen]
    assms by (auto simp: dq_new_def dq_inv_def dq_data_def)

lemma dq_push_spec:
  assumes "dq_inv q" and "dq_push q d = Some q'"
  shows "dq_inv q'" and "dq_data q' = dq_data q @ (case d of None \<Rightarrow> [] | Some x \<Rightarrow> [x])"
    and "dq_cells q' \<noteq> [] \<and> last (dq_cells q') = d"
    and "i < length (dq_cells q) \<Longrightarrow> dq_cells q ! i \<noteq> None \<Longrightarrow>
      i < length (dq_cells q') \<and> dq_cells q' ! i = dq_cells q ! i"
    and "dq_min_len q' = dq_min_len q" and "dq_max_len q' = dq_max_len q"
proof -
  have q': "q' = (if dq_cells q = [] \<or> last (dq_cells q) \<noteq> None \<or> dq_length q < dq_min_len q
           then q\<lparr>dq_cells := dq_cells q @ [d], dq_length := dq_length q + 1,
                  dq_n_element := dq_n_element q + 1\<rparr>
           else q\<lparr>dq_cells := butlast (dq_cells q) @ [d]\<rparr>)" and lt: "dq_length q < dq_max_len q"
    using assms(2) by (auto simp: dq_push_def)
  show "dq_inv q'" "dq_cells q' \<noteq> [] \<and> last (dq_cells q') = d" "dq_min_len q' = dq_min_len q"
      "dq_max_len q' = dq_max_len q"
    using assms(1) lt by (auto simp: q' dq_inv_def)
  show "dq_data q' = dq_data q @ (case d of None \<Rightarrow> [] | Some x \<Rightarrow> [x])"
  proof (cases "dq_cells q = [] \<or> last (dq_cells q) \<noteq> None \<or> dq_length q < dq_min_len q")
    case True
    then show ?thesis by (auto simp: q' dq_data_def split: option.splits)
  next
    case False
    then show ?thesis by (auto simp: q' dq_data_def vals_butlast split: option.splits)
  qed
  show "i < length (dq_cells q) \<Longrightarrow> dq_cells q ! i \<noteq> None \<Longrightarrow>
      i < length (dq_cells q') \<and> dq_cells q' ! i = dq_cells q ! i"
    by (cases "i = length (dq_cells q) - 1")
      (auto simp: q' nth_append nth_butlast last_conv_nth)
qed

lemma dq_pop_spec:
  assumes "dq_inv q"
  obtains d q' where "dq_pop q = Some (d, q')" and "dq_inv q'"
    and "d = dq_top q" and "dq_data q = (case d of None \<Rightarrow> [] | Some x \<Rightarrow> [x]) @ dq_data q'"
    and "\<And>i. Suc i < length (dq_cells q) \<Longrightarrow> dq_cells q ! Suc i \<noteq> None \<Longrightarrow>
      i < length (dq_cells q') \<and> dq_cells q' ! i = dq_cells q ! Suc i"
    and "dq_min_len q' = dq_min_len q" and "dq_max_len q' = dq_max_len q"
proof (cases "dq_cells q")
  case Nil
  then have "dq_pop q = Some (None, q)" by (simp add: dq_pop_def)
  then show ?thesis using Nil assms by (intro that [of None q]) (auto simp: dq_top_def)
next
  case (Cons c cs)
  let ?q1 = "q\<lparr>dq_cells := cs, dq_length := dq_length q - 1, dq_n_element := dq_n_element q - 1\<rparr>"
  let ?q2 = "?q1\<lparr>dq_cells := cs @ [None], dq_length := dq_length q, dq_n_element := dq_n_element q - 1\<rparr>"
  have inv: "dq_length q = Suc (length cs)" "dq_min_len q \<le> Suc (length cs)" "Suc (length cs) \<le> dq_max_len q"
    using assms Cons by (auto simp: dq_inv_def)
  have data: "dq_data q = (case c of None \<Rightarrow> [] | Some x \<Rightarrow> [x]) @ dq_data ?q1"
    using Cons by (auto simp: dq_data_def split: option.splits)
  show ?thesis
  proof (cases "dq_min_len q \<noteq> 0 \<and> length cs < dq_min_len q")
    case True
    then have "dq_push ?q1 None = Some (?q2\<lparr>dq_n_element := dq_n_element q\<rparr>)"
      using inv by (simp add: dq_push_def)
    then have "dq_pop q = Some (c, ?q2)" using Cons True inv by (simp add: dq_pop_def)
    moreover have "dq_data ?q2 = dq_data ?q1" by (simp add: dq_data_def)
    moreover have "dq_inv ?q2" using assms Cons by (simp add: dq_inv_def)
    ultimately show ?thesis
      using Cons data by (intro that [of c ?q2]) (auto simp: dq_top_def nth_append)
  next
    case False
    then have "dq_pop q = Some (c, ?q1)" using Cons inv by (auto simp: dq_pop_def)
    moreover have "dq_inv ?q1" using assms Cons False inv by (auto simp: dq_inv_def)
    ultimately show ?thesis
      using Cons data by (intro that [of c ?q1]) (auto simp: dq_top_def)
  qed
qed

lemma dq_pad_spec:
  "dq_length q = length (dq_cells q) \<Longrightarrow> dq_length q \<le> dq_max_len q \<Longrightarrow> dq_min_len q \<le> dq_max_len q \<Longrightarrow>
    0 < dq_max_len q \<Longrightarrow> \<exists>q'. dq_pad q = Some q' \<and> dq_inv q' \<and> dq_data q' = dq_data q \<and>
      dq_min_len q' = dq_min_len q \<and> dq_max_len q' = dq_max_len q"
proof (induction q rule: dq_pad.induct)
  case (1 q)
  show ?case
  proof (cases "dq_length q < dq_min_len q")
    case True
    let ?p = "q\<lparr>dq_cells := dq_cells q @ [None], dq_length := dq_length q + 1, dq_n_element := dq_n_element q + 1\<rparr>"
    have p: "dq_push q None = Some ?p" using "1.prems" True by (simp add: dq_push_def)
    have "\<exists>q'. dq_pad (?p\<lparr>dq_n_element := dq_n_element ?p - 1\<rparr>) = Some q' \<and> dq_inv q' \<and>
        dq_data q' = dq_data (?p\<lparr>dq_n_element := dq_n_element ?p - 1\<rparr>) \<and>
        dq_min_len q' = dq_min_len (?p\<lparr>dq_n_element := dq_n_element ?p - 1\<rparr>) \<and>
        dq_max_len q' = dq_max_len (?p\<lparr>dq_n_element := dq_n_element ?p - 1\<rparr>)"
      by (rule "1.IH" [OF True p]) (use "1.prems" True in simp_all)
    then show ?thesis using p True by (simp add: dq_pad.simps [of q] dq_data_def)
  next
    case False
    then show ?thesis using "1.prems" by (simp add: dq_pad.simps [of q] dq_inv_def)
  qed
qed

lemma dq_trim_spec:
  "dq_inv q \<Longrightarrow> \<exists>q'. dq_trim q = Some q' \<and> dq_inv q' \<and> dq_data q' = dq_data q \<and>
      dq_min_len q' = dq_min_len q \<and> dq_max_len q' = dq_max_len q"
proof (induction q rule: dq_trim.induct)
  case (1 q)
  show ?case
  proof (cases "dq_min_len q < dq_length q \<and> dq_cells q \<noteq> [] \<and> last (dq_cells q) = None")
    case True
    show ?thesis
    proof (cases "length (dq_cells q) = 1")
      case one: True
      then have "dq_cells q = [None]" using True by (cases "dq_cells q") auto
      then show ?thesis using True one "1.prems"
        by (auto simp: dq_trim.simps [of q] dq_pop_def dq_inv_def dq_data_def)
    next
      case False
      let ?p = "q\<lparr>dq_cells := butlast (dq_cells q), dq_length := dq_length q - 1\<rparr>"
      have inv: "dq_inv ?p" using "1.prems" True by (auto simp: dq_inv_def)
      have "dq_data ?p = dq_data q" using True by (simp add: dq_data_def vals_butlast)
      then show ?thesis using "1.IH" [OF True False inv] True False by (simp add: dq_trim.simps [of q])
    qed
  next
    case False
    then have "dq_trim q = Some q" by (subst dq_trim.simps) auto
    then show ?thesis using "1.prems" by simp
  qed
qed

lemma dq_pad_length: "dq_pad q = Some q' \<Longrightarrow> dq_length q' \<le> max (dq_length q) (dq_min_len q)"
proof (induction q rule: dq_pad.induct)
  case (1 q)
  show ?case
  proof (cases "dq_length q < dq_min_len q")
    case True
    then obtain p where p: "dq_push q None = Some p" and r: "dq_pad (p\<lparr>dq_n_element := dq_n_element p - 1\<rparr>) = Some q'"
      using "1.prems" by (simp add: dq_pad.simps [of q] split: option.splits)
    have "dq_length p \<le> dq_min_len q \<and> dq_min_len p = dq_min_len q"
      using p True by (auto simp: dq_push_def split: if_splits)
    with "1.IH" [OF True p r] show ?thesis by simp
  qed (use "1.prems" in \<open>simp add: dq_pad.simps [of q]\<close>)
qed

lemma dq_trim_length: "dq_inv q \<Longrightarrow> dq_trim q = Some q' \<Longrightarrow> dq_length q' \<le> dq_length q"
proof (induction q rule: dq_trim.induct)
  case (1 q)
  show ?case
  proof (cases "dq_min_len q < dq_length q \<and> dq_cells q \<noteq> [] \<and> last (dq_cells q) = None")
    case True
    show ?thesis
    proof (cases "length (dq_cells q) = 1")
      case one: True
      then have "dq_cells q = [None]" using True by (cases "dq_cells q") auto
      then show ?thesis using True one "1.prems"
        by (auto simp: dq_trim.simps [of q] dq_pop_def dq_inv_def)
    next
      case False
      let ?p = "q\<lparr>dq_cells := butlast (dq_cells q), dq_length := dq_length q - 1\<rparr>"
      have "dq_inv ?p" using "1.prems"(1) True by (auto simp: dq_inv_def)
      from "1.IH" [OF True False this] show ?thesis using "1.prems"(2) True False by (simp add: dq_trim.simps [of q])
    qed
  next
    case False
    then have "dq_trim q = Some q" by (subst dq_trim.simps) auto
    then show ?thesis using "1.prems" by simp
  qed
qed

lemma dq_set_min_length_spec:
  assumes "dq_inv q" and "n \<le> dq_max_len q"
  shows "\<exists>q'. dq_set_min_length q n = Some q' \<and> dq_inv q' \<and> dq_data q' = dq_data q \<and> dq_min_len q' = n \<and>
    dq_max_len q' = dq_max_len q \<and> dq_length q' \<le> max (dq_length q) n"
proof -
  let ?q = "q\<lparr>dq_min_len := n\<rparr>"
  consider "n = dq_min_len q" | "dq_min_len q < n" | "n < dq_min_len q" by linarith
  then show ?thesis
  proof cases
    case 2
    have "dq_length ?q = length (dq_cells ?q)" "dq_length ?q \<le> dq_max_len ?q" "dq_min_len ?q \<le> dq_max_len ?q"
      "0 < dq_max_len ?q" using assms by (simp_all add: dq_inv_def)
    from dq_pad_spec [OF this] obtain q' where q': "dq_pad ?q = Some q'" "dq_inv q'" "dq_data q' = dq_data ?q"
      "dq_min_len q' = dq_min_len ?q" "dq_max_len q' = dq_max_len ?q" by (elim exE conjE) iprover
    moreover have "dq_set_min_length q n = dq_pad ?q" using 2 by (simp add: dq_set_min_length_def del: dq_pad.simps)
    ultimately show ?thesis using dq_pad_length [OF q'(1)] by (simp add: dq_data_def)
  next
    case 3
    then have inv: "dq_inv ?q" and "dq_cells q \<noteq> []" using assms by (auto simp: dq_inv_def)
    from dq_trim_spec [OF inv] obtain q' where q': "dq_trim ?q = Some q'" "dq_inv q'" "dq_data q' = dq_data ?q"
      "dq_min_len q' = dq_min_len ?q" "dq_max_len q' = dq_max_len ?q" by blast
    with 3 \<open>dq_cells q \<noteq> []\<close> dq_trim_length [OF inv q'(1)] show ?thesis
      by (auto simp: dq_set_min_length_def dq_data_def simp del: dq_trim.simps)
  qed (use assms in \<open>auto simp: dq_set_min_length_def\<close>)
qed

section \<open>Runs\<close>

datatype 'a dq_op = DqPush "'a option" | DqPop

text \<open>A sequence of pushes and pops, with what the pops return.\<close>

fun dq_run :: "'a delay_queue \<Rightarrow> 'a dq_op list \<Rightarrow> ('a delay_queue \<times> 'a option list) option" where
  "dq_run q [] = Some (q, [])"
| "dq_run q (DqPush d # ops) = Option.bind (dq_push q d) (\<lambda>q'. dq_run q' ops)"
| "dq_run q (DqPop # ops) = Option.bind (dq_pop q) (\<lambda>(d, q').
     map_option (\<lambda>(q'', ys). (q'', d # ys)) (dq_run q' ops))"

fun pushed :: "'a dq_op list \<Rightarrow> 'a list" where
  "pushed [] = []"
| "pushed (DqPush d # ops) = (case d of None \<Rightarrow> [] | Some x \<Rightarrow> [x]) @ pushed ops"
| "pushed (DqPop # ops) = pushed ops"

lemma dq_run_order:
  "dq_inv q \<Longrightarrow> dq_run q ops = Some (q', ys) \<Longrightarrow>
    dq_inv q' \<and> dq_data q @ pushed ops = vals ys @ dq_data q'"
proof (induction ops arbitrary: q ys)
  case (Cons op ops)
  show ?case
  proof (cases op)
    case (DqPush d)
    then obtain q1 where q1: "dq_push q d = Some q1" "dq_run q1 ops = Some (q', ys)"
      using Cons.prems(2) by (auto simp: bind_eq_Some_conv)
    note p = dq_push_spec [OF Cons.prems(1) q1(1)]
    with Cons.IH [OF p(1) q1(2)] DqPush show ?thesis by simp
  next
    case DqPop
    obtain d q1 where q1: "dq_pop q = Some (d, q1)" "dq_inv q1"
        "dq_data q = (case d of None \<Rightarrow> [] | Some x \<Rightarrow> [x]) @ dq_data q1"
      using dq_pop_spec [OF Cons.prems(1)] by metis
    then obtain zs where "dq_run q1 ops = Some (q', zs)" "ys = d # zs"
      using Cons.prems(2) DqPop by auto
    with Cons.IH [OF q1(2)] q1 DqPop show ?thesis by auto
  qed
qed simp

lemma dq_run_latency:
  "dq_inv q \<Longrightarrow> dq_run q ops = Some (q', ys) \<Longrightarrow> i < length (dq_cells q) \<Longrightarrow> dq_cells q ! i = Some x \<Longrightarrow>
    i < length ys \<Longrightarrow> ys ! i = Some x"
proof (induction ops arbitrary: q ys i)
  case (Cons op ops)
  show ?case
  proof (cases op)
    case (DqPush d)
    then obtain q1 where q1: "dq_push q d = Some q1" "dq_run q1 ops = Some (q', ys)"
      using Cons.prems(2) by (auto simp: bind_eq_Some_conv)
    have "i < length (dq_cells q1) \<and> dq_cells q1 ! i = Some x"
      using dq_push_spec(4) [OF Cons.prems(1) q1(1) Cons.prems(3)] Cons.prems(4) by simp
    then show ?thesis
      using Cons.IH [OF dq_push_spec(1) [OF Cons.prems(1) q1(1)] q1(2) _ _ Cons.prems(5)] by blast
  next
    case DqPop
    obtain d q1 where q1: "dq_pop q = Some (d, q1)" "dq_inv q1" "d = dq_top q"
      and shift: "\<And>i. Suc i < length (dq_cells q) \<Longrightarrow> dq_cells q ! Suc i \<noteq> None \<Longrightarrow>
        i < length (dq_cells q1) \<and> dq_cells q1 ! i = dq_cells q ! Suc i"
      by (rule dq_pop_spec [OF Cons.prems(1)]) (rule that; assumption)
    then obtain zs where zs: "dq_run q1 ops = Some (q', zs)" "ys = d # zs"
      using Cons.prems(2) DqPop by auto
    show ?thesis
    proof (cases i)
      case 0
      then show ?thesis using zs q1(3) Cons.prems(3,4) by (cases "dq_cells q") (auto simp: dq_top_def)
    next
      case (Suc j)
      then show ?thesis
        using Cons.IH [OF q1(2) zs(1), of j] shift [of j] zs(2) Cons.prems(3-5) by simp
    qed
  qed
qed simp

text \<open>
  Two empty cells at the tail are padding: they are there only while the queue is not longer than its minimum length.
\<close>

definition padded :: "'a delay_queue \<Rightarrow> bool" where
  "padded q \<longleftrightarrow> dq_inv q \<and> (\<forall>xs. dq_cells q = xs @ [None, None] \<longrightarrow> dq_length q \<le> dq_min_len q)"

lemma dq_new_padded:
  assumes "0 < maxlen" and "minlen \<le> maxlen" and "dq_new minlen maxlen = Some q"
  shows "padded q" and "dq_min_len q = minlen"
proof -
  obtain b where b: "b = \<lparr>dq_min_len = minlen, dq_max_len = maxlen, dq_length = 0, dq_n_element = 0, dq_cells = []\<rparr>"
    and f: "dq_fill minlen b = Some q" using assms(1,3) by (simp add: dq_new_def)
  with dq_fill_spec [of b 0 minlen] assms(1,2)
  have "dq_cells q = replicate minlen None \<and> dq_length q = minlen \<and> dq_min_len q = minlen \<and> dq_max_len q = maxlen" by auto
  with assms(1,2) show "padded q" "dq_min_len q = minlen" by (simp_all add: padded_def dq_inv_def)
qed

lemma dq_push_padded:
  assumes "padded q" and "dq_push q d = Some q'"
  shows "padded q'"
proof -
  have inv: "dq_inv q" using assms(1) by (simp add: padded_def)
  have "dq_length q' \<le> dq_min_len q'" if xs: "dq_cells q' = xs @ [None, None]" for xs
  proof (cases "dq_cells q = [] \<or> last (dq_cells q) \<noteq> None \<or> dq_length q < dq_min_len q")
    case True
    then have q': "q' = q\<lparr>dq_cells := dq_cells q @ [d], dq_length := dq_length q + 1, dq_n_element := dq_n_element q + 1\<rparr>"
      using assms(2) by (simp add: dq_push_def)
    with xs have "dq_cells q @ [d] = (xs @ [None]) @ [None]" by simp
    then have "dq_cells q = xs @ [None]" by (simp only: append1_eq_conv)
    with True q' show ?thesis by simp
  next
    case False
    then have q': "q' = q\<lparr>dq_cells := butlast (dq_cells q) @ [d]\<rparr>" using assms(2) by (simp add: dq_push_def)
    with xs have "butlast (dq_cells q) @ [d] = (xs @ [None]) @ [None]" by simp
    then have "butlast (dq_cells q) = xs @ [None]" by (simp only: append1_eq_conv)
    with False have "dq_cells q = xs @ [None, None]" by (cases "dq_cells q" rule: rev_cases) simp_all
    with assms(1) q' show ?thesis by (simp add: padded_def)
  qed
  then show ?thesis using dq_push_spec(1) [OF inv assms(2)] by (simp add: padded_def)
qed

lemma dq_pop_padded:
  assumes "padded q" and "dq_pop q = Some (d, q')"
  shows "padded q'"
proof (cases "dq_cells q")
  case Nil
  then show ?thesis using assms by (simp add: dq_pop_def)
next
  case (Cons c cs)
  have inv: "dq_inv q" using assms(1) by (simp add: padded_def)
  then obtain "dq_inv q'" using dq_pop_spec [OF inv] assms(2) by (metis option.inject prod.inject)
  moreover have "dq_length q' \<le> dq_min_len q'" if xs: "dq_cells q' = xs @ [None, None]" for xs
  proof (cases "dq_min_len q \<noteq> 0 \<and> dq_length q - 1 < dq_min_len q")
    case True
    then show ?thesis using assms(2) Cons by (auto simp: dq_pop_def dq_push_def bind_eq_Some_conv)
  next
    case False
    then have "q' = q\<lparr>dq_cells := cs, dq_length := dq_length q - 1, dq_n_element := dq_n_element q - 1\<rparr>"
      using assms(2) Cons by (auto simp: dq_pop_def bind_eq_Some_conv)
    with xs Cons assms(1) show ?thesis by (force simp: padded_def)
  qed
  ultimately show ?thesis by (simp add: padded_def)
qed

lemma dq_run_padded: "padded q \<Longrightarrow> dq_run q ops = Some (q', ys) \<Longrightarrow> padded q' \<and> dq_min_len q' = dq_min_len q"
proof (induction ops arbitrary: q ys)
  case (Cons op ops)
  have inv: "dq_inv q" using Cons.prems(1) by (simp add: padded_def)
  show ?case
  proof (cases op)
    case (DqPush d)
    then obtain q1 where "dq_push q d = Some q1" "dq_run q1 ops = Some (q', ys)"
      using Cons.prems(2) by (auto simp: bind_eq_Some_conv)
    then show ?thesis using Cons.IH dq_push_padded [OF Cons.prems(1)] dq_push_spec(5) [OF inv] by metis
  next
    case DqPop
    then obtain d q1 zs where "dq_pop q = Some (d, q1)" "dq_run q1 ops = Some (q', zs)"
      using Cons.prems(2) by (auto simp: bind_eq_Some_conv)
    then show ?thesis using Cons.IH dq_pop_padded [OF Cons.prems(1)] dq_pop_spec [OF inv] by (metis option.inject prod.inject)
  qed
qed simp

text \<open>A queue without values has one cell, or as many as its minimum length.\<close>

lemma padded_no_values:
  assumes "padded q" and "dq_data q = []" and "dq_push q (Some x) = Some q'"
  shows "dq_length q' = max 1 (dq_min_len q)"
proof -
  have inv: "dq_length q = length (dq_cells q)" "dq_min_len q \<le> dq_length q" using assms(1) by (simp_all add: padded_def dq_inv_def)
  have none: "c = None" if "c \<in> set (dq_cells q)" for c
  proof (rule ccontr)
    assume "c \<noteq> None"
    with that have "the c \<in> set (dq_data q)" by (auto simp: dq_data_def vals_def)
    with assms(2) show False by simp
  qed
  show ?thesis
  proof (cases "dq_cells q" rule: rev_cases)
    case Nil
    then show ?thesis using inv assms(3) by (auto simp: dq_push_def)
  next
    case (snoc xs c)
    then have q': "dq_length q' = dq_length q" using none [of c] assms(3) inv by (auto simp: dq_push_def)
    show ?thesis
    proof (cases xs rule: rev_cases)
      case Nil
      then show ?thesis using snoc inv q' by simp
    next
      case (snoc ys b)
      then have "dq_cells q = ys @ [None, None]" using \<open>dq_cells q = xs @ [c]\<close> none [of b] none [of c] by simp
      then have "dq_length q \<le> dq_min_len q" using assms(1) by (simp add: padded_def)
      then show ?thesis using inv q' \<open>dq_cells q = xs @ [c]\<close> by simp
    qed
  qed
qed

section \<open>A queue without delay is a bounded queue\<close>

text \<open>
  The queues between the interconnect, the L2 and the DRAM have minimum length 0 and are given
  non-null pointers: they implement the contract \<open>bounded_fifo\<close>.
\<close>

definition dq_plain :: "'a delay_queue \<Rightarrow> bool" where
  "dq_plain q \<longleftrightarrow> dq_inv q \<and> dq_min_len q = 0 \<and> None \<notin> set (dq_cells q)"

definition dq_pop_value :: "'a delay_queue \<Rightarrow> ('a \<times> 'a delay_queue) option" where
  "dq_pop_value q = (case dq_pop q of Some (Some x, q') \<Rightarrow> Some (x, q') | _ \<Rightarrow> None)"

lemma vals_not_None: "None \<notin> set xs \<Longrightarrow> vals xs = map the xs"
  unfolding vals_def by (subst filter_True) (metis, rule refl)

lemma length_vals: "None \<notin> set xs \<Longrightarrow> length (vals xs) = length xs"
  by (simp add: vals_not_None)

lemma plain_length: "dq_plain q \<Longrightarrow> length (dq_data q) = dq_length q"
  by (simp add: dq_plain_def dq_data_def length_vals dq_inv_def)

lemma plain_push:
  assumes "dq_plain q" and "\<not> dq_full q"
  shows "\<exists>q'. dq_push q (Some x) = Some q' \<and> dq_plain q' \<and> dq_data q' = dq_data q @ [x] \<and>
    dq_max_len q' = dq_max_len q"
proof -
  have "dq_cells q = [] \<or> last (dq_cells q) \<noteq> None"
    using assms(1) last_in_set [of "dq_cells q"] unfolding dq_plain_def by metis
  with assms show ?thesis
    by (auto simp: dq_push_def dq_full_def dq_plain_def dq_inv_def dq_data_def)
qed

lemma plain_pop:
  assumes "dq_plain q" and "dq_data q = x # xs"
  shows "\<exists>q'. dq_pop_value q = Some (x, q') \<and> dq_plain q' \<and> dq_data q' = xs \<and> dq_max_len q' = dq_max_len q"
proof -
  obtain c cs where c: "dq_cells q = c # cs" using assms(2) by (cases "dq_cells q") (auto simp: dq_data_def)
  then have "c = Some x" "vals cs = xs"
    using assms by (auto simp: dq_plain_def dq_data_def split: option.splits)
  with c assms show ?thesis
    by (auto simp: dq_pop_value_def dq_pop_def dq_plain_def dq_inv_def dq_data_def)
qed

interpretation dq: bounded_fifo dq_data dq_max_len dq_full "\<lambda>q x. dq_push q (Some x)" dq_pop_value dq_plain
proof
  fix q :: "'a delay_queue"
  assume q: "dq_plain q"
  show "dq_full q \<longleftrightarrow> length (dq_data q) = dq_max_len q" "length (dq_data q) \<le> dq_max_len q"
    using q plain_length [OF q] by (auto simp: dq_full_def dq_plain_def dq_inv_def)
  show "dq_push q (Some x) = None" if "dq_full q" for x
    using q that by (auto simp: dq_full_def dq_push_def dq_plain_def dq_inv_def)
  show "dq_pop_value q = None" if "dq_data q = []"
    using q plain_length [OF q] that by (auto simp: dq_pop_value_def dq_pop_def dq_plain_def dq_inv_def)
  show "\<exists>q'. dq_push q (Some x) = Some q' \<and> dq_plain q' \<and> dq_data q' = dq_data q @ [x] \<and>
      dq_max_len q' = dq_max_len q" if "\<not> dq_full q" for x
    by (rule plain_push [OF q that])
  show "\<exists>q'. dq_pop_value q = Some (x, q') \<and> dq_plain q' \<and> dq_data q' = xs \<and>
      dq_max_len q' = dq_max_len q" if "dq_data q = x # xs" for x xs
    by (rule plain_pop [OF q that])
qed

section \<open>Properties\<close>

text \<open>
  A delay queue is first in, first out, whatever its minimum length: after any sequence of
  pushes (of values or of \<^verbatim>\<open>NULL\<close>) and pops from a new queue, the values popped, followed by the
  values left, are the values pushed, in order.
\<close>

theorem delay_queue_fifo:
  fixes ops :: "'a dq_op list"
  assumes "0 < maxlen" and "minlen \<le> maxlen" and "Option.bind (dq_new minlen maxlen) (\<lambda>q. dq_run q ops) = Some (q', ys)"
  shows "pushed ops = vals ys @ dq_data q' \<and> dq_inv q'"
proof -
  obtain q :: "'a delay_queue" where "dq_new minlen maxlen = Some q" "dq_inv q" "dq_data q = []"
    using dq_new_spec [OF assms(1,2)] by blast
  then show ?thesis using assms(3) dq_run_order [of q ops q' ys] by simp
qed

theorem delay_queue_fifo_witness:
  "\<exists>q' ys. Option.bind (dq_new 2 3) (\<lambda>q. dq_run q [DqPush (Some (7 :: nat)), DqPop, DqPush (Some 8), DqPop])
      = Some (q', ys) \<and> [7, 8] = vals ys @ dq_data q'"
proof -
  obtain q' ys where r: "Option.bind (dq_new 2 3) (\<lambda>q. dq_run q [DqPush (Some (7 :: nat)), DqPop, DqPush (Some 8), DqPop])
      = Some (q', ys)"
    by (simp add: dq_new_def dq_push_def dq_pop_def numeral_2_eq_2)
  from delay_queue_fifo [OF _ _ r] r show ?thesis by (intro exI [of _ q'] exI [of _ ys]) simp
qed

text \<open>
  C22: the delay. In every run of pushes and pops from a new queue, a value pushed is returned by exactly the
  \<open>dq_length q'\<close>-th pop after the push, where \<open>q'\<close> is the queue after it, whatever is pushed meanwhile. This is never
  before the minimum length has passed, and it is exactly the minimum length (at least one pop) when the queue held
  no value.
\<close>

theorem delay_queue_latency:
  assumes "0 < maxlen" and "minlen \<le> maxlen" and "dq_new minlen maxlen = Some q0" and "dq_run q0 pre = Some (q, zs)"
    and "dq_push q (Some x) = Some q'" and "dq_run q' ops = Some (q'', ys)" and "dq_length q' \<le> length ys"
  shows "ys ! (dq_length q' - 1) = Some x \<and> 0 < dq_length q' \<and> minlen \<le> dq_length q' \<and>
    (dq_data q = [] \<longrightarrow> dq_length q' = max 1 minlen)"
proof -
  have pad: "padded q" "dq_min_len q = minlen"
    using dq_run_padded [OF dq_new_padded(1) [OF assms(1-3)] assms(4)] dq_new_padded(2) [OF assms(1-3)] by simp_all
  then have inv: "dq_inv q" by (simp add: padded_def)
  note p = dq_push_spec [OF inv assms(5)]
  have len: "dq_length q' = length (dq_cells q')" "dq_min_len q' \<le> dq_length q'"
    using p(1) by (auto simp: dq_inv_def)
  have "0 < length (dq_cells q')" "dq_cells q' ! (length (dq_cells q') - 1) = Some x"
    using p(3) by (auto simp: last_conv_nth)
  then show ?thesis using dq_run_latency [OF p(1) assms(6)] len p(5) assms(7) pad padded_no_values [OF pad(1) _ assms(5)]
    by simp
qed

definition demo_rwq :: "nat delay_queue" where
  "demo_rwq = \<lparr>dq_min_len = 2, dq_max_len = 3, dq_length = 2, dq_n_element = 2, dq_cells = [None, None]\<rparr>"

text \<open>A queue with minimum length 2: after 7 has come and gone, 8 is pushed and returned by the second pop.\<close>

theorem delay_queue_latency_witness:
  "\<exists>q q' q'' ys. dq_new 2 3 = Some demo_rwq \<and> dq_run demo_rwq [DqPush (Some 7), DqPop, DqPop] = Some (q, [None, Some 7]) \<and>
    dq_push q (Some 8) = Some q' \<and> dq_run q' [DqPop, DqPush (Some 9), DqPop] = Some (q'', ys) \<and> ys ! 1 = Some 8 \<and> dq_length q' = 2"
proof -
  have new: "dq_new 2 3 = Some demo_rwq" by (simp add: dq_new_def demo_rwq_def dq_push_def numeral_2_eq_2)
  obtain q where q: "dq_run demo_rwq [DqPush (Some 7), DqPop, DqPop] = Some (q, [None, Some 7])"
      "dq_min_len q = 2" "dq_max_len q = 3" "dq_length q = 2" "dq_cells q = [None, None]"
    by (simp add: demo_rwq_def dq_push_def dq_pop_def)
  obtain q' where q': "dq_push q (Some 8) = Some q'" "dq_min_len q' = 2" "dq_max_len q' = 3" "dq_length q' = 2"
      "dq_cells q' = [None, Some 8]"
    using q by (simp add: dq_push_def)
  obtain q'' ys where r: "dq_run q' [DqPop, DqPush (Some 9), DqPop] = Some (q'', ys)" "length ys = 2"
    using q' by (simp add: dq_push_def dq_pop_def)
  have "dq_data q = []" using q(5) by (simp add: dq_data_def)
  with delay_queue_latency [OF _ _ new q(1) q'(1) r(1)] q'(4) r(2) have "ys ! 1 = Some 8 \<and> dq_length q' = 2" by simp
  with new q(1) q'(1) r(1) show ?thesis by blast
qed

text \<open>
  \<^verbatim>\<open>set_min_length\<close> (the DRAM changes the delay when the bus turns around) never fails within
  the capacity and keeps the queued values and their order.
\<close>

theorem set_min_length_keeps:
  assumes "dq_inv q" and "n \<le> dq_max_len q" and "dq_cells q \<noteq> []"
  shows "\<exists>q'. dq_set_min_length q n = Some q' \<and> dq_inv q' \<and> dq_data q' = dq_data q \<and> dq_min_len q' = n"
  using dq_set_min_length_spec [OF assms(1,2)] by blast

theorem set_min_length_keeps_witness:
  "\<exists>q'. dq_set_min_length demo_rwq 1 = Some q' \<and> dq_inv q' \<and> dq_data q' = [] \<and> dq_min_len q' = 1"
  using set_min_length_keeps [of demo_rwq 1] by (simp add: demo_rwq_def dq_inv_def dq_data_def)

text \<open>
  \<^verbatim>\<open>m_n_element\<close> is documented as the number of values in the queue. Every pop decrements it, also
  for an empty cell, and a push over an empty tail cell does not count: with a minimum length the
  counter starts at that length and wraps around.
\<close>

lemma n_element_drifts:
  "map_option (\<lambda>q. (dq_n_element q, dq_data q)) (dq_new 2 3 :: nat delay_queue option) = Some (2, [])"
  "map_option (\<lambda>(q, ys). (dq_n_element q, dq_data q))
     (dq_run demo_rwq [DqPop, DqPop, DqPush (Some 7), DqPop, DqPush (Some 8)]) = Some (- 1, [7, 8])"
  by (simp_all add: dq_new_def demo_rwq_def dq_push_def dq_pop_def dq_data_def numeral_2_eq_2)

end
