(* ===== verification/Addr_Decode.thy ===== *)
theory Addr_Decode
  imports Set_Index
begin

text \<open>
  The linear-to-raw address translation (addrdec.cc): which channel, bank, row, column and
  sub-partition an address belongs to, and the address within its partition.

  A field of the decoder is a bit mask with the limits \<open>addrdec_getmasklimit\<close> computes for it.
  The random interleaving table and the value of \<^verbatim>\<open>rand()\<close> are passed explicitly. Failed
  assertions and undefined shifts are \<open>None\<close>. \<^verbatim>\<open>sweep_test\<close>, a self test over 16 MB of addresses
  that runs the decoder, is not modelled; the theorems of \<open>Addr_Properties\<close> prove what it tests.
\<close>

section \<open>Bit packing\<close>

text \<open>The loop over \<open>k\<close> bit positions from \<open>i\<close>.\<close>

fun pack_loop :: "u64 \<Rightarrow> u64 \<Rightarrow> nat \<Rightarrow> nat \<Rightarrow> nat \<Rightarrow> u64 \<Rightarrow> u64" where
  "pack_loop m val 0 i pos result = result"
| "pack_loop m val (Suc k) i pos result =
    (if m AND push_bit i 1 \<noteq> 0
     then pack_loop m val k (Suc i) (Suc pos) (result OR push_bit pos (drop_bit i (val AND push_bit i 1)))
     else pack_loop m val k (Suc i) pos result)"

definition addrdec_packbits :: "u64 \<Rightarrow> u64 \<Rightarrow> nat \<Rightarrow> nat \<Rightarrow> u64" where
  "addrdec_packbits m val high low = pack_loop m val (high - low) low 0 0"

text \<open>\<^verbatim>\<open>addrdec_getmasklimit\<close>: \<open>(high, low, low_found)\<close> after the bits below \<open>i\<close>.\<close>

fun mask_limit_loop :: "u64 \<Rightarrow> nat \<Rightarrow> nat \<Rightarrow> nat \<times> nat \<times> bool \<Rightarrow> nat \<times> nat \<times> bool" where
  "mask_limit_loop m 0 i st = st"
| "mask_limit_loop m (Suc k) i (high, low, found) = mask_limit_loop m k (Suc i)
    (if m AND push_bit i 1 \<noteq> 0
     then (if found then (Suc i, low, found) else (Suc i, i, True))
     else (high, low, found))"

record dec_field =
  df_mask :: u64
  df_high :: nat
  df_low :: nat

definition addrdec_getmasklimit :: "u64 \<Rightarrow> dec_field" where
  "addrdec_getmasklimit m = (case mask_limit_loop m 64 0 (64, 0, False) of
     (high, low, _) \<Rightarrow> \<lparr>df_mask = m, df_high = high, df_low = low\<rparr>)"

definition pack_field :: "dec_field \<Rightarrow> u64 \<Rightarrow> u64" where
  "pack_field f addr = addrdec_packbits (df_mask f) addr (df_high f) (df_low f)"

text \<open>\<^verbatim>\<open>LOGB2_32\<close> is a copy of \<^verbatim>\<open>LOGB2\<close>; \<^verbatim>\<open>next_powerOf2\<close> clears the low bits of \<open>n - 1\<close>.\<close>

definition LOGB2_32 :: "u32 \<Rightarrow> nat" where
  "LOGB2_32 v = snd (logb2_stage 0x2 1 (logb2_stage 0xC 2 (logb2_stage 0xF0 4
     (logb2_stage 0xFF00 8 (logb2_stage 0xFFFF0000 16 (v, 0))))))"

function top_bit_loop :: "u32 \<Rightarrow> u32" where
  "top_bit_loop n = (if n AND (n - 1) \<noteq> 0 then top_bit_loop (n AND (n - 1)) else n)"
  by auto
termination
proof (relation "measure unat")
  fix n :: u32 assume a: "n AND (n - 1) \<noteq> 0"
  then have "n \<noteq> 0" by auto
  then have "n - 1 < n" by (simp add: word_less_nat_alt unat_minus_one unat_gt_0 flip: unat_gt_0)
  moreover have "n AND (n - 1) \<le> n - 1" by (rule word_and_le1)
  ultimately show "(n AND (n - 1), n) \<in> measure unat" by (simp add: word_less_nat_alt word_le_nat_alt)
qed simp

declare top_bit_loop.simps [simp del]

definition next_powerOf2 :: "u32 \<Rightarrow> u32" where
  "next_powerOf2 n = push_bit 1 (top_bit_loop (n - 1))"

section \<open>State\<close>

datatype partition_index_function =
  CONSECUTIVE | BITWISE_PERMUTATION | IPOLY | PAE | RANDOM | CUSTOM

record raw_translation =
  ADDR_CHIP_S :: int
  f_chip :: dec_field
  f_bk :: dec_field
  f_row :: dec_field
  f_col :: dec_field
  f_burst :: dec_field
  sub_partition_id_mask :: u64
  gap :: u32
  n_channel :: u32
  n_sub_partition :: u32
  log2channel :: nat
  log2sub_partition :: nat
  nextPowerOf2_n_channel :: u32
  partition_indexing :: partition_index_function

record addrdec_t =
  tl_chip :: u32
  tl_bk :: u32
  tl_row :: u32
  tl_col :: u32
  tl_burst :: u32
  tl_sub_partition :: u32

section \<open>Decoding\<close>

text \<open>\<^verbatim>\<open>addr & ((1 << ADDR_CHIP_S) - 1)\<close>, with the shift in \<^verbatim>\<open>int\<close>.\<close>

definition chip_shift :: "raw_translation \<Rightarrow> nat option" where
  "chip_shift t = (if 0 \<le> ADDR_CHIP_S t \<and> ADDR_CHIP_S t < 31 then Some (nat (ADDR_CHIP_S t)) else None)"

definition partition_address :: "raw_translation \<Rightarrow> u64 \<Rightarrow> u64 option" where
  "partition_address t addr =
    (if gap t = 0
     then Some (addrdec_packbits (NOT (df_mask (f_chip t) OR sub_partition_id_mask t)) addr 64 0)
     else do {
       s \<leftarrow> chip_shift t;
       guard (n_channel t \<noteq> 0);
       let p = push_bit s (drop_bit s addr div ucast (n_channel t)) OR (addr AND (push_bit s 1 - 1));
       Some (addrdec_packbits (NOT (sub_partition_id_mask t)) p 64 0)
     })"

text \<open>The fields of an address before the channel is hashed, and the bits above them.\<close>

definition raw_fields :: "raw_translation \<Rightarrow> u64 \<Rightarrow> (addrdec_t \<times> u64) option" where
  "raw_fields t addr =
    (if gap t = 0
     then Some (\<lparr>tl_chip = ucast (pack_field (f_chip t) addr), tl_bk = ucast (pack_field (f_bk t) addr),
         tl_row = ucast (pack_field (f_row t) addr), tl_col = ucast (pack_field (f_col t) addr),
         tl_burst = ucast (pack_field (f_burst t) addr), tl_sub_partition = 0\<rparr>,
       drop_bit (nat (ADDR_CHIP_S t + int (log2channel t + log2sub_partition t))) addr)
     else do {
       s \<leftarrow> chip_shift t;
       guard (n_channel t \<noteq> 0);
       let high = drop_bit s addr div ucast (n_channel t);
       let rest = push_bit s high OR (addr AND (push_bit s 1 - 1));
       Some (\<lparr>tl_chip = ucast (drop_bit s addr mod ucast (n_channel t)), tl_bk = ucast (pack_field (f_bk t) rest),
         tl_row = ucast (pack_field (f_row t) rest), tl_col = ucast (pack_field (f_col t) rest),
         tl_burst = ucast (pack_field (f_burst t) rest), tl_sub_partition = 0\<rparr>, high)
     })"

definition consecutive_sub_partition :: "raw_translation \<Rightarrow> addrdec_t \<Rightarrow> addrdec_t" where
  "consecutive_sub_partition t tlx = tlx\<lparr>tl_sub_partition :=
     tl_chip tlx * n_sub_partition t + (tl_bk tlx AND (n_sub_partition t - 1))\<rparr>"

definition set_sub_partition :: "raw_translation \<Rightarrow> addrdec_t \<Rightarrow> u32 \<Rightarrow> addrdec_t option" where
  "set_sub_partition t tlx sub = do {
     let tlx = tlx\<lparr>tl_chip := sub div n_sub_partition t, tl_sub_partition := sub\<rparr>;
     guard (tl_chip tlx < n_channel t);
     guard (tl_sub_partition tlx < n_channel t * n_sub_partition t);
     Some tlx
   }"

text \<open>
  The switch on the indexing. \<open>tab\<close> is the table \<^verbatim>\<open>address_random_interleaving\<close>, \<open>rnd\<close> what
  \<^verbatim>\<open>rand()\<close> returns if it is called.
\<close>

definition addrdec_tlx :: "raw_translation \<Rightarrow> u64 \<Rightarrow> u32 \<Rightarrow> (u64 \<times> u32) list \<Rightarrow>
    (addrdec_t \<times> (u64 \<times> u32) list) option" where
  "addrdec_tlx t addr rnd tab = do {
     (tlx, high) \<leftarrow> raw_fields t addr;
     (case partition_indexing t of
        CONSECUTIVE \<Rightarrow> Some (consecutive_sub_partition t tlx, tab)
      | BITWISE_PERMUTATION \<Rightarrow> do {
          guard (gap t = 0);
          let tlx = tlx\<lparr>tl_chip := bitwise_hash_function high (tl_chip tlx) (n_channel t)\<rparr>;
          guard (tl_chip tlx < n_channel t);
          Some (consecutive_sub_partition t tlx, tab)
        }
      | IPOLY \<Rightarrow> do {
          let sub = tl_chip tlx * n_sub_partition t + (tl_bk tlx AND (n_sub_partition t - 1));
          sub \<leftarrow> ipoly_hash_function high sub (nextPowerOf2_n_channel t * n_sub_partition t);
          let sub = (if gap t \<noteq> 0 then sub mod (n_channel t * n_sub_partition t) else sub);
          tlx \<leftarrow> set_sub_partition t tlx sub;
          Some (tlx, tab)
        }
      | PAE \<Rightarrow> None
      | RANDOM \<Rightarrow> (let chip_address = drop_bit (nat (ADDR_CHIP_S t - int (log2sub_partition t))) addr in
          case map_of tab chip_address of
            None \<Rightarrow> do {
              let new_chip_id = rnd mod (n_channel t * n_sub_partition t);
              tlx \<leftarrow> set_sub_partition t tlx new_chip_id;
              Some (tlx, AList.update chip_address new_chip_id tab)
            }
          | Some new_chip_id \<Rightarrow> do {
              tlx \<leftarrow> set_sub_partition t tlx new_chip_id;
              Some (tlx, tab)
            })
      | CUSTOM \<Rightarrow> Some (consecutive_sub_partition t tlx, tab))
   }"

section \<open>Initialisation\<close>

text \<open>
  The option string \<^verbatim>\<open>dramid@<start bit>;<memory address map>\<close>. \<open>parse_dramid\<close> is
  \<^verbatim>\<open>sscanf(option, "dramid@%d", ...)\<close>: optional white space and sign, then decimal digits.
\<close>

definition digit_value :: "char \<Rightarrow> nat option" where
  "digit_value c = (let n = of_char c :: nat in if 48 \<le> n \<and> n \<le> 57 then Some (n - 48) else None)"

fun parse_digits :: "nat \<Rightarrow> string \<Rightarrow> nat" where
  "parse_digits acc [] = acc"
| "parse_digits acc (c # cs) = (case digit_value c of None \<Rightarrow> acc | Some d \<Rightarrow> parse_digits (acc * 10 + d) cs)"

definition starts_number :: "string \<Rightarrow> bool" where
  "starts_number cs = (case cs of [] \<Rightarrow> False | c # _ \<Rightarrow> digit_value c \<noteq> None)"

definition parse_int :: "string \<Rightarrow> int option" where
  "parse_int cs = (let cs = dropWhile (\<lambda>c. c = CHR '' '') cs in
     case cs of
       [] \<Rightarrow> None
     | c # ds \<Rightarrow>
         if c = CHR ''-'' then (if starts_number ds then Some (- int (parse_digits 0 ds)) else None)
         else if c = CHR ''+'' then (if starts_number ds then Some (int (parse_digits 0 ds)) else None)
         else if starts_number cs then Some (int (parse_digits 0 cs)) else None)"

definition parse_dramid :: "string \<Rightarrow> int option" where
  "parse_dramid opt = (if take 7 opt = ''dramid@'' then parse_int (drop 7 opt) else None)"

record mask_set =
  mk_chip :: u64
  mk_bk :: u64
  mk_row :: u64
  mk_col :: u64
  mk_burst :: u64

text \<open>
  The map itself, one character per address bit from bit 63 down; \<^verbatim>\<open>ofs\<close> must end at -1. A
  character that sets a bit below bit 0 is an undefined shift. Separators are skipped; other
  characters are reported and skipped.
\<close>

datatype map_char = Map_D | Map_B | Map_R | Map_C | Map_S | Map_0 | Map_skip

definition map_char_of :: "char \<Rightarrow> map_char" where
  "map_char_of c =
    (if c = CHR ''D'' \<or> c = CHR ''d'' then Map_D
     else if c = CHR ''B'' \<or> c = CHR ''b'' then Map_B
     else if c = CHR ''R'' \<or> c = CHR ''r'' then Map_R
     else if c = CHR ''C'' \<or> c = CHR ''c'' then Map_C
     else if c = CHR ''S'' \<or> c = CHR ''s'' then Map_S
     else if c = CHR ''0'' then Map_0
     else Map_skip)"

definition map_step :: "bool \<Rightarrow> char \<Rightarrow> int \<times> mask_set \<Rightarrow> (int \<times> mask_set) option" where
  "map_step dramid c st = (case st of (ofs, ms) \<Rightarrow>
     let b = push_bit (nat ofs) 1 in
     (case map_char_of c of
        Map_D \<Rightarrow> (if dramid \<or> ofs < 0 then None else Some (ofs - 1, ms\<lparr>mk_chip := mk_chip ms OR b\<rparr>))
      | Map_B \<Rightarrow> (if ofs < 0 then None else Some (ofs - 1, ms\<lparr>mk_bk := mk_bk ms OR b\<rparr>))
      | Map_R \<Rightarrow> (if ofs < 0 then None else Some (ofs - 1, ms\<lparr>mk_row := mk_row ms OR b\<rparr>))
      | Map_C \<Rightarrow> (if ofs < 0 then None else Some (ofs - 1, ms\<lparr>mk_col := mk_col ms OR b\<rparr>))
      | Map_S \<Rightarrow> (if ofs < 0 then None
          else Some (ofs - 1, ms\<lparr>mk_burst := mk_burst ms OR b, mk_col := mk_col ms OR b\<rparr>))
      | Map_0 \<Rightarrow> Some (ofs - 1, ms)
      | Map_skip \<Rightarrow> Some (ofs, ms)))"

fun parse_map :: "bool \<Rightarrow> string \<Rightarrow> int \<times> mask_set \<Rightarrow> mask_set option" where
  "parse_map dramid [] st = (if fst st = -1 then Some (snd st) else None)"
| "parse_map dramid (c # cs) st =
     (case map_step dramid c st of None \<Rightarrow> None | Some st' \<Rightarrow> parse_map dramid cs st')"

fun after_semicolon :: "string \<Rightarrow> string option" where
  "after_semicolon [] = None"
| "after_semicolon (c # cs) = (if c = CHR '';'' then Some cs else after_semicolon cs)"

definition addrdec_parseoption :: "string \<Rightarrow> (int \<times> mask_set) option" where
  "addrdec_parseoption opt =
     map_option (\<lambda>ms. (case parse_dramid opt of Some s \<Rightarrow> s | None \<Rightarrow> -1, ms))
       (parse_map (parse_dramid opt \<noteq> None) (case after_semicolon opt of None \<Rightarrow> opt | Some cs \<Rightarrow> cs)
         (63, \<lparr>mk_chip = 0, mk_bk = 0, mk_row = 0, mk_col = 0, mk_burst = 0\<rparr>))"

text \<open>
  \<^verbatim>\<open>gpgpu_mem_address_mask\<close> selects a preset; for an unknown number the values of the
  constructor stay.
\<close>

definition default_masks :: mask_set where
  "default_masks = \<lparr>mk_chip = 0x1C00, mk_bk = 0x300, mk_row = 0xFFF0000, mk_col = 0xE0FF, mk_burst = 0xF\<rparr>"

definition preset :: "int \<Rightarrow> u64 \<Rightarrow> u64 \<Rightarrow> u64 \<Rightarrow> int \<times> mask_set" where
  "preset s bk row col = (s, default_masks\<lparr>mk_chip := 0, mk_bk := bk, mk_row := row, mk_col := col\<rparr>)"

definition mask_preset :: "int \<Rightarrow> int \<times> mask_set" where
  "mask_preset n =
    (if n = 0 then preset 10 0x300 0x7FFE000 0x1CFF
     else if n = 1 then preset 13 0x1800 0x7FFE000 0x7FF
     else if n = 2 then preset 11 0x1800 0x7FFE000 0x7FF
     else if n = 3 then preset 11 0x1800 0xFFFE000 0x7FF
     else if n = 14 then preset 14 0x1800 0x7FFE000 0x7FF
     else if n = 15 then preset 15 0x1800 0x7FFE000 0x7FF
     else if n = 16 then preset 16 0x1800 0x7FFE000 0x7FF
     else if n = 6 then preset 6 0x1800 0x7FFE000 0x7FF
     else if n = 5 then preset 5 0x1800 0x7FFE000 0x7FF
     else if n = 100 then preset 1 0x3 0x7FFE000 0x1FFC
     else if n = 103 then preset 3 0x3 0x7FFE000 0x1FFC
     else if n = 106 then preset 6 0x1800 0x7FFE000 0x7FF
     else if n = 160 then preset 6 0x300 0x7FFE000 0x1CFF
     else (10, default_masks))"

text \<open>Making room for the channel bits at \<^verbatim>\<open>ADDR_CHIP_S\<close>.\<close>

definition widen :: "nat \<Rightarrow> nat \<Rightarrow> u64 \<Rightarrow> u64" where
  "widen s nchipbits m = (let low = push_bit s 1 - 1 in
     push_bit nchipbits (m AND NOT low) OR (m AND low))"

fun chip_bits :: "nat \<Rightarrow> nat \<Rightarrow> u64 \<Rightarrow> u64" where
  "chip_bits i 0 m = m"
| "chip_bits i (Suc k) m = chip_bits (Suc i) k (m OR push_bit i 1)"

text \<open>The lowest \<open>n\<close> bits of the bank mask select the sub-partition.\<close>

fun sub_mask_loop :: "u64 \<Rightarrow> nat \<Rightarrow> nat \<Rightarrow> nat \<Rightarrow> nat \<Rightarrow> u64 \<Rightarrow> u64" where
  "sub_mask_loop bk n 0 i pos m = m"
| "sub_mask_loop bk n (Suc k) i pos m =
    (if bk AND push_bit i 1 \<noteq> 0
     then (if n \<le> Suc pos then m OR push_bit i 1
           else sub_mask_loop bk n k (Suc i) (Suc pos) (m OR push_bit i 1))
     else sub_mask_loop bk n k (Suc i) pos m)"

definition pow2_or_zero :: "u32 \<Rightarrow> bool" where
  "pow2_or_zero n \<longleftrightarrow> n AND (n - 1) = 0"

definition insert_channel :: "u32 \<Rightarrow> nat \<Rightarrow> int \<Rightarrow> mask_set \<Rightarrow> mask_set option" where
  "insert_channel gp nchipbits s ms =
    (if s \<noteq> -1 then
       (if gp = 0 then
          (if 0 \<le> s \<and> s < 64 then
             Some (ms\<lparr>mk_bk := widen (nat s) nchipbits (mk_bk ms), mk_row := widen (nat s) nchipbits (mk_row ms),
                     mk_col := widen (nat s) nchipbits (mk_col ms),
                     mk_chip := chip_bits (nat s) nchipbits (mk_chip ms)\<rparr>)
           else None)
        else Some ms)
     else Some ms)"

definition addrdec_init :: "string option \<Rightarrow> int \<Rightarrow> partition_index_function \<Rightarrow> u32 \<Rightarrow> u32 \<Rightarrow> raw_translation option" where
  "addrdec_init opt address_mask indexing nchannel nsub = do {
     let nchipbits = LOGB2_32 nchannel;
     let gp = nchannel - 2 ^ nchipbits;
     (s, ms) \<leftarrow> (case opt of None \<Rightarrow> Some (mask_preset address_mask) | Some str \<Rightarrow> addrdec_parseoption str);
     ms \<leftarrow> insert_channel gp (if gp \<noteq> 0 then Suc nchipbits else nchipbits) s ms;
     guard (s = -1 \<longrightarrow> pow2_or_zero nchannel);
     guard (pow2_or_zero nsub);
     let bk = addrdec_getmasklimit (mk_bk ms);
     Some \<lparr>ADDR_CHIP_S = s, f_chip = addrdec_getmasklimit (mk_chip ms), f_bk = bk,
       f_row = addrdec_getmasklimit (mk_row ms), f_col = addrdec_getmasklimit (mk_col ms),
       f_burst = addrdec_getmasklimit (mk_burst ms),
       sub_partition_id_mask = (if 1 < nsub
         then sub_mask_loop (mk_bk ms) (LOGB2_32 nsub) (df_high bk - df_low bk) (df_low bk) 0 0 else 0),
       gap = gp, n_channel = nchannel, n_sub_partition = nsub, log2channel = nchipbits,
       log2sub_partition = LOGB2_32 nsub, nextPowerOf2_n_channel = next_powerOf2 nchannel,
       partition_indexing = indexing\<rparr>
   }"

end
