(* ===== verification/Addr_Properties.thy ===== *)
theory Addr_Properties
  imports Addr_Decode
begin

text \<open>
  The address translation is a bijection: what \<open>pack_field\<close> gathers, \<open>deposit\<close> puts back; the
  fields of an initialised decoder are disjoint; the decoded fields give the address back, and
  within a sub-partition the partition address is unique.
\<close>

section \<open>Gathering and scattering bits\<close>

text \<open>The positions of the bits of a mask, and the reference inverse of the packing.\<close>

definition positions :: "u64 \<Rightarrow> nat list" where
  "positions m = filter (bit m) [0..<64]"

definition rank :: "u64 \<Rightarrow> nat \<Rightarrow> nat" where
  "rank m i = length (filter (bit m) [0..<i])"

definition deposit :: "u64 \<Rightarrow> u64 \<Rightarrow> u64" where
  "deposit m v = horner_sum of_bool 2 (map (\<lambda>i. bit m i \<and> bit v (rank m i)) [0..<64])"

lemma u64_eq_iff: "a = b \<longleftrightarrow> (\<forall>i < 64. bit a i \<longleftrightarrow> bit b i)" for a b :: u64
  by (auto intro!: bit_word_eqI)

lemma and_bit_test: "m AND push_bit i 1 \<noteq> 0 \<longleftrightarrow> bit m i" for m :: u64
  by (auto simp: u64_eq_iff bit_simps dest: bit_imp_le_length)

lemma bit_u64_less: "bit (m :: u64) i \<Longrightarrow> i < 64"
  using bit_imp_le_length [of m i] by simp

lemma pack_one_bit: "bit (push_bit pos (drop_bit i (val AND push_bit i 1))) j \<longleftrightarrow> j = pos \<and> j < 64 \<and> bit val i" for val :: u64
  by (auto simp: bit_simps dest: bit_u64_less)

lemma pack_loop_bit:
  "bit (pack_loop m val k i pos result) j \<longleftrightarrow> bit result j \<or>
     (pos \<le> j \<and> j < 64 \<and> j - pos < length (filter (bit m) [i..<i + k]) \<and>
      bit val (filter (bit m) [i..<i + k] ! (j - pos)))"
proof (induction k arbitrary: i pos result)
  case (Suc k)
  have up: "[i..<i + Suc k] = i # [Suc i..<Suc i + k]" by (simp add: upt_conv_Cons del: upt_Suc)
  show ?case
  proof (cases "bit m i")
    case True
    let ?ps = "filter (bit m) [Suc i..<Suc i + k]"
    let ?r = "result OR push_bit pos (drop_bit i (val AND push_bit i 1))"
    have step: "bit (pack_loop m val (Suc k) i pos result) j \<longleftrightarrow> bit ?r j \<or>
        (Suc pos \<le> j \<and> j < 64 \<and> j - Suc pos < length ?ps \<and> bit val (?ps ! (j - Suc pos)))"
      unfolding pack_loop.simps and_bit_test using True by (simp only: Suc.IH if_True)
    have r: "bit ?r j \<longleftrightarrow> bit result j \<or> j = pos \<and> j < 64 \<and> bit val i"
      by (simp only: bit_or_iff pack_one_bit)
    have ps: "filter (bit m) [i..<i + Suc k] = i # ?ps" unfolding up using True by simp
    consider "j < pos" | "j = pos" | n where "j = Suc (pos + n)"
      by (metis less_iff_Suc_add linorder_neqE_nat)
    then show ?thesis unfolding step r ps by cases simp_all
  next
    case False
    then show ?thesis unfolding pack_loop.simps and_bit_test up using Suc.IH [of "Suc i" pos result] by simp
  qed
qed simp

lemma mask_limit_loop_spec:
  assumes "(if found then (\<forall>b < i. bit m b \<longrightarrow> low \<le> b \<and> b < high) \<and> high \<le> i \<and> low \<le> i
            else (\<forall>b < i. \<not> bit m b) \<and> high = 64 \<and> low = 0)" and "i + k \<le> 64"
  shows "case mask_limit_loop m k i (high, low, found) of (high', low', found') \<Rightarrow>
    high' \<le> 64 \<and> (\<forall>b < i + k. bit m b \<longrightarrow> low' \<le> b \<and> b < high')"
  using assms
proof (induction k arbitrary: i high low found)
  case 0
  then show ?case by (auto split: if_splits)
next
  case (Suc k)
  let ?st = "if bit m i then (if found then (Suc i, low, found) else (Suc i, i, True)) else (high, low, found)"
  obtain h l f where st: "?st = (h, l, f)" by (cases ?st)
  then have "if f then (\<forall>b < Suc i. bit m b \<longrightarrow> l \<le> b \<and> b < h) \<and> h \<le> Suc i \<and> l \<le> Suc i
      else (\<forall>b < Suc i. \<not> bit m b) \<and> h = 64 \<and> l = 0"
    using Suc.prems(1) by (auto simp: less_Suc_eq split: if_splits)
  from Suc.IH [OF this] Suc.prems(2) show ?case unfolding mask_limit_loop.simps and_bit_test st by simp
qed

lemma getmasklimit_spec:
  "df_mask (addrdec_getmasklimit m) = m" "df_high (addrdec_getmasklimit m) \<le> 64"
  "bit m b \<Longrightarrow> df_low (addrdec_getmasklimit m) \<le> b \<and> b < df_high (addrdec_getmasklimit m)"
proof -
  obtain h l f where r: "mask_limit_loop m 64 0 (64, 0, False) = (h, l, f)"
    by (cases "mask_limit_loop m 64 0 (64, 0, False)")
  have "h \<le> 64 \<and> (\<forall>b < 64. bit m b \<longrightarrow> l \<le> b \<and> b < h)"
    using mask_limit_loop_spec [of False 0 m 0 64 64] unfolding r by simp
  then show "df_mask (addrdec_getmasklimit m) = m" "df_high (addrdec_getmasklimit m) \<le> 64"
    "bit m b \<Longrightarrow> df_low (addrdec_getmasklimit m) \<le> b \<and> b < df_high (addrdec_getmasklimit m)"
    using bit_u64_less by (auto simp: addrdec_getmasklimit_def r)
qed

lemma upt_split: "i \<le> j \<Longrightarrow> j \<le> k \<Longrightarrow> [i..<k] = [i..<j] @ [j..<k]"
  by (metis le_add_diff_inverse upt_add_eq_append)

lemma filter_range:
  assumes "\<And>b. P b \<Longrightarrow> low \<le> b \<and> b < high" and "high \<le> n"
  shows "filter P [low..<high] = filter P [0..<n]"
proof (cases "low \<le> high")
  case True
  have "[0..<n] = [0..<low] @ [low..<high] @ [high..<n]"
    using True assms(2) using upt_split [of 0 low n] upt_split [of low high n] by simp
  moreover have "filter P [0..<low] = []" "filter P [high..<n] = []"
    using assms(1) by (auto simp: filter_empty_conv) fastforce+
  ultimately show ?thesis by simp
next
  case False
  have "\<not> P b" for b using assms(1) [of b] False by auto
  then show ?thesis by simp
qed

lemma pack_field_bit:
  "bit (pack_field (addrdec_getmasklimit m) a) j \<longleftrightarrow> j < length (positions m) \<and> bit a (positions m ! j)"
proof -
  let ?f = "addrdec_getmasklimit m"
  have "[df_low ?f..<df_low ?f + (df_high ?f - df_low ?f)] = [df_low ?f..<df_high ?f]"
    by (cases "df_low ?f \<le> df_high ?f") simp_all
  moreover have "filter (bit m) [df_low ?f..<df_high ?f] = positions m"
    unfolding positions_def by (rule filter_range) (use getmasklimit_spec in auto)
  moreover have "length (positions m) \<le> 64"
    using length_filter_le [of "bit m" "[0..<64]"] by (simp add: positions_def)
  ultimately show ?thesis
    by (auto simp: pack_field_def addrdec_packbits_def getmasklimit_spec pack_loop_bit)
qed

lemma rank_positions:
  assumes "bit m i"
  shows "rank m i < length (positions m)" and "positions m ! rank m i = i"
proof -
  have i: "i < 64" using assms by (rule bit_u64_less)
  then have up: "[0..<64] = [0..<i] @ i # [Suc i..<64]"
    using upt_split [of 0 i 64] upt_conv_Cons [of i 64] by simp
  show "rank m i < length (positions m)" "positions m ! rank m i = i"
    using assms unfolding positions_def rank_def up by (simp_all add: nth_append)
qed

lemma deposit_bit: "bit (deposit m v) i \<longleftrightarrow> bit m i \<and> bit v (rank m i)"
  by (cases "i < 64") (auto simp: deposit_def bit_horner_sum_bit_word_iff dest: bit_u64_less)

text \<open>Scattering undoes gathering.\<close>

lemma deposit_pack: "deposit m (pack_field (addrdec_getmasklimit m) a) = a AND m"
  by (auto simp: u64_eq_iff deposit_bit pack_field_bit bit_and_iff rank_positions)

lemma length_positions: "length (positions m) = bcount m"
  by (simp add: positions_def bcount_def)

text \<open>The \<^verbatim>\<open>unsigned\<close> fields of \<^verbatim>\<open>addrdec_t\<close> are wide enough for 32 bits.\<close>

lemma deposit_pack_u32:
  assumes "bcount m \<le> 32"
  shows "deposit m (ucast (ucast (pack_field (addrdec_getmasklimit m) a) :: u32)) = a AND m"
proof -
  have "rank m i < 32 \<and> rank m i < 64" if "bit m i" for i
    using rank_positions(1) [OF that] assms by (simp add: length_positions)
  then show ?thesis
    by (auto simp: u64_eq_iff deposit_bit pack_field_bit bit_and_iff rank_positions bit_ucast_iff dest: bit_u64_less)
qed

section \<open>The fields of an initialised decoder\<close>

definition disjoint_masks :: "mask_set \<Rightarrow> bool" where
  "disjoint_masks ms \<longleftrightarrow> mk_chip ms AND mk_bk ms = 0 \<and> mk_chip ms AND mk_row ms = 0 \<and> mk_chip ms AND mk_col ms = 0 \<and>
     mk_bk ms AND mk_row ms = 0 \<and> mk_bk ms AND mk_col ms = 0 \<and> mk_row ms AND mk_col ms = 0"

lemma and_zero_iff: "a AND b = 0 \<longleftrightarrow> (\<forall>i. \<not> (bit a i \<and> bit b i))" for a b :: u64
  by (auto simp: u64_eq_iff bit_and_iff dest: bit_u64_less)

text \<open>While the map is parsed, the bits set so far lie above the current position.\<close>

definition above :: "int \<Rightarrow> mask_set \<Rightarrow> bool" where
  "above ofs ms \<longleftrightarrow> (\<forall>i. bit (mk_chip ms) i \<or> bit (mk_bk ms) i \<or> bit (mk_row ms) i \<or> bit (mk_col ms) i \<longrightarrow> ofs < int i)"

lemma bit_single: "bit (push_bit n 1 :: u64) i \<longleftrightarrow> i = n \<and> i < 64" "bit (2 ^ n :: u64) i \<longleftrightarrow> i = n \<and> i < 64"
  by (auto simp: bit_simps dest: bit_u64_less)

lemma add_bit_disjoint:
  "x AND y = 0 \<Longrightarrow> \<not> bit y n \<Longrightarrow> (x OR 2 ^ n) AND y = 0"
  "x AND y = 0 \<Longrightarrow> \<not> bit x n \<Longrightarrow> x AND (y OR 2 ^ n) = 0" for x y :: u64
  by (auto simp: and_zero_iff bit_or_iff bit_single)

lemma map_step_disjoint:
  assumes "map_step dramid c (ofs, ms) = Some (ofs', ms')" and "disjoint_masks ms" and "above ofs ms"
  shows "disjoint_masks ms' \<and> above ofs' ms' \<and> (dramid \<longrightarrow> mk_chip ms' = mk_chip ms)"
proof -
  have clash: "\<not> bit (mk_chip ms) (nat ofs) \<and> \<not> bit (mk_bk ms) (nat ofs) \<and> \<not> bit (mk_row ms) (nat ofs) \<and>
      \<not> bit (mk_col ms) (nat ofs)" if "0 \<le> ofs"
    using assms(3) that by (auto simp: above_def dest!: spec [of _ "nat ofs"])
  have d: "disjoint_masks ms" "above ofs ms" by fact+
  note fin = disjoint_masks_def add_bit_disjoint
  show ?thesis
  proof (cases "map_char_of c")
    case Map_D
    then have s: "0 \<le> ofs" "\<not> dramid" "ofs' = ofs - 1" "ms' = ms\<lparr>mk_chip := mk_chip ms OR 2 ^ nat ofs\<rparr>"
      using assms(1) by (simp_all add: map_step_def Let_def split: if_splits)
    have "disjoint_masks ms'" using d(1) clash [OF s(1)] unfolding s(4) by (simp add: fin)
    moreover have "above ofs' ms'" using d(2) s(1) unfolding s(3,4) by (auto simp: above_def bit_or_iff bit_single)
    ultimately show ?thesis using s(2) by simp
  next
    case Map_B
    then have s: "0 \<le> ofs" "ofs' = ofs - 1" "ms' = ms\<lparr>mk_bk := mk_bk ms OR 2 ^ nat ofs\<rparr>"
      using assms(1) by (simp_all add: map_step_def Let_def split: if_splits)
    have "disjoint_masks ms'" using d(1) clash [OF s(1)] unfolding s(3) by (simp add: fin)
    moreover have "above ofs' ms'" using d(2) s(1) unfolding s(2,3) by (auto simp: above_def bit_or_iff bit_single)
    ultimately show ?thesis using s(3) by simp
  next
    case Map_R
    then have s: "0 \<le> ofs" "ofs' = ofs - 1" "ms' = ms\<lparr>mk_row := mk_row ms OR 2 ^ nat ofs\<rparr>"
      using assms(1) by (simp_all add: map_step_def Let_def split: if_splits)
    have "disjoint_masks ms'" using d(1) clash [OF s(1)] unfolding s(3) by (simp add: fin)
    moreover have "above ofs' ms'" using d(2) s(1) unfolding s(2,3) by (auto simp: above_def bit_or_iff bit_single)
    ultimately show ?thesis using s(3) by simp
  next
    case Map_C
    then have s: "0 \<le> ofs" "ofs' = ofs - 1" "ms' = ms\<lparr>mk_col := mk_col ms OR 2 ^ nat ofs\<rparr>"
      using assms(1) by (simp_all add: map_step_def Let_def split: if_splits)
    have "disjoint_masks ms'" using d(1) clash [OF s(1)] unfolding s(3) by (simp add: fin)
    moreover have "above ofs' ms'" using d(2) s(1) unfolding s(2,3) by (auto simp: above_def bit_or_iff bit_single)
    ultimately show ?thesis using s(3) by simp
  next
    case Map_S
    then have s: "0 \<le> ofs" "ofs' = ofs - 1" "ms' = ms\<lparr>mk_burst := mk_burst ms OR 2 ^ nat ofs, mk_col := mk_col ms OR 2 ^ nat ofs\<rparr>"
      using assms(1) by (simp_all add: map_step_def Let_def split: if_splits)
    have "disjoint_masks ms'" using d(1) clash [OF s(1)] unfolding s(3) by (simp add: fin)
    moreover have "above ofs' ms'" using d(2) s(1) unfolding s(2,3) by (auto simp: above_def bit_or_iff bit_single)
    ultimately show ?thesis using s(3) by simp
  next
    case Map_0
    then have "ofs' = ofs - 1" "ms' = ms" using assms(1) by (simp_all add: map_step_def)
    then show ?thesis using assms(2,3) by (auto simp: above_def)
  next
    case Map_skip
    then have "ofs' = ofs" "ms' = ms" using assms(1) by (simp_all add: map_step_def)
    then show ?thesis using assms(2,3) by simp
  qed
qed

lemma parse_map_disjoint:
  "parse_map dramid cs (ofs, ms) = Some ms' \<Longrightarrow> disjoint_masks ms \<Longrightarrow> above ofs ms \<Longrightarrow>
    disjoint_masks ms' \<and> (dramid \<longrightarrow> mk_chip ms' = mk_chip ms)"
proof (induction cs arbitrary: ofs ms)
  case (Cons c cs)
  then obtain ofs1 ms1 where s: "map_step dramid c (ofs, ms) = Some (ofs1, ms1)"
      "parse_map dramid cs (ofs1, ms1) = Some ms'"
    by (auto split: option.splits)
  note d = map_step_disjoint [OF s(1) Cons.prems(2,3)]
  with Cons.IH [OF s(2)] show ?case by simp
qed (simp split: if_splits)

lemma parseoption_disjoint:
  assumes "addrdec_parseoption opt = Some (s, ms)"
  shows "disjoint_masks ms \<and> (s \<noteq> -1 \<longrightarrow> mk_chip ms = 0)"
proof -
  obtain cs where p: "parse_map (parse_dramid opt \<noteq> None) cs
        (63, \<lparr>mk_chip = 0, mk_bk = 0, mk_row = 0, mk_col = 0, mk_burst = 0\<rparr>) = Some ms"
      and s: "s = (case parse_dramid opt of Some s \<Rightarrow> s | None \<Rightarrow> -1)"
    using assms by (auto simp: addrdec_parseoption_def)
  from parse_map_disjoint [OF p] s show ?thesis
    by (auto simp: disjoint_masks_def above_def split: option.splits)
qed

lemma preset_disjoint: "mask_preset n = (s, ms) \<Longrightarrow> disjoint_masks ms \<and> 0 \<le> s \<and> s < 31 \<and> (mk_chip ms = 0 \<or> (s, ms) = (10, default_masks))"
  by (auto simp: mask_preset_def preset_def disjoint_masks_def default_masks_def split: if_splits)

text \<open>Widening leaves a hole of \<open>n\<close> bits at \<open>s\<close>.\<close>

lemma bit_low_mask: "bit (push_bit s 1 - 1 :: u64) i \<longleftrightarrow> i < s \<and> i < 64" "bit (2 ^ s - 1 :: u64) i \<longleftrightarrow> i < s \<and> i < 64"
  by (auto simp: bit_mask_iff simp flip: mask_eq_exp_minus_1)

lemma bit_widen: "bit (widen s n m) i \<longleftrightarrow> i < 64 \<and> (if i < s then bit m i else s + n \<le> i \<and> bit m (i - n))"
  by (auto simp: widen_def Let_def bit_or_iff bit_and_iff bit_not_iff bit_push_bit_iff bit_low_mask dest: bit_u64_less)

lemma bit_chip_bits: "bit (chip_bits i k m) j \<longleftrightarrow> bit m j \<or> i \<le> j \<and> j < i + k \<and> j < 64"
  by (induction k arbitrary: i m) (auto simp: bit_or_iff bit_single)

text \<open>The channel bits fill the hole; an old channel mask may reach into it from below.\<close>

definition chip_ok :: "int \<Rightarrow> mask_set \<Rightarrow> bool" where
  "chip_ok s ms \<longleftrightarrow> (\<forall>i j. bit (mk_chip ms) i \<longrightarrow> s \<le> int j \<longrightarrow> j \<le> i \<longrightarrow>
     \<not> bit (mk_bk ms) j \<and> \<not> bit (mk_row ms) j \<and> \<not> bit (mk_col ms) j)"

lemma default_chip_ok: "chip_ok 10 default_masks"
proof -
  have "take_bit 13 (0x1C00 :: u64) = 0x1C00" by simp
  then have "bit (0x1C00 :: u64) i \<Longrightarrow> i < 13" for i by (metis bit_take_bit_iff)
  then have "bit (0x1C00 :: u64) i \<Longrightarrow> i \<le> 12" for i by fastforce
  note le = this
  have "0x1C00 AND 0x300 = (0 :: u64)" "0x1C00 AND 0xFFF0000 = (0 :: u64)" "0x1C00 AND 0xE0FF = (0 :: u64)"
    by simp_all
  note dis = this [unfolded and_zero_iff]
  show ?thesis
    unfolding chip_ok_def default_masks_def mask_set.simps
  proof (intro allI impI)
    fix i j
    assume i: "bit (0x1C00 :: u64) i" and j: "(10 :: int) \<le> int j" "j \<le> i"
    have "j \<le> 12" "10 \<le> j" using le [OF i] j by simp_all
    then consider "j = 10" | "j = 11" | "j = 12" by linarith
    then have "bit (0x1C00 :: u64) j" by cases simp_all
    then show "\<not> bit (0x300 :: u64) j \<and> \<not> bit (0xFFF0000 :: u64) j \<and> \<not> bit (0xE0FF :: u64) j"
      using dis by blast
  qed
qed

lemma widen_disjoint:
  assumes "a AND b = 0" shows "widen s n a AND widen s n b = 0"
  using assms by (auto simp: and_zero_iff bit_widen split: if_splits)

lemma chip_widen_disjoint:
  assumes "c AND m = 0" and "\<And>i j. bit c i \<Longrightarrow> s \<le> j \<Longrightarrow> j \<le> i \<Longrightarrow> \<not> bit m j"
  shows "chip_bits s n c AND widen s n m = 0"
  unfolding and_zero_iff
proof (intro allI notI)
  fix i assume i: "bit (chip_bits s n c) i \<and> bit (widen s n m) i"
  show False
  proof (cases "i < s")
    case True
    then show False using i assms(1) by (auto simp: bit_chip_bits bit_widen and_zero_iff)
  next
    case False
    then have "bit c i" "s + n \<le> i" "bit m (i - n)" using i by (auto simp: bit_chip_bits bit_widen)
    then show False using assms(2) [of i "i - n"] by simp
  qed
qed

lemma insert_channel_disjoint:
  assumes "insert_channel gp n s ms = Some ms'" and "disjoint_masks ms" and "s \<noteq> -1 \<longrightarrow> chip_ok s ms"
  shows "disjoint_masks ms'"
proof (cases "s \<noteq> -1 \<and> gp = 0")
  case True
  then have s: "0 \<le> s" and ms': "ms' = ms\<lparr>mk_bk := widen (nat s) n (mk_bk ms), mk_row := widen (nat s) n (mk_row ms),
      mk_col := widen (nat s) n (mk_col ms), mk_chip := chip_bits (nat s) n (mk_chip ms)\<rparr>"
    using assms(1) by (auto simp: insert_channel_def split: if_splits)
  have c: "bit (mk_chip ms) i \<Longrightarrow> nat s \<le> j \<Longrightarrow> j \<le> i \<Longrightarrow>
      \<not> bit (mk_bk ms) j \<and> \<not> bit (mk_row ms) j \<and> \<not> bit (mk_col ms) j" for i j
    using assms(3) True s by (auto simp: chip_ok_def nat_le_iff)
  from assms(2) c show ?thesis unfolding ms' disjoint_masks_def
    by (auto intro!: widen_disjoint chip_widen_disjoint)
next
  case False
  then show ?thesis using assms(1,2) by (auto simp: insert_channel_def split: if_splits)
qed

definition masks_of :: "raw_translation \<Rightarrow> mask_set" where
  "masks_of t = \<lparr>mk_chip = df_mask (f_chip t), mk_bk = df_mask (f_bk t), mk_row = df_mask (f_row t),
     mk_col = df_mask (f_col t), mk_burst = df_mask (f_burst t)\<rparr>"

lemma addrdec_init_fields:
  assumes "addrdec_init opt am ix nch nsub = Some t"
  shows "disjoint_masks (masks_of t)"
    and "f_chip t = addrdec_getmasklimit (df_mask (f_chip t))" "f_bk t = addrdec_getmasklimit (df_mask (f_bk t))"
      "f_row t = addrdec_getmasklimit (df_mask (f_row t))" "f_col t = addrdec_getmasklimit (df_mask (f_col t))"
    and "partition_indexing t = ix" "n_sub_partition t = nsub" "pow2_or_zero nsub"
    and "sub_partition_id_mask t = (if 1 < nsub then sub_mask_loop (df_mask (f_bk t)) (LOGB2_32 nsub)
        (df_high (f_bk t) - df_low (f_bk t)) (df_low (f_bk t)) 0 0 else 0)"
    and "nextPowerOf2_n_channel t = next_powerOf2 nch"
proof -
  obtain s ms ms' gp n where ms: "(case opt of None \<Rightarrow> Some (mask_preset am) | Some str \<Rightarrow> addrdec_parseoption str) = Some (s, ms)"
      and ic: "insert_channel gp n s ms = Some ms'"
      and t: "t = \<lparr>ADDR_CHIP_S = s, f_chip = addrdec_getmasklimit (mk_chip ms'), f_bk = addrdec_getmasklimit (mk_bk ms'),
       f_row = addrdec_getmasklimit (mk_row ms'), f_col = addrdec_getmasklimit (mk_col ms'),
       f_burst = addrdec_getmasklimit (mk_burst ms'),
       sub_partition_id_mask = (if 1 < nsub
         then sub_mask_loop (mk_bk ms') (LOGB2_32 nsub) (df_high (addrdec_getmasklimit (mk_bk ms')) -
           df_low (addrdec_getmasklimit (mk_bk ms'))) (df_low (addrdec_getmasklimit (mk_bk ms'))) 0 0 else 0),
       gap = nch - 2 ^ LOGB2_32 nch, n_channel = nch, n_sub_partition = nsub, log2channel = LOGB2_32 nch,
       log2sub_partition = LOGB2_32 nsub, nextPowerOf2_n_channel = next_powerOf2 nch,
       partition_indexing = ix\<rparr>"
      and sub: "pow2_or_zero nsub"
    using assms by (auto simp: addrdec_init_def Let_def bind_eq_Some_conv)
  have "disjoint_masks ms \<and> (s \<noteq> -1 \<longrightarrow> chip_ok s ms)"
  proof (cases opt)
    case None
    then have "mask_preset am = (s, ms)" using ms by simp
    from preset_disjoint [OF this] show ?thesis using default_chip_ok by (auto simp: chip_ok_def)
  next
    case (Some str)
    then have "addrdec_parseoption str = Some (s, ms)" using ms by simp
    from parseoption_disjoint [OF this] show ?thesis by (auto simp: chip_ok_def)
  qed
  then have "disjoint_masks ms'" using insert_channel_disjoint [OF ic] by blast
  then show "disjoint_masks (masks_of t)" by (simp add: masks_of_def t getmasklimit_spec disjoint_masks_def)
  show "f_chip t = addrdec_getmasklimit (df_mask (f_chip t))" "f_bk t = addrdec_getmasklimit (df_mask (f_bk t))"
      "f_row t = addrdec_getmasklimit (df_mask (f_row t))" "f_col t = addrdec_getmasklimit (df_mask (f_col t))"
      "partition_indexing t = ix" "n_sub_partition t = nsub" "pow2_or_zero nsub"
      "sub_partition_id_mask t = (if 1 < nsub then sub_mask_loop (df_mask (f_bk t)) (LOGB2_32 nsub)
        (df_high (f_bk t) - df_low (f_bk t)) (df_low (f_bk t)) 0 0 else 0)"
      "nextPowerOf2_n_channel t = next_powerOf2 nch"
    using sub by (simp_all add: t getmasklimit_spec)
qed

section \<open>The sub-partition bits\<close>

lemma sub_mask_loop_bit:
  "pos < n \<Longrightarrow> bit (sub_mask_loop bk n k i pos m) j \<longleftrightarrow> bit m j \<or>
     bit bk j \<and> i \<le> j \<and> j < i + k \<and> pos + length (filter (bit bk) [i..<j]) < n"
proof (induction k arbitrary: i pos m)
  case (Suc k)
  have tl: "filter (bit bk) [i..<j] = (if bit bk i then [i] else []) @ filter (bit bk) [Suc i..<j]" if "i < j"
    using that by (simp add: upt_conv_Cons)
  show ?case
  proof (cases "bit bk i")
    case False
    have "bit bk j \<Longrightarrow> i \<le> j \<longleftrightarrow> Suc i \<le> j" using False by (auto simp: Suc_le_eq le_less)
    then show ?thesis unfolding sub_mask_loop.simps and_bit_test using False Suc.IH [OF Suc.prems, of "Suc i" m] tl
      by auto
  next
    case True
    have m: "bit (m OR push_bit i 1) j \<longleftrightarrow> bit m j \<or> j = i" using True bit_u64_less [OF True]
      by (simp only: bit_or_iff bit_single) auto
    show ?thesis
    proof (cases "n \<le> Suc pos")
      case full: True
      then have "n = Suc pos" using Suc.prems by simp
      then show ?thesis unfolding sub_mask_loop.simps and_bit_test using True m tl by (auto simp: le_less)
    next
      case False
      then have "Suc pos < n" by simp
      note IH = Suc.IH [OF this, of "Suc i" "m OR push_bit i 1"]
      show ?thesis unfolding sub_mask_loop.simps and_bit_test using True False IH m tl Suc.prems
        by (auto simp: le_less)
    qed
  qed
qed auto

lemma filter_from_low:
  assumes "\<And>b. P b \<Longrightarrow> low \<le> b" and "low \<le> j"
  shows "filter P [low..<j] = filter P [0..<j]"
proof -
  have "filter P [0..<low] = []" using assms(1) by (auto simp: filter_empty_conv) fastforce
  then show ?thesis using upt_split [of 0 low j] assms(2) by simp
qed

text \<open>The sub-partition mask holds the lowest \<open>log2 nsub\<close> bits of the bank mask.\<close>

lemma sub_mask_bit:
  assumes "f = addrdec_getmasklimit bk" and "0 < n"
  shows "bit (sub_mask_loop bk n (df_high f - df_low f) (df_low f) 0 0) j \<longleftrightarrow> bit bk j \<and> rank bk j < n"
proof -
  have lim: "bit bk b \<Longrightarrow> df_low f \<le> b \<and> b < df_high f" for b using getmasklimit_spec assms(1) by simp
  then have "bit bk j \<Longrightarrow> filter (bit bk) [df_low f..<j] = filter (bit bk) [0..<j]"
    using filter_from_low [of "bit bk" "df_low f" j] by blast
  then show ?thesis using assms(2) lim [of j] by (auto simp: sub_mask_loop_bit rank_def)
qed

lemma unat_pred: "0 < n \<Longrightarrow> unat (n - 1) = unat n - 1" for n :: u32
  by (simp add: unat_minus_one word_gt_0)

lemma top_bit_of_range: "2 ^ k \<le> unat n \<Longrightarrow> unat n < 2 ^ Suc k \<Longrightarrow> bit n k" for n :: u32
proof -
  assume a: "2 ^ k \<le> unat n" "unat n < 2 ^ Suc k"
  then have "unat n div 2 ^ k = 1" using div_eq_1_iff [of "2 ^ k" "unat n"] by simp
  then have "bit (unat n) k" by (simp add: bit_iff_odd)
  then show "bit n k" by (simp add: bit_unsigned_iff)
qed

lemma pow2_LOGB2:
  assumes "pow2_or_zero n" and "n \<noteq> 0" shows "n = 2 ^ LOGB2_32 n"
proof -
  let ?k = "LOGB2 n"
  have l: "LOGB2_32 n = ?k" by (simp add: LOGB2_32_def LOGB2_def)
  have b: "2 ^ ?k \<le> unat n" "unat n < 2 ^ Suc ?k" using LOGB2_floor [OF assms(2)] by auto
  have k: "?k < 32"
  proof (rule ccontr)
    assume "\<not> ?k < 32"
    then have "2 ^ 32 \<le> unat n" using b(1) power_increasing [of 32 ?k "2 :: nat"] by simp
    moreover have "unat n < 2 ^ LENGTH(32)" by (rule unsigned_less)
    ultimately show False by simp
  qed
  have "unat n = 2 ^ ?k"
  proof (rule ccontr)
    assume ne: "unat n \<noteq> 2 ^ ?k"
    have "unat (n - 1) = unat n - 1" using assms(2) by (intro unat_pred) (simp add: word_gt_0)
    then have "bit (n - 1) ?k" by (intro top_bit_of_range) (use b ne in simp_all)
    moreover have "bit n ?k" by (rule top_bit_of_range [OF b])
    ultimately have "bit (n AND (n - 1)) ?k" by (simp add: bit_and_iff)
    then show False using assms(1) by (simp add: pow2_or_zero_def)
  qed
  then have "of_nat (unat n) = (2 ^ ?k :: u32)" by simp
  then show ?thesis unfolding l by simp
qed

section \<open>Properties\<close>

text \<open>Two addresses whose packed fields agree in 32 bits agree on the bits of the field.\<close>

lemma pack_field_agree:
  assumes "ucast (pack_field (addrdec_getmasklimit m) a) = (ucast (pack_field (addrdec_getmasklimit m) b) :: u32)"
    and "bcount m \<le> 32" and "bit m i"
  shows "bit a i \<longleftrightarrow> bit b i"
proof -
  have "a AND m = b AND m"
    using deposit_pack_u32 [OF assms(2), of a] deposit_pack_u32 [OF assms(2), of b] assms(1) by simp
  then show ?thesis using assms(3) by (metis bit_and_iff)
qed

lemma packbits_agree:
  assumes "addrdec_packbits m a 64 0 = addrdec_packbits m b 64 0" and "bit m i"
  shows "bit a i \<longleftrightarrow> bit b i"
proof -
  have "bit (addrdec_packbits m c 64 0) j \<longleftrightarrow> j < length (positions m) \<and> bit c (positions m ! j)" for c j
  proof -
    have "length (positions m) \<le> 64"
      using length_filter_le [of "bit m" "[0..<64]"] by (simp add: positions_def)
    then show ?thesis by (auto simp: addrdec_packbits_def pack_loop_bit positions_def)
  qed
  then show ?thesis using assms rank_positions [OF assms(2)] by metis
qed

text \<open>
  C34: the fields of a decoder are disjoint. Whatever preset or option string configures it, an
  initialised decoder assigns an address bit to at most one of channel, bank, row and column.
\<close>

theorem init_fields_disjoint:
  assumes "addrdec_init opt address_mask indexing nchannel nsub = Some t"
  shows "disjoint_masks (masks_of t)"
  by (rule addrdec_init_fields(1) [OF assms])

text \<open>
  C35: round trip of the decoder. With consecutive or custom partition indexing, a number of channels that leaves no
  gap (a power of two), and channel, bank, row and column masks of at most 32 bits each, the four fields of an address,
  put back in the place of their masks, give back the address on the bits of the masks.
\<close>

theorem address_roundtrip:
  assumes init: "addrdec_init opt address_mask indexing nchannel nsub = Some t" and "gap t = 0"
    and "indexing \<in> {CONSECUTIVE, CUSTOM}" and dec: "addrdec_tlx t a rnd tab = Some (tlx, tab')"
    and small: "\<forall>f \<in> {f_chip t, f_bk t, f_row t, f_col t}. bcount (df_mask f) \<le> 32"
  shows "deposit (df_mask (f_chip t)) (ucast (tl_chip tlx)) OR deposit (df_mask (f_bk t)) (ucast (tl_bk tlx)) OR
      deposit (df_mask (f_row t)) (ucast (tl_row tlx)) OR deposit (df_mask (f_col t)) (ucast (tl_col tlx)) =
    a AND (df_mask (f_chip t) OR df_mask (f_bk t) OR df_mask (f_row t) OR df_mask (f_col t))"
proof -
  note f = addrdec_init_fields [OF init]
  have tlx: "tl_chip tlx = ucast (pack_field (f_chip t) a)" "tl_bk tlx = ucast (pack_field (f_bk t) a)"
      "tl_row tlx = ucast (pack_field (f_row t) a)" "tl_col tlx = ucast (pack_field (f_col t) a)"
    using dec assms(2,3) f(6) by (auto simp: addrdec_tlx_def raw_fields_def consecutive_sub_partition_def)
  have d: "deposit (df_mask g) (ucast (ucast (pack_field g a) :: u32)) = a AND df_mask g"
    if "g = addrdec_getmasklimit (df_mask g)" "bcount (df_mask g) \<le> 32" for g
    using deposit_pack_u32 [OF that(2), of a] that(1) by simp
  show ?thesis
    unfolding tlx using small d [OF f(2)] d [OF f(3)] d [OF f(4)] d [OF f(5)]
    by (simp add: bit.conj_disj_distrib)
qed

lemma agree_on_sub_bits:
  assumes "pow2_or_zero nsub" and "1 < nsub" and f: "f = addrdec_getmasklimit bk"
    and eq: "(ucast (pack_field f a) AND (nsub - 1) :: u32) = ucast (pack_field f b) AND (nsub - 1)"
    and bit: "bit (sub_mask_loop bk (LOGB2_32 nsub) (df_high f - df_low f) (df_low f) 0 0) i"
  shows "bit a i \<longleftrightarrow> bit b i"
proof -
  let ?n = "LOGB2_32 nsub"
  have nsub: "nsub = 2 ^ ?n" using pow2_LOGB2 [OF assms(1)] assms(2) by fastforce
  have "?n \<noteq> 0"
  proof
    assume "?n = 0"
    then show False using nsub assms(2) by simp
  qed
  then have i: "bit bk i" "rank bk i < ?n" using bit sub_mask_bit [OF f] by auto
  have n: "?n < 32"
  proof (rule ccontr)
    assume "\<not> ?n < 32"
    then have "(2 ^ ?n :: u32) = 0" by (simp add: exp_eq_zero_iff)
    then show False using nsub assms(2) by simp
  qed
  have "nsub - 1 = mask ?n" using nsub by (simp add: mask_eq_exp_minus_1)
  then have "bit (nsub - 1) (rank bk i)" using i(2) n by (simp add: bit_mask_iff)
  then have "bit (ucast (pack_field f a) :: u32) (rank bk i) \<longleftrightarrow> bit (ucast (pack_field f b) :: u32) (rank bk i)"
    using eq by (metis bit_and_iff)
  then show ?thesis
    using i n rank_positions [OF i(1)] by (simp add: bit_ucast_iff f pack_field_bit)
qed

text \<open>The sub-partition number is the channel above the low bits of the bank, and determines both.\<close>

lemma LOGB2_less:
  assumes "pow2_or_zero nsub" and "nsub \<noteq> 0"
  shows "LOGB2_32 nsub < 32"
proof (rule ccontr)
  assume "\<not> LOGB2_32 nsub < 32"
  then have "(2 ^ LOGB2_32 nsub :: u32) = 0" by (simp add: exp_eq_zero_iff)
  with pow2_LOGB2 [OF assms] assms(2) show False by simp
qed

lemma sub_partition_bits:
  fixes c k nsub :: u32
  assumes "pow2_or_zero nsub" and "nsub \<noteq> 0" and "i < 32"
  shows "bit (c * nsub + (k AND (nsub - 1))) i \<longleftrightarrow> (if i < LOGB2_32 nsub then bit k i else bit c (i - LOGB2_32 nsub))"
proof -
  let ?n = "LOGB2_32 nsub"
  have nsub: "nsub = 2 ^ ?n" by (rule pow2_LOGB2 [OF assms(1,2)])
  have m: "nsub - 1 = mask ?n" using nsub by (simp add: mask_eq_exp_minus_1)
  have "c * nsub = push_bit ?n c" by (subst nsub) (simp add: push_bit_eq_mult)
  moreover have "push_bit ?n c AND (k AND mask ?n) = 0" by (rule bit_word_eqI) (auto simp: bit_simps)
  ultimately have "c * nsub + (k AND (nsub - 1)) = push_bit ?n c OR (k AND mask ?n)"
    unfolding m by (simp add: disjunctive_add_eq_or)
  then show ?thesis using assms(3) by (auto simp: bit_simps)
qed

lemma sub_partition_inject:
  fixes c c' k k' nsub :: u32
  assumes "pow2_or_zero nsub" and "nsub \<noteq> 0" and eq: "c * nsub + (k AND (nsub - 1)) = c' * nsub + (k' AND (nsub - 1))"
    and small: "\<And>i. 32 \<le> i + LOGB2_32 nsub \<Longrightarrow> \<not> bit c i \<and> \<not> bit c' i"
  shows "c = c' \<and> k AND (nsub - 1) = k' AND (nsub - 1)"
proof
  let ?n = "LOGB2_32 nsub"
  note bits = sub_partition_bits [OF assms(1,2)]
  have m: "nsub - 1 = mask ?n" using pow2_LOGB2 [OF assms(1,2)] by (simp add: mask_eq_exp_minus_1)
  show "c = c'"
  proof (rule bit_word_eqI)
    fix i assume "i < LENGTH(32)"
    show "bit c i \<longleftrightarrow> bit c' i"
    proof (cases "i + ?n < 32")
      case True
      with bits [of "i + ?n" c k] bits [of "i + ?n" c' k'] eq show ?thesis by simp
    qed (use small in simp)
  qed
  show "k AND (nsub - 1) = k' AND (nsub - 1)"
  proof (rule bit_word_eqI)
    fix i assume "i < LENGTH(32)"
    then show "bit (k AND (nsub - 1)) i \<longleftrightarrow> bit (k' AND (nsub - 1)) i"
      using bits [of i c k] bits [of i c' k'] eq unfolding m by (cases "i < ?n") (auto simp: bit_simps)
  qed
qed

lemma chip_bits_small:
  fixes a :: u64
  assumes "f = addrdec_getmasklimit (df_mask f)" and "bcount (df_mask f) + n \<le> 32" and "32 \<le> i + n"
  shows "\<not> bit (ucast (pack_field f a) :: u32) i"
proof -
  have "\<not> i < length (positions (df_mask f))" using assms(2,3) by (simp add: length_positions)
  then show ?thesis by (subst assms(1)) (simp add: bit_ucast_iff pack_field_bit)
qed

text \<open>
  C36: within a sub-partition the partition address is unique. With consecutive or custom partition indexing, a number
  of channels that leaves no gap (a power of two) and channel and sub-partition numbers of at most 32 bits together,
  two addresses of the same sub-partition with the same partition address (which indexes the L2
  slice and the DRAM) are the same address: no two lines alias.
\<close>

theorem partition_address_unique:
  assumes init: "addrdec_init opt address_mask indexing nchannel nsub = Some t" and "gap t = 0"
    and "indexing \<in> {CONSECUTIVE, CUSTOM}" and "nsub \<noteq> 0"
    and small: "bcount (df_mask (f_chip t)) + LOGB2_32 nsub \<le> 32"
    and x: "addrdec_tlx t a rnd tab = Some (x, tab1)" and y: "addrdec_tlx t b rnd tab = Some (y, tab2)"
    and sub: "tl_sub_partition x = tl_sub_partition y"
    and addr: "partition_address t a = partition_address t b"
  shows "a = b"
proof -
  note f = addrdec_init_fields [OF init]
  let ?c = "\<lambda>a. ucast (pack_field (f_chip t) a) :: u32" and ?k = "\<lambda>a. ucast (pack_field (f_bk t) a) AND (nsub - 1) :: u32"
  have "tl_sub_partition x = ?c a * nsub + ?k a" "tl_sub_partition y = ?c b * nsub + ?k b"
    using x y assms(2,3) f(6,7) by (auto simp: addrdec_tlx_def raw_fields_def consecutive_sub_partition_def)
  with sub sub_partition_inject [OF f(8) assms(4)] chip_bits_small [OF f(2) small]
  have c: "?c a = ?c b" and k: "?k a = ?k b" by metis+
  have p: "addrdec_packbits (NOT (df_mask (f_chip t) OR sub_partition_id_mask t)) a 64 0 =
      addrdec_packbits (NOT (df_mask (f_chip t) OR sub_partition_id_mask t)) b 64 0"
    using addr assms(2) by (simp add: partition_address_def)
  show "a = b"
  proof (rule bit_word_eqI)
    fix i assume i: "i < LENGTH(64)"
    consider "bit (df_mask (f_chip t)) i" | "bit (sub_partition_id_mask t) i"
      | "bit (NOT (df_mask (f_chip t) OR sub_partition_id_mask t)) i"
      using i by (auto simp: bit_simps)
    then show "bit a i \<longleftrightarrow> bit b i"
    proof cases
      case 1
      obtain M where M: "f_chip t = addrdec_getmasklimit M" using f(2) by blast
      have "bcount M \<le> 32" "bit M i" using small 1 by (simp_all add: M getmasklimit_spec)
      with c show ?thesis unfolding M by (rule pack_field_agree)
    next
      case 2
      then have "1 < nsub" using f(9) by (auto split: if_splits)
      from agree_on_sub_bits [OF f(8) this f(3) k] 2 this show ?thesis by (simp add: f(9))
    next
      case 3
      then show ?thesis by (rule packbits_agree [OF p])
    qed
  qed
qed

section \<open>A decoder\<close>

text \<open>Preset 1 with eight channels of two sub-partitions each.\<close>

definition demo_dec :: raw_translation where
  "demo_dec = \<lparr>ADDR_CHIP_S = 13, f_chip = addrdec_getmasklimit 0xE000, f_bk = addrdec_getmasklimit 0x1800,
     f_row = addrdec_getmasklimit 0x3FFF0000, f_col = addrdec_getmasklimit 0x7FF, f_burst = addrdec_getmasklimit 0xF,
     sub_partition_id_mask = sub_mask_loop 0x1800 1 (df_high (addrdec_getmasklimit 0x1800) -
       df_low (addrdec_getmasklimit 0x1800)) (df_low (addrdec_getmasklimit 0x1800)) 0 0,
     gap = 0, n_channel = 8, n_sub_partition = 2, log2channel = 3,
     log2sub_partition = 1, nextPowerOf2_n_channel = next_powerOf2 8, partition_indexing = CONSECUTIVE\<rparr>"

lemma demo_LOGB2: "LOGB2_32 8 = 3" "LOGB2_32 2 = 1"
  by (simp_all add: LOGB2_32_def logb2_stage_def)

lemma demo_dec_init: "addrdec_init None 1 CONSECUTIVE 8 2 = Some demo_dec"
  by (simp add: addrdec_init_def demo_LOGB2 mask_preset_def preset_def default_masks_def insert_channel_def
      widen_def numeral_3_eq_3 demo_dec_def pow2_or_zero_def Let_def)

lemma demo_dec_tlx: "addrdec_tlx demo_dec a 0 [] = Some (consecutive_sub_partition demo_dec (fst (the (raw_fields demo_dec a))), [])"
  by (simp add: addrdec_tlx_def raw_fields_def demo_dec_def)

lemma len64: "LENGTH(64) = 64"
  by simp

lemma bcount_le:
  fixes m :: u64
  assumes "take_bit n m = m" shows "bcount m \<le> n"
proof -
  have "set (filter (bit m) [0..<64]) \<subseteq> {..<n}" using assms by (auto simp: bit_take_bit_iff) (metis bit_take_bit_iff)
  then have "card (set (filter (bit m) [0..<64])) \<le> n" using card_mono [of "{..<n}"] by fastforce
  then show ?thesis by (simp only: bcount_def distinct_card [OF distinct_filter [OF distinct_upt]] len64)
qed

lemma demo_small: "\<forall>f \<in> {f_chip demo_dec, f_bk demo_dec, f_row demo_dec, f_col demo_dec}. bcount (df_mask f) \<le> 32"
  by (auto simp: demo_dec_def getmasklimit_spec intro!: bcount_le)

lemma pack_field_cong:
  "a AND m = b AND m \<Longrightarrow> pack_field (addrdec_getmasklimit m) a = pack_field (addrdec_getmasklimit m) b"
proof (rule bit_word_eqI)
  fix j assume ab: "a AND m = b AND m"
  have "bit m (positions m ! j)" if "j < length (positions m)"
    using nth_mem [OF that] by (simp add: positions_def)
  then show "bit (pack_field (addrdec_getmasklimit m) a) j \<longleftrightarrow> bit (pack_field (addrdec_getmasklimit m) b) j"
    unfolding pack_field_bit using ab by (metis bit_and_iff)
qed

theorem init_fields_disjoint_witness: "disjoint_masks (masks_of demo_dec) \<and> df_mask (f_row demo_dec) = 0x3FFF0000"
  using init_fields_disjoint [OF demo_dec_init] by (simp add: demo_dec_def getmasklimit_spec)

theorem address_roundtrip_witness:
  "\<exists>tlx. addrdec_tlx demo_dec 0x12345680 0 [] = Some (tlx, []) \<and>
    deposit 0xE000 (ucast (tl_chip tlx)) OR deposit 0x1800 (ucast (tl_bk tlx)) OR
      deposit 0x3FFF0000 (ucast (tl_row tlx)) OR deposit 0x7FF (ucast (tl_col tlx)) = 0x12345680"
proof -
  have "gap demo_dec = 0" by (simp add: demo_dec_def)
  from address_roundtrip [OF demo_dec_init this _ demo_dec_tlx [of "0x12345680"] demo_small]
  show ?thesis unfolding demo_dec_tlx by (simp add: demo_dec_def getmasklimit_spec)
qed

theorem partition_address_unique_witness:
  "partition_address demo_dec 0x12345680 \<noteq> partition_address demo_dec 0x12345681"
proof
  assume eq: "partition_address demo_dec 0x12345680 = partition_address demo_dec 0x12345681"
  let ?x = "consecutive_sub_partition demo_dec (fst (the (raw_fields demo_dec 0x12345680)))"
    and ?y = "consecutive_sub_partition demo_dec (fst (the (raw_fields demo_dec 0x12345681)))"
  have "pack_field (f_chip demo_dec) 0x12345680 = pack_field (f_chip demo_dec) 0x12345681"
    "pack_field (f_bk demo_dec) 0x12345680 = pack_field (f_bk demo_dec) 0x12345681"
    unfolding demo_dec_def raw_translation.simps by (rule pack_field_cong; simp)+
  then have sub: "tl_sub_partition ?x = tl_sub_partition ?y"
    by (simp add: consecutive_sub_partition_def raw_fields_def demo_dec_def)
  have "gap demo_dec = 0" by (simp add: demo_dec_def)
  have "bcount (df_mask (f_chip demo_dec)) \<le> 16"
    by (rule bcount_le) (simp add: demo_dec_def getmasklimit_spec)
  then have "bcount (df_mask (f_chip demo_dec)) + LOGB2_32 2 \<le> 32" by (simp add: demo_LOGB2)
  from partition_address_unique [OF demo_dec_init \<open>gap demo_dec = 0\<close> _ _ this demo_dec_tlx demo_dec_tlx sub eq]
  show False by simp
qed

text \<open>
  \<^verbatim>\<open>next_powerOf2\<close> is 0 for a single channel, so that IPoly hashing has no bank to choose from; and
  the help text of \<^verbatim>\<open>-gpgpu_memory_partition_indexing\<close> calls value 3 custom indexing, which the
  enumeration calls \<^verbatim>\<open>PAE\<close> and the decoder rejects.
\<close>

lemma next_powerOf2_one: "next_powerOf2 1 = 0"
  by (simp add: next_powerOf2_def top_bit_loop.simps)

lemma single_channel_ipoly:
  assumes "addrdec_init None 1 IPOLY 1 nsub = Some t" shows "addrdec_tlx t a rnd tab = None"
proof -
  have "nextPowerOf2_n_channel t = 0" "partition_indexing t = IPOLY"
    using addrdec_init_fields(6,10) [OF assms] by (simp_all add: next_powerOf2_one)
  then show ?thesis
    by (cases "raw_fields t a") (auto simp: addrdec_tlx_def ipoly_hash_function_def)
qed

lemma pae_indexing_rejected: "partition_indexing t = PAE \<Longrightarrow> addrdec_tlx t a rnd tab = None"
  by (cases "raw_fields t a") (auto simp: addrdec_tlx_def)

end
