(* ===== verification/Std_Map.thy ===== *)
theory Std_Map
  imports Sim_Prelude
begin

text \<open>
  \<^verbatim>\<open>std::map\<close> as a list of pairs in the order of the keys: iteration is iteration over the list,
  \<open>map_at\<close> is an assignment through \<^verbatim>\<open>operator[]\<close>, which creates a default value for a new key.
\<close>

fun map_at :: "'k::linorder \<Rightarrow> ('v \<Rightarrow> 'v) \<Rightarrow> 'v \<Rightarrow> ('k \<times> 'v) list \<Rightarrow> ('k \<times> 'v) list" where
  "map_at k f d [] = [(k, f d)]"
| "map_at k f d ((k', v) # m) =
    (if k < k' then (k, f d) # (k', v) # m
     else if k = k' then (k', f v) # m
     else (k', v) # map_at k f d m)"

definition std_map :: "('k::linorder \<times> 'v) list \<Rightarrow> bool" where
  "std_map m \<longleftrightarrow> sorted_wrt (<) (map fst m)"

definition value_at :: "('k \<times> 'v) list \<Rightarrow> 'k \<Rightarrow> 'v \<Rightarrow> 'v" where
  "value_at m k d = (case map_of m k of None \<Rightarrow> d | Some v \<Rightarrow> v)"

lemma std_map_Nil [simp]: "std_map []"
  by (simp add: std_map_def)

lemma std_map_Cons: "std_map ((k, v) # m) \<longleftrightarrow> (\<forall>k' \<in> fst ` set m. k < k') \<and> std_map m"
  by (auto simp: std_map_def)

lemma keys_map_at [simp]: "fst ` set (map_at k f d m) = insert k (fst ` set m)"
  by (induction k f d m rule: map_at.induct) auto

lemma std_map_at [simp]: "std_map m \<Longrightarrow> std_map (map_at k f d m)"
  by (induction k f d m rule: map_at.induct) (auto simp: std_map_Cons)

lemma std_map_distinct: "std_map m \<Longrightarrow> distinct (map fst m)"
  by (simp add: std_map_def strict_sorted_iff)

lemma map_of_below: "std_map ((k', v) # m) \<Longrightarrow> k < k' \<Longrightarrow> map_of m k = None"
  by (force simp: std_map_Cons map_of_eq_None_iff)

lemma map_of_map_at: "std_map m \<Longrightarrow> map_of (map_at k f d m) = (map_of m)(k \<mapsto> f (value_at m k d))"
proof (induction k f d m rule: map_at.induct)
  case (2 k f d k' v m)
  have "std_map m" using 2(2) by (simp add: std_map_Cons)
  moreover have "k < k' \<Longrightarrow> map_of m k = None" using 2(2) by (rule map_of_below)
  ultimately show ?case using 2(1) by (auto simp: fun_eq_iff value_at_def)
qed (simp add: value_at_def)

lemma std_map_mem: "std_map m \<Longrightarrow> (k, v) \<in> set m \<longleftrightarrow> map_of m k = Some v"
  by (auto dest: std_map_distinct map_of_SomeD intro: map_of_is_SomeI)

end
