(* ===== verification/Coalescer.thy ===== *)
theory Coalescer
  imports Instruction Std_Map
begin

text \<open>
  The coalescer: \<^verbatim>\<open>warp_inst_t::generate_mem_accesses\<close> and the functions it calls
  (abstract_hardware_model.cc, lines 705-1351) turn the addresses of the threads of a warp into the
  memory accesses the load/store unit issues, or count the bank conflicts of a shared-memory
  access. Sizes in bytes are \<^verbatim>\<open>unsigned\<close> in the code and never exceed 128; they are \<open>nat\<close> here.
\<close>

unbundle bit_operations_syntax

section \<open>State\<close>

text \<open>The fields of \<^verbatim>\<open>core_config\<close> and \<^verbatim>\<open>warp_inst_t\<close> that are read or written.\<close>

record core_config =
  warp_size :: nat
  mem_warp_parts :: nat
  gpgpu_coalesce_arch :: int
  gmem_skip_L1D :: bool
  shmem_limited_broadcast :: bool
  num_shmem_bank :: nat
  texl1_linesize :: nat
  constl1_linesize :: nat

text \<open>
  \<open>w_addrs\<close> holds the array \<^verbatim>\<open>memreqaddr[8]\<close> of every thread, \<open>w_cache_global\<close> says that the
  cache operator is \<^verbatim>\<open>CACHE_GLOBAL\<close>. \<open>w_threads_valid\<close> is \<^verbatim>\<open>m_per_scalar_thread_valid\<close>.
\<close>

record warp_inst = inst_t +
  w_empty :: bool
  w_active :: warp_mask
  w_threads_valid :: bool
  w_addrs :: "u64 list list"
  w_data_size :: nat
  w_cache_global :: bool
  w_isatomic :: bool
  w_accessq :: "mem_access list"
  w_created :: bool
  w_cycles :: nat

definition MAX_ACCESSES_PER_INSN_PER_THREAD :: nat where
  "MAX_ACCESSES_PER_INSN_PER_THREAD = 8"

record transaction_info =
  ti_chunks :: sector_mask
  ti_bytes :: byte_mask
  ti_active :: warp_mask

definition transaction_info_new :: transaction_info where
  "transaction_info_new = \<lparr>ti_chunks = 0, ti_bytes = 0, ti_active = 0\<rparr>"

definition line_size_based_tag_func :: "u64 \<Rightarrow> nat \<Rightarrow> u64" where
  "line_size_based_tag_func address line_size = address AND NOT (of_nat line_size - 1)"

definition chunk_of :: "u64 \<Rightarrow> nat" where
  "chunk_of addr = unat (addr AND 127) div 32"

definition byte_of :: "u64 \<Rightarrow> nat" where
  "byte_of addr = unat (addr AND 127)"

section \<open>Global and local memory\<close>

definition sector_segment_size :: "core_config \<Rightarrow> warp_inst \<Rightarrow> bool" where
  "sector_segment_size c w =
    (if 20 \<le> gpgpu_coalesce_arch c \<and> gpgpu_coalesce_arch c < 39 then gmem_skip_L1D c \<or> w_cache_global w
     else 40 \<le> gpgpu_coalesce_arch c)"

text \<open>The switch on the data size has no default: another size leaves the initial 0.\<close>

definition segment_size :: "core_config \<Rightarrow> warp_inst \<Rightarrow> nat" where
  "segment_size c w =
    (if w_data_size w = 1 then 32
     else if w_data_size w = 2 then (if sector_segment_size c w then 32 else 64)
     else if w_data_size w \<in> {4, 8, 16} then (if sector_segment_size c w then 32 else 128)
     else 0)"

text \<open>\<^verbatim>\<open>if ((idx + i) < MAX_MEMORY_ACCESS_SIZE) info.bytes.set(idx + i)\<close> for \<open>i < n\<close>.\<close>

fun set_bytes :: "nat \<Rightarrow> nat \<Rightarrow> byte_mask \<Rightarrow> byte_mask" where
  "set_bytes idx 0 b = b"
| "set_bytes idx (Suc n) b = set_bytes (Suc idx) n (if idx < 128 then set_bit idx b else b)"

definition add_lane :: "u64 \<Rightarrow> nat \<Rightarrow> nat \<Rightarrow> transaction_info \<Rightarrow> transaction_info" where
  "add_lane addr n thread info = info\<lparr>ti_chunks := set_bit (chunk_of addr) (ti_chunks info),
     ti_active := set_bit thread (ti_active info), ti_bytes := set_bytes (byte_of addr) n (ti_bytes info)\<rparr>"

text \<open>
  One address of a thread. An access that ends in another segment also enters the segment of its
  last byte, with the same code run from that last byte.
\<close>

definition coalesce_access ::
  "nat \<Rightarrow> nat \<Rightarrow> nat \<Rightarrow> (u64 \<times> transaction_info) list \<Rightarrow> u64 \<Rightarrow> (u64 \<times> transaction_info) list" where
  "coalesce_access seg n thread m addr =
    (let block = line_size_based_tag_func addr seg;
         last_addr = addr + of_nat n - 1;
         last_block = line_size_based_tag_func last_addr seg;
         m = map_at block (add_lane addr n thread) transaction_info_new m
     in if block \<noteq> last_block then map_at last_block (add_lane last_addr n thread) transaction_info_new m else m)"

definition is_local :: "memory_space \<Rightarrow> bool" where
  "is_local s \<longleftrightarrow> s = local_space \<or> s = param_space_local"

definition data_size_coales :: "warp_inst \<Rightarrow> nat" where
  "data_size_coales w = (if is_local (i_space w) \<and> 4 \<le> w_data_size w then 4 else w_data_size w)"

definition num_accesses :: "warp_inst \<Rightarrow> nat" where
  "num_accesses w = (if is_local (i_space w) \<and> 4 \<le> w_data_size w then w_data_size w div 4 else 1)"

text \<open>The addresses of a thread, up to the first 0.\<close>

definition lane_addrs :: "warp_inst \<Rightarrow> nat \<Rightarrow> u64 list" where
  "lane_addrs w thread = takeWhile (\<lambda>a. a \<noteq> 0) (take MAX_ACCESSES_PER_INSN_PER_THREAD (w_addrs w ! thread))"

definition subwarp_threads :: "core_config \<Rightarrow> warp_inst \<Rightarrow> nat \<Rightarrow> nat list" where
  "subwarp_threads c w subwarp =
    (let sz = warp_size c div mem_warp_parts c
     in filter (bit (w_active w)) [subwarp * sz..<(subwarp + 1) * sz])"

definition coalesce_thread ::
  "core_config \<Rightarrow> warp_inst \<Rightarrow> nat \<Rightarrow> (u64 \<times> transaction_info) list \<Rightarrow> (u64 \<times> transaction_info) list option" where
  "coalesce_thread c w thread m = do {
     guard (num_accesses w \<le> MAX_ACCESSES_PER_INSN_PER_THREAD);
     Some (foldl (coalesce_access (segment_size c w) (data_size_coales w) thread) m (lane_addrs w thread)) }"

text \<open>
  \<^verbatim>\<open>memory_coalescing_arch_reduce_and_send\<close>: a segment of which only one half is used is sent as
  that half, and a half likewise as a quarter.
\<close>

definition reduce_half :: "u64 \<Rightarrow> bool \<Rightarrow> bool \<Rightarrow> (u64 \<times> nat) option" where
  "reduce_half addr h0 h1 =
    (if h0 \<and> \<not> h1 then Some (addr, 32)
     else if \<not> h0 \<and> h1 then Some (addr + 32, 32)
     else do { guard (h0 \<and> h1); Some (addr, 64) })"

definition reduce_segment :: "u64 \<Rightarrow> nat \<Rightarrow> sector_mask \<Rightarrow> (u64 \<times> nat) option" where
  "reduce_segment addr seg q = do {
     guard (addr AND ucast ((of_nat seg :: u32) - 1) = 0);
     guard (1 \<le> bcount q);
     (if seg = 128 then
        (let lower_half_used = bit q 0 \<or> bit q 1; upper_half_used = bit q 2 \<or> bit q 3 in
         if lower_half_used \<and> \<not> upper_half_used then reduce_half addr (bit q 0) (bit q 1)
         else if \<not> lower_half_used \<and> upper_half_used then reduce_half (addr + 64) (bit q 2) (bit q 3)
         else do { guard (lower_half_used \<and> upper_half_used); Some (addr, 128) })
      else if seg = 64 then
        (if addr mod 128 = 0 then reduce_half addr (bit q 0) (bit q 1)
         else do { guard (addr mod 128 = 64); reduce_half addr (bit q 2) (bit q 3) })
      else Some (addr, seg)) }"

definition reduce_and_send ::
  "bool \<Rightarrow> mem_access_type \<Rightarrow> nat \<Rightarrow> u64 \<times> transaction_info \<Rightarrow> mem_access list \<times> nat \<Rightarrow> (mem_access list \<times> nat) option" where
  "reduce_and_send wr ty seg t st = (case t of (addr, info) \<Rightarrow> (case st of (accessq, uid) \<Rightarrow> do {
     (addr, size) \<leftarrow> reduce_segment addr seg (ti_chunks info);
     (let (acc, uid) = mem_access_new uid ty addr size wr (ti_active info) (ti_bytes info) (ti_chunks info)
      in Some (accessq @ [acc], uid)) }))"

definition coalesce_subwarp ::
  "core_config \<Rightarrow> warp_inst \<Rightarrow> bool \<Rightarrow> mem_access_type \<Rightarrow> nat \<Rightarrow> mem_access list \<times> nat \<Rightarrow> (mem_access list \<times> nat) option" where
  "coalesce_subwarp c w wr ty subwarp st = do {
     m \<leftarrow> fold_opt (coalesce_thread c w) (subwarp_threads c w subwarp) [];
     fold_opt (reduce_and_send wr ty (segment_size c w)) m st }"

definition memory_coalescing_arch ::
  "core_config \<Rightarrow> warp_inst \<Rightarrow> bool \<Rightarrow> mem_access_type \<Rightarrow> mem_access list \<times> nat \<Rightarrow> (mem_access list \<times> nat) option" where
  "memory_coalescing_arch c w wr ty st =
     (if mem_warp_parts c = 0 then None else fold_opt (coalesce_subwarp c w wr ty) [0..<mem_warp_parts c] st)"

section \<open>Atomic operations\<close>

text \<open>
  A thread joins the first transaction of its segment none of whose bytes it touches
  (\<^verbatim>\<open>test_bytes\<close> on the bytes of the access fails), or opens a new one.
\<close>

fun atomic_join :: "u64 \<Rightarrow> nat \<Rightarrow> nat \<Rightarrow> transaction_info list \<Rightarrow> transaction_info list" where
  "atomic_join addr n thread [] = [add_lane addr n thread transaction_info_new]"
| "atomic_join addr n thread (i # is) =
    (if \<not> list_ex (bit (ti_bytes i)) [byte_of addr..<byte_of addr + n] then add_lane addr n thread i # is
     else i # atomic_join addr n thread is)"

definition atomic_thread ::
  "core_config \<Rightarrow> warp_inst \<Rightarrow> nat \<Rightarrow> (u64 \<times> transaction_info list) list \<Rightarrow> (u64 \<times> transaction_info list) list option" where
  "atomic_thread c w thread m =
    (let addr = w_addrs w ! thread ! 0; n = w_data_size w;
         block = line_size_based_tag_func addr (segment_size c w)
     in do {
       guard (block = line_size_based_tag_func (addr + of_nat n - 1) (segment_size c w));
       Some (map_at block (atomic_join addr n thread) [] m) })"

definition atomic_subwarp ::
  "core_config \<Rightarrow> warp_inst \<Rightarrow> bool \<Rightarrow> mem_access_type \<Rightarrow> nat \<Rightarrow> mem_access list \<times> nat \<Rightarrow> (mem_access list \<times> nat) option" where
  "atomic_subwarp c w wr ty subwarp st = do {
     m \<leftarrow> fold_opt (atomic_thread c w) (subwarp_threads c w subwarp) [];
     fold_opt (reduce_and_send wr ty (segment_size c w))
       (concat (map (\<lambda>(addr, infos). map (Pair addr) infos) m)) st }"

definition memory_coalescing_arch_atomic ::
  "core_config \<Rightarrow> warp_inst \<Rightarrow> bool \<Rightarrow> mem_access_type \<Rightarrow> mem_access list \<times> nat \<Rightarrow> (mem_access list \<times> nat) option" where
  "memory_coalescing_arch_atomic c w wr ty st = do {
     guard (i_space w = global_space);
     (if mem_warp_parts c = 0 then None else fold_opt (atomic_subwarp c w wr ty) [0..<mem_warp_parts c] st) }"

section \<open>Shared memory\<close>

definition shmem_bank_func :: "core_config \<Rightarrow> u64 \<Rightarrow> nat" where
  "shmem_bank_func c addr = unat addr div 4 mod num_shmem_bank c"

text \<open>\<^verbatim>\<open>bank_accs[bank][word]++\<close> for the threads of a subwarp.\<close>

definition count_word :: "core_config \<Rightarrow> warp_inst \<Rightarrow> (nat \<times> (u64 \<times> nat) list) list \<Rightarrow> nat \<Rightarrow> (nat \<times> (u64 \<times> nat) list) list" where
  "count_word c w m thread =
    (let addr = w_addrs w ! thread ! 0 in
     map_at (shmem_bank_func c addr) (map_at (line_size_based_tag_func addr 4) Suc 0) [] m)"

definition bank_accs :: "core_config \<Rightarrow> warp_inst \<Rightarrow> nat \<Rightarrow> (nat \<times> (u64 \<times> nat) list) list" where
  "bank_accs c w subwarp = foldl (count_word c w) [] (subwarp_threads c w subwarp)"

text \<open>The first word, in the order of banks and words, that two threads access.\<close>

fun broadcast :: "(nat \<times> (u64 \<times> nat) list) list \<Rightarrow> (nat \<times> u64 \<times> nat) option" where
  "broadcast [] = None"
| "broadcast ((bank, ws) # m) = (case find (\<lambda>(word, n). 1 < n) ws of
     Some (word, n) \<Rightarrow> Some (bank, word, n)
   | None \<Rightarrow> broadcast m)"

definition limited_bank_accesses :: "(nat \<times> u64 \<times> nat) option \<Rightarrow> nat \<times> (u64 \<times> nat) list \<Rightarrow> nat" where
  "limited_bank_accesses b e = (let n = sum_list (map snd (snd e)) in
     case b of None \<Rightarrow> n
     | Some (bank, word, k) \<Rightarrow> if bank = fst e then n - (k - 1) else n)"

definition subwarp_conflicts :: "core_config \<Rightarrow> warp_inst \<Rightarrow> nat \<Rightarrow> nat" where
  "subwarp_conflicts c w subwarp = (let m = bank_accs c w subwarp in
     if shmem_limited_broadcast c then foldl max 0 (map (limited_bank_accesses (broadcast m)) m)
     else foldl max 0 (map (\<lambda>(bank, ws). length ws) m))"

definition shared_cycles :: "core_config \<Rightarrow> warp_inst \<Rightarrow> nat option" where
  "shared_cycles c w = (if mem_warp_parts c = 0 \<or> num_shmem_bank c = 0 then None else do {
     let total = sum_list (map (subwarp_conflicts c w) [0..<mem_warp_parts c]);
     guard (0 < total \<and> total \<le> warp_size c);
     Some total })"

section \<open>Constant and texture memory\<close>

text \<open>One byte mask is shared by all blocks; \<^verbatim>\<open>set\<close> throws for a byte beyond the mask.\<close>

definition block_thread ::
  "warp_inst \<Rightarrow> nat \<Rightarrow> nat \<Rightarrow> (u64 \<times> warp_mask) list \<times> byte_mask \<Rightarrow> ((u64 \<times> warp_mask) list \<times> byte_mask) option" where
  "block_thread w line thread st = (case st of (m, bytes) \<Rightarrow>
    (let addr = w_addrs w ! thread ! 0; block = line_size_based_tag_func addr line;
         idx = unat ((ucast (addr - block)) :: u32)
     in do {
       guard (w_data_size w = 0 \<or> idx + w_data_size w \<le> 128);
       Some (map_at block (set_bit thread) 0 m, set_bytes idx (w_data_size w) bytes) }))"

fun push_blocks :: "bool \<Rightarrow> mem_access_type \<Rightarrow> nat \<Rightarrow> byte_mask \<Rightarrow> (u64 \<times> warp_mask) list \<Rightarrow> mem_access list \<times> nat \<Rightarrow> mem_access list \<times> nat" where
  "push_blocks wr ty line bytes [] st = st"
| "push_blocks wr ty line bytes ((a, active) # m) (accessq, uid) =
    (let (acc, uid) = mem_access_new uid ty a line wr active bytes 0
     in push_blocks wr ty line bytes m (accessq @ [acc], uid))"

definition block_accesses ::
  "core_config \<Rightarrow> warp_inst \<Rightarrow> nat \<Rightarrow> bool \<Rightarrow> mem_access_type \<Rightarrow> mem_access list \<times> nat \<Rightarrow> (mem_access list \<times> nat) option" where
  "block_accesses c w line wr ty st = do {
     guard (fst st = []);
     (m, bytes) \<leftarrow> fold_opt (block_thread w line) (filter (bit (w_active w)) [0..<warp_size c]) ([], 0);
     Some (push_blocks wr ty line bytes m st) }"

section \<open>The whole function\<close>

text \<open>The access type by space; \<open>None\<close> is the assertion of the default case.\<close>

definition access_type_of :: "memory_space \<Rightarrow> bool \<Rightarrow> mem_access_type option option" where
  "access_type_of s wr = (case s of
     const_space \<Rightarrow> Some (Some CONST_ACC_R) | param_space_kernel \<Rightarrow> Some (Some CONST_ACC_R)
   | tex_space \<Rightarrow> Some (Some TEXTURE_ACC_R)
   | global_space \<Rightarrow> Some (Some (if wr then GLOBAL_ACC_W else GLOBAL_ACC_R))
   | local_space \<Rightarrow> Some (Some (if wr then LOCAL_ACC_W else LOCAL_ACC_R))
   | param_space_local \<Rightarrow> Some (Some (if wr then LOCAL_ACC_W else LOCAL_ACC_R))
   | shared_space \<Rightarrow> Some None | sstarr_space \<Rightarrow> Some None
   | _ \<Rightarrow> None)"

definition generates :: "warp_inst \<Rightarrow> bool" where
  "generates w \<longleftrightarrow> \<not> (w_empty w \<or> i_op w = MEMORY_BARRIER_OP \<or> w_created w) \<and>
     i_op w \<in> {LOAD_OP, TENSOR_CORE_LOAD_OP, STORE_OP, TENSOR_CORE_STORE_OP} \<and> w_active w \<noteq> 0"

definition dram_accesses ::
  "core_config \<Rightarrow> warp_inst \<Rightarrow> bool \<Rightarrow> mem_access_type \<Rightarrow> mem_access list \<times> nat \<Rightarrow> (mem_access list \<times> nat) option" where
  "dram_accesses c w wr ty st = do {
     guard (13 \<le> gpgpu_coalesce_arch c);
     (if w_isatomic w then memory_coalescing_arch_atomic c w wr ty st
      else memory_coalescing_arch c w wr ty st) }"

definition generate_mem_accesses :: "core_config \<Rightarrow> warp_inst \<Rightarrow> nat \<Rightarrow> (warp_inst \<times> nat) option" where
  "generate_mem_accesses c w uid =
    (if \<not> generates w then Some (w, uid) else do {
       guard (is_load (inst_t.truncate w) \<or> is_store (inst_t.truncate w));
       guard (w_threads_valid w);
       let wr = is_store (inst_t.truncate w);
       ty \<leftarrow> access_type_of (i_space w) wr;
       (case ty of
          None \<Rightarrow> do { n \<leftarrow> shared_cycles c w; Some (w\<lparr>w_cycles := n, w_created := True\<rparr>, uid) }
        | Some ty \<Rightarrow> do {
            (q, uid) \<leftarrow> (if i_space w = tex_space
                then (if texl1_linesize c = 0 then Some (w_accessq w, uid)
                      else block_accesses c w (texl1_linesize c) wr ty (w_accessq w, uid))
              else if i_space w \<in> {const_space, param_space_kernel}
                then (if constl1_linesize c = 0 then Some (w_accessq w, uid)
                      else block_accesses c w (constl1_linesize c) wr ty (w_accessq w, uid))
              else dram_accesses c w wr ty (w_accessq w, uid));
            Some (w\<lparr>w_accessq := q, w_created := True\<rparr>, uid) }) })"

end
