(* ===== verification/Coalescer_Properties.thy ===== *)
theory Coalescer_Properties
  imports Coalescer
begin

text \<open>
  The coalescer is correct: every access of a thread lies in a transaction that names the thread,
  transactions are aligned and no larger than needed, the threads of an atomic transaction touch
  different bytes, and the cycles of a shared-memory access count its bank conflicts.
\<close>

section \<open>Addresses\<close>

abbreviation (input) tag_of :: "u64 \<Rightarrow> nat \<Rightarrow> u64" where
  "tag_of \<equiv> line_size_based_tag_func"

lemma tag_unat:
  assumes "n < 64"
  shows "unat (tag_of a (2 ^ n)) = unat a div 2 ^ n * 2 ^ n"
proof -
  have "(of_nat (2 ^ n) - 1 :: u64) = mask n" by (simp add: mask_eq_exp_minus_1)
  then show ?thesis by (simp add: line_size_based_tag_func_def unat_and_not_mask)
qed

lemma tag_sizes:
  "unat (tag_of a 4) = unat a div 4 * 4" "unat (tag_of a 32) = unat a div 32 * 32"
  "unat (tag_of a 64) = unat a div 64 * 64" "unat (tag_of a 128) = unat a div 128 * 128"
  using tag_unat [of 2 a] tag_unat [of 5 a] tag_unat [of 6 a] tag_unat [of 7 a] by simp_all

lemma unat_and_low:
  "unat (a AND 127) = unat a mod 128" "unat (a AND 63) = unat a mod 64" "unat (a AND 31) = unat a mod 32"
  for a :: u64
proof -
  have "unat (a AND mask n) = unat a mod 2 ^ n" for n
    by (metis take_bit_eq_mask unsigned_take_bit_eq take_bit_eq_mod)
  from this [of 7] this [of 6] this [of 5]
  show "unat (a AND 127) = unat a mod 128" "unat (a AND 63) = unat a mod 64" "unat (a AND 31) = unat a mod 32"
    by (simp_all add: mask_eq_exp_minus_1)
qed

lemma u64_less: "unat a < 2 ^ 64" for a :: u64
proof -
  have "unat a < 2 ^ LENGTH(64)" by (rule unsigned_less)
  then show ?thesis by simp
qed

lemma byte_of_mod: "byte_of a = unat a mod 128"
  by (simp add: byte_of_def unat_and_low)

lemma chunk_of_mod: "chunk_of a = unat a mod 128 div 32"
  by (simp add: chunk_of_def unat_and_low)

lemma chunk_less: "chunk_of a < 4"
  by (simp add: chunk_of_mod)

lemma tag_eq_iff: "tag_of a s = tag_of b s \<longleftrightarrow> unat (tag_of a s) = unat (tag_of b s)"
  by (simp add: word_eq_iff_unsigned)

lemma bit_set_bytes: "bit (set_bytes idx n b) j \<longleftrightarrow> bit b j \<or> idx \<le> j \<and> j < idx + n \<and> j < 128"
proof (induction idx n b rule: set_bytes.induct)
  case (2 idx n b)
  then show ?case by (auto simp: bit_set_bit_iff)
qed auto

lemma add_lane_simps [simp]:
  "bit (ti_chunks (add_lane a n t i)) c \<longleftrightarrow> bit (ti_chunks i) c \<or> c = chunk_of a"
  "bit (ti_bytes (add_lane a n t i)) j \<longleftrightarrow> bit (ti_bytes i) j \<or> byte_of a \<le> j \<and> j < byte_of a + n \<and> j < 128"
  "bit (ti_active (add_lane a n t i)) u \<longleftrightarrow> bit (ti_active i) u \<or> u = t \<and> t < 32"
  using chunk_less [of a] by (auto simp: add_lane_def bit_set_bytes bit_set_bit_iff)

lemma add_lane_nonzero: "ti_chunks (add_lane a n t i) \<noteq> 0"
proof -
  have "bit (ti_chunks (add_lane a n t i)) (chunk_of a)" by simp
  then show ?thesis by (metis bit_0_eq bot_apply bot_bool_def)
qed

lemma transaction_new_bits [simp]:
  "\<not> bit (ti_chunks transaction_info_new) c" "\<not> bit (ti_bytes transaction_info_new) c"
  "\<not> bit (ti_active transaction_info_new) c"
  by (simp_all add: transaction_info_new_def)

section \<open>Reducing a segment\<close>

text \<open>
  What a sent transaction \<open>(r, s)\<close> of a segment with used chunks \<open>q\<close> is: an aligned block that
  holds the used chunks, and each half of which is used unless it is a single chunk.
\<close>

definition half_used :: "sector_mask \<Rightarrow> nat \<Rightarrow> nat \<Rightarrow> bool" where
  "half_used q lo hi \<longleftrightarrow> (\<exists>c < 4. bit q c \<and> lo \<le> 32 * c \<and> 32 * c < hi)"

definition reduced :: "nat \<Rightarrow> sector_mask \<Rightarrow> u64 \<Rightarrow> nat \<Rightarrow> bool" where
  "reduced seg q r s \<longleftrightarrow> s \<in> {32, 64, 128} \<and> s \<le> seg \<and> unat r mod s = 0 \<and>
     (s > 32 \<longrightarrow> half_used q (unat r mod 128) (unat r mod 128 + s div 2) \<and>
                half_used q (unat r mod 128 + s div 2) (unat r mod 128 + s))"

lemma nat_split_128: "x = 128 * (x div 128) + 32 * (x mod 128 div 32) + x mod 32" for x :: nat
proof -
  have "x mod 128 = 32 * (x mod 128 div 32) + x mod 128 mod 32" by simp
  moreover have "x mod 128 mod 32 = x mod 32" by (rule mod_mod_cancel) simp
  moreover have "x = 128 * (x div 128) + x mod 128" by simp
  ultimately show ?thesis by linarith
qed

lemma half_usedI: "bit q c \<Longrightarrow> c < 4 \<Longrightarrow> lo \<le> 32 * c \<Longrightarrow> 32 * c < hi \<Longrightarrow> half_used q lo hi"
  by (auto simp: half_used_def)

lemma decompose_addr:
  obtains k r where "unat a = 128 * k + 32 * chunk_of a + r" and "r < 32" and "k < 2 ^ 57"
proof -
  have "unat a = 128 * (unat a div 128) + 32 * chunk_of a + unat a mod 32"
    unfolding chunk_of_mod by (rule nat_split_128)
  moreover have "unat a div 128 < 2 ^ 57" using u64_less [of a] by simp
  ultimately show ?thesis using that [of "unat a div 128" "unat a mod 32"] by simp
qed

lemma unat_add_small: "unat a mod 128 = 0 \<Longrightarrow> d < 128 \<Longrightarrow> unat (a + of_nat d) = unat a + d" for a :: u64
proof -
  assume a: "unat a mod 128 = 0" "d < 128"
  have "unat a div 128 < 2 ^ 57" using u64_less [of a] by simp
  moreover have "unat a = 128 * (unat a div 128)" using a(1) by auto
  ultimately have "unat a + d < 2 ^ 64" using a(2) by simp
  then show ?thesis using a(2) by (simp add: unat_word_ariths unsigned_of_nat take_bit_nat_eq_self)
qed


text \<open>The chunks of a segment, as the invariant of the transactions states it.\<close>

definition chunks_ok :: "nat \<Rightarrow> u64 \<Rightarrow> sector_mask \<Rightarrow> bool" where
  "chunks_ok seg b q \<longleftrightarrow> q \<noteq> 0 \<and> (\<forall>c. bit q c \<longrightarrow> (\<exists>a. tag_of a seg = b \<and> chunk_of a = c))"

lemma all_below4: "(\<forall>c < (4::nat). P c) \<longleftrightarrow> P 0 \<and> P 1 \<and> P 2 \<and> P 3"
  by (auto simp: numeral_eq_Suc less_Suc_eq)

lemma q_nonzero: "q \<noteq> 0 \<longleftrightarrow> bit q 0 \<or> bit q 1 \<or> bit q 2 \<or> bit q 3" for q :: sector_mask
proof -
  have "q = 0 \<longleftrightarrow> (\<forall>c < 4. \<not> bit q c)" by (auto simp: bit_eq_iff dest: bit_imp_le_length)
  then show ?thesis unfolding all_below4 by simp
qed

lemma seg_base:
  assumes "seg \<in> {32, 64, 128}" and "r < 32" and "c < 4"
  shows "(128 * k + 32 * c + r) div seg * seg = 128 * k + 32 * c div seg * seg"
    and "(128 * k + 32 * c div seg * seg) div 128 = (k :: nat)"
proof -
  obtain d where d: "seg = 32 * d" "d = 1 \<or> d = 2 \<or> d = (4 :: nat)" using assms(1) by auto
  have "(128 * k + 32 * c + r) div 32 = 4 * k + c" using assms(2) by simp
  then have "(128 * k + 32 * c + r) div seg = (4 * k + c) div d" by (simp add: d(1) div_mult2_eq)
  moreover have "32 * c div seg = c div d" by (simp add: d(1))
  moreover have "(4 * k + c) div d * d = 4 * k + c div d * d" using d(2) by (elim disjE) (simp, presburger+)
  moreover have "c div d * d < 4" using assms(3) le_less_trans [OF div_times_less_eq_dividend] by blast
  ultimately show "(128 * k + 32 * c + r) div seg * seg = 128 * k + 32 * c div seg * seg"
    "(128 * k + 32 * c div seg * seg) div 128 = k"
    by (simp_all add: d(1) algebra_simps)
qed

lemma block_base:
  assumes "chunks_ok seg b q" and "seg \<in> {32, 64, 128}" and "bit q c"
  shows "unat b = 128 * (unat b div 128) + 32 * c div seg * seg" and "c < 4"
proof -
  obtain a where a: "tag_of a seg = b" "chunk_of a = c" using assms(1,3) by (auto simp: chunks_ok_def)
  obtain k r where k: "unat a = 128 * k + 32 * c + r" "r < 32"
    using decompose_addr [of a] a(2) by metis
  show c: "c < 4" using chunk_less [of a] a by simp
  have "unat b = unat a div seg * seg" using assms(2) a(1) tag_sizes by auto
  moreover have "unat a div seg * seg = 128 * k + 32 * c div seg * seg" and "(128 * k + 32 * c div seg * seg) div 128 = k"
    using seg_base [OF assms(2) k(2) c] k(1) by simp_all
  ultimately show "unat b = 128 * (unat b div 128) + 32 * c div seg * seg" by simp
qed

lemma reduce_half_spec:
  assumes "unat b mod 64 = 0" and "h0 \<or> h1"
  shows "\<exists>r s. reduce_half b h0 h1 = Some (r, s) \<and>
    (h0 \<and> h1 \<and> r = b \<and> s = 64 \<or> h0 \<and> \<not> h1 \<and> r = b \<and> s = 32 \<or> \<not> h0 \<and> h1 \<and> unat r = unat b + 32 \<and> s = 32)"
proof -
  have "unat b + 32 < 2 ^ 64" using u64_less [of b] assms(1) by simp presburger
  then have "unat (b + 32) = unat b + 32" by (simp add: unat_word_ariths take_bit_nat_eq_self)
  then show ?thesis using assms(2) by (auto simp: reduce_half_def)
qed


lemma member_base:
  assumes "seg \<in> {32, 64, 128}" and "s \<in> {32, 64, 128}"
  shows "unat a div s * s = 128 * (unat (tag_of a seg) div 128) + 32 * chunk_of a div s * s"
proof -
  obtain k r where k: "unat a = 128 * k + 32 * chunk_of a + r" "r < 32" using decompose_addr [of a] by metis
  have "unat (tag_of a seg) = unat a div seg * seg" using assms(1) tag_sizes by auto
  then have "unat (tag_of a seg) div 128 = k"
    using seg_base [OF assms(1) k(2) chunk_less] k(1) by simp
  then show ?thesis using seg_base(1) [OF assms(2) k(2) chunk_less] k(1) by simp
qed

lemma low_bits_zero:
  assumes "seg \<in> {32, 64, 128}" and "unat b mod seg = 0"
  shows "(b :: u64) AND ucast ((of_nat seg :: u32) - 1) = 0"
proof -
  have "unat (b AND ucast ((of_nat seg :: u32) - 1)) = 0"
    using assms unat_and_low [of b] by auto
  then show ?thesis by (simp only: unsigned_eq_0_iff)
qed

lemma mod_128_iff: "b mod 128 = 0 \<longleftrightarrow> unat b mod 128 = 0" "b mod 128 = 64 \<longleftrightarrow> unat b mod 128 = 64" for b :: u64
proof -
  have "unat (b mod 128) = unat b mod 128" by (simp add: unat_mod_distrib)
  then show "b mod 128 = 0 \<longleftrightarrow> unat b mod 128 = 0" "b mod 128 = 64 \<longleftrightarrow> unat b mod 128 = 64"
    by (simp_all add: word_unat_eq_iff)
qed

text \<open>A half of 64 bytes of which at least one chunk is used, and no chunk outside.\<close>

lemma half_result:
  assumes b: "unat b = 128 * K + 64 * p" and p: "p = 0 \<or> p = 1"
    and only: "\<And>c. bit q c \<Longrightarrow> c = 2 * p \<or> c = 2 * p + 1" and used: "bit q (2 * p) \<or> bit q (2 * p + 1)"
    and seg: "64 \<le> seg"
  shows "\<exists>r s. reduce_half b (bit q (2 * p)) (bit q (2 * p + 1)) = Some (r, s) \<and> reduced seg q r s \<and>
    (\<forall>c. bit q c \<longrightarrow> unat r = 128 * K + 32 * c div s * s)"
proof -
  let ?h0 = "bit q (2 * p)" and ?h1 = "bit q (2 * p + 1)"
  have "unat b mod 64 = 0" using b p by auto
  from reduce_half_spec [OF this used] obtain r s where rs: "reduce_half b ?h0 ?h1 = Some (r, s)"
    and c: "?h0 \<and> ?h1 \<and> r = b \<and> s = 64 \<or> ?h0 \<and> \<not> ?h1 \<and> r = b \<and> s = 32 \<or>
      \<not> ?h0 \<and> ?h1 \<and> unat r = unat b + 32 \<and> s = 32"
    by blast
  have m: "(128 * K + 64 * p) mod 128 = 64 * p" "(128 * K + 64 * p) mod 32 = 0" "(128 * K + 64 * p) mod 64 = 0"
    "(128 * K + 64 * p + 32) mod 32 = 0"
    using p by auto
  have "reduced seg q r s"
  proof -
    have "half_used q (64 * p) (64 * p + 32)" if ?h0
      using that p unfolding half_used_def by (intro exI [of _ "2 * p"]) auto
    moreover have "half_used q (64 * p + 32) (64 * p + 64)" if ?h1
      using that p unfolding half_used_def by (intro exI [of _ "2 * p + 1"]) auto
    ultimately show ?thesis using c b m seg by (auto simp: reduced_def)
  qed
  moreover have "unat r = 128 * K + 32 * c div s * s" if "bit q c" for c
  proof -
    have "32 * (2 * p + 1) div 64 = p" "32 * (2 * p) div 64 = p" using p by auto
    then show ?thesis using only [OF that] that c b by auto
  qed
  ultimately show ?thesis using rs by blast
qed

lemma reduce_segment_cases:
  assumes "chunks_ok seg b q" and seg: "seg \<in> {32, 64, 128}"
  shows "\<exists>r s. reduce_segment b seg q = Some (r, s) \<and> reduced seg q r s \<and>
    (\<forall>c. bit q c \<longrightarrow> unat r = 128 * (unat b div 128) + 32 * c div s * s)"
proof -
  define K where "K = unat b div 128"
  have q: "bit q 0 \<or> bit q 1 \<or> bit q 2 \<or> bit q 3" using assms(1) by (simp add: chunks_ok_def q_nonzero)
  have base: "bit q c \<Longrightarrow> unat b = 128 * K + 32 * c div seg * seg" for c
    using block_base(1) [OF assms] unfolding K_def .
  have c4: "bit q c \<Longrightarrow> c = 0 \<or> c = 1 \<or> c = 2 \<or> c = 3" for c using block_base(2) [OF assms, of c] by auto
  from assms(1) obtain c where c: "bit q c" using q by blast
  then obtain a where "tag_of a seg = b" using assms(1) by (auto simp: chunks_ok_def)
  then have "unat b mod seg = 0" using seg tag_sizes [of a] by auto
  then have g: "guard (b AND ucast ((of_nat seg :: u32) - 1) = 0) = Some ()" "guard (1 \<le> bcount q) = Some ()"
    using low_bits_zero [OF seg] bcount_pos_iff [of q] assms(1) by (auto simp: chunks_ok_def guard_def)
  consider "seg = 32" | "seg = 64" | "seg = 128" using seg by auto
  then have "\<exists>r s. reduce_segment b seg q = Some (r, s) \<and> reduced seg q r s \<and>
      (\<forall>c. bit q c \<longrightarrow> unat r = 128 * K + 32 * c div s * s)" (is ?goal)
  proof cases
    case 1
    then have "reduce_segment b seg q = Some (b, 32)" using g by (simp add: reduce_segment_def)
    moreover have "reduced seg q b 32" using 1 \<open>unat b mod seg = 0\<close> by (simp add: reduced_def)
    ultimately show ?goal
      using base 1 by blast
  next
    case 2
    have red: "reduce_segment b seg q =
        (if unat b mod 128 = 0 then reduce_half b (bit q 0) (bit q 1)
         else do { guard (unat b mod 128 = 64); reduce_half b (bit q 2) (bit q 3) })"
      using g 2 by (simp add: reduce_segment_def mod_128_iff)
    show ?goal
    proof (cases "bit q 0 \<or> bit q 1")
      case True
      then have b: "unat b = 128 * K" using base [of 0] base [of 1] 2 by auto
      have "c = 0 \<or> c = 1" if "bit q c" for c using c4 [OF that] base [OF that] b 2 by auto
      then show ?goal using half_result [of b K 0 q seg] b True 2 red by auto
    next
      case False
      then have "bit q 2 \<or> bit q 3" using q by blast
      then have b: "unat b = 128 * K + 64" using base [of 2] base [of 3] 2 by auto
      have "c = 2 \<or> c = 3" if "bit q c" for c using c4 [OF that] base [OF that] b 2 by auto
      then show ?goal using half_result [of b K 1 q seg] b \<open>bit q 2 \<or> bit q 3\<close> 2 red by (auto simp: guard_def)
    qed
  next
    case 3
    let ?lo = "bit q 0 \<or> bit q 1" and ?hi = "bit q 2 \<or> bit q 3"
    have b: "unat b = 128 * K" using base [OF c] c4 [OF c] 3 by auto
    then have b64: "unat (b + 64) = 128 * K + 64" using unat_add_small [of b 64] by simp
    consider "?lo" "\<not> ?hi" | "\<not> ?lo" "?hi" | "?lo" "?hi" using q by blast
    then show ?goal
    proof cases
      case a: 1
      have "c = 0 \<or> c = 1" if "bit q c" for c using c4 [OF that] a that by auto
      then show ?goal using half_result [of b K 0 q seg] a b 3 g by (auto simp: reduce_segment_def)
    next
      case a: 2
      have "c = 2 \<or> c = 3" if "bit q c" for c using c4 [OF that] a that by auto
      then show ?goal using half_result [of "b + 64" K 1 q seg] a b64 3 g by (auto simp: reduce_segment_def)
    next
      case a: 3
      have "reduce_segment b seg q = Some (b, 128)" using a g 3 by (simp add: reduce_segment_def guard_def)
      moreover have "half_used q 0 64" using a(1) by (auto intro: half_usedI [of q 0] half_usedI [of q 1])
      moreover have "half_used q 64 128" using a(2) by (auto intro: half_usedI [of q 2] half_usedI [of q 3])
      then have "reduced seg q b 128" using \<open>half_used q 0 64\<close> b 3 by (simp add: reduced_def)
      moreover have "unat b = 128 * K + 32 * c div 128 * 128" if "bit q c" for c
        using c4 [OF that] b by auto
      ultimately show ?goal by blast
    qed
  qed
  then show ?thesis unfolding K_def .
qed

lemma reduce_segment_spec:
  assumes "chunks_ok seg b q" and "seg \<in> {32, 64, 128}"
  shows "\<exists>r s. reduce_segment b seg q = Some (r, s) \<and> reduced seg q r s \<and>
    (\<forall>a. tag_of a seg = b \<and> bit q (chunk_of a) \<longrightarrow> unat r = unat a div s * s)"
proof -
  obtain r s where rs: "reduce_segment b seg q = Some (r, s)" "reduced seg q r s"
    "\<forall>c. bit q c \<longrightarrow> unat r = 128 * (unat b div 128) + 32 * c div s * s"
    using reduce_segment_cases [OF assms] by blast
  have "s \<in> {32, 64, 128}" using rs(2) by (simp add: reduced_def)
  then have "unat r = unat a div s * s" if "tag_of a seg = b" "bit q (chunk_of a)" for a
    using rs(3) that member_base [OF assms(2), of s a] by simp
  with rs(1,2) show ?thesis by blast
qed

section \<open>The transactions of a subwarp\<close>

text \<open>
  What the map of transactions holds after the pairs \<open>xs\<close> of a thread and an address: every
  address is recorded in the transaction of its segment, and nothing else is.
\<close>

definition ends :: "nat \<Rightarrow> u64 \<Rightarrow> u64 set" where
  "ends n a = {a, a + of_nat n - 1}"

definition reaches :: "nat \<Rightarrow> nat \<Rightarrow> u64 \<Rightarrow> u64 \<Rightarrow> bool" where
  "reaches seg n b a \<longleftrightarrow> (\<exists>e \<in> ends n a. tag_of e seg = b)"

definition chunks_from :: "nat \<Rightarrow> nat \<Rightarrow> (nat \<times> u64) set \<Rightarrow> u64 \<Rightarrow> sector_mask \<Rightarrow> bool" where
  "chunks_from seg n xs b q \<longleftrightarrow>
     (\<forall>c. bit q c \<longrightarrow> (\<exists>(t, a) \<in> xs. \<exists>e \<in> ends n a. tag_of e seg = b \<and> chunk_of e = c))"

definition entry_sound :: "nat \<Rightarrow> nat \<Rightarrow> (nat \<times> u64) set \<Rightarrow> u64 \<Rightarrow> transaction_info \<Rightarrow> bool" where
  "entry_sound seg n xs b i \<longleftrightarrow> ti_chunks i \<noteq> 0 \<and> chunks_from seg n xs b (ti_chunks i) \<and> ti_active i \<noteq> 0 \<and>
     (\<forall>t. bit (ti_active i) t \<longrightarrow> (\<exists>a. (t, a) \<in> xs \<and> reaches seg n b a))"

definition entry_has :: "nat \<Rightarrow> nat \<Rightarrow> u64 \<Rightarrow> transaction_info \<Rightarrow> bool" where
  "entry_has n t a i \<longleftrightarrow> bit (ti_chunks i) (chunk_of a) \<and> bit (ti_active i) t \<and>
     (\<forall>j. byte_of a \<le> j \<and> j < byte_of a + n \<and> j < 128 \<longrightarrow> bit (ti_bytes i) j)"

definition recorded :: "nat \<Rightarrow> nat \<Rightarrow> (nat \<times> u64) set \<Rightarrow> (u64 \<times> transaction_info) list \<Rightarrow> bool" where
  "recorded seg n xs m \<longleftrightarrow> std_map m \<and>
     (\<forall>b i. map_of m b = Some i \<longrightarrow> entry_sound seg n xs b i) \<and>
     (\<forall>(t, a) \<in> xs. \<exists>i. map_of m (tag_of a seg) = Some i \<and> entry_has n t a i)"

lemma entry_sound_mono: "entry_sound seg n xs b i \<Longrightarrow> xs \<subseteq> ys \<Longrightarrow> entry_sound seg n ys b i"
  unfolding entry_sound_def chunks_from_def by blast

lemma chunks_from_ok: "q \<noteq> 0 \<Longrightarrow> chunks_from seg n xs b q \<Longrightarrow> chunks_ok seg b q"
  unfolding chunks_from_def chunks_ok_def by blast

lemma add_lane_sound:
  assumes "i = transaction_info_new \<or> entry_sound seg n xs b i" and "t < 32" and "(t, a) \<in> ys" and "xs \<subseteq> ys"
    and "a' \<in> ends n a" and "tag_of a' seg = b"
  shows "entry_sound seg n ys b (add_lane a' n t i)"
proof -
  have "bit (ti_active (add_lane a' n t i)) t" using assms(2) by simp
  then have "ti_active (add_lane a' n t i) \<noteq> 0" by (metis bit_0_eq bot_apply bot_bool_def)
  moreover have "chunks_from seg n ys b (ti_chunks (add_lane a' n t i))"
    using assms(1,3-6) unfolding entry_sound_def chunks_from_def by (auto; blast)
  moreover have "\<exists>a. (u, a) \<in> ys \<and> reaches seg n b a" if "bit (ti_active (add_lane a' n t i)) u" for u
    using assms(1,3-6) that unfolding entry_sound_def reaches_def by (auto; blast)
  ultimately show ?thesis using add_lane_nonzero [of a' n t i] by (simp add: entry_sound_def)
qed

lemma entry_has_add: "entry_has n t a i \<Longrightarrow> entry_has n t a (add_lane a' n' t' i)"
  by (auto simp: entry_has_def)

lemma entry_has_new: "t < 32 \<Longrightarrow> entry_has n t a (add_lane a n t i)"
  by (auto simp: entry_has_def)

text \<open>One assignment to the map.\<close>

lemma recorded_add:
  assumes m: "recorded seg n xs m" and "t < 32" and "a' \<in> ends n a"
  defines "m' \<equiv> map_at (tag_of a' seg) (add_lane a' n t) transaction_info_new m"
  shows "std_map m'" and "\<forall>b i. map_of m' b = Some i \<longrightarrow> entry_sound seg n (insert (t, a) xs) b i"
    and "\<forall>(t, a) \<in> xs. \<exists>i. map_of m' (tag_of a seg) = Some i \<and> entry_has n t a i"
    and "\<exists>i. map_of m' (tag_of a' seg) = Some i \<and> entry_has n t a' i"
proof -
  let ?b = "tag_of a' seg" and ?v = "value_at m (tag_of a' seg) transaction_info_new"
  have s: "std_map m" and snd: "\<And>b i. map_of m b = Some i \<Longrightarrow> entry_sound seg n xs b i"
    and has: "\<And>t a. (t, a) \<in> xs \<Longrightarrow> \<exists>i. map_of m (tag_of a seg) = Some i \<and> entry_has n t a i"
    using m by (auto simp: recorded_def)
  show "std_map m'" using s by (simp add: m'_def)
  have mo: "map_of m' = (map_of m)(?b \<mapsto> add_lane a' n t ?v)" using s by (simp add: m'_def map_of_map_at)
  have v: "?v = transaction_info_new \<or> entry_sound seg n xs ?b ?v"
    using snd by (auto simp: value_at_def split: option.splits)
  show "\<forall>b i. map_of m' b = Some i \<longrightarrow> entry_sound seg n (insert (t, a) xs) b i"
    using add_lane_sound [OF v assms(2) insertI1 subset_insertI assms(3) refl] snd
    by (auto simp: mo intro: entry_sound_mono)
  show "\<forall>(t, a) \<in> xs. \<exists>i. map_of m' (tag_of a seg) = Some i \<and> entry_has n t a i"
    using has entry_has_add by (fastforce simp: mo value_at_def)
  show "\<exists>i. map_of m' ?b = Some i \<and> entry_has n t a' i"
    using assms(2) by (simp add: mo entry_has_new)
qed

lemma recorded_step:
  assumes m: "recorded seg n xs m" and t: "t < 32"
  shows "recorded seg n (insert (t, a) xs) (coalesce_access seg n t m a)"
proof -
  let ?m = "map_at (tag_of a seg) (add_lane a n t) transaction_info_new m"
  let ?l = "a + of_nat n - 1"
  have r: "a \<in> ends n a" "?l \<in> ends n a" by (simp_all add: ends_def)
  have 1: "recorded seg n (insert (t, a) xs) ?m"
    using recorded_add [OF m t r(1)] unfolding recorded_def by blast
  show ?thesis
    using 1 recorded_add(1,2,3) [OF 1 t r(2)]
    by (auto simp: coalesce_access_def Let_def recorded_def)
qed

lemma recorded_fold:
  "recorded seg n xs m \<Longrightarrow> t < 32 \<Longrightarrow>
    recorded seg n (xs \<union> Pair t ` set as) (foldl (coalesce_access seg n t) m as)"
proof (induction as arbitrary: xs m)
  case (Cons a as)
  have "insert (t, a) xs \<union> Pair t ` set as = xs \<union> Pair t ` set (a # as)" by auto
  with Cons.IH [OF recorded_step [OF Cons.prems, of a] Cons.prems(2)] show ?case
    by (simp only: foldl_Cons)
qed simp

definition lane_pairs :: "warp_inst \<Rightarrow> nat list \<Rightarrow> (nat \<times> u64) set" where
  "lane_pairs w ts = {(t, a). t \<in> set ts \<and> a \<in> set (lane_addrs w t)}"

lemma recorded_threads:
  assumes "num_accesses w \<le> MAX_ACCESSES_PER_INSN_PER_THREAD"
  shows "recorded (segment_size c w) (data_size_coales w) xs m \<Longrightarrow> \<forall>t \<in> set ts. t < 32 \<Longrightarrow>
    \<exists>m'. fold_opt (coalesce_thread c w) ts m = Some m' \<and>
      recorded (segment_size c w) (data_size_coales w) (xs \<union> lane_pairs w ts) m'"
proof (induction ts arbitrary: xs m)
  case (Cons t ts)
  let ?m = "foldl (coalesce_access (segment_size c w) (data_size_coales w) t) m (lane_addrs w t)"
  have "coalesce_thread c w t m = Some ?m" using assms by (simp add: coalesce_thread_def guard_def)
  moreover have r: "recorded (segment_size c w) (data_size_coales w) (xs \<union> Pair t ` set (lane_addrs w t)) ?m"
    using Cons.prems by (intro recorded_fold) simp_all
  moreover have "xs \<union> Pair t ` set (lane_addrs w t) \<union> lane_pairs w ts = xs \<union> lane_pairs w (t # ts)"
    by (auto simp: lane_pairs_def)
  ultimately show ?case using Cons.IH [OF r] Cons.prems(2) by simp
qed (simp add: lane_pairs_def)

section \<open>Sending\<close>

definition sent_as :: "bool \<Rightarrow> mem_access_type \<Rightarrow> nat \<Rightarrow> u64 \<times> transaction_info \<Rightarrow> mem_access \<Rightarrow> bool" where
  "sent_as wr ty seg e acc \<longleftrightarrow> reduce_segment (fst e) seg (ti_chunks (snd e)) = Some (acc_addr acc, acc_req_size acc) \<and>
     acc_write acc = wr \<and> acc_type acc = ty \<and> acc_warp_mask acc = ti_active (snd e) \<and>
     acc_byte_mask acc = ti_bytes (snd e) \<and> acc_sector_mask acc = ti_chunks (snd e)"

lemma reduce_and_send_all:
  "\<forall>e \<in> set m. reduce_segment (fst e) seg (ti_chunks (snd e)) \<noteq> None \<Longrightarrow>
    \<exists>accs. fold_opt (reduce_and_send wr ty seg) m (q, uid) = Some (q @ accs, uid + length m) \<and>
      list_all2 (sent_as wr ty seg) m accs"
proof (induction m arbitrary: q uid)
  case (Cons e m)
  obtain r s where rs: "reduce_segment (fst e) seg (ti_chunks (snd e)) = Some (r, s)" using Cons.prems by force
  let ?acc = "fst (mem_access_new uid ty r s wr (ti_active (snd e)) (ti_bytes (snd e)) (ti_chunks (snd e)))"
  obtain accs where "fold_opt (reduce_and_send wr ty seg) m (q @ [?acc], Suc uid) =
      Some ((q @ [?acc]) @ accs, Suc uid + length m)" "list_all2 (sent_as wr ty seg) m accs"
    using Cons.IH [of "q @ [?acc]" "Suc uid"] Cons.prems by auto
  moreover have "reduce_and_send wr ty seg e (q, uid) = Some (q @ [?acc], Suc uid)"
    using rs by (cases e) (simp add: reduce_and_send_def mem_access_new_def)
  moreover have "sent_as wr ty seg e ?acc" using rs by (simp add: sent_as_def mem_access_new_def)
  ultimately show ?case by (intro exI [of _ "?acc # accs"]) simp
qed simp

text \<open>What the accesses of a set of lanes must satisfy.\<close>

definition acc_sound :: "nat \<Rightarrow> nat \<Rightarrow> (nat \<times> u64) set \<Rightarrow> mem_access \<Rightarrow> bool" where
  "acc_sound seg n xs acc \<longleftrightarrow> reduced seg (acc_sector_mask acc) (acc_addr acc) (acc_req_size acc) \<and>
     chunks_from seg n xs (tag_of (acc_addr acc) seg) (acc_sector_mask acc) \<and> acc_warp_mask acc \<noteq> 0 \<and>
     (\<forall>t. bit (acc_warp_mask acc) t \<longrightarrow> (\<exists>a. (t, a) \<in> xs \<and> reaches seg n (tag_of (acc_addr acc) seg) a))"

definition acc_has :: "nat \<Rightarrow> nat \<Rightarrow> u64 \<Rightarrow> mem_access \<Rightarrow> bool" where
  "acc_has n t a acc \<longleftrightarrow> bit (acc_warp_mask acc) t \<and>
     unat (acc_addr acc) = unat a div acc_req_size acc * acc_req_size acc \<and>
     (\<forall>j. byte_of a \<le> j \<and> j < byte_of a + n \<and> j < 128 \<longrightarrow> bit (acc_byte_mask acc) j)"

lemma reduced_block:
  assumes "reduced seg q r s" and "unat r = unat a div s * s" and seg: "seg \<in> {32, 64, 128}"
  shows "tag_of r seg = tag_of a seg"
proof -
  have s: "s \<in> {32, 64, 128}" "s \<le> seg" using assms(1) by (auto simp: reduced_def)
  then obtain d where d: "seg = s * d" using seg by auto
  have "unat r div s = unat a div s" using assms(2) s by auto
  then have "unat r div seg = unat a div seg" by (simp add: d div_mult2_eq)
  then show ?thesis unfolding tag_eq_iff using seg tag_sizes by auto
qed

text \<open>A list of accesses serves the lanes \<open>xs\<close>, and only them.\<close>

definition serves :: "nat \<Rightarrow> nat \<Rightarrow> (nat \<times> u64) set \<Rightarrow> mem_access list \<Rightarrow> bool" where
  "serves seg n xs accs \<longleftrightarrow> (\<forall>acc \<in> set accs. acc_sound seg n xs acc) \<and>
     (\<forall>(t, a) \<in> xs. \<exists>acc \<in> set accs. acc_has n t a acc)"

lemma serves_append: "serves seg n xs p \<Longrightarrow> serves seg n ys q \<Longrightarrow> serves seg n (xs \<union> ys) (p @ q)"
  unfolding serves_def acc_sound_def chunks_from_def by (auto; blast)

lemma entry_sent:
  assumes "entry_sound seg n xs b i" and "sent_as wr ty seg (b, i) acc" and seg: "seg \<in> {32, 64, 128}"
  shows "acc_sound seg n xs acc" and "tag_of a seg = b \<Longrightarrow> entry_has n t a i \<Longrightarrow> acc_has n t a acc"
proof -
  have ok: "chunks_ok seg b (ti_chunks i)" using assms(1) by (auto simp: entry_sound_def intro: chunks_from_ok)
  have red: "reduced seg (ti_chunks i) (acc_addr acc) (acc_req_size acc)"
    and at: "\<And>a. tag_of a seg = b \<Longrightarrow> bit (ti_chunks i) (chunk_of a) \<Longrightarrow>
      unat (acc_addr acc) = unat a div acc_req_size acc * acc_req_size acc"
    using reduce_segment_spec [OF ok seg] assms(2) by (auto simp: sent_as_def)
  obtain a0 where a0: "tag_of a0 seg = b" "bit (ti_chunks i) (chunk_of a0)"
    using ok q_nonzero [of "ti_chunks i"] unfolding chunks_ok_def by metis
  have "tag_of (acc_addr acc) seg = b" using reduced_block [OF red at [OF a0] seg] a0(1) by simp
  then show "acc_sound seg n xs acc"
    using assms(1,2) red by (simp add: acc_sound_def entry_sound_def sent_as_def)
  show "tag_of a seg = b \<Longrightarrow> entry_has n t a i \<Longrightarrow> acc_has n t a acc"
    using at assms(2) by (simp add: acc_has_def entry_has_def sent_as_def)
qed

lemma recorded_serves:
  assumes m: "recorded seg n xs m" and seg: "seg \<in> {32, 64, 128}"
  shows "\<exists>accs. fold_opt (reduce_and_send wr ty seg) m (q, uid) = Some (q @ accs, uid + length accs) \<and> serves seg n xs accs"
proof -
  have std: "std_map m" and lanes: "\<And>t a. (t, a) \<in> xs \<Longrightarrow> \<exists>i. map_of m (tag_of a seg) = Some i \<and> entry_has n t a i"
    using m by (auto simp: recorded_def)
  have snd: "entry_sound seg n xs (fst e) (snd e)" if "e \<in> set m" for e
    using m that std_map_mem [OF std, of "fst e" "snd e"] by (simp add: recorded_def)
  have "reduce_segment (fst e) seg (ti_chunks (snd e)) \<noteq> None" if "e \<in> set m" for e
    using snd [OF that] reduce_segment_spec [OF chunks_from_ok seg] unfolding entry_sound_def by fastforce
  then obtain accs where accs: "fold_opt (reduce_and_send wr ty seg) m (q, uid) = Some (q @ accs, uid + length m)"
    "list_all2 (sent_as wr ty seg) m accs"
    using reduce_and_send_all by blast
  have len: "length m = length accs" using accs(2) by (rule list_all2_lengthD)
  have pair: "entry_sound seg n xs (fst (m ! k)) (snd (m ! k))" "sent_as wr ty seg (fst (m ! k), snd (m ! k)) (accs ! k)"
    if "k < length accs" for k
    using snd that len list_all2_nthD [OF accs(2)] by simp_all
  have "\<exists>acc \<in> set accs. acc_has n t a acc" if ta: "(t, a) \<in> xs" for t a
  proof -
    obtain i where i: "map_of m (tag_of a seg) = Some i" "entry_has n t a i"
      using lanes [OF ta] by blast
    then obtain k where k: "k < length accs" "m ! k = (tag_of a seg, i)"
      using std_map_mem [OF std] len by (metis in_set_conv_nth)
    then show ?thesis using entry_sent(2) [OF pair [OF k(1)] seg] i(2) by force
  qed
  moreover have "acc_sound seg n xs acc" if "acc \<in> set accs" for acc
    using that entry_sent(1) [OF pair seg] by (metis in_set_conv_nth)
  ultimately show ?thesis using accs(1) len by (auto simp: serves_def)
qed

text \<open>A warp whose global or local access the coalescer handles.\<close>

definition coalescable :: "core_config \<Rightarrow> warp_inst \<Rightarrow> bool" where
  "coalescable c w \<longleftrightarrow> generates w \<and> w_threads_valid w \<and> 13 \<le> gpgpu_coalesce_arch c \<and>
     i_space w \<in> {global_space, local_space, param_space_local} \<and>
     0 < mem_warp_parts c \<and> mem_warp_parts c dvd warp_size c \<and> w_data_size w \<in> {1, 2, 4, 8, 16}"

definition active_threads :: "core_config \<Rightarrow> warp_inst \<Rightarrow> nat list" where
  "active_threads c w = filter (bit (w_active w)) [0..<warp_size c]"

lemma coalescable_sizes:
  assumes "coalescable c w"
  shows "segment_size c w \<in> {32, 64, 128}" and "data_size_coales w \<in> {1, 2, 4, 8, 16}"
    and "num_accesses w \<le> MAX_ACCESSES_PER_INSN_PER_THREAD"
  using assms by (auto simp: coalescable_def segment_size_def data_size_coales_def num_accesses_def
      MAX_ACCESSES_PER_INSN_PER_THREAD_def)

lemma all_subwarps:
  assumes "0 < p" and "p dvd n"
  shows "(\<Union>s < p. {s * (n div p)..<(s + 1) * (n div p)}) = {0..<n :: nat}"
proof -
  have "(\<Union>s < k. {s * d..<(s + 1) * d}) = {0..<k * d}" for k d :: nat
    by (induction k) (auto simp: lessThan_Suc)
  then show ?thesis using assms by simp
qed

lemma subwarp_union:
  assumes "0 < mem_warp_parts c" and "mem_warp_parts c dvd warp_size c"
  shows "(\<Union>s \<in> set [0..<mem_warp_parts c]. set (subwarp_threads c w s)) = set (active_threads c w)"
proof -
  have "(\<Union>s < mem_warp_parts c. set (subwarp_threads c w s)) =
      (\<Union>s < mem_warp_parts c. {s * (warp_size c div mem_warp_parts c)..<(s + 1) * (warp_size c div mem_warp_parts c)})
        \<inter> {t. bit (w_active w) t}"
    by (auto simp: subwarp_threads_def Let_def)
  also have "\<dots> = set (active_threads c w)"
    unfolding all_subwarps [OF assms] by (auto simp: active_threads_def)
  finally show ?thesis by (simp add: lessThan_atLeast0)
qed

lemma active_below: "t \<in> set (subwarp_threads c w s) \<Longrightarrow> t < 32"
  by (auto simp: subwarp_threads_def Let_def dest: bit_imp_le_length)

text \<open>A loop over the subwarps, each of which appends accesses to the queue.\<close>

lemma fold_appends:
  assumes "\<And>x q uid. x \<in> set xs \<Longrightarrow> \<exists>p. f x (q, uid) = Some (q @ p, uid + length p) \<and> P x p"
  shows "\<exists>ps. fold_opt f xs (q, uid) = Some (q @ concat ps, uid + length (concat ps)) \<and> list_all2 P xs ps"
  using assms
proof (induction xs arbitrary: q uid)
  case (Cons x xs)
  obtain p where p: "f x (q, uid) = Some (q @ p, uid + length p)" "P x p" using Cons.prems [of x] by auto
  with Cons.IH [of "q @ p" "uid + length p"] Cons.prems obtain ps where
    "fold_opt f xs (q @ p, uid + length p) = Some (q @ p @ concat ps, uid + length p + length (concat ps))"
    "list_all2 P xs ps" by auto
  with p show ?case by (intro exI [of _ "p # ps"]) simp
qed simp

lemma serves_concat:
  "list_all2 (\<lambda>x p. serves seg n (L x) p) xs ps \<Longrightarrow> serves seg n (\<Union>x \<in> set xs. L x) (concat ps)"
proof (induction rule: list_all2_induct)
  case Nil
  show ?case by (simp add: serves_def)
next
  case (Cons x xs p ps)
  then show ?case using serves_append [of seg n "L x" p] by simp
qed

lemma subwarp_serves:
  assumes w: "coalescable c w"
  shows "\<exists>p. coalesce_subwarp c w wr ty s (q, uid) = Some (q @ p, uid + length p) \<and>
    serves (segment_size c w) (data_size_coales w) (lane_pairs w (subwarp_threads c w s)) p"
proof -
  let ?seg = "segment_size c w" and ?n = "data_size_coales w" and ?ts = "subwarp_threads c w s"
  have "recorded ?seg ?n {} []" by (simp add: recorded_def)
  then obtain m where m: "fold_opt (coalesce_thread c w) ?ts [] = Some m" "recorded ?seg ?n (lane_pairs w ?ts) m"
    using recorded_threads [OF coalescable_sizes(3) [OF w], of c "{}" "[]" ?ts] active_below by auto
  then show ?thesis using recorded_serves [OF m(2) coalescable_sizes(1) [OF w], of wr ty q uid]
    by (simp add: coalesce_subwarp_def)
qed

lemma coalesce_serves:
  assumes w: "coalescable c w" and "\<not> w_isatomic w"
  shows "\<exists>w' accs. generate_mem_accesses c w uid = Some (w', uid + length accs) \<and>
    w' = w\<lparr>w_accessq := w_accessq w @ accs, w_created := True\<rparr> \<and>
    serves (segment_size c w) (data_size_coales w) (lane_pairs w (active_threads c w)) accs"
proof -
  let ?wr = "is_store (inst_t.truncate w)"
  have g: "generates w" and sp: "i_space w \<in> {global_space, local_space, param_space_local}"
    using w by (simp_all add: coalescable_def)
  then obtain ty where ty: "access_type_of (i_space w) ?wr = Some (Some ty)"
    by (auto simp: access_type_of_def)
  have "(\<Union>s \<in> set ss. lane_pairs w (subwarp_threads c w s)) = lane_pairs w ts"
    if "(\<Union>s \<in> set ss. set (subwarp_threads c w s)) = set ts" for ss ts
    using that by (auto simp: lane_pairs_def)
  note lanes = this [OF subwarp_union]
  obtain ps where "fold_opt (coalesce_subwarp c w ?wr ty) [0..<mem_warp_parts c] (w_accessq w, uid) =
      Some (w_accessq w @ concat ps, uid + length (concat ps))"
    "list_all2 (\<lambda>s p. serves (segment_size c w) (data_size_coales w) (lane_pairs w (subwarp_threads c w s)) p)
      [0..<mem_warp_parts c] ps"
    using fold_appends [where f = "coalesce_subwarp c w ?wr ty", OF subwarp_serves [OF w]] by blast
  with serves_concat [OF this(2)] lanes obtain accs where "memory_coalescing_arch c w ?wr ty (w_accessq w, uid) = Some (w_accessq w @ accs, uid + length accs)"
    "serves (segment_size c w) (data_size_coales w) (lane_pairs w (active_threads c w)) accs"
    using w by (auto simp: memory_coalescing_arch_def coalescable_def)
  moreover have "is_load (inst_t.truncate w) \<or> ?wr"
    using g by (auto simp: generates_def is_load_def is_store_def inst_t.defs)
  ultimately show ?thesis using g w assms(2) ty sp
    by (auto simp: generate_mem_accesses_def dram_accesses_def coalescable_def guard_def)
qed

section \<open>What a global or local access generates\<close>

lemma aligned_in_chunk:
  assumes "n \<in> {1, 2, 4, 8, 16}" and "unat a mod n = 0" and "s \<in> {32, 64, 128 :: nat}"
  shows "unat a + n \<le> unat a div s * s + s" and "byte_of a + n \<le> 128"
proof -
  have "unat a mod s + n \<le> s" if "s \<in> {32, 64, 128}" for s
  proof -
    have "n dvd s" "0 < s" using that assms(1) by auto
    then obtain k where k: "s = n * k" "0 < k" by auto
    have "unat a mod s mod n = 0" using assms(2) mod_mod_cancel [OF \<open>n dvd s\<close>] by simp
    then obtain j where j: "unat a mod s = n * j" by auto
    have "unat a mod s < s" using that by auto
    then have "j < k" using j k by simp
    then have "n * j + n \<le> n * k" by (metis Suc_leI mult_Suc_right mult_le_mono2 add.commute)
    then show ?thesis using j k by simp
  qed
  note fits = this [OF assms(3)] this [of 128]
  show "byte_of a + n \<le> 128" using fits by (simp add: byte_of_mod)
  have "unat a = unat a div s * s + unat a mod s" by simp
  then show "unat a + n \<le> unat a div s * s + s" using fits(1) by linarith
qed

text \<open>
  C37: the coalescer serves every thread. For a non-atomic access to global or local memory whose
  addresses are aligned to the access size, \<^verbatim>\<open>generate_mem_accesses\<close> does not abort, and for every
  active thread and each of its addresses one of the new accesses names the thread, contains all
  the bytes of the address and has their byte-mask bits set.
\<close>

theorem coalesce_covers:
  assumes "coalescable c w" and "\<not> w_isatomic w"
    and "\<forall>t \<in> set (active_threads c w). \<forall>a \<in> set (lane_addrs w t). unat a mod data_size_coales w = 0"
  shows "\<exists>w' accs. generate_mem_accesses c w uid = Some (w', uid + length accs) \<and>
    w_accessq w' = w_accessq w @ accs \<and>
    (\<forall>t \<in> set (active_threads c w). \<forall>a \<in> set (lane_addrs w t). \<exists>acc \<in> set accs.
       bit (acc_warp_mask acc) t \<and> unat (acc_addr acc) \<le> unat a \<and>
       unat a + data_size_coales w \<le> unat (acc_addr acc) + acc_req_size acc \<and>
       (\<forall>j < data_size_coales w. bit (acc_byte_mask acc) (byte_of a + j)))"
proof -
  let ?n = "data_size_coales w"
  obtain w' accs where g: "generate_mem_accesses c w uid = Some (w', uid + length accs)"
    "w_accessq w' = w_accessq w @ accs"
    and sv: "serves (segment_size c w) ?n (lane_pairs w (active_threads c w)) accs"
    using coalesce_serves [OF assms(1,2), of uid] by auto
  have "\<exists>acc \<in> set accs. bit (acc_warp_mask acc) t \<and> unat (acc_addr acc) \<le> unat a \<and>
      unat a + ?n \<le> unat (acc_addr acc) + acc_req_size acc \<and> (\<forall>j < ?n. bit (acc_byte_mask acc) (byte_of a + j))"
    if ta: "t \<in> set (active_threads c w)" "a \<in> set (lane_addrs w t)" for t a
  proof -
    obtain acc where acc: "acc \<in> set accs" "acc_has ?n t a acc"
      using sv ta unfolding serves_def lane_pairs_def by blast
    have "acc_req_size acc \<in> {32, 64, 128}"
      using sv acc(1) by (auto simp: serves_def acc_sound_def reduced_def)
    note fits = aligned_in_chunk [OF coalescable_sizes(2) [OF assms(1)] _ this, of a]
    have "unat a mod ?n = 0" using assms(3) ta by blast
    note fits [OF this]
    then show ?thesis using acc by (intro bexI [of _ acc]) (auto simp: acc_has_def)
  qed
  with g show ?thesis by blast
qed

text \<open>
  C38: no transaction is larger than needed. Every access generated for a non-atomic instruction on global or local
  memory (or local parameters) has 32, 64 or 128 bytes, is
  aligned to its size, does not exceed the segment, has a used chunk in each half when it is
  larger than a chunk, each used chunk holds the first or the last byte of an active thread's
  address, and its mask is the non-empty set of active threads that reach its segment.
\<close>

theorem coalesce_minimal:
  assumes "coalescable c w" and "\<not> w_isatomic w" and "generate_mem_accesses c w uid = Some (w', uid')"
    and "acc \<in> set (drop (length (w_accessq w)) (w_accessq w'))"
  shows "reduced (segment_size c w) (acc_sector_mask acc) (acc_addr acc) (acc_req_size acc) \<and>
    chunks_from (segment_size c w) (data_size_coales w) (lane_pairs w (active_threads c w))
      (line_size_based_tag_func (acc_addr acc) (segment_size c w)) (acc_sector_mask acc) \<and>
    acc_warp_mask acc \<noteq> 0 \<and>
    (\<forall>t. bit (acc_warp_mask acc) t \<longrightarrow> t \<in> set (active_threads c w) \<and> (\<exists>a \<in> set (lane_addrs w t).
       reaches (segment_size c w) (data_size_coales w) (line_size_based_tag_func (acc_addr acc) (segment_size c w)) a))"
proof -
  obtain accs where "w_accessq w' = w_accessq w @ accs"
    and sv: "serves (segment_size c w) (data_size_coales w) (lane_pairs w (active_threads c w)) accs"
    using coalesce_serves [OF assms(1,2), of uid] assms(3) by auto
  then have "acc \<in> set accs" using assms(4) by simp
  with sv show ?thesis unfolding serves_def acc_sound_def lane_pairs_def by blast
qed

lemma aligned_same_segment:
  assumes n: "n \<in> {1, 2, 4, 8, 16}" and "unat a mod n = 0" and seg: "seg \<in> {32, 64, 128}"
  shows "tag_of a seg = tag_of (a + of_nat n - 1) seg"
proof -
  have 1: "unat a + n \<le> unat a div seg * seg + seg" by (rule aligned_in_chunk(1) [OF assms])
  have "unat a div seg * seg + seg \<le> 2 ^ 64"
  proof -
    have "seg dvd 2 ^ 64" using seg by auto
    then obtain k where k: "2 ^ 64 = seg * k" by (auto simp: dvd_def)
    have "0 < seg" using seg by auto
    then have "unat a div seg < k" using u64_less [of a] k by (simp add: less_mult_imp_div_less mult.commute)
    then have "(unat a div seg + 1) * seg \<le> k * seg" by (intro mult_right_mono) simp_all
    then show ?thesis using k by (simp add: mult.commute)
  qed
  then have "unat a + (n - 1) < 2 ^ 64" using 1 n by auto
  then have "unat (a + of_nat (n - 1)) = unat a + (n - 1)"
    using n by (auto simp: unat_word_ariths unsigned_of_nat take_bit_nat_eq_self)
  moreover have "a + of_nat n - 1 = a + of_nat (n - 1)" using n by auto
  moreover have "(unat a + (n - 1)) div seg = unat a div seg"
  proof (rule div_nat_eqI)
    show "seg * (unat a div seg) \<le> unat a + (n - 1)" by (rule le_trans [OF _ le_add1]) simp
    show "unat a + (n - 1) < seg * Suc (unat a div seg)" using 1 n by (auto simp: mult.commute)
  qed
  ultimately have "unat (a + of_nat n - 1) div seg = unat a div seg" by metis
  then show ?thesis unfolding tag_eq_iff using seg tag_sizes by auto
qed

section \<open>Atomic operations\<close>

text \<open>
  \<open>A t\<close> is the address of thread \<open>t\<close>. A transaction of block \<open>b\<close> names threads of \<open>ts\<close> whose
  addresses lie in \<open>b\<close>, holds exactly their bytes, and no two of them share a byte.
\<close>

definition lane_bytes :: "nat \<Rightarrow> u64 \<Rightarrow> nat set" where
  "lane_bytes n a = {byte_of a..<byte_of a + n}"

definition atomic_ok :: "(nat \<Rightarrow> u64) \<Rightarrow> nat \<Rightarrow> nat \<Rightarrow> nat set \<Rightarrow> u64 \<Rightarrow> transaction_info \<Rightarrow> bool" where
  "atomic_ok A seg n ts b i \<longleftrightarrow> ti_active i \<noteq> 0 \<and>
     (\<forall>c. bit (ti_chunks i) c \<longleftrightarrow> (\<exists>t. bit (ti_active i) t \<and> chunk_of (A t) = c)) \<and>
     (\<forall>t. bit (ti_active i) t \<longrightarrow> t \<in> ts \<and> tag_of (A t) seg = b) \<and>
     (\<forall>j. bit (ti_bytes i) j \<longleftrightarrow> (\<exists>t. bit (ti_active i) t \<and> j \<in> lane_bytes n (A t))) \<and>
     (\<forall>t u. bit (ti_active i) t \<and> bit (ti_active i) u \<and> t \<noteq> u \<longrightarrow> lane_bytes n (A t) \<inter> lane_bytes n (A u) = {})"

lemma word_nonzero: "bit w k \<Longrightarrow> w \<noteq> 0" for w :: "'a::len word"
  by (metis bit_0_eq bot_apply bot_bool_def)

lemma atomic_ok_mono: "atomic_ok A seg n ts b i \<Longrightarrow> ts \<subseteq> us \<Longrightarrow> atomic_ok A seg n us b i"
  unfolding atomic_ok_def by blast

lemma atomic_ok_add:
  assumes i: "i = transaction_info_new \<or> atomic_ok A seg n ts b i" and "t \<notin> ts" and "t < 32" and "tag_of (A t) seg = b"
    and fits: "byte_of (A t) + n \<le> 128" and free: "\<not> list_ex (bit (ti_bytes i)) [byte_of (A t)..<byte_of (A t) + n]"
  shows "atomic_ok A seg n (insert t ts) b (add_lane (A t) n t i)"
proof -
  have act: "bit (ti_active (add_lane (A t) n t i)) u \<longleftrightarrow> bit (ti_active i) u \<or> u = t" for u using assms(3) by simp
  have old: "u \<noteq> t \<and> u \<in> ts \<and> tag_of (A u) seg = b" if "bit (ti_active i) u" for u
    using i that assms(2) by (auto simp: atomic_ok_def)
  have dis: "lane_bytes n (A t) \<inter> lane_bytes n (A u) = {}" if "bit (ti_active i) u" for u
  proof -
    have "bit (ti_bytes i) j" if "j \<in> lane_bytes n (A u)" for j
      using i that \<open>bit (ti_active i) u\<close> by (auto simp: atomic_ok_def)
    moreover have "\<not> bit (ti_bytes i) j" if "j \<in> lane_bytes n (A t)" for j
      using free that by (simp add: lane_bytes_def list_ex_iff)
    ultimately show ?thesis by blast
  qed
  have pair: "lane_bytes n (A u) \<inter> lane_bytes n (A v) = {}"
    if "bit (ti_active i) u" "bit (ti_active i) v" "u \<noteq> v" for u v
    using i that unfolding atomic_ok_def by (elim disjE) (simp, blast)
  have bytes: "bit (ti_bytes (add_lane (A t) n t i)) j \<longleftrightarrow> bit (ti_bytes i) j \<or> j \<in> lane_bytes n (A t)" for j
    using fits by (auto simp: lane_bytes_def)
  show ?thesis unfolding atomic_ok_def
  proof (intro conjI)
    show "ti_active (add_lane (A t) n t i) \<noteq> 0" using word_nonzero [of "ti_active (add_lane (A t) n t i)" t] act [of t] by blast
    show "\<forall>c. bit (ti_chunks (add_lane (A t) n t i)) c \<longleftrightarrow>
        (\<exists>u. bit (ti_active (add_lane (A t) n t i)) u \<and> chunk_of (A u) = c)"
      using i assms(3) by (auto simp: atomic_ok_def)
    show "\<forall>u. bit (ti_active (add_lane (A t) n t i)) u \<longrightarrow> u \<in> insert t ts \<and> tag_of (A u) seg = b"
      using old assms(4) by (auto simp: act)
    show "\<forall>j. bit (ti_bytes (add_lane (A t) n t i)) j \<longleftrightarrow>
        (\<exists>u. bit (ti_active (add_lane (A t) n t i)) u \<and> j \<in> lane_bytes n (A u))"
      using i unfolding act bytes by (auto simp: atomic_ok_def)
    show "\<forall>u v. bit (ti_active (add_lane (A t) n t i)) u \<and> bit (ti_active (add_lane (A t) n t i)) v \<and> u \<noteq> v \<longrightarrow>
        lane_bytes n (A u) \<inter> lane_bytes n (A v) = {}"
      using pair dis unfolding act by blast
  qed
qed

definition joined :: "(nat \<Rightarrow> u64) \<Rightarrow> nat \<Rightarrow> nat \<Rightarrow> nat set \<Rightarrow> u64 \<Rightarrow> transaction_info list \<Rightarrow> bool" where
  "joined A seg n ts b is \<longleftrightarrow> (\<forall>i \<in> set is. atomic_ok A seg n ts b i) \<and>
     (\<forall>t \<in> ts. tag_of (A t) seg = b \<longrightarrow> (\<exists>i \<in> set is. bit (ti_active i) t))"

lemma join_has: "t < 32 \<Longrightarrow> \<exists>i \<in> set (atomic_join a n t is). bit (ti_active i) t"
  by (induction a n t "is" rule: atomic_join.induct) auto

lemma join_keeps: "\<exists>i \<in> set is. bit (ti_active i) u \<Longrightarrow> \<exists>i \<in> set (atomic_join a n t is). bit (ti_active i) u"
  by (induction a n t "is" rule: atomic_join.induct) auto

lemma join_ok:
  assumes "t \<notin> ts" and "t < 32" and "tag_of (A t) seg = b" and "byte_of (A t) + n \<le> 128"
  shows "\<forall>i \<in> set is. atomic_ok A seg n ts b i \<Longrightarrow>
    \<forall>i \<in> set (atomic_join (A t) n t is). atomic_ok A seg n (insert t ts) b i"
proof (induction "is")
  case Nil
  show ?case using atomic_ok_add [of transaction_info_new A seg n ts b t] assms by (simp add: list_ex_iff)
next
  case (Cons i "is")
  have mono: "atomic_ok A seg n (insert t ts) b j" if "atomic_ok A seg n ts b j" for j
    using atomic_ok_mono [OF that subset_insertI] .
  show ?case using Cons mono atomic_ok_add [of i A seg n ts b t] assms by auto
qed

definition atomic_recorded :: "(nat \<Rightarrow> u64) \<Rightarrow> nat \<Rightarrow> nat \<Rightarrow> nat set \<Rightarrow> (u64 \<times> transaction_info list) list \<Rightarrow> bool" where
  "atomic_recorded A seg n ts m \<longleftrightarrow> std_map m \<and> (\<forall>b. joined A seg n ts b (value_at m b []))"

lemma joined_mono:
  assumes "joined A seg n ts b is" and "tag_of (A t) seg \<noteq> b"
  shows "joined A seg n (insert t ts) b is"
proof -
  have "atomic_ok A seg n (insert t ts) b i" if "i \<in> set is" for i
    using assms(1) that atomic_ok_mono [OF _ subset_insertI] by (auto simp: joined_def)
  then show ?thesis using assms by (auto simp: joined_def)
qed

lemma value_at_map_at: "std_map m \<Longrightarrow> value_at (map_at k f d m) b d = (if b = k then f (value_at m k d) else value_at m b d)"
  by (simp add: value_at_def map_of_map_at)

lemma atomic_step:
  assumes m: "atomic_recorded A seg n ts m" and t: "t \<notin> ts" "t < 32" "byte_of (A t) + n \<le> 128"
  shows "atomic_recorded A seg n (insert t ts) (map_at (tag_of (A t) seg) (atomic_join (A t) n t) [] m)"
proof -
  let ?b = "tag_of (A t) seg" and ?is = "value_at m (tag_of (A t) seg) []"
  have std: "std_map m" and j: "\<And>b. joined A seg n ts b (value_at m b [])"
    using m by (simp_all add: atomic_recorded_def)
  have "joined A seg n (insert t ts) ?b (atomic_join (A t) n t ?is)"
    using join_ok [where A = A and t = t, OF t(1,2) refl t(3)] join_has [OF t(2), of "A t" n ?is]
      join_keeps [of ?is _ "A t" n t] j [of ?b]
    unfolding joined_def by auto
  then show ?thesis using std joined_mono [OF j]
    by (auto simp: atomic_recorded_def value_at_map_at)
qed

lemma atomic_threads:
  assumes A: "\<And>t. t \<in> set ts \<Longrightarrow> A t = w_addrs w ! t ! 0" and seg: "segment_size c w \<in> {32, 64, 128}"
    and fits: "\<And>t. t \<in> set ts \<Longrightarrow> unat (A t) mod w_data_size w = 0" and n: "w_data_size w \<in> {1, 2, 4, 8, 16}"
  shows "atomic_recorded A (segment_size c w) (w_data_size w) us m \<Longrightarrow> distinct ts \<Longrightarrow> set ts \<inter> us = {} \<Longrightarrow>
    \<forall>t \<in> set ts. t < 32 \<Longrightarrow> \<exists>m'. fold_opt (atomic_thread c w) ts m = Some m' \<and>
      atomic_recorded A (segment_size c w) (w_data_size w) (set ts \<union> us) m'"
  using A fits
proof (induction ts arbitrary: us m)
  case (Cons t ts)
  let ?seg = "segment_size c w" and ?n = "w_data_size w"
  let ?m = "map_at (tag_of (A t) ?seg) (atomic_join (A t) ?n t) [] m"
  have al: "unat (A t) mod ?n = 0" and At: "w_addrs w ! t ! 0 = A t" using Cons.prems by simp_all
  have "tag_of (A t) ?seg = tag_of (A t + of_nat ?n - 1) ?seg"
    by (rule aligned_same_segment [OF n al seg])
  then have "atomic_thread c w t m = Some ?m" using At by (simp add: atomic_thread_def Let_def guard_def)
  moreover have "atomic_recorded A ?seg ?n (insert t us) ?m"
    using atomic_step [OF Cons.prems(1), of t] aligned_in_chunk(2) [OF n al, of 32] Cons.prems by simp
  moreover have "set ts \<inter> insert t us = {}" using Cons.prems by auto
  ultimately show ?case using Cons.IH [of "insert t us" ?m] Cons.prems by auto
qed simp

text \<open>The accesses of an atomic instruction.\<close>

definition atomic_acc :: "(nat \<Rightarrow> u64) \<Rightarrow> nat \<Rightarrow> nat set \<Rightarrow> mem_access \<Rightarrow> bool" where
  "atomic_acc A n ts acc \<longleftrightarrow> acc_req_size acc \<in> {32, 64, 128} \<and> unat (acc_addr acc) mod acc_req_size acc = 0 \<and>
     (\<forall>t. bit (acc_warp_mask acc) t \<longrightarrow> t \<in> ts \<and>
        unat (acc_addr acc) = unat (A t) div acc_req_size acc * acc_req_size acc) \<and>
     (\<forall>j. bit (acc_byte_mask acc) j \<longleftrightarrow> (\<exists>t. bit (acc_warp_mask acc) t \<and> j \<in> lane_bytes n (A t))) \<and>
     (\<forall>t u. bit (acc_warp_mask acc) t \<and> bit (acc_warp_mask acc) u \<and> t \<noteq> u \<longrightarrow>
        lane_bytes n (A t) \<inter> lane_bytes n (A u) = {})"

lemma atomic_acc_mono: "atomic_acc A n ts acc \<Longrightarrow> ts \<subseteq> us \<Longrightarrow> atomic_acc A n us acc"
  unfolding atomic_acc_def by auto

lemma atomic_entry_sent:
  assumes i: "atomic_ok A seg n ts b i" and seg: "seg \<in> {32, 64, 128}"
  shows "reduce_segment b seg (ti_chunks i) \<noteq> None"
    and "sent_as wr ty seg (b, i) acc \<Longrightarrow> atomic_acc A n ts acc"
proof -
  obtain t where t: "bit (ti_active i) t" using i by (auto simp: atomic_ok_def bit_eq_iff)
  then have "bit (ti_chunks i) (chunk_of (A t))" using i by (auto simp: atomic_ok_def)
  then have "ti_chunks i \<noteq> 0" by (rule word_nonzero)
  moreover have "\<exists>a. tag_of a seg = b \<and> chunk_of a = c" if "bit (ti_chunks i) c" for c
    using i that by (auto simp: atomic_ok_def)
  ultimately have "chunks_ok seg b (ti_chunks i)" by (simp add: chunks_ok_def)
  from reduce_segment_spec [OF this seg] obtain r s where
    rs: "reduce_segment b seg (ti_chunks i) = Some (r, s)" "reduced seg (ti_chunks i) r s"
    and at: "\<And>a. tag_of a seg = b \<Longrightarrow> bit (ti_chunks i) (chunk_of a) \<Longrightarrow> unat r = unat a div s * s"
    by blast
  show "reduce_segment b seg (ti_chunks i) \<noteq> None" using rs by simp
  have lane: "unat r = unat (A t) div s * s \<and> t \<in> ts" if "bit (ti_active i) t" for t
    using i at that by (auto simp: atomic_ok_def)
  assume "sent_as wr ty seg (b, i) acc"
  then have acc: "acc_addr acc = r" "acc_req_size acc = s" "acc_warp_mask acc = ti_active i" "acc_byte_mask acc = ti_bytes i"
    using rs by (simp_all add: sent_as_def)
  show "atomic_acc A n ts acc"
    unfolding atomic_acc_def acc using i rs(2) lane by (auto simp: atomic_ok_def reduced_def)
qed

lemma atomic_subwarp_serves:
  assumes "segment_size c w \<in> {32, 64, 128}" and "w_data_size w \<in> {1, 2, 4, 8, 16}"
    and al: "\<forall>t \<in> set (subwarp_threads c w s). unat (w_addrs w ! t ! 0) mod w_data_size w = 0"
  defines "A \<equiv> \<lambda>t. w_addrs w ! t ! 0"
  shows "\<exists>p. atomic_subwarp c w wr ty s (q, uid) = Some (q @ p, uid + length p) \<and>
    (\<forall>acc \<in> set p. atomic_acc A (w_data_size w) (set (subwarp_threads c w s)) acc) \<and>
    (\<forall>t \<in> set (subwarp_threads c w s). \<exists>acc \<in> set p. bit (acc_warp_mask acc) t)"
proof -
  let ?seg = "segment_size c w" and ?n = "w_data_size w" and ?ts = "subwarp_threads c w s"
  have "atomic_recorded A ?seg ?n {} []" by (simp add: atomic_recorded_def joined_def value_at_def)
  moreover have "distinct ?ts" by (simp add: subwarp_threads_def Let_def)
  ultimately obtain m where m: "fold_opt (atomic_thread c w) ?ts [] = Some m" "atomic_recorded A ?seg ?n (set ?ts) m"
    using atomic_threads [of ?ts A w c "{}" "[]"] assms active_below by auto
  let ?es = "concat (map (\<lambda>(addr, infos). map (Pair addr) infos) m)"
  have std: "std_map m" and j: "\<And>b. joined A ?seg ?n (set ?ts) b (value_at m b [])"
    using m(2) by (simp_all add: atomic_recorded_def)
  have mem: "(b, i) \<in> set ?es \<longleftrightarrow> i \<in> set (value_at m b [])" for b i
    using std_map_mem [OF std] by (fastforce simp: value_at_def split: option.splits)
  have ok: "atomic_ok A ?seg ?n (set ?ts) (fst e) (snd e)" if "e \<in> set ?es" for e
    using mem [of "fst e" "snd e"] that j [of "fst e"] by (simp add: joined_def)
  obtain p where p: "fold_opt (reduce_and_send wr ty ?seg) ?es (q, uid) = Some (q @ p, uid + length ?es)"
    "list_all2 (sent_as wr ty ?seg) ?es p"
    using reduce_and_send_all [of ?es ?seg] atomic_entry_sent(1) [OF ok assms(1)] by blast
  have len: "length ?es = length p" using p(2) by (rule list_all2_lengthD)
  have "atomic_acc A ?n (set ?ts) acc" if "acc \<in> set p" for acc
  proof -
    from that len obtain k where k: "k < length ?es" "acc = p ! k" by (metis in_set_conv_nth)
    from list_all2_nthD [OF p(2) k(1)] have "sent_as wr ty ?seg (fst (?es ! k), snd (?es ! k)) acc" using k(2) by simp
    then show ?thesis using atomic_entry_sent(2) [OF ok [OF nth_mem [OF k(1)]] assms(1)] by blast
  qed
  moreover have "\<exists>acc \<in> set p. bit (acc_warp_mask acc) t" if t: "t \<in> set ?ts" for t
  proof -
    obtain i where "i \<in> set (value_at m (tag_of (A t) ?seg) [])" "bit (ti_active i) t"
      using j [of "tag_of (A t) ?seg"] t by (auto simp: joined_def)
    then obtain k where k: "k < length ?es" "?es ! k = (tag_of (A t) ?seg, i)"
      using mem by (metis in_set_conv_nth)
    then show ?thesis using list_all2_nthD [OF p(2) k(1)] len \<open>bit (ti_active i) t\<close>
      by (intro bexI [of _ "p ! k"]) (simp_all add: sent_as_def)
  qed
  ultimately show ?thesis using m(1) p(1) len by (intro exI [of _ p]) (simp add: atomic_subwarp_def)
qed

lemma same_block_bytes:
  assumes "unat r = unat a div s * s" and "unat r = unat b div s * s" and "s \<in> {32, 64, 128}"
    and "lane_bytes n a \<inter> lane_bytes n b = {}"
  shows "{unat a..<unat a + n} \<inter> {unat b..<unat b + n} = {}"
proof -
  obtain d where d: "128 = s * d" using assms(3) by auto
  have "unat a div s = unat b div s" using assms(1-3) by auto
  then have "unat a div 128 = unat b div 128" by (simp add: d div_mult2_eq)
  then have ab: "unat a = 128 * (unat b div 128) + byte_of a" "unat b = 128 * (unat b div 128) + byte_of b"
    by (metis byte_of_mod mult_div_mod_eq)+
  have "x - 128 * (unat b div 128) \<in> lane_bytes n a \<inter> lane_bytes n b"
    if "x \<in> {unat a..<unat a + n} \<inter> {unat b..<unat b + n}" for x
    using that ab by (auto simp: lane_bytes_def)
  then show ?thesis using assms(4) by blast
qed

lemma atomic_generates:
  assumes w: "coalescable c w" and "w_isatomic w" and sp: "i_space w = global_space"
    and al: "\<forall>t \<in> set (active_threads c w). unat (w_addrs w ! t ! 0) mod w_data_size w = 0"
  defines "A \<equiv> \<lambda>t. w_addrs w ! t ! 0"
  shows "\<exists>w' accs. generate_mem_accesses c w uid = Some (w', uid + length accs) \<and>
    w_accessq w' = w_accessq w @ accs \<and>
    (\<forall>acc \<in> set accs. atomic_acc A (w_data_size w) (set (active_threads c w)) acc) \<and>
    (\<forall>t \<in> set (active_threads c w). \<exists>acc \<in> set accs. bit (acc_warp_mask acc) t)"
proof -
  let ?wr = "is_store (inst_t.truncate w)" and ?ss = "[0..<mem_warp_parts c]"
  let ?P = "\<lambda>s p.
    (\<forall>acc \<in> set p. atomic_acc A (w_data_size w) (set (subwarp_threads c w s)) acc) \<and>
    (\<forall>t \<in> set (subwarp_threads c w s). \<exists>acc \<in> set p. bit (acc_warp_mask acc) t)"
  obtain ty where ty: "access_type_of (i_space w) ?wr = Some (Some ty)" using sp by (auto simp: access_type_of_def)
  have all: "(\<Union>s \<in> set ?ss. set (subwarp_threads c w s)) = set (active_threads c w)"
    using subwarp_union w by (auto simp: coalescable_def)
  have sub: "set (subwarp_threads c w s) \<subseteq> set (active_threads c w)" if "s < mem_warp_parts c" for s
    unfolding all [symmetric] using that by auto
  have one: "\<exists>p. atomic_subwarp c w ?wr ty s (q, uid) = Some (q @ p, uid + length p) \<and> ?P s p"
    if "s \<in> set ?ss" for s q uid
  proof -
    have "\<forall>t \<in> set (subwarp_threads c w s). unat (w_addrs w ! t ! 0) mod w_data_size w = 0"
      using al sub that by auto
    from atomic_subwarp_serves [OF coalescable_sizes(1) [OF w] _ this] w show ?thesis
      by (simp add: coalescable_def A_def)
  qed
  obtain ps where ps: "fold_opt (atomic_subwarp c w ?wr ty) ?ss (w_accessq w, uid) =
      Some (w_accessq w @ concat ps, uid + length (concat ps))" "list_all2 ?P ?ss ps"
    using fold_appends [where f = "atomic_subwarp c w ?wr ty" and P = ?P, OF one] by blast
  have k: "s < length ps \<Longrightarrow> ?P s (ps ! s)" and len: "length ps = mem_warp_parts c" for s
    using list_all2_nthD2 [OF ps(2)] list_all2_lengthD [OF ps(2)] by auto
  have "atomic_acc A (w_data_size w) (set (active_threads c w)) acc" if "acc \<in> set (concat ps)" for acc
  proof -
    from that obtain p where "p \<in> set ps" "acc \<in> set p" by auto
    then obtain s where s: "s < length ps" "acc \<in> set (ps ! s)" by (auto simp: in_set_conv_nth [of p])
    then have "atomic_acc A (w_data_size w) (set (subwarp_threads c w s)) acc" using k by blast
    then show ?thesis using sub [of s] s(1) len by (auto intro: atomic_acc_mono)
  qed
  moreover have "\<exists>acc \<in> set (concat ps). bit (acc_warp_mask acc) t" if "t \<in> set (active_threads c w)" for t
  proof -
    from that [folded all] obtain s where "s < length ps" "t \<in> set (subwarp_threads c w s)" using len by auto
    with k [of s] len show ?thesis by (metis nth_mem set_concat UN_I)
  qed
  moreover have "is_load (inst_t.truncate w) \<or> ?wr"
    using w by (auto simp: coalescable_def generates_def is_load_def is_store_def inst_t.defs)
  moreover have "memory_coalescing_arch_atomic c w ?wr ty (w_accessq w, uid) =
      Some (w_accessq w @ concat ps, uid + length (concat ps))"
    using ps(1) w sp by (auto simp: memory_coalescing_arch_atomic_def coalescable_def guard_def)
  ultimately show ?thesis using w assms(2) sp ty
    by (intro exI [of _ "w\<lparr>w_accessq := w_accessq w @ concat ps, w_created := True\<rparr>"] exI [of _ "concat ps"])
      (simp add: generate_mem_accesses_def dram_accesses_def coalescable_def guard_def)
qed

text \<open>
  C39: the threads of one atomic transaction never collide. For an atomic instruction with aligned
  addresses the coalescer returns, every active thread is named by an access that contains its
  bytes, and two different threads of the same access touch disjoint byte ranges.
\<close>

theorem atomic_lanes_disjoint:
  assumes "coalescable c w" and "w_isatomic w" and "i_space w = global_space"
    and "\<forall>t \<in> set (active_threads c w). unat (w_addrs w ! t ! 0) mod w_data_size w = 0"
  shows "\<exists>w' accs. generate_mem_accesses c w uid = Some (w', uid + length accs) \<and>
    w_accessq w' = w_accessq w @ accs \<and>
    (\<forall>t \<in> set (active_threads c w). \<exists>acc \<in> set accs. bit (acc_warp_mask acc) t) \<and>
    (\<forall>acc \<in> set accs. \<forall>t u. bit (acc_warp_mask acc) t \<longrightarrow> t \<in> set (active_threads c w) \<and>
       unat (acc_addr acc) \<le> unat (w_addrs w ! t ! 0) \<and>
       unat (w_addrs w ! t ! 0) + w_data_size w \<le> unat (acc_addr acc) + acc_req_size acc \<and>
       (bit (acc_warp_mask acc) u \<and> t \<noteq> u \<longrightarrow>
         {unat (w_addrs w ! t ! 0)..<unat (w_addrs w ! t ! 0) + w_data_size w} \<inter>
         {unat (w_addrs w ! u ! 0)..<unat (w_addrs w ! u ! 0) + w_data_size w} = {}))"
proof -
  let ?A = "\<lambda>t. w_addrs w ! t ! 0" and ?n = "w_data_size w"
  have n: "?n \<in> {1, 2, 4, 8, 16}" using assms(1) by (simp add: coalescable_def)
  obtain w' accs where g: "generate_mem_accesses c w uid = Some (w', uid + length accs)"
    "w_accessq w' = w_accessq w @ accs" "\<forall>t \<in> set (active_threads c w). \<exists>acc \<in> set accs. bit (acc_warp_mask acc) t"
    and acc: "\<forall>acc \<in> set accs. atomic_acc ?A ?n (set (active_threads c w)) acc"
    using atomic_generates [OF assms, of uid] by blast
  have lane: "t \<in> set (active_threads c w) \<and> unat (acc_addr x) = unat (?A t) div acc_req_size x * acc_req_size x"
    and size: "acc_req_size x \<in> {32, 64, 128}" if "x \<in> set accs" "bit (acc_warp_mask x) t" for x t
    using acc that by (auto simp: atomic_acc_def)
  have "unat (?A t) + ?n \<le> unat (acc_addr x) + acc_req_size x" if "x \<in> set accs" "bit (acc_warp_mask x) t" for x t
    using aligned_in_chunk(1) [OF n _ size [OF that], of "?A t"] lane [OF that] assms(4) by simp
  moreover have "{unat (?A t)..<unat (?A t) + ?n} \<inter> {unat (?A u)..<unat (?A u) + ?n} = {}"
    if x: "x \<in> set accs" and t: "bit (acc_warp_mask x) t" and u: "bit (acc_warp_mask x) u" "t \<noteq> u" for x t u
    using same_block_bytes [of "acc_addr x" "?A t" "acc_req_size x" "?A u" ?n]
      lane [OF x t] lane [OF x u(1)] size [OF x t] acc x t u by (auto simp: atomic_acc_def)
  ultimately show ?thesis using g lane by (intro exI [of _ w'] exI [of _ accs]) force
qed

end
