(* ===== verification/Shared_Memory.thy ===== *)
theory Shared_Memory
  imports Coalescer_Properties
begin

text \<open>
  The cycles of a shared-memory access. \<^verbatim>\<open>generate_mem_accesses\<close> counts, for each subwarp, the
  accesses of the most loaded bank. With full broadcast this is the largest number of different
  words that the threads of the subwarp access in one bank; with limited broadcast it is the largest
  number of threads that access one bank, where the threads of one word of one bank, the first that two threads
  access, count once.
\<close>

section \<open>The reference: conflicts of a bank\<close>

definition smem_addr :: "warp_inst \<Rightarrow> nat \<Rightarrow> u64" where
  "smem_addr w t = w_addrs w ! t ! 0"

definition bank_words :: "core_config \<Rightarrow> warp_inst \<Rightarrow> nat list \<Rightarrow> nat \<Rightarrow> u64 set" where
  "bank_words c w ts b = {line_size_based_tag_func (smem_addr w t) 4 | t. t \<in> set ts \<and> shmem_bank_func c (smem_addr w t) = b}"

definition conflict_degree :: "core_config \<Rightarrow> warp_inst \<Rightarrow> nat list \<Rightarrow> nat" where
  "conflict_degree c w ts = Max (insert 0 ((\<lambda>b. card (bank_words c w ts b)) ` {..<num_shmem_bank c}))"

text \<open>
  Limited broadcast: \<open>first_shared c w ts bk\<close> says that \<open>bk\<close> is the first bank and the first word in it that two threads
  access (\<open>None\<close> if there is none); its threads count once.
\<close>

definition readers :: "core_config \<Rightarrow> warp_inst \<Rightarrow> nat list \<Rightarrow> nat \<Rightarrow> u64 \<Rightarrow> nat" where
  "readers c w ts b k = length (filter (\<lambda>t. shmem_bank_func c (smem_addr w t) = b \<and> line_size_based_tag_func (smem_addr w t) 4 = k) ts)"

definition bank_threads :: "core_config \<Rightarrow> warp_inst \<Rightarrow> nat list \<Rightarrow> nat \<Rightarrow> nat" where
  "bank_threads c w ts b = length (filter (\<lambda>t. shmem_bank_func c (smem_addr w t) = b) ts)"

definition first_shared :: "core_config \<Rightarrow> warp_inst \<Rightarrow> nat list \<Rightarrow> (nat \<times> u64) option \<Rightarrow> bool" where
  "first_shared c w ts bk = (case bk of
     None \<Rightarrow> \<forall>b k. readers c w ts b k \<le> 1
   | Some (b, k) \<Rightarrow> 1 < readers c w ts b k \<and> (\<forall>b' k'. 1 < readers c w ts b' k' \<longrightarrow> b < b' \<or> b = b' \<and> k \<le> k'))"

definition limited_load :: "core_config \<Rightarrow> warp_inst \<Rightarrow> nat list \<Rightarrow> (nat \<times> u64) option \<Rightarrow> nat \<Rightarrow> nat" where
  "limited_load c w ts bk b = bank_threads c w ts b - (case bk of
     None \<Rightarrow> 0 | Some (b', k) \<Rightarrow> if b' = b then readers c w ts b k - 1 else 0)"

definition limited_degree :: "core_config \<Rightarrow> warp_inst \<Rightarrow> nat list \<Rightarrow> (nat \<times> u64) option \<Rightarrow> nat" where
  "limited_degree c w ts bk = Max (insert 0 (limited_load c w ts bk ` {..<num_shmem_bank c}))"

section \<open>The counters\<close>

definition counted :: "core_config \<Rightarrow> warp_inst \<Rightarrow> nat list \<Rightarrow> (nat \<times> (u64 \<times> nat) list) list \<Rightarrow> bool" where
  "counted c w ts m \<longleftrightarrow> std_map m \<and> (\<forall>b ws. map_of m b = Some ws \<longrightarrow> std_map ws \<and> ws \<noteq> []) \<and>
     (\<forall>b. fst ` set (value_at m b []) = bank_words c w ts b) \<and>
     (\<forall>b. sum_list (map snd (value_at m b [])) = bank_threads c w ts b) \<and>
     (\<forall>b k. value_at (value_at m b []) k 0 = readers c w ts b k) \<and>
     (\<forall>b e. e \<in> set (value_at m b []) \<longrightarrow> 0 < snd e)"

lemma map_at_nonempty [simp]: "map_at k f d m \<noteq> []"
  by (cases "(k, f, d, m)" rule: map_at.cases) auto

lemma sum_map_at_Suc: "sum_list (map snd (map_at k Suc 0 m)) = Suc (sum_list (map snd m))"
  by (induction k "Suc" "0::nat" m rule: map_at.induct) auto

lemma map_at_Suc_pos: "\<forall>e \<in> set m. 0 < snd e \<Longrightarrow> \<forall>e \<in> set (map_at k Suc 0 m). 0 < snd e"
  by (induction k "Suc" "0::nat" m rule: map_at.induct) auto

lemma value_at_std: "counted c w ts m \<Longrightarrow> std_map (value_at m b [])"
  by (auto simp: counted_def value_at_def split: option.splits)

lemma bank_words_snoc:
  "bank_words c w (ts @ [t]) b = (if shmem_bank_func c (smem_addr w t) = b
     then insert (line_size_based_tag_func (smem_addr w t) 4) (bank_words c w ts b) else bank_words c w ts b)"
  by (auto simp: bank_words_def)

lemma threads_snoc:
  "bank_threads c w (ts @ [t]) b = bank_threads c w ts b + of_bool (shmem_bank_func c (smem_addr w t) = b)"
  "readers c w (ts @ [t]) b k = readers c w ts b k +
     of_bool (shmem_bank_func c (smem_addr w t) = b \<and> line_size_based_tag_func (smem_addr w t) 4 = k)"
  by (simp_all add: bank_threads_def readers_def)

lemma counted_step:
  assumes "counted c w ts m"
  shows "counted c w (ts @ [t]) (count_word c w m t)"
proof -
  let ?b = "shmem_bank_func c (smem_addr w t)" and ?k = "line_size_based_tag_func (smem_addr w t) 4"
  have m': "count_word c w m t = map_at ?b (map_at ?k Suc 0) [] m"
    by (simp add: count_word_def smem_addr_def Let_def)
  have std: "std_map m" and v: "\<And>b. fst ` set (value_at m b []) = bank_words c w ts b"
    and s: "\<And>b. sum_list (map snd (value_at m b [])) = bank_threads c w ts b"
    and r: "\<And>b k. value_at (value_at m b []) k 0 = readers c w ts b k"
    and p: "\<And>b e. e \<in> set (value_at m b []) \<Longrightarrow> 0 < snd e"
    and q: "\<And>b ws. map_of m b = Some ws \<Longrightarrow> std_map ws \<and> ws \<noteq> []"
    using assms by (auto simp: counted_def)
  have at: "value_at (map_at ?b (map_at ?k Suc 0) [] m) b [] =
      (if b = ?b then map_at ?k Suc 0 (value_at m ?b []) else value_at m b [])" for b
    by (rule value_at_map_at [OF std])
  have "std_map ws \<and> ws \<noteq> []" if "map_of (map_at ?b (map_at ?k Suc 0) [] m) b = Some ws" for b ws
    using that q value_at_std [OF assms, of ?b] by (auto simp: map_of_map_at [OF std] split: if_splits)
  moreover have "\<forall>e \<in> set (map_at ?k Suc 0 (value_at m ?b [])). 0 < snd e"
    using p by (intro map_at_Suc_pos) blast
  moreover have "value_at (map_at ?k Suc 0 (value_at m ?b [])) k 0 = readers c w (ts @ [t]) ?b k" for k
    using value_at_map_at [OF value_at_std [OF assms], of ?k Suc 0 ?b k] by (auto simp: r threads_snoc)
  ultimately show ?thesis
    unfolding counted_def m' at using std v s p r by (auto simp: bank_words_snoc threads_snoc sum_map_at_Suc)
qed

lemma counted_fold: "counted c w us m \<Longrightarrow> counted c w (us @ ts) (foldl (count_word c w) m ts)"
proof (induction ts arbitrary: us m)
  case (Cons t ts)
  from Cons.IH [OF counted_step [OF Cons.prems, of t]] show ?case by simp
qed simp

lemma bank_accs_counted: "counted c w (subwarp_threads c w s) (bank_accs c w s)"
proof -
  have "counted c w [] []" by (simp add: counted_def value_at_def bank_words_def bank_threads_def readers_def)
  from counted_fold [OF this, of "subwarp_threads c w s"] show ?thesis by (simp add: bank_accs_def)
qed

section \<open>The maximum\<close>

lemma foldl_max: "foldl max (k :: nat) xs = Max (insert k (set xs))"
proof -
  have "(\<lambda>x s. max s x) = (max :: nat \<Rightarrow> _)" by (auto simp: fun_eq_iff max.commute)
  then have "foldl max k xs = fold max xs k" by (simp add: foldl_conv_fold)
  then show ?thesis using Max.set_eq_fold [of k xs] by simp
qed

lemma max_range:
  assumes "\<And>x. x \<in> set xs \<Longrightarrow> f x \<le> n" and "y \<in> set xs" and "0 < f y"
  shows "0 < foldl max 0 (map f xs)" and "foldl max 0 (map f xs) \<le> (n :: nat)"
proof -
  have "f y \<le> Max (insert 0 (f ` set xs))" using assms(2) by (intro Max_ge) auto
  then show "0 < foldl max 0 (map f xs)" using assms(3) by (simp add: foldl_max)
  show "foldl max 0 (map f xs) \<le> n" using assms(1) by (auto simp: foldl_max)
qed

lemma member_le_sum: "e \<in> set ws \<Longrightarrow> snd e \<le> sum_list (map snd ws)" for ws :: "(u64 \<times> nat) list"
  by (induction ws) auto

lemma length_le_sum: "\<forall>e \<in> set ws. 0 < snd e \<Longrightarrow> length ws \<le> sum_list (map snd ws)" for ws :: "(u64 \<times> nat) list"
  by (induction ws) auto

lemma broadcast_Some: "broadcast m = Some (bank, word, k) \<Longrightarrow> \<exists>ws. (bank, ws) \<in> set m \<and> (word, k) \<in> set ws \<and> 1 < k"
proof (induction m rule: broadcast.induct)
  case (2 b ws m)
  show ?case
  proof (cases "find (\<lambda>(word, n). 1 < n) ws")
    case None
    with 2 show ?thesis by auto
  next
    case (Some e)
    then obtain i where "i < length ws" "ws ! i = e" "1 < snd e" by (auto simp: find_Some_iff)
    then have "e \<in> set ws" "1 < snd e" using nth_mem by auto
    moreover have "b = bank" "e = (word, k)" using 2(2) Some by (auto split: prod.splits)
    ultimately show ?thesis by auto
  qed
qed simp

text \<open>The entries of the counters.\<close>

lemma counted_entry:
  assumes "counted c w ts m" and "(b, ws) \<in> set m"
  shows "ws = value_at m b []" and "ws \<noteq> []" and "length ws = card (bank_words c w ts b)"
    and "sum_list (map snd ws) \<le> length ts" and "\<forall>e \<in> set ws. 0 < snd e"
proof -
  have "std_map m" using assms(1) by (simp add: counted_def)
  from std_map_mem [OF this] have mo: "map_of m b = Some ws" using assms(2) by simp
  then show v: "ws = value_at m b []" by (simp add: value_at_def)
  have "std_map ws" "ws \<noteq> []" using assms(1) mo by (auto simp: counted_def)
  then show "ws \<noteq> []" by simp
  have "length ws = card (fst ` set ws)"
    using std_map_distinct [OF \<open>std_map ws\<close>] by (metis distinct_card length_map set_map)
  then show "length ws = card (bank_words c w ts b)" using assms(1) v by (simp add: counted_def)
  have "sum_list (map snd ws) = bank_threads c w ts b"
    using assms(1) v unfolding counted_def by metis
  then show "sum_list (map snd ws) \<le> length ts" by (simp add: bank_threads_def)
  show "\<forall>e \<in> set ws. 0 < snd e" using assms(1) v unfolding counted_def by metis
qed

lemma counted_some: "counted c w ts m \<Longrightarrow> ts \<noteq> [] \<Longrightarrow> m \<noteq> []"
proof
  assume "counted c w ts m" "ts \<noteq> []" "m = []"
  then have "bank_words c w ts (shmem_bank_func c (smem_addr w (hd ts))) = {}"
    by (auto simp: counted_def value_at_def)
  moreover have "hd ts \<in> set ts" using \<open>ts \<noteq> []\<close> by simp
  ultimately show False by (auto simp: bank_words_def)
qed

lemma limited_range:
  assumes m: "counted c w ts m" and e: "e \<in> set m"
  shows "0 < limited_bank_accesses (broadcast m) e" and "limited_bank_accesses (broadcast m) e \<le> length ts"
proof -
  obtain b ws where bw: "e = (b, ws)" by (cases e)
  note ent = counted_entry [OF m, of b ws]
  have pos: "0 < sum_list (map snd ws)"
    using ent(2,5) length_le_sum [of ws] e bw by (metis length_greater_0_conv order_less_le_trans)
  have "0 < limited_bank_accesses (broadcast m) e \<and> limited_bank_accesses (broadcast m) e \<le> sum_list (map snd ws)"
  proof (cases "broadcast m")
    case (Some x)
    obtain bank word k where x: "x = (bank, word, k)" by (cases x)
    show ?thesis
    proof (cases "bank = b")
      case True
      obtain vs where "(bank, vs) \<in> set m" "(word, k) \<in> set vs" "1 < k" using broadcast_Some Some x by blast
      then have "(word, k) \<in> set ws" using counted_entry(1) [OF m] True e bw by metis
      then have "k \<le> sum_list (map snd ws)" using member_le_sum by fastforce
      with \<open>1 < k\<close> show ?thesis using Some x True bw by (simp add: limited_bank_accesses_def Let_def)
    qed (use Some x bw pos in \<open>simp add: limited_bank_accesses_def\<close>)
  qed (use bw pos in \<open>simp add: limited_bank_accesses_def\<close>)
  with ent(4) e bw show "0 < limited_bank_accesses (broadcast m) e" "limited_bank_accesses (broadcast m) e \<le> length ts"
    by auto
qed

lemma subwarp_conflicts_range:
  shows "subwarp_threads c w s \<noteq> [] \<Longrightarrow> 0 < subwarp_conflicts c w s"
    and "subwarp_conflicts c w s \<le> length (subwarp_threads c w s)"
proof -
  let ?m = "bank_accs c w s" and ?ts = "subwarp_threads c w s"
  note m = bank_accs_counted [of c w s]
  have len: "0 < length (snd e) \<and> length (snd e) \<le> length ?ts" if "e \<in> set ?m" for e
  proof -
    note ent = counted_entry [OF m, of "fst e" "snd e"]
    have "(fst e, snd e) \<in> set ?m" using that by simp
    then show ?thesis using ent(2,4) length_le_sum [OF ent(5)] by fastforce
  qed
  have lim: "0 < limited_bank_accesses (broadcast ?m) e" "limited_bank_accesses (broadcast ?m) e \<le> length ?ts"
    if "e \<in> set ?m" for e using limited_range [OF m that] .
  have c: "subwarp_conflicts c w s = foldl max 0 (map
      (if shmem_limited_broadcast c then limited_bank_accesses (broadcast ?m) else (\<lambda>e. length (snd e))) ?m)"
    by (simp add: subwarp_conflicts_def Let_def case_prod_unfold)
  show "subwarp_conflicts c w s \<le> length ?ts"
    unfolding c foldl_max using len lim by (auto split: if_splits)
  show "0 < subwarp_conflicts c w s" if ts: "?ts \<noteq> []"
  proof -
    obtain e where "e \<in> set ?m" using counted_some [OF m ts] by (meson ex_in_conv set_empty)
    then show ?thesis unfolding c using len lim
      by (intro max_range(1) [of _ _ "length ?ts" e]) auto
  qed
qed

section \<open>The cycles of the instruction\<close>

lemma bank_below: "0 < num_shmem_bank c \<Longrightarrow> shmem_bank_func c a < num_shmem_bank c"
  by (simp add: shmem_bank_func_def)

lemma finite_bank_words: "finite (bank_words c w ts b)"
proof -
  have "bank_words c w ts b \<subseteq> (\<lambda>t. line_size_based_tag_func (smem_addr w t) 4) ` set ts"
    by (auto simp: bank_words_def)
  then show ?thesis by (rule finite_subset) simp
qed

text \<open>The maximum over the counters of the banks used is the maximum over all banks.\<close>

lemma max_over_banks:
  assumes "\<And>e. e \<in> set m \<Longrightarrow> g e = f (fst e) \<and> fst e < N" and "\<And>b. b \<notin> fst ` set m \<Longrightarrow> f b = 0"
  shows "foldl max (0 :: nat) (map g m) = Max (insert 0 (f ` {..<N}))"
proof -
  have "insert 0 (g ` set m) \<subseteq> insert 0 (f ` {..<N})" using assms(1) by auto
  moreover have "f b \<in> insert 0 (g ` set m)" for b
  proof (cases "b \<in> fst ` set m")
    case True
    then obtain e where "e \<in> set m" "b = fst e" by blast
    then show ?thesis using assms(1) by (metis imageI insertI2)
  qed (simp add: assms(2))
  then have "insert 0 (f ` {..<N}) \<subseteq> insert 0 (g ` set m)" by (intro insert_subsetI image_subsetI) simp_all
  ultimately have "insert 0 (g ` set m) = insert 0 (f ` {..<N})" by blast
  then show ?thesis by (simp add: foldl_max)
qed

lemma counted_bank:
  assumes "counted c w ts m" and "0 < num_shmem_bank c" and "e \<in> set m"
  shows "fst e < num_shmem_bank c"
proof -
  have e: "(fst e, snd e) \<in> set m" using assms(3) by simp
  then have "bank_words c w ts (fst e) \<noteq> {}" using counted_entry(2,3) [OF assms(1) e] by auto
  then obtain t where "shmem_bank_func c (smem_addr w t) = fst e" by (auto simp: bank_words_def)
  then show ?thesis using bank_below [OF assms(2)] by metis
qed

lemma counted_absent:
  assumes "counted c w ts m" and "b \<notin> fst ` set m"
  shows "bank_words c w ts b = {}" and "bank_threads c w ts b = 0"
proof -
  have v: "value_at m b [] = []" using assms(2) by (simp add: value_at_def map_of_eq_None_iff [THEN iffD2])
  have "fst ` set (value_at m b []) = bank_words c w ts b" "sum_list (map snd (value_at m b [])) = bank_threads c w ts b"
    using assms(1) by (simp_all add: counted_def)
  with v show "bank_words c w ts b = {}" "bank_threads c w ts b = 0" by simp_all
qed

lemma conflicts_eq_degree:
  assumes "\<not> shmem_limited_broadcast c" and "0 < num_shmem_bank c"
  shows "subwarp_conflicts c w s = conflict_degree c w (subwarp_threads c w s)"
proof -
  note m = bank_accs_counted [of c w s]
  have "length (snd e) = card (bank_words c w (subwarp_threads c w s) (fst e))" if "e \<in> set (bank_accs c w s)" for e
    using counted_entry(3) [OF m, of "fst e" "snd e"] that by simp
  with counted_bank [OF m assms(2)] counted_absent(1) [OF m]
  have "foldl max 0 (map (\<lambda>e. length (snd e)) (bank_accs c w s)) = conflict_degree c w (subwarp_threads c w s)"
    unfolding conflict_degree_def by (intro max_over_banks) simp_all
  with assms(1) show ?thesis by (simp add: subwarp_conflicts_def Let_def case_prod_unfold)
qed

section \<open>Limited broadcast\<close>

lemma find_least:
  "std_map ws \<Longrightarrow> find P ws = Some e \<Longrightarrow> e \<in> set ws \<and> P e \<and> (\<forall>e' \<in> set ws. P e' \<longrightarrow> fst e \<le> fst e')"
proof (induction ws)
  case (Cons x ws)
  then show ?case by (cases x; cases "P x") (auto simp: std_map_Cons less_imp_le)
qed simp

definition least_shared :: "(nat \<times> (u64 \<times> nat) list) list \<Rightarrow> (nat \<times> u64 \<times> nat) option \<Rightarrow> bool" where
  "least_shared m x \<longleftrightarrow> (case x of
     None \<Rightarrow> \<forall>b ws k n. (b, ws) \<in> set m \<longrightarrow> (k, n) \<in> set ws \<longrightarrow> \<not> 1 < n
   | Some (b, k, n) \<Rightarrow> 1 < n \<and> (\<exists>ws. (b, ws) \<in> set m \<and> (k, n) \<in> set ws) \<and>
       (\<forall>b' ws' k' n'. (b', ws') \<in> set m \<longrightarrow> (k', n') \<in> set ws' \<longrightarrow> 1 < n' \<longrightarrow> b < b' \<or> b = b' \<and> k \<le> k'))"

lemma least_shared_skip:
  assumes "least_shared m x" and none: "\<And>k n. (k, n) \<in> set ws \<Longrightarrow> \<not> 1 < n"
  shows "least_shared ((b, ws) # m) x"
proof (cases x)
  case None
  then show ?thesis using assms(1) none unfolding least_shared_def by auto
next
  case (Some y)
  obtain b1 k1 n1 where "y = (b1, k1, n1)" by (cases y)
  with Some show ?thesis using assms(1) none by (simp add: least_shared_def) blast
qed

lemma broadcast_least:
  "std_map m \<Longrightarrow> (\<And>b ws. (b, ws) \<in> set m \<Longrightarrow> std_map ws) \<Longrightarrow> least_shared m (broadcast m)"
proof (induction m rule: broadcast.induct)
  case (2 bank ws m)
  have std: "std_map m" "std_map ws" using 2(2) 2(3) [of bank ws] by (simp_all add: std_map_Cons)
  have above: "bank < b'" if "(b', vs) \<in> set m" for b' vs using 2(2) that by (force simp: std_map_Cons)
  show ?case
  proof (cases "find (\<lambda>(word, n). 1 < n) ws")
    case None
    then have "\<not> 1 < n" if "(k, n) \<in> set ws" for k n using that by (fastforce simp: find_None_iff)
    moreover have "std_map vs" if "(b, vs) \<in> set m" for b vs using 2(3) that by (meson list.set_intros(2))
    ultimately show ?thesis using None 2(1) [OF None std(1)] by (simp add: least_shared_skip)
  next
    case (Some e)
    obtain k n where kn: "e = (k, n)" by (cases e)
    from find_least [OF std(2) Some] kn have "(k, n) \<in> set ws" "1 < n"
      "\<And>k' n'. (k', n') \<in> set ws \<Longrightarrow> 1 < n' \<Longrightarrow> k \<le> k'" by auto
    with above Some kn show ?thesis by (simp add: least_shared_def) blast
  qed
qed (simp add: least_shared_def)

text \<open>A word that two threads access has an entry with that count, and the other way round.\<close>

lemma counted_readers:
  assumes m: "counted c w ts m"
  shows "(b, ws) \<in> set m \<Longrightarrow> (k, n) \<in> set ws \<Longrightarrow> readers c w ts b k = n"
    and "0 < readers c w ts b k \<Longrightarrow> \<exists>ws. (b, ws) \<in> set m \<and> (k, readers c w ts b k) \<in> set ws"
proof -
  have r: "value_at (value_at m b []) k 0 = readers c w ts b k" for b k using m by (simp add: counted_def)
  show "readers c w ts b k = n" if "(b, ws) \<in> set m" "(k, n) \<in> set ws"
  proof -
    have ws: "ws = value_at m b []" by (rule counted_entry(1) [OF m that(1)])
    then have "map_of ws k = Some n" using that(2) std_map_mem value_at_std [OF m] by metis
    then show ?thesis using r [of b k] ws by (simp add: value_at_def)
  qed
  show "\<exists>ws. (b, ws) \<in> set m \<and> (k, readers c w ts b k) \<in> set ws" if pos: "0 < readers c w ts b k"
  proof -
    obtain ws where ws: "map_of m b = Some ws" using r [of b k] pos by (cases "map_of m b") (auto simp: value_at_def)
    then have "value_at ws k 0 = readers c w ts b k" using r [of b k] by (simp add: value_at_def)
    then have "map_of ws k = Some (readers c w ts b k)" using pos by (cases "map_of ws k") (auto simp: value_at_def)
    with ws show ?thesis by (blast dest: map_of_SomeD)
  qed
qed

lemma broadcast_first_shared:
  assumes m: "counted c w ts m"
  shows "first_shared c w ts (map_option (\<lambda>(b, k, n). (b, k)) (broadcast m))"
    and "broadcast m = Some (b, k, n) \<Longrightarrow> n = readers c w ts b k"
proof -
  have "std_map m" using m by (simp add: counted_def)
  moreover have "std_map ws" if "(b, ws) \<in> set m" for b ws using counted_entry(1) [OF m that] value_at_std [OF m] by metis
  ultimately have B: "least_shared m (broadcast m)" by (rule broadcast_least)
  show "n = readers c w ts b k" if "broadcast m = Some (b, k, n)"
    using B that counted_readers(1) [OF m] by (auto simp: least_shared_def)
  show "first_shared c w ts (map_option (\<lambda>(b, k, n). (b, k)) (broadcast m))"
  proof (cases "broadcast m")
    case None
    have "readers c w ts b k \<le> 1" for b k
    proof (rule ccontr)
      assume n: "\<not> readers c w ts b k \<le> 1"
      with counted_readers(2) [OF m, of b k] obtain ws where "(b, ws) \<in> set m" "(k, readers c w ts b k) \<in> set ws" by auto
      with B [unfolded None least_shared_def] have "\<not> 1 < readers c w ts b k" by (simp only: option.case) blast
      with n show False by simp
    qed
    with None show ?thesis by (simp add: first_shared_def)
  next
    case (Some x)
    obtain b k n where x: "x = (b, k, n)" by (cases x)
    have "b < b' \<or> b = b' \<and> k \<le> k'" if two: "1 < readers c w ts b' k'" for b' k'
    proof -
      obtain ws where "(b', ws) \<in> set m" "(k', readers c w ts b' k') \<in> set ws"
        using counted_readers(2) [OF m, of b' k'] two by auto
      with B Some x two show ?thesis by (auto simp: least_shared_def)
    qed
    moreover have "1 < readers c w ts b k" using B Some x counted_readers(1) [OF m] by (auto simp: least_shared_def)
    ultimately show ?thesis using Some x by (simp add: first_shared_def)
  qed
qed

lemma limited_eq_degree:
  assumes "shmem_limited_broadcast c" and "0 < num_shmem_bank c"
  shows "\<exists>bk. first_shared c w (subwarp_threads c w s) bk \<and> subwarp_conflicts c w s = limited_degree c w (subwarp_threads c w s) bk"
proof -
  let ?m = "bank_accs c w s" and ?ts = "subwarp_threads c w s"
  let ?bk = "map_option (\<lambda>(b, k, n). (b, k)) (broadcast ?m)"
  note m = bank_accs_counted [of c w s]
  have "limited_bank_accesses (broadcast ?m) e = limited_load c w ?ts ?bk (fst e)" if "e \<in> set ?m" for e
  proof -
    have "snd e = value_at ?m (fst e) []" using counted_entry(1) [OF m, of "fst e" "snd e"] that by simp
    then have "sum_list (map snd (snd e)) = bank_threads c w ?ts (fst e)" using m by (simp add: counted_def)
    then show ?thesis using broadcast_first_shared(2) [OF m]
      by (cases "broadcast ?m") (auto simp: limited_bank_accesses_def limited_load_def)
  qed
  with counted_bank [OF m assms(2)] counted_absent(2) [OF m]
  have "foldl max 0 (map (limited_bank_accesses (broadcast ?m)) ?m) = limited_degree c w ?ts ?bk"
    unfolding limited_degree_def by (intro max_over_banks) (simp_all add: limited_load_def)
  with assms(1) broadcast_first_shared(1) [OF m] show ?thesis
    by (intro exI [of _ ?bk]) (simp add: subwarp_conflicts_def Let_def)
qed

lemma shared_cycles_total:
  assumes "0 < mem_warp_parts c" and "mem_warp_parts c dvd warp_size c" and "0 < num_shmem_bank c"
    and "active_threads c w \<noteq> []"
  shows "shared_cycles c w = Some (sum_list (map (subwarp_conflicts c w) [0..<mem_warp_parts c]))"
    and "0 < sum_list (map (subwarp_conflicts c w) [0..<mem_warp_parts c])"
    and "sum_list (map (subwarp_conflicts c w) [0..<mem_warp_parts c]) \<le> warp_size c"
proof -
  let ?sz = "warp_size c div mem_warp_parts c" and ?f = "subwarp_conflicts c w"
  have "?f s \<le> ?sz" for s
    using subwarp_conflicts_range(2) [of c w s] length_filter_le [of "bit (w_active w)" "[s * ?sz..<(s + 1) * ?sz]"]
    by (simp add: subwarp_threads_def Let_def)
  then have "sum_list (map ?f [0..<mem_warp_parts c]) \<le> sum_list (map (\<lambda>_. ?sz) [0..<mem_warp_parts c])"
    by (intro sum_list_mono)
  then show le: "sum_list (map ?f [0..<mem_warp_parts c]) \<le> warp_size c"
    using assms(2) by (simp add: sum_list_triv)
  obtain t where "t \<in> set (active_threads c w)" using assms(4) by (meson ex_in_conv set_empty)
  then obtain s where s: "s \<in> set [0..<mem_warp_parts c]" "t \<in> set (subwarp_threads c w s)"
    unfolding subwarp_union [OF assms(1,2), of w, symmetric] by blast
  then have "subwarp_threads c w s \<noteq> []" by auto
  then have "0 < ?f s" by (rule subwarp_conflicts_range(1))
  also have "?f s \<le> sum_list (map ?f [0..<mem_warp_parts c])" using s(1) by (intro member_le_sum_list) auto
  finally show "0 < sum_list (map ?f [0..<mem_warp_parts c])" .
  then show "shared_cycles c w = Some (sum_list (map ?f [0..<mem_warp_parts c]))"
    using le assms(1,3) by (simp add: shared_cycles_def guard_def Let_def)
qed

text \<open>
  C40: the cycles of a shared-memory access. For an access to shared memory with an active thread
  \<^verbatim>\<open>generate_mem_accesses\<close> does not abort, creates no memory access and sets \<^verbatim>\<open>cycles\<close> to between 1
  and the warp size. With full broadcast this is the sum over the subwarps of the largest number
  of different words accessed in one bank. With limited broadcast (the default) it is the sum over the subwarps of the
  largest number of threads that access one bank, where the threads of the first word, in the order of banks and
  words, that two threads access count once.
\<close>

theorem smem_cycles:
  assumes "generates w" and "w_threads_valid w" and "i_space w \<in> {shared_space, sstarr_space}"
    and "0 < mem_warp_parts c" and "mem_warp_parts c dvd warp_size c" and "0 < num_shmem_bank c"
    and "active_threads c w \<noteq> []"
  shows "\<exists>n. generate_mem_accesses c w uid = Some (w\<lparr>w_cycles := n, w_created := True\<rparr>, uid) \<and>
    0 < n \<and> n \<le> warp_size c \<and>
    (if shmem_limited_broadcast c
     then \<exists>bk. (\<forall>s. first_shared c w (subwarp_threads c w s) (bk s)) \<and>
       n = (\<Sum>s \<leftarrow> [0..<mem_warp_parts c]. limited_degree c w (subwarp_threads c w s) (bk s))
     else n = (\<Sum>s \<leftarrow> [0..<mem_warp_parts c]. conflict_degree c w (subwarp_threads c w s)))"
proof -
  have "is_load (inst_t.truncate w) \<or> is_store (inst_t.truncate w)"
    using assms(1) by (auto simp: generates_def is_load_def is_store_def inst_t.defs)
  moreover have "access_type_of (i_space w) x = Some None" for x using assms(3) by (auto simp: access_type_of_def)
  ultimately have gen: "generate_mem_accesses c w uid =
      Some (w\<lparr>w_cycles := sum_list (map (subwarp_conflicts c w) [0..<mem_warp_parts c]), w_created := True\<rparr>, uid)"
    using assms(1,2) shared_cycles_total(1) [OF assms(4-7)] by (simp add: generate_mem_accesses_def guard_def)
  show ?thesis
  proof (cases "shmem_limited_broadcast c")
    case True
    then obtain bk where bk: "\<And>s. first_shared c w (subwarp_threads c w s) (bk s)"
      "\<And>s. subwarp_conflicts c w s = limited_degree c w (subwarp_threads c w s) (bk s)"
      using limited_eq_degree [OF True assms(6)] by metis
    then have "subwarp_conflicts c w = (\<lambda>s. limited_degree c w (subwarp_threads c w s) (bk s))" by blast
    with gen shared_cycles_total(2,3) [OF assms(4-7)] bk(1) True show ?thesis by auto
  next
    case False
    then have "subwarp_conflicts c w = (\<lambda>s. conflict_degree c w (subwarp_threads c w s))"
      using conflicts_eq_degree [OF _ assms(6)] by blast
    with gen shared_cycles_total(2,3) [OF assms(4-7)] False show ?thesis by auto
  qed
qed

section \<open>Concrete warps\<close>

text \<open>
  Thread 0 and thread 1 are active. In \<open>demo_load\<close> they read two words of one block, in
  \<open>demo_atomic\<close> both update the same word, in \<open>demo_shared\<close> they read two words of bank 0.
\<close>

definition demo_core :: core_config where
  "demo_core = \<lparr>warp_size = 32, mem_warp_parts = 1, gpgpu_coalesce_arch = 60, gmem_skip_L1D = False,
     shmem_limited_broadcast = False, num_shmem_bank = 32, texl1_linesize = 128, constl1_linesize = 64\<rparr>"

definition demo_warp :: "memory_space \<Rightarrow> bool \<Rightarrow> u64 \<Rightarrow> u64 \<Rightarrow> warp_inst" where
  "demo_warp sp atomic a b = \<lparr>i_op = LOAD_OP, i_memory_op = memory_load, i_space = sp, i_out = [], i_outcount = 0,
     i_in = [], i_incount = 0, i_pred = 0, i_ar1 = 0, i_ar2 = 0, i_warp_id = 0, w_empty = False, w_active = 3,
     w_threads_valid = True, w_addrs = [a] # [b] # replicate 30 [], w_data_size = 4, w_cache_global = False,
     w_isatomic = atomic, w_accessq = [], w_created = False, w_cycles = 1\<rparr>"

lemma bit_3: "bit (3 :: warp_mask) t \<longleftrightarrow> t = 0 \<or> t = 1"
proof -
  have "mask 2 = (3 :: warp_mask)" by (simp add: mask_eq_exp_minus_1)
  moreover have "bit (mask 2 :: warp_mask) t \<longleftrightarrow> t = 0 \<or> t = 1" by (auto simp: bit_mask_iff)
  ultimately show ?thesis by metis
qed

lemma demo_active: "set (active_threads demo_core (demo_warp sp atm a b)) = {0, 1}"
proof -
  have "active_threads demo_core (demo_warp sp atm a b) = filter (bit (3 :: warp_mask)) [0..<32]"
    by (simp only: active_threads_def demo_core_def demo_warp_def core_config.select_convs warp_inst.select_convs)
  moreover have "set (filter (bit (3 :: warp_mask)) [0..<32]) = {t \<in> {0..<32}. t = 0 \<or> t = 1}"
    by (simp only: set_filter set_upt bit_3)
  moreover have "\<dots> = {0, 1 :: nat}" by fastforce
  ultimately show ?thesis by (simp only:)
qed

lemma demo_coalescable: "sp = global_space \<or> sp = local_space \<Longrightarrow> coalescable demo_core (demo_warp sp atm a b)"
  by (auto simp: coalescable_def generates_def demo_core_def demo_warp_def)

lemma demo_thread_addrs:
  "a \<noteq> 0 \<Longrightarrow> b \<noteq> 0 \<Longrightarrow> lane_addrs (demo_warp sp atm a b) 0 = [a]"
  "a \<noteq> 0 \<Longrightarrow> b \<noteq> 0 \<Longrightarrow> lane_addrs (demo_warp sp atm a b) 1 = [b]"
  "a \<noteq> 0 \<Longrightarrow> b \<noteq> 0 \<Longrightarrow> lane_addrs (demo_warp sp atm a b) (Suc 0) = [b]"
  by (simp_all add: lane_addrs_def demo_warp_def MAX_ACCESSES_PER_INSN_PER_THREAD_def)

lemma demo_size: "data_size_coales (demo_warp sp atm a b) = 4" "w_data_size (demo_warp sp atm a b) = 4"
  "w_isatomic (demo_warp sp atm a b) = atm" "w_accessq (demo_warp sp atm a b) = []"
  "i_space (demo_warp sp atm a b) = sp" "w_addrs (demo_warp sp atm a b) = [a] # [b] # replicate 30 []"
  by (simp_all add: data_size_coales_def demo_warp_def)

theorem coalesce_covers_witness:
  "\<exists>w' (accs :: mem_access list). generate_mem_accesses demo_core (demo_warp global_space False 0x1000 0x1044) 7 = Some (w', 7 + length accs) \<and>
    (\<exists>acc \<in> set accs. bit (acc_warp_mask acc) 1 \<and> unat (acc_addr acc) \<le> 0x1044 \<and> 0x1048 \<le> unat (acc_addr acc) + acc_req_size acc)"
proof -
  let ?w = "demo_warp global_space False 0x1000 0x1044"
  have w: "coalescable demo_core ?w" "\<not> w_isatomic ?w" by (simp_all add: demo_coalescable demo_size)
  have "\<forall>t \<in> set (active_threads demo_core ?w). \<forall>a \<in> set (lane_addrs ?w t). unat a mod data_size_coales ?w = 0"
    by (simp add: demo_active demo_thread_addrs demo_size)
  from coalesce_covers [OF w this, of 7] obtain w' and accs :: "mem_access list" where
    1: "generate_mem_accesses demo_core ?w 7 = Some (w', 7 + length accs)"
    and 2: "\<forall>t \<in> set (active_threads demo_core ?w). \<forall>a \<in> set (lane_addrs ?w t). \<exists>acc \<in> set accs.
      bit (acc_warp_mask acc) t \<and> unat (acc_addr acc) \<le> unat a \<and>
      unat a + data_size_coales ?w \<le> unat (acc_addr acc) + acc_req_size acc \<and>
      (\<forall>j < data_size_coales ?w. bit (acc_byte_mask acc) (byte_of a + j))"
    by (elim exE conjE) iprover
  have "1 \<in> set (active_threads demo_core ?w)" "0x1044 \<in> set (lane_addrs ?w 1)"
    by (simp_all add: demo_active demo_thread_addrs)
  from bspec [OF bspec [OF 2 this(1)] this(2)] obtain acc where "acc \<in> set accs" "bit (acc_warp_mask acc) 1"
    "unat (acc_addr acc) \<le> unat (0x1044 :: u64)"
    "unat (0x1044 :: u64) + data_size_coales ?w \<le> unat (acc_addr acc) + acc_req_size acc"
    by blast
  with 1 show ?thesis by (intro exI [of _ w'] exI [of _ accs]) (auto simp: demo_size intro!: bexI [of _ acc])
qed

theorem coalesce_minimal_witness:
  "\<exists>w' uid' acc. generate_mem_accesses demo_core (demo_warp global_space False 0x1000 0x1044) 7 = Some (w', uid') \<and>
    acc \<in> set (w_accessq w') \<and> acc_warp_mask acc \<noteq> 0 \<and> acc_req_size acc \<in> {32, 64, 128} \<and> acc_req_size acc \<le> 32"
proof -
  let ?w = "demo_warp global_space False 0x1000 0x1044"
  have w: "coalescable demo_core ?w" "\<not> w_isatomic ?w" by (simp_all add: demo_coalescable demo_size)
  obtain w' accs where g: "generate_mem_accesses demo_core ?w 7 = Some (w', 7 + length accs)"
    "w' = ?w\<lparr>w_accessq := w_accessq ?w @ accs, w_created := True\<rparr>"
    "serves (segment_size demo_core ?w) (data_size_coales ?w) (lane_pairs ?w (active_threads demo_core ?w)) accs"
    using coalesce_serves [OF w, of 7] by blast
  have "(0, 0x1000) \<in> lane_pairs ?w (active_threads demo_core ?w)"
    by (simp add: lane_pairs_def demo_active demo_thread_addrs)
  then obtain acc where "acc \<in> set accs" using g(3) by (auto simp: serves_def)
  then have acc: "acc \<in> set (drop (length (w_accessq ?w)) (w_accessq w'))" using g(2) by (simp add: demo_size)
  have "segment_size demo_core ?w = 32"
    by (simp add: segment_size_def sector_segment_size_def demo_core_def demo_warp_def)
  then show ?thesis using coalesce_minimal [OF w g(1) acc] g(1) acc
    by (intro exI [of _ w'] exI [of _ acc] exI) (auto simp: reduced_def demo_size)
qed

theorem atomic_lanes_disjoint_witness:
  "\<exists>w' (accs :: mem_access list). generate_mem_accesses demo_core (demo_warp global_space True 0x1000 0x1000) 7 = Some (w', 7 + length accs) \<and>
    list_all (\<lambda>acc. \<not> (bit (acc_warp_mask acc) 0 \<and> bit (acc_warp_mask acc) 1)) accs"
proof -
  let ?w = "demo_warp global_space True 0x1000 0x1000"
  have w: "coalescable demo_core ?w" "w_isatomic ?w" "i_space ?w = global_space"
    "\<forall>t \<in> set (active_threads demo_core ?w). unat (w_addrs ?w ! t ! 0) mod w_data_size ?w = 0"
    by (simp_all add: demo_coalescable demo_size demo_active)
  have key: "\<not> (bit m 0 \<and> bit m 1)"
    if "\<forall>t u. bit m t \<longrightarrow> t \<in> X \<and> P t \<and> Q t \<and> (bit m u \<and> t \<noteq> u \<longrightarrow>
       {unat (w_addrs ?w ! t ! 0)..<unat (w_addrs ?w ! t ! 0) + w_data_size ?w} \<inter>
       {unat (w_addrs ?w ! u ! 0)..<unat (w_addrs ?w ! u ! 0) + w_data_size ?w} = {})" for m :: warp_mask and X P Q
    using that [rule_format, of 0 1] by (auto simp: demo_size)
  from atomic_lanes_disjoint [OF w, of 7] obtain w' and accs :: "mem_access list" where
    1: "generate_mem_accesses demo_core ?w 7 = Some (w', 7 + length accs)"
    and 2: "\<forall>acc \<in> set accs. \<forall>t u. bit (acc_warp_mask acc) t \<longrightarrow> t \<in> set (active_threads demo_core ?w) \<and>
       unat (acc_addr acc) \<le> unat (w_addrs ?w ! t ! 0) \<and>
       unat (w_addrs ?w ! t ! 0) + w_data_size ?w \<le> unat (acc_addr acc) + acc_req_size acc \<and>
       (bit (acc_warp_mask acc) u \<and> t \<noteq> u \<longrightarrow>
         {unat (w_addrs ?w ! t ! 0)..<unat (w_addrs ?w ! t ! 0) + w_data_size ?w} \<inter>
         {unat (w_addrs ?w ! u ! 0)..<unat (w_addrs ?w ! u ! 0) + w_data_size ?w} = {})"
    by (elim exE conjE) iprover
  have "\<not> (bit (acc_warp_mask acc) 0 \<and> bit (acc_warp_mask acc) 1)" if "acc \<in> set accs" for acc
    by (rule key [OF bspec [OF 2 that]])
  with 1 show ?thesis unfolding list_all_iff by blast
qed

lemma demo_subwarp: "subwarp_threads (demo_core\<lparr>shmem_limited_broadcast := lb\<rparr>) (demo_warp sp atm a b) 0 = [0, 1]"
proof -
  have "subwarp_threads (demo_core\<lparr>shmem_limited_broadcast := lb\<rparr>) (demo_warp sp atm a b) 0 = filter (bit (3 :: warp_mask)) [0..<32]"
    by (simp add: subwarp_threads_def demo_core_def demo_warp_def)
  also have "\<dots> = filter (\<lambda>t. t = 0 \<or> t = 1) [0..<32]" by (rule filter_cong [OF refl bit_3])
  also have "\<dots> = [0, 1]" by code_simp
  finally show ?thesis .
qed

text \<open>
  With full broadcast, two words of bank 0 take two cycles. With limited broadcast, two threads that read one word take
  one: the word is the shared one, and its two readers count once.
\<close>

lemma demo_two_words: "conflict_degree demo_core (demo_warp shared_space False 0 128) [0, 1] = 2"
proof -
  let ?w = "demo_warp shared_space False 0 128"
  have a: "shmem_bank_func demo_core (smem_addr ?w 0) = 0" "shmem_bank_func demo_core (smem_addr ?w 1) = 0"
    "line_size_based_tag_func (smem_addr ?w 0) 4 = 0" "line_size_based_tag_func (smem_addr ?w 1) 4 = 128"
    by (simp_all add: smem_addr_def demo_warp_def demo_core_def shmem_bank_func_def line_size_based_tag_func_def)
  have "bank_words demo_core ?w [] b = {}" for b by (simp add: bank_words_def)
  with bank_words_snoc [of demo_core ?w "[]" 0] have "bank_words demo_core ?w [0] b = (if b = 0 then {0} else {})" for b
    by (simp add: a)
  with bank_words_snoc [of demo_core ?w "[0]" 1, unfolded append.simps a]
  have w: "bank_words demo_core ?w [0, 1] b = (if b = 0 then {128, 0} else {})" for b by simp
  have "card (bank_words demo_core ?w [0, 1] b) = (if b = 0 then 2 else 0)" for b unfolding w by simp
  then have "(\<lambda>b. card (bank_words demo_core ?w [0, 1] b)) ` {..<32} = {2, 0}" by (simp only:) force
  moreover have "num_shmem_bank demo_core = 32" by (simp add: demo_core_def)
  ultimately show ?thesis by (simp only: conflict_degree_def) simp
qed

lemma demo_one_word:
  assumes "first_shared (demo_core\<lparr>shmem_limited_broadcast := True\<rparr>) (demo_warp shared_space False 0 0) [0, 1] bk"
    (is "first_shared ?c ?w _ _")
  shows "limited_degree ?c ?w [0, 1] bk = 1"
proof -
  have r: "readers ?c ?w [0, 1] b k = (if b = 0 \<and> k = 0 then 2 else 0)" for b k
    by (auto simp: readers_def smem_addr_def demo_warp_def demo_core_def shmem_bank_func_def line_size_based_tag_func_def)
  have n: "bank_threads ?c ?w [0, 1] b = (if b = 0 then 2 else 0)" for b
    by (auto simp: bank_threads_def smem_addr_def demo_warp_def demo_core_def shmem_bank_func_def)
  have bk: "bk = Some (0, 0)" using assms unfolding first_shared_def r by (auto split: option.splits if_splits)
  have "limited_load ?c ?w [0, 1] bk b = (if b = 0 then 1 else 0)" for b unfolding limited_load_def bk r n by simp
  then have "limited_load ?c ?w [0, 1] bk ` {..<32} = {1, 0}" by force
  then show ?thesis by (simp add: limited_degree_def demo_core_def)
qed

theorem smem_cycles_witness:
  "generate_mem_accesses demo_core (demo_warp shared_space False 0 128) 7 =
      Some ((demo_warp shared_space False 0 128)\<lparr>w_cycles := 2, w_created := True\<rparr>, 7) \<and>
   generate_mem_accesses (demo_core\<lparr>shmem_limited_broadcast := True\<rparr>) (demo_warp shared_space False 0 0) 7 =
      Some ((demo_warp shared_space False 0 0)\<lparr>w_cycles := 1, w_created := True\<rparr>, 7)"
proof -
  let ?w = "\<lambda>a. demo_warp shared_space False 0 a" and ?c = "\<lambda>lb. demo_core\<lparr>shmem_limited_broadcast := lb\<rparr>"
  have act: "active_threads (?c lb) (?w a) \<noteq> []" for a lb
  proof -
    have "active_threads (?c lb) (?w a) = active_threads demo_core (?w a)" by (simp add: active_threads_def)
    moreover have "set (active_threads demo_core (?w a)) \<noteq> {}" unfolding demo_active by (rule insert_not_empty)
    ultimately show ?thesis by auto
  qed
  have g: "generates (?w a)" "w_threads_valid (?w a)" "i_space (?w a) \<in> {shared_space, sstarr_space}" for a
    by (simp_all add: generates_def demo_warp_def)
  have p: "0 < mem_warp_parts (?c lb)" "mem_warp_parts (?c lb) dvd warp_size (?c lb)" "0 < num_shmem_bank (?c lb)"
    and parts: "mem_warp_parts (?c lb) = 1" and full: "?c False = demo_core" for lb
    by (simp_all add: demo_core_def)
  from smem_cycles [OF g [of 128] p [of False] act [where a = 128 and lb = False], of 7] full have "generate_mem_accesses demo_core (?w 128) 7 =
      Some ((?w 128)\<lparr>w_cycles := 2, w_created := True\<rparr>, 7)"
    using demo_subwarp [of False] demo_two_words parts [of False] by (auto simp: demo_core_def)
  moreover have "generate_mem_accesses (?c True) (?w 0) 7 = Some ((?w 0)\<lparr>w_cycles := 1, w_created := True\<rparr>, 7)"
  proof -
    from smem_cycles [OF g [of 0] p [of True] act [where a = 0 and lb = True], of 7] obtain n bk where
      n: "generate_mem_accesses (?c True) (?w 0) 7 = Some ((?w 0)\<lparr>w_cycles := n, w_created := True\<rparr>, 7)"
      and bk: "\<forall>s. first_shared (?c True) (?w 0) (subwarp_threads (?c True) (?w 0) s) (bk s)"
      and sum: "n = (\<Sum>s \<leftarrow> [0..<mem_warp_parts (?c True)]. limited_degree (?c True) (?w 0) (subwarp_threads (?c True) (?w 0) s) (bk s))"
      by (auto split: if_splits)
    have "n = limited_degree (?c True) (?w 0) [0, 1] (bk 0)" unfolding sum parts by (simp add: demo_subwarp)
    moreover have "first_shared (?c True) (?w 0) [0, 1] (bk 0)" using bk [rule_format, of 0] unfolding demo_subwarp .
    ultimately have "n = 1" using demo_one_word by simp
    with n show ?thesis by simp
  qed
  ultimately show ?thesis by blast
qed

text \<open>
  An access that crosses a segment enters the next one with the address of its \<^emph>\<open>last\<close> byte, so
  the byte mask there starts at the last byte: 4 bytes at \<^verbatim>\<open>0x107e\<close> mark bytes 1 to 4 of the
  segment \<^verbatim>\<open>0x1080\<close>, not bytes 0 and 1.
\<close>

lemma crossing_marks_wrong_bytes:
  "map_option (\<lambda>i. map (bit (ti_bytes i)) [0, 1, 4]) (map_of (coalesce_access 128 4 0 [] 0x107e) 0x1080) =
     Some [False, True, True]"
  by (simp add: coalesce_access_def Let_def line_size_based_tag_func_def bit_simps byte_of_mod)

end
