(* ===== verification/Dram_Sched.thy ===== *)
theory Dram_Sched
  imports Std_Map "HOL-Library.Multiset"
begin

text \<open>
  The first-ready first-come-first-served scheduler of a DRAM channel (dram_sched.cc): for every
  bank a queue of requests, newest first, and an index from rows to the requests of that row.
  A request is a number that \<open>pool\<close> maps to its record; a request is queued once, so an iterator
  into the queue is the request itself. The hit, access and service-time statistics are left out.
\<close>

section \<open>State\<close>

record dram_req =
  dr_row :: u32
  dr_col :: u32
  dr_bk :: nat
  dr_nbytes :: nat
  dr_txbytes :: nat
  dr_dqbytes :: nat
  dr_write :: bool
  dr_data :: nat

record frfcfs_config =
  fc_nbk :: nat
  fc_seperate_write_queue :: bool
  fc_sched_queue_size :: nat
  fc_write_queue_size :: nat
  fc_write_high_watermark :: nat
  fc_write_low_watermark :: nat

datatype memory_mode = READ_MODE | WRITE_MODE

text \<open>
  One side of the scheduler: \<^verbatim>\<open>m_queue\<close>, \<^verbatim>\<open>m_bins\<close>, \<^verbatim>\<open>m_last_row\<close>, or their \<^verbatim>\<open>write\<close> variants. The
  pointer \<^verbatim>\<open>m_last_row[bank]\<close> to a bin of the bank is the key of the bin.
\<close>

record sched_side =
  sd_queue :: "nat list list"
  sd_bins :: "(u32 \<times> nat list) list list"
  sd_last_row :: "u32 option list"

record frfcfs =
  fs_num_pending :: nat
  fs_num_write_pending :: nat
  fs_read :: sched_side
  fs_write :: sched_side
  fs_mode :: memory_mode

definition sched_side_new :: "nat \<Rightarrow> sched_side" where
  "sched_side_new nbk = \<lparr>sd_queue = replicate nbk [], sd_bins = replicate nbk [], sd_last_row = replicate nbk None\<rparr>"

definition frfcfs_new :: "frfcfs_config \<Rightarrow> frfcfs" where
  "frfcfs_new c = \<lparr>fs_num_pending = 0, fs_num_write_pending = 0, fs_read = sched_side_new (fc_nbk c),
     fs_write = sched_side_new (fc_nbk c), fs_mode = READ_MODE\<rparr>"

section \<open>Operations\<close>

definition side_add :: "nat \<Rightarrow> u32 \<Rightarrow> nat \<Rightarrow> sched_side \<Rightarrow> sched_side" where
  "side_add bank row req s =
     s\<lparr>sd_queue := (sd_queue s)[bank := req # sd_queue s ! bank],
       sd_bins := (sd_bins s)[bank := map_at row (Cons req) [] (sd_bins s ! bank)]\<rparr>"

definition add_req :: "frfcfs_config \<Rightarrow> (nat \<Rightarrow> dram_req option) \<Rightarrow> frfcfs \<Rightarrow> nat \<Rightarrow> frfcfs option" where
  "add_req c pool s req = do {
     r \<leftarrow> pool req;
     guard (dr_bk r < fc_nbk c);
     (if fc_seperate_write_queue c \<and> dr_write r then do {
        guard (fs_num_write_pending s < fc_write_queue_size c);
        Some (s\<lparr>fs_num_write_pending := fs_num_write_pending s + 1,
                fs_write := side_add (dr_bk r) (dr_row r) req (fs_write s)\<rparr>) }
      else do {
        guard (fs_num_pending s < fc_sched_queue_size c);
        Some (s\<lparr>fs_num_pending := fs_num_pending s + 1,
                fs_read := side_add (dr_bk r) (dr_row r) req (fs_read s)\<rparr>) }) }"

text \<open>The watermarks switch the direction.\<close>

definition switch_mode :: "frfcfs_config \<Rightarrow> frfcfs \<Rightarrow> memory_mode" where
  "switch_mode c s =
    (if fc_seperate_write_queue c then
       (if fs_mode s = READ_MODE \<and> fc_write_high_watermark c \<le> fs_num_write_pending s then WRITE_MODE
        else if fs_mode s = WRITE_MODE \<and> fs_num_write_pending s < fc_write_low_watermark c then READ_MODE
        else fs_mode s)
     else fs_mode s)"

text \<open>The row to serve: \<open>None\<close> is a failed assertion, \<open>Some None\<close> the \<^verbatim>\<open>return NULL\<close>.\<close>

definition choose_row :: "(nat \<Rightarrow> dram_req option) \<Rightarrow> sched_side \<Rightarrow> nat \<Rightarrow> u32 \<Rightarrow> u32 option option" where
  "choose_row pool s bank curr_row = (case sd_last_row s ! bank of
       Some row \<Rightarrow> Some (Some row)
     | None \<Rightarrow>
         if sd_queue s ! bank = [] then Some None
         else if map_of (sd_bins s ! bank) curr_row \<noteq> None then Some (Some curr_row)
         else do {
           r \<leftarrow> pool (last (sd_queue s ! bank));
           guard (map_of (sd_bins s ! bank) (dr_row r) \<noteq> None);
           Some (Some (dr_row r)) })"

text \<open>Taking the oldest request of a row out of the bin and the queue.\<close>

definition take_req :: "sched_side \<Rightarrow> nat \<Rightarrow> u32 \<Rightarrow> (nat \<times> sched_side) option" where
  "take_req s bank row = do {
     bin \<leftarrow> map_of (sd_bins s ! bank) row;
     guard (bin \<noteq> []);
     let req = last bin;
     let bin' = butlast bin;
     let q = remove1 req (sd_queue s ! bank);
     Some (req,
       if bin' = [] then
         s\<lparr>sd_queue := (sd_queue s)[bank := q],
           sd_bins := (sd_bins s)[bank := filter (\<lambda>e. fst e \<noteq> row) (sd_bins s ! bank)],
           sd_last_row := (sd_last_row s)[bank := None]\<rparr>
       else
         s\<lparr>sd_queue := (sd_queue s)[bank := q],
           sd_bins := (sd_bins s)[bank := map_at row (\<lambda>_. bin') [] (sd_bins s ! bank)],
           sd_last_row := (sd_last_row s)[bank := Some row]\<rparr>) }"

definition schedule ::
  "frfcfs_config \<Rightarrow> (nat \<Rightarrow> dram_req option) \<Rightarrow> frfcfs \<Rightarrow> nat \<Rightarrow> u32 \<Rightarrow> (nat option \<times> frfcfs) option" where
  "schedule c pool s bank curr_row = do {
     guard (bank < fc_nbk c);
     let s = s\<lparr>fs_mode := switch_mode c s\<rparr>;
     let side = (if fs_mode s = WRITE_MODE then fs_write s else fs_read s);
     row \<leftarrow> choose_row pool side bank curr_row;
     (case row of
        None \<Rightarrow> Some (None, s)
      | Some row \<Rightarrow> do {
          (req, side) \<leftarrow> take_req side bank row;
          r \<leftarrow> pool req;
          let s = (if fs_mode s = WRITE_MODE then s\<lparr>fs_write := side\<rparr> else s\<lparr>fs_read := side\<rparr>);
          (if fc_seperate_write_queue c \<and> dr_write r then do {
             guard (fs_num_write_pending s \<noteq> 0);
             Some (Some req, s\<lparr>fs_num_write_pending := fs_num_write_pending s - 1\<rparr>) }
           else do {
             guard (fs_num_pending s \<noteq> 0);
             Some (Some req, s\<lparr>fs_num_pending := fs_num_pending s - 1\<rparr>) }) }) }"

section \<open>The specification of a choice\<close>

text \<open>
  On the pending requests of a bank alone, newest first: the oldest request of the row that is
  being served, else of the open row, else the oldest request and its row.
\<close>

definition row_of :: "(nat \<Rightarrow> dram_req option) \<Rightarrow> nat \<Rightarrow> u32" where
  "row_of pool req = (case pool req of Some r \<Rightarrow> dr_row r | None \<Rightarrow> 0)"

definition spec_row :: "(nat \<Rightarrow> u32) \<Rightarrow> nat list \<Rightarrow> u32 option \<Rightarrow> u32 \<Rightarrow> u32" where
  "spec_row f q streak curr_row = (case streak of
       Some row \<Rightarrow> row
     | None \<Rightarrow> if curr_row \<in> f ` set q then curr_row else f (last q))"

definition of_row :: "(nat \<Rightarrow> u32) \<Rightarrow> u32 \<Rightarrow> nat list \<Rightarrow> nat list" where
  "of_row f row = filter (\<lambda>x. f x = row)"

text \<open>The index agrees with the queue, and a streak has a request left.\<close>

definition bank_ok :: "(nat \<Rightarrow> u32) \<Rightarrow> nat list \<Rightarrow> (u32 \<times> nat list) list \<Rightarrow> u32 option \<Rightarrow> bool" where
  "bank_ok f q bins streak \<longleftrightarrow> distinct q \<and> std_map bins \<and>
     (\<forall>row. map_of bins row = (if of_row f row q = [] then None else Some (of_row f row q))) \<and>
     (\<forall>row. streak = Some row \<longrightarrow> of_row f row q \<noteq> [])"

definition side_ok :: "frfcfs_config \<Rightarrow> (nat \<Rightarrow> dram_req option) \<Rightarrow> (dram_req \<Rightarrow> bool) \<Rightarrow> sched_side \<Rightarrow> bool" where
  "side_ok c pool P s \<longleftrightarrow> length (sd_queue s) = fc_nbk c \<and> length (sd_bins s) = fc_nbk c \<and>
     length (sd_last_row s) = fc_nbk c \<and>
     (\<forall>b < fc_nbk c. bank_ok (row_of pool) (sd_queue s ! b) (sd_bins s ! b) (sd_last_row s ! b) \<and>
        (\<forall>req \<in> set (sd_queue s ! b). \<exists>r. pool req = Some r \<and> dr_bk r = b \<and> P r))"

lemma of_row_simps [simp]: "of_row f row [] = []"
  "of_row f row (x # q) = (if f x = row then x # of_row f row q else of_row f row q)"
  by (simp_all add: of_row_def)

lemma of_row_empty: "of_row f row q = [] \<longleftrightarrow> row \<notin> f ` set q"
  by (auto simp: of_row_def filter_empty_conv)

lemma set_of_row: "set (of_row f row q) = {x \<in> set q. f x = row}"
  by (auto simp: of_row_def)

lemma butlast_filter:
  "distinct q \<Longrightarrow> filter P q \<noteq> [] \<Longrightarrow> filter P (remove1 (last (filter P q)) q) = butlast (filter P q)"
proof (induction q)
  case (Cons x q)
  show ?case
  proof (cases "filter P q = []")
    case True
    with Cons.prems show ?thesis by (auto split: if_splits)
  next
    case False
    then have "last (filter P q) \<in> set (filter P q)" by (rule last_in_set)
    then have "last (filter P q) \<noteq> x" using Cons.prems(1) by auto
    with Cons False show ?thesis by auto
  qed
qed simp

lemma filter_remove1_other: "\<not> P x \<Longrightarrow> filter P (remove1 x q) = filter P q"
  by (induction q) auto

lemma bank_ok_add:
  assumes "bank_ok f q bins streak" and "req \<notin> set q"
  shows "bank_ok f (req # q) (map_at (f req) (Cons req) [] bins) streak"
  using assms by (auto simp: bank_ok_def map_of_map_at value_at_def)

text \<open>Taking the oldest request of a row from a bank that has one.\<close>

lemma bank_ok_take:
  assumes ok: "bank_ok f q bins streak" and some: "of_row f row q \<noteq> []"
  defines "req \<equiv> last (of_row f row q)" and "bin' \<equiv> butlast (of_row f row q)"
  shows "req \<in> set q" and "f req = row"
    and "bin' = [] \<Longrightarrow> bank_ok f (remove1 req q) (filter (\<lambda>e. fst e \<noteq> row) bins) None"
    and "bin' \<noteq> [] \<Longrightarrow> bank_ok f (remove1 req q) (map_at row (\<lambda>_. bin') [] bins) (Some row)"
proof -
  have d: "distinct q" and std: "std_map bins"
    and m: "\<And>row. map_of bins row = (if of_row f row q = [] then None else Some (of_row f row q))"
    using ok by (auto simp: bank_ok_def)
  have "req \<in> set (of_row f row q)" unfolding req_def using some by (rule last_in_set)
  then show req: "req \<in> set q" "f req = row" by (auto simp: set_of_row)
  have same: "of_row f row (remove1 req q) = bin'"
    using butlast_filter [OF d] some by (simp add: of_row_def req_def bin'_def)
  have other: "of_row f r (remove1 req q) = of_row f r q" if "r \<noteq> row" for r
    unfolding of_row_def by (rule filter_remove1_other) (use req(2) that in auto)
  have mf: "map_of (filter (\<lambda>e. fst e \<noteq> row) bins) r = (if r = row then None else map_of bins r)" for r
    by (induction bins) auto
  have stdf: "std_map (filter (\<lambda>e. fst e \<noteq> row) bins)"
    using std by (simp add: std_map_def sorted_wrt_map sorted_wrt_filter)
  show "bin' = [] \<Longrightarrow> bank_ok f (remove1 req q) (filter (\<lambda>e. fst e \<noteq> row) bins) None"
    using d stdf m same other by (auto simp: bank_ok_def mf)
  show "bin' \<noteq> [] \<Longrightarrow> bank_ok f (remove1 req q) (map_at row (\<lambda>_. bin') [] bins) (Some row)"
    using d std m same other by (auto simp: bank_ok_def map_of_map_at)
qed

text \<open>The oldest request of the row that the specification chooses.\<close>

definition spec_req :: "(nat \<Rightarrow> u32) \<Rightarrow> nat list \<Rightarrow> u32 option \<Rightarrow> u32 \<Rightarrow> nat" where
  "spec_req f q streak curr_row = last (of_row f (spec_row f q streak curr_row) q)"

lemma choose_row_spec:
  assumes ok: "bank_ok (row_of pool) (sd_queue s ! b) (sd_bins s ! b) (sd_last_row s ! b)"
    and pool: "\<forall>req \<in> set (sd_queue s ! b). pool req \<noteq> None"
  shows "sd_queue s ! b = [] \<Longrightarrow> choose_row pool s b cur = Some None"
    and "sd_queue s ! b \<noteq> [] \<Longrightarrow>
      choose_row pool s b cur = Some (Some (spec_row (row_of pool) (sd_queue s ! b) (sd_last_row s ! b) cur)) \<and>
      of_row (row_of pool) (spec_row (row_of pool) (sd_queue s ! b) (sd_last_row s ! b) cur) (sd_queue s ! b) \<noteq> []"
proof -
  let ?q = "sd_queue s ! b" and ?f = "row_of pool"
  have m: "map_of (sd_bins s ! b) row \<noteq> None \<longleftrightarrow> row \<in> ?f ` set ?q" for row
    using ok by (auto simp: bank_ok_def of_row_empty)
  show "?q = [] \<Longrightarrow> choose_row pool s b cur = Some None"
    using ok by (auto simp: choose_row_def bank_ok_def split: option.splits)
  assume q: "?q \<noteq> []"
  then obtain r where r: "pool (last ?q) = Some r" using pool by (metis last_in_set option.exhaust)
  then have row: "dr_row r = ?f (last ?q)" by (simp add: row_of_def)
  have "?f (last ?q) \<in> ?f ` set ?q" using q by simp
  then show "choose_row pool s b cur = Some (Some (spec_row ?f ?q (sd_last_row s ! b) cur)) \<and>
      of_row ?f (spec_row ?f ?q (sd_last_row s ! b) cur) ?q \<noteq> []"
    using q r m [of cur] m [of "?f (last ?q)"] ok row
    by (auto simp: choose_row_def spec_row_def guard_def of_row_empty bank_ok_def split: option.splits)
qed

definition take_spec :: "(nat \<Rightarrow> u32) \<Rightarrow> sched_side \<Rightarrow> nat \<Rightarrow> u32 \<Rightarrow> sched_side \<Rightarrow> bool" where
  "take_spec f s b cur s' \<longleftrightarrow>
     (let q = sd_queue s ! b; row = spec_row f q (sd_last_row s ! b) cur; req = spec_req f q (sd_last_row s ! b) cur in
      sd_queue s' = (sd_queue s)[b := remove1 req q] \<and>
      sd_last_row s' = (sd_last_row s)[b := if of_row f row (remove1 req q) = [] then None else Some row])"

lemma take_req_spec:
  fixes cur :: u32
  assumes s: "side_ok c pool P s" and b: "b < fc_nbk c" and q: "sd_queue s ! b \<noteq> []"
  defines "row \<equiv> spec_row (row_of pool) (sd_queue s ! b) (sd_last_row s ! b) cur"
    and "req \<equiv> spec_req (row_of pool) (sd_queue s ! b) (sd_last_row s ! b) cur"
  shows "\<exists>s'. choose_row pool s b cur = Some (Some row) \<and> take_req s b row = Some (req, s') \<and>
    side_ok c pool P s' \<and> take_spec (row_of pool) s b cur s' \<and> req \<in> set (sd_queue s ! b)"
proof -
  let ?f = "row_of pool" and ?q = "sd_queue s ! b" and ?bins = "sd_bins s ! b"
  let ?bin' = "butlast (of_row ?f row ?q)" and ?q' = "remove1 req ?q"
  let ?s0 = "s\<lparr>sd_queue := (sd_queue s)[b := ?q'], sd_bins := (sd_bins s)[b := filter (\<lambda>e. fst e \<noteq> row) ?bins],
    sd_last_row := (sd_last_row s)[b := None]\<rparr>"
  let ?s1 = "s\<lparr>sd_queue := (sd_queue s)[b := ?q'], sd_bins := (sd_bins s)[b := map_at row (\<lambda>_. ?bin') [] ?bins],
    sd_last_row := (sd_last_row s)[b := Some row]\<rparr>"
  have ok: "bank_ok ?f ?q ?bins (sd_last_row s ! b)"
    and reqs: "\<forall>req \<in> set ?q. \<exists>r. pool req = Some r \<and> dr_bk r = b \<and> P r"
    using s b by (simp_all add: side_ok_def)
  have len: "b < length (sd_queue s)" "b < length (sd_bins s)" "b < length (sd_last_row s)"
    using s b by (simp_all add: side_ok_def)
  have c: "choose_row pool s b cur = Some (Some row)" and some: "of_row ?f row ?q \<noteq> []"
    using choose_row_spec(2) [OF ok _ q, of cur] reqs unfolding row_def by auto
  have req: "req = last (of_row ?f row ?q)" by (simp add: req_def row_def spec_req_def)
  note t = bank_ok_take [OF ok some, folded req]
  have mo: "map_of ?bins row = Some (of_row ?f row ?q)" using ok some by (simp add: bank_ok_def)
  have d: "distinct ?q" using ok by (simp add: bank_ok_def)
  have left: "of_row ?f row ?q' = ?bin'"
    using butlast_filter [OF d] some by (simp add: of_row_def req)
  have sub: "set ?q' \<subseteq> set ?q" by (rule set_remove1_subset)
  define s' where "s' = (if ?bin' = [] then ?s0 else ?s1)"
  have "take_req s b row = Some (req, s')"
    using mo some by (simp add: take_req_def Let_def guard_def req s'_def)
  moreover have "side_ok c pool P s'"
    using s t(3,4) reqs sub len unfolding side_ok_def s'_def by (auto simp: nth_list_update)
  moreover have "take_spec ?f s b cur s'"
    using left by (auto simp: take_spec_def Let_def s'_def row_def req_def)
  ultimately show ?thesis using c t(1) by blast
qed

section \<open>Runs\<close>

datatype sched_event = AddReq nat | Schedule nat u32

text \<open>The event log keeps what the scheduler returned.\<close>

definition sched_step :: "frfcfs_config \<Rightarrow> (nat \<Rightarrow> dram_req option) \<Rightarrow> frfcfs \<times> nat list \<Rightarrow> sched_event \<Rightarrow> (frfcfs \<times> nat list) option" where
  "sched_step c pool st e = (case st of (s, out) \<Rightarrow> (case e of
       AddReq req \<Rightarrow> map_option (\<lambda>s. (s, out)) (add_req c pool s req)
     | Schedule bank row \<Rightarrow> do {
         (req, s) \<leftarrow> schedule c pool s bank row;
         Some (s, (case req of None \<Rightarrow> out | Some x \<Rightarrow> out @ [x])) }))"

definition side_reqs :: "sched_side \<Rightarrow> nat list" where
  "side_reqs s = concat (sd_queue s)"

definition pending_reqs :: "frfcfs \<Rightarrow> nat list" where
  "pending_reqs s = side_reqs (fs_read s) @ side_reqs (fs_write s)"

definition frfcfs_inv :: "frfcfs_config \<Rightarrow> (nat \<Rightarrow> dram_req option) \<Rightarrow> frfcfs \<Rightarrow> bool" where
  "frfcfs_inv c pool s \<longleftrightarrow>
     side_ok c pool (\<lambda>r. \<not> (fc_seperate_write_queue c \<and> dr_write r)) (fs_read s) \<and>
     side_ok c pool (\<lambda>r. fc_seperate_write_queue c \<and> dr_write r) (fs_write s) \<and>
     fs_num_pending s = length (side_reqs (fs_read s)) \<and>
     fs_num_write_pending s = length (side_reqs (fs_write s)) \<and>
     fs_num_pending s \<le> fc_sched_queue_size c \<and> fs_num_write_pending s \<le> fc_write_queue_size c \<and>
     (fs_mode s = WRITE_MODE \<longrightarrow> fc_seperate_write_queue c)"

lemma side_new_ok: "side_ok c pool P (sched_side_new (fc_nbk c))"
  by (simp add: side_ok_def sched_side_new_def bank_ok_def)

lemma side_new_reqs [simp]: "side_reqs (sched_side_new n) = []"
  by (simp add: side_reqs_def sched_side_new_def)

lemma frfcfs_new_inv: "frfcfs_inv c pool (frfcfs_new c)"
  by (simp add: frfcfs_inv_def frfcfs_new_def side_new_ok)

lemma mset_concat_update:
  "b < length qs \<Longrightarrow> mset (concat (qs[b := q])) + mset (qs ! b) = mset (concat qs) + mset q"
proof (induction qs arbitrary: b)
  case (Cons x qs)
  show ?case
  proof (cases b)
    case (Suc k)
    with Cons have "mset (concat (qs[k := q])) + mset (qs ! k) = mset (concat qs) + mset q" by simp
    then show ?thesis using Suc by (simp add: add.assoc)
  qed (simp add: ac_simps)
qed simp

lemma side_add_reqs:
  "b < length (sd_queue s) \<Longrightarrow> mset (side_reqs (side_add b row req s)) = add_mset req (mset (side_reqs s))"
  using mset_concat_update [of b "sd_queue s" "req # sd_queue s ! b"] by (simp add: side_reqs_def side_add_def)

lemma take_reqs:
  assumes "b < length (sd_queue s)" and "sd_queue s' = (sd_queue s)[b := remove1 req (sd_queue s ! b)]"
    and "req \<in> set (sd_queue s ! b)"
  shows "mset (side_reqs s) = add_mset req (mset (side_reqs s'))"
proof -
  let ?q = "remove1 req (sd_queue s ! b)"
  have "mset (sd_queue s ! b) = add_mset req (mset ?q)" using assms(3) by simp
  with mset_concat_update [OF assms(1), of ?q]
  have "add_mset req (mset (concat (sd_queue s'))) + mset ?q = mset (concat (sd_queue s)) + mset ?q"
    by (simp add: assms(2) del: mset_remove1)
  then show ?thesis unfolding side_reqs_def by (metis add_right_cancel)
qed

lemma side_add_ok:
  assumes s: "side_ok c pool P s" and r: "pool req = Some r" "dr_bk r < fc_nbk c" "P r" and new: "req \<notin> set (side_reqs s)"
  shows "side_ok c pool P (side_add (dr_bk r) (dr_row r) req s)"
proof -
  have len: "dr_bk r < length (sd_queue s)" "dr_bk r < length (sd_bins s)"
    using s r(2) by (simp_all add: side_ok_def)
  have "req \<notin> set (sd_queue s ! dr_bk r)" using new len(1) by (auto simp: side_reqs_def)
  moreover have "bank_ok (row_of pool) (sd_queue s ! dr_bk r) (sd_bins s ! dr_bk r) (sd_last_row s ! dr_bk r)"
    using s r(2) by (simp add: side_ok_def)
  ultimately have "bank_ok (row_of pool) (req # sd_queue s ! dr_bk r)
      (map_at (dr_row r) (Cons req) [] (sd_bins s ! dr_bk r)) (sd_last_row s ! dr_bk r)"
    using bank_ok_add [where f = "row_of pool" and req = req] r(1) by (simp add: row_of_def)
  then show ?thesis using s r len unfolding side_ok_def side_add_def by (auto simp: nth_list_update)
qed

text \<open>\<^verbatim>\<open>dram_t::full\<close> for this scheduler, the guard of its callers.\<close>

definition sched_full :: "frfcfs_config \<Rightarrow> frfcfs \<Rightarrow> bool \<Rightarrow> bool" where
  "sched_full c s wr =
    (if fc_sched_queue_size c = 0 then False
     else if fc_seperate_write_queue c \<and> wr then fc_write_queue_size c \<le> fs_num_write_pending s
     else fc_sched_queue_size c \<le> fs_num_pending s)"

lemma add_req_ok:
  assumes s: "frfcfs_inv c pool s" and r: "pool req = Some r" "dr_bk r < fc_nbk c"
    and room: "0 < fc_sched_queue_size c" "\<not> sched_full c s (dr_write r)" and new: "req \<notin> set (pending_reqs s)"
  shows "\<exists>s'. add_req c pool s req = Some s' \<and> frfcfs_inv c pool s' \<and>
    mset (pending_reqs s') = add_mset req (mset (pending_reqs s))"
proof -
  let ?P = "\<lambda>r. fc_seperate_write_queue c \<and> dr_write r"
  have len: "dr_bk r < length (sd_queue (fs_read s))" "dr_bk r < length (sd_queue (fs_write s))"
    using s r(2) by (simp_all add: frfcfs_inv_def side_ok_def)
  have nr: "req \<notin> set (side_reqs (fs_read s))" "req \<notin> set (side_reqs (fs_write s))"
    using new by (simp_all add: pending_reqs_def)
  show ?thesis
  proof (cases "?P r")
    case True
    let ?w = "side_add (dr_bk r) (dr_row r) req (fs_write s)"
    have "side_ok c pool ?P ?w" by (rule side_add_ok) (use s r True nr in \<open>auto simp: frfcfs_inv_def\<close>)
    moreover note side_add_reqs [OF len(2), of "dr_row r" req]
    moreover have "length (side_reqs ?w) = Suc (length (side_reqs (fs_write s)))"
      using side_add_reqs [OF len(2), of "dr_row r" req] by (metis size_add_mset size_mset)
    ultimately show ?thesis using s r room True
      by (auto simp: add_req_def guard_def frfcfs_inv_def pending_reqs_def sched_full_def)
  next
    case False
    let ?w = "side_add (dr_bk r) (dr_row r) req (fs_read s)"
    have "side_ok c pool (\<lambda>r. \<not> ?P r) ?w" by (rule side_add_ok) (use s r False nr in \<open>auto simp: frfcfs_inv_def\<close>)
    moreover note side_add_reqs [OF len(1), of "dr_row r" req]
    moreover have "length (side_reqs ?w) = Suc (length (side_reqs (fs_read s)))"
      using side_add_reqs [OF len(1), of "dr_row r" req] by (metis size_add_mset size_mset)
    ultimately show ?thesis using s r room False
      by (auto simp: add_req_def guard_def frfcfs_inv_def pending_reqs_def sched_full_def)
  qed
qed

text \<open>The side that a call of \<^verbatim>\<open>schedule\<close> serves.\<close>

definition served_side :: "frfcfs_config \<Rightarrow> frfcfs \<Rightarrow> sched_side" where
  "served_side c s = (if switch_mode c s = WRITE_MODE then fs_write s else fs_read s)"

definition schedule_spec :: "frfcfs_config \<Rightarrow> (nat \<Rightarrow> dram_req option) \<Rightarrow> frfcfs \<Rightarrow> nat \<Rightarrow> u32 \<Rightarrow> nat option" where
  "schedule_spec c pool s b cur = (let side = served_side c s in
     if sd_queue side ! b = [] then None
     else Some (spec_req (row_of pool) (sd_queue side ! b) (sd_last_row side ! b) cur))"

lemma schedule_ok:
  assumes s: "frfcfs_inv c pool s" and b: "b < fc_nbk c"
  shows "\<exists>s'. schedule c pool s b cur = Some (schedule_spec c pool s b cur, s') \<and> frfcfs_inv c pool s' \<and>
    fs_mode s' = switch_mode c s \<and>
    (case schedule_spec c pool s b cur of
       None \<Rightarrow> s' = s\<lparr>fs_mode := switch_mode c s\<rparr>
     | Some x \<Rightarrow> mset (pending_reqs s) = add_mset x (mset (pending_reqs s')) \<and>
         take_spec (row_of pool) (served_side c s) b cur (if switch_mode c s = WRITE_MODE then fs_write s' else fs_read s') \<and>
         (if switch_mode c s = WRITE_MODE then fs_read s' = fs_read s else fs_write s' = fs_write s))"
proof -
  let ?m = "switch_mode c s" and ?side = "served_side c s"
  let ?P = "\<lambda>r. if ?m = WRITE_MODE then fc_seperate_write_queue c \<and> dr_write r else \<not> (fc_seperate_write_queue c \<and> dr_write r)"
  have sep: "?m = WRITE_MODE \<Longrightarrow> fc_seperate_write_queue c"
    using s by (auto simp: switch_mode_def frfcfs_inv_def split: if_splits)
  have side: "side_ok c pool ?P ?side" using s by (auto simp: served_side_def frfcfs_inv_def)
  then have bank: "bank_ok (row_of pool) (sd_queue ?side ! b) (sd_bins ?side ! b) (sd_last_row ?side ! b)"
    and reqs: "\<forall>req \<in> set (sd_queue ?side ! b). \<exists>r. pool req = Some r \<and> dr_bk r = b \<and> ?P r"
    and len: "b < length (sd_queue ?side)" using b by (simp_all add: side_ok_def)
  show ?thesis
  proof (cases "sd_queue ?side ! b = []")
    case True
    then have "choose_row pool ?side b cur = Some None" using choose_row_spec(1) [OF bank] reqs by auto
    then show ?thesis using True b s sep
      by (auto simp: schedule_def schedule_spec_def Let_def guard_def served_side_def frfcfs_inv_def split: if_splits)
  next
    case False
    let ?x = "spec_req (row_of pool) (sd_queue ?side ! b) (sd_last_row ?side ! b) cur"
    from take_req_spec [OF side b False, of cur] obtain row t where
      t: "choose_row pool ?side b cur = Some (Some row)" "take_req ?side b row = Some (?x, t)"
      "side_ok c pool ?P t" "take_spec (row_of pool) ?side b cur t" "?x \<in> set (sd_queue ?side ! b)" by blast
    have "sd_queue t = (sd_queue ?side)[b := remove1 ?x (sd_queue ?side ! b)]"
      using t(4) by (simp add: take_spec_def Let_def)
    from take_reqs [OF len this t(5)] have rs: "mset (side_reqs ?side) = add_mset ?x (mset (side_reqs t))" .
    then have sz: "length (side_reqs ?side) = Suc (length (side_reqs t))" by (metis size_add_mset size_mset)
    obtain r where r: "pool ?x = Some r" "?P r" using reqs t(5) by blast
    have spec: "schedule_spec c pool s b cur = Some ?x" using False by (simp add: schedule_spec_def Let_def)
    show ?thesis
    proof (cases "?m = WRITE_MODE")
      case True
      then show ?thesis using t rs sz r b s sep spec
        by (auto simp: schedule_def Let_def guard_def served_side_def frfcfs_inv_def pending_reqs_def)
    next
      case False
      then show ?thesis using t rs sz r b s spec
        by (auto simp: schedule_def Let_def guard_def served_side_def frfcfs_inv_def pending_reqs_def)
    qed
  qed
qed

section \<open>Properties\<close>

text \<open>
  C8: a call of \<open>schedule\<close> is first-ready first-come-first-served: it returns nothing when the bank
  has no request, else the oldest request of the row it is serving, or when there is none of the
  open row, or when none waits for that the oldest request of the bank; the row index and the
  iterators that the code works on never contradict the queue.
\<close>

theorem schedule_first_ready:
  assumes "frfcfs_inv c pool s" and "b < fc_nbk c"
  shows "map_option fst (schedule c pool s b cur) = Some (schedule_spec c pool s b cur)"
  using schedule_ok [OF assms, of cur] by auto

text \<open>What the callers keep to: room is asked for with \<^verbatim>\<open>full\<close>, and a request is pushed once.\<close>

definition sched_ok :: "frfcfs_config \<Rightarrow> (nat \<Rightarrow> dram_req option) \<Rightarrow> frfcfs \<times> nat list \<Rightarrow> sched_event \<Rightarrow> bool" where
  "sched_ok c pool st e = (case e of
       AddReq req \<Rightarrow> (case pool req of None \<Rightarrow> False
         | Some r \<Rightarrow> dr_bk r < fc_nbk c \<and> 0 < fc_sched_queue_size c \<and> \<not> sched_full c (fst st) (dr_write r) \<and>
             req \<notin> set (pending_reqs (fst st)))
     | Schedule b row \<Rightarrow> b < fc_nbk c)"

fun added :: "sched_event list \<Rightarrow> nat list" where
  "added [] = []"
| "added (AddReq req # es) = req # added es"
| "added (Schedule b row # es) = added es"

lemma sched_step_ok:
  assumes "frfcfs_inv c pool (fst st)" and "sched_ok c pool st e"
  shows "\<exists>st'. sched_step c pool st e = Some st' \<and> frfcfs_inv c pool (fst st') \<and>
    mset (snd st') + mset (pending_reqs (fst st')) = mset (snd st) + mset (pending_reqs (fst st)) + mset (added [e])"
proof (cases e)
  case (AddReq req)
  then obtain r where "pool req = Some r" "dr_bk r < fc_nbk c" "0 < fc_sched_queue_size c"
    "\<not> sched_full c (fst st) (dr_write r)" "req \<notin> set (pending_reqs (fst st))"
    using assms(2) by (auto simp: sched_ok_def split: option.splits)
  from add_req_ok [OF assms(1) this] show ?thesis by (auto simp: AddReq sched_step_def split: prod.splits)
next
  case (Schedule b row)
  then have "b < fc_nbk c" using assms(2) by (simp add: sched_ok_def)
  from schedule_ok [OF assms(1) this, of row] show ?thesis
    by (auto simp: Schedule sched_step_def pending_reqs_def split: prod.splits option.splits)
qed

interpretation sched: live_system "sched_step c pool" "\<lambda>st. frfcfs_inv c pool (fst st)" "sched_ok c pool" for c pool
  by unfold_locales (use sched_step_ok in fastforce)+

lemma sched_run_conserves:
  assumes "frfcfs_inv c pool (fst st)" and "sched.run_ok c pool st es" and "run (sched_step c pool) st es = Some st'"
  shows "mset (snd st') + mset (pending_reqs (fst st')) = mset (snd st) + mset (pending_reqs (fst st)) + mset (added es)"
  using assms
proof (induction es arbitrary: st)
  case (Cons e es)
  from Cons.prems(1,2) obtain st1 where st1: "sched_step c pool st e = Some st1" "frfcfs_inv c pool (fst st1)"
    "mset (snd st1) + mset (pending_reqs (fst st1)) = mset (snd st) + mset (pending_reqs (fst st)) + mset (added [e])"
    using sched_step_ok [of c pool st e] by auto
  have "mset (added (e # es)) = mset (added [e]) + mset (added es)" by (cases e) auto
  with Cons.IH [of st1] Cons.prems st1 show ?case by (simp add: ac_simps)
qed simp

text \<open>
  No sequence of pushes, each made when \<open>full\<close> allows it, and of calls of \<open>schedule\<close> on any bank
  trips an assertion of the scheduler; what has been returned together with what still waits is
  exactly what was pushed, once each, and the two pending counters are the numbers of requests that
  wait in the read queues and in the write queues.
\<close>

theorem frfcfs_conserves:
  assumes "sched.run_ok c pool (frfcfs_new c, []) es"
  shows "\<exists>s out. run (sched_step c pool) (frfcfs_new c, []) es = Some (s, out) \<and>
    mset (added es) = mset out + mset (pending_reqs s) \<and>
    fs_num_pending s = length (side_reqs (fs_read s)) \<and> fs_num_write_pending s = length (side_reqs (fs_write s))"
proof -
  have inv: "frfcfs_inv c pool (fst (frfcfs_new c, []))" by (simp add: frfcfs_new_inv)
  from sched.run_live [OF inv assms] obtain st where
    st: "run (sched_step c pool) (frfcfs_new c, []) es = Some st" "frfcfs_inv c pool (fst st)" by blast
  have "pending_reqs (frfcfs_new c) = []" by (simp add: pending_reqs_def frfcfs_new_def)
  with sched_run_conserves [OF inv assms st(1)] st show ?thesis
    by (cases st) (simp add: frfcfs_inv_def)
qed

text \<open>Without a separate write queue a bank is drained by as many calls as it has requests.\<close>

lemma take_spec_banks:
  assumes "take_spec f s b cur s'" and "b < length (sd_queue s)"
  shows "sd_queue s' ! b = remove1 (spec_req f (sd_queue s ! b) (sd_last_row s ! b) cur) (sd_queue s ! b)"
    and "\<And>b'. b' \<noteq> b \<Longrightarrow> sd_queue s' ! b' = sd_queue s ! b'"
  using assms by (simp_all add: take_spec_def Let_def)

text \<open>
  C9: without a separate write queue no request of a bank is starved: whatever rows the bank has
  open, as many calls of \<open>schedule\<close> as the bank has requests return each of them once and leave the
  bank empty, and the other banks as they were.
\<close>

theorem frfcfs_drains:
  assumes "frfcfs_inv c pool s" and "\<not> fc_seperate_write_queue c" and "b < fc_nbk c"
    and "length rows = length (sd_queue (fs_read s) ! b)"
  shows "\<exists>s' out. run (sched_step c pool) (s, done) (map (Schedule b) rows) = Some (s', done @ out) \<and>
    mset out = mset (sd_queue (fs_read s) ! b) \<and> sd_queue (fs_read s') ! b = [] \<and>
    (\<forall>b'. b' \<noteq> b \<longrightarrow> sd_queue (fs_read s') ! b' = sd_queue (fs_read s) ! b')"
  using assms
proof (induction rows arbitrary: s "done")
  case (Cons row rows)
  let ?q = "sd_queue (fs_read s) ! b"
  have m: "switch_mode c s = READ_MODE" using Cons.prems(1,2)
    by (cases "fs_mode s") (auto simp: switch_mode_def frfcfs_inv_def)
  have len: "b < length (sd_queue (fs_read s))" using Cons.prems(1,3) by (simp add: frfcfs_inv_def side_ok_def)
  define x where "x = spec_req (row_of pool) ?q (sd_last_row (fs_read s) ! b) row"
  have spec: "schedule_spec c pool s b row = Some x"
    using Cons.prems(4) by (auto simp: schedule_spec_def served_side_def m x_def Let_def)
  from schedule_ok [OF Cons.prems(1,3), of row] obtain s1 where s1: "schedule c pool s b row = Some (Some x, s1)"
    "frfcfs_inv c pool s1" "take_spec (row_of pool) (fs_read s) b row (fs_read s1)"
    "fs_write s1 = fs_write s" "mset (pending_reqs s) = add_mset x (mset (pending_reqs s1))"
    unfolding spec served_side_def by (auto simp: m)
  note t = take_spec_banks [OF s1(3) len, folded x_def]
  have "side_ok c pool (\<lambda>r. \<not> (fc_seperate_write_queue c \<and> dr_write r)) (fs_read s)"
    using Cons.prems(1) by (simp add: frfcfs_inv_def)
  moreover have "?q \<noteq> []" using Cons.prems(4) by auto
  ultimately have x: "x \<in> set ?q" using take_req_spec [OF _ Cons.prems(3), of pool _ "fs_read s" row] unfolding x_def by blast
  then have "length rows = length (sd_queue (fs_read s1) ! b)" using Cons.prems(4) t(1) by (simp add: length_remove1)
  from Cons.IH [OF s1(2) Cons.prems(2,3) this, of "done @ [x]"] obtain s' out where
    r: "run (sched_step c pool) (s1, done @ [x]) (map (Schedule b) rows) = Some (s', (done @ [x]) @ out)"
    "mset out = mset (sd_queue (fs_read s1) ! b)" "sd_queue (fs_read s') ! b = []"
    "\<forall>b'. b' \<noteq> b \<longrightarrow> sd_queue (fs_read s') ! b' = sd_queue (fs_read s1) ! b'" by blast
  have "run (sched_step c pool) (s, done) (map (Schedule b) (row # rows)) = Some (s', done @ x # out)"
    using r(1) s1(1) by (simp add: sched_step_def)
  moreover have "mset (x # out) = mset ?q" using r(2) t(1) x by simp
  ultimately show ?case using r(3,4) t(2) by metis
qed simp

section \<open>A concrete channel\<close>

definition fr_config :: frfcfs_config where
  "fr_config = \<lparr>fc_nbk = 2, fc_seperate_write_queue = False, fc_sched_queue_size = 4, fc_write_queue_size = 4,
     fc_write_high_watermark = 3, fc_write_low_watermark = 1\<rparr>"

definition fr_pool :: "nat \<Rightarrow> dram_req option" where
  "fr_pool i = Some \<lparr>dr_row = (if i = 1 then 9 else 5), dr_col = 0, dr_bk = 0, dr_nbytes = 32, dr_txbytes = 0,
     dr_dqbytes = 0, dr_write = False, dr_data = i\<rparr>"

definition fr_events :: "sched_event list" where
  "fr_events = [AddReq 1, AddReq 0, AddReq 2, Schedule 0 5]"

lemma replicate_2: "replicate 2 x = [x, x]"
  by (simp add: numeral_2_eq_2)

lemmas fr_eval = replicate_2 sched_step_def add_req_def schedule_def side_add_def switch_mode_def choose_row_def take_req_def
  frfcfs_new_def sched_side_new_def fr_config_def fr_pool_def sched_ok_def sched_full_def pending_reqs_def side_reqs_def
  value_at_def guard_def Let_def

definition fr_state :: frfcfs where
  "fr_state = fst (the (run (sched_step fr_config fr_pool) (frfcfs_new fr_config, []) [AddReq 1, AddReq 0, AddReq 2]))"

lemma fr_run_ok: "sched.run_ok fr_config fr_pool (frfcfs_new fr_config, []) fr_events"
  by (simp add: fr_events_def fr_eval)

lemma fr_state_inv: "frfcfs_inv fr_config fr_pool fr_state"
proof -
  have "sched.run_ok fr_config fr_pool (frfcfs_new fr_config, []) [AddReq 1, AddReq 0, AddReq 2]"
    by (simp add: fr_eval)
  then show ?thesis unfolding fr_state_def
    using sched.run_live [of fr_config fr_pool "(frfcfs_new fr_config, [])"] frfcfs_new_inv by fastforce
qed

lemma frfcfs_conserves_witness:
  "\<exists>s out. run (sched_step fr_config fr_pool) (frfcfs_new fr_config, []) fr_events = Some (s, out) \<and>
    mset (added fr_events) = mset out + mset (pending_reqs s) \<and>
    fs_num_pending s = length (side_reqs (fs_read s)) \<and> fs_num_write_pending s = length (side_reqs (fs_write s))"
  by (rule frfcfs_conserves) (rule fr_run_ok)

text \<open>The open row 5 goes before the older request for row 9.\<close>

lemma schedule_first_ready_witness:
  "map_option fst (schedule fr_config fr_pool fr_state 0 5) = Some (Some 0)"
  using schedule_first_ready [OF fr_state_inv, of 0 5]
  by (simp add: schedule_spec_def served_side_def spec_req_def spec_row_def row_of_def fr_state_def fr_eval)

lemma frfcfs_drains_witness:
  "\<exists>s' out. run (sched_step fr_config fr_pool) (fr_state, []) [Schedule 0 5, Schedule 0 5, Schedule 0 5] = Some (s', out) \<and>
    mset out = {#0, 1, 2#} \<and> sd_queue (fs_read s') ! 0 = []"
  using frfcfs_drains [OF fr_state_inv, of 0 "[5, 5, 5]" "[]"]
  by (simp add: fr_state_def fr_eval add_mset_commute)

end
