(* ===== verification/Dram.thy ===== *)
theory Dram
  imports Dram_Sched Delay_Queue Mem_Fetch Set_Index Addr_Decode
begin

text \<open>
  The timing model of a DRAM channel: \<^verbatim>\<open>dram_t\<close> (dram.cc, dram.h) with its banks, bank groups and
  command counters, the two schedulers' side of it (dram_sched.cc), and the derivation of the timing
  parameters in \<^verbatim>\<open>memory_config::init\<close> (gpu-sim.h). A request (\<^verbatim>\<open>dram_req_t *\<close>) is a key of
  \<open>dm_pool\<close>, from which \<^verbatim>\<open>delete\<close> removes it; a \<^verbatim>\<open>mem_fetch *\<close> is a key of the heap that is
  passed along. Where the code prints the DRAM command it issues, the model returns it. A use of a
  freed or missing object and a failed assertion are \<open>None\<close>. The statistics and the status of the
  requests, which only feed the log, are left out.
\<close>

section \<open>Configuration\<close>

datatype dram_ctrl = DRAM_FIFO | DRAM_FRFCFS
datatype bank_grp_bits_position = HIGHER_BITS | LOWER_BITS
datatype bank_index_function = LINEAR_BK_INDEX | BITWISE_XORING_BK_INDEX | IPOLY_BK_INDEX | CUSTOM_BK_INDEX

record dram_config = frfcfs_config +
  dc_scheduler :: dram_ctrl
  dc_nbkgrp :: nat
  dc_bk_tag_length :: nat
  dc_bnk_indexing :: bank_index_function
  dc_bnkgrp_indexing :: bank_grp_bits_position
  dc_dual_bus :: bool
  dc_return_queue_size :: nat
  dc_atom_size :: nat
  dc_tCCD :: nat
  dc_tCCDL :: nat
  dc_tRTPL :: nat
  dc_tRRD :: nat
  dc_tRCD :: nat
  dc_tRCDWR :: nat
  dc_tRAS :: nat
  dc_tRP :: nat
  dc_tRC :: nat
  dc_BL :: nat
  dc_data_command_freq_ratio :: nat
  dc_tRTW :: nat
  dc_tWTR :: nat
  dc_tWTP :: nat
  dc_CL :: nat
  dc_WL :: nat

text \<open>
  The cycles of the burst of a read, for which its bank cannot be precharged. The code writes the quotient where it
  uses it; \<^verbatim>\<open>memory_config::init\<close> has divided by the ratio before, so that it is not zero.
\<close>

definition dc_tRTP :: "dram_config \<Rightarrow> nat" where
  "dc_tRTP c = dc_BL c div dc_data_command_freq_ratio c"

text \<open>The options that \<^verbatim>\<open>memory_config::init\<close> turns into delays, and what it computes from them.\<close>

record dram_options =
  do_nbk :: u32
  do_nbkgrp :: u32
  do_tRCD :: u32
  do_tCDLR :: u32
  do_tWR :: u32
  do_CL :: u32
  do_WL :: u32
  do_BL :: u32
  do_busW :: u32
  do_data_command_freq_ratio :: u32
  do_gpu_n_mem_per_ctrlr :: u32
  do_n_sub_partition :: u32
  do_elimnate_rw_turnaround :: bool

record dram_delays =
  dd_bk_tag_length :: u32
  dd_tRCDWR :: u32
  dd_tRTW :: u32
  dd_tWTR :: u32
  dd_tWTP :: u32
  dd_dram_atom_size :: u32

text \<open>The loop that halves the number of banks of a group until it is zero.\<close>

fun halvings :: "nat \<Rightarrow> nat" where
  "halvings n = (if n = 0 then 0 else Suc (halvings (n div 2)))"

declare halvings.simps [simp del]

definition dram_delays_init :: "dram_options \<Rightarrow> dram_delays option" where
  "dram_delays_init p = do {
     guard (do_nbkgrp p \<noteq> 0);
     let i = halvings (nat (sint (do_nbk p div do_nbkgrp p)));
     guard (do_data_command_freq_ratio p \<noteq> 0);
     let burst = do_BL p div do_data_command_freq_ratio p;
     guard (do_n_sub_partition p \<noteq> 0);
     guard (do_nbk p mod do_n_sub_partition p = 0);
     Some \<lparr>dd_bk_tag_length = of_nat i - 1,
       dd_tRCDWR = do_tRCD p - (do_WL p + 1),
       dd_tRTW = (if do_elimnate_rw_turnaround p then 0 else do_CL p + burst + 2 - do_WL p),
       dd_tWTR = (if do_elimnate_rw_turnaround p then 0 else do_WL p + burst + do_tCDLR p),
       dd_tWTP = do_WL p + burst + do_tWR p,
       dd_dram_atom_size = do_BL p * do_busW p * do_gpu_n_mem_per_ctrlr p\<rparr> }"

section \<open>State\<close>

datatype bank_state = BANK_IDLE | BANK_ACTIVE

record bank_t =
  bk_RCDc :: nat
  bk_RCDWRc :: nat
  bk_RASc :: nat
  bk_RPc :: nat
  bk_RCc :: nat
  bk_WTPc :: nat
  bk_RTPc :: nat
  bk_state :: bank_state
  bk_curr_row :: u32
  bk_mrq :: "nat option"

record bankgrp_t =
  bg_CCDLc :: nat
  bg_RTPLc :: nat

record dram =
  dm_bk :: "bank_t list"
  dm_bkgrp :: "bankgrp_t list"
  dm_prio :: nat
  dm_RRDc :: nat
  dm_CCDc :: nat
  dm_RTWc :: nat
  dm_WTRc :: nat
  dm_writing :: bool
  dm_rwq :: "nat delay_queue"
  dm_mrqq :: "nat delay_queue"
  dm_returnq :: "nat delay_queue"
  dm_sched :: frfcfs
  dm_pool :: "nat \<Rightarrow> dram_req option"
  dm_next_req :: nat

definition bank_new :: bank_t where
  "bank_new = \<lparr>bk_RCDc = 0, bk_RCDWRc = 0, bk_RASc = 0, bk_RPc = 0, bk_RCc = 0, bk_WTPc = 0, bk_RTPc = 0,
     bk_state = BANK_IDLE, bk_curr_row = 0, bk_mrq = None\<rparr>"

definition dram_new :: "dram_config \<Rightarrow> dram option" where
  "dram_new c = do {
     rwq \<leftarrow> dq_new (dc_CL c) (dc_CL c + 1);
     mrqq \<leftarrow> dq_new 0 2;
     returnq \<leftarrow> dq_new 0 (if dc_return_queue_size c = 0 then 1024 else dc_return_queue_size c);
     Some \<lparr>dm_bk = replicate (fc_nbk c) bank_new, dm_bkgrp = replicate (dc_nbkgrp c) \<lparr>bg_CCDLc = 0, bg_RTPLc = 0\<rparr>,
       dm_prio = 0, dm_RRDc = 0, dm_CCDc = 0, dm_RTWc = 0, dm_WTRc = 0, dm_writing = False,
       dm_rwq = rwq, dm_mrqq = mrqq, dm_returnq = returnq, dm_sched = frfcfs_new (frfcfs_config.truncate c),
       dm_pool = (\<lambda>_. None), dm_next_req = 0\<rparr> }"

definition get_bankgrp_number :: "dram_config \<Rightarrow> nat \<Rightarrow> nat" where
  "get_bankgrp_number c i = (case dc_bnkgrp_indexing c of
       HIGHER_BITS \<Rightarrow> drop_bit (dc_bk_tag_length c) i
     | LOWER_BITS \<Rightarrow> i AND (dc_nbkgrp c - 1))"

definition dram_full :: "dram_config \<Rightarrow> dram \<Rightarrow> bool \<Rightarrow> bool" where
  "dram_full c d wr = (case dc_scheduler c of
       DRAM_FRFCFS \<Rightarrow> sched_full (frfcfs_config.truncate c) (dm_sched d) wr
     | DRAM_FIFO \<Rightarrow> dq_full (dm_mrqq d))"

section \<open>Requests enter\<close>

text \<open>The bank of a request; a custom index leaves the field uninitialised, which counts as an error.\<close>

definition dram_bank :: "dram_config \<Rightarrow> addrdec_t \<Rightarrow> u32 option" where
  "dram_bank c tlx = (case dc_bnk_indexing c of
       LINEAR_BK_INDEX \<Rightarrow> Some (tl_bk tlx)
     | BITWISE_XORING_BK_INDEX \<Rightarrow>
         let bk = bitwise_hash_function (ucast (tl_row tlx)) (tl_bk tlx) (of_nat (fc_nbk c))
         in if unat bk < fc_nbk c then Some bk else None
     | IPOLY_BK_INDEX \<Rightarrow> do {
         bk \<leftarrow> ipoly_hash_function (ucast (tl_row tlx)) (tl_bk tlx) (of_nat (fc_nbk c));
         guard (unat bk < fc_nbk c);
         Some bk }
     | CUSTOM_BK_INDEX \<Rightarrow> None)"

definition dram_req_new :: "dram_config \<Rightarrow> addrdec_t \<Rightarrow> nat \<Rightarrow> mem_fetch \<Rightarrow> dram_req option" where
  "dram_req_new c tlx p mf = do {
     bk \<leftarrow> dram_bank c tlx;
     Some \<lparr>dr_row = tl_row tlx, dr_col = tl_col tlx, dr_bk = unat bk, dr_nbytes = mf_data_size mf, dr_txbytes = 0,
       dr_dqbytes = 0, dr_write = is_write mf, dr_data = p\<rparr> }"

definition dram_push :: "dram_config \<Rightarrow> u32 \<Rightarrow> addrdec_t \<Rightarrow> (nat \<Rightarrow> mem_fetch option) \<Rightarrow> dram \<Rightarrow> nat \<Rightarrow> dram option" where
  "dram_push c partition_id tlx heap d p = do {
     mf \<leftarrow> heap p;
     guard (partition_id = tl_chip tlx);
     r \<leftarrow> dram_req_new c tlx p mf;
     q \<leftarrow> dq_push (dm_mrqq d) (Some (dm_next_req d));
     Some (d\<lparr>dm_mrqq := q, dm_pool := (dm_pool d)(dm_next_req d \<mapsto> r), dm_next_req := Suc (dm_next_req d)\<rparr>) }"

section \<open>Returning data\<close>

text \<open>
  The start of \<^verbatim>\<open>cycle\<close>: an atom leaves the pipeline of the data bus, and the last atom of a request
  returns its \<^verbatim>\<open>mem_fetch\<close>, or for a write-back, which nobody waits for, hands it to \<^verbatim>\<open>set_done\<close> of
  the memory partition and deletes it.
\<close>

definition dram_return :: "dram_config \<Rightarrow> (nat \<Rightarrow> mem_fetch option) \<Rightarrow> dram \<Rightarrow>
    (dram \<times> (nat \<Rightarrow> mem_fetch option) \<times> (nat \<times> mem_fetch) option) option" where
  "dram_return c heap d =
    (if dq_full (dm_returnq d) then Some (d, heap, None)
     else do {
       (cmd, rwq) \<leftarrow> dq_pop (dm_rwq d);
       let d = d\<lparr>dm_rwq := rwq\<rparr>;
       (case cmd of
          None \<Rightarrow> Some (d, heap, None)
        | Some x \<Rightarrow> do {
            r \<leftarrow> dm_pool d x;
            let r = r\<lparr>dr_dqbytes := dr_dqbytes r + dc_atom_size c\<rparr>;
            (if dr_nbytes r \<le> dr_dqbytes r then do {
               mf \<leftarrow> heap (dr_data r);
               let d = d\<lparr>dm_pool := (dm_pool d)(x := None)\<rparr>;
               (if get_access_type mf \<noteq> L1_WRBK_ACC \<and> get_access_type mf \<noteq> L2_WRBK_ACC then do {
                  mf \<leftarrow> set_reply mf;
                  q \<leftarrow> dq_push (dm_returnq d) (Some (dr_data r));
                  Some (d\<lparr>dm_returnq := q\<rparr>, heap(dr_data r \<mapsto> mf), None) }
                else Some (d, heap(dr_data r := None), Some (dr_data r, mf))) }
             else Some (d\<lparr>dm_pool := (dm_pool d)(x \<mapsto> r)\<rparr>, heap, None)) }) })"

section \<open>Requests reach their banks\<close>

definition upd_bank :: "nat \<Rightarrow> (bank_t \<Rightarrow> bank_t) \<Rightarrow> dram \<Rightarrow> dram" where
  "upd_bank b f d = d\<lparr>dm_bk := (dm_bk d)[b := f (dm_bk d ! b)]\<rparr>"

definition scheduler_fifo :: "dram_config \<Rightarrow> dram \<Rightarrow> dram option" where
  "scheduler_fifo c d =
    (if dq_empty (dm_mrqq d) then Some d
     else do {
       x \<leftarrow> dq_top (dm_mrqq d);
       r \<leftarrow> dm_pool d x;
       guard (dr_bk r < fc_nbk c);
       (if bk_mrq (dm_bk d ! dr_bk r) = None then do {
          (y, q) \<leftarrow> dq_pop (dm_mrqq d);
          Some (upd_bank (dr_bk r) (\<lambda>b. b\<lparr>bk_mrq := y\<rparr>) (d\<lparr>dm_mrqq := q\<rparr>)) }
        else Some d) })"

text \<open>The loop that empties \<^verbatim>\<open>mrqq\<close>, bounded by its length, and the loop over the banks.\<close>

fun drain_mrqq :: "nat \<Rightarrow> dram_config \<Rightarrow> dram \<Rightarrow> dram option" where
  "drain_mrqq 0 c d = (if dq_empty (dm_mrqq d) then Some d else None)"
| "drain_mrqq (Suc n) c d =
    (if dq_empty (dm_mrqq d) then Some d
     else do {
       (cmd, q) \<leftarrow> dq_pop (dm_mrqq d);
       x \<leftarrow> cmd;
       s \<leftarrow> add_req (frfcfs_config.truncate c) (dm_pool d) (dm_sched d) x;
       drain_mrqq n c (d\<lparr>dm_mrqq := q, dm_sched := s\<rparr>) })"

fun serve_banks :: "dram_config \<Rightarrow> nat list \<Rightarrow> dram \<Rightarrow> dram option" where
  "serve_banks c [] d = Some d"
| "serve_banks c (b # bs) d =
    (if bk_mrq (dm_bk d ! b) = None then do {
       (req, s) \<leftarrow> schedule (frfcfs_config.truncate c) (dm_pool d) (dm_sched d) b (bk_curr_row (dm_bk d ! b));
       let d = d\<lparr>dm_sched := s\<rparr>;
       (case req of
          None \<Rightarrow> serve_banks c bs d
        | Some x \<Rightarrow> Some (upd_bank b (\<lambda>b. b\<lparr>bk_mrq := Some x\<rparr>) (d\<lparr>dm_prio := (dm_prio d + 1) mod fc_nbk c\<rparr>))) }
     else serve_banks c bs d)"

definition banks_from :: "dram_config \<Rightarrow> nat \<Rightarrow> nat list" where
  "banks_from c prio = map (\<lambda>i. (i + prio) mod fc_nbk c) [0..<fc_nbk c]"

definition scheduler_frfcfs :: "dram_config \<Rightarrow> dram \<Rightarrow> dram option" where
  "scheduler_frfcfs c d = do {
     d \<leftarrow> drain_mrqq (dq_length (dm_mrqq d)) c d;
     serve_banks c (banks_from c (dm_prio d)) d }"

section \<open>Commands\<close>

text \<open>Bank and row of a command.\<close>

datatype dram_cmd = ACT nat u32 | PRE nat u32 | RD nat u32 | WR nat u32

definition can_read :: "dram \<Rightarrow> bank_t \<Rightarrow> bankgrp_t \<Rightarrow> dram_req \<Rightarrow> bool" where
  "can_read d b g r \<longleftrightarrow> dm_CCDc d = 0 \<and> bk_RCDc b = 0 \<and> bg_CCDLc g = 0 \<and> bk_curr_row b = dr_row r \<and>
     \<not> dr_write r \<and> dm_WTRc d = 0 \<and> bk_state b = BANK_ACTIVE \<and> \<not> dq_full (dm_rwq d)"

definition can_write :: "dram \<Rightarrow> bank_t \<Rightarrow> bankgrp_t \<Rightarrow> dram_req \<Rightarrow> bool" where
  "can_write d b g r \<longleftrightarrow> dm_CCDc d = 0 \<and> bk_RCDWRc b = 0 \<and> bg_CCDLc g = 0 \<and> bk_curr_row b = dr_row r \<and>
     dr_write r \<and> dm_RTWc d = 0 \<and> bk_state b = BANK_ACTIVE \<and> \<not> dq_full (dm_rwq d)"

text \<open>The part that the two branches share: the request enters \<^verbatim>\<open>rwq\<close> and leaves the bank with its last atom.\<close>

definition send_atom :: "dram_config \<Rightarrow> dram \<Rightarrow> nat \<Rightarrow> nat \<Rightarrow> nat \<Rightarrow> dram_req \<Rightarrow> bool \<Rightarrow> nat \<Rightarrow> dram option" where
  "send_atom c d j grp x r wr latency = do {
     q \<leftarrow> (if dm_writing d \<noteq> wr then dq_set_min_length (dm_rwq d) latency else Some (dm_rwq d));
     q \<leftarrow> dq_push q (Some x);
     let r = r\<lparr>dr_txbytes := dr_txbytes r + dc_atom_size c\<rparr>;
     Some (upd_bank j (\<lambda>b. if dr_txbytes r < dr_nbytes r then b else b\<lparr>bk_mrq := None\<rparr>)
       (d\<lparr>dm_writing := wr, dm_rwq := q, dm_pool := (dm_pool d)(x \<mapsto> r), dm_CCDc := dc_tCCD c,
          dm_bkgrp := (dm_bkgrp d)[grp := (dm_bkgrp d ! grp)\<lparr>bg_CCDLc := dc_tCCDL c\<rparr>]\<rparr>)) }"

definition issue_col_command :: "dram_config \<Rightarrow> dram \<Rightarrow> nat \<Rightarrow> (dram_cmd option \<times> dram) option" where
  "issue_col_command c d j =
    (case bk_mrq (dm_bk d ! j) of
       None \<Rightarrow> Some (None, d)
     | Some x \<Rightarrow> do {
         r \<leftarrow> dm_pool d x;
         let grp = get_bankgrp_number c j;
         guard (grp < dc_nbkgrp c);
         (if can_read d (dm_bk d ! j) (dm_bkgrp d ! grp) r then do {
            d \<leftarrow> send_atom c d j grp x r False (dc_CL c);
            Some (Some (RD j (bk_curr_row (dm_bk d ! j))),
              upd_bank j (\<lambda>b. b\<lparr>bk_RTPc := dc_tRTP c\<rparr>)
                (d\<lparr>dm_RTWc := dc_tRTW c, dm_bkgrp := (dm_bkgrp d)[grp := (dm_bkgrp d ! grp)\<lparr>bg_RTPLc := dc_tRTPL c\<rparr>]\<rparr>)) }
          else if can_write d (dm_bk d ! j) (dm_bkgrp d ! grp) r then do {
            d \<leftarrow> send_atom c d j grp x r True (dc_WL c);
            Some (Some (WR j (bk_curr_row (dm_bk d ! j))),
              upd_bank j (\<lambda>b. b\<lparr>bk_WTPc := dc_tWTP c\<rparr>) (d\<lparr>dm_WTRc := dc_tWTR c\<rparr>)) }
          else Some (None, d)) })"

definition issue_row_command :: "dram_config \<Rightarrow> dram \<Rightarrow> nat \<Rightarrow> (dram_cmd option \<times> dram) option" where
  "issue_row_command c d j =
    (case bk_mrq (dm_bk d ! j) of
       None \<Rightarrow> Some (None, d)
     | Some x \<Rightarrow> do {
         r \<leftarrow> dm_pool d x;
         let b = dm_bk d ! j;
         let grp = get_bankgrp_number c j;
         guard (grp < dc_nbkgrp c);
         Some (if dm_RRDc d = 0 \<and> bk_state b = BANK_IDLE \<and> bk_RPc b = 0 \<and> bk_RCc b = 0 then
             (Some (ACT j (dr_row r)),
              upd_bank j (\<lambda>b. b\<lparr>bk_curr_row := dr_row r, bk_state := BANK_ACTIVE, bk_RCDc := dc_tRCD c,
                  bk_RCDWRc := dc_tRCDWR c, bk_RASc := dc_tRAS c, bk_RCc := dc_tRC c\<rparr>)
                (d\<lparr>dm_RRDc := dc_tRRD c, dm_prio := (j + 1) mod fc_nbk c\<rparr>))
           else if bk_curr_row b \<noteq> dr_row r \<and> bk_state b = BANK_ACTIVE \<and> bk_RASc b = 0 \<and> bk_WTPc b = 0 \<and>
               bk_RTPc b = 0 \<and> bg_RTPLc (dm_bkgrp d ! grp) = 0 then
             (Some (PRE j (bk_curr_row b)),
              upd_bank j (\<lambda>b. b\<lparr>bk_state := BANK_IDLE, bk_RPc := dc_tRP c\<rparr>) (d\<lparr>dm_prio := (j + 1) mod fc_nbk c\<rparr>))
           else (None, d)) })"

text \<open>The loops of \<^verbatim>\<open>cycle\<close>: the first bank that issues a command, and the single-bus loop over all banks.\<close>

fun first_command :: "(dram \<Rightarrow> nat \<Rightarrow> (dram_cmd option \<times> dram) option) \<Rightarrow> nat list \<Rightarrow> dram \<Rightarrow> (dram_cmd list \<times> dram) option" where
  "first_command issue [] d = Some ([], d)"
| "first_command issue (j # js) d = do {
     (cmd, d) \<leftarrow> issue d j;
     (case cmd of Some x \<Rightarrow> Some ([x], d) | None \<Rightarrow> first_command issue js d) }"

fun single_bus :: "dram_config \<Rightarrow> nat list \<Rightarrow> bool \<Rightarrow> bool \<Rightarrow> dram \<Rightarrow> (dram_cmd list \<times> dram) option" where
  "single_bus c [] issued_col_cmd issued_row_cmd d = Some ([], d)"
| "single_bus c (i # ks) issued_col_cmd issued_row_cmd d = do {
     let j = (i + dm_prio d) mod fc_nbk c;
     (col, d) \<leftarrow> (if issued_col_cmd then Some (None, d) else issue_col_command c d j);
     let issued_col_cmd = (issued_col_cmd \<or> col \<noteq> None);
     (row, d) \<leftarrow> (if issued_col_cmd \<or> issued_row_cmd then Some (None, d) else issue_row_command c d j);
     let issued_row_cmd = (issued_row_cmd \<or> row \<noteq> None);
     (cmds, d) \<leftarrow> single_bus c ks issued_col_cmd issued_row_cmd d;
     Some (List.map_filter (\<lambda>x. x) [col, row] @ cmds, d) }"

definition issue_commands :: "dram_config \<Rightarrow> dram \<Rightarrow> (dram_cmd list \<times> dram) option" where
  "issue_commands c d =
    (if dc_dual_bus c then do {
       (cols, d) \<leftarrow> first_command (issue_col_command c) (banks_from c (dm_prio d)) d;
       (rows, d) \<leftarrow> first_command (issue_row_command c) (banks_from c (dm_prio d)) d;
       Some (cols @ rows, d) }
     else single_bus c [0..<fc_nbk c] False False d)"

text \<open>The decrements at the end of \<^verbatim>\<open>cycle\<close>; subtraction on \<^typ>\<open>nat\<close> stops at zero like \<^verbatim>\<open>DEC2ZERO\<close>.\<close>

definition dec_counters :: "dram \<Rightarrow> dram" where
  "dec_counters d = d\<lparr>dm_RRDc := dm_RRDc d - 1, dm_CCDc := dm_CCDc d - 1, dm_RTWc := dm_RTWc d - 1,
     dm_WTRc := dm_WTRc d - 1,
     dm_bk := map (\<lambda>b. b\<lparr>bk_RCDc := bk_RCDc b - 1, bk_RASc := bk_RASc b - 1, bk_RCc := bk_RCc b - 1,
       bk_RPc := bk_RPc b - 1, bk_RCDWRc := bk_RCDWRc b - 1, bk_WTPc := bk_WTPc b - 1, bk_RTPc := bk_RTPc b - 1\<rparr>) (dm_bk d),
     dm_bkgrp := map (\<lambda>g. g\<lparr>bg_CCDLc := bg_CCDLc g - 1, bg_RTPLc := bg_RTPLc g - 1\<rparr>) (dm_bkgrp d)\<rparr>"

definition run_scheduler :: "dram_config \<Rightarrow> dram \<Rightarrow> dram option" where
  "run_scheduler c d = (case dc_scheduler c of DRAM_FIFO \<Rightarrow> scheduler_fifo c d | DRAM_FRFCFS \<Rightarrow> scheduler_frfcfs c d)"

definition dram_cycle :: "dram_config \<Rightarrow> (nat \<Rightarrow> mem_fetch option) \<Rightarrow> dram \<Rightarrow>
    (dram_cmd list \<times> (nat \<times> mem_fetch) option \<times> (nat \<Rightarrow> mem_fetch option) \<times> dram) option" where
  "dram_cycle c heap d = do {
     (d, heap, finished) \<leftarrow> dram_return c heap d;
     d \<leftarrow> run_scheduler c d;
     (cmds, d) \<leftarrow> issue_commands c d;
     Some (cmds, finished, heap, dec_counters d) }"

definition return_queue_pop :: "dram \<Rightarrow> (nat option \<times> dram) option" where
  "return_queue_pop d = do { (x, q) \<leftarrow> dq_pop (dm_returnq d); Some (x, d\<lparr>dm_returnq := q\<rparr>) }"

definition return_queue_top :: "dram \<Rightarrow> nat option" where
  "return_queue_top d = dq_top (dm_returnq d)"

end
