(* ===== verification/Dram_Timing.thy ===== *)
theory Dram_Timing
  imports Dram
begin

text \<open>
  What the counters of a DRAM channel enforce: the minimal distance of any two commands, and that
  the banks' rows are opened and closed around the reads and writes. Neither statement mentions a
  counter: both are about the sequence of commands with the cycles in which they were issued.
\<close>

section \<open>The protocol of the memory chips\<close>

fun cmd_bank :: "dram_cmd \<Rightarrow> nat" where
  "cmd_bank (ACT b r) = b"
| "cmd_bank (PRE b r) = b"
| "cmd_bank (RD b r) = b"
| "cmd_bank (WR b r) = b"

abbreviation same_group :: "dram_config \<Rightarrow> nat \<Rightarrow> nat \<Rightarrow> bool" where
  "same_group c b b' \<equiv> get_bankgrp_number c b = get_bankgrp_number c b'"

abbreviation only_if :: "bool \<Rightarrow> nat \<Rightarrow> nat" where
  "only_if P n \<equiv> (if P then n else 0)"

definition col_gap :: "dram_config \<Rightarrow> nat \<Rightarrow> nat \<Rightarrow> nat" where
  "col_gap c b b' = max (dc_tCCD c) (only_if (same_group c b b') (dc_tCCDL c))"

text \<open>The cycles that must lie between a command and a later one.\<close>

fun gap :: "dram_config \<Rightarrow> dram_cmd \<Rightarrow> dram_cmd \<Rightarrow> nat" where
  "gap c (ACT b _) (ACT b' _) = max (dc_tRRD c) (only_if (b = b') (dc_tRC c))"
| "gap c (ACT b _) (RD b' _) = only_if (b = b') (dc_tRCD c)"
| "gap c (ACT b _) (WR b' _) = only_if (b = b') (dc_tRCDWR c)"
| "gap c (ACT b _) (PRE b' _) = only_if (b = b') (dc_tRAS c)"
| "gap c (PRE b _) (ACT b' _) = only_if (b = b') (dc_tRP c)"
| "gap c (RD b _) (RD b' _) = col_gap c b b'"
| "gap c (RD b _) (WR b' _) = max (col_gap c b b') (dc_tRTW c)"
| "gap c (WR b _) (RD b' _) = max (col_gap c b b') (dc_tWTR c)"
| "gap c (WR b _) (WR b' _) = col_gap c b b'"
| "gap c (RD b _) (PRE b' _) = max (only_if (b = b') (dc_tRTP c)) (only_if (same_group c b b') (dc_tRTPL c))"
| "gap c (WR b _) (PRE b' _) = only_if (b = b') (dc_tWTP c)"
| "gap c _ _ = 0"

text \<open>The open rows: a command that does not fit them has no successor.\<close>

definition open_step :: "(nat \<Rightarrow> u32 option) \<Rightarrow> dram_cmd \<Rightarrow> (nat \<Rightarrow> u32 option) option" where
  "open_step R cmd = (case cmd of
       ACT b r \<Rightarrow> if R b = None then Some (R(b \<mapsto> r)) else None
     | PRE b r \<Rightarrow> if R b = Some r then Some (R(b := None)) else None
     | RD b r \<Rightarrow> if R b = Some r then Some R else None
     | WR b r \<Rightarrow> if R b = Some r then Some R else None)"

section \<open>The counters\<close>

text \<open>The number of cycles for which the counters hold a command back.\<close>

fun wait :: "dram_config \<Rightarrow> dram \<Rightarrow> dram_cmd \<Rightarrow> nat" where
  "wait c d (ACT b _) = max (dm_RRDc d) (max (bk_RPc (dm_bk d ! b)) (bk_RCc (dm_bk d ! b)))"
| "wait c d (PRE b _) = max (max (bk_RASc (dm_bk d ! b)) (bk_WTPc (dm_bk d ! b)))
     (max (bk_RTPc (dm_bk d ! b)) (bg_RTPLc (dm_bkgrp d ! get_bankgrp_number c b)))"
| "wait c d (RD b _) = max (max (dm_CCDc d) (bk_RCDc (dm_bk d ! b)))
     (max (bg_CCDLc (dm_bkgrp d ! get_bankgrp_number c b)) (dm_WTRc d))"
| "wait c d (WR b _) = max (max (dm_CCDc d) (bk_RCDWRc (dm_bk d ! b)))
     (max (bg_CCDLc (dm_bkgrp d ! get_bankgrp_number c b)) (dm_RTWc d))"

definition bank_rows :: "dram \<Rightarrow> nat \<Rightarrow> u32 option" where
  "bank_rows d b = (if b < length (dm_bk d) \<and> bk_state (dm_bk d ! b) = BANK_ACTIVE
     then Some (bk_curr_row (dm_bk d ! b)) else None)"

definition groups_ok :: "dram_config \<Rightarrow> bool" where
  "groups_ok c \<longleftrightarrow> (\<forall>b < fc_nbk c. get_bankgrp_number c b < dc_nbkgrp c)"

definition bank_bounded :: "dram_config \<Rightarrow> bank_t \<Rightarrow> bool" where
  "bank_bounded c b \<longleftrightarrow> bk_RCDc b \<le> dc_tRCD c \<and> bk_RCDWRc b \<le> dc_tRCDWR c \<and> bk_RASc b \<le> dc_tRAS c \<and>
     bk_RPc b \<le> dc_tRP c \<and> bk_RCc b \<le> dc_tRC c \<and> bk_WTPc b \<le> dc_tWTP c \<and> bk_RTPc b \<le> dc_tRTP c"

text \<open>No counter exceeds the delay it counts.\<close>

definition counters_ok :: "dram_config \<Rightarrow> dram \<Rightarrow> bool" where
  "counters_ok c d \<longleftrightarrow> groups_ok c \<and> length (dm_bk d) = fc_nbk c \<and> length (dm_bkgrp d) = dc_nbkgrp c \<and>
     dm_RRDc d \<le> dc_tRRD c \<and> dm_CCDc d \<le> dc_tCCD c \<and> dm_RTWc d \<le> dc_tRTW c \<and> dm_WTRc d \<le> dc_tWTR c \<and>
     (\<forall>b < fc_nbk c. bank_bounded c (dm_bk d ! b)) \<and>
     (\<forall>g < dc_nbkgrp c. bg_CCDLc (dm_bkgrp d ! g) \<le> dc_tCCDL c \<and> bg_RTPLc (dm_bkgrp d ! g) \<le> dc_tRTPL c)"

text \<open>One issued command: it was due, every counter that it concerns is set, and none is lowered.\<close>

definition issued :: "dram_config \<Rightarrow> dram \<Rightarrow> dram_cmd option \<Rightarrow> dram \<Rightarrow> bool" where
  "issued c d cmd d' \<longleftrightarrow> counters_ok c d' \<and> (\<forall>x. cmd_bank x < fc_nbk c \<longrightarrow> wait c d x \<le> wait c d' x) \<and>
     (case cmd of
        None \<Rightarrow> bank_rows d' = bank_rows d
      | Some x \<Rightarrow> wait c d x = 0 \<and> (\<forall>y. cmd_bank y < fc_nbk c \<longrightarrow> gap c x y \<le> wait c d' y) \<and>
          cmd_bank x < fc_nbk c \<and> open_step (bank_rows d) x = Some (bank_rows d'))"

lemma groups_okD: "groups_ok c \<Longrightarrow> b < fc_nbk c \<Longrightarrow> get_bankgrp_number c b < dc_nbkgrp c"
  by (simp add: groups_ok_def)

lemma issued_refl: "counters_ok c d \<Longrightarrow> issued c d None d"
  by (simp add: issued_def)

text \<open>A command changes one bank, one group and the counters of the channel.\<close>

definition bank_le :: "bank_t \<Rightarrow> bank_t \<Rightarrow> bool" where
  "bank_le b b' \<longleftrightarrow> bk_RCDc b \<le> bk_RCDc b' \<and> bk_RCDWRc b \<le> bk_RCDWRc b' \<and> bk_RASc b \<le> bk_RASc b' \<and>
     bk_RPc b \<le> bk_RPc b' \<and> bk_RCc b \<le> bk_RCc b' \<and> bk_WTPc b \<le> bk_WTPc b' \<and> bk_RTPc b \<le> bk_RTPc b'"

definition grp_le :: "bankgrp_t \<Rightarrow> bankgrp_t \<Rightarrow> bool" where
  "grp_le g g' \<longleftrightarrow> bg_CCDLc g \<le> bg_CCDLc g' \<and> bg_RTPLc g \<le> bg_RTPLc g'"

definition chan_le :: "dram \<Rightarrow> dram \<Rightarrow> bool" where
  "chan_le d d' \<longleftrightarrow> dm_RRDc d \<le> dm_RRDc d' \<and> dm_CCDc d \<le> dm_CCDc d' \<and> dm_RTWc d \<le> dm_RTWc d' \<and> dm_WTRc d \<le> dm_WTRc d'"

definition chan_bounded :: "dram_config \<Rightarrow> dram \<Rightarrow> bool" where
  "chan_bounded c d \<longleftrightarrow> dm_RRDc d \<le> dc_tRRD c \<and> dm_CCDc d \<le> dc_tCCD c \<and> dm_RTWc d \<le> dc_tRTW c \<and> dm_WTRc d \<le> dc_tWTR c"

lemma wait_mono:
  assumes "dm_bk d' = (dm_bk d)[j := b']" and "dm_bkgrp d' = (dm_bkgrp d)[g := g']"
    and "bank_le (dm_bk d ! j) b'" and "grp_le (dm_bkgrp d ! g) g'" and "chan_le d d'"
  shows "wait c d y \<le> wait c d' y"
proof -
  have "bank_le (dm_bk d ! i) (dm_bk d' ! i)" "grp_le (dm_bkgrp d ! i) (dm_bkgrp d' ! i)" for i
    using assms(1-4) by (cases "i = j"; cases "i = g"; cases "i < length (dm_bk d)"; cases "i < length (dm_bkgrp d)";
      simp add: bank_le_def grp_le_def list_update_beyond)+
  with assms(5) show ?thesis
    by (cases y) (simp_all only: wait.simps bank_le_def grp_le_def chan_le_def max.mono)
qed

lemma counters_ok_update:
  assumes "counters_ok c d" and "dm_bk d' = (dm_bk d)[j := b']" and "dm_bkgrp d' = (dm_bkgrp d)[g := g']"
    and "bank_bounded c b'" and "bg_CCDLc g' \<le> dc_tCCDL c" and "bg_RTPLc g' \<le> dc_tRTPL c" and "chan_bounded c d'"
  shows "counters_ok c d'"
  using assms by (cases "j < length (dm_bk d)"; cases "g < length (dm_bkgrp d)")
    (auto simp: counters_ok_def chan_bounded_def nth_list_update list_update_beyond)

lemma bank_rows_update:
  "dm_bk d' = (dm_bk d)[j := b'] \<Longrightarrow> j < length (dm_bk d) \<Longrightarrow>
    bank_rows d' = (bank_rows d)(j := if bk_state b' = BANK_ACTIVE then Some (bk_curr_row b') else None)"
  by (auto simp: bank_rows_def fun_eq_iff nth_list_update)

lemma issuedI:
  assumes "counters_ok c d" and "cmd_bank x < fc_nbk c" and "wait c d x = 0"
    and "dm_bk d' = (dm_bk d)[cmd_bank x := b']" and "dm_bkgrp d' = (dm_bkgrp d)[g := g']"
    and "bank_bounded c b'" and "bg_CCDLc g' \<le> dc_tCCDL c" and "bg_RTPLc g' \<le> dc_tRTPL c" and "chan_bounded c d'"
    and "bank_le (dm_bk d ! cmd_bank x) b'" and "grp_le (dm_bkgrp d ! g) g'" and "chan_le d d'"
    and "\<And>y. gap c x y \<le> wait c d' y"
    and "open_step (bank_rows d) x = Some ((bank_rows d)(cmd_bank x := if bk_state b' = BANK_ACTIVE then Some (bk_curr_row b') else None))"
  shows "issued c d (Some x) d'"
proof -
  have "cmd_bank x < length (dm_bk d)" using assms(1,2) by (simp add: counters_ok_def)
  then show ?thesis
    using assms counters_ok_update [OF assms(1,4-9)] wait_mono [OF assms(4,5,10,11,12)] bank_rows_update [OF assms(4)]
    by (simp add: issued_def)
qed

lemma counters_okD:
  assumes "counters_ok c d" and "j < fc_nbk c"
  defines "g \<equiv> get_bankgrp_number c j"
  shows "j < length (dm_bk d)" and "g < length (dm_bkgrp d)" and "bank_bounded c (dm_bk d ! j)" and "chan_bounded c d"
    and "bg_CCDLc (dm_bkgrp d ! g) \<le> dc_tCCDL c" and "bg_RTPLc (dm_bkgrp d ! g) \<le> dc_tRTPL c"
  using assms groups_okD [of c j] by (auto simp: counters_ok_def chan_bounded_def)

lemma send_atom_frame:
  assumes "send_atom c d j grp x r wr latency = Some d'"
  shows "dm_bk d' = (dm_bk d)[j := (if dr_txbytes r + dc_atom_size c < dr_nbytes r then dm_bk d ! j
      else (dm_bk d ! j)\<lparr>bk_mrq := None\<rparr>)]"
    and "dm_bkgrp d' = (dm_bkgrp d)[grp := (dm_bkgrp d ! grp)\<lparr>bg_CCDLc := dc_tCCDL c\<rparr>]"
    and "dm_CCDc d' = dc_tCCD c" and "dm_RRDc d' = dm_RRDc d" and "dm_RTWc d' = dm_RTWc d" and "dm_WTRc d' = dm_WTRc d"
  using assms by (auto simp: send_atom_def upd_bank_def bind_eq_Some_conv Let_def)

lemma col_cases:
  assumes "issue_col_command c d j = Some (cmd, d')" and "j < length (dm_bk d)" and "get_bankgrp_number c j < length (dm_bkgrp d)"
  obtains (rd) r b x d1 where "can_read d (dm_bk d ! j) (dm_bkgrp d ! get_bankgrp_number c j) r"
      "send_atom c d j (get_bankgrp_number c j) x r False (dc_CL c) = Some d1"
      "bk_mrq (dm_bk d ! j) = Some x" "dm_pool d x = Some r"
      "b = (if dr_txbytes r + dc_atom_size c < dr_nbytes r then dm_bk d ! j else (dm_bk d ! j)\<lparr>bk_mrq := None\<rparr>)"
      "cmd = Some (RD j (dr_row r))"
      "d' = d1\<lparr>dm_RTWc := dc_tRTW c, dm_bkgrp := (dm_bkgrp d)[get_bankgrp_number c j :=
          (dm_bkgrp d ! get_bankgrp_number c j)\<lparr>bg_CCDLc := dc_tCCDL c, bg_RTPLc := dc_tRTPL c\<rparr>], dm_bk := (dm_bk d)[j := b\<lparr>bk_RTPc := dc_tRTP c\<rparr>]\<rparr>"
    | (wr) r b x d1 where "can_write d (dm_bk d ! j) (dm_bkgrp d ! get_bankgrp_number c j) r"
      "send_atom c d j (get_bankgrp_number c j) x r True (dc_WL c) = Some d1"
      "bk_mrq (dm_bk d ! j) = Some x" "dm_pool d x = Some r"
      "b = (if dr_txbytes r + dc_atom_size c < dr_nbytes r then dm_bk d ! j else (dm_bk d ! j)\<lparr>bk_mrq := None\<rparr>)"
      "cmd = Some (WR j (dr_row r))"
      "d' = d1\<lparr>dm_WTRc := dc_tWTR c, dm_bk := (dm_bk d)[j := b\<lparr>bk_WTPc := dc_tWTP c\<rparr>]\<rparr>"
    | (no) "cmd = None" "d' = d"
proof (cases "bk_mrq (dm_bk d ! j)")
  case None
  with assms(1) no show ?thesis by (simp add: issue_col_command_def)
next
  case (Some x)
  let ?g = "get_bankgrp_number c j"
  obtain r where r: "dm_pool d x = Some r" using assms(1) Some by (auto simp: issue_col_command_def bind_eq_Some_conv)
  let ?b = "if dr_txbytes r + dc_atom_size c < dr_nbytes r then dm_bk d ! j else (dm_bk d ! j)\<lparr>bk_mrq := None\<rparr>"
  show ?thesis
  proof (cases "can_read d (dm_bk d ! j) (dm_bkgrp d ! ?g) r")
    case True
    then obtain d1 where d1: "send_atom c d j ?g x r False (dc_CL c) = Some d1"
      using assms(1) Some r by (auto simp: issue_col_command_def bind_eq_Some_conv Let_def)
    note f = send_atom_frame [OF this]
    have row: "bk_curr_row (dm_bk d1 ! j) = dr_row r" using True assms(2) by (simp add: f can_read_def)
    have "cmd = Some (RD j (dr_row r))" "d' = d1\<lparr>dm_RTWc := dc_tRTW c, dm_bkgrp := (dm_bkgrp d)[?g :=
          (dm_bkgrp d ! ?g)\<lparr>bg_CCDLc := dc_tCCDL c, bg_RTPLc := dc_tRTPL c\<rparr>], dm_bk := (dm_bk d)[j := ?b\<lparr>bk_RTPc := dc_tRTP c\<rparr>]\<rparr>"
      using assms Some r True d1 row
      by (simp_all add: issue_col_command_def Let_def bind_eq_Some_conv upd_bank_def f split del: if_split)
    then show ?thesis using rd True d1 Some r by blast
  next
    case no_read: False
    show ?thesis
    proof (cases "can_write d (dm_bk d ! j) (dm_bkgrp d ! ?g) r")
      case True
      then obtain d1 where d1: "send_atom c d j ?g x r True (dc_WL c) = Some d1"
        using assms(1) Some r no_read by (auto simp: issue_col_command_def bind_eq_Some_conv Let_def)
      note f = send_atom_frame [OF this]
      have row: "bk_curr_row (dm_bk d1 ! j) = dr_row r" using True assms(2) by (simp add: f can_write_def)
      have "cmd = Some (WR j (dr_row r))" "d' = d1\<lparr>dm_WTRc := dc_tWTR c, dm_bk := (dm_bk d)[j := ?b\<lparr>bk_WTPc := dc_tWTP c\<rparr>]\<rparr>"
        using assms Some r True no_read d1 row
        by (simp_all add: issue_col_command_def Let_def bind_eq_Some_conv upd_bank_def f split del: if_split)
      then show ?thesis using wr True d1 Some r by blast
    next
      case False
      with assms(1) Some r no_read no show ?thesis by (simp add: issue_col_command_def Let_def bind_eq_Some_conv)
    qed
  qed
qed

lemma col_issued:
  assumes ok: "counters_ok c d" and j: "j < fc_nbk c" and iss: "issue_col_command c d j = Some (cmd, d')"
  shows "issued c d cmd d'"
proof -
  note D = counters_okD [OF ok j]
  from iss D(1,2) show ?thesis
  proof (cases rule: col_cases)
    case (rd r b x d1)
    note f = send_atom_frame [OF rd(2)]
    show ?thesis unfolding rd(6)
    proof (rule issuedI [OF ok])
      show "dm_bkgrp d' = (dm_bkgrp d)[get_bankgrp_number c j := (dm_bkgrp d ! get_bankgrp_number c j)\<lparr>bg_CCDLc := dc_tCCDL c, bg_RTPLc := dc_tRTPL c\<rparr>]"
        "dm_bk d' = (dm_bk d)[cmd_bank (RD j (dr_row r)) := b\<lparr>bk_RTPc := dc_tRTP c\<rparr>]"
        using rd(7) by simp_all
      show "gap c (RD j (dr_row r)) y \<le> wait c d' y" for y
        using D(1,2) by (cases y) (auto simp: rd(7) f nth_list_update col_gap_def)
    qed (use D j rd(1,5) in \<open>auto simp: rd(7) f can_read_def bank_bounded_def chan_bounded_def bank_le_def grp_le_def chan_le_def
          open_step_def bank_rows_def fun_eq_iff\<close>)
  next
    case (wr r b x d1)
    note f = send_atom_frame [OF wr(2)]
    show ?thesis unfolding wr(6)
    proof (rule issuedI [OF ok])
      show "dm_bkgrp d' = (dm_bkgrp d)[get_bankgrp_number c j := (dm_bkgrp d ! get_bankgrp_number c j)\<lparr>bg_CCDLc := dc_tCCDL c\<rparr>]"
        "dm_bk d' = (dm_bk d)[cmd_bank (WR j (dr_row r)) := b\<lparr>bk_WTPc := dc_tWTP c\<rparr>]"
        using wr(7) by (simp_all add: f)
      show "gap c (WR j (dr_row r)) y \<le> wait c d' y" for y
        using D(1,2) by (cases y) (auto simp: wr(7) f nth_list_update col_gap_def)
    qed (use D j wr(1,5) in \<open>auto simp: wr(7) f can_write_def bank_bounded_def chan_bounded_def bank_le_def grp_le_def chan_le_def
          open_step_def bank_rows_def fun_eq_iff\<close>)
  qed (use ok issued_refl in simp)
qed

lemma row_cases:
  assumes "issue_row_command c d j = Some (cmd, d')"
  obtains (act) r where "dm_RRDc d = 0" "bk_state (dm_bk d ! j) = BANK_IDLE" "bk_RPc (dm_bk d ! j) = 0"
      "bk_RCc (dm_bk d ! j) = 0" "cmd = Some (ACT j r)"
      "d' = upd_bank j (\<lambda>b. b\<lparr>bk_curr_row := r, bk_state := BANK_ACTIVE, bk_RCDc := dc_tRCD c,
                  bk_RCDWRc := dc_tRCDWR c, bk_RASc := dc_tRAS c, bk_RCc := dc_tRC c\<rparr>)
                (d\<lparr>dm_RRDc := dc_tRRD c, dm_prio := (j + 1) mod fc_nbk c\<rparr>)"
    | (pre) "bk_state (dm_bk d ! j) = BANK_ACTIVE" "wait c d (PRE j (bk_curr_row (dm_bk d ! j))) = 0"
      "cmd = Some (PRE j (bk_curr_row (dm_bk d ! j)))"
      "d' = upd_bank j (\<lambda>b. b\<lparr>bk_state := BANK_IDLE, bk_RPc := dc_tRP c\<rparr>) (d\<lparr>dm_prio := (j + 1) mod fc_nbk c\<rparr>)"
    | (no) "cmd = None" "d' = d"
proof (cases "bk_mrq (dm_bk d ! j)")
  case None
  with assms no show ?thesis by (simp add: issue_row_command_def)
next
  case (Some x)
  let ?b = "dm_bk d ! j"
  obtain r where r: "dm_pool d x = Some r" using assms Some by (auto simp: issue_row_command_def bind_eq_Some_conv)
  note eq = assms [unfolded issue_row_command_def Some option.case r Let_def bind.bind_lunit]
  show ?thesis
  proof (cases "dm_RRDc d = 0 \<and> bk_state ?b = BANK_IDLE \<and> bk_RPc ?b = 0 \<and> bk_RCc ?b = 0")
    case True
    with eq have "cmd = Some (ACT j (dr_row r))" "d' = upd_bank j (\<lambda>b. b\<lparr>bk_curr_row := dr_row r, bk_state := BANK_ACTIVE,
        bk_RCDc := dc_tRCD c, bk_RCDWRc := dc_tRCDWR c, bk_RASc := dc_tRAS c, bk_RCc := dc_tRC c\<rparr>)
        (d\<lparr>dm_RRDc := dc_tRRD c, dm_prio := (j + 1) mod fc_nbk c\<rparr>)"
      by (simp_all add: bind_eq_Some_conv)
    with True show ?thesis by (intro act [of "dr_row r"]) simp_all
  next
    case not_act: False
    show ?thesis
    proof (cases "bk_curr_row ?b \<noteq> dr_row r \<and> bk_state ?b = BANK_ACTIVE \<and> bk_RASc ?b = 0 \<and> bk_WTPc ?b = 0 \<and>
               bk_RTPc ?b = 0 \<and> bg_RTPLc (dm_bkgrp d ! get_bankgrp_number c j) = 0")
      case True
      with eq pre show ?thesis by (simp add: bind_eq_Some_conv)
    next
      case False
      with eq not_act no show ?thesis by (simp only: if_False bind_eq_Some_conv) simp
    qed
  qed
qed

lemma row_issued:
  assumes ok: "counters_ok c d" and j: "j < fc_nbk c" and iss: "issue_row_command c d j = Some (cmd, d')"
  shows "issued c d cmd d'"
proof -
  note D = counters_okD [OF ok j]
  from iss show ?thesis
  proof (cases rule: row_cases)
    case (act r)
    let ?b = "(dm_bk d ! j)\<lparr>bk_curr_row := r, bk_state := BANK_ACTIVE, bk_RCDc := dc_tRCD c,
                  bk_RCDWRc := dc_tRCDWR c, bk_RASc := dc_tRAS c, bk_RCc := dc_tRC c\<rparr>"
    show ?thesis unfolding act(5)
    proof (rule issuedI [OF ok, where b' = ?b and g = "get_bankgrp_number c j"])
      show "gap c (ACT j r) y \<le> wait c d' y" for y
        using D(1,2) by (cases y) (auto simp: act(6) upd_bank_def nth_list_update)
    qed (use D j act(1-4) in \<open>auto simp: act(6) upd_bank_def bank_bounded_def chan_bounded_def bank_le_def grp_le_def
          chan_le_def open_step_def bank_rows_def fun_eq_iff\<close>)
  next
    case pre
    let ?b = "(dm_bk d ! j)\<lparr>bk_state := BANK_IDLE, bk_RPc := dc_tRP c\<rparr>"
    show ?thesis unfolding pre(3)
    proof (rule issuedI [OF ok, where b' = ?b and g = "get_bankgrp_number c j"])
      show "gap c (PRE j (bk_curr_row (dm_bk d ! j))) y \<le> wait c d' y" for y
        using D(1,2) by (cases y) (auto simp: pre(4) upd_bank_def nth_list_update)
      show "wait c d (PRE j (bk_curr_row (dm_bk d ! j))) = 0" by (rule pre(2))
    qed (use D j pre(1) in \<open>auto simp: pre(4) upd_bank_def bank_bounded_def chan_bounded_def bank_le_def grp_le_def
          chan_le_def open_step_def bank_rows_def fun_eq_iff\<close>)
  qed (use ok issued_refl in simp)
qed

section \<open>The log of a run\<close>

definition log_ok :: "dram_config \<Rightarrow> nat \<Rightarrow> (nat \<times> dram_cmd) list \<Rightarrow> dram \<Rightarrow> bool" where
  "log_ok c now hist d \<longleftrightarrow> counters_ok c d \<and>
     (\<forall>(t, x) \<in> set hist. \<forall>y. cmd_bank y < fc_nbk c \<longrightarrow> t + gap c x y \<le> now + wait c d y) \<and>
     sorted_wrt (\<lambda>(t, x) (t', y). t + gap c x y \<le> t') hist \<and>
     run open_step (\<lambda>_. None) (map snd hist) = Some (bank_rows d)"

definition entry :: "nat \<Rightarrow> dram_cmd option \<Rightarrow> (nat \<times> dram_cmd) list" where
  "entry now cmd = (case cmd of None \<Rightarrow> [] | Some x \<Rightarrow> [(now, x)])"

lemma entry_simps [simp]: "entry now None = []" "entry now (Some x) = [(now, x)]"
  by (simp_all add: entry_def)

lemma log_issued:
  assumes "log_ok c now hist d" and "issued c d cmd d'"
  shows "log_ok c now (hist @ entry now cmd) d'"
proof (cases cmd)
  case None
  have "t + gap c x y \<le> now + wait c d' y" if "(t, x) \<in> set hist" "cmd_bank y < fc_nbk c" for t x y
  proof -
    have "t + gap c x y \<le> now + wait c d y" using assms(1) that unfolding log_ok_def by blast
    also have "wait c d y \<le> wait c d' y" using assms(2) that(2) by (simp add: issued_def)
    finally show ?thesis by simp
  qed
  with assms None show ?thesis by (auto simp: log_ok_def issued_def)
next
  case (Some z)
  have z: "wait c d z = 0" "cmd_bank z < fc_nbk c" using assms(2) Some by (simp_all add: issued_def)
  have new: "now + gap c z y \<le> now + wait c d' y" if "cmd_bank y < fc_nbk c" for y
    using assms(2) that Some by (simp add: issued_def)
  have old: "t + gap c x y \<le> now + wait c d y" if "(t, x) \<in> set hist" "cmd_bank y < fc_nbk c" for t x y
    using assms(1) that unfolding log_ok_def by blast
  have "t + gap c x y \<le> now + wait c d' y" if "(t, x) \<in> set hist" "cmd_bank y < fc_nbk c" for t x y
    using old [OF that] assms(2) that(2) unfolding issued_def by (meson add_left_mono order_trans)
  moreover have "t + gap c x z \<le> now" if "(t, x) \<in> set hist" for t x
    using old [OF that z(2)] z(1) by simp
  moreover have "open_step (bank_rows d) z = Some (bank_rows d')" using assms(2) Some by (simp add: issued_def)
  ultimately show ?thesis using assms Some new
    by (auto simp: log_ok_def issued_def run_append sorted_wrt_append split: option.splits)
qed

lemma log_first_command:
  assumes "first_command issue js d = Some (cmds, d')" and "log_ok c now hist d" and "\<And>j. j \<in> set js \<Longrightarrow> j < fc_nbk c"
    and "\<And>d j cmd d'. counters_ok c d \<Longrightarrow> j < fc_nbk c \<Longrightarrow> issue d j = Some (cmd, d') \<Longrightarrow> issued c d cmd d'"
  shows "log_ok c now (hist @ map (Pair now) cmds) d'"
  using assms(1-3)
proof (induction js arbitrary: d)
  case (Cons j js)
  obtain cmd d1 where iss: "issue d j = Some (cmd, d1)" using Cons.prems(1) by (auto simp: bind_eq_Some_conv)
  have "counters_ok c d" "j < fc_nbk c" using Cons.prems(2,3) by (simp_all add: log_ok_def)
  from log_issued [OF Cons.prems(2) assms(4) [OF this iss]] Cons iss show ?case
    by (cases cmd) auto
qed simp

lemma log_single_bus:
  assumes "single_bus c ks col row d = Some (cmds, d')" and "log_ok c now hist d" and "ks \<noteq> [] \<Longrightarrow> 0 < fc_nbk c"
  shows "log_ok c now (hist @ map (Pair now) cmds) d'"
  using assms
proof (induction ks arbitrary: d col row hist cmds)
  case (Cons i ks)
  let ?j = "(i + dm_prio d) mod fc_nbk c"
  obtain cc d1 rc d2 cmds' where
    1: "(if col then Some (None, d) else issue_col_command c d ?j) = Some (cc, d1)" and
    2: "(if col \<or> cc \<noteq> None \<or> row then Some (None, d1) else issue_row_command c d1 ?j) = Some (rc, d2)" and
    3: "single_bus c ks (col \<or> cc \<noteq> None) (row \<or> rc \<noteq> None) d2 = Some (cmds', d')" and
    cmds: "cmds = List.map_filter (\<lambda>x. x) [cc, rc] @ cmds'"
    using Cons.prems(1) by (auto simp: bind_eq_Some_conv Let_def disj_assoc split: prod.splits)
  have j: "?j < fc_nbk c" using Cons.prems(3) by simp
  have ok: "counters_ok c d" using Cons.prems(2) by (simp add: log_ok_def)
  have "issued c d cc d1" using 1 col_issued [OF ok j] issued_refl [OF ok] by (auto split: if_splits)
  note l1 = log_issued [OF Cons.prems(2) this]
  then have ok1: "counters_ok c d1" by (simp add: log_ok_def)
  have "issued c d1 rc d2" using 2 row_issued [OF ok1 j] issued_refl [OF ok1] by (auto split: if_splits)
  from Cons.IH [OF 3 log_issued [OF l1 this]] Cons.prems(3) show ?case
    by (cases cc; cases rc) (simp_all add: cmds map_filter_simps)
qed simp

lemma log_issue_commands:
  assumes "issue_commands c d = Some (cmds, d')" and "log_ok c now hist d"
  shows "log_ok c now (hist @ map (Pair now) cmds) d'"
proof (cases "dc_dual_bus c")
  case True
  have banks: "j < fc_nbk c" if "j \<in> set (banks_from c p)" for j p
    using that by (auto simp: banks_from_def)
  obtain cols d1 rows where 1: "first_command (issue_col_command c) (banks_from c (dm_prio d)) d = Some (cols, d1)"
    and 2: "first_command (issue_row_command c) (banks_from c (dm_prio d1)) d1 = Some (rows, d')" and cmds: "cmds = cols @ rows"
    using assms(1) True by (auto simp: issue_commands_def bind_eq_Some_conv)
  have "log_ok c now (hist @ map (Pair now) cols) d1"
    by (rule log_first_command [OF 1 assms(2) banks]) (auto intro: col_issued)
  from log_first_command [OF 2 this banks] show ?thesis using row_issued by (simp add: cmds)
next
  case False
  with assms show ?thesis by (auto simp: issue_commands_def intro!: log_single_bus)
qed

lemma max_pred: "max (a - Suc 0) (b - Suc 0) = max a b - Suc 0"
  by simp

lemma log_dec_counters:
  assumes "log_ok c now hist d"
  shows "log_ok c (Suc now) hist (dec_counters d)"
proof -
  have ok: "counters_ok c d" using assms by (simp add: log_ok_def)
  have "wait c (dec_counters d) y = wait c d y - 1" if "cmd_bank y < fc_nbk c" for y
    using counters_okD [OF ok that] by (cases y) (simp_all add: dec_counters_def max_pred)
  then have "t + gap c x y \<le> Suc now + wait c (dec_counters d) y" if "(t, x) \<in> set hist" "cmd_bank y < fc_nbk c" for t x y
    using assms that by (fastforce simp: log_ok_def)
  moreover have "counters_ok c (dec_counters d)"
    using ok by (auto simp: counters_ok_def dec_counters_def bank_bounded_def intro: le_trans [OF diff_le_self])
  moreover have "bank_rows (dec_counters d) = bank_rows d"
    by (auto simp: fun_eq_iff bank_rows_def dec_counters_def)
  ultimately show ?thesis using assms by (auto simp: log_ok_def)
qed

text \<open>The rest of the channel does not touch what the commands depend on.\<close>

definition timing_view where
  "timing_view d = (map (\<lambda>b. b\<lparr>bk_mrq := None\<rparr>) (dm_bk d), dm_bkgrp d, dm_RRDc d, dm_CCDc d, dm_RTWc d, dm_WTRc d)"

lemma view_length: "timing_view d' = timing_view d \<Longrightarrow> length (dm_bk d') = length (dm_bk d)"
  unfolding timing_view_def by (metis length_map prod.inject)

lemma view_field:
  assumes "timing_view d' = timing_view d" and "i < length (dm_bk d)" and "\<And>b. F (b\<lparr>bk_mrq := None\<rparr>) = F b"
  shows "F (dm_bk d' ! i) = F (dm_bk d ! i)"
proof -
  have "map (\<lambda>b. b\<lparr>bk_mrq := None\<rparr>) (dm_bk d') ! i = map (\<lambda>b. b\<lparr>bk_mrq := None\<rparr>) (dm_bk d) ! i"
    using assms(1) by (simp add: timing_view_def)
  then have "(dm_bk d' ! i)\<lparr>bk_mrq := None\<rparr> = (dm_bk d ! i)\<lparr>bk_mrq := None\<rparr>"
    using assms(2) view_length [OF assms(1)] by simp
  then show ?thesis using assms(3) by metis
qed

lemma log_ok_view:
  assumes v: "timing_view d' = timing_view d" and "log_ok c now hist d"
  shows "log_ok c now hist d'"
proof -
  note len = view_length [OF v]
  note f = view_field [OF v]
  have r: "dm_bkgrp d' = dm_bkgrp d" "dm_RRDc d' = dm_RRDc d" "dm_CCDc d' = dm_CCDc d" "dm_RTWc d' = dm_RTWc d"
      "dm_WTRc d' = dm_WTRc d"
    using v by (simp_all add: timing_view_def)
  have "bank_rows d' = bank_rows d"
    by (auto simp: fun_eq_iff bank_rows_def len f [where F = bk_state] f [where F = bk_curr_row])
  moreover have "wait c d' y = wait c d y" if "cmd_bank y < length (dm_bk d)" for y
    using that by (cases y) (simp_all add: r f [where F = bk_RPc] f [where F = bk_RCc] f [where F = bk_RASc]
      f [where F = bk_WTPc] f [where F = bk_RTPc] f [where F = bk_RCDc] f [where F = bk_RCDWRc])
  moreover have "counters_ok c d'" if "counters_ok c d"
    using that f [where F = "bank_bounded c"] by (simp add: counters_ok_def r len bank_bounded_def)
  ultimately show ?thesis using assms(2) by (simp add: log_ok_def counters_ok_def)
qed

lemma view_set_mrq: "timing_view (upd_bank j (\<lambda>b. b\<lparr>bk_mrq := x\<rparr>) d) = timing_view d"
proof -
  have "map (\<lambda>b. b\<lparr>bk_mrq := None\<rparr>) ((dm_bk d)[j := (dm_bk d ! j)\<lparr>bk_mrq := x\<rparr>]) = map (\<lambda>b. b\<lparr>bk_mrq := None\<rparr>) (dm_bk d)"
    by (cases "j < length (dm_bk d)"; rule nth_equalityI) (auto simp: nth_list_update list_update_beyond)
  then show ?thesis unfolding timing_view_def upd_bank_def by simp
qed

lemma view_queues [simp]:
  "timing_view (d\<lparr>dm_rwq := q\<rparr>) = timing_view d" "timing_view (d\<lparr>dm_returnq := q\<rparr>) = timing_view d"
  "timing_view (d\<lparr>dm_mrqq := q\<rparr>) = timing_view d" "timing_view (d\<lparr>dm_pool := f\<rparr>) = timing_view d"
  "timing_view (d\<lparr>dm_sched := s\<rparr>) = timing_view d" "timing_view (d\<lparr>dm_prio := n\<rparr>) = timing_view d"
  "timing_view (d\<lparr>dm_next_req := n\<rparr>) = timing_view d"
  by (simp_all add: timing_view_def)

lemma view_return: "dram_return c heap d = Some (d', heap', finished) \<Longrightarrow> timing_view d' = timing_view d"
  unfolding dram_return_def
  by (cases "dq_full (dm_returnq d)") (auto simp: bind_eq_Some_conv Let_def split: if_split_asm option.split_asm)

lemma view_drain: "drain_mrqq n c d = Some d' \<Longrightarrow> timing_view d' = timing_view d"
  by (induction n c d rule: drain_mrqq.induct)
    (auto simp: bind_eq_Some_conv split: if_splits)

lemma view_serve: "serve_banks c bs d = Some d' \<Longrightarrow> timing_view d' = timing_view d"
proof (induction bs arbitrary: d)
  case (Cons b bs)
  show ?case
  proof (cases "bk_mrq (dm_bk d ! b)")
    case None
    with Cons.prems obtain req s where s: "schedule (frfcfs_config.truncate c) (dm_pool d) (dm_sched d) b (bk_curr_row (dm_bk d ! b)) = Some (req, s)"
      by (auto simp: bind_eq_Some_conv)
    with Cons.IH [of "d\<lparr>dm_sched := s\<rparr>"] Cons.prems None s show ?thesis
      by (cases req) (auto simp: view_set_mrq)
  qed (use Cons in simp)
qed simp

lemma view_scheduler: "run_scheduler c d = Some d' \<Longrightarrow> timing_view d' = timing_view d"
  by (auto simp: run_scheduler_def scheduler_fifo_def scheduler_frfcfs_def bind_eq_Some_conv view_set_mrq
      split: dram_ctrl.splits if_splits dest!: view_drain view_serve)

lemma log_cycle:
  assumes "log_ok c now hist d" and "dram_cycle c heap d = Some (cmds, finished, heap', d')"
  shows "log_ok c (Suc now) (hist @ map (Pair now) cmds) d'"
proof -
  obtain d1 d2 d3 where s: "dram_return c heap d = Some (d1, heap', finished)" "run_scheduler c d1 = Some d2"
      "issue_commands c d2 = Some (cmds, d3)" "d' = dec_counters d3"
    using assms(2) by (auto simp: dram_cycle_def bind_eq_Some_conv)
  have "timing_view d2 = timing_view d" using view_return [OF s(1)] view_scheduler [OF s(2)] by simp
  from log_issue_commands [OF s(3) log_ok_view [OF this assms(1)]] show ?thesis
    unfolding s(4) by (rule log_dec_counters)
qed

end
