(* ===== verification/Dram_Flow.thy ===== *)
theory Dram_Flow
  imports Dram_Timing
begin

text \<open>
  The requests of a DRAM channel: where each one is, that its transfer counters agree with the atoms
  in the data pipeline, and that a run neither fails nor loses, doubles or invents a request.
\<close>

section \<open>Where the requests are\<close>

definition bank_reqs :: "dram \<Rightarrow> nat list" where
  "bank_reqs d = vals (map bk_mrq (dm_bk d))"

text \<open>The requests with atoms still to send: in the input queue, in the scheduler or at a bank.\<close>

definition waiting :: "dram \<Rightarrow> nat multiset" where
  "waiting d = mset (dq_data (dm_mrqq d)) + mset (pending_reqs (dm_sched d)) + mset (bank_reqs d)"

definition req_ok :: "dram_config \<Rightarrow> dram \<Rightarrow> nat \<Rightarrow> dram_req \<Rightarrow> bool" where
  "req_ok c d x r \<longleftrightarrow> dr_bk r < fc_nbk c \<and>
     dr_txbytes r = dr_dqbytes r + dc_atom_size c * count_list (dq_data (dm_rwq d)) x \<and>
     (if x \<in># waiting d then dr_txbytes r < dr_nbytes r
      else dr_nbytes r \<le> dr_txbytes r \<and> dr_txbytes r < dr_nbytes r + dc_atom_size c)"

abbreviation sched_config :: "dram_config \<Rightarrow> frfcfs_config" where
  "sched_config c \<equiv> frfcfs_config.truncate c"

definition flow_data :: "dram_config \<Rightarrow> dram \<Rightarrow> bool" where
  "flow_data c d \<longleftrightarrow> dq_inv (dm_rwq d) \<and> dq_max_len (dm_rwq d) = Suc (dc_CL c) \<and>
     dq_plain (dm_mrqq d) \<and> dq_max_len (dm_mrqq d) = 2 \<and> dq_plain (dm_returnq d) \<and>
     frfcfs_inv (sched_config c) (dm_pool d) (dm_sched d) \<and>
     (\<forall>x. count (waiting d) x \<le> 1) \<and>
     dom (dm_pool d) = set_mset (waiting d) \<union> set (dq_data (dm_rwq d)) \<and>
     (\<forall>x r. dm_pool d x = Some r \<longrightarrow> req_ok c d x r \<and> x < dm_next_req d)"

definition flow_ok :: "dram_config \<Rightarrow> dram \<Rightarrow> bool" where
  "flow_ok c d \<longleftrightarrow> counters_ok c d \<and> flow_data c d"

definition config_ok :: "dram_config \<Rightarrow> bool" where
  "config_ok c \<longleftrightarrow> groups_ok c \<and> 0 < fc_nbk c \<and> dc_WL c \<le> dc_CL c \<and> 0 < dc_atom_size c \<and>
     (dc_scheduler c = DRAM_FRFCFS \<longrightarrow> 0 < fc_sched_queue_size c)"

lemma truncate_simps [simp]: "fc_nbk (sched_config c) = fc_nbk c"
  "fc_seperate_write_queue (sched_config c) = fc_seperate_write_queue c"
  "fc_sched_queue_size (sched_config c) = fc_sched_queue_size c"
  by (simp_all add: frfcfs_config.truncate_def)

lemma set_vals: "x \<in> set (vals xs) \<longleftrightarrow> Some x \<in> set xs"
  by (induction xs) (auto split: option.splits)

lemma bank_req_waiting:
  assumes "bk_mrq (dm_bk d ! j) = Some x" and "j < length (dm_bk d)"
  shows "x \<in># waiting d"
proof -
  have "Some x \<in> set (map bk_mrq (dm_bk d))" using assms by (metis length_map nth_map nth_mem)
  then have "x \<in> set (bank_reqs d)" by (simp add: bank_reqs_def set_vals)
  then show ?thesis by (simp add: waiting_def)
qed

lemma mset_vals_update:
  "j < length xs \<Longrightarrow> mset (vals (xs[j := y])) + mset (vals [xs ! j]) = mset (vals xs) + mset (vals [y])"
proof (induction xs arbitrary: j)
  case (Cons x xs)
  show ?case
  proof (cases j)
    case (Suc k)
    with Cons have "mset (vals (xs[k := y])) + mset (vals [xs ! k]) = mset (vals xs) + mset (vals [y])" by simp
    then show ?thesis using Suc by (simp add: add.assoc)
  qed (simp add: ac_simps)
qed simp

lemma bank_reqs_set:
  assumes "j < length (dm_bk d)" and "bk_mrq (f (dm_bk d ! j)) = y"
  shows "mset (bank_reqs (upd_bank j f d)) + mset (vals [bk_mrq (dm_bk d ! j)]) = mset (bank_reqs d) + mset (vals [y])"
  using mset_vals_update [of j "map bk_mrq (dm_bk d)" y] assms
  by (simp add: bank_reqs_def upd_bank_def map_update)

text \<open>The scheduler reads only the row, the bank and the direction of the requests it holds.\<close>

definition same_reqs :: "nat set \<Rightarrow> (nat \<Rightarrow> dram_req option) \<Rightarrow> (nat \<Rightarrow> dram_req option) \<Rightarrow> bool" where
  "same_reqs P pool pool' \<longleftrightarrow> (\<forall>x \<in> P. map_option (\<lambda>r. (dr_row r, dr_bk r, dr_write r)) (pool' x) =
     map_option (\<lambda>r. (dr_row r, dr_bk r, dr_write r)) (pool x))"

lemma side_ok_cong:
  assumes "side_ok c pool (\<lambda>r. Q (dr_write r)) s" and "same_reqs (set (side_reqs s)) pool pool'"
  shows "side_ok c pool' (\<lambda>r. Q (dr_write r)) s"
proof -
  have eq: "map_option (\<lambda>r. (dr_row r, dr_bk r, dr_write r)) (pool' x) = map_option (\<lambda>r. (dr_row r, dr_bk r, dr_write r)) (pool x)"
    if "b < fc_nbk c" "x \<in> set (sd_queue s ! b)" for b x
  proof -
    have "b < length (sd_queue s)" using assms(1) that(1) by (simp add: side_ok_def)
    then have "x \<in> set (side_reqs s)" using that(2) by (auto simp: side_reqs_def)
    then show ?thesis using assms(2) by (simp add: same_reqs_def)
  qed
  have row: "row_of pool' x = row_of pool x" if "b < fc_nbk c" "x \<in> set (sd_queue s ! b)" for b x
    using eq [OF that] by (cases "pool x"; cases "pool' x") (simp_all add: row_of_def)
  have "of_row (row_of pool') row (sd_queue s ! b) = of_row (row_of pool) row (sd_queue s ! b)" if "b < fc_nbk c" for b row
    unfolding of_row_def by (rule filter_cong) (simp_all add: row [OF that])
  then have "bank_ok (row_of pool') (sd_queue s ! b) bins k \<longleftrightarrow> bank_ok (row_of pool) (sd_queue s ! b) bins k"
    if "b < fc_nbk c" for b bins k using that by (simp add: bank_ok_def)
  moreover have "\<exists>r. pool' x = Some r \<and> dr_bk r = b \<and> Q (dr_write r)"
    if "b < fc_nbk c" "x \<in> set (sd_queue s ! b)" "\<exists>r. pool x = Some r \<and> dr_bk r = b \<and> Q (dr_write r)" for b x
    using eq [OF that(1,2)] that(3) by auto
  ultimately show ?thesis using assms(1) by (simp add: side_ok_def)
qed

lemma frfcfs_inv_cong:
  assumes "frfcfs_inv c pool s" and "same_reqs (set (pending_reqs s)) pool pool'"
  shows "frfcfs_inv c pool' s"
proof -
  have r: "same_reqs (set (side_reqs (fs_read s))) pool pool'" "same_reqs (set (side_reqs (fs_write s))) pool pool'"
    using assms(2) by (simp_all add: same_reqs_def pending_reqs_def)
  show ?thesis
    using assms(1) side_ok_cong [OF _ r(1), of c "\<lambda>w. \<not> (fc_seperate_write_queue c \<and> w)"]
      side_ok_cong [OF _ r(2), of c "\<lambda>w. fc_seperate_write_queue c \<and> w"] by (simp add: frfcfs_inv_def)
qed

section \<open>The schedulers move requests to the banks\<close>

text \<open>What a scheduler leaves alone.\<close>

definition data_view where
  "data_view d = (dm_pool d, dm_rwq d, dm_returnq d, dm_writing d, dm_next_req d)"

lemma data_view_simps [simp]:
  "data_view (d\<lparr>dm_mrqq := q\<rparr>) = data_view d" "data_view (d\<lparr>dm_sched := s\<rparr>) = data_view d"
  "data_view (d\<lparr>dm_prio := n\<rparr>) = data_view d" "data_view (upd_bank j f d) = data_view d"
  by (simp_all add: data_view_def upd_bank_def)

text \<open>The part of the invariant that a scheduler relies on and keeps.\<close>

definition moves_ok :: "dram_config \<Rightarrow> dram \<Rightarrow> bool" where
  "moves_ok c d \<longleftrightarrow> length (dm_bk d) = fc_nbk c \<and> dq_plain (dm_mrqq d) \<and> dq_max_len (dm_mrqq d) = 2 \<and>
     frfcfs_inv (sched_config c) (dm_pool d) (dm_sched d) \<and> (\<forall>x. count (waiting d) x \<le> 1) \<and>
     (\<forall>x. x \<in># waiting d \<longrightarrow> (\<exists>r. dm_pool d x = Some r \<and> dr_bk r < fc_nbk c))"

definition moved :: "dram_config \<Rightarrow> dram \<Rightarrow> dram \<Rightarrow> bool" where
  "moved c d d' \<longleftrightarrow> moves_ok c d' \<and> waiting d' = waiting d \<and> data_view d' = data_view d"

lemma moved_trans: "moved c d d' \<Longrightarrow> moved c d' d'' \<Longrightarrow> moved c d d''"
  by (simp add: moved_def)

lemma movedI:
  assumes "moves_ok c d" and "waiting d' = waiting d" and "data_view d' = data_view d" and "length (dm_bk d') = fc_nbk c"
    and "dq_plain (dm_mrqq d')" and "dq_max_len (dm_mrqq d') = 2"
    and "frfcfs_inv (sched_config c) (dm_pool d) (dm_sched d')"
  shows "moved c d d'"
  using assms by (simp add: moved_def moves_ok_def data_view_def)

lemma plain_head:
  assumes "dq_plain q" and "\<not> dq_empty q"
  obtains x q' where "dq_top q = Some x" and "dq_pop q = Some (Some x, q')" and "dq_plain q'" and "dq_data q = x # dq_data q'"
    and "dq_max_len q' = dq_max_len q" and "dq_length q = Suc (dq_length q')"
proof -
  obtain e cs where e: "dq_cells q = e # cs" using assms(2) by (cases "dq_cells q") (auto simp: dq_empty_def)
  moreover have "None \<notin> set (dq_cells q)" using assms(1) by (simp add: dq_plain_def)
  ultimately obtain x where x: "dq_cells q = Some x # cs" by (cases e) auto
  with assms(1) show ?thesis
    by (intro that [of x "q\<lparr>dq_cells := cs, dq_length := dq_length q - 1, dq_n_element := dq_n_element q - 1\<rparr>"])
      (auto simp: dq_top_def dq_pop_def dq_plain_def dq_inv_def dq_data_def)
qed

lemma serve_banks_ok:
  assumes "moves_ok c d" and "\<And>b. b \<in> set bs \<Longrightarrow> b < fc_nbk c"
  shows "\<exists>d'. serve_banks c bs d = Some d' \<and> moved c d d' \<and> dm_mrqq d' = dm_mrqq d"
  using assms
proof (induction bs arbitrary: d)
  case Nil
  then show ?case by (simp add: moved_def)
next
  case (Cons b bs)
  have b: "b < fc_nbk c" "b < length (dm_bk d)" using Cons.prems by (simp_all add: moves_ok_def)
  show ?case
  proof (cases "bk_mrq (dm_bk d ! b)")
    case None
    have "frfcfs_inv (sched_config c) (dm_pool d) (dm_sched d)" using Cons.prems(1) by (simp add: moves_ok_def)
    from schedule_ok [OF this, of b "bk_curr_row (dm_bk d ! b)"] b(1) obtain s req where
      s: "schedule (sched_config c) (dm_pool d) (dm_sched d) b (bk_curr_row (dm_bk d ! b)) = Some (req, s)"
        "frfcfs_inv (sched_config c) (dm_pool d) s"
        "case req of None \<Rightarrow> s = (dm_sched d)\<lparr>fs_mode := fs_mode s\<rparr>
          | Some x \<Rightarrow> mset (pending_reqs (dm_sched d)) = add_mset x (mset (pending_reqs s))"
      by (auto split: option.splits)
    show ?thesis
    proof (cases req)
      case no: None
      have "pending_reqs s = pending_reqs (dm_sched d)" using s(3) no unfolding pending_reqs_def by (cases s) auto
      then have "waiting (d\<lparr>dm_sched := s\<rparr>) = waiting d" by (simp add: waiting_def bank_reqs_def)
      then have m: "moved c d (d\<lparr>dm_sched := s\<rparr>)" using Cons.prems(1) s(2) b by (intro movedI) (simp_all add: moves_ok_def)
      then have "moves_ok c (d\<lparr>dm_sched := s\<rparr>)" by (simp add: moved_def)
      from Cons.IH [OF this] Cons.prems(2) obtain d' where "serve_banks c bs (d\<lparr>dm_sched := s\<rparr>) = Some d'"
        "moved c (d\<lparr>dm_sched := s\<rparr>) d'" "dm_mrqq d' = dm_mrqq d" by auto
      with None s(1) no moved_trans [OF m] show ?thesis by simp
    next
      case (Some x)
      let ?d = "upd_bank b (\<lambda>b. b\<lparr>bk_mrq := Some x\<rparr>) (d\<lparr>dm_sched := s, dm_prio := Suc (dm_prio d) mod fc_nbk c\<rparr>)"
      have "mset (bank_reqs ?d) = add_mset x (mset (bank_reqs d))"
        using bank_reqs_set [of b "d\<lparr>dm_sched := s, dm_prio := Suc (dm_prio d) mod fc_nbk c\<rparr>" "\<lambda>b. b\<lparr>bk_mrq := Some x\<rparr>" "Some x"] b(2) None
        by (simp add: bank_reqs_def)
      then have "waiting ?d = waiting d" using s(3) Some by (simp add: waiting_def upd_bank_def)
      then have "moved c d ?d" using Cons.prems(1) s(2) b by (intro movedI) (simp_all add: moves_ok_def upd_bank_def data_view_def)
      then show ?thesis using None s(1) Some by (simp add: upd_bank_def)
    qed
  next
    case (Some y)
    with Cons show ?thesis by simp
  qed
qed

text \<open>A request that a caller has pushed, after asking \<^verbatim>\<open>full\<close>, fits into the scheduler.\<close>

definition input_ok :: "dram_config \<Rightarrow> dram \<Rightarrow> bool" where
  "input_ok c d \<longleftrightarrow> (dc_scheduler c = DRAM_FRFCFS \<longrightarrow> dq_data (dm_mrqq d) = [] \<or>
     (\<exists>x r. dq_data (dm_mrqq d) = [x] \<and> dm_pool d x = Some r \<and> \<not> sched_full (sched_config c) (dm_sched d) (dr_write r)))"

lemma plain_empty: "dq_plain q \<Longrightarrow> dq_empty q \<longleftrightarrow> dq_data q = []"
  by (cases "dq_cells q") (auto simp: dq_plain_def dq_empty_def dq_data_def split: option.splits)

lemma drain_mrqq_ok:
  assumes m: "moves_ok c d" and i: "input_ok c d" "dc_scheduler c = DRAM_FRFCFS" "0 < fc_sched_queue_size c"
  shows "\<exists>d'. drain_mrqq (dq_length (dm_mrqq d)) c d = Some d' \<and> moved c d d' \<and> dq_data (dm_mrqq d') = []"
proof -
  have plain: "dq_plain (dm_mrqq d)" using m by (simp add: moves_ok_def)
  note len = plain_length [OF plain]
  show ?thesis
  proof (cases "dq_data (dm_mrqq d) = []")
    case True
    with plain_empty [OF plain] len m show ?thesis by (simp add: moved_def)
  next
    case False
    then obtain x r where x: "dq_data (dm_mrqq d) = [x]" "dm_pool d x = Some r"
      "\<not> sched_full (sched_config c) (dm_sched d) (dr_write r)" using i by (auto simp: input_ok_def)
    have "\<not> dq_empty (dm_mrqq d)" using plain_empty [OF plain] x(1) by simp
    from plain_head [OF plain this] x(1) obtain q where q: "dq_pop (dm_mrqq d) = Some (Some x, q)" "dq_plain q"
      "dq_data q = []" "dq_max_len q = dq_max_len (dm_mrqq d)" by (metis list.inject)
    have wx: "x \<in># waiting d" by (simp add: waiting_def x(1))
    have "count (waiting d) x \<le> 1" using m by (simp add: moves_ok_def)
    then have new: "x \<notin> set (pending_reqs (dm_sched d))" by (auto simp: waiting_def x(1) dest: count_mset_0_iff [THEN iffD1])
    have b: "dr_bk r < fc_nbk (sched_config c)" using m wx x(2) by (auto simp: moves_ok_def)
    have inv: "frfcfs_inv (sched_config c) (dm_pool d) (dm_sched d)" using m by (simp add: moves_ok_def)
    from add_req_ok [OF inv x(2) b _ x(3) new] i(3) obtain s where
      s: "add_req (sched_config c) (dm_pool d) (dm_sched d) x = Some s" "frfcfs_inv (sched_config c) (dm_pool d) s"
        "mset (pending_reqs s) = add_mset x (mset (pending_reqs (dm_sched d)))" by auto
    let ?d = "d\<lparr>dm_mrqq := q, dm_sched := s\<rparr>"
    have "waiting ?d = waiting d" by (simp add: waiting_def s(3) q(3) x(1) bank_reqs_def)
    then have "moved c d ?d" using m q s(2) by (intro movedI) (simp_all add: moves_ok_def)
    moreover have "drain_mrqq (dq_length (dm_mrqq d)) c d = Some ?d"
      using len x(1) q s(1) plain_empty [OF plain] plain_empty [OF q(2)] by (simp flip: len)
    ultimately show ?thesis using q(3) by auto
  qed
qed

lemma scheduler_fifo_ok:
  assumes "moves_ok c d"
  shows "\<exists>d'. scheduler_fifo c d = Some d' \<and> moved c d d'"
proof (cases "dq_empty (dm_mrqq d)")
  case True
  with assms show ?thesis by (simp add: scheduler_fifo_def moved_def)
next
  case False
  have "dq_plain (dm_mrqq d)" using assms by (simp add: moves_ok_def)
  from plain_head [OF this False] obtain x q where q: "dq_top (dm_mrqq d) = Some x" "dq_pop (dm_mrqq d) = Some (Some x, q)"
    "dq_plain q" "dq_data (dm_mrqq d) = x # dq_data q" "dq_max_len q = dq_max_len (dm_mrqq d)" by metis
  then have "x \<in># waiting d" by (simp add: waiting_def)
  then obtain r where r: "dm_pool d x = Some r" "dr_bk r < fc_nbk c" using assms by (auto simp: moves_ok_def)
  have b: "dr_bk r < length (dm_bk d)" using assms r(2) by (simp add: moves_ok_def)
  show ?thesis
  proof (cases "bk_mrq (dm_bk d ! dr_bk r)")
    case None
    let ?d = "upd_bank (dr_bk r) (\<lambda>b. b\<lparr>bk_mrq := Some x\<rparr>) (d\<lparr>dm_mrqq := q\<rparr>)"
    have "mset (bank_reqs ?d) = add_mset x (mset (bank_reqs d))"
      using bank_reqs_set [of "dr_bk r" "d\<lparr>dm_mrqq := q\<rparr>" "\<lambda>b. b\<lparr>bk_mrq := Some x\<rparr>" "Some x"] b None
      by (simp add: bank_reqs_def)
    then have "waiting ?d = waiting d" using q(4) by (simp add: waiting_def upd_bank_def)
    then have "moved c d ?d" using assms q by (intro movedI) (simp_all add: moves_ok_def upd_bank_def data_view_def)
    then show ?thesis using False q r None by (simp add: scheduler_fifo_def)
  next
    case (Some y)
    with False q r assms show ?thesis by (simp add: scheduler_fifo_def moved_def)
  qed
qed

lemma run_scheduler_ok:
  assumes "moves_ok c d" and "input_ok c d" and "config_ok c"
  shows "\<exists>d'. run_scheduler c d = Some d' \<and> moved c d d' \<and> (dc_scheduler c = DRAM_FRFCFS \<longrightarrow> dq_data (dm_mrqq d') = [])"
proof (cases "dc_scheduler c")
  case DRAM_FIFO
  with scheduler_fifo_ok [OF assms(1)] show ?thesis by (auto simp: run_scheduler_def)
next
  case DRAM_FRFCFS
  from drain_mrqq_ok [OF assms(1,2) DRAM_FRFCFS] assms(3) DRAM_FRFCFS obtain d1 where
    d1: "drain_mrqq (dq_length (dm_mrqq d)) c d = Some d1" "moved c d d1" "dq_data (dm_mrqq d1) = []"
    by (auto simp: config_ok_def)
  have banks: "b < fc_nbk c" if "b \<in> set (banks_from c k)" for b k using that by (auto simp: banks_from_def)
  from serve_banks_ok [of c d1 "banks_from c (dm_prio d1)"] banks d1(2) obtain d2 where
    "serve_banks c (banks_from c (dm_prio d1)) d1 = Some d2" "moved c d1 d2" "dm_mrqq d2 = dm_mrqq d1"
    by (auto simp: moved_def)
  with d1 moved_trans [OF d1(2)] DRAM_FRFCFS show ?thesis by (auto simp: run_scheduler_def scheduler_frfcfs_def)
qed

section \<open>Commands\<close>

lemma flow_moves: "flow_ok c d \<Longrightarrow> moves_ok c d"
  by (auto simp: flow_ok_def flow_data_def moves_ok_def counters_ok_def req_ok_def dom_def) blast

lemma flow_moved:
  assumes "flow_ok c d" and "moved c d d'" and "counters_ok c d'"
  shows "flow_ok c d'"
proof -
  have v: "dm_pool d' = dm_pool d" "dm_rwq d' = dm_rwq d" "dm_returnq d' = dm_returnq d" "dm_next_req d' = dm_next_req d"
      "waiting d' = waiting d" using assms(2) by (simp_all add: moved_def data_view_def)
  then have "req_ok c d' = req_ok c d" by (simp add: fun_eq_iff req_ok_def)
  moreover have "frfcfs_inv (sched_config c) (dm_pool d) (dm_sched d')" "dq_plain (dm_mrqq d')" "dq_max_len (dm_mrqq d') = 2"
    using assms(2) v by (simp_all add: moved_def moves_ok_def)
  ultimately show ?thesis using assms(1,3) v by (simp add: flow_ok_def flow_data_def)
qed

lemma flow_pool:
  "flow_ok c d \<Longrightarrow> x \<in># waiting d \<or> x \<in> set (dq_data (dm_rwq d)) \<Longrightarrow> \<exists>r. dm_pool d x = Some r \<and> req_ok c d x r"
  unfolding flow_ok_def flow_data_def by blast

lemma flow_bank_req:
  assumes "flow_ok c d" and "j < fc_nbk c" and "bk_mrq (dm_bk d ! j) = Some x"
  shows "x \<in># waiting d" and "\<exists>r. dm_pool d x = Some r \<and> req_ok c d x r"
proof -
  have "j < length (dm_bk d)" using assms(1,2) by (simp add: flow_ok_def counters_ok_def)
  then show "x \<in># waiting d" by (rule bank_req_waiting [OF assms(3)])
  then show "\<exists>r. dm_pool d x = Some r \<and> req_ok c d x r" using flow_pool [OF assms(1)] by blast
qed

lemma bank_reqs_same:
  assumes "\<And>b. bk_mrq (g b) = bk_mrq b"
  shows "bank_reqs (upd_bank j g e) = bank_reqs e"
proof -
  have "map bk_mrq ((dm_bk e)[j := g (dm_bk e ! j)]) = map bk_mrq (dm_bk e)"
    using assms by (cases "j < length (dm_bk e)"; intro nth_equalityI) (auto simp: nth_list_update list_update_beyond)
  then show ?thesis by (simp add: bank_reqs_def upd_bank_def)
qed

text \<open>What commands leave alone.\<close>

definition data_ptrs :: "dram \<Rightarrow> nat \<Rightarrow> nat option" where
  "data_ptrs d x = map_option dr_data (dm_pool d x)"

definition kept :: "dram \<Rightarrow> dram \<Rightarrow> bool" where
  "kept d d' \<longleftrightarrow> data_ptrs d' = data_ptrs d \<and> dm_returnq d' = dm_returnq d \<and> dm_mrqq d' = dm_mrqq d \<and>
     dm_next_req d' = dm_next_req d"

lemma kept_refl [simp]: "kept d d"
  by (simp add: kept_def)

lemma kept_trans: "kept d d' \<Longrightarrow> kept d' d'' \<Longrightarrow> kept d d''"
  by (simp add: kept_def)

definition flow_view where
  "flow_view d = (dm_rwq d, dm_mrqq d, dm_returnq d, dm_sched d, dm_pool d, dm_next_req d, bank_reqs d)"

lemma flow_data_view: "flow_view d' = flow_view d \<Longrightarrow> flow_data c d \<Longrightarrow> flow_data c d'"
proof -
  assume v: "flow_view d' = flow_view d" and f: "flow_data c d"
  then have "waiting d' = waiting d" by (simp add: flow_view_def waiting_def)
  with v have "req_ok c d' = req_ok c d" by (simp add: fun_eq_iff req_ok_def flow_view_def)
  with f v \<open>waiting d' = waiting d\<close> show "flow_data c d'" by (simp add: flow_data_def flow_view_def)
qed

lemma kept_view: "flow_view d' = flow_view d \<Longrightarrow> kept d d'"
  by (simp add: flow_view_def kept_def data_ptrs_def fun_eq_iff)

lemma issue_row_ok:
  assumes f: "flow_ok c d" and j: "j < fc_nbk c"
  shows "\<exists>cmd d'. issue_row_command c d j = Some (cmd, d') \<and> flow_ok c d' \<and> kept d d'"
proof -
  have ok: "counters_ok c d" using f by (simp add: flow_ok_def)
  have "issue_row_command c d j \<noteq> None"
  proof (cases "bk_mrq (dm_bk d ! j)")
    case (Some x)
    then show ?thesis using flow_bank_req [OF f j Some] groups_okD [of c j] ok j
      by (auto simp: issue_row_command_def Let_def counters_ok_def)
  qed (simp add: issue_row_command_def)
  then obtain cmd d' where iss: "issue_row_command c d j = Some (cmd, d')" by (cases "issue_row_command c d j") auto
  have "flow_view d' = flow_view d"
    using iss by (cases rule: row_cases)
      (simp_all add: flow_view_def bank_reqs_same, simp_all add: upd_bank_def bank_reqs_def)
  then have "flow_data c d'" "kept d d'"
    using flow_data_view kept_view f by (simp_all add: flow_ok_def)
  with row_issued [OF ok j iss] iss show ?thesis by (auto simp: issued_def flow_ok_def)
qed

lemma send_atom_ok:
  assumes f: "flow_ok c d" and c: "config_ok c" and j: "j < fc_nbk c" and x: "bk_mrq (dm_bk d ! j) = Some x"
    and r: "dm_pool d x = Some r" and full: "\<not> dq_full (dm_rwq d)" and lat: "latency \<le> dc_CL c"
  shows "\<exists>d'. send_atom c d j grp x r wr latency = Some d' \<and> flow_data c d' \<and> kept d d'"
proof -
  have F: "dq_inv (dm_rwq d)" "dq_max_len (dm_rwq d) = Suc (dc_CL c)" "dq_plain (dm_mrqq d)" "dq_max_len (dm_mrqq d) = 2"
      "dq_plain (dm_returnq d)" "frfcfs_inv (sched_config c) (dm_pool d) (dm_sched d)"
      "\<And>y. count (waiting d) y \<le> 1" "dom (dm_pool d) = set_mset (waiting d) \<union> set (dq_data (dm_rwq d))"
      "\<And>y s. dm_pool d y = Some s \<Longrightarrow> req_ok c d y s \<and> y < dm_next_req d"
    using f unfolding flow_ok_def flow_data_def by blast+
  have jl: "j < length (dm_bk d)" using f j by (simp add: flow_ok_def counters_ok_def)
  have wx: "x \<in># waiting d" by (rule bank_req_waiting [OF x jl])
  have len: "dq_length (dm_rwq d) \<le> dc_CL c" using full F(2) by (simp add: dq_full_def)
  obtain q1 where q1: "(if dm_writing d \<noteq> wr then dq_set_min_length (dm_rwq d) latency else Some (dm_rwq d)) = Some q1"
      "dq_inv q1" "dq_data q1 = dq_data (dm_rwq d)" "dq_max_len q1 = Suc (dc_CL c)" "dq_length q1 \<le> dc_CL c"
    using dq_set_min_length_spec [OF F(1), of latency] F(1,2) len lat by (cases "dm_writing d \<noteq> wr") (auto simp: max_def split: if_splits)
  then obtain q2 where q2: "dq_push q1 (Some x) = Some q2" by (simp add: dq_push_def)
  note p = dq_push_spec [OF q1(2) q2]
  let ?r = "r\<lparr>dr_txbytes := dr_txbytes r + dc_atom_size c\<rparr>"
  let ?f = "\<lambda>b. if dr_txbytes ?r < dr_nbytes ?r then b else b\<lparr>bk_mrq := None\<rparr>"
  define d' where "d' = upd_bank j ?f (d\<lparr>dm_writing := wr, dm_rwq := q2, dm_pool := (dm_pool d)(x \<mapsto> ?r), dm_CCDc := dc_tCCD c,
          dm_bkgrp := (dm_bkgrp d)[grp := (dm_bkgrp d ! grp)\<lparr>bg_CCDLc := dc_tCCDL c\<rparr>]\<rparr>)"
  have d': "send_atom c d j grp x r wr latency = Some d'"
    by (simp only: send_atom_def q1(1) bind.bind_lunit q2 Let_def d'_def)
  have v: "dm_rwq d' = q2" "dm_mrqq d' = dm_mrqq d" "dm_returnq d' = dm_returnq d" "dm_sched d' = dm_sched d"
      "dm_pool d' = (dm_pool d)(x \<mapsto> ?r)" "dm_next_req d' = dm_next_req d"
    by (simp_all add: d'_def upd_bank_def)
  have b: "mset (bank_reqs d') + mset (vals [bk_mrq (dm_bk d ! j)]) = mset (bank_reqs d) + mset (vals [bk_mrq (?f (dm_bk d ! j))])"
    using mset_vals_update [of j "map bk_mrq (dm_bk d)" "bk_mrq (?f (dm_bk d ! j))"] jl
    by (simp add: bank_reqs_def d'_def upd_bank_def map_update split del: if_split cong: if_cong)
  have w: "waiting d = waiting d' + (if dr_txbytes ?r < dr_nbytes ?r then {#} else {#x#})"
    using b x by (cases "dr_txbytes ?r < dr_nbytes ?r") (simp_all add: waiting_def v)
  have wy: "y \<in># waiting d' \<longleftrightarrow> y \<in># waiting d \<and> (y = x \<longrightarrow> dr_txbytes ?r < dr_nbytes ?r)" for y
    using F(7) [of x] not_in_iff [of x "waiting d'"] unfolding w by (auto split: if_splits)
  have "count (waiting d') y \<le> 1" for y using F(7) [of y] unfolding w by (auto split: if_splits)
  moreover have "frfcfs_inv (sched_config c) (dm_pool d') (dm_sched d')"
    unfolding v by (rule frfcfs_inv_cong [OF F(6)]) (simp add: same_reqs_def r)
  moreover have "dom (dm_pool d') = set_mset (waiting d') \<union> set (dq_data q2)"
    using F(8) r wx by (auto simp: v p(2) q1(3) wy)
  moreover have "req_ok c d' y s \<and> y < dm_next_req d'" if "dm_pool d' y = Some s" for y s
    using that F(9) [of x, OF r] F(9) [of y] wx by (auto simp: v req_ok_def wy p(2) q1(3) split: if_splits)
  ultimately have "flow_data c d'" using F(3-5) p(1) p(6) q1(4) by (simp add: flow_data_def v)
  moreover have "kept d d'" by (simp add: kept_def v data_ptrs_def fun_eq_iff r)
  ultimately show ?thesis using d' by blast
qed

lemma issue_col_ok:
  assumes f: "flow_ok c d" and c: "config_ok c" and j: "j < fc_nbk c"
  shows "\<exists>cmd d'. issue_col_command c d j = Some (cmd, d') \<and> flow_ok c d' \<and> kept d d'"
proof -
  have ok: "counters_ok c d" using f by (simp add: flow_ok_def)
  note D = counters_okD [OF ok j]
  let ?g = "get_bankgrp_number c j" and ?b = "dm_bk d ! j"
  have g: "?g < dc_nbkgrp c" using c j by (simp add: config_ok_def groups_ok_def)
  show ?thesis
  proof (cases "bk_mrq ?b")
    case None
    with f show ?thesis by (simp add: issue_col_command_def)
  next
    case (Some x)
    from flow_bank_req(2) [OF f j Some] obtain r where r: "dm_pool d x = Some r" by blast
    note sa = send_atom_ok [OF f c j Some r]
    have "issue_col_command c d j \<noteq> None"
    proof -
      have "\<exists>d'. send_atom c d j ?g x r False (dc_CL c) = Some d'" if "can_read d ?b (dm_bkgrp d ! ?g) r"
        using sa [of "dc_CL c" ?g False] that by (auto simp: can_read_def)
      moreover have "\<exists>d'. send_atom c d j ?g x r True (dc_WL c) = Some d'" if "can_write d ?b (dm_bkgrp d ! ?g) r"
        using sa [of "dc_WL c" ?g True] that c by (auto simp: can_write_def config_ok_def)
      ultimately show ?thesis using Some r g by (auto simp: issue_col_command_def Let_def)
    qed
    then obtain cmd d' where iss: "issue_col_command c d j = Some (cmd, d')" by (cases "issue_col_command c d j") auto
    have "flow_data c d' \<and> kept d d'" using iss D(1,2)
    proof (cases rule: col_cases)
      case (rd r' b x' d1)
      then have e: "x' = x" "r' = r" using Some r by simp_all
      with sa [of "dc_CL c" ?g False] rd(1,2) have "flow_data c d1 \<and> kept d d1" by (auto simp: can_read_def)
      moreover have "flow_view d' = flow_view d1"
        using send_atom_frame(1) [OF rd(2)] D(1) by (simp add: rd(7) flow_view_def bank_reqs_def rd(5) map_update)
      ultimately show ?thesis using flow_data_view kept_view kept_trans by blast
    next
      case (wr r' b x' d1)
      then have e: "x' = x" "r' = r" using Some r by simp_all
      with sa [of "dc_WL c" ?g True] wr(1,2) c have "flow_data c d1 \<and> kept d d1" by (auto simp: can_write_def config_ok_def)
      moreover have "flow_view d' = flow_view d1"
        using send_atom_frame(1) [OF wr(2)] D(1) by (simp add: wr(7) flow_view_def bank_reqs_def wr(5) map_update)
      ultimately show ?thesis using flow_data_view kept_view kept_trans by blast
    qed (use f in \<open>simp add: flow_ok_def\<close>)
    with col_issued [OF ok j iss] iss show ?thesis by (auto simp: issued_def flow_ok_def)
  qed
qed

lemma first_command_ok:
  assumes "flow_ok c d" and "\<And>j. j \<in> set js \<Longrightarrow> j < fc_nbk c"
    and "\<And>d j. flow_ok c d \<Longrightarrow> j < fc_nbk c \<Longrightarrow> \<exists>cmd d'. issue d j = Some (cmd, d') \<and> flow_ok c d' \<and> kept d d'"
  shows "\<exists>cmds d'. first_command issue js d = Some (cmds, d') \<and> flow_ok c d' \<and> kept d d'"
  using assms(1,2)
proof (induction js arbitrary: d)
  case (Cons j js)
  from assms(3) [of d j] Cons.prems obtain cmd d1 where d1: "issue d j = Some (cmd, d1)" "flow_ok c d1" "kept d d1"
    by auto
  from Cons.IH [OF d1(2)] Cons.prems(2) obtain cmds d2 where "first_command issue js d1 = Some (cmds, d2)" "flow_ok c d2"
    "kept d1 d2" by auto
  with d1 kept_trans [OF d1(3)] show ?case by (cases cmd) auto
qed simp

lemma single_bus_ok:
  assumes "flow_ok c d" and "config_ok c"
  shows "\<exists>cmds d'. single_bus c ks col row d = Some (cmds, d') \<and> flow_ok c d' \<and> kept d d'"
  using assms
proof (induction ks arbitrary: d col row)
  case (Cons i ks)
  let ?j = "(i + dm_prio d) mod fc_nbk c"
  have j: "?j < fc_nbk c" using Cons.prems(2) by (simp add: config_ok_def)
  obtain cc d1 where 1: "(if col then Some (None, d) else issue_col_command c d ?j) = Some (cc, d1)" "flow_ok c d1" "kept d d1"
    using issue_col_ok [OF Cons.prems j] Cons.prems(1) by (cases col) auto
  obtain rc d2 where 2: "(if col \<or> cc \<noteq> None \<or> row then Some (None, d1) else issue_row_command c d1 ?j) = Some (rc, d2)"
    "flow_ok c d2" "kept d1 d2"
    using issue_row_ok [OF 1(2) j] 1(2) by (cases "col \<or> cc \<noteq> None \<or> row") auto
  from Cons.IH [OF 2(2) Cons.prems(2)] obtain cmds d3 where
    "single_bus c ks (col \<or> cc \<noteq> None) (row \<or> rc \<noteq> None) d2 = Some (cmds, d3)" "flow_ok c d3" "kept d2 d3" by blast
  with 1 2 kept_trans [OF kept_trans [OF 1(3) 2(3)]] show ?case by (simp add: Let_def disj_assoc)
qed simp

lemma issue_commands_ok:
  assumes "flow_ok c d" and "config_ok c"
  shows "\<exists>cmds d'. issue_commands c d = Some (cmds, d') \<and> flow_ok c d' \<and> kept d d'"
proof (cases "dc_dual_bus c")
  case True
  have banks: "j < fc_nbk c" if "j \<in> set (banks_from c p)" for j p using that by (auto simp: banks_from_def)
  obtain cols d1 where 1: "first_command (issue_col_command c) (banks_from c (dm_prio d)) d = Some (cols, d1)" "flow_ok c d1" "kept d d1"
    using first_command_ok [of c d "banks_from c (dm_prio d)" "issue_col_command c"] banks issue_col_ok assms by blast
  obtain rows d2 where 2: "first_command (issue_row_command c) (banks_from c (dm_prio d1)) d1 = Some (rows, d2)" "flow_ok c d2" "kept d1 d2"
    using first_command_ok [of c d1 "banks_from c (dm_prio d1)" "issue_row_command c"] banks issue_row_ok 1(2) by blast
  show ?thesis using True 1 2 kept_trans [OF 1(3) 2(3)] by (simp add: issue_commands_def)
next
  case False
  with single_bus_ok [OF assms] show ?thesis by (simp add: issue_commands_def)
qed

lemma dec_counters_ok: "flow_ok c d \<Longrightarrow> flow_ok c (dec_counters d) \<and> kept d (dec_counters d)"
proof -
  assume f: "flow_ok c d"
  have "flow_view (dec_counters d) = flow_view d"
    by (simp add: flow_view_def dec_counters_def bank_reqs_def comp_def)
  moreover have "counters_ok c (dec_counters d)"
    using f by (auto simp: flow_ok_def counters_ok_def dec_counters_def bank_bounded_def intro: le_trans [OF diff_le_self])
  moreover have "kept d (dec_counters d)" by (simp add: kept_def data_ptrs_def dec_counters_def fun_eq_iff)
  ultimately show ?thesis using f flow_data_view by (simp add: flow_ok_def)
qed

section \<open>Requests enter and leave\<close>

text \<open>A request that can be answered: \<^verbatim>\<open>set_reply\<close> does not fail for it, or it is a write-back.\<close>

definition answerable :: "mem_fetch \<Rightarrow> bool" where
  "answerable mf \<longleftrightarrow> get_access_type mf = L1_WRBK_ACC \<or> get_access_type mf = L2_WRBK_ACC \<or> set_reply mf \<noteq> None"

definition heap_ok :: "(nat \<Rightarrow> mem_fetch option) \<Rightarrow> dram \<Rightarrow> bool" where
  "heap_ok heap d \<longleftrightarrow> (\<forall>x p. data_ptrs d x = Some p \<longrightarrow> (\<exists>mf. heap p = Some mf \<and> answerable mf)) \<and>
     (\<forall>x y p. data_ptrs d x = Some p \<longrightarrow> data_ptrs d y = Some p \<longrightarrow> x = y)"

text \<open>
  The \<^verbatim>\<open>mem_fetch\<close>es in the channel, read off its queues: those of the requests that still have atoms to send, in
  the input queue, the scheduler and at the banks, those of the requests with atoms in the data pipeline only, and
  the return queue. A request that the queues have lost is not in the channel, also if its object is still live.
\<close>

definition held_reqs :: "dram \<Rightarrow> nat multiset" where
  "held_reqs d = waiting d + mset_set (set (dq_data (dm_rwq d)) - set_mset (waiting d))"

definition in_channel :: "dram \<Rightarrow> nat multiset" where
  "in_channel d = image_mset (\<lambda>x. the (data_ptrs d x)) (held_reqs d) + mset (dq_data (dm_returnq d))"

text \<open>The live requests, and why they are the same while the invariant holds.\<close>

definition pool_reqs :: "dram \<Rightarrow> nat multiset" where
  "pool_reqs d = image_mset (\<lambda>x. the (data_ptrs d x)) (mset_set (dom (dm_pool d))) + mset (dq_data (dm_returnq d))"

lemma in_channel_pool:
  assumes "flow_data c d"
  shows "in_channel d = pool_reqs d"
proof -
  have one: "count (waiting d) x \<le> 1" for x using assms by (simp add: flow_data_def)
  have dom: "dom (dm_pool d) = set_mset (waiting d) \<union> set (dq_data (dm_rwq d))" using assms by (simp add: flow_data_def)
  have "held_reqs d = mset_set (dom (dm_pool d))"
  proof (rule multiset_eqI)
    fix x
    have "x \<in># waiting d \<Longrightarrow> count (waiting d) x = 1" using one [of x] count_greater_zero_iff [of "waiting d" x] by linarith
    then show "count (held_reqs d) x = count (mset_set (dom (dm_pool d))) x"
      by (cases "x \<in># waiting d") (auto simp: held_reqs_def dom count_mset_set' not_in_iff)
  qed
  then show ?thesis by (simp add: in_channel_def pool_reqs_def)
qed

lemma in_channel_kept: "kept d d' \<Longrightarrow> pool_reqs d' = pool_reqs d"
proof -
  assume k: "kept d d'"
  have "dm_pool e x = None \<longleftrightarrow> data_ptrs e x = None" for e x by (simp add: data_ptrs_def)
  then have "dom (dm_pool e) = {x. data_ptrs e x \<noteq> None}" for e by (simp add: dom_def)
  with k show ?thesis by (simp add: pool_reqs_def kept_def)
qed

lemma heap_ok_kept: "kept d d' \<Longrightarrow> heap_ok heap d \<Longrightarrow> heap_ok heap d'"
  by (simp add: heap_ok_def kept_def)

lemma flow_finite: "flow_data c d \<Longrightarrow> finite (dom (dm_pool d))"
  by (simp add: flow_data_def)

lemma plain_push_ok:
  assumes "dq_plain q" and "\<not> dq_full q"
  obtains q' where "dq_push q (Some x) = Some q'" and "dq_plain q'" and "dq_data q' = dq_data q @ [x]" and "dq_max_len q' = dq_max_len q"
  using plain_push [OF assms, of x] that by blast

lemma dram_push_ok:
  assumes f: "flow_ok c d" and heap: "heap_ok heap d" "heap p = Some mf" "answerable mf" "0 < mf_data_size mf"
    and new: "\<And>x. data_ptrs d x \<noteq> Some p" and chip: "tl_chip tlx = partition_id"
    and bank: "dram_bank c tlx = Some bk" "unat bk < fc_nbk c" and room: "\<not> dq_full (dm_mrqq d)"
  shows "\<exists>d'. dram_push c partition_id tlx heap d p = Some d' \<and> flow_ok c d' \<and> heap_ok heap d' \<and>
    pool_reqs d' = add_mset p (pool_reqs d) \<and> dm_sched d' = dm_sched d \<and> dm_returnq d' = dm_returnq d \<and>
    timing_view d' = timing_view d \<and>
    (\<exists>x r. dq_data (dm_mrqq d') = dq_data (dm_mrqq d) @ [x] \<and> dm_pool d' x = Some r \<and> dr_write r = is_write mf)"
proof -
  let ?x = "dm_next_req d"
  have F: "dq_inv (dm_rwq d)" "dq_max_len (dm_rwq d) = Suc (dc_CL c)" "dq_plain (dm_mrqq d)" "dq_max_len (dm_mrqq d) = 2"
      "dq_plain (dm_returnq d)" "frfcfs_inv (sched_config c) (dm_pool d) (dm_sched d)"
      "\<And>y. count (waiting d) y \<le> 1" "dom (dm_pool d) = set_mset (waiting d) \<union> set (dq_data (dm_rwq d))"
      "\<And>y s. dm_pool d y = Some s \<Longrightarrow> req_ok c d y s \<and> y < dm_next_req d"
    using f unfolding flow_ok_def flow_data_def by blast+
  obtain q where q: "dq_push (dm_mrqq d) (Some ?x) = Some q" "dq_plain q" "dq_data q = dq_data (dm_mrqq d) @ [?x]"
    "dq_max_len q = dq_max_len (dm_mrqq d)" by (rule plain_push_ok [OF F(3) room])
  obtain r where r: "dram_req_new c tlx p mf = Some r" "dr_bk r = unat bk" "dr_nbytes r = mf_data_size mf" "dr_txbytes r = 0"
    "dr_dqbytes r = 0" "dr_write r = is_write mf" "dr_data r = p" using bank(1) by (simp add: dram_req_new_def)
  let ?d = "d\<lparr>dm_mrqq := q, dm_pool := (dm_pool d)(?x \<mapsto> r), dm_next_req := Suc ?x\<rparr>"
  have none: "dm_pool d ?x = None" using F(9) [of ?x] by (cases "dm_pool d ?x") auto
  then have "?x \<notin> dom (dm_pool d)" by (simp add: domIff)
  then have xn: "?x \<notin># waiting d" "?x \<notin> set (dq_data (dm_rwq d))" using F(8) by simp_all
  have w: "waiting ?d = add_mset ?x (waiting d)" by (simp add: waiting_def q(3) bank_reqs_def)
  have "count (waiting ?d) y \<le> 1" for y using F(7) [of y] xn(1) by (auto simp: w not_in_iff)
  moreover have "frfcfs_inv (sched_config c) (dm_pool ?d) (dm_sched d)"
  proof -
    have "same_reqs (set (pending_reqs (dm_sched d))) (dm_pool d) (dm_pool ?d)"
      using xn(1) by (auto simp: same_reqs_def waiting_def)
    then show ?thesis by (rule frfcfs_inv_cong [OF F(6)])
  qed
  moreover have "req_ok c ?d y s \<and> y < Suc ?x" if "dm_pool ?d y = Some s" for y s
    using that F(9) [of y] xn r bank(2) heap(4) by (auto simp: req_ok_def w count_list_0_iff split: if_splits)
  ultimately have "flow_ok c ?d" using f F q(2,4) w
    by (auto simp: flow_ok_def flow_data_def counters_ok_def)
  moreover have "heap_ok heap ?d"
  proof -
    have "data_ptrs ?d y = (if y = ?x then Some p else data_ptrs d y)" for y by (simp add: data_ptrs_def r(7))
    then show ?thesis using heap new unfolding heap_ok_def by (auto split: if_splits)
  qed
  moreover have "pool_reqs ?d = add_mset p (pool_reqs d)"
  proof -
    have "finite (dom (dm_pool d))" using f flow_finite unfolding flow_ok_def by blast
    moreover have "image_mset (\<lambda>x. the (data_ptrs ?d x)) (mset_set (dom (dm_pool d))) =
        image_mset (\<lambda>x. the (data_ptrs d x)) (mset_set (dom (dm_pool d)))"
      using none by (intro image_mset_cong) (auto simp: data_ptrs_def calculation)
    ultimately show ?thesis using none by (simp add: pool_reqs_def domIff) (simp add: data_ptrs_def r(7))
  qed
  moreover have "dram_push c partition_id tlx heap d p = Some ?d" using heap(2) chip r(1) q(1) by (simp add: dram_push_def)
  ultimately show ?thesis using q(3) r(6) by simp
qed

text \<open>The pipeline gives up an atom: the request stays, or it was its last atom and the request is done.\<close>

lemma plain_pop_ok: "dq_inv q \<Longrightarrow> \<exists>e q'. dq_pop q = Some (e, q') \<and> dq_inv q' \<and> dq_max_len q' = dq_max_len q \<and>
    dq_data q = (case e of None \<Rightarrow> [] | Some x \<Rightarrow> [x]) @ dq_data q'"
  by (erule dq_pop_spec) metis

lemma flow_data_rwq:
  assumes f: "flow_data c d" and x: "dm_pool d x = Some r" and q: "dq_inv q" "dq_max_len q = Suc (dc_CL c)"
    "dq_data (dm_rwq d) = x # dq_data q"
  defines "r' \<equiv> r\<lparr>dr_dqbytes := dr_dqbytes r + dc_atom_size c\<rparr>"
  shows "dr_dqbytes r' < dr_nbytes r \<Longrightarrow> flow_data c (d\<lparr>dm_rwq := q, dm_pool := (dm_pool d)(x \<mapsto> r')\<rparr>)"
    and "dr_nbytes r \<le> dr_dqbytes r' \<Longrightarrow> flow_data c (d\<lparr>dm_rwq := q, dm_pool := (dm_pool d)(x := None)\<rparr>)"
proof -
  have F: "dq_plain (dm_mrqq d)" "dq_max_len (dm_mrqq d) = 2" "dq_plain (dm_returnq d)"
      "frfcfs_inv (sched_config c) (dm_pool d) (dm_sched d)"
      "\<And>y. count (waiting d) y \<le> 1" "dom (dm_pool d) = set_mset (waiting d) \<union> set (dq_data (dm_rwq d))"
      "\<And>y s. dm_pool d y = Some s \<Longrightarrow> req_ok c d y s \<and> y < dm_next_req d"
    using f unfolding flow_data_def by blast+
  have rx: "dr_bk r < fc_nbk c" "dr_txbytes r = dr_dqbytes r' + dc_atom_size c * count_list (dq_data q) x"
      "x \<in># waiting d \<Longrightarrow> dr_txbytes r < dr_nbytes r"
      "x \<notin># waiting d \<Longrightarrow> dr_nbytes r \<le> dr_txbytes r \<and> dr_txbytes r < dr_nbytes r + dc_atom_size c"
    using F(7) [OF x] by (auto simp: req_ok_def q(3) r'_def split: if_splits)
  have r'f: "dr_bk r' = dr_bk r" "dr_nbytes r' = dr_nbytes r" "dr_txbytes r' = dr_txbytes r" by (simp_all add: r'_def)
  have w: "waiting (d\<lparr>dm_rwq := q, dm_pool := f\<rparr>) = waiting d" for f by (simp add: waiting_def bank_reqs_def)
  have nx: "x < dm_next_req d" using F(7) [OF x] by simp
  {
    assume more: "dr_dqbytes r' < dr_nbytes r"
    let ?d = "d\<lparr>dm_rwq := q, dm_pool := (dm_pool d)(x \<mapsto> r')\<rparr>"
    have "x \<in># waiting d \<or> x \<in> set (dq_data q)"
      using rx(2,4) more by (cases "x \<in># waiting d"; cases "x \<in> set (dq_data q)") auto
    then have "dom (dm_pool ?d) = set_mset (waiting d) \<union> set (dq_data q)" using F(6) q(3) by auto
    moreover have "frfcfs_inv (sched_config c) (dm_pool ?d) (dm_sched d)"
      by (rule frfcfs_inv_cong [OF F(4)]) (simp add: same_reqs_def x r'_def)
    moreover have "req_ok c ?d y s \<and> y < dm_next_req d" if "dm_pool ?d y = Some s" for y s
      using that F(7) [of y s] nx r'f rx by (cases "y = x") (auto simp: req_ok_def w q(3))
    ultimately show "flow_data c ?d" using F(1-3,5) q(1,2) w by (simp add: flow_data_def)
  }
  {
    assume last: "dr_nbytes r \<le> dr_dqbytes r'"
    let ?d = "d\<lparr>dm_rwq := q, dm_pool := (dm_pool d)(x := None)\<rparr>"
    have nw: "x \<notin># waiting d" using rx(2,3) last by fastforce
    have "dc_atom_size c * count_list (dq_data q) x < dc_atom_size c" using rx(2,4) nw last by linarith
    then have "count_list (dq_data q) x = 0" by (cases "count_list (dq_data q) x") auto
    then have nq: "x \<notin> set (dq_data q)" by (simp add: count_list_0_iff)
    have "dom (dm_pool ?d) = set_mset (waiting d) \<union> set (dq_data q)" using F(6) q(3) nq nw by auto
    moreover have "frfcfs_inv (sched_config c) (dm_pool ?d) (dm_sched d)"
    proof -
      have "same_reqs (set (pending_reqs (dm_sched d))) (dm_pool d) (dm_pool ?d)"
        using nw by (auto simp: same_reqs_def waiting_def)
      then show ?thesis by (rule frfcfs_inv_cong [OF F(4)])
    qed
    moreover have "req_ok c ?d y s \<and> y < dm_next_req d" if "dm_pool ?d y = Some s" for y s
      using that F(7) [of y s] by (auto simp: req_ok_def w q(3) split: if_splits)
    ultimately show "flow_data c ?d" using F(1-3,5) q(1,2) w by (simp add: flow_data_def)
  }
qed

lemma flow_data_returnq: "flow_data c d \<Longrightarrow> dq_plain q \<Longrightarrow> flow_data c (d\<lparr>dm_returnq := q\<rparr>)"
proof -
  assume f: "flow_data c d" and q: "dq_plain q"
  let ?d = "d\<lparr>dm_returnq := q\<rparr>"
  have w: "waiting ?d = waiting d" by (simp add: waiting_def bank_reqs_def)
  then have "req_ok c ?d = req_ok c d" by (simp add: fun_eq_iff req_ok_def)
  with f q w show "flow_data c ?d" by (simp add: flow_data_def)
qed

lemma heap_ok_remove:
  assumes "heap_ok heap d" and "data_ptrs d x = Some p" and "\<And>y. data_ptrs d' y = (if y = x then None else data_ptrs d y)"
  shows "heap_ok (heap(p := m)) d'"
  using assms unfolding heap_ok_def by (auto split: if_splits)

lemma in_channel_remove:
  assumes "flow_data c d" and "data_ptrs d x = Some p" and "dm_pool d' = (dm_pool d)(x := None)"
  shows "image_mset (\<lambda>x. the (data_ptrs d x)) (mset_set (dom (dm_pool d))) =
    add_mset p (image_mset (\<lambda>x. the (data_ptrs d' x)) (mset_set (dom (dm_pool d'))))"
proof -
  have fin: "finite (dom (dm_pool d))" using assms(1) by (rule flow_finite)
  have x: "x \<in> dom (dm_pool d)" using assms(2) by (auto simp: data_ptrs_def)
  have d: "dom (dm_pool d') = dom (dm_pool d) - {x}" using assms(3) by auto
  have "image_mset (\<lambda>y. the (data_ptrs d' y)) (mset_set (dom (dm_pool d'))) =
      image_mset (\<lambda>y. the (data_ptrs d y)) (mset_set (dom (dm_pool d) - {x}))"
    unfolding d by (intro image_mset_cong) (use fin in \<open>auto simp: data_ptrs_def assms(3)\<close>)
  moreover have "mset_set (dom (dm_pool d)) = add_mset x (mset_set (dom (dm_pool d) - {x}))"
    using fin x by (metis finite_Diff insert_Diff mset_set.remove)
  ultimately show ?thesis using assms(2) by simp
qed

definition left_now :: "(nat \<times> mem_fetch) option \<Rightarrow> nat list" where
  "left_now finished = (case finished of None \<Rightarrow> [] | Some (p, mf) \<Rightarrow> [p])"

lemma dram_return_ok:
  assumes f: "flow_ok c d" and h: "heap_ok heap d"
  shows "\<exists>d' heap' finished. dram_return c heap d = Some (d', heap', finished) \<and> flow_ok c d' \<and> heap_ok heap' d' \<and>
    mset (left_now finished) + pool_reqs d' = pool_reqs d \<and> (input_ok c d \<longrightarrow> input_ok c d')"
proof (cases "dq_full (dm_returnq d)")
  case True
  with f h show ?thesis by (simp add: dram_return_def left_now_def)
next
  case room: False
  have F: "dq_inv (dm_rwq d)" "dq_max_len (dm_rwq d) = Suc (dc_CL c)" "dq_plain (dm_returnq d)" and fd: "flow_data c d"
    and cnt: "counters_ok c d" using f unfolding flow_ok_def flow_data_def by blast+
  obtain e q where q: "dq_pop (dm_rwq d) = Some (e, q)" "dq_inv q" "dq_max_len q = Suc (dc_CL c)"
    "dq_data (dm_rwq d) = (case e of None \<Rightarrow> [] | Some x \<Rightarrow> [x]) @ dq_data q"
    using plain_pop_ok [OF F(1)] F(2) by auto
  show ?thesis
  proof (cases e)
    case None
    have w: "waiting (d\<lparr>dm_rwq := q\<rparr>) = waiting d" by (simp add: waiting_def bank_reqs_def)
    then have "req_ok c (d\<lparr>dm_rwq := q\<rparr>) = req_ok c d" using q(4) None by (simp add: fun_eq_iff req_ok_def)
    then have "flow_data c (d\<lparr>dm_rwq := q\<rparr>)" using fd q None w by (simp add: flow_data_def)
    moreover have "kept d (d\<lparr>dm_rwq := q\<rparr>)" by (simp add: kept_def data_ptrs_def fun_eq_iff)
    ultimately show ?thesis using room q None cnt h heap_ok_kept in_channel_kept
      by (auto simp: dram_return_def flow_ok_def counters_ok_def left_now_def input_ok_def)
  next
    case (Some x)
    have dx: "dq_data (dm_rwq d) = x # dq_data q" using q(4) Some by simp
    then obtain r where r: "dm_pool d x = Some r" "req_ok c d x r" using flow_pool [OF f, of x] by auto
    let ?r = "r\<lparr>dr_dqbytes := dr_dqbytes r + dc_atom_size c\<rparr>"
    note step = flow_data_rwq [OF fd r(1) q(2,3) dx]
    have px: "data_ptrs d x = Some (dr_data r)" by (simp add: data_ptrs_def r(1))
    show ?thesis
    proof (cases "dr_nbytes r \<le> dr_dqbytes r + dc_atom_size c")
      case False
      let ?d = "d\<lparr>dm_rwq := q, dm_pool := (dm_pool d)(x \<mapsto> ?r)\<rparr>"
      have "flow_ok c ?d" using step(1) False cnt by (simp add: flow_ok_def counters_ok_def)
      moreover have k: "kept d ?d" by (simp add: kept_def data_ptrs_def fun_eq_iff r(1))
      moreover have "input_ok c d \<longrightarrow> input_ok c ?d" by (auto simp: input_ok_def r(1))
      moreover have "dram_return c heap d = Some (?d, heap, None)"
        using room q(1) Some r(1) False by (simp add: dram_return_def Let_def)
      ultimately show ?thesis using heap_ok_kept [OF k h] in_channel_kept [OF k] by (simp add: left_now_def)
    next
      case True
      let ?d = "d\<lparr>dm_rwq := q, dm_pool := (dm_pool d)(x := None)\<rparr>"
      have fd': "flow_data c ?d" using step(2) True by simp
      have "x \<notin># waiting ?d" using fd' by (auto simp: flow_data_def)
      then have "x \<notin> set (dq_data (dm_mrqq d))" by (simp add: waiting_def)
      then have inp: "input_ok c d \<longrightarrow> input_ok c (?d\<lparr>dm_returnq := rq\<rparr>)" "input_ok c d \<longrightarrow> input_ok c ?d" for rq
        by (auto simp: input_ok_def)
      obtain mf where mf: "heap (dr_data r) = Some mf" "answerable mf" using h px unfolding heap_ok_def by blast
      have hp: "heap_ok (heap(dr_data r := m)) d'" if "dm_pool d' = (dm_pool d)(x := None)" for m d'
        by (rule heap_ok_remove [OF h px]) (simp add: data_ptrs_def that)
      note ch = in_channel_remove [OF fd px]
      show ?thesis
      proof (cases "get_access_type mf \<noteq> L1_WRBK_ACC \<and> get_access_type mf \<noteq> L2_WRBK_ACC")
        case reply: True
        then obtain mf' where mf': "set_reply mf = Some mf'" using mf(2) by (auto simp: answerable_def)
        obtain rq where rq: "dq_push (dm_returnq d) (Some (dr_data r)) = Some rq" "dq_plain rq"
          "dq_data rq = dq_data (dm_returnq d) @ [dr_data r]" by (rule plain_push_ok [OF F(3) room])
        let ?e = "?d\<lparr>dm_returnq := rq\<rparr>"
        have "dram_return c heap d = Some (?e, heap(dr_data r \<mapsto> mf'), None)"
          using room q(1) Some r(1) True mf(1) reply mf' rq(1) by (simp add: dram_return_def Let_def)
        moreover have "flow_ok c ?e" using flow_data_returnq [OF fd' rq(2)] cnt by (simp add: flow_ok_def counters_ok_def)
        moreover have "pool_reqs ?e = pool_reqs d" using ch [of ?e] rq(3) by (simp add: pool_reqs_def)
        ultimately show ?thesis using hp [of ?e] inp(1) by (simp add: left_now_def)
      next
        case wrbk: False
        have "dram_return c heap d = Some (?d, heap(dr_data r := None), Some (dr_data r, mf))"
          using room q(1) Some r(1) True mf(1) wrbk by (auto simp: dram_return_def Let_def)
        moreover have "flow_ok c ?d" using fd' cnt by (simp add: flow_ok_def counters_ok_def)
        moreover have "add_mset (dr_data r) (pool_reqs ?d) = pool_reqs d" using ch [of ?d] by (simp add: pool_reqs_def)
        ultimately show ?thesis using hp [of ?d] inp(2) by (simp add: left_now_def)
      qed
    qed
  qed
qed

section \<open>Runs\<close>

text \<open>
  The channel with its clock, the log of its commands, the heap of \<^verbatim>\<open>mem_fetch\<close> objects, and the
  objects that left it: popped from the return queue, or given to \<^verbatim>\<open>set_done\<close>.
\<close>

record channel =
  ch_now :: nat
  ch_log :: "(nat \<times> dram_cmd) list"
  ch_heap :: "nat \<Rightarrow> mem_fetch option"
  ch_dram :: dram
  ch_out :: "nat list"

datatype dram_event = DramPush addrdec_t nat | DramCycle | DramPop

definition channel_new :: "(nat \<Rightarrow> mem_fetch option) \<Rightarrow> dram \<Rightarrow> channel" where
  "channel_new heap d = \<lparr>ch_now = 0, ch_log = [], ch_heap = heap, ch_dram = d, ch_out = []\<rparr>"

definition dram_step :: "dram_config \<Rightarrow> u32 \<Rightarrow> channel \<Rightarrow> dram_event \<Rightarrow> channel option" where
  "dram_step c partition_id st e = (case e of
       DramPush tlx p \<Rightarrow> map_option (\<lambda>d. st\<lparr>ch_dram := d\<rparr>) (dram_push c partition_id tlx (ch_heap st) (ch_dram st) p)
     | DramCycle \<Rightarrow> do {
         (cmds, finished, heap, d) \<leftarrow> dram_cycle c (ch_heap st) (ch_dram st);
         Some (st\<lparr>ch_now := Suc (ch_now st), ch_log := ch_log st @ map (Pair (ch_now st)) cmds, ch_heap := heap,
           ch_dram := d, ch_out := ch_out st @ left_now finished\<rparr>) }
     | DramPop \<Rightarrow> do {
         (p, d) \<leftarrow> return_queue_pop (ch_dram st);
         Some (st\<lparr>ch_dram := d, ch_out := ch_out st @ (case p of None \<Rightarrow> [] | Some p \<Rightarrow> [p])\<rparr>) })"

fun pushed_reqs :: "dram_event list \<Rightarrow> nat list" where
  "pushed_reqs [] = []"
| "pushed_reqs (DramPush tlx p # es) = p # pushed_reqs es"
| "pushed_reqs (DramCycle # es) = pushed_reqs es"
| "pushed_reqs (DramPop # es) = pushed_reqs es"

text \<open>
  What the memory partition keeps to: it asks \<^verbatim>\<open>full\<close>, pushes at most one request between two cycles
  to the first-ready scheduler, and pushes a non-empty request of this channel that is not in it.
\<close>

definition dram_ok :: "dram_config \<Rightarrow> u32 \<Rightarrow> channel \<Rightarrow> dram_event \<Rightarrow> bool" where
  "dram_ok c partition_id st e = (case e of
       DramPush tlx p \<Rightarrow> (case (ch_heap st p, dram_bank c tlx) of
           (Some mf, Some bk) \<Rightarrow> answerable mf \<and> 0 < mf_data_size mf \<and> unat bk < fc_nbk c \<and> tl_chip tlx = partition_id \<and>
             p \<notin># in_channel (ch_dram st) \<and> \<not> dram_full c (ch_dram st) (is_write mf) \<and>
             (dc_scheduler c = DRAM_FRFCFS \<longrightarrow> dq_data (dm_mrqq (ch_dram st)) = [])
         | _ \<Rightarrow> False)
     | _ \<Rightarrow> True)"

definition chan_inv :: "dram_config \<Rightarrow> channel \<Rightarrow> bool" where
  "chan_inv c st \<longleftrightarrow> config_ok c \<and> flow_ok c (ch_dram st) \<and> heap_ok (ch_heap st) (ch_dram st) \<and>
     input_ok c (ch_dram st) \<and> log_ok c (ch_now st) (ch_log st) (ch_dram st)"

lemma plain_not_full: "dq_plain q \<Longrightarrow> dq_data q = [] \<Longrightarrow> \<not> dq_full q"
  using plain_length [of q] by (auto simp: dq_full_def dq_plain_def dq_inv_def)

lemma push_step:
  assumes inv: "chan_inv c st" and ok: "dram_ok c partition_id st (DramPush tlx p)"
  shows "\<exists>st'. dram_step c partition_id st (DramPush tlx p) = Some st' \<and> chan_inv c st' \<and> ch_out st' = ch_out st \<and>
    pool_reqs (ch_dram st') = add_mset p (pool_reqs (ch_dram st))"
proof -
  let ?d = "ch_dram st"
  from ok obtain mf bk where mf: "ch_heap st p = Some mf" "dram_bank c tlx = Some bk" "answerable mf" "0 < mf_data_size mf"
      "unat bk < fc_nbk c" "tl_chip tlx = partition_id" "p \<notin># in_channel ?d" "\<not> dram_full c ?d (is_write mf)"
      "dc_scheduler c = DRAM_FRFCFS \<longrightarrow> dq_data (dm_mrqq ?d) = []"
    by (auto simp: dram_ok_def split: option.splits)
  have f: "flow_ok c ?d" and h: "heap_ok (ch_heap st) ?d" and l: "log_ok c (ch_now st) (ch_log st) ?d" and cf: "config_ok c"
    using inv by (simp_all add: chan_inv_def)
  have fd: "flow_data c ?d" and plain: "dq_plain (dm_mrqq ?d)" using f by (simp_all add: flow_ok_def flow_data_def)
  have new: "data_ptrs ?d x \<noteq> Some p" for x
  proof
    assume "data_ptrs ?d x = Some p"
    moreover from this have "x \<in># mset_set (dom (dm_pool ?d))" using flow_finite [OF fd] by (auto simp: data_ptrs_def)
    ultimately have "p \<in># pool_reqs ?d" unfolding pool_reqs_def by force
    with mf(7) show False using in_channel_pool [OF fd] by simp
  qed
  have room: "\<not> dq_full (dm_mrqq ?d)"
    using mf(8,9) plain_not_full [OF plain] by (cases "dc_scheduler c") (simp_all add: dram_full_def)
  from dram_push_ok [OF f h mf(1,3,4) new mf(6,2,5) room] obtain d' x r where d':
      "dram_push c partition_id tlx (ch_heap st) ?d p = Some d'" "flow_ok c d'" "heap_ok (ch_heap st) d'"
      "pool_reqs d' = add_mset p (pool_reqs ?d)" "dm_sched d' = dm_sched ?d" "timing_view d' = timing_view ?d"
      "dq_data (dm_mrqq d') = dq_data (dm_mrqq ?d) @ [x]" "dm_pool d' x = Some r" "dr_write r = is_write mf"
    by blast
  have "input_ok c d'" using mf(8,9) d'(5,7-9) by (auto simp: input_ok_def dram_full_def)
  then have "chan_inv c (st\<lparr>ch_dram := d'\<rparr>)" using d' log_ok_view [OF d'(6) l] cf by (simp add: chan_inv_def)
  then show ?thesis using d'(1,4) by (simp add: dram_step_def)
qed

lemma moved_channel: "moved c d d' \<Longrightarrow> heap_ok heap d' = heap_ok heap d \<and> pool_reqs d' = pool_reqs d"
  by (simp add: moved_def data_view_def heap_ok_def pool_reqs_def data_ptrs_def)

text \<open>What a cycle does to the heap and the return queue.\<close>

definition replied :: "(nat \<Rightarrow> mem_fetch option) \<Rightarrow> dram \<Rightarrow> (nat \<times> mem_fetch) option \<Rightarrow> (nat \<Rightarrow> mem_fetch option) \<Rightarrow> dram \<Rightarrow> bool" where
  "replied heap d finished heap' d' \<longleftrightarrow>
     (finished = None \<and> heap' = heap \<and> dq_data (dm_returnq d') = dq_data (dm_returnq d)) \<or>
     (\<exists>p mf mf'. finished = None \<and> heap p = Some mf \<and> set_reply mf = Some mf' \<and> heap' = heap(p \<mapsto> mf') \<and>
        dq_data (dm_returnq d') = dq_data (dm_returnq d) @ [p]) \<or>
     (\<exists>p mf. finished = Some (p, mf) \<and> heap p = Some mf \<and> (get_access_type mf = L1_WRBK_ACC \<or> get_access_type mf = L2_WRBK_ACC) \<and>
        heap' = heap(p := None) \<and> dq_data (dm_returnq d') = dq_data (dm_returnq d))"

lemma dram_return_replied:
  assumes "dram_return c heap d = Some (d', heap', finished)" and "dq_plain (dm_returnq d)"
  shows "replied heap d finished heap' d'"
proof (cases "dq_full (dm_returnq d)")
  case True
  with assms show ?thesis by (simp add: dram_return_def Let_def replied_def)
next
  case room: False
  with assms obtain cmd rwq where q: "dq_pop (dm_rwq d) = Some (cmd, rwq)"
    by (auto simp: dram_return_def Let_def bind_eq_Some_conv)
  have push: "dq_data q = dq_data (dm_returnq d) @ [p]" if "dq_push (dm_returnq d) (Some p) = Some q" for p q
    using plain_push_ok [OF assms(2) room] that by (metis option.inject)
  show ?thesis
  proof (cases cmd)
    case None
    with assms room q show ?thesis by (auto simp: dram_return_def Let_def replied_def)
  next
    case (Some x)
    with assms room q obtain r where r: "dm_pool d x = Some r" by (auto simp: dram_return_def Let_def bind_eq_Some_conv)
    show ?thesis
    proof (cases "dr_nbytes r \<le> dr_dqbytes r + dc_atom_size c")
      case False
      with assms room q Some r show ?thesis by (auto simp: dram_return_def Let_def replied_def)
    next
      case True
      with assms room q Some r obtain mf where mf: "heap (dr_data r) = Some mf"
        by (auto simp: dram_return_def Let_def bind_eq_Some_conv)
      show ?thesis
      proof (cases "get_access_type mf = L1_WRBK_ACC \<or> get_access_type mf = L2_WRBK_ACC")
        case wb: True
        with assms room q Some r True mf have "finished = Some (dr_data r, mf)" "heap' = heap(dr_data r := None)"
          "dm_returnq d' = dm_returnq d" by (auto simp: dram_return_def Let_def)
        with wb mf show ?thesis by (simp add: replied_def)
      next
        case False
        with assms room q Some r True mf obtain mf' rq where "set_reply mf = Some mf'" "heap' = heap(dr_data r \<mapsto> mf')"
          "finished = None" "dq_push (dm_returnq d) (Some (dr_data r)) = Some rq" "dm_returnq d' = rq"
          by (auto simp: dram_return_def Let_def bind_eq_Some_conv)
        then show ?thesis unfolding replied_def
          by (intro disjI2 disjI1 exI [of _ "dr_data r"] exI [of _ mf] exI [of _ mf']) (simp add: mf push)
      qed
    qed
  qed
qed

lemma dram_cycle_flow:
  assumes inv: "chan_inv c st"
  obtains cmds finished heap d where "dram_cycle c (ch_heap st) (ch_dram st) = Some (cmds, finished, heap, d)"
    and "chan_inv c (st\<lparr>ch_now := Suc (ch_now st), ch_log := ch_log st @ map (Pair (ch_now st)) cmds, ch_heap := heap,
      ch_dram := d, ch_out := ch_out st @ left_now finished\<rparr>)"
    and "mset (left_now finished) + pool_reqs d = pool_reqs (ch_dram st)"
    and "replied (ch_heap st) (ch_dram st) finished heap d"
    and "dc_scheduler c = DRAM_FRFCFS \<Longrightarrow> dq_data (dm_mrqq d) = []"
proof -
  let ?d = "ch_dram st"
  have f: "flow_ok c ?d" and h: "heap_ok (ch_heap st) ?d" and l: "log_ok c (ch_now st) (ch_log st) ?d" and cf: "config_ok c"
    and i: "input_ok c ?d" using inv by (simp_all add: chan_inv_def)
  from dram_return_ok [OF f h] obtain d1 heap finished where
    1: "dram_return c (ch_heap st) ?d = Some (d1, heap, finished)" "flow_ok c d1" "heap_ok heap d1"
      "mset (left_now finished) + pool_reqs d1 = pool_reqs ?d" "input_ok c d1" using i by blast
  from run_scheduler_ok [OF flow_moves [OF 1(2)] 1(5) cf] obtain d2 where
    2: "run_scheduler c d1 = Some d2" "moved c d1 d2" "dc_scheduler c = DRAM_FRFCFS \<longrightarrow> dq_data (dm_mrqq d2) = []" by blast
  have l1: "log_ok c (ch_now st) (ch_log st) d2"
    using log_ok_view [OF view_scheduler [OF 2(1)] log_ok_view [OF view_return [OF 1(1)] l]] .
  then have f2: "flow_ok c d2" using flow_moved [OF 1(2) 2(2)] by (simp add: log_ok_def)
  from issue_commands_ok [OF f2 cf] obtain cmds d3 where 3: "issue_commands c d2 = Some (cmds, d3)" "flow_ok c d3" "kept d2 d3"
    by blast
  let ?e = "dec_counters d3"
  have k: "flow_ok c ?e" "kept d2 ?e" using dec_counters_ok [OF 3(2)] kept_trans [OF 3(3)] by auto
  have cyc: "dram_cycle c (ch_heap st) ?d = Some (cmds, finished, heap, ?e)" using 1(1) 2(1) 3(1) by (simp add: dram_cycle_def)
  have "heap_ok heap ?e" using heap_ok_kept [OF k(2)] moved_channel [OF 2(2)] 1(3) by simp
  moreover have "input_ok c ?e" using 2(3) k(2) by (auto simp: input_ok_def kept_def)
  moreover have "mset (left_now finished) + pool_reqs ?e = pool_reqs ?d"
    using 1(4) moved_channel [OF 2(2)] in_channel_kept [OF k(2)] by simp
  moreover have "replied (ch_heap st) ?d finished heap ?e"
  proof -
    have "dq_plain (dm_returnq ?d)" using f by (simp add: flow_ok_def flow_data_def)
    moreover have "dm_returnq ?e = dm_returnq d1" using k(2) 2(2) by (simp add: kept_def moved_def data_view_def)
    ultimately show ?thesis using dram_return_replied [OF 1(1)] by (simp add: replied_def)
  qed
  moreover have "dc_scheduler c = DRAM_FRFCFS \<Longrightarrow> dq_data (dm_mrqq ?e) = []" using 2(3) k(2) by (simp add: kept_def)
  ultimately show thesis using that [OF cyc] k(1) log_cycle [OF l cyc] cf by (simp add: chan_inv_def)
qed

lemma cycle_step:
  assumes inv: "chan_inv c st"
  shows "\<exists>st'. dram_step c partition_id st DramCycle = Some st' \<and> chan_inv c st' \<and>
    mset (ch_out st') + pool_reqs (ch_dram st') = mset (ch_out st) + pool_reqs (ch_dram st)"
proof -
  obtain cmds finished heap d where cyc: "dram_cycle c (ch_heap st) (ch_dram st) = Some (cmds, finished, heap, d)"
    and i: "chan_inv c (st\<lparr>ch_now := Suc (ch_now st), ch_log := ch_log st @ map (Pair (ch_now st)) cmds, ch_heap := heap,
      ch_dram := d, ch_out := ch_out st @ left_now finished\<rparr>)" (is "chan_inv c ?st")
    and m: "mset (left_now finished) + pool_reqs d = pool_reqs (ch_dram st)"
    by (rule dram_cycle_flow [OF inv])
  have "mset (ch_out st @ left_now finished) + pool_reqs d = mset (ch_out st) + pool_reqs (ch_dram st)"
    using m by (metis mset_append add.assoc)
  moreover have "dram_step c partition_id st DramCycle = Some ?st" using cyc by (simp add: dram_step_def)
  ultimately show ?thesis using i by fastforce
qed

lemma pop_step:
  assumes inv: "chan_inv c st"
  shows "\<exists>st'. dram_step c partition_id st DramPop = Some st' \<and> chan_inv c st' \<and>
    mset (ch_out st') + pool_reqs (ch_dram st') = mset (ch_out st) + pool_reqs (ch_dram st)"
proof -
  let ?d = "ch_dram st"
  have f: "flow_ok c ?d" and h: "heap_ok (ch_heap st) ?d" and l: "log_ok c (ch_now st) (ch_log st) ?d" and cf: "config_ok c"
    and i: "input_ok c ?d" using inv by (simp_all add: chan_inv_def)
  have plain: "dq_plain (dm_returnq ?d)" and fd: "flow_data c ?d" and cnt: "counters_ok c ?d"
    using f by (auto simp: flow_ok_def flow_data_def)
  obtain e q where q: "dq_pop (dm_returnq ?d) = Some (e, q)" "dq_plain q"
    "dq_data (dm_returnq ?d) = (case e of None \<Rightarrow> [] | Some x \<Rightarrow> [x]) @ dq_data q"
  proof (cases "dq_empty (dm_returnq ?d)")
    case True
    then have "dq_pop (dm_returnq ?d) = Some (None, dm_returnq ?d)" by (simp add: dq_empty_def dq_pop_def)
    then show ?thesis using that [of None "dm_returnq ?d"] plain by simp
  next
    case False
    from plain_head [OF plain False] show ?thesis by (metis that append_Cons append_Nil option.simps(5))
  qed
  let ?e = "?d\<lparr>dm_returnq := q\<rparr>"
  have "flow_ok c ?e" using flow_data_returnq [OF fd q(2)] cnt by (simp add: flow_ok_def counters_ok_def)
  moreover have "heap_ok (ch_heap st) ?e" "input_ok c ?e" using h i by (simp_all add: heap_ok_def data_ptrs_def input_ok_def)
  moreover have "log_ok c (ch_now st) (ch_log st) ?e" by (rule log_ok_view [OF _ l]) simp
  moreover have "mset (case e of None \<Rightarrow> [] | Some x \<Rightarrow> [x]) + pool_reqs ?e = pool_reqs ?d"
    using q(3) by (cases e) (simp_all add: pool_reqs_def data_ptrs_def)
  then have "mset (ch_out st @ (case e of None \<Rightarrow> [] | Some x \<Rightarrow> [x])) + pool_reqs ?e = mset (ch_out st) + pool_reqs ?d"
    by (metis mset_append add.assoc)
  ultimately show ?thesis using q(1) cf by (simp add: dram_step_def return_queue_pop_def chan_inv_def)
qed

lemma dram_step_ok:
  assumes "chan_inv c st" and "dram_ok c partition_id st e"
  shows "\<exists>st'. dram_step c partition_id st e = Some st' \<and> chan_inv c st' \<and>
    mset (ch_out st') + pool_reqs (ch_dram st') = mset (ch_out st) + pool_reqs (ch_dram st) + mset (pushed_reqs [e])"
  using assms push_step [OF assms(1)] cycle_step [OF assms(1)] pop_step [OF assms(1)]
  by (cases e) fastforce+

interpretation dram: live_system "dram_step c partition_id" "chan_inv c" "dram_ok c partition_id" for c partition_id
  by unfold_locales (use dram_step_ok in fastforce)+

lemma dram_run_conserves:
  assumes "chan_inv c st" and "dram.run_ok c partition_id st es" and "run (dram_step c partition_id) st es = Some st'"
  shows "mset (ch_out st') + pool_reqs (ch_dram st') = mset (ch_out st) + pool_reqs (ch_dram st) + mset (pushed_reqs es)"
  using assms
proof (induction es arbitrary: st)
  case (Cons e es)
  from Cons.prems(1,2) obtain st1 where st1: "dram_step c partition_id st e = Some st1" "chan_inv c st1"
    "mset (ch_out st1) + pool_reqs (ch_dram st1) = mset (ch_out st) + pool_reqs (ch_dram st) + mset (pushed_reqs [e])"
    using dram_step_ok [of c st partition_id e] by auto
  have "mset (pushed_reqs (e # es)) = mset (pushed_reqs [e]) + mset (pushed_reqs es)" by (cases e) auto
  with Cons.IH [of st1] Cons.prems st1 show ?case by (simp add: ac_simps)
qed simp

text \<open>The same over the queues.\<close>

lemma chan_inv_channel: "chan_inv c st \<Longrightarrow> in_channel (ch_dram st) = pool_reqs (ch_dram st)"
  using in_channel_pool by (auto simp: chan_inv_def flow_ok_def)

lemma dram_run_queues:
  assumes "chan_inv c st" and "dram.run_ok c partition_id st es" and "run (dram_step c partition_id) st es = Some st'"
  shows "mset (ch_out st') + in_channel (ch_dram st') = mset (ch_out st) + in_channel (ch_dram st) + mset (pushed_reqs es)"
  using dram_run_conserves [OF assms] dram.run_live [OF assms(1,2)] assms(3) chan_inv_channel assms(1) by fastforce

text \<open>A new channel.\<close>

lemma dram_new_ok:
  assumes cf: "config_ok c" and d: "dram_new c = Some d"
  shows "chan_inv c (channel_new heap d)" and "pool_reqs d = {#}" and "in_channel d = {#}"
proof -
  obtain rwq mrqq returnq where q: "dq_new (dc_CL c) (dc_CL c + 1) = Some rwq" "dq_new 0 2 = Some mrqq"
    "dq_new 0 (if dc_return_queue_size c = 0 then 1024 else dc_return_queue_size c) = Some returnq"
    and d': "d = \<lparr>dm_bk = replicate (fc_nbk c) bank_new, dm_bkgrp = replicate (dc_nbkgrp c) \<lparr>bg_CCDLc = 0, bg_RTPLc = 0\<rparr>,
       dm_prio = 0, dm_RRDc = 0, dm_CCDc = 0, dm_RTWc = 0, dm_WTRc = 0, dm_writing = False,
       dm_rwq = rwq, dm_mrqq = mrqq, dm_returnq = returnq, dm_sched = frfcfs_new (frfcfs_config.truncate c),
       dm_pool = (\<lambda>_. None), dm_next_req = 0\<rparr>"
    using d by (auto simp: dram_new_def bind_eq_Some_conv)
  have rwq: "dq_inv rwq" "dq_data rwq = []" "dq_max_len rwq = Suc (dc_CL c)"
    using dq_new_spec [where 'a = nat, of "dc_CL c + 1" "dc_CL c"] q(1) by auto
  have plain: "dq_plain q \<and> dq_data q = [] \<and> dq_max_len q = n" if "dq_new 0 n = Some q" "0 < n" for q :: "nat delay_queue" and n
    using that by (auto simp: dq_new_def dq_plain_def dq_inv_def dq_data_def)
  have mrqq: "dq_plain mrqq" "dq_data mrqq = []" "dq_max_len mrqq = 2" using plain [OF q(2)] by auto
  have returnq: "dq_plain returnq" "dq_data returnq = []" using plain [OF q(3)] by auto
  have none: "vals (map bk_mrq (replicate n bank_new)) = []" for n by (induction n) (simp_all add: bank_new_def)
  have w: "waiting d = {#}"
    by (simp add: waiting_def d' mrqq(2) bank_reqs_def none pending_reqs_def frfcfs_new_def del: map_replicate)
  have fd: "flow_data c d"
    using w rwq mrqq returnq frfcfs_new_inv by (simp add: flow_data_def d')
  have cnt: "counters_ok c d" using cf by (simp add: counters_ok_def d' config_ok_def bank_bounded_def bank_new_def)
  moreover have "bank_rows d = (\<lambda>_. None)" by (auto simp: bank_rows_def d' bank_new_def)
  ultimately have "log_ok c 0 [] d" by (simp add: log_ok_def)
  then show "chan_inv c (channel_new heap d)"
    using cf fd cnt by (simp add: chan_inv_def channel_new_def flow_ok_def heap_ok_def data_ptrs_def d' input_ok_def mrqq(2))
  show pr: "pool_reqs d = {#}" by (simp add: pool_reqs_def d' returnq(2))
  show "in_channel d = {#}" using in_channel_pool [OF fd] pr by simp
qed

end
