(* ===== verification/Dram_Properties.thy ===== *)
theory Dram_Properties
  imports Dram_Flow
begin

text \<open>
  The properties of a DRAM channel, over any sequence of pushes, cycles and pops that keeps to the
  protocol of the memory partition, with a concrete channel, and what the model showed of the code.
\<close>

section \<open>Properties\<close>

text \<open>
  C1: the DRAM channel never issues a command too early: in every run, any two commands are at least
  as many cycles apart as the timing parameters ask for these two (row to column, precharge to
  activate, activate to activate in one bank and in the channel, column to column in the channel and
  in a bank group, read to write and write to read turnaround, and the delays before a precharge),
  and the run does not trip an assertion. \<^verbatim>\<open>tCCDL\<close> and \<^verbatim>\<open>tRTPL\<close> are counted where the code counts them, between commands
  to one bank group; the option texts call them delays between different groups.
\<close>

theorem dram_timing_safe:
  assumes "config_ok c" and "dram_new c = Some d" and "dram.run_ok c chip (channel_new heap d) es"
  shows "\<exists>st. run (dram_step c chip) (channel_new heap d) es = Some st \<and>
    sorted_wrt (\<lambda>(t, x) (t', y). t + gap c x y \<le> t') (ch_log st)"
  using dram.run_live [OF dram_new_ok(1) [OF assms(1,2)] assms(3)] by (auto simp: chan_inv_def log_ok_def)

text \<open>
  C3: the commands of every run fit together: a bank is activated only when no row is open, read and
  written only in its open row, and only the open row is precharged.
\<close>

theorem dram_rows_legal:
  assumes "config_ok c" and "dram_new c = Some d" and "dram.run_ok c chip (channel_new heap d) es"
  shows "\<exists>st R. run (dram_step c chip) (channel_new heap d) es = Some st \<and>
    run open_step (\<lambda>_. None) (map snd (ch_log st)) = Some R"
  using dram.run_live [OF dram_new_ok(1) [OF assms(1,2)] assms(3)] by (auto simp: chan_inv_def log_ok_def)

text \<open>
  C2: the channel neither loses, doubles nor invents a request, and never uses one that it has
  deleted: in every run, the requests pushed are exactly those that left, by the return queue or as
  a finished write-back, together with those still inside.
\<close>

theorem dram_conserves:
  assumes "config_ok c" and "dram_new c = Some d" and "dram.run_ok c chip (channel_new heap d) es"
  shows "\<exists>st. run (dram_step c chip) (channel_new heap d) es = Some st \<and>
    mset (pushed_reqs es) = mset (ch_out st) + in_channel (ch_dram st)"
proof -
  note new = dram_new_ok [OF assms(1,2)]
  from dram.run_live [OF new(1) assms(3)] obtain st where st: "run (dram_step c chip) (channel_new heap d) es = Some st" by blast
  from dram_run_queues [OF new(1) assms(3) st] new(3) show ?thesis using st by (simp add: channel_new_def)
qed

lemma halvings_pow2: "halvings (2 ^ k) = Suc k"
  by (induction k) (simp_all add: halvings.simps [of "Suc 0"] halvings.simps [of 0] halvings.simps [of "2 * 2 ^ k" for k])

text \<open>The shift that \<^verbatim>\<open>memory_config::init\<close> computes for a power of two of banks in each group.\<close>

lemma bk_tag_length_init:
  assumes init: "dram_delays_init p = Some dd" and pow: "unat (do_nbk p) = unat (do_nbkgrp p) * 2 ^ k" and k: "k < 31"
  shows "unat (dd_bk_tag_length dd) = k"
proof -
  have g: "do_nbkgrp p \<noteq> 0" and dd: "dd_bk_tag_length dd = of_nat (halvings (nat (sint (do_nbk p div do_nbkgrp p)))) - 1"
    using init by (auto simp: dram_delays_init_def Let_def bind_eq_Some_conv)
  have g0: "0 < unat (do_nbkgrp p)" using g by (simp add: unat_gt_0)
  have "unat (do_nbk p div do_nbkgrp p) = 2 ^ k" using pow g0 by (simp add: unat_div)
  then have "of_nat (unat (do_nbk p div do_nbkgrp p)) = (2 ^ k :: u32)" by simp
  then have q: "do_nbk p div do_nbkgrp p = 2 ^ k" by simp
  have "unat (2 ^ k :: u32) = 2 ^ k" using pow g0 q by (metis nonzero_mult_div_cancel_left unat_div less_irrefl)
  then have "uint (2 ^ k :: u32) = 2 ^ k" by (metis of_nat_numeral of_nat_power uint_nat)
  then have "sint (2 ^ k :: u32) = signed_take_bit 31 (2 ^ k)" by (simp add: sint_uint)
  also have "\<dots> = 2 ^ k"
  proof (rule signed_take_bit_int_eq_self)
    show "2 ^ k < (2 :: int) ^ 31" using k by (simp only: power_strict_increasing_iff)
    have "- ((2 :: int) ^ 31) \<le> 0" by simp
    also have "0 \<le> (2 :: int) ^ k" by simp
    finally show "- (2 ^ 31) \<le> (2 :: int) ^ k" .
  qed
  finally have "sint (2 ^ k :: u32) = 2 ^ k" .
  then have "dd_bk_tag_length dd = of_nat (Suc k) - 1" unfolding dd q by (simp add: halvings_pow2 nat_power_eq)
  then show ?thesis using k by (simp add: unat_of_nat)
qed

lemma card_div_class:
  fixes g m n :: nat
  assumes "g < n" and "0 < m"
  shows "card {b. b < n * m \<and> b div m = g} = m"
proof -
  have le: "g * m + m \<le> n * m" using assms(1) mult_le_mono1 [of "Suc g" n m] by simp
  have "b div m = g \<longleftrightarrow> g * m \<le> b \<and> b < g * m + m" for b
  proof
    assume g: "b div m = g"
    have "b = g * m + b mod m" unfolding g [symmetric] by (rule div_mult_mod_eq [symmetric])
    moreover have "b mod m < m" using assms(2) by simp
    ultimately show "g * m \<le> b \<and> b < g * m + m" by linarith
  next
    assume "g * m \<le> b \<and> b < g * m + m"
    then have "m * g \<le> b" "b < m * Suc g" by (simp_all add: mult.commute [of m g])
    then show "b div m = g" by (rule div_nat_eqI)
  qed
  then have "b < n * m \<and> b div m = g \<longleftrightarrow> g * m \<le> b \<and> b < g * m + m" for b using le less_le_trans by blast
  then have "{b. b < n * m \<and> b div m = g} = {g * m ..< g * m + m}" unfolding atLeastLessThan_def lessThan_def atLeast_def by blast
  then show ?thesis by simp
qed

lemma card_mod_class:
  fixes g m n :: nat
  assumes "g < n"
  shows "card {b. b < n * m \<and> b mod n = g} = m"
proof -
  have "{b. b < n * m \<and> b mod n = g} = (\<lambda>q. q * n + g) ` {..<m}"
  proof (intro equalityI subsetI)
    fix b assume "b \<in> {b. b < n * m \<and> b mod n = g}"
    then have "b = b div n * n + g" "b div n < m" using assms by (auto simp: less_mult_imp_div_less mult.commute)
    then show "b \<in> (\<lambda>q. q * n + g) ` {..<m}" by blast
  next
    fix b assume "b \<in> (\<lambda>q. q * n + g) ` {..<m}"
    then obtain q where "b = q * n + g" "q < m" by blast
    moreover have "q * n + g < Suc q * n" using assms by simp
    moreover have "Suc q * n \<le> m * n" using \<open>q < m\<close> by (intro mult_le_mono1) simp
    ultimately show "b \<in> {b. b < n * m \<and> b mod n = g}" using assms by (simp add: mult.commute)
  qed
  moreover have "inj_on (\<lambda>q. q * n + g) {..<m}" using assms by (auto simp: inj_on_def)
  ultimately show ?thesis by (simp add: card_image)
qed

text \<open>
  C10: with a power of two of banks in each group (and, for the lower bits, a power of two of groups), the shift that
  \<^verbatim>\<open>memory_config::init\<close> computes splits the banks evenly: the group of a bank is its number divided by the banks of
  a group (\<^verbatim>\<open>HIGHER_BITS\<close>) or modulo the number of groups (\<^verbatim>\<open>LOWER_BITS\<close>), every group has as many banks as the
  others, and \<^verbatim>\<open>bkgrp\<close> is never read out of range.
\<close>

theorem bank_groups_in_range:
  assumes init: "dram_delays_init p = Some dd" and pow: "unat (do_nbk p) = unat (do_nbkgrp p) * 2 ^ k" and k: "k < 31"
    and c: "fc_nbk c = unat (do_nbk p)" "dc_nbkgrp c = unat (do_nbkgrp p)" "dc_bk_tag_length c = unat (dd_bk_tag_length dd)"
    and low: "dc_bnkgrp_indexing c = LOWER_BITS \<Longrightarrow> dc_nbkgrp c = 2 ^ m"
  shows "groups_ok c \<and>
    (\<forall>b < fc_nbk c. get_bankgrp_number c b = (case dc_bnkgrp_indexing c of HIGHER_BITS \<Rightarrow> b div 2 ^ k | LOWER_BITS \<Rightarrow> b mod dc_nbkgrp c)) \<and>
    (\<forall>g < dc_nbkgrp c. card {b. b < fc_nbk c \<and> get_bankgrp_number c b = g} = 2 ^ k)"
proof -
  have n: "fc_nbk c = dc_nbkgrp c * 2 ^ k" using c pow by simp
  have num: "get_bankgrp_number c b = (case dc_bnkgrp_indexing c of HIGHER_BITS \<Rightarrow> b div 2 ^ k | LOWER_BITS \<Rightarrow> b mod dc_nbkgrp c)" for b
  proof (cases "dc_bnkgrp_indexing c")
    case HIGHER_BITS
    then show ?thesis using bk_tag_length_init [OF init pow k] c(3) by (simp add: get_bankgrp_number_def drop_bit_eq_div)
  next
    case LOWER_BITS
    moreover have "b AND (2 ^ m - 1) = b mod 2 ^ m"
      by (simp only: mask_eq_exp_minus_1 [symmetric] take_bit_eq_mod [symmetric] take_bit_eq_mask [symmetric])
    ultimately show ?thesis using low by (simp add: get_bankgrp_number_def)
  qed
  have "get_bankgrp_number c b < dc_nbkgrp c" if "b < fc_nbk c" for b
  proof -
    have "0 < dc_nbkgrp c" using that n by (cases "dc_nbkgrp c") simp_all
    with that n show ?thesis by (cases "dc_bnkgrp_indexing c") (simp_all add: num less_mult_imp_div_less)
  qed
  moreover have "card {b. b < fc_nbk c \<and> get_bankgrp_number c b = g} = 2 ^ k" if "g < dc_nbkgrp c" for g
    using that card_div_class [of g "dc_nbkgrp c" "2 ^ k"] card_mod_class [of g "dc_nbkgrp c" "2 ^ k"]
    by (cases "dc_bnkgrp_indexing c") (simp_all add: num n)
  ultimately show ?thesis by (simp add: groups_ok_def num)
qed

section \<open>A concrete channel\<close>

lemma dram_new_Some: "\<exists>d. dram_new c = Some d"
proof -
  obtain q1 :: "nat delay_queue" where 1: "dq_new (dc_CL c) (dc_CL c + 1) = Some q1"
    using dq_new_spec [where 'a = nat, of "dc_CL c + 1" "dc_CL c"] by auto
  obtain q2 :: "nat delay_queue" where 2: "dq_new 0 2 = Some q2" using dq_new_spec [where 'a = nat, of 2 0] by auto
  have "0 < (if dc_return_queue_size c = 0 then 1024 else dc_return_queue_size c)" by simp
  from dq_new_spec [where 'a = nat, OF this le0] obtain q3 :: "nat delay_queue" where
    3: "dq_new 0 (if dc_return_queue_size c = 0 then 1024 else dc_return_queue_size c) = Some q3" by (elim exE conjE) simp
  show ?thesis by (simp only: dram_new_def 1 2 3 bind.bind_lunit) blast
qed

definition demo_dram :: dram_config where
  "demo_dram = \<lparr>fc_nbk = 2, fc_seperate_write_queue = False, fc_sched_queue_size = 4, fc_write_queue_size = 0,
     fc_write_high_watermark = 0, fc_write_low_watermark = 0, dc_scheduler = DRAM_FRFCFS, dc_nbkgrp = 1,
     dc_bk_tag_length = 1, dc_bnk_indexing = LINEAR_BK_INDEX, dc_bnkgrp_indexing = HIGHER_BITS, dc_dual_bus = False,
     dc_return_queue_size = 4, dc_atom_size = 32, dc_tCCD = 1, dc_tCCDL = 1, dc_tRTPL = 1, dc_tRRD = 2, dc_tRCD = 2,
     dc_tRCDWR = 1, dc_tRAS = 4, dc_tRP = 2, dc_tRC = 6, dc_BL = 4, dc_data_command_freq_ratio = 2, dc_tRTW = 2, dc_tWTR = 2, dc_tWTP = 3,
     dc_CL = 2, dc_WL = 1\<rparr>"

definition demo_tlx :: addrdec_t where
  "demo_tlx = \<lparr>tl_chip = 0, tl_bk = 1, tl_row = 5, tl_col = 0, tl_burst = 0, tl_sub_partition = 0\<rparr>"

definition demo_mf :: mem_fetch where
  "demo_mf = \<lparr>mf_request_uid = 0, mf_sid = 0, mf_tpc = 0, mf_wid = 0, mf_status = MEM_FETCH_INITIALIZED,
     mf_status_change = 0, mf_access = \<lparr>acc_uid = 0, acc_addr = 0, acc_write = False, acc_req_size = 32,
       acc_type = GLOBAL_ACC_R, acc_warp_mask = 0, acc_byte_mask = 0, acc_sector_mask = 0\<rparr>,
     mf_data_size = 32, mf_ctrl_size = 8, mf_partition_addr = 0, mf_chip = 0, mf_sub_partition = 0, mf_type = READ_REQUEST,
     mf_timestamp = 0, mf_timestamp2 = 0, mf_inst = None, mf_streamID = 0, mf_icnt_flit_size = 32,
     mf_original_mf = None, mf_original_wr_mf = None\<rparr>"

definition demo_channel :: channel where
  "demo_channel = channel_new (\<lambda>p. if p = 7 then Some demo_mf else None) (the (dram_new demo_dram))"

definition demo_run :: "dram_event list" where
  "demo_run = [DramPush demo_tlx 7, DramCycle, DramCycle, DramCycle, DramCycle, DramCycle, DramCycle, DramPop]"

lemma demo_config: "config_ok demo_dram"
  unfolding config_ok_def groups_ok_def by (simp add: demo_dram_def get_bankgrp_number_def drop_bit_eq_div)

lemma demo_dram_new: "dram_new demo_dram = Some (the (dram_new demo_dram))"
  using dram_new_Some [of demo_dram] by auto

lemma demo_run_ok: "dram.run_ok demo_dram 0 demo_channel demo_run"
proof -
  have quiet: "dram.run_ok demo_dram 0 st es" if "list_all (\<lambda>e. e = DramCycle \<or> e = DramPop) es" for st es
    using that by (induction es arbitrary: st) (auto simp: dram_ok_def)
  have "chan_inv demo_dram demo_channel" "in_channel (ch_dram demo_channel) = {#}"
    using dram_new_ok(1,3) [OF demo_config demo_dram_new] by (simp_all add: demo_channel_def channel_new_def)
  moreover have "dq_data (dm_mrqq (ch_dram demo_channel)) = []" "fs_num_pending (dm_sched (ch_dram demo_channel)) = 0"
    using demo_dram_new by (auto simp: demo_channel_def channel_new_def dram_new_def bind_eq_Some_conv dq_new_def dq_data_def frfcfs_new_def)
  ultimately have "dram_ok demo_dram 0 demo_channel (DramPush demo_tlx 7)"
    by (simp add: dram_ok_def demo_channel_def channel_new_def dram_bank_def demo_dram_def demo_tlx_def demo_mf_def
      answerable_def set_reply_def get_access_type_def is_write_def dram_full_def sched_full_def frfcfs_config.truncate_def)
  with quiet show ?thesis by (simp add: demo_run_def) (simp add: dram_ok_def)
qed

lemma dram_timing_safe_witness:
  "\<exists>st. run (dram_step demo_dram 0) demo_channel demo_run = Some st \<and>
    sorted_wrt (\<lambda>(t, x) (t', y). t + gap demo_dram x y \<le> t') (ch_log st)"
  using dram_timing_safe [OF demo_config demo_dram_new demo_run_ok [unfolded demo_channel_def]] by (simp add: demo_channel_def)

lemma dram_rows_legal_witness:
  "\<exists>st R. run (dram_step demo_dram 0) demo_channel demo_run = Some st \<and>
    run open_step (\<lambda>_. None) (map snd (ch_log st)) = Some R"
  using dram_rows_legal [OF demo_config demo_dram_new demo_run_ok [unfolded demo_channel_def]] by (simp add: demo_channel_def)

lemma dram_conserves_witness:
  "\<exists>st. run (dram_step demo_dram 0) demo_channel demo_run = Some st \<and>
    {#7#} = mset (ch_out st) + in_channel (ch_dram st)"
  using dram_conserves [OF demo_config demo_dram_new demo_run_ok [unfolded demo_channel_def]]
  by (simp add: demo_channel_def demo_run_def)

definition demo_options :: dram_options where
  "demo_options = \<lparr>do_nbk = 16, do_nbkgrp = 4, do_tRCD = 12, do_tCDLR = 5, do_tWR = 12, do_CL = 12, do_WL = 4, do_BL = 8,
     do_busW = 4, do_data_command_freq_ratio = 4, do_gpu_n_mem_per_ctrlr = 1, do_n_sub_partition = 2,
     do_elimnate_rw_turnaround = False\<rparr>"

definition demo_delays :: dram_delays where
  "demo_delays = \<lparr>dd_bk_tag_length = 2, dd_tRCDWR = 7, dd_tRTW = 12, dd_tWTR = 11, dd_tWTP = 18, dd_dram_atom_size = 32\<rparr>"

lemma demo_delays: "dram_delays_init demo_options = Some demo_delays"
  by (simp add: dram_delays_init_def demo_options_def demo_delays_def halvings.simps)

definition demo_groups :: dram_config where
  "demo_groups = demo_dram\<lparr>fc_nbk := 16, dc_nbkgrp := 4, dc_bk_tag_length := 2\<rparr>"

lemma bank_groups_in_range_witness:
  "groups_ok demo_groups \<and> get_bankgrp_number demo_groups 9 = 2 \<and> card {b. b < 16 \<and> get_bankgrp_number demo_groups b = 3} = 4"
proof -
  have "fc_nbk demo_groups = unat (do_nbk demo_options)" "dc_nbkgrp demo_groups = unat (do_nbkgrp demo_options)"
    "dc_bk_tag_length demo_groups = unat (dd_bk_tag_length demo_delays)" "dc_bnkgrp_indexing demo_groups = HIGHER_BITS"
    "unat (do_nbk demo_options) = unat (do_nbkgrp demo_options) * 2 ^ 2" "fc_nbk demo_groups = 16" "dc_nbkgrp demo_groups = 4"
    by (simp_all add: demo_groups_def demo_options_def demo_delays_def demo_dram_def)
  with bank_groups_in_range [OF demo_delays, of 2 demo_groups 0] show ?thesis by simp
qed

section \<open>What the model shows of the code\<close>

text \<open>
  The size 0 of the scheduler queue, the default of the option, is documented as unlimited, and
  \<^verbatim>\<open>full\<close> answers so; \<^verbatim>\<open>add_req\<close> asserts that fewer requests than the size are pending.
\<close>

lemma unlimited_queue_aborts:
  assumes "fc_sched_queue_size c = 0" and "\<not> fc_seperate_write_queue c"
  shows "\<not> sched_full c s wr" and "add_req c pool s req = None"
  using assms by (simp_all add: sched_full_def add_req_def guard_def bind_eq_None_conv)

text \<open>
  With a separate write queue, writes below the high watermark wait although no read is pending:
  the conditions that would let them through are commented out.
\<close>

lemma writes_below_watermark_wait:
  assumes "frfcfs_inv c pool s" and "b < fc_nbk c" and "fc_seperate_write_queue c" and "fs_mode s = READ_MODE"
    and "fs_num_write_pending s < fc_write_high_watermark c" and "sd_queue (fs_read s) ! b = []"
  shows "schedule c pool s b row = Some (None, s)"
proof -
  have "switch_mode c s = READ_MODE" using assms(3-5) by (simp add: switch_mode_def)
  with schedule_ok [OF assms(1,2), of row] assms(4,6) show ?thesis
    by (auto simp: schedule_spec_def served_side_def)
qed

text \<open>
  With a single bus, documented to issue one row or column command a cycle, an activate does not stop
  a column command at a bank that the loop visits later.
\<close>

definition two_banks :: dram where
  "two_banks = (the (dram_new demo_dram))\<lparr>dm_bk := [bank_new\<lparr>bk_mrq := Some 0\<rparr>, bank_new,
     bank_new\<lparr>bk_mrq := Some 1, bk_state := BANK_ACTIVE, bk_curr_row := 5\<rparr>, bank_new],
     dm_bkgrp := [\<lparr>bg_CCDLc = 0, bg_RTPLc = 0\<rparr>],
     dm_pool := (\<lambda>_. Some \<lparr>dr_row = 5, dr_col = 0, dr_bk = 0, dr_nbytes = 32, dr_txbytes = 0, dr_dqbytes = 0,
       dr_write = False, dr_data = 7\<rparr>)\<rparr>"

lemma single_bus_two_commands:
  "map_option fst (issue_commands (demo_dram\<lparr>fc_nbk := 4, dc_bk_tag_length := 2\<rparr>) two_banks) = Some [ACT 0 5, RD 2 5]"
proof -
  define q1 :: "nat delay_queue" where
    "q1 = \<lparr>dq_min_len = 2, dq_max_len = 3, dq_length = 2, dq_n_element = 2, dq_cells = [None, None]\<rparr>"
  have q1: "dq_new 2 3 = Some q1" "dq_max_len q1 = 3" "dq_length q1 = 2"
    by (simp_all add: q1_def dq_new_def dq_push_def numeral_2_eq_2)
  obtain q2 :: "nat delay_queue" where q2: "dq_new 0 2 = Some q2" by (simp add: dq_new_def)
  obtain q3 :: "nat delay_queue" where q3: "dq_new 0 4 = Some q3" by (simp add: dq_new_def)
  obtain q4 where q4: "dq_push q1 (Some (Suc 0)) = Some q4" using q1 by (simp add: dq_push_def)
  have "[0..<4] = [0, 1, 2, 3 :: nat]" by (simp add: upt_rec)
  then show ?thesis
    by (simp add: issue_commands_def two_banks_def demo_dram_def dram_new_def q1(1) q2 q3 bank_new_def
      issue_col_command_def issue_row_command_def can_read_def can_write_def send_atom_def upd_bank_def Let_def
      get_bankgrp_number_def dq_full_def q1(2,3) q4 drop_bit_eq_div map_filter_simps)
qed

text \<open>The delay from an activate to a write is computed without a check and wraps when \<^verbatim>\<open>tRCD\<close> is at most \<^verbatim>\<open>WL\<close>.\<close>

lemma tRCDWR_wraps:
  "map_option dd_tRCDWR (dram_delays_init (demo_options\<lparr>do_tRCD := 4\<rparr>)) = Some (2 ^ 32 - 1)"
  by (simp add: dram_delays_init_def demo_options_def halvings.simps)

end
