(* ===== verification/Local_Xbar.thy ===== *)
theory Local_Xbar
  imports Sim_Prelude
begin

text \<open>
  The built-in crossbar (local_interconnect.cc, local_interconnect.h): one router for requests and
  one for replies, each with a queue for every node at its inputs and at its outputs. A packet is a
  pair of its data and its destination. An index out of range and a failed assertion are \<open>None\<close>. The
  statistics, which nothing but their output reads, are left out.
\<close>

section \<open>Routers\<close>

datatype arbiteration_type = NAIVE_RR | iSLIP

record inct_config =
  in_buffer_limit :: nat
  out_buffer_limit :: nat
  subnets :: nat
  arbiter_algo :: arbiteration_type
  grant_cycles :: u32

record 'a xbar_router =
  in_buffers :: "('a \<times> nat) list list"
  out_buffers :: "('a \<times> nat) list list"
  next_node :: "nat list"
  next_node_id :: nat
  grant_cycles_count :: u32

definition xbar_new :: "inct_config \<Rightarrow> nat \<Rightarrow> nat \<Rightarrow> 'a xbar_router" where
  "xbar_new c n_shader n_mem = (let total_nodes = n_shader + n_mem in
     \<lparr>in_buffers = replicate total_nodes [], out_buffers = replicate total_nodes [], next_node = replicate total_nodes 0,
      next_node_id = 0, grant_cycles_count = grant_cycles c\<rparr>)"

definition total_nodes :: "'a xbar_router \<Rightarrow> nat" where
  "total_nodes x = length (in_buffers x)"

definition xbar_push :: "'a xbar_router \<Rightarrow> nat \<Rightarrow> nat \<Rightarrow> 'a \<Rightarrow> 'a xbar_router option" where
  "xbar_push x input_deviceID output_deviceID data = do {
     guard (input_deviceID < total_nodes x);
     Some (x\<lparr>in_buffers := (in_buffers x)[input_deviceID := in_buffers x ! input_deviceID @ [(data, output_deviceID)]]\<rparr>) }"

definition xbar_pop :: "'a xbar_router \<Rightarrow> nat \<Rightarrow> ('a option \<times> 'a xbar_router) option" where
  "xbar_pop x output_deviceID = do {
     guard (output_deviceID < total_nodes x);
     (case out_buffers x ! output_deviceID of
        [] \<Rightarrow> Some (None, x)
      | (data, _) # rest \<Rightarrow> Some (Some data, x\<lparr>out_buffers := (out_buffers x)[output_deviceID := rest]\<rparr>)) }"

definition Has_Buffer_In :: "inct_config \<Rightarrow> 'a xbar_router \<Rightarrow> nat \<Rightarrow> nat \<Rightarrow> bool option" where
  "Has_Buffer_In c x input_deviceID sz = do {
     guard (input_deviceID < total_nodes x);
     Some (length (in_buffers x ! input_deviceID) + sz \<le> in_buffer_limit c) }"

definition Has_Buffer_Out :: "inct_config \<Rightarrow> 'a xbar_router \<Rightarrow> nat \<Rightarrow> nat \<Rightarrow> bool option" where
  "Has_Buffer_Out c x output_deviceID sz = do {
     guard (output_deviceID < total_nodes x);
     Some (length (out_buffers x ! output_deviceID) + sz \<le> out_buffer_limit c) }"

text \<open>The front packet of an input moves to an output.\<close>

definition move_packet :: "nat \<Rightarrow> nat \<Rightarrow> 'a xbar_router \<Rightarrow> 'a xbar_router" where
  "move_packet node out x =
     x\<lparr>out_buffers := (out_buffers x)[out := out_buffers x ! out @ [hd (in_buffers x ! node)]],
       in_buffers := (in_buffers x)[node := tl (in_buffers x ! node)]\<rparr>"

text \<open>Round robin: the inputs in turn, from the one that a counter names, and at most one packet to each output.\<close>

definition rr_visit :: "inct_config \<Rightarrow> nat \<Rightarrow> 'a xbar_router \<times> bool list \<Rightarrow> ('a xbar_router \<times> bool list) option" where
  "rr_visit c node_id st = (case st of (x, issued) \<Rightarrow> (case in_buffers x ! node_id of
       [] \<Rightarrow> Some (x, issued)
     | (data, out) # _ \<Rightarrow> do {
         has_buffer \<leftarrow> Has_Buffer_Out c x out 1;
         Some (if has_buffer \<and> \<not> issued ! out then (move_packet node_id out x, issued[out := True]) else (x, issued)) }))"

definition RR_Advance :: "inct_config \<Rightarrow> 'a xbar_router \<Rightarrow> 'a xbar_router option" where
  "RR_Advance c x = do {
     guard (total_nodes x \<noteq> 0);
     (x', issued) \<leftarrow> fold_opt (rr_visit c) (map (\<lambda>i. (i + next_node_id x) mod total_nodes x) [0..<total_nodes x])
       (x, replicate (total_nodes x) False);
     Some (x'\<lparr>next_node_id := (next_node_id x + 1) mod total_nodes x\<rparr>) }"

text \<open>
  iSLIP: every output with room takes the first input, from the one that its pointer names, whose
  front packet is for it; the pointer moves on when the grant has lasted long enough.
\<close>

definition wants :: "'a xbar_router \<Rightarrow> nat \<Rightarrow> nat \<Rightarrow> bool" where
  "wants x out node_id \<longleftrightarrow> (case in_buffers x ! node_id of [] \<Rightarrow> False | (data, dest) # _ \<Rightarrow> dest = out)"

definition islip_output :: "inct_config \<Rightarrow> nat \<Rightarrow> 'a xbar_router \<Rightarrow> 'a xbar_router option" where
  "islip_output c i x = do {
     has_buffer \<leftarrow> Has_Buffer_Out c x i 1;
     (if has_buffer then
        (case find (wants x i) (map (\<lambda>j. (j + next_node x ! i) mod total_nodes x) [0..<total_nodes x]) of
           None \<Rightarrow> Some x
         | Some node_id \<Rightarrow>
             let x = move_packet node_id i x
             in Some (if grant_cycles_count x = 1
                then x\<lparr>next_node := (next_node x)[i := (node_id + 1) mod total_nodes x]\<rparr> else x))
      else Some x) }"

definition iSLIP_Advance :: "inct_config \<Rightarrow> 'a xbar_router \<Rightarrow> 'a xbar_router option" where
  "iSLIP_Advance c x = do {
     let active = list_ex (\<lambda>b. b \<noteq> []) (in_buffers x);
     x \<leftarrow> fold_opt (islip_output c) [0..<total_nodes x] x;
     Some (if active \<and> grant_cycles_count x = 1 then x\<lparr>grant_cycles_count := grant_cycles c\<rparr>
           else if active then x\<lparr>grant_cycles_count := grant_cycles_count x - 1\<rparr>
           else x) }"

definition xbar_advance :: "inct_config \<Rightarrow> 'a xbar_router \<Rightarrow> 'a xbar_router option" where
  "xbar_advance c x = (case arbiter_algo c of NAIVE_RR \<Rightarrow> RR_Advance c x | iSLIP \<Rightarrow> iSLIP_Advance c x)"

definition xbar_busy :: "'a xbar_router \<Rightarrow> bool" where
  "xbar_busy x \<longleftrightarrow> list_ex (\<lambda>i. in_buffers x ! i \<noteq> [] \<or> out_buffers x ! i \<noteq> []) [0..<total_nodes x]"

section \<open>The interconnect\<close>

record 'a local_interconnect =
  li_n_shader :: nat
  li_n_mem :: nat
  li_n_subnets :: nat
  li_net :: "'a xbar_router list"

definition CreateInterconnect :: "inct_config \<Rightarrow> nat \<Rightarrow> nat \<Rightarrow> 'a local_interconnect" where
  "CreateInterconnect c n_shader n_mem =
     \<lparr>li_n_shader = n_shader, li_n_mem = n_mem, li_n_subnets = subnets c,
      li_net = replicate (subnets c) (xbar_new c n_shader n_mem)\<rparr>"

definition subnet :: "'a local_interconnect \<Rightarrow> nat \<Rightarrow> 'a xbar_router option" where
  "subnet li k = do { guard (k < length (li_net li)); Some (li_net li ! k) }"

definition li_push :: "inct_config \<Rightarrow> 'a local_interconnect \<Rightarrow> nat \<Rightarrow> nat \<Rightarrow> 'a \<Rightarrow> 'a local_interconnect option" where
  "li_push c li input_deviceID output_deviceID data = do {
     let k = (if li_n_subnets li = 1 then 0 else if input_deviceID < li_n_shader li then 0 else 1);
     x \<leftarrow> subnet li k;
     has_buffer \<leftarrow> Has_Buffer_In c x input_deviceID 1;
     guard has_buffer;
     x \<leftarrow> xbar_push x input_deviceID output_deviceID data;
     Some (li\<lparr>li_net := (li_net li)[k := x]\<rparr>) }"

definition li_pop :: "'a local_interconnect \<Rightarrow> nat \<Rightarrow> ('a option \<times> 'a local_interconnect) option" where
  "li_pop li output_deviceID = do {
     let k = (if output_deviceID < li_n_shader li then 1 else 0);
     x \<leftarrow> subnet li k;
     (data, x) \<leftarrow> xbar_pop x output_deviceID;
     Some (data, li\<lparr>li_net := (li_net li)[k := x]\<rparr>) }"

fun advance_all :: "inct_config \<Rightarrow> 'a xbar_router list \<Rightarrow> 'a xbar_router list option" where
  "advance_all c [] = Some []"
| "advance_all c (x # xs) = do { x \<leftarrow> xbar_advance c x; xs \<leftarrow> advance_all c xs; Some (x # xs) }"

definition li_advance :: "inct_config \<Rightarrow> 'a local_interconnect \<Rightarrow> 'a local_interconnect option" where
  "li_advance c li = do { net \<leftarrow> advance_all c (li_net li); Some (li\<lparr>li_net := net\<rparr>) }"

definition li_busy :: "'a local_interconnect \<Rightarrow> bool" where
  "li_busy li \<longleftrightarrow> list_ex xbar_busy (li_net li)"

definition li_has_buffer :: "inct_config \<Rightarrow> 'a local_interconnect \<Rightarrow> nat \<Rightarrow> bool option" where
  "li_has_buffer c li deviceID = do {
     x \<leftarrow> subnet li (if 1 < li_n_subnets li \<and> li_n_shader li \<le> deviceID then 1 else 0);
     Has_Buffer_In c x deviceID 1 }"

end
