(* ===== verification/Xbar_Flow.thy ===== *)
theory Xbar_Flow
  imports Local_Xbar "HOL-Library.Sublist"
begin

text \<open>
  The crossbar delivers: no packet is lost, doubled, invented or overtaken by a later one of the same
  source and destination, and under round robin no input starves.
\<close>

section \<open>A router\<close>

text \<open>The packets from \<open>s\<close> to \<open>d\<close> inside a router, oldest first; \<open>src\<close> tells who sent a packet.\<close>

definition in_flow :: "'a xbar_router \<Rightarrow> nat \<Rightarrow> nat \<Rightarrow> 'a list" where
  "in_flow x s d = map fst (filter (\<lambda>p. snd p = d) (in_buffers x ! s))"

definition out_flow :: "('a \<Rightarrow> nat) \<Rightarrow> 'a xbar_router \<Rightarrow> nat \<Rightarrow> nat \<Rightarrow> 'a list" where
  "out_flow src x s d = map fst (filter (\<lambda>p. src (fst p) = s) (out_buffers x ! d))"

definition flow :: "('a \<Rightarrow> nat) \<Rightarrow> 'a xbar_router \<Rightarrow> nat \<Rightarrow> nat \<Rightarrow> 'a list" where
  "flow src x s d = out_flow src x s d @ in_flow x s d"

definition xbar_inv :: "inct_config \<Rightarrow> ('a \<Rightarrow> nat) \<Rightarrow> nat \<Rightarrow> 'a xbar_router \<Rightarrow> bool" where
  "xbar_inv c src n x \<longleftrightarrow> 0 < n \<and> total_nodes x = n \<and> length (out_buffers x) = n \<and>
     (\<forall>i < n. length (in_buffers x ! i) \<le> in_buffer_limit c \<and> (\<forall>(p, d) \<in> set (in_buffers x ! i). d < n \<and> src p = i)) \<and>
     (\<forall>d < n. length (out_buffers x ! d) \<le> out_buffer_limit c \<and> (\<forall>(p, e) \<in> set (out_buffers x ! d). src p < n))"

lemma xbar_inv_front:
  assumes "xbar_inv c src n x" and "i < n" and "in_buffers x ! i = (p, d) # rest"
  shows "d < n" and "src p = i"
  using assms by (force simp: xbar_inv_def)+

lemma move_packet_inv:
  assumes inv: "xbar_inv c src n x" and i: "i < n" and front: "in_buffers x ! i = (p, d) # rest"
    and room: "length (out_buffers x ! d) < out_buffer_limit c"
  shows "xbar_inv c src n (move_packet i d x)"
proof -
  have "set rest \<subseteq> set (in_buffers x ! i)" and "length rest \<le> length (in_buffers x ! i)" using front by auto
  then show ?thesis
    using inv i room front xbar_inv_front [OF inv i front]
    by (auto simp: xbar_inv_def move_packet_def total_nodes_def nth_list_update split: if_splits)
qed

lemma move_packet_flow:
  assumes inv: "xbar_inv c src n x" and i: "i < n" and front: "in_buffers x ! i = (p, d) # rest"
    and "s < n" and "e < n"
  shows "flow src (move_packet i d x) s e = flow src x s e"
proof -
  have "length (in_buffers x) = n" "length (out_buffers x) = n"
    using inv by (auto simp: xbar_inv_def total_nodes_def)
  with assms xbar_inv_front [OF inv i front] show ?thesis
    by (cases "s = i"; cases "e = d")
      (auto simp: flow_def in_flow_def out_flow_def move_packet_def)
qed

text \<open>What an advance keeps.\<close>

definition keeps :: "inct_config \<Rightarrow> ('a \<Rightarrow> nat) \<Rightarrow> nat \<Rightarrow> 'a xbar_router \<Rightarrow> 'a xbar_router \<Rightarrow> bool" where
  "keeps c src n x0 x \<longleftrightarrow> xbar_inv c src n x \<and> (\<forall>s < n. \<forall>d < n. flow src x s d = flow src x0 s d)"

lemma xbar_keeps_refl: "xbar_inv c src n x \<Longrightarrow> keeps c src n x x"
  by (simp add: keeps_def)

lemma keeps_move:
  assumes "keeps c src n x0 x" and "i < n" and "in_buffers x ! i = (p, d) # rest"
    and "length (out_buffers x ! d) < out_buffer_limit c"
  shows "keeps c src n x0 (move_packet i d x)"
proof -
  have inv: "xbar_inv c src n x" using assms(1) by (simp add: keeps_def)
  show ?thesis using assms(1) move_packet_inv [OF inv assms(2-4)] move_packet_flow [OF inv assms(2,3)]
    by (simp add: keeps_def)
qed

lemma keeps_pointers:
  "keeps c src n x0 x \<Longrightarrow> keeps c src n x0 (x\<lparr>next_node_id := a\<rparr>)"
  "keeps c src n x0 x \<Longrightarrow> keeps c src n x0 (x\<lparr>next_node := b\<rparr>)"
  "keeps c src n x0 x \<Longrightarrow> keeps c src n x0 (x\<lparr>grant_cycles_count := g\<rparr>)"
  by (simp_all add: keeps_def xbar_inv_def total_nodes_def flow_def in_flow_def out_flow_def)

lemma Has_Buffer_Out_eq: "xbar_inv c src n x \<Longrightarrow> d < n \<Longrightarrow>
    Has_Buffer_Out c x d (Suc 0) = Some (length (out_buffers x ! d) < out_buffer_limit c)"
  by (auto simp: Has_Buffer_Out_def xbar_inv_def)

lemma rr_visit_keeps:
  assumes "keeps c src n x0 x" and "i < n"
  shows "\<exists>st. rr_visit c i (x, iss) = Some st \<and> keeps c src n x0 (fst st)"
proof (cases "in_buffers x ! i")
  case (Cons a rest)
  obtain p d where a: "a = (p, d)" by (cases a)
  have inv: "xbar_inv c src n x" using assms(1) by (simp add: keeps_def)
  have d: "d < n" using xbar_inv_front [OF inv assms(2)] Cons a by simp
  show ?thesis
    using Cons a assms keeps_move [OF assms] by (auto simp: rr_visit_def Has_Buffer_Out_eq [OF inv d])
qed (use assms in \<open>simp add: rr_visit_def\<close>)

lemma RR_Advance_keeps:
  assumes "xbar_inv c src n x"
  shows "\<exists>x'. RR_Advance c x = Some x' \<and> keeps c src n x x'"
proof -
  have n: "total_nodes x = n" "0 < n" using assms by (auto simp: xbar_inv_def)
  have "\<exists>st. fold_opt (rr_visit c) (map (\<lambda>i. (i + next_node_id x) mod n) [0..<n]) (x, replicate n False) = Some st
      \<and> keeps c src n x (fst st)"
  proof (rule fold_opt_rule, goal_cases)
    case (1 j st)
    then show ?case using n rr_visit_keeps [of c src n x "fst st" j "snd st"] by auto
  next
    case 2
    then show ?case using xbar_keeps_refl [OF assms] by simp
  qed
  then obtain x' iss where
      "fold_opt (rr_visit c) (map (\<lambda>i. (i + next_node_id x) mod n) [0..<n]) (x, replicate n False) = Some (x', iss)"
      and k: "keeps c src n x x'" by auto
  then show ?thesis using n keeps_pointers(1) [OF k] by (simp add: RR_Advance_def)
qed

lemma find_wants:
  assumes "find (wants x i) js = Some j"
  obtains p rest where "j \<in> set js" and "in_buffers x ! j = (p, i) # rest"
proof -
  from assms have "j \<in> set js" and "wants x i j" by (auto simp: find_Some_iff)
  with that show thesis by (auto simp: wants_def split: list.splits)
qed

lemma islip_output_keeps:
  assumes k: "keeps c src n x0 x" and i: "i < n"
  shows "\<exists>x'. islip_output c i x = Some x' \<and> keeps c src n x0 x'"
proof -
  have inv: "xbar_inv c src n x" and n: "total_nodes x = n" "0 < n"
    using k by (auto simp: keeps_def xbar_inv_def)
  let ?js = "map (\<lambda>j. (j + next_node x ! i) mod total_nodes x) [0..<total_nodes x]"
  show ?thesis
  proof (cases "find (wants x i) ?js")
    case (Some j)
    then obtain p rest where "j \<in> set ?js" and "in_buffers x ! j = (p, i) # rest" by (rule find_wants)
    with n have "j < n" "in_buffers x ! j = (p, i) # rest" by auto
    from keeps_move [OF k this] show ?thesis
      using Some k by (auto simp: islip_output_def Has_Buffer_Out_eq [OF inv i] Let_def intro: keeps_pointers)
  qed (use k in \<open>auto simp: islip_output_def Has_Buffer_Out_eq [OF inv i]\<close>)
qed

lemma iSLIP_Advance_keeps:
  assumes "xbar_inv c src n x"
  shows "\<exists>x'. iSLIP_Advance c x = Some x' \<and> keeps c src n x x'"
proof -
  have n: "total_nodes x = n" using assms by (auto simp: xbar_inv_def)
  have "\<exists>x'. fold_opt (islip_output c) [0..<n] x = Some x' \<and> keeps c src n x x'"
    by (rule fold_opt_rule [OF islip_output_keeps xbar_keeps_refl [OF assms]]) auto
  then obtain x' where "fold_opt (islip_output c) [0..<n] x = Some x'" and k: "keeps c src n x x'" by blast
  then show ?thesis using n keeps_pointers [OF k] k by (simp add: iSLIP_Advance_def Let_def)
qed

lemma xbar_advance_keeps:
  "xbar_inv c src n x \<Longrightarrow> \<exists>x'. xbar_advance c x = Some x' \<and> keeps c src n x x'"
  by (cases "arbiter_algo c") (simp_all add: xbar_advance_def RR_Advance_keeps iSLIP_Advance_keeps)

lemma xbar_push_spec:
  assumes "xbar_inv c src n x" and "i < n" and "d < n" and "src p = i"
    and "length (in_buffers x ! i) < in_buffer_limit c"
  shows "\<exists>x'. xbar_push x i d p = Some x' \<and> xbar_inv c src n x' \<and>
    (\<forall>s < n. \<forall>e < n. flow src x' s e = flow src x s e @ (if s = i \<and> e = d then [p] else []))"
  using assms
  by (auto simp: xbar_push_def xbar_inv_def total_nodes_def flow_def in_flow_def out_flow_def nth_list_update)

lemma xbar_pop_spec:
  assumes "xbar_inv c src n x" and "d < n"
  shows "\<exists>r x'. xbar_pop x d = Some (r, x') \<and> xbar_inv c src n x' \<and>
    (\<forall>p. r = Some p \<longrightarrow> src p < n) \<and> (\<forall>s < n. \<forall>e < n. flow src x s e =
      (case r of None \<Rightarrow> [] | Some p \<Rightarrow> if src p = s \<and> e = d then [p] else []) @ flow src x' s e)"
proof (cases "out_buffers x ! d")
  case Nil
  with assms show ?thesis by (auto simp: xbar_pop_def xbar_inv_def)
next
  case (Cons a rest)
  moreover from Cons have "length rest \<le> length (out_buffers x ! d)" by simp
  ultimately show ?thesis using assms
    by (cases a) (auto simp: xbar_pop_def xbar_inv_def total_nodes_def flow_def in_flow_def out_flow_def nth_list_update)
qed

section \<open>Round robin is fair\<close>

text \<open>What one visit, and then a round of visits, does to input \<open>i\<close> and to output \<open>d\<close>.\<close>

definition left_for :: "nat \<Rightarrow> nat \<Rightarrow> 'a \<Rightarrow> ('a \<times> nat) list \<Rightarrow> 'a xbar_router \<Rightarrow> bool" where
  "left_for i d p rest x \<longleftrightarrow> in_buffers x ! i = rest \<and> (p, d) \<in> set (out_buffers x ! d)"

definition grows :: "nat \<Rightarrow> 'a xbar_router \<times> bool list \<Rightarrow> 'a xbar_router \<times> bool list \<Rightarrow> bool" where
  "grows d st st' \<longleftrightarrow> prefix (out_buffers (fst st) ! d) (out_buffers (fst st') ! d) \<and> length (snd st') = length (snd st) \<and>
     length (out_buffers (fst st') ! d) + of_bool (snd st ! d) \<le> length (out_buffers (fst st) ! d) + of_bool (snd st' ! d)"

lemma grows_refl: "grows d st st"
  by (simp add: grows_def)

lemma grows_trans: "grows d st st1 \<Longrightarrow> grows d st1 st2 \<Longrightarrow> grows d st st2"
  unfolding grows_def by (auto dest: prefix_order.trans)

lemma rr_visit_step:
  assumes inv: "xbar_inv c src n x" and j: "j < n" and len: "length iss = n" and d: "d < n"
  obtains x' iss' where "rr_visit c j (x, iss) = Some (x', iss')" and "xbar_inv c src n x'" and "length iss' = n"
    and "grows d (x, iss) (x', iss')" and "\<And>i. i \<noteq> j \<Longrightarrow> in_buffers x' ! i = in_buffers x ! i"
    and "\<And>p rest. in_buffers x ! j = (p, d) # rest \<Longrightarrow> left_for j d p rest x' \<or>
      (in_buffers x' ! j = in_buffers x ! j \<and> (iss ! d \<or> out_buffer_limit c \<le> length (out_buffers x ! d)))"
proof (cases "in_buffers x ! j")
  case Nil
  then show ?thesis using that [of x iss] inv len grows_refl [of d "(x, iss)"] by (simp add: rr_visit_def)
next
  case (Cons a rest)
  obtain p e where a: "a = (p, e)" by (cases a)
  note front = Cons [unfolded a]
  have e: "e < n" using xbar_inv_front [OF inv j front] by simp
  have lens: "length (in_buffers x) = n" "length (out_buffers x) = n"
    using inv by (auto simp: xbar_inv_def total_nodes_def)
  show ?thesis
  proof (cases "length (out_buffers x ! e) < out_buffer_limit c \<and> \<not> iss ! e")
    case True
    with front have "rr_visit c j (x, iss) = Some (move_packet j e x, iss[e := True])"
      by (simp add: rr_visit_def Has_Buffer_Out_eq [OF inv e])
    then show ?thesis
      using that move_packet_inv [OF inv j front] True front lens len e d j
      by (cases "e = d") (auto simp: grows_def left_for_def move_packet_def nth_list_update)
  next
    case False
    with front have "rr_visit c j (x, iss) = Some (x, iss)"
      by (auto simp: rr_visit_def Has_Buffer_Out_eq [OF inv e])
    then show ?thesis using that [of x iss] inv False front len grows_refl [of d "(x, iss)"]
      by (cases "e = d") auto
  qed
qed

lemma rr_round:
  assumes "xbar_inv c src n x" and "length iss = n" and "d < n" and "set js \<subseteq> {..<n}"
  shows "\<exists>x' iss'. fold_opt (rr_visit c) js (x, iss) = Some (x', iss') \<and> xbar_inv c src n x' \<and> length iss' = n \<and>
    grows d (x, iss) (x', iss') \<and> (\<forall>i. i \<notin> set js \<longrightarrow> in_buffers x' ! i = in_buffers x ! i)"
  using assms
proof (induction js arbitrary: x iss)
  case Nil
  then show ?case by (simp add: grows_refl)
next
  case (Cons j js)
  then have j: "j < n" by simp
  obtain x1 iss1 where 1: "rr_visit c j (x, iss) = Some (x1, iss1)" "xbar_inv c src n x1" "length iss1 = n"
      "grows d (x, iss) (x1, iss1)" "\<And>i. i \<noteq> j \<Longrightarrow> in_buffers x1 ! i = in_buffers x ! i"
    using rr_visit_step [OF Cons.prems(1) j Cons.prems(2,3)] by metis
  from Cons.IH [OF 1(2,3) Cons.prems(3)] Cons.prems(4) obtain x2 iss2 where
      2: "fold_opt (rr_visit c) js (x1, iss1) = Some (x2, iss2)" "xbar_inv c src n x2" "length iss2 = n"
      "grows d (x1, iss1) (x2, iss2)" "\<And>i. i \<notin> set js \<Longrightarrow> in_buffers x2 ! i = in_buffers x1 ! i"
    by auto
  from grows_trans [OF 1(4) 2(4)] show ?case using 1 2 by simp
qed

lemma rotate_distinct: "distinct (map (\<lambda>i. (i + a) mod n) [0..<n])" for a n :: nat
proof -
  have "i = j" if "(i + a) mod n = (j + a) mod n" "i \<le> j" "j < n" for i j
    using that mod_eq_dvd_iff_nat [of "i + a" "j + a" n] by (auto dest: dvd_imp_le)
  then have "inj_on (\<lambda>i. (i + a) mod n) {0..<n}"
    by (intro inj_onI) (metis atLeastLessThan_iff nat_le_linear)
  then show ?thesis by (simp add: distinct_map)
qed

lemma rotate_set: "0 < n \<Longrightarrow> set (map (\<lambda>i. (i + a) mod n) [0..<n]) = {..<n}" for a n :: nat
  using distinct_card [OF rotate_distinct [of a n]]
  by (intro card_subset_eq) auto

text \<open>
  One cycle: the front packet of input \<open>i\<close> leaves or stays; it leaves when the input is the first
  of the round and the output has room.
\<close>

lemma RR_Advance_front:
  assumes inv: "xbar_inv c src n x" and i: "i < n" and front: "in_buffers x ! i = (p, d) # rest"
  obtains x' where "RR_Advance c x = Some x'" and "xbar_inv c src n x'"
    and "next_node_id x' = (next_node_id x + 1) mod n"
    and "length (out_buffers x' ! d) \<le> Suc (length (out_buffers x ! d))"
    and "left_for i d p rest x' \<or> in_buffers x' ! i = (p, d) # rest"
    and "next_node_id x mod n = i \<Longrightarrow> length (out_buffers x ! d) < out_buffer_limit c \<Longrightarrow> left_for i d p rest x'"
proof -
  have n: "total_nodes x = n" "0 < n" using inv by (auto simp: xbar_inv_def)
  have d: "d < n" using xbar_inv_front [OF inv i front] by simp
  let ?js = "map (\<lambda>k. (k + next_node_id x) mod n) [0..<n]" and ?iss = "replicate n False"
  have set: "set ?js = {..<n}" using rotate_set [OF n(2)] .
  have "i \<in> set ?js" using i unfolding set by simp
  then obtain as bs where js: "?js = as @ i # bs" by (meson split_list)
  have "distinct (as @ i # bs)" unfolding js [symmetric] by (rule rotate_distinct)
  then have "i \<notin> set as" "i \<notin> set bs" by simp_all
  have lt: "set as \<subseteq> {..<n}" "set bs \<subseteq> {..<n}" using set unfolding js by auto
  obtain x1 iss1 where 1: "fold_opt (rr_visit c) as (x, ?iss) = Some (x1, iss1)" "xbar_inv c src n x1" "length iss1 = n"
      "grows d (x, ?iss) (x1, iss1)" "in_buffers x1 ! i = in_buffers x ! i"
    using rr_round [OF inv _ d lt(1), of ?iss] \<open>i \<notin> set as\<close> by auto
  obtain x2 iss2 where 2: "rr_visit c i (x1, iss1) = Some (x2, iss2)" "xbar_inv c src n x2" "length iss2 = n"
      "grows d (x1, iss1) (x2, iss2)" "left_for i d p rest x2 \<or> (in_buffers x2 ! i = in_buffers x1 ! i \<and>
        (iss1 ! d \<or> out_buffer_limit c \<le> length (out_buffers x1 ! d)))"
    using rr_visit_step [OF 1(2) i 1(3) d] 1(5) front by metis
  obtain x3 iss3 where 3: "fold_opt (rr_visit c) bs (x2, iss2) = Some (x3, iss3)" "xbar_inv c src n x3"
      "grows d (x2, iss2) (x3, iss3)" "in_buffers x3 ! i = in_buffers x2 ! i"
    using rr_round [OF 2(2,3) d lt(2)] \<open>i \<notin> set bs\<close> by auto
  have run: "RR_Advance c x = Some (x3\<lparr>next_node_id := (next_node_id x + 1) mod n\<rparr>)" (is "_ = Some ?x")
    using n 1(1) 2(1) 3(1) js by (simp add: RR_Advance_def fold_opt_append)
  have pre: "prefix (out_buffers x2 ! d) (out_buffers x3 ! d)" using 3(3) by (simp add: grows_def)
  have "grows d (x, ?iss) (x3, iss3)" by (rule grows_trans [OF 1(4) grows_trans [OF 2(4) 3(3)]])
  then have len: "length (out_buffers x3 ! d) \<le> Suc (length (out_buffers x ! d))"
    using d by (auto simp: grows_def of_bool_def split: if_splits)
  have stay: "left_for i d p rest ?x \<or> in_buffers ?x ! i = (p, d) # rest"
    using 2(5) 1(5) front 3(4) pre by (auto simp: left_for_def dest: set_mono_prefix)
  have first: "left_for i d p rest ?x" if "next_node_id x mod n = i" and "length (out_buffers x ! d) < out_buffer_limit c"
  proof -
    have "?js ! 0 = i" using that(1) n by simp
    with \<open>i \<notin> set as\<close> js have "as = []" by (cases as) auto
    then have "x1 = x" "iss1 = ?iss" using 1(1) by simp_all
    then show ?thesis using 2(5) that(2) d 3(4) pre by (auto simp: left_for_def dest: set_mono_prefix)
  qed
  have "xbar_inv c src n ?x" using 3(2) by (simp add: xbar_inv_def total_nodes_def)
  with that [OF run] len stay first show thesis by auto
qed

fun advances :: "inct_config \<Rightarrow> nat \<Rightarrow> 'a xbar_router \<Rightarrow> 'a xbar_router option" where
  "advances c 0 x = Some x"
| "advances c (Suc k) x = do { x' \<leftarrow> xbar_advance c x; advances c k x' }"

text \<open>The front packet of every input leaves within as many cycles as its turn is away.\<close>

lemma front_leaves:
  assumes "arbiter_algo c = NAIVE_RR" and "xbar_inv c src n x" and "i < n" and "in_buffers x ! i = (p, d) # rest"
    and "(k + next_node_id x) mod n = i" and "length (out_buffers x ! d) + k < out_buffer_limit c"
  shows "\<exists>m \<le> Suc k. \<exists>x'. advances c m x = Some x' \<and> left_for i d p rest x'"
  using assms(2-)
proof (induction k arbitrary: x)
  case 0
  obtain x' where "RR_Advance c x = Some x'" "left_for i d p rest x'"
    using RR_Advance_front [OF 0(1-3)] 0(4,5) by (metis add_0 add_0_right)
  then have "advances c (Suc 0) x = Some x'" "left_for i d p rest x'"
    using assms(1) by (simp_all add: xbar_advance_def)
  then show ?case by blast
next
  case (Suc k)
  obtain x1 where 1: "RR_Advance c x = Some x1" "xbar_inv c src n x1" "next_node_id x1 = (next_node_id x + 1) mod n"
      "length (out_buffers x1 ! d) \<le> Suc (length (out_buffers x ! d))"
      "left_for i d p rest x1 \<or> in_buffers x1 ! i = (p, d) # rest"
    using RR_Advance_front [OF Suc.prems(1-3)] by metis
  have adv: "xbar_advance c x = Some x1" using assms(1) 1(1) by (simp add: xbar_advance_def)
  show ?case
  proof (cases "left_for i d p rest x1")
    case True
    then have "advances c (Suc 0) x = Some x1" "left_for i d p rest x1" using adv by simp_all
    then show ?thesis by (metis Suc_le_mono le0)
  next
    case False
    with 1 have "in_buffers x1 ! i = (p, d) # rest" by simp
    moreover have "(k + next_node_id x1) mod n = i"
      using Suc.prems(4) 1(3) by (simp add: mod_simps)
    moreover have "length (out_buffers x1 ! d) + k < out_buffer_limit c" using 1(4) Suc.prems(5) by simp
    ultimately obtain m x' where "m \<le> Suc k" "advances c m x1 = Some x'" "left_for i d p rest x'"
      using Suc.IH [OF 1(2) Suc.prems(2)] by blast
    then have "Suc m \<le> Suc (Suc k)" "advances c (Suc m) x = Some x'" "left_for i d p rest x'" using adv by simp_all
    then show ?thesis by blast
  qed
qed

section \<open>The interconnect\<close>

text \<open>
  Runs of an interconnect with two subnets, with the packets pushed (source, destination, data) and
  the packets popped (node, data) so far.
\<close>

datatype 'a icnt_event = Icnt_Push nat nat 'a | Icnt_Pop nat | Icnt_Advance

record 'a icnt_run =
  icnt_li :: "'a local_interconnect"
  icnt_sent :: "(nat \<times> nat \<times> 'a) list"
  icnt_got :: "(nat \<times> 'a) list"

fun icnt_step :: "inct_config \<Rightarrow> 'a icnt_run \<Rightarrow> 'a icnt_event \<Rightarrow> 'a icnt_run option" where
  "icnt_step c t (Icnt_Push s d p) = do {
     li \<leftarrow> li_push c (icnt_li t) s d p;
     Some (t\<lparr>icnt_li := li, icnt_sent := icnt_sent t @ [(s, d, p)]\<rparr>) }"
| "icnt_step c t (Icnt_Pop d) = do {
     (r, li) \<leftarrow> li_pop (icnt_li t) d;
     Some (t\<lparr>icnt_li := li, icnt_got := icnt_got t @ (case r of None \<Rightarrow> [] | Some p \<Rightarrow> [(d, p)])\<rparr>) }"
| "icnt_step c t Icnt_Advance = do { li \<leftarrow> li_advance c (icnt_li t); Some (t\<lparr>icnt_li := li\<rparr>) }"

text \<open>
  The callers' protocol: a node asks for room before it sends, requests go from the shaders to the
  memory side and replies the other way.
\<close>

fun icnt_ok :: "inct_config \<Rightarrow> ('a \<Rightarrow> nat) \<Rightarrow> 'a icnt_run \<Rightarrow> 'a icnt_event \<Rightarrow> bool" where
  "icnt_ok c src t (Icnt_Push s d p) = (src p = s \<and> s < li_n_shader (icnt_li t) + li_n_mem (icnt_li t) \<and>
     d < li_n_shader (icnt_li t) + li_n_mem (icnt_li t) \<and>
     (s < li_n_shader (icnt_li t)) \<noteq> (d < li_n_shader (icnt_li t)) \<and> li_has_buffer c (icnt_li t) s = Some True)"
| "icnt_ok c src t (Icnt_Pop d) = (d < li_n_shader (icnt_li t) + li_n_mem (icnt_li t))"
| "icnt_ok c src t Icnt_Advance = True"

definition sent_from :: "'a icnt_run \<Rightarrow> nat \<Rightarrow> nat \<Rightarrow> 'a list" where
  "sent_from t s d = map (snd \<circ> snd) (filter (\<lambda>(a, b, p). a = s \<and> b = d) (icnt_sent t))"

definition got_from :: "('a \<Rightarrow> nat) \<Rightarrow> 'a icnt_run \<Rightarrow> nat \<Rightarrow> nat \<Rightarrow> 'a list" where
  "got_from src t s d = map snd (filter (\<lambda>(b, p). src p = s \<and> b = d) (icnt_got t))"

text \<open>The router that carries the packets for node \<open>d\<close>.\<close>

definition carrier :: "'a local_interconnect \<Rightarrow> nat \<Rightarrow> 'a xbar_router" where
  "carrier li d = li_net li ! (if d < li_n_shader li then 1 else 0)"

definition icnt_inv :: "inct_config \<Rightarrow> ('a \<Rightarrow> nat) \<Rightarrow> nat \<Rightarrow> nat \<Rightarrow> 'a icnt_run \<Rightarrow> bool" where
  "icnt_inv c src n_sh n_mem t \<longleftrightarrow> li_n_shader (icnt_li t) = n_sh \<and> li_n_mem (icnt_li t) = n_mem \<and> li_n_subnets (icnt_li t) = 2 \<and>
     length (li_net (icnt_li t)) = 2 \<and> (\<forall>k < 2. xbar_inv c src (n_sh + n_mem) (li_net (icnt_li t) ! k)) \<and>
     (\<forall>(d, p) \<in> set (icnt_got t). d < n_sh + n_mem \<and> src p < n_sh + n_mem) \<and>
     (\<forall>s < n_sh + n_mem. \<forall>d < n_sh + n_mem. sent_from t s d = got_from src t s d @ flow src (carrier (icnt_li t) d) s d)"

lemma icnt_push_ok:
  assumes inv: "icnt_inv c src n_sh n_mem t" and ok: "icnt_ok c src t (Icnt_Push s d p)"
  shows "\<exists>t'. icnt_step c t (Icnt_Push s d p) = Some t' \<and> icnt_inv c src n_sh n_mem t'"
proof -
  define k :: nat where "k = (if s < n_sh then 0 else 1)"
  let ?x = "li_net (icnt_li t) ! k"
  have k: "k < 2" and kd: "(if d < n_sh then 1 else 0) = k" using inv ok by (auto simp: k_def icnt_inv_def)
  have x: "xbar_inv c src (n_sh + n_mem) ?x" using inv k by (simp add: icnt_inv_def)
  then have tot: "total_nodes ?x = n_sh + n_mem" by (simp add: xbar_inv_def)
  have room: "length (in_buffers ?x ! s) < in_buffer_limit c"
    and s: "s < n_sh + n_mem" "d < n_sh + n_mem" "src p = s"
    using inv ok tot by (auto simp: icnt_inv_def li_has_buffer_def subnet_def Has_Buffer_In_def k_def split: if_splits)
  obtain x' where x': "xbar_push ?x s d p = Some x'" "xbar_inv c src (n_sh + n_mem) x'"
      "\<And>a e. a < n_sh + n_mem \<Longrightarrow> e < n_sh + n_mem \<Longrightarrow> flow src x' a e = flow src ?x a e @ (if a = s \<and> e = d then [p] else [])"
    using xbar_push_spec [OF x s room] by auto
  show ?thesis
    using inv x' k kd s room tot
    by (auto simp: icnt_inv_def li_push_def subnet_def Has_Buffer_In_def k_def [symmetric] sent_from_def got_from_def
        carrier_def nth_list_update split: if_splits)
qed

lemma icnt_pop_ok:
  assumes inv: "icnt_inv c src n_sh n_mem t" and ok: "icnt_ok c src t (Icnt_Pop d)"
  shows "\<exists>t'. icnt_step c t (Icnt_Pop d) = Some t' \<and> icnt_inv c src n_sh n_mem t'"
proof -
  define k :: nat where "k = (if d < n_sh then 1 else 0)"
  let ?x = "li_net (icnt_li t) ! k"
  have k: "k < 2" "(if d < n_sh then 1 else 0) = k" and x: "xbar_inv c src (n_sh + n_mem) ?x" and d: "d < n_sh + n_mem"
    using inv ok by (auto simp: k_def icnt_inv_def)
  obtain r x' where x': "xbar_pop ?x d = Some (r, x')" "xbar_inv c src (n_sh + n_mem) x'"
      "\<And>q. r = Some q \<Longrightarrow> src q < n_sh + n_mem"
      "\<And>a e. a < n_sh + n_mem \<Longrightarrow> e < n_sh + n_mem \<Longrightarrow> flow src ?x a e =
        (case r of None \<Rightarrow> [] | Some p \<Rightarrow> if src p = a \<and> e = d then [p] else []) @ flow src x' a e"
    using xbar_pop_spec [OF x d] by auto
  show ?thesis
    using inv x' k d
    by (cases r; cases "d < n_sh") (auto simp: icnt_inv_def li_pop_def subnet_def k_def sent_from_def got_from_def
        carrier_def nth_list_update split: if_splits)
qed

lemma advance_all_spec:
  assumes "\<And>x. x \<in> set xs \<Longrightarrow> xbar_inv c src n x"
  shows "\<exists>ys. advance_all c xs = Some ys \<and> list_all2 (keeps c src n) xs ys"
  using assms
proof (induction xs)
  case (Cons x xs)
  obtain y where "xbar_advance c x = Some y" "keeps c src n x y" using xbar_advance_keeps Cons.prems by fastforce
  with Cons show ?case by fastforce
qed simp

lemma icnt_advance_ok:
  assumes "icnt_inv c src n_sh n_mem t"
  shows "\<exists>t'. icnt_step c t Icnt_Advance = Some t' \<and> icnt_inv c src n_sh n_mem t'"
proof -
  have "xbar_inv c src (n_sh + n_mem) x" if "x \<in> set (li_net (icnt_li t))" for x
    using assms that by (auto simp: icnt_inv_def in_set_conv_nth)
  then obtain ys where ys: "advance_all c (li_net (icnt_li t)) = Some ys" "list_all2 (keeps c src (n_sh + n_mem)) (li_net (icnt_li t)) ys"
    using advance_all_spec by blast
  then have "keeps c src (n_sh + n_mem) (li_net (icnt_li t) ! k) (ys ! k)" if "k < 2" for k
    using that assms by (simp add: list_all2_conv_all_nth icnt_inv_def)
  then show ?thesis
    using assms ys(1) list_all2_lengthD [OF ys(2)]
    by (auto simp: icnt_inv_def li_advance_def keeps_def sent_from_def got_from_def carrier_def)
qed

lemma icnt_step_ok:
  assumes "icnt_inv c src n_sh n_mem t" and "icnt_ok c src t e"
  shows "\<exists>t'. icnt_step c t e = Some t' \<and> icnt_inv c src n_sh n_mem t'"
proof (cases e)
  case (Icnt_Push s d p)
  show ?thesis unfolding Icnt_Push by (rule icnt_push_ok [OF assms [unfolded Icnt_Push]])
next
  case (Icnt_Pop d)
  show ?thesis unfolding Icnt_Pop by (rule icnt_pop_ok [OF assms [unfolded Icnt_Pop]])
next
  case Icnt_Advance
  show ?thesis unfolding Icnt_Advance by (rule icnt_advance_ok [OF assms(1)])
qed

interpretation icnt: live_system "icnt_step c" "icnt_inv c src n_sh n_mem" "icnt_ok c src"
  by unfold_locales (use icnt_step_ok in fastforce)+

definition icnt_start :: "inct_config \<Rightarrow> nat \<Rightarrow> nat \<Rightarrow> 'a icnt_run" where
  "icnt_start c n_shader n_mem = \<lparr>icnt_li = CreateInterconnect c n_shader n_mem, icnt_sent = [], icnt_got = []\<rparr>"

lemma icnt_start_inv:
  "subnets c = 2 \<Longrightarrow> 0 < n_shader + n_mem \<Longrightarrow> icnt_inv c src n_shader n_mem (icnt_start c n_shader n_mem)"
  by (auto simp: icnt_inv_def icnt_start_def CreateInterconnect_def xbar_inv_def total_nodes_def less_2_cases_iff sent_from_def
      got_from_def flow_def in_flow_def out_flow_def carrier_def xbar_new_def Let_def)

text \<open>The history is the one of the events.\<close>

fun pushes :: "'a icnt_event list \<Rightarrow> (nat \<times> nat \<times> 'a) list" where
  "pushes [] = []"
| "pushes (Icnt_Push s d p # es) = (s, d, p) # pushes es"
| "pushes (_ # es) = pushes es"

lemma icnt_sent_pushes: "run (icnt_step c) t es = Some t' \<Longrightarrow> icnt_sent t' = icnt_sent t @ pushes es"
proof (induction es arbitrary: t)
  case (Cons e es)
  then show ?case by (cases e) (auto split: option.splits Option.bind_splits)
qed simp

end
