(* ===== verification/Xbar_Properties.thy ===== *)
theory Xbar_Properties
  imports Xbar_Flow
begin

text \<open>The properties of the crossbar, with a concrete run, and what the model showed of the code.\<close>

section \<open>Properties\<close>

text \<open>
  C11: the crossbar delivers: in every run of an interconnect with two subnets in which nodes ask for
  room before they send, requests go from shaders to the memory side and replies back, no operation
  fails, and for every source and destination the packets sent are, in order, those received followed
  by those still inside; every packet received was sent by some node.
\<close>

theorem xbar_delivers:
  assumes "subnets c = 2" and "0 < n_shader + n_mem"
    and "icnt.run_ok c src (icnt_start c n_shader n_mem) es"
  shows "\<exists>t. run (icnt_step c) (icnt_start c n_shader n_mem) es = Some t \<and> icnt_sent t = pushes es \<and>
    (\<forall>s < n_shader + n_mem. \<forall>d < n_shader + n_mem.
       sent_from t s d = got_from src t s d @ flow src (carrier (icnt_li t) d) s d) \<and>
    (\<forall>(d, p) \<in> set (icnt_got t). d < n_shader + n_mem \<and> src p < n_shader + n_mem)"
proof -
  obtain t where t: "run (icnt_step c) (icnt_start c n_shader n_mem) es = Some t" "icnt_inv c src n_shader n_mem t"
    using icnt.run_live [OF icnt_start_inv [OF assms(1,2)] assms(3)] by blast
  then show ?thesis using icnt_sent_pushes [OF t(1)] by (auto simp: icnt_inv_def icnt_start_def)
qed

definition xbar_cfg :: "arbiteration_type \<Rightarrow> inct_config" where
  "xbar_cfg a = \<lparr>in_buffer_limit = 2, out_buffer_limit = 3, subnets = 2, arbiter_algo = a, grant_cycles = 1\<rparr>"

text \<open>Data \<open>10 * s + k\<close> comes from node \<open>s\<close>; nodes 0 and 1 are shaders, node 2 is a memory partition.\<close>

definition xbar_events :: "nat icnt_event list" where
  "xbar_events = [Icnt_Push 0 2 1, Icnt_Push 0 2 2, Icnt_Push 1 2 11, Icnt_Push 2 0 21, Icnt_Advance, Icnt_Pop 2, Icnt_Pop 0,
     Icnt_Advance, Icnt_Pop 2, Icnt_Advance]"

theorem xbar_delivers_witness:
  "\<exists>t. run (icnt_step (xbar_cfg NAIVE_RR)) (icnt_start (xbar_cfg NAIVE_RR) 2 1) xbar_events = Some t \<and>
    icnt_sent t = pushes xbar_events"
proof -
  have "icnt.run_ok (xbar_cfg NAIVE_RR) (\<lambda>p. p div 10) (icnt_start (xbar_cfg NAIVE_RR) 2 1) xbar_events"
    unfolding icnt.run_ok_iff by code_simp
  from xbar_delivers [OF _ _ this] show ?thesis by (auto simp: xbar_cfg_def)
qed

text \<open>
  C12: no starvation under round robin: in a router whose output \<open>d\<close> has room for as many packets as
  the router has nodes, the packet at the front of any input leaves for \<open>d\<close> within that many cycles,
  whatever the other inputs send.
\<close>

theorem rr_no_starvation:
  assumes "arbiter_algo c = NAIVE_RR" and "xbar_inv c src n x" and "i < n" and "in_buffers x ! i = (p, d) # rest"
    and "length (out_buffers x ! d) + n \<le> out_buffer_limit c"
  shows "\<exists>m \<le> n. \<exists>x'. advances c m x = Some x' \<and> left_for i d p rest x'"
proof -
  have n: "0 < n" using assms(3) by simp
  have "i \<in> set (map (\<lambda>k. (k + next_node_id x) mod n) [0..<n])" using assms(3) unfolding rotate_set [OF n] by simp
  then obtain k where k: "k < n" "(k + next_node_id x) mod n = i" by auto
  from front_leaves [OF assms(1-4) k(2)] k(1) assms(5)
  obtain m x' where "m \<le> Suc k" "advances c m x = Some x'" "left_for i d p rest x'" by auto
  moreover from this k(1) have "m \<le> n" by simp
  ultimately show ?thesis by blast
qed

definition busy_router :: "nat xbar_router" where
  "busy_router = \<lparr>in_buffers = [[(1, 2), (2, 2)], [(11, 2)], []], out_buffers = [[], [], []], next_node = [0, 0, 0],
     next_node_id = 2, grant_cycles_count = 1\<rparr>"

theorem rr_no_starvation_witness:
  "\<exists>m \<le> 3. \<exists>x'. advances (xbar_cfg NAIVE_RR) m busy_router = Some x' \<and> left_for 1 2 11 [] x'"
proof -
  have "xbar_inv (xbar_cfg NAIVE_RR) (\<lambda>p. p div 10) 3 busy_router" by code_simp
  from rr_no_starvation [OF _ this, of 1 11 2 "[]"] show ?thesis by (simp add: xbar_cfg_def busy_router_def)
qed

section \<open>What the model showed\<close>

text \<open>With one subnet, which \<^verbatim>\<open>Push\<close> provides for, \<^verbatim>\<open>Pop\<close> reads a second one for every shader.\<close>

lemma one_subnet_pop_fails: "subnets c = 1 \<Longrightarrow> i < n_shader \<Longrightarrow> li_pop (CreateInterconnect c n_shader n_mem) i = None"
  by (simp add: li_pop_def subnet_def CreateInterconnect_def)

text \<open>Under iSLIP one input can send two packets in one cycle, to two outputs.\<close>

lemma islip_two_packets_of_one_input:
  "map_option out_buffers (iSLIP_Advance (xbar_cfg iSLIP)
     \<lparr>in_buffers = [[(1 :: nat, 1), (2, 2)], [], []], out_buffers = [[], [], []], next_node = [0, 0, 0], next_node_id = 0,
      grant_cycles_count = 1\<rparr>) = Some [[], [(1, 1)], [(2, 2)]]"
  by code_simp

text \<open>Under round robin it sends one.\<close>

lemma rr_one_packet_of_one_input:
  "map_option out_buffers (RR_Advance (xbar_cfg NAIVE_RR)
     \<lparr>in_buffers = [[(1 :: nat, 1), (2, 2)], [], []], out_buffers = [[], [], []], next_node = [0, 0, 0], next_node_id = 0,
      grant_cycles_count = 1\<rparr>) = Some [[], [(1, 1)], []]"
  by code_simp

end
