(* ===== verification/Sub_Partition.thy ===== *)
theory Sub_Partition
  imports Data_Cache Delay_Queue
begin

text \<open>
  A memory sub-partition (l2cache.cc, l2cache.h): the L2 cache with its four queues and the fixed
  delay of the raster-operation units. The cache is the data cache of \<open>Data_Cache\<close>; the requests
  live in the heap \<open>h\<close>, which all components share and every operation takes and returns;
  \<open>now\<close> is \<^verbatim>\<open>gpu_sim_cycle + gpu_tot_sim_cycle\<close>. Statistics, trace output and the execution of an
  atomic on the functional memory (\<^verbatim>\<open>do_atomic\<close>) are left out. A failed assertion is \<open>None\<close>.
\<close>

section \<open>State\<close>

record l2_params =
  lp_config :: cache_config
  lp_texure_only :: bool
  lp_dram_latency :: u32
  lp_rop_latency :: u32
  lp_n_sub :: nat
  lp_mem :: memory_config

record sub_partition =
  sp_id :: nat
  sp_L2 :: "data_cache option"
  sp_icnt_L2 :: "nat delay_queue"
  sp_L2_dram :: "nat delay_queue"
  sp_dram_L2 :: "nat delay_queue"
  sp_L2_icnt :: "nat delay_queue"
  sp_rop :: "(nat \<times> u64) list"
  sp_request_tracker :: "nat set"
  sp_memcpy_cycle_offset :: u32

text \<open>The lengths of the queues, as \<^verbatim>\<open>sscanf\<close> read them.\<close>

record l2_queue_lengths =
  icnt_L2_len :: nat
  L2_dram_len :: nat
  dram_L2_len :: nat
  L2_icnt_len :: nat

definition sub_partition_new :: "l2_params \<Rightarrow> l2_queue_lengths \<Rightarrow> (u64 \<Rightarrow> nat option) \<Rightarrow> mf_heap \<Rightarrow> u64 \<Rightarrow> nat \<Rightarrow> nat \<Rightarrow>
    sub_partition option" where
  "sub_partition_new c ql idx h now n_mem_sub_partition sub_partition_id = do {
     guard (sub_partition_id < n_mem_sub_partition);
     l2 \<leftarrow> (if m_disabled (lp_config c) then Some None
           else map_option Some (baseline_new (lp_config c) idx IN_PARTITION_L2_MISS_QUEUE L2_WR_ALLOC_R L2_WRBK_ACC None
             (lp_mem c) h now));
     q1 \<leftarrow> dq_new 0 (icnt_L2_len ql);
     q2 \<leftarrow> dq_new 0 (L2_dram_len ql);
     q3 \<leftarrow> dq_new 0 (dram_L2_len ql);
     q4 \<leftarrow> dq_new 0 (L2_icnt_len ql);
     Some \<lparr>sp_id = sub_partition_id, sp_L2 = l2, sp_icnt_L2 = q1, sp_L2_dram = q2, sp_dram_L2 = q3, sp_L2_icnt = q4,
       sp_rop = [], sp_request_tracker = {}, sp_memcpy_cycle_offset = 0\<rparr> }"

section \<open>Requests and the shared heap\<close>

definition upd_mf :: "mf_heap \<Rightarrow> nat \<Rightarrow> (mem_fetch \<Rightarrow> mem_fetch option) \<Rightarrow> mf_heap option" where
  "upd_mf h p f = do { mf \<leftarrow> mfs h p; mf \<leftarrow> f mf; Some (put_mf h p mf) }"

definition status_mf :: "mf_heap \<Rightarrow> nat \<Rightarrow> mem_fetch_status \<Rightarrow> u64 \<Rightarrow> mf_heap option" where
  "status_mf h p status cycle = upd_mf h p (\<lambda>mf. Some (set_mf_status mf status cycle))"

text \<open>An operation of the L2 cache, on the shared heap.\<close>

definition with_L2 :: "u64 \<Rightarrow> mf_heap \<Rightarrow> sub_partition \<Rightarrow> (data_cache \<Rightarrow> ('r \<times> data_cache) option) \<Rightarrow>
    ('r \<times> mf_heap \<times> sub_partition) option" where
  "with_L2 now h sp f = do {
     dc \<leftarrow> sp_L2 sp;
     (r, dc) \<leftarrow> f (dc\<lparr>heap := h, sim_cycle := now\<rparr>);
     Some (r, heap dc, sp\<lparr>sp_L2 := Some dc\<rparr>) }"

definition push_L2_icnt :: "nat \<Rightarrow> sub_partition \<Rightarrow> sub_partition option" where
  "push_L2_icnt p sp = do { q \<leftarrow> dq_push (sp_L2_icnt sp) (Some p); Some (sp\<lparr>sp_L2_icnt := q\<rparr>) }"

definition pop_icnt_L2 :: "sub_partition \<Rightarrow> sub_partition option" where
  "pop_icnt_L2 sp = do { (_, q) \<leftarrow> dq_pop (sp_icnt_L2 sp); Some (sp\<lparr>sp_icnt_L2 := q\<rparr>) }"

text \<open>\<^verbatim>\<open>set_reply\<close>, \<^verbatim>\<open>set_status\<close> and the push to the reply queue.\<close>

definition send_reply :: "u64 \<Rightarrow> mf_heap \<Rightarrow> sub_partition \<Rightarrow> nat \<Rightarrow> (mf_heap \<times> sub_partition) option" where
  "send_reply now h sp p = do {
     h \<leftarrow> upd_mf h p set_reply;
     h \<leftarrow> status_mf h p IN_PARTITION_L2_TO_ICNT_QUEUE now;
     sp \<leftarrow> push_L2_icnt p sp;
     Some (h, sp) }"

definition forget :: "mf_heap \<Rightarrow> sub_partition \<Rightarrow> nat \<Rightarrow> mf_heap \<times> sub_partition" where
  "forget h sp p = (delete_mf h p, sp\<lparr>sp_request_tracker := sp_request_tracker sp - {p}\<rparr>)"

section \<open>A cycle\<close>

text \<open>Fill responses.\<close>

definition answer_fills :: "l2_params \<Rightarrow> u64 \<Rightarrow> mf_heap \<Rightarrow> sub_partition \<Rightarrow> (mf_heap \<times> sub_partition) option" where
  "answer_fills c now h sp = (case sp_L2 sp of
       None \<Rightarrow> Some (h, sp)
     | Some dc \<Rightarrow>
         if cache_access_ready dc \<and> \<not> dq_full (sp_L2_icnt sp) then do {
           (p, h, sp) \<leftarrow> with_L2 now h sp cache_next_access;
           mf \<leftarrow> mfs h p;
           (if get_access_type mf \<noteq> L2_WR_ALLOC_R then send_reply now h sp p
            else do {
              (h, sp) \<leftarrow> (if m_write_alloc_policy (lp_config c) = FETCH_ON_WRITE then do {
                  original \<leftarrow> mf_original_wr_mf mf;
                  send_reply now h sp original }
                else Some (h, sp));
              Some (forget h sp p) }) }
         else Some (h, sp))"

text \<open>A reply of the DRAM fills the cache, or goes on to the interconnect.\<close>

definition dram_reply :: "u64 \<Rightarrow> mf_heap \<Rightarrow> sub_partition \<Rightarrow> (mf_heap \<times> sub_partition) option" where
  "dram_reply now h sp =
    (if dq_empty (sp_dram_L2 sp) then Some (h, sp)
     else do {
       p \<leftarrow> dq_top (sp_dram_L2 sp);
       mf \<leftarrow> mfs h p;
       let waiting = (case sp_L2 sp of None \<Rightarrow> False | Some dc \<Rightarrow> waiting_for_fill dc p);
       let port = (case sp_L2 sp of None \<Rightarrow> False | Some dc \<Rightarrow> fill_port_free dc);
       (if waiting then
          (if port then do {
             h \<leftarrow> status_mf h p IN_PARTITION_L2_FILL_QUEUE now;
             (_, h, sp) \<leftarrow> with_L2 now h sp (\<lambda>dc. map_option (Pair ())
               (cache_fill dc p (ucast (now + ucast (sp_memcpy_cycle_offset sp)))));
             (_, q) \<leftarrow> dq_pop (sp_dram_L2 sp);
             Some (h, sp\<lparr>sp_dram_L2 := q\<rparr>) }
           else Some (h, sp))
        else if \<not> dq_full (sp_L2_icnt sp) then do {
          h \<leftarrow> (if is_write mf \<and> mf_type mf = WRITE_ACK then status_mf h p IN_PARTITION_L2_TO_ICNT_QUEUE now else Some h);
          sp \<leftarrow> push_L2_icnt p sp;
          (_, q) \<leftarrow> dq_pop (sp_dram_L2 sp);
          Some (h, sp\<lparr>sp_dram_L2 := q\<rparr>) }
        else Some (h, sp)) })"

text \<open>\<^verbatim>\<open>L2interface\<close>: the cache sends its misses to the queue to the DRAM.\<close>

definition L2interface_full :: "sub_partition \<Rightarrow> nat \<Rightarrow> bool \<Rightarrow> bool" where
  "L2interface_full sp sz wr = dq_full (sp_L2_dram sp)"

definition L2interface_push :: "mf_heap \<Rightarrow> sub_partition \<Rightarrow> nat \<Rightarrow> (mf_heap \<times> sub_partition) option" where
  "L2interface_push h sp p = do {
     h \<leftarrow> status_mf h p IN_PARTITION_L2_TO_DRAM_QUEUE 0;
     q \<leftarrow> dq_push (sp_L2_dram sp) (Some p);
     Some (h, sp\<lparr>sp_L2_dram := q\<rparr>) }"

definition L2_cycle :: "u64 \<Rightarrow> mf_heap \<Rightarrow> sub_partition \<Rightarrow> (mf_heap \<times> sub_partition) option" where
  "L2_cycle now h sp = (case sp_L2 sp of
       None \<Rightarrow> Some (h, sp)
     | Some _ \<Rightarrow> do {
         (pushed, h, sp) \<leftarrow> with_L2 now h sp (cache_cycle (L2interface_full sp));
         (case pushed of None \<Rightarrow> Some (h, sp) | Some p \<Rightarrow> L2interface_push h sp p) })"

text \<open>What happens to a request that the cache has looked at.\<close>

definition after_access :: "l2_params \<Rightarrow> u64 \<Rightarrow> cache_request_status \<Rightarrow> cache_event list \<Rightarrow> mf_heap \<Rightarrow> sub_partition \<Rightarrow> nat \<Rightarrow>
    (mf_heap \<times> sub_partition) option" where
  "after_access c now status events h sp p = do {
     mf \<leftarrow> mfs h p;
     let write_sent = was_write_sent events;
     let read_sent = was_read_sent events;
     let policy = m_write_alloc_policy (lp_config c);
     (if status = HIT then
        (if \<not> write_sent then do {
           guard (\<not> read_sent);
           (h, sp) \<leftarrow> (if get_access_type mf = L1_WRBK_ACC then Some (forget h sp p) else send_reply now h sp p);
           sp \<leftarrow> pop_icnt_L2 sp;
           Some (h, sp) }
         else do { sp \<leftarrow> pop_icnt_L2 sp; Some (h, sp) })
      else if status \<noteq> RESERVATION_FAIL then do {
        (h, sp) \<leftarrow> (if is_write mf \<and> (policy = FETCH_ON_WRITE \<or> policy = LAZY_FETCH_ON_READ) \<and>
             \<not> was_writeallocate_sent events
           then (if get_access_type mf = L1_WRBK_ACC then Some (forget h sp p)
                 else if m_write_policy (lp_config c) = WRITE_BACK then send_reply now h sp p
                 else Some (h, sp))
           else Some (h, sp));
        sp \<leftarrow> pop_icnt_L2 sp;
        Some (h, sp) }
      else do {
        guard (\<not> write_sent);
        guard (\<not> read_sent);
        Some (h, sp) }) }"

definition serve_request :: "l2_params \<Rightarrow> u64 \<Rightarrow> mf_heap \<Rightarrow> sub_partition \<Rightarrow> (mf_heap \<times> sub_partition) option" where
  "serve_request c now h sp =
    (if dq_full (sp_L2_dram sp) \<or> dq_empty (sp_icnt_L2 sp) then Some (h, sp)
     else do {
       p \<leftarrow> dq_top (sp_icnt_L2 sp);
       mf \<leftarrow> mfs h p;
       (if \<not> m_disabled (lp_config c) \<and> (\<not> lp_texure_only c \<or> istexture mf) then do {
          dc \<leftarrow> sp_L2 sp;
          (if \<not> dq_full (sp_L2_icnt sp) \<and> data_port_free dc then do {
             ((status, events), h, sp) \<leftarrow> with_L2 now h sp (\<lambda>dc. map_option (\<lambda>(st, ev, dc). ((st, ev), dc))
               (data_cache_access dc (get_addr mf) p (ucast (now + ucast (sp_memcpy_cycle_offset sp))) []));
             after_access c now status events h sp p }
           else Some (h, sp)) }
        else do {
          h \<leftarrow> status_mf h p IN_PARTITION_L2_TO_DRAM_QUEUE now;
          q \<leftarrow> dq_push (sp_L2_dram sp) (Some p);
          sp \<leftarrow> pop_icnt_L2 (sp\<lparr>sp_L2_dram := q\<rparr>);
          Some (h, sp) }) })"

text \<open>The raster-operation delay; \<open>cycle\<close> is an \<^verbatim>\<open>unsigned\<close>, the ready cycle an \<^verbatim>\<open>unsigned long long\<close>.\<close>

definition rop_ready :: "u64 \<Rightarrow> u32 \<Rightarrow> mf_heap \<Rightarrow> sub_partition \<Rightarrow> (mf_heap \<times> sub_partition) option" where
  "rop_ready now cycle h sp = (case sp_rop sp of
       [] \<Rightarrow> Some (h, sp)
     | (p, ready_cycle) # rest \<Rightarrow>
         if ready_cycle \<le> ucast cycle \<and> \<not> dq_full (sp_icnt_L2 sp) then do {
           q \<leftarrow> dq_push (sp_icnt_L2 sp) (Some p);
           h \<leftarrow> status_mf h p IN_PARTITION_ICNT_TO_L2_QUEUE now;
           Some (h, sp\<lparr>sp_rop := rest, sp_icnt_L2 := q\<rparr>) }
         else Some (h, sp))"

definition sp_cache_cycle :: "l2_params \<Rightarrow> u64 \<Rightarrow> u32 \<Rightarrow> mf_heap \<Rightarrow> sub_partition \<Rightarrow> (mf_heap \<times> sub_partition) option" where
  "sp_cache_cycle c now cycle h sp = do {
     (h, sp) \<leftarrow> answer_fills c now h sp;
     (h, sp) \<leftarrow> dram_reply now h sp;
     (h, sp) \<leftarrow> L2_cycle now h sp;
     (h, sp) \<leftarrow> serve_request c now h sp;
     rop_ready now cycle h sp }"

section \<open>Requests from the interconnect\<close>

abbreviation (input) MAX_MEMORY_ACCESS_SIZE :: nat where "MAX_MEMORY_ACCESS_SIZE \<equiv> 128"

definition sector_bytes :: "nat \<Rightarrow> byte_mask" where
  "sector_bytes i = push_bit (i * SECTOR_SIZE) (mask SECTOR_SIZE)"

text \<open>
  The loops that make the sector requests. The byte mask is declared outside the loop in two of
  them, where it keeps the bytes of the earlier sectors (\<open>keep\<close>), and inside in the third.
\<close>

fun sector_requests :: "memory_config \<Rightarrow> u64 \<Rightarrow> nat \<Rightarrow> mem_fetch \<Rightarrow> bool \<Rightarrow> (nat \<Rightarrow> u64) \<Rightarrow> nat list \<Rightarrow> byte_mask \<Rightarrow> mf_heap \<Rightarrow>
    (nat list \<times> mf_heap) option" where
  "sector_requests mc now p mf keep addr [] m h = Some ([], h)"
| "sector_requests mc now p mf keep addr (i # is) m h = do {
     let m = (if keep then m else 0) OR sector_bytes i;
     (n_mf, h) \<leftarrow> mf_alloc None mc h (addr i) (get_access_type mf) (get_access_warp_mask mf) (get_access_byte_mask mf AND m)
       (push_bit i 1) SECTOR_SIZE (is_write mf) now (mf_wid mf) (mf_sid mf) (mf_tpc mf) (Some p) (mf_streamID mf);
     (ps, h) \<leftarrow> sector_requests mc now p mf keep addr is m h;
     Some (n_mf # ps, h) }"

definition breakdown_request_to_sector_requests :: "memory_config \<Rightarrow> u64 \<Rightarrow> mf_heap \<Rightarrow> nat \<Rightarrow> (nat list \<times> mf_heap) option" where
  "breakdown_request_to_sector_requests mc now h p = do {
     mf \<leftarrow> mfs h p;
     let sector_mask = get_access_sector_mask mf;
     let at_sector = (\<lambda>i. get_addr mf + of_nat (SECTOR_SIZE * i));
     (result, h) \<leftarrow>
       (if mf_data_size mf = SECTOR_SIZE \<and> bcount sector_mask = 1 then Some ([p], h)
        else if mf_data_size mf = MAX_MEMORY_ACCESS_SIZE then
          sector_requests mc now p mf True at_sector [0 ..< SECTOR_CHUNCK_SIZE] 0 h
        else if mf_data_size mf = 64 \<and> (sector_mask = - 1 \<or> sector_mask = 0) then
          (let start = (if get_addr mf mod 128 = 0 then 0 else 2)
           in sector_requests mc now p mf True (\<lambda>_. get_addr mf) [start ..< start + 2] 0 h)
        else sector_requests mc now p mf False at_sector (filter (bit sector_mask) [0 ..< SECTOR_CHUNCK_SIZE]) 0 h);
     guard (result \<noteq> []);
     Some (result, h) }"

text \<open>Each piece enters the queue, a texture request at once, the others after the delay.\<close>

fun enter :: "l2_params \<Rightarrow> u64 \<Rightarrow> u64 \<Rightarrow> nat list \<Rightarrow> mf_heap \<Rightarrow> sub_partition \<Rightarrow> (mf_heap \<times> sub_partition) option" where
  "enter c now cycle [] h sp = Some (h, sp)"
| "enter c now cycle (p # ps) h sp = do {
     mf \<leftarrow> mfs h p;
     let sp = sp\<lparr>sp_request_tracker := insert p (sp_request_tracker sp)\<rparr>;
     (h, sp) \<leftarrow> (if istexture mf then do {
         q \<leftarrow> dq_push (sp_icnt_L2 sp) (Some p);
         h \<leftarrow> status_mf h p IN_PARTITION_ICNT_TO_L2_QUEUE now;
         Some (h, sp\<lparr>sp_icnt_L2 := q\<rparr>) }
       else do {
         h \<leftarrow> status_mf h p IN_PARTITION_ROP_DELAY now;
         Some (h, sp\<lparr>sp_rop := sp_rop sp @ [(p, cycle + ucast (lp_rop_latency c))]\<rparr>) });
     enter c now cycle ps h sp }"

definition sp_push :: "l2_params \<Rightarrow> u64 \<Rightarrow> u64 \<Rightarrow> nat option \<Rightarrow> mf_heap \<Rightarrow> sub_partition \<Rightarrow> (mf_heap \<times> sub_partition) option" where
  "sp_push c now cycle m_req h sp = (case m_req of
       None \<Rightarrow> Some (h, sp)
     | Some p \<Rightarrow> do {
         (reqs, h) \<leftarrow> (if m_cache_type (lp_config c) = SECTOR then breakdown_request_to_sector_requests (lp_mem c) now h p
                      else Some ([p], h));
         enter c now cycle reqs h sp })"

section \<open>Replies to the interconnect\<close>

definition is_writeback :: "mem_fetch \<Rightarrow> bool" where
  "is_writeback mf \<longleftrightarrow> get_access_type mf = L2_WRBK_ACC \<or> get_access_type mf = L1_WRBK_ACC"

definition sp_pop :: "mf_heap \<Rightarrow> sub_partition \<Rightarrow> (nat option \<times> mf_heap \<times> sub_partition) option" where
  "sp_pop h sp = do {
     (r, q) \<leftarrow> dq_pop (sp_L2_icnt sp);
     let sp = sp\<lparr>sp_L2_icnt := q\<rparr>;
     (case r of
        None \<Rightarrow> Some (None, h, sp)
      | Some p \<Rightarrow> do {
          mf \<leftarrow> mfs h p;
          let sp = sp\<lparr>sp_request_tracker := sp_request_tracker sp - {p}\<rparr>;
          Some (if is_writeback mf then (None, delete_mf h p, sp) else (Some p, h, sp)) }) }"

definition sp_top :: "mf_heap \<Rightarrow> sub_partition \<Rightarrow> (nat option \<times> mf_heap \<times> sub_partition) option" where
  "sp_top h sp = (case dq_top (sp_L2_icnt sp) of
       None \<Rightarrow> Some (None, h, sp)
     | Some p \<Rightarrow> do {
         mf \<leftarrow> mfs h p;
         (if is_writeback mf then do {
            (_, q) \<leftarrow> dq_pop (sp_L2_icnt sp);
            let (h, sp) = forget h (sp\<lparr>sp_L2_icnt := q\<rparr>) p;
            Some (None, h, sp) }
          else Some (Some p, h, sp)) })"

definition sp_set_done :: "sub_partition \<Rightarrow> nat \<Rightarrow> sub_partition" where
  "sp_set_done sp p = sp\<lparr>sp_request_tracker := sp_request_tracker sp - {p}\<rparr>"

definition sp_full :: "sub_partition \<Rightarrow> bool" where
  "sp_full sp = dq_full (sp_icnt_L2 sp)"

definition sp_full_size :: "sub_partition \<Rightarrow> u32 \<Rightarrow> bool" where
  "sp_full_size sp sz = dq_is_avilable_size (sp_icnt_L2 sp) sz"

definition sp_busy :: "sub_partition \<Rightarrow> bool" where
  "sp_busy sp \<longleftrightarrow> sp_request_tracker sp \<noteq> {}"

section \<open>Maintenance\<close>

definition flushL2 :: "u64 \<Rightarrow> mf_heap \<Rightarrow> sub_partition \<Rightarrow> (mf_heap \<times> sub_partition) option" where
  "flushL2 now h sp = (case sp_L2 sp of None \<Rightarrow> Some (h, sp)
     | Some _ \<Rightarrow> map_option snd (with_L2 now h sp (\<lambda>dc. map_option (Pair ()) (cache_flush dc))))"

definition invalidateL2 :: "u64 \<Rightarrow> mf_heap \<Rightarrow> sub_partition \<Rightarrow> (mf_heap \<times> sub_partition) option" where
  "invalidateL2 now h sp = (case sp_L2 sp of None \<Rightarrow> Some (h, sp)
     | Some _ \<Rightarrow> map_option snd (with_L2 now h sp (\<lambda>dc. map_option (Pair ()) (cache_invalidate dc))))"

definition force_l2_tag_update :: "u64 \<Rightarrow> mf_heap \<Rightarrow> sub_partition \<Rightarrow> u64 \<Rightarrow> u32 \<Rightarrow> sector_mask \<Rightarrow> (mf_heap \<times> sub_partition) option" where
  "force_l2_tag_update now h sp addr time m = do {
     (_, h, sp) \<leftarrow> with_L2 now h sp (\<lambda>dc. map_option (Pair ()) (force_tag_access dc addr (sp_memcpy_cycle_offset sp + time) m));
     Some (h, sp\<lparr>sp_memcpy_cycle_offset := sp_memcpy_cycle_offset sp + 1\<rparr>) }"

end
