(* ===== verification/Mem_Partition.thy ===== *)
theory Mem_Partition
  imports Sub_Partition Dram
begin

text \<open>
  A memory partition (l2cache.cc, l2cache.h): the sub-partitions of one DRAM channel, the credits
  by which they share it, the queue of the fixed DRAM latency, and the channel itself, the model of
  \<open>Dram\<close>. \<open>decode\<close> stands for the decoded address that a request carries. A
  failed assertion and an index out of range are \<open>None\<close>.
\<close>

section \<open>Credits\<close>

record arbitration_metadata =
  m_last_borrower :: nat
  m_shared_credit_limit :: int
  m_private_credit_limit :: int
  m_private_credit :: "int list"
  m_shared_credit :: int

text \<open>The limit is an \<^verbatim>\<open>int\<close> computed from \<^verbatim>\<open>unsigned\<close> options; 0 means that there is no limit.\<close>

definition shared_credit_limit :: "dram_config \<Rightarrow> nat \<Rightarrow> int" where
  "shared_credit_limit c n = (let
       limit = of_nat (fc_sched_queue_size c) + of_nat (dc_return_queue_size c) - (of_nat n - 1) :: u32;
       limit = (if fc_seperate_write_queue c then limit + of_nat (fc_write_queue_size c) else limit)
     in sint (if fc_sched_queue_size c = 0 \<or> dc_return_queue_size c = 0 then 0 else limit))"

definition arbitration_new :: "dram_config \<Rightarrow> nat \<Rightarrow> arbitration_metadata option" where
  "arbitration_new c n = do {
     guard (0 \<le> shared_credit_limit c n);
     Some \<lparr>m_last_borrower = n - 1, m_shared_credit_limit = shared_credit_limit c n, m_private_credit_limit = 1,
       m_private_credit = replicate n 0, m_shared_credit = 0\<rparr> }"

definition has_credits :: "arbitration_metadata \<Rightarrow> nat \<Rightarrow> bool" where
  "has_credits a spid \<longleftrightarrow> m_private_credit a ! spid < m_private_credit_limit a \<or>
     m_shared_credit_limit a = 0 \<or> m_shared_credit a < m_shared_credit_limit a"

definition borrow_credit :: "arbitration_metadata \<Rightarrow> nat \<Rightarrow> arbitration_metadata option" where
  "borrow_credit a spid = do {
     guard (spid < length (m_private_credit a));
     a \<leftarrow> (if m_private_credit a ! spid < m_private_credit_limit a
           then Some (a\<lparr>m_private_credit := (m_private_credit a)[spid := m_private_credit a ! spid + 1]\<rparr>)
           else if m_shared_credit_limit a = 0 \<or> m_shared_credit a < m_shared_credit_limit a
           then Some (a\<lparr>m_shared_credit := m_shared_credit a + 1\<rparr>)
           else None);
     Some (a\<lparr>m_last_borrower := spid\<rparr>) }"

definition return_credit :: "arbitration_metadata \<Rightarrow> nat \<Rightarrow> arbitration_metadata option" where
  "return_credit a spid = do {
     guard (spid < length (m_private_credit a));
     let a = (if 0 < m_private_credit a ! spid
              then a\<lparr>m_private_credit := (m_private_credit a)[spid := m_private_credit a ! spid - 1]\<rparr>
              else a\<lparr>m_shared_credit := m_shared_credit a - 1\<rparr>);
     guard (0 \<le> m_shared_credit a);
     Some a }"

section \<open>State\<close>

record memory_partition =
  mp_id :: nat
  mp_subs :: "sub_partition list"
  mp_dram :: dram
  mp_arb :: arbitration_metadata
  mp_latency :: "(nat \<times> u64) list"

definition memory_partition_new :: "l2_params \<Rightarrow> dram_config \<Rightarrow> l2_queue_lengths \<Rightarrow> (u64 \<Rightarrow> nat option) \<Rightarrow> mf_heap \<Rightarrow> u64 \<Rightarrow>
    nat \<Rightarrow> nat \<Rightarrow> memory_partition option" where
  "memory_partition_new c dc ql idx h now n_mem_sub_partition partition_id = do {
     arb \<leftarrow> arbitration_new dc (lp_n_sub c);
     d \<leftarrow> dram_new dc;
     subs \<leftarrow> those (map (\<lambda>p. sub_partition_new c ql idx h now n_mem_sub_partition (partition_id * lp_n_sub c + p)) [0 ..< lp_n_sub c]);
     Some \<lparr>mp_id = partition_id, mp_subs = subs, mp_dram = d, mp_arb = arb, mp_latency = []\<rparr> }"

text \<open>The local number of a sub-partition, with the assertion that its users make on it.\<close>

definition local_spid :: "l2_params \<Rightarrow> memory_partition \<Rightarrow> nat \<Rightarrow> nat option" where
  "local_spid c mp global_spid = do {
     guard (mp_id mp * lp_n_sub c \<le> global_spid);
     let spid = global_spid - mp_id mp * lp_n_sub c;
     guard (spid < length (mp_subs mp));
     guard (sp_id (mp_subs mp ! spid) = global_spid);
     Some spid }"

definition upd_sub :: "nat \<Rightarrow> (sub_partition \<Rightarrow> sub_partition) \<Rightarrow> memory_partition \<Rightarrow> memory_partition" where
  "upd_sub spid f mp = mp\<lparr>mp_subs := (mp_subs mp)[spid := f (mp_subs mp ! spid)]\<rparr>"

section \<open>Between the sub-partitions and the DRAM\<close>

definition can_issue_to_dram :: "memory_partition \<Rightarrow> nat \<Rightarrow> bool" where
  "can_issue_to_dram mp spid \<longleftrightarrow> has_credits (mp_arb mp) spid \<and> \<not> dq_full (sp_dram_L2 (mp_subs mp ! spid))"

text \<open>\<open>set_done\<close> gets the request together with its contents, which the DRAM is about to delete.\<close>

definition mp_set_done :: "l2_params \<Rightarrow> memory_partition \<Rightarrow> nat \<Rightarrow> mem_fetch \<Rightarrow> memory_partition option" where
  "mp_set_done c mp p mf = do {
     spid \<leftarrow> local_spid c mp (mf_sub_partition mf);
     a \<leftarrow> (if is_writeback mf then return_credit (mp_arb mp) spid else Some (mp_arb mp));
     Some (upd_sub spid (\<lambda>sp. sp_set_done sp p) (mp\<lparr>mp_arb := a\<rparr>)) }"

text \<open>A finished request goes back to its sub-partition and returns its credit.\<close>

definition to_sub :: "u64 \<Rightarrow> mf_heap \<Rightarrow> memory_partition \<Rightarrow> nat \<Rightarrow> nat \<Rightarrow> (mf_heap \<times> memory_partition) option" where
  "to_sub now h mp spid p = do {
     q \<leftarrow> dq_push (sp_dram_L2 (mp_subs mp ! spid)) (Some p);
     h \<leftarrow> status_mf h p IN_PARTITION_DRAM_TO_L2_QUEUE now;
     a \<leftarrow> return_credit (mp_arb mp) spid;
     Some (h, upd_sub spid (\<lambda>sp. sp\<lparr>sp_dram_L2 := q\<rparr>) (mp\<lparr>mp_arb := a\<rparr>)) }"

definition pop_return :: "memory_partition \<Rightarrow> memory_partition option" where
  "pop_return mp = do { (_, d) \<leftarrow> return_queue_pop (mp_dram mp); Some (mp\<lparr>mp_dram := d\<rparr>) }"

definition return_from_dram :: "l2_params \<Rightarrow> u64 \<Rightarrow> mf_heap \<Rightarrow> memory_partition \<Rightarrow> (mf_heap \<times> memory_partition) option" where
  "return_from_dram c now h mp = (case return_queue_top (mp_dram mp) of
       None \<Rightarrow> do { mp \<leftarrow> pop_return mp; Some (h, mp) }
     | Some p \<Rightarrow> do {
         mf \<leftarrow> mfs h p;
         spid \<leftarrow> local_spid c mp (mf_sub_partition mf);
         (if \<not> dq_full (sp_dram_L2 (mp_subs mp ! spid)) then do {
            (h, mp) \<leftarrow> (if get_access_type mf = L1_WRBK_ACC
                       then Some (delete_mf h p, upd_sub spid (\<lambda>sp. sp_set_done sp p) mp)
                       else to_sub now h mp spid p);
            mp \<leftarrow> pop_return mp;
            Some (h, mp) }
          else Some (h, mp)) })"

text \<open>The requests of the sub-partitions, in turn from the one after the last borrower.\<close>

definition issue_order :: "l2_params \<Rightarrow> memory_partition \<Rightarrow> nat list" where
  "issue_order c mp = map (\<lambda>p. (p + m_last_borrower (mp_arb mp) + 1) mod lp_n_sub c) [0 ..< lp_n_sub c]"

definition issue_to_dram :: "l2_params \<Rightarrow> dram_config \<Rightarrow> u64 \<Rightarrow> mf_heap \<Rightarrow> memory_partition \<Rightarrow>
    (mf_heap \<times> memory_partition) option" where
  "issue_to_dram c dc now h mp =
    (case find (\<lambda>spid. \<not> dq_empty (sp_L2_dram (mp_subs mp ! spid)) \<and> can_issue_to_dram mp spid) (issue_order c mp) of
       None \<Rightarrow> Some (h, mp)
     | Some spid \<Rightarrow> do {
         p \<leftarrow> dq_top (sp_L2_dram (mp_subs mp ! spid));
         mf \<leftarrow> mfs h p;
         (if dram_full dc (mp_dram mp) (is_write mf) then Some (h, mp)
          else do {
            (_, q) \<leftarrow> dq_pop (sp_L2_dram (mp_subs mp ! spid));
            h \<leftarrow> status_mf h p IN_PARTITION_DRAM_LATENCY_QUEUE now;
            a \<leftarrow> borrow_credit (mp_arb mp) spid;
            Some (h, upd_sub spid (\<lambda>sp. sp\<lparr>sp_L2_dram := q\<rparr>)
              (mp\<lparr>mp_arb := a, mp_latency := mp_latency mp @ [(p, now + ucast (lp_dram_latency c))]\<rparr>)) }) })"

text \<open>A request that has waited for the fixed latency enters the DRAM.\<close>

definition leave_latency :: "dram_config \<Rightarrow> (mem_fetch \<Rightarrow> addrdec_t) \<Rightarrow> u64 \<Rightarrow> mf_heap \<Rightarrow> memory_partition \<Rightarrow>
    memory_partition option" where
  "leave_latency dc decode now h mp = (case mp_latency mp of
       [] \<Rightarrow> Some mp
     | (p, ready_cycle) # rest \<Rightarrow>
         if ready_cycle \<le> now then do {
           mf \<leftarrow> mfs h p;
           (if \<not> dram_full dc (mp_dram mp) (is_write mf) then do {
              d \<leftarrow> dram_push dc (of_nat (mp_id mp)) (decode mf) (mfs h) (mp_dram mp) p;
              Some (mp\<lparr>mp_latency := rest, mp_dram := d\<rparr>) }
            else Some mp) }
         else Some mp)"

definition channel_cycle :: "l2_params \<Rightarrow> dram_config \<Rightarrow> mf_heap \<Rightarrow> memory_partition \<Rightarrow> (mf_heap \<times> memory_partition) option" where
  "channel_cycle c dc h mp = do {
     (_, finished, heap, d) \<leftarrow> dram_cycle dc (mfs h) (mp_dram mp);
     let mp = mp\<lparr>mp_dram := d\<rparr>;
     mp \<leftarrow> (case finished of None \<Rightarrow> Some mp | Some (p, mf) \<Rightarrow> mp_set_done c mp p mf);
     Some (h\<lparr>mfs := heap\<rparr>, mp) }"

definition mp_dram_cycle :: "l2_params \<Rightarrow> dram_config \<Rightarrow> (mem_fetch \<Rightarrow> addrdec_t) \<Rightarrow> u64 \<Rightarrow> mf_heap \<Rightarrow> memory_partition \<Rightarrow>
    (mf_heap \<times> memory_partition) option" where
  "mp_dram_cycle c dc decode now h mp = do {
     (h, mp) \<leftarrow> return_from_dram c now h mp;
     (h, mp) \<leftarrow> channel_cycle c dc h mp;
     (h, mp) \<leftarrow> issue_to_dram c dc now h mp;
     mp \<leftarrow> leave_latency dc decode now h mp;
     Some (h, mp) }"

text \<open>The simple model: a request returns when its fixed latency is over.\<close>

definition simple_return :: "l2_params \<Rightarrow> u64 \<Rightarrow> mf_heap \<Rightarrow> memory_partition \<Rightarrow> (mf_heap \<times> memory_partition) option" where
  "simple_return c now h mp = (case mp_latency mp of
       [] \<Rightarrow> Some (h, mp)
     | (p, ready_cycle) # rest \<Rightarrow>
         if ready_cycle \<le> now then do {
           mf \<leftarrow> mfs h p;
           (if \<not> is_writeback mf then do {
              h \<leftarrow> upd_mf h p set_reply;
              spid \<leftarrow> local_spid c mp (mf_sub_partition mf);
              (if \<not> dq_full (sp_dram_L2 (mp_subs mp ! spid)) then do {
                 (h, mp) \<leftarrow> to_sub now h mp spid p;
                 Some (h, mp\<lparr>mp_latency := rest\<rparr>) }
               else Some (h, mp)) }
            else do {
              mp \<leftarrow> mp_set_done c mp p mf;
              Some (delete_mf h p, mp\<lparr>mp_latency := rest\<rparr>) }) }
         else Some (h, mp))"

definition simple_dram_model_cycle :: "l2_params \<Rightarrow> dram_config \<Rightarrow> u64 \<Rightarrow> mf_heap \<Rightarrow> memory_partition \<Rightarrow>
    (mf_heap \<times> memory_partition) option" where
  "simple_dram_model_cycle c dc now h mp = do {
     (h, mp) \<leftarrow> simple_return c now h mp;
     issue_to_dram c dc now h mp }"

section \<open>The rest of the interface\<close>

fun cycle_subs :: "l2_params \<Rightarrow> u64 \<Rightarrow> u32 \<Rightarrow> mf_heap \<Rightarrow> sub_partition list \<Rightarrow> (mf_heap \<times> sub_partition list) option" where
  "cycle_subs c now cycle h [] = Some (h, [])"
| "cycle_subs c now cycle h (sp # sps) = do {
     (h, sp) \<leftarrow> sp_cache_cycle c now cycle h sp;
     (h, sps) \<leftarrow> cycle_subs c now cycle h sps;
     Some (h, sp # sps) }"

definition mp_cache_cycle :: "l2_params \<Rightarrow> u64 \<Rightarrow> u32 \<Rightarrow> mf_heap \<Rightarrow> memory_partition \<Rightarrow> (mf_heap \<times> memory_partition) option" where
  "mp_cache_cycle c now cycle h mp = do {
     (h, sps) \<leftarrow> cycle_subs c now cycle h (mp_subs mp);
     Some (h, mp\<lparr>mp_subs := sps\<rparr>) }"

definition mp_busy :: "memory_partition \<Rightarrow> bool" where
  "mp_busy mp \<longleftrightarrow> list_ex sp_busy (mp_subs mp)"

definition handle_memcpy_to_gpu :: "l2_params \<Rightarrow> u64 \<Rightarrow> mf_heap \<Rightarrow> memory_partition \<Rightarrow> u64 \<Rightarrow> nat \<Rightarrow> sector_mask \<Rightarrow>
    (mf_heap \<times> memory_partition) option" where
  "handle_memcpy_to_gpu c now h mp addr global_subpart_id m = do {
     guard (mp_id mp * lp_n_sub c \<le> global_subpart_id);
     let p = global_subpart_id - mp_id mp * lp_n_sub c;
     guard (p < length (mp_subs mp));
     (h, sp) \<leftarrow> force_l2_tag_update now h (mp_subs mp ! p) addr (ucast now) m;
     Some (h, upd_sub p (\<lambda>_. sp) mp) }"

end
