(* ===== verification/Partition_Credits.thy ===== *)
theory Partition_Credits
  imports Mem_Partition Dram_Flow
begin

text \<open>
  The credits of a memory partition count its requests in the DRAM: what borrowing and returning
  keep, for the multiset \<open>M\<close> of the sub-partitions that have a request there.
\<close>

definition credits_ok :: "int \<Rightarrow> nat \<Rightarrow> arbitration_metadata \<Rightarrow> nat multiset \<Rightarrow> bool" where
  "credits_ok lm n a M \<longleftrightarrow> length (m_private_credit a) = n \<and> m_private_credit_limit a = 1 \<and> m_shared_credit_limit a = lm \<and> set_mset M \<subseteq> {..<n} \<and>
     (\<forall>i < n. 0 \<le> m_private_credit a ! i \<and> m_private_credit a ! i \<le> 1 \<and> m_private_credit a ! i \<le> int (count M i)) \<and>
     sum_list (m_private_credit a) + m_shared_credit a = int (size M) \<and>
     (lm \<noteq> 0 \<longrightarrow> m_shared_credit a \<le> lm)"

lemma sum_list_update_int:
  fixes xs :: "int list"
  assumes "i < length xs"
  shows "sum_list (xs[i := x]) = sum_list xs - xs ! i + x"
  using assms
proof (induction xs arbitrary: i)
  case (Cons a xs)
  then show ?case by (cases i) auto
qed simp

lemma size_mset_sum:
  fixes n :: nat
  assumes "set_mset M \<subseteq> {..<n}"
  shows "size M = (\<Sum>i < n. count M i)"
  unfolding size_multiset_overloaded_eq
  by (rule sum.mono_neutral_left) (use assms in \<open>auto simp: count_eq_zero_iff\<close>)

lemma private_le:
  assumes "length xs = n" and "set_mset M \<subseteq> {..<n}" and "\<And>i. i < n \<Longrightarrow> xs ! i \<le> int (count M i)"
  shows "sum_list xs \<le> int (size M)"
proof -
  have "sum_list xs = (\<Sum>i < n. xs ! i)" using assms(1) by (simp add: sum_list_sum_nth atLeast0LessThan)
  also have "\<dots> \<le> (\<Sum>i < n. int (count M i))" by (rule sum_mono) (use assms(3) in simp)
  finally show ?thesis using size_mset_sum [OF assms(2)] by simp
qed

lemma credits_new:
  assumes "arbitration_new c n = Some a"
  shows "credits_ok (shared_credit_limit c n) n a {#}"
  using assms by (auto simp: arbitration_new_def credits_ok_def Let_def bind_eq_Some_conv sum_list_replicate)

lemma borrow_ok:
  assumes c: "credits_ok lm n a M" and i: "i < n" and has: "has_credits a i"
  shows "\<exists>a'. borrow_credit a i = Some a' \<and> credits_ok lm n a' (add_mset i M)"
proof -
  let ?p = "m_private_credit a"
  have l: "length ?p = n" "m_private_credit_limit a = 1" using c by (simp_all add: credits_ok_def)
  show ?thesis
  proof (cases "?p ! i < 1")
    case True
    let ?q = "?p[i := ?p ! i + 1]"
    have "sum_list ?q = sum_list ?p + 1" using sum_list_update_int [of i ?p] i l by simp
    moreover have "0 \<le> ?q ! j \<and> ?q ! j \<le> 1 \<and> ?q ! j \<le> int (count (add_mset i M) j)" if "j < n" for j
      using c that True i l by (auto simp: credits_ok_def nth_list_update)
    ultimately show ?thesis using c True i l by (auto simp: borrow_credit_def credits_ok_def)
  next
    case False
    with has l have "m_shared_credit_limit a = 0 \<or> m_shared_credit a < m_shared_credit_limit a"
      by (simp add: has_credits_def)
    then show ?thesis using c False i l by (auto simp: borrow_credit_def credits_ok_def)
  qed
qed

lemma return_ok:
  assumes c: "credits_ok lm n a (add_mset i M)"
  shows "\<exists>a'. return_credit a i = Some a' \<and> credits_ok lm n a' M"
proof -
  let ?p = "m_private_credit a"
  have l: "length ?p = n" and i: "i < n" and M: "set_mset M \<subseteq> {..<n}" using c by (simp_all add: credits_ok_def)
  have p: "0 \<le> ?p ! j" "?p ! j \<le> 1" "?p ! j \<le> int (count (add_mset i M) j)" if "j < n" for j
    using c that by (simp_all add: credits_ok_def)
  have s: "sum_list ?p + m_shared_credit a = int (size M) + 1" using c by (simp add: credits_ok_def)
  show ?thesis
  proof (cases "0 < ?p ! i")
    case True
    let ?q = "?p[i := ?p ! i - 1]"
    have sum: "sum_list ?q = sum_list ?p - 1" using sum_list_update_int [of i ?p] i l by simp
    have q: "0 \<le> ?q ! j \<and> ?q ! j \<le> 1 \<and> ?q ! j \<le> int (count M j)" if "j < n" for j
      using p [OF that] p [OF i] True i l by (auto simp: nth_list_update)
    have "sum_list ?q \<le> int (size M)" by (rule private_le [OF _ M]) (use q l in auto)
    then have "0 \<le> m_shared_credit a" using sum s by simp
    then show ?thesis using c True i l q sum by (simp add: return_credit_def credits_ok_def Let_def)
  next
    case False
    then have "?p ! j \<le> int (count M j)" if "j < n" for j
      using p [OF that] by (cases "j = i") auto
    then have q: "0 \<le> ?p ! j \<and> ?p ! j \<le> 1 \<and> ?p ! j \<le> int (count M j)" if "j < n" for j using p that by simp
    have "sum_list ?p \<le> int (size M)" by (rule private_le [OF l M]) (use q in auto)
    then have "0 \<le> m_shared_credit a - 1" using s by simp
    then show ?thesis using c False i l q by (auto simp: return_credit_def credits_ok_def Let_def)
  qed
qed

text \<open>The number of requests that the credits allow.\<close>

lemma credits_bound:
  assumes "credits_ok lm n a M" and "lm \<noteq> 0"
  shows "int (size M) \<le> int n + lm"
proof -
  have "sum_list (m_private_credit a) = (\<Sum>i < n. m_private_credit a ! i)"
    using assms(1) by (simp add: credits_ok_def sum_list_sum_nth atLeast0LessThan)
  also have "\<dots> \<le> (\<Sum>i < n. 1)" by (rule sum_mono) (use assms(1) in \<open>simp add: credits_ok_def\<close>)
  finally show ?thesis using assms by (simp add: credits_ok_def)
qed

lemma shared_credit_limit_value:
  assumes "n \<le> fc_sched_queue_size c + dc_return_queue_size c" and "0 < n" and "0 < fc_sched_queue_size c" and "0 < dc_return_queue_size c"
    and "fc_sched_queue_size c + dc_return_queue_size c + fc_write_queue_size c < 2 ^ 31"
  shows "shared_credit_limit c n = int (fc_sched_queue_size c + dc_return_queue_size c) - (int n - 1) +
    (if fc_seperate_write_queue c then int (fc_write_queue_size c) else 0)"
proof -
  have val: "sint (of_int v :: u32) = v" if "0 \<le> v" "v < 2 ^ 31" for v
  proof -
    have "sint (of_int v :: u32) = signed_take_bit 31 v" by (simp add: signed_of_int)
    then show ?thesis using that by (simp add: signed_take_bit_int_eq_self)
  qed
  let ?v = "int (fc_sched_queue_size c + dc_return_queue_size c) - (int n - 1)"
  have "of_nat (fc_sched_queue_size c) + of_nat (dc_return_queue_size c) - (of_nat n - 1) = (of_int ?v :: u32)" by simp
  moreover have "(of_int ?v :: u32) + of_nat (fc_write_queue_size c) = of_int (?v + int (fc_write_queue_size c))" by simp
  ultimately show ?thesis using assms val [of ?v] val [of "?v + int (fc_write_queue_size c)"]
    by (simp only: shared_credit_limit_def Let_def) auto
qed

end
