(* ===== verification/Partition_Flow.thy ===== *)
theory Partition_Flow
  imports Partition_Credits
begin

text \<open>
  A memory partition between its sub-partitions and its DRAM, whatever the sub-partitions do in
  between: no operation fails, the channel keeps its own invariant, and the credits count the
  requests in the DRAM and its latency queue.
\<close>

section \<open>The invariant\<close>

definition plain_mf :: "mem_fetch \<Rightarrow> mem_fetch" where
  "plain_mf mf = set_mf_status mf MEM_FETCH_INITIALIZED 0"

text \<open>The decoded address is stored in the request; setting the status or the type does not touch it.\<close>

definition decode_ok :: "(mem_fetch \<Rightarrow> addrdec_t) \<Rightarrow> bool" where
  "decode_ok decode \<longleftrightarrow> (\<forall>mf s t. decode (set_mf_status mf s t) = decode mf) \<and> (\<forall>mf y. decode (mf\<lparr>mf_type := y\<rparr>) = decode mf)"

text \<open>A request of one of the sub-partitions of partition \<open>k\<close>, and one that its DRAM can serve.\<close>

definition local_to :: "l2_params \<Rightarrow> nat \<Rightarrow> mem_fetch \<Rightarrow> nat \<Rightarrow> bool" where
  "local_to c k mf i \<longleftrightarrow> mf_sub_partition mf = k * lp_n_sub c + i \<and> i < lp_n_sub c"

definition sendable :: "dram_config \<Rightarrow> (mem_fetch \<Rightarrow> addrdec_t) \<Rightarrow> nat \<Rightarrow> mem_fetch \<Rightarrow> bool" where
  "sendable dc decode k mf \<longleftrightarrow> answerable mf \<and> 0 < mf_data_size mf \<and> tl_chip (decode mf) = of_nat k \<and>
     (case dram_bank dc (decode mf) of None \<Rightarrow> False | Some bk \<Rightarrow> unat bk < fc_nbk dc)"

definition home :: "l2_params \<Rightarrow> nat \<Rightarrow> mf_heap \<Rightarrow> nat \<Rightarrow> nat" where
  "home c k h p = (case mfs h p of None \<Rightarrow> 0 | Some mf \<Rightarrow> mf_sub_partition mf - k * lp_n_sub c)"

definition dram_load :: "memory_partition \<Rightarrow> nat multiset" where
  "dram_load mp = mset (map fst (mp_latency mp)) + pool_reqs (mp_dram mp)"

text \<open>
  The same read off the queues. While the invariant holds the two agree, and \<open>in_dram\<close> is the one the properties use: a
  request that the queues of the channel have lost is not in it.
\<close>

definition in_dram :: "memory_partition \<Rightarrow> nat multiset" where
  "in_dram mp = mset (map fst (mp_latency mp)) + in_channel (mp_dram mp)"

definition to_dram :: "sub_partition list \<Rightarrow> nat list" where
  "to_dram sps = concat (map (\<lambda>sp. dq_data (sp_L2_dram sp)) sps)"

definition subs_ok :: "l2_params \<Rightarrow> nat \<Rightarrow> sub_partition list \<Rightarrow> bool" where
  "subs_ok c k sps \<longleftrightarrow> length sps = lp_n_sub c \<and>
     (\<forall>i < lp_n_sub c. sp_id (sps ! i) = k * lp_n_sub c + i \<and> dq_plain (sp_dram_L2 (sps ! i)) \<and> dq_plain (sp_L2_dram (sps ! i)))"

text \<open>The requests that wait for the DRAM are live, of their sub-partition, and there once.\<close>

definition queued_ok :: "l2_params \<Rightarrow> dram_config \<Rightarrow> (mem_fetch \<Rightarrow> addrdec_t) \<Rightarrow> nat \<Rightarrow> mf_heap \<Rightarrow> sub_partition list \<Rightarrow>
    nat multiset \<Rightarrow> bool" where
  "queued_ok c dc decode k h sps D \<longleftrightarrow> distinct (to_dram sps) \<and> set (to_dram sps) \<inter> set_mset D = {} \<and>
     (\<forall>i < lp_n_sub c. \<forall>p \<in> set (dq_data (sp_L2_dram (sps ! i))).
        \<exists>mf. mfs h p = Some mf \<and> sendable dc decode k mf \<and> local_to c k mf i)"

definition channel_ok :: "dram_config \<Rightarrow> mf_heap \<Rightarrow> dram \<Rightarrow> bool" where
  "channel_ok dc h d \<longleftrightarrow> (\<exists>now log out. chan_inv dc \<lparr>ch_now = now, ch_log = log, ch_heap = mfs h, ch_dram = d, ch_out = out\<rparr>)"

definition part_inv :: "l2_params \<Rightarrow> dram_config \<Rightarrow> (mem_fetch \<Rightarrow> addrdec_t) \<Rightarrow> mf_heap \<times> memory_partition \<Rightarrow> bool" where
  "part_inv c dc decode st \<longleftrightarrow> (case st of (h, mp) \<Rightarrow> let k = mp_id mp in
     subs_ok c k (mp_subs mp) \<and> queued_ok c dc decode k h (mp_subs mp) (dram_load mp) \<and> channel_ok dc h (mp_dram mp) \<and>
     (\<forall>p. count (dram_load mp) p \<le> 1) \<and>
     (\<forall>p \<in># dram_load mp. \<exists>mf i. mfs h p = Some mf \<and> local_to c k mf i) \<and>
     (\<forall>p \<in> set (map fst (mp_latency mp)). \<exists>mf. mfs h p = Some mf \<and> sendable dc decode k mf) \<and>
     (\<forall>p \<in> set (dq_data (dm_returnq (mp_dram mp))). \<exists>mf. mfs h p = Some mf \<and> \<not> is_writeback mf) \<and>
     credits_ok (shared_credit_limit dc (lp_n_sub c)) (lp_n_sub c) (mp_arb mp) (image_mset (home c k h) (dram_load mp)))"

lemma part_invD:
  assumes "part_inv c dc decode (h, mp)"
  shows "subs_ok c (mp_id mp) (mp_subs mp)" and "queued_ok c dc decode (mp_id mp) h (mp_subs mp) (dram_load mp)"
    and "channel_ok dc h (mp_dram mp)" and "count (dram_load mp) p \<le> 1"
    and "p \<in># dram_load mp \<Longrightarrow> \<exists>mf i. mfs h p = Some mf \<and> local_to c (mp_id mp) mf i"
    and "p \<in> set (map fst (mp_latency mp)) \<Longrightarrow> \<exists>mf. mfs h p = Some mf \<and> sendable dc decode (mp_id mp) mf"
    and "p \<in> set (dq_data (dm_returnq (mp_dram mp))) \<Longrightarrow> \<exists>mf. mfs h p = Some mf \<and> \<not> is_writeback mf"
    and "credits_ok (shared_credit_limit dc (lp_n_sub c)) (lp_n_sub c) (mp_arb mp) (image_mset (home c (mp_id mp) h) (dram_load mp))"
  using assms unfolding part_inv_def Let_def split_conv by blast+

lemma in_dram_load: "part_inv c dc decode (h, mp) \<Longrightarrow> in_dram mp = dram_load mp"
  using part_invD(3) [of c dc decode h mp] chan_inv_channel by (fastforce simp: channel_ok_def in_dram_def dram_load_def)

lemma queued_okD:
  assumes "queued_ok c dc decode k h sps D"
  shows "distinct (to_dram sps)" and "set (to_dram sps) \<inter> set_mset D = {}"
    and "i < lp_n_sub c \<Longrightarrow> p \<in> set (dq_data (sp_L2_dram (sps ! i))) \<Longrightarrow>
      \<exists>mf. mfs h p = Some mf \<and> sendable dc decode k mf \<and> local_to c k mf i"
  using assms unfolding queued_ok_def by blast+

lemma subs_okD:
  assumes "subs_ok c k sps"
  shows "length sps = lp_n_sub c" and "i < lp_n_sub c \<Longrightarrow> sp_id (sps ! i) = k * lp_n_sub c + i"
    and "i < lp_n_sub c \<Longrightarrow> dq_plain (sp_dram_L2 (sps ! i))" and "i < lp_n_sub c \<Longrightarrow> dq_plain (sp_L2_dram (sps ! i))"
  using assms unfolding subs_ok_def by blast+

section \<open>Changes of the heap\<close>

definition agree :: "mf_heap \<Rightarrow> mf_heap \<Rightarrow> nat \<Rightarrow> bool" where
  "agree h h' p \<longleftrightarrow> map_option plain_mf (mfs h' p) = map_option plain_mf (mfs h p)"

lemma agreeD: "agree h h' p \<Longrightarrow> mfs h p = Some mf \<Longrightarrow> \<exists>mf'. mfs h' p = Some mf' \<and> plain_mf mf' = plain_mf mf"
  by (auto simp: agree_def)

lemma plain_mf_simps:
  "mf_sub_partition (plain_mf mf) = mf_sub_partition mf" "mf_data_size (plain_mf mf) = mf_data_size mf"
  "mf_access (plain_mf mf) = mf_access mf" "mf_type (plain_mf mf) = mf_type mf"
  by (simp_all add: plain_mf_def set_mf_status_def)

lemma plain_mf_same:
  assumes "plain_mf mf' = plain_mf mf"
  shows "mf_sub_partition mf' = mf_sub_partition mf" and "mf_data_size mf' = mf_data_size mf"
    and "mf_access mf' = mf_access mf" and "mf_type mf' = mf_type mf"
  using assms by (metis plain_mf_simps)+

lemma plain_mf_facts:
  assumes "plain_mf mf' = plain_mf mf"
  shows "answerable mf' = answerable mf" and "is_writeback mf' = is_writeback mf" and "is_write mf' = is_write mf"
    and "local_to c k mf' i = local_to c k mf i"
  using plain_mf_same [OF assms]
  by (simp_all add: answerable_def is_writeback_def is_write_def local_to_def set_reply_def get_access_type_def)

lemma status_mf_ok:
  assumes "mfs h p = Some mf"
  obtains h' where "status_mf h p s t = Some h'" and "\<And>q. agree h h' q"
  using assms that by (auto simp: status_mf_def upd_mf_def agree_def put_mf_def plain_mf_def set_mf_status_def)

text \<open>What the partition needs of a request.\<close>

definition serves_same :: "(mem_fetch \<Rightarrow> addrdec_t) \<Rightarrow> mf_heap \<Rightarrow> mf_heap \<Rightarrow> nat \<Rightarrow> bool" where
  "serves_same decode h h' p \<longleftrightarrow> (\<forall>mf. mfs h p = Some mf \<longrightarrow> (\<exists>mf'. mfs h' p = Some mf' \<and>
     mf_sub_partition mf' = mf_sub_partition mf \<and> is_writeback mf' = is_writeback mf \<and> (answerable mf \<longrightarrow> answerable mf') \<and>
     mf_data_size mf' = mf_data_size mf \<and> decode mf' = decode mf))"

lemma compatE:
  assumes "serves_same decode h h' p" and "mfs h p = Some mf"
  obtains mf' where "mfs h' p = Some mf'" and "is_writeback mf' = is_writeback mf" and "answerable mf \<Longrightarrow> answerable mf'"
    and "\<And>dc k. sendable dc decode k mf \<Longrightarrow> sendable dc decode k mf'" and "\<And>c k i. local_to c k mf' i = local_to c k mf i"
  using assms unfolding serves_same_def by (auto simp: sendable_def local_to_def)

lemma agree_compat:
  assumes "agree h h' p" and "decode_ok decode"
  shows "serves_same decode h h' p"
  unfolding serves_same_def
proof (intro allI impI)
  fix mf assume "mfs h p = Some mf"
  then obtain mf' where mf': "mfs h' p = Some mf'" "plain_mf mf' = plain_mf mf" using agreeD [OF assms(1)] by blast
  then have "decode mf' = decode mf" using assms(2) by (metis decode_ok_def plain_mf_def)
  with mf' plain_mf_same [OF mf'(2)] plain_mf_facts(1,2) [OF mf'(2)]
  show "\<exists>mf'. mfs h' p = Some mf' \<and> mf_sub_partition mf' = mf_sub_partition mf \<and> is_writeback mf' = is_writeback mf \<and>
      (answerable mf \<longrightarrow> answerable mf') \<and> mf_data_size mf' = mf_data_size mf \<and> decode mf' = decode mf" by auto
qed

lemma compat_home: "serves_same decode h h' p \<Longrightarrow> mfs h p \<noteq> None \<Longrightarrow> home c k h' p = home c k h p"
  unfolding serves_same_def home_def by auto

lemma channel_ok_compat:
  assumes "channel_ok dc h d" and "\<And>p. p \<in># pool_reqs d \<Longrightarrow> serves_same decode h h' p"
  shows "channel_ok dc h' d"
proof -
  from assms(1) obtain now log out where i: "chan_inv dc \<lparr>ch_now = now, ch_log = log, ch_heap = mfs h, ch_dram = d, ch_out = out\<rparr>"
    by (auto simp: channel_ok_def)
  then have ho: "heap_ok (mfs h) d" and fin: "finite (dom (dm_pool d))"
    by (auto simp: chan_inv_def flow_ok_def dest: flow_finite)
  have "heap_ok (mfs h') d"
    unfolding heap_ok_def
  proof (intro conjI allI impI)
    fix x p assume x: "data_ptrs d x = Some p"
    then have "p \<in># pool_reqs d" using fin unfolding pool_reqs_def by (force simp: data_ptrs_def)
    moreover from ho x obtain mf where "mfs h p = Some mf" "answerable mf" unfolding heap_ok_def by blast
    ultimately show "\<exists>mf. mfs h' p = Some mf \<and> answerable mf" using assms(2) compatE by metis
  qed (use ho in \<open>auto simp: heap_ok_def\<close>)
  with i show ?thesis unfolding channel_ok_def chan_inv_def by auto
qed

lemma part_inv_compat:
  assumes inv: "part_inv c dc decode (h, mp)"
    and a: "\<And>p. p \<in> set (to_dram (mp_subs mp)) \<or> p \<in># dram_load mp \<Longrightarrow> serves_same decode h h' p"
  shows "part_inv c dc decode (h', mp)"
proof -
  let ?k = "mp_id mp"
  note I = part_invD [OF inv] and Q = queued_okD [OF part_invD(2) [OF inv]]
  have q: "\<exists>mf. mfs h' p = Some mf \<and> sendable dc decode ?k mf \<and> local_to c ?k mf i"
    if "i < lp_n_sub c" "p \<in> set (dq_data (sp_L2_dram (mp_subs mp ! i)))" for i p
  proof -
    have "p \<in> set (to_dram (mp_subs mp))" using that subs_okD(1) [OF I(1)] by (auto simp: to_dram_def)
    with Q(3) [OF that] show ?thesis using a compatE by metis
  qed
  have l: "p \<in># dram_load mp" if "p \<in> set (map fst (mp_latency mp))" for p using that by (auto simp: dram_load_def)
  have r: "p \<in># dram_load mp" if "p \<in> set (dq_data (dm_returnq (mp_dram mp)))" for p
    using that by (auto simp: dram_load_def pool_reqs_def)
  have "image_mset (home c ?k h') (dram_load mp) = image_mset (home c ?k h) (dram_load mp)"
    by (rule image_mset_cong) (use a I(5) compat_home in fastforce)
  with I(8) have "credits_ok (shared_credit_limit dc (lp_n_sub c)) (lp_n_sub c) (mp_arb mp) (image_mset (home c ?k h') (dram_load mp))" by simp
  moreover have "channel_ok dc h' (mp_dram mp)"
    by (rule channel_ok_compat [OF I(3), of decode]) (use a in \<open>simp add: dram_load_def\<close>)
  moreover have "\<exists>mf i. mfs h' p = Some mf \<and> local_to c ?k mf i" if "p \<in># dram_load mp" for p
    using I(5) [OF that] that a [of p] compatE by metis
  moreover have "\<exists>mf. mfs h' p = Some mf \<and> sendable dc decode ?k mf" if "p \<in> set (map fst (mp_latency mp))" for p
    using I(6) [OF that] l [OF that] a [of p] compatE by metis
  moreover have "\<exists>mf. mfs h' p = Some mf \<and> \<not> is_writeback mf" if "p \<in> set (dq_data (dm_returnq (mp_dram mp)))" for p
    using I(7) [OF that] r [OF that] a [of p] compatE by metis
  moreover have "queued_ok c dc decode ?k h' (mp_subs mp) (dram_load mp)" using Q(1,2) q by (simp add: queued_ok_def)
  ultimately show ?thesis using I(1,4) unfolding part_inv_def Let_def split_conv by blast
qed

lemma part_inv_agree:
  assumes "part_inv c dc decode (h, mp)" and "decode_ok decode"
    and "\<And>p. p \<in> set (to_dram (mp_subs mp)) \<or> p \<in># dram_load mp \<Longrightarrow> agree h h' p"
  shows "part_inv c dc decode (h', mp)"
  using part_inv_compat [OF assms(1)] agree_compat [OF _ assms(2)] assms(3) by blast

section \<open>The channel\<close>

lemma channel_okI:
  "chan_inv dc \<lparr>ch_now = t, ch_log = l, ch_heap = mfs h, ch_dram = d, ch_out = out\<rparr> \<Longrightarrow> channel_ok dc h d"
  unfolding channel_ok_def by blast

lemma channel_pop:
  assumes ok: "channel_ok dc h d" and top: "return_queue_top d = Some p"
  obtains d' where "return_queue_pop d = Some (Some p, d')" and "channel_ok dc h d'"
    and "pool_reqs d = add_mset p (pool_reqs d')" and "dq_data (dm_returnq d) = p # dq_data (dm_returnq d')"
proof -
  from ok obtain now log out where i: "chan_inv dc \<lparr>ch_now = now, ch_log = log, ch_heap = mfs h, ch_dram = d, ch_out = out\<rparr>"
    by (auto simp: channel_ok_def)
  then have plain: "dq_plain (dm_returnq d)" by (simp add: chan_inv_def flow_ok_def flow_data_def)
  have "\<not> dq_empty (dm_returnq d)" using top by (auto simp: return_queue_top_def dq_top_def dq_empty_def)
  from plain_head [OF plain this] top obtain q where q: "dq_pop (dm_returnq d) = Some (Some p, q)"
      "dq_data (dm_returnq d) = p # dq_data q" by (metis option.inject return_queue_top_def)
  let ?d = "d\<lparr>dm_returnq := q\<rparr>"
  from pop_step [OF i] have "channel_ok dc h ?d"
    by (auto simp: dram_step_def return_queue_pop_def q(1) channel_ok_def)
  moreover have "pool_reqs d = add_mset p (pool_reqs ?d)" using q(2) by (simp add: pool_reqs_def data_ptrs_def)
  ultimately show thesis using that [of ?d] q by (simp add: return_queue_pop_def)
qed

lemma channel_empty:
  assumes ok: "channel_ok dc h d" and top: "return_queue_top d = None"
  shows "return_queue_pop d = Some (None, d)"
proof -
  have plain: "dq_plain (dm_returnq d)" using ok by (auto simp: channel_ok_def chan_inv_def flow_ok_def flow_data_def)
  have "dq_empty (dm_returnq d)" using plain_head [OF plain] top by (metis option.distinct(1) return_queue_top_def)
  then show ?thesis by (simp add: return_queue_pop_def dq_pop_def dq_empty_def)
qed

lemma channel_step:
  assumes ok: "channel_ok dc h d"
  obtains cmds finished hp d' where "dram_cycle dc (mfs h) d = Some (cmds, finished, hp, d')"
    and "channel_ok dc (h\<lparr>mfs := hp\<rparr>) d'" and "mset (left_now finished) + pool_reqs d' = pool_reqs d"
    and "replied (mfs h) d finished hp d'" and "dc_scheduler dc = DRAM_FRFCFS \<Longrightarrow> dq_data (dm_mrqq d') = []"
proof -
  from ok obtain now log out where i: "chan_inv dc \<lparr>ch_now = now, ch_log = log, ch_heap = mfs h, ch_dram = d, ch_out = out\<rparr>"
    by (auto simp: channel_ok_def)
  from dram_cycle_flow [OF i] that show thesis unfolding channel_ok_def by simp metis
qed

lemma channel_push:
  assumes ok: "channel_ok dc h d" and mf: "mfs h p = Some mf" "sendable dc decode k mf" and new: "p \<notin># pool_reqs d"
    and room: "\<not> dram_full dc d (is_write mf)" "dc_scheduler dc = DRAM_FRFCFS \<Longrightarrow> dq_data (dm_mrqq d) = []"
  obtains d' where "dram_push dc (of_nat k) (decode mf) (mfs h) d p = Some d'" and "channel_ok dc h d'"
    and "pool_reqs d' = add_mset p (pool_reqs d)" and "dm_returnq d' = dm_returnq d"
proof -
  from ok obtain now log out where i: "chan_inv dc \<lparr>ch_now = now, ch_log = log, ch_heap = mfs h, ch_dram = d, ch_out = out\<rparr>"
      (is "chan_inv dc ?st")
    by (auto simp: channel_ok_def)
  have "p \<notin># in_channel d" using new chan_inv_channel [OF i] by simp
  then have "dram_ok dc (of_nat k) ?st (DramPush (decode mf) p)"
    using mf room by (auto simp: dram_ok_def sendable_def split: option.splits)
  from push_step [OF i this] obtain d' where d': "dram_push dc (of_nat k) (decode mf) (mfs h) d p = Some d'"
      "channel_ok dc h d'" "pool_reqs d' = add_mset p (pool_reqs d)"
    by (auto simp: dram_step_def dest: channel_okI)
  then have "dm_returnq d' = dm_returnq d" by (auto simp: dram_push_def bind_eq_Some_conv)
  with d' that show thesis by blast
qed

section \<open>Steps\<close>

lemma part_invI:
  assumes "subs_ok c (mp_id mp) (mp_subs mp)" and "queued_ok c dc decode (mp_id mp) h (mp_subs mp) (dram_load mp)"
    and "channel_ok dc h (mp_dram mp)" and "\<And>p. count (dram_load mp) p \<le> 1"
    and "\<And>p. p \<in># dram_load mp \<Longrightarrow> \<exists>mf i. mfs h p = Some mf \<and> local_to c (mp_id mp) mf i"
    and "\<And>p. p \<in> set (map fst (mp_latency mp)) \<Longrightarrow> \<exists>mf. mfs h p = Some mf \<and> sendable dc decode (mp_id mp) mf"
    and "\<And>p. p \<in> set (dq_data (dm_returnq (mp_dram mp))) \<Longrightarrow> \<exists>mf. mfs h p = Some mf \<and> \<not> is_writeback mf"
    and "credits_ok (shared_credit_limit dc (lp_n_sub c)) (lp_n_sub c) (mp_arb mp) (image_mset (home c (mp_id mp) h) (dram_load mp))"
  shows "part_inv c dc decode (h, mp)"
  using assms unfolding part_inv_def Let_def split_conv by blast

lemma to_dram_same:
  assumes "\<And>i. i < length sps \<Longrightarrow> dq_data (sp_L2_dram (sps' ! i)) = dq_data (sp_L2_dram (sps ! i))" and "length sps' = length sps"
  shows "to_dram sps' = to_dram sps"
proof -
  have "map (\<lambda>sp. dq_data (sp_L2_dram sp)) sps' = map (\<lambda>sp. dq_data (sp_L2_dram sp)) sps"
    using assms by (intro nth_equalityI) auto
  then show ?thesis by (simp add: to_dram_def)
qed

text \<open>A change of one sub-partition that leaves its requests to the DRAM alone.\<close>

lemma upd_sub_frame:
  assumes s: "subs_ok c k (mp_subs mp)" and q: "queued_ok c dc decode k h (mp_subs mp) D" and i: "i < lp_n_sub c"
    and f: "sp_id (f (mp_subs mp ! i)) = sp_id (mp_subs mp ! i)" "sp_L2_dram (f (mp_subs mp ! i)) = sp_L2_dram (mp_subs mp ! i)"
      "dq_plain (sp_dram_L2 (f (mp_subs mp ! i)))" and D: "set_mset D' \<subseteq> set_mset D"
  shows "subs_ok c k (mp_subs (upd_sub i f mp))" and "queued_ok c dc decode k h (mp_subs (upd_sub i f mp)) D'"
    and "to_dram (mp_subs (upd_sub i f mp)) = to_dram (mp_subs mp)"
proof -
  let ?s = "mp_subs (upd_sub i f mp)"
  note S = subs_okD [OF s]
  have same: "sp_L2_dram (?s ! j) = sp_L2_dram (mp_subs mp ! j)" if "j < length (mp_subs mp)" for j
    using that f(2) by (cases "j = i") (auto simp: upd_sub_def)
  show t: "to_dram ?s = to_dram (mp_subs mp)"
    by (rule to_dram_same) (use same in \<open>auto simp: upd_sub_def\<close>)
  show "subs_ok c k ?s"
    using S f i by (auto simp: subs_ok_def upd_sub_def nth_list_update)
  show "queued_ok c dc decode k h ?s D'"
    using queued_okD [OF q] D S(1) same unfolding queued_ok_def t by auto
qed

lemma home_local: "mfs h p = Some mf \<Longrightarrow> local_to c k mf i \<Longrightarrow> home c k h p = i"
  by (simp add: home_def local_to_def)

lemma local_spid_ok:
  assumes "subs_ok c (mp_id mp) (mp_subs mp)" and "local_to c (mp_id mp) mf i"
  shows "local_spid c mp (mf_sub_partition mf) = Some i"
  using assms by (simp add: local_spid_def local_to_def subs_ok_def)

text \<open>A request that leaves the DRAM gives its credit back.\<close>

lemma leaving:
  assumes inv: "part_inv c dc decode (h, mp)" and D: "dram_load mp = add_mset p D"
  obtains mf i a where "mfs h p = Some mf" and "local_to c (mp_id mp) mf i" and "p \<notin># D" and "i < lp_n_sub c"
    and "return_credit (mp_arb mp) i = Some a" and "credits_ok (shared_credit_limit dc (lp_n_sub c)) (lp_n_sub c) a (image_mset (home c (mp_id mp) h) D)"
proof -
  note I = part_invD [OF inv]
  from I(5) [of p] D obtain mf i where mf: "mfs h p = Some mf" "local_to c (mp_id mp) mf i" by auto
  have "p \<notin># D" using I(4) [of p] D by (auto simp: not_in_iff)
  moreover have "credits_ok (shared_credit_limit dc (lp_n_sub c)) (lp_n_sub c) (mp_arb mp) (add_mset i (image_mset (home c (mp_id mp) h) D))"
    using I(8) D home_local [OF mf] by simp
  from return_ok [OF this] obtain a where "return_credit (mp_arb mp) i = Some a"
    "credits_ok (shared_credit_limit dc (lp_n_sub c)) (lp_n_sub c) a (image_mset (home c (mp_id mp) h) D)" by blast
  moreover have "i < lp_n_sub c" using mf(2) by (simp add: local_to_def)
  ultimately show thesis using that mf by blast
qed

lemma agree_trans: "agree h h1 p \<Longrightarrow> agree h1 h2 p \<Longrightarrow> agree h h2 p"
  by (simp add: agree_def)

lemma return_from_dram_ok:
  assumes inv: "part_inv c dc decode (h, mp)" and d: "decode_ok decode"
  shows "\<exists>h' mp'. return_from_dram c now h mp = Some (h', mp') \<and> part_inv c dc decode (h', mp') \<and> mp_id mp' = mp_id mp"
proof (cases "return_queue_top (mp_dram mp)")
  case None
  with channel_empty [OF part_invD(3) [OF inv] None] inv show ?thesis by (simp add: return_from_dram_def pop_return_def)
next
  case (Some p)
  note I = part_invD [OF inv]
  obtain d' where d': "return_queue_pop (mp_dram mp) = Some (Some p, d')" "channel_ok dc h d'"
      "pool_reqs (mp_dram mp) = add_mset p (pool_reqs d')" "dq_data (dm_returnq (mp_dram mp)) = p # dq_data (dm_returnq d')"
    by (rule channel_pop [OF I(3) Some])
  let ?D = "mset (map fst (mp_latency mp)) + pool_reqs d'"
  have D: "dram_load mp = add_mset p ?D" by (simp add: dram_load_def d'(3))
  obtain mf i a where mf: "mfs h p = Some mf" "local_to c (mp_id mp) mf i" "p \<notin># ?D" "i < lp_n_sub c"
    and a: "return_credit (mp_arb mp) i = Some a" "credits_ok (shared_credit_limit dc (lp_n_sub c)) (lp_n_sub c) a (image_mset (home c (mp_id mp) h) ?D)"
    by (rule leaving [OF inv D])
  have wb: "get_access_type mf \<noteq> L1_WRBK_ACC" using I(7) [of p] d'(4) mf(1) by (auto simp: is_writeback_def)
  have spid: "local_spid c mp (mf_sub_partition mf) = Some i" by (rule local_spid_ok [OF I(1) mf(2)])
  show ?thesis
  proof (cases "dq_full (sp_dram_L2 (mp_subs mp ! i))")
    case True
    with Some mf(1) spid inv show ?thesis by (simp add: return_from_dram_def)
  next
    case False
    obtain q where q: "dq_push (sp_dram_L2 (mp_subs mp ! i)) (Some p) = Some q" "dq_plain q"
      using plain_push_ok [OF subs_okD(3) [OF I(1) mf(4)] False] by metis
    obtain h' where h': "status_mf h p IN_PARTITION_DRAM_TO_L2_QUEUE now = Some h'" "\<And>q. agree h h' q"
      using status_mf_ok [OF mf(1)] by metis
    let ?f = "\<lambda>sp. sp\<lparr>sp_dram_L2 := q\<rparr>"
    let ?mp = "(upd_sub i ?f (mp\<lparr>mp_arb := a\<rparr>))\<lparr>mp_dram := d'\<rparr>"
    have run: "return_from_dram c now h mp = Some (h', ?mp)"
      using Some mf(1) spid False q(1) h'(1) a(1) wb d'(1)
      by (simp add: return_from_dram_def to_sub_def pop_return_def upd_sub_def)
    have in': "dram_load ?mp = ?D" and subs: "mp_subs ?mp = mp_subs (upd_sub i ?f mp)" by (simp_all add: dram_load_def upd_sub_def)
    have "set_mset ?D \<subseteq> set_mset (dram_load mp)" unfolding D by auto
    note fr = upd_sub_frame [OF I(1) I(2) mf(4) _ _ _ this, of ?f]
    have "part_inv c dc decode (h, ?mp)"
    proof (rule part_invI)
      show "subs_ok c (mp_id ?mp) (mp_subs ?mp)" unfolding subs using fr(1) q(2) by (simp add: upd_sub_def)
      show "queued_ok c dc decode (mp_id ?mp) h (mp_subs ?mp) (dram_load ?mp)"
        unfolding subs in' using fr(2) q(2) by (simp add: upd_sub_def)
      show "channel_ok dc h (mp_dram ?mp)" using d'(2) by simp
      show "credits_ok (shared_credit_limit dc (lp_n_sub c)) (lp_n_sub c) (mp_arb ?mp) (image_mset (home c (mp_id ?mp) h) (dram_load ?mp))"
        unfolding in' using a(2) by (simp add: upd_sub_def)
    next
      fix r
      show "count (dram_load ?mp) r \<le> 1" using I(4) [of r] unfolding in' D by (auto split: if_splits)
      show "\<exists>mf i. mfs h r = Some mf \<and> local_to c (mp_id ?mp) mf i" if "r \<in># dram_load ?mp"
        using I(5) [of r] that unfolding in' D by (auto simp: upd_sub_def)
      show "\<exists>mf. mfs h r = Some mf \<and> sendable dc decode (mp_id ?mp) mf" if "r \<in> set (map fst (mp_latency ?mp))"
        using I(6) [of r] that by (simp add: upd_sub_def)
      show "\<exists>mf. mfs h r = Some mf \<and> \<not> is_writeback mf" if "r \<in> set (dq_data (dm_returnq (mp_dram ?mp)))"
        using I(7) [of r] that d'(4) by simp
    qed
    from part_inv_agree [OF this d h'(2)] run show ?thesis by (auto simp: upd_sub_def)
  qed
qed

lemma queued_ok_heap:
  assumes q: "queued_ok c dc decode k h sps D" and l: "length sps = lp_n_sub c"
    and h: "\<And>p. p \<in> set (to_dram sps) \<Longrightarrow> mfs h' p = mfs h p"
  shows "queued_ok c dc decode k h' sps D"
proof -
  have "mfs h' p = mfs h p" if "i < lp_n_sub c" "p \<in> set (dq_data (sp_L2_dram (sps ! i)))" for i p
    by (rule h) (use that l in \<open>auto simp: to_dram_def\<close>)
  with queued_okD [OF q] show ?thesis by (simp add: queued_ok_def)
qed

lemma replied_reply:
  assumes "set_reply mf = Some mf'"
  shows "mf_sub_partition mf' = mf_sub_partition mf" and "is_writeback mf' = is_writeback mf" and "\<not> is_writeback mf"
  using assms by (auto simp: set_reply_def is_writeback_def get_access_type_def bind_eq_Some_conv split: if_splits)

text \<open>A request becomes a reply in the return queue.\<close>

lemma reply_keeps:
  assumes inv: "part_inv c dc decode (h, mp)" and ok: "channel_ok dc (h\<lparr>mfs := hp\<rparr>) d'"
    and ch: "pool_reqs d' = pool_reqs (mp_dram mp)"
    and R: "mfs h p = Some mf" "set_reply mf = Some mf'" "hp = (mfs h)(p \<mapsto> mf')"
      "dq_data (dm_returnq d') = dq_data (dm_returnq (mp_dram mp)) @ [p]"
  shows "part_inv c dc decode (h\<lparr>mfs := hp\<rparr>, mp\<lparr>mp_dram := d'\<rparr>)"
proof -
  note I = part_invD [OF inv]
  let ?h = "h\<lparr>mfs := hp\<rparr>" and ?mp = "mp\<lparr>mp_dram := d'\<rparr>"
  have in': "dram_load ?mp = dram_load mp" using ch by (simp add: dram_load_def)
  have "p \<in># pool_reqs d'" using R(4) by (simp add: pool_reqs_def)
  then have p: "p \<in># pool_reqs (mp_dram mp)" using ch by simp
  then have "1 \<le> count (pool_reqs (mp_dram mp)) p" by simp
  moreover have "count (mset (map fst (mp_latency mp))) p + count (pool_reqs (mp_dram mp)) p \<le> 1"
    using I(4) [of p] unfolding dram_load_def count_union .
  ultimately have "count (mset (map fst (mp_latency mp))) p = 0" by linarith
  then have pl: "p \<notin> set (map fst (mp_latency mp))" by (simp only: count_mset_0_iff not_False_eq_True)
  have pq: "p \<notin> set (to_dram (mp_subs mp))" using queued_okD(2) [OF I(2)] p by (auto simp: dram_load_def)
  have home: "home c (mp_id mp) ?h = home c (mp_id mp) h"
    using R(1,3) replied_reply(1) [OF R(2)] by (auto simp: home_def fun_eq_iff)
  have q: "queued_ok c dc decode (mp_id mp) ?h (mp_subs mp) (dram_load mp)"
    by (rule queued_ok_heap [OF I(2) subs_okD(1) [OF I(1)]]) (use pq R(3) in auto)
  show "part_inv c dc decode (?h, ?mp)"
  proof (rule part_invI, unfold in')
    show "credits_ok (shared_credit_limit dc (lp_n_sub c)) (lp_n_sub c) (mp_arb ?mp) (image_mset (home c (mp_id ?mp) ?h) (dram_load mp))" using I(8) home by simp
  next
    fix r
    show "\<exists>mf i. mfs ?h r = Some mf \<and> local_to c (mp_id ?mp) mf i" if "r \<in># dram_load mp"
      using I(5) [OF that] R(1,3) replied_reply(1) [OF R(2)] by (auto simp: local_to_def)
    show "\<exists>mf. mfs ?h r = Some mf \<and> sendable dc decode (mp_id ?mp) mf" if "r \<in> set (map fst (mp_latency ?mp))"
      using I(6) [of r] that pl R(3) by auto
    show "\<exists>mf. mfs ?h r = Some mf \<and> \<not> is_writeback mf" if "r \<in> set (dq_data (dm_returnq (mp_dram ?mp)))"
      using I(7) [of r] that R(3,4) replied_reply(2,3) [OF R(2)] by auto
  qed (use I(1,4) q ok in simp_all)
qed

text \<open>A finished write-back leaves.\<close>

lemma writeback_keeps:
  assumes inv: "part_inv c dc decode (h, mp)" and ok: "channel_ok dc (h\<lparr>mfs := hp\<rparr>) d'"
    and ch: "add_mset p (pool_reqs d') = pool_reqs (mp_dram mp)"
    and W: "mfs h p = Some mf" "is_writeback mf" "hp = (mfs h)(p := None)"
      "dq_data (dm_returnq d') = dq_data (dm_returnq (mp_dram mp))"
  shows "\<exists>mp'. mp_set_done c (mp\<lparr>mp_dram := d'\<rparr>) p mf = Some mp' \<and> part_inv c dc decode (h\<lparr>mfs := hp\<rparr>, mp') \<and>
    mp_id mp' = mp_id mp \<and> mp_dram mp' = d'"
proof -
  note I = part_invD [OF inv]
  let ?h = "h\<lparr>mfs := hp\<rparr>" and ?L = "mset (map fst (mp_latency mp))"
  let ?D = "?L + pool_reqs d'"
  have D: "dram_load mp = add_mset p ?D" by (simp add: dram_load_def flip: ch)
  obtain mf' i a where mf': "mfs h p = Some mf'" "local_to c (mp_id mp) mf' i" "p \<notin># ?D" "i < lp_n_sub c"
    and a: "return_credit (mp_arb mp) i = Some a" "credits_ok (shared_credit_limit dc (lp_n_sub c)) (lp_n_sub c) a (image_mset (home c (mp_id mp) h) ?D)"
    by (rule leaving [OF inv D])
  have mf: "mf' = mf" using mf'(1) W(1) by simp
  let ?f = "\<lambda>sp. sp_set_done sp p"
  let ?mp = "upd_sub i ?f (mp\<lparr>mp_dram := d', mp_arb := a\<rparr>)"
  have spid: "local_spid c (mp\<lparr>mp_dram := d'\<rparr>) (mf_sub_partition mf) = Some i"
    by (rule local_spid_ok) (use I(1) mf'(2) mf in simp_all)
  then have run: "mp_set_done c (mp\<lparr>mp_dram := d'\<rparr>) p mf = Some ?mp"
    using W(2) a(1) by (simp add: mp_set_done_def)
  have in': "dram_load ?mp = ?D" and subs: "mp_subs ?mp = mp_subs (upd_sub i ?f mp)" by (simp_all add: dram_load_def upd_sub_def)
  have "set_mset ?D \<subseteq> set_mset (dram_load mp)" unfolding D by auto
  note fr = upd_sub_frame [OF I(1) I(2) mf'(4) _ _ _ this, of ?f]
  have pl: "p \<notin> set (to_dram (mp_subs mp))" using queued_okD(2) [OF I(2)] D by auto
  have ag: "agree h ?h r" if "r \<noteq> p" for r using W(3) that by (simp add: agree_def)
  have home: "image_mset (home c (mp_id mp) ?h) ?D = image_mset (home c (mp_id mp) h) ?D"
    by (rule image_mset_cong) (use mf'(3) ag in \<open>auto simp: home_def agree_def W(3)\<close>)
  have q0: "queued_ok c dc decode (mp_id mp) h (mp_subs (upd_sub i ?f mp)) ?D"
    using fr(2) subs_okD(3) [OF I(1) mf'(4)] by (simp add: sp_set_done_def)
  have pq: "p \<notin> set (to_dram (mp_subs (upd_sub i ?f mp)))"
    using fr(3) pl subs_okD(3) [OF I(1) mf'(4)] by (simp add: sp_set_done_def)
  have s0: "subs_ok c (mp_id mp) (mp_subs (upd_sub i ?f mp))"
    using fr(1) subs_okD(3) [OF I(1) mf'(4)] by (simp add: sp_set_done_def)
  have q: "queued_ok c dc decode (mp_id mp) ?h (mp_subs (upd_sub i ?f mp)) ?D"
    by (rule queued_ok_heap [OF q0 subs_okD(1) [OF s0]]) (use pq W(3) in auto)
  have "part_inv c dc decode (?h, ?mp)"
  proof (rule part_invI, unfold in' subs)
    show "credits_ok (shared_credit_limit dc (lp_n_sub c)) (lp_n_sub c) (mp_arb ?mp) (image_mset (home c (mp_id ?mp) ?h) ?D)"
      using a(2) home by (simp add: upd_sub_def)
  next
    fix r
    show "count ?D r \<le> 1" using I(4) [of r] unfolding D by (auto split: if_splits)
    show "\<exists>mf i. mfs ?h r = Some mf \<and> local_to c (mp_id ?mp) mf i" if "r \<in># ?D"
      using I(5) [of r] that mf'(3) W(3) unfolding D by (auto simp: upd_sub_def)
    show "\<exists>mf. mfs ?h r = Some mf \<and> sendable dc decode (mp_id ?mp) mf" if "r \<in> set (map fst (mp_latency ?mp))"
      using I(6) [of r] that mf'(3) W(3) by (auto simp: upd_sub_def)
    show "\<exists>mf. mfs ?h r = Some mf \<and> \<not> is_writeback mf" if "r \<in> set (dq_data (dm_returnq (mp_dram ?mp)))"
      using I(7) [of r] that mf'(3) W(3,4) by (auto simp: upd_sub_def pool_reqs_def)
  qed (use s0 q ok in \<open>simp_all add: upd_sub_def\<close>)
  then show ?thesis using run by (auto simp: upd_sub_def)
qed

lemma channel_cycle_ok:
  assumes inv: "part_inv c dc decode (h, mp)"
  shows "\<exists>h' mp'. channel_cycle c dc h mp = Some (h', mp') \<and> part_inv c dc decode (h', mp') \<and> mp_id mp' = mp_id mp \<and>
    (dc_scheduler dc = DRAM_FRFCFS \<longrightarrow> dq_data (dm_mrqq (mp_dram mp')) = [])"
proof -
  note I = part_invD [OF inv]
  obtain cmds finished hp d' where cyc: "dram_cycle dc (mfs h) (mp_dram mp) = Some (cmds, finished, hp, d')"
    and ok: "channel_ok dc (h\<lparr>mfs := hp\<rparr>) d'" and m: "mset (left_now finished) + pool_reqs d' = pool_reqs (mp_dram mp)"
    and rep: "replied (mfs h) (mp_dram mp) finished hp d'" and e: "dc_scheduler dc = DRAM_FRFCFS \<Longrightarrow> dq_data (dm_mrqq d') = []"
    using channel_step [OF I(3)] by blast
  let ?L = "mset (map fst (mp_latency mp))" and ?h = "h\<lparr>mfs := hp\<rparr>"
  consider (quiet) "finished = None" "hp = mfs h" "dq_data (dm_returnq d') = dq_data (dm_returnq (mp_dram mp))"
    | (reply) p mf mf' where "finished = None" "mfs h p = Some mf" "set_reply mf = Some mf'" "hp = (mfs h)(p \<mapsto> mf')"
        "dq_data (dm_returnq d') = dq_data (dm_returnq (mp_dram mp)) @ [p]"
    | (over) p mf where "finished = Some (p, mf)" "mfs h p = Some mf" "is_writeback mf" "hp = (mfs h)(p := None)"
        "dq_data (dm_returnq d') = dq_data (dm_returnq (mp_dram mp))"
    using rep unfolding replied_def is_writeback_def by blast
  then show ?thesis
  proof cases
    case quiet
    let ?mp = "mp\<lparr>mp_dram := d'\<rparr>"
    have in': "dram_load ?mp = dram_load mp" using m quiet(1) by (simp add: dram_load_def left_now_def)
    have "part_inv c dc decode (h, ?mp)"
      by (rule part_invI, unfold in') (use I ok quiet in auto)
    then show ?thesis using cyc quiet e by (simp add: channel_cycle_def)
  next
    case reply
    have "pool_reqs d' = pool_reqs (mp_dram mp)" using m reply(1) by (simp add: left_now_def)
    from reply_keeps [OF inv ok this reply(2-5)]
    show ?thesis using cyc reply(1) e by (simp add: channel_cycle_def)
  next
    case over
    have "add_mset p (pool_reqs d') = pool_reqs (mp_dram mp)" using m over(1) by (simp add: left_now_def)
    from writeback_keeps [OF inv ok this over(2-5)]
    show ?thesis using cyc over(1) e by (auto simp: channel_cycle_def)
  qed
qed

section \<open>Into the channel\<close>

lemma to_dram_pop:
  assumes "i < length sps" and "dq_data (sp_L2_dram (sps ! i)) = p # dq_data q"
  shows "mset (to_dram sps) = add_mset p (mset (to_dram (sps[i := (sps ! i)\<lparr>sp_L2_dram := q\<rparr>])))"
  using assms
proof (induction sps arbitrary: i)
  case (Cons a sps)
  then show ?case by (cases i) (auto simp: to_dram_def)
qed simp

lemma upd_sub_issue:
  assumes s: "subs_ok c k (mp_subs mp)" and q: "queued_ok c dc decode k h (mp_subs mp) D" and i: "i < lp_n_sub c"
    and p: "dq_data (sp_L2_dram (mp_subs mp ! i)) = p # dq_data q" "dq_plain q"
  defines "sps \<equiv> mp_subs (upd_sub i (\<lambda>sp. sp\<lparr>sp_L2_dram := q\<rparr>) mp)"
  shows "subs_ok c k sps" and "queued_ok c dc decode k h sps (add_mset p D)" and "p \<notin># D"
proof -
  note S = subs_okD [OF s] and Q = queued_okD [OF q]
  have il: "i < length (mp_subs mp)" using i S(1) by simp
  show "subs_ok c k sps" using S i p(2) by (auto simp: subs_ok_def sps_def upd_sub_def nth_list_update)
  have m: "mset (to_dram (mp_subs mp)) = add_mset p (mset (to_dram sps))"
    using to_dram_pop [OF il p(1)] by (simp add: sps_def upd_sub_def)
  then have set: "set (to_dram (mp_subs mp)) = insert p (set (to_dram sps))" by (metis set_mset_add_mset_insert set_mset_mset)
  have "distinct (p # to_dram sps)" using Q(1) m by (metis mset_eq_imp_distinct_iff mset.simps(2))
  moreover have "set (to_dram sps) \<inter> set_mset D = {}" and "p \<notin># D" using Q(2) set by auto
  moreover have "\<exists>mf. mfs h r = Some mf \<and> sendable dc decode k mf \<and> local_to c k mf j"
    if "j < lp_n_sub c" "r \<in> set (dq_data (sp_L2_dram (sps ! j)))" for j r
  proof (rule Q(3) [OF that(1)])
    show "r \<in> set (dq_data (sp_L2_dram (mp_subs mp ! j)))"
      using that(2) p(1) il by (cases "j = i") (simp_all add: sps_def upd_sub_def)
  qed
  ultimately show "queued_ok c dc decode k h sps (add_mset p D)" "p \<notin># D" by (simp_all add: queued_ok_def)
qed

lemma issue_to_dram_ok:
  assumes inv: "part_inv c dc decode (h, mp)" and d: "decode_ok decode"
  shows "\<exists>h' mp'. issue_to_dram c dc now h mp = Some (h', mp') \<and> part_inv c dc decode (h', mp') \<and> mp_id mp' = mp_id mp \<and>
    mp_dram mp' = mp_dram mp"
proof -
  note I = part_invD [OF inv]
  let ?P = "\<lambda>spid. \<not> dq_empty (sp_L2_dram (mp_subs mp ! spid)) \<and> can_issue_to_dram mp spid"
  show ?thesis
  proof (cases "find ?P (issue_order c mp)")
    case None
    with inv show ?thesis by (simp add: issue_to_dram_def)
  next
    case (Some i)
    then have "i \<in> set (issue_order c mp)" and P: "?P i" by (auto simp: find_Some_iff)
    then have i: "i < lp_n_sub c" by (auto simp: issue_order_def)
    from plain_head [OF subs_okD(4) [OF I(1) i]] P obtain p q where
      p: "dq_top (sp_L2_dram (mp_subs mp ! i)) = Some p" "dq_pop (sp_L2_dram (mp_subs mp ! i)) = Some (Some p, q)"
        "dq_plain q" "dq_data (sp_L2_dram (mp_subs mp ! i)) = p # dq_data q" by metis
    from queued_okD(3) [OF I(2) i, of p] p(4) obtain mf where
      mf: "mfs h p = Some mf" "sendable dc decode (mp_id mp) mf" "local_to c (mp_id mp) mf i" by auto
    show ?thesis
    proof (cases "dram_full dc (mp_dram mp) (is_write mf)")
      case True
      with inv Some p(1) mf(1) show ?thesis by (simp add: issue_to_dram_def)
    next
      case False
      obtain h' where h': "status_mf h p IN_PARTITION_DRAM_LATENCY_QUEUE now = Some h'" "\<And>q. agree h h' q"
        using status_mf_ok [OF mf(1)] by metis
      from borrow_ok [OF I(8) i] P obtain a where a: "borrow_credit (mp_arb mp) i = Some a"
          "credits_ok (shared_credit_limit dc (lp_n_sub c)) (lp_n_sub c) a (add_mset i (image_mset (home c (mp_id mp) h) (dram_load mp)))"
        by (auto simp: can_issue_to_dram_def)
      let ?f = "\<lambda>sp. sp\<lparr>sp_L2_dram := q\<rparr>" and ?e = "(p, now + ucast (lp_dram_latency c))"
      let ?mp = "upd_sub i ?f (mp\<lparr>mp_arb := a, mp_latency := mp_latency mp @ [?e]\<rparr>)"
      note U = upd_sub_issue [OF I(1) I(2) i p(4) p(3)]
      have in': "dram_load ?mp = add_mset p (dram_load mp)" and subs: "mp_subs ?mp = mp_subs (upd_sub i ?f mp)"
        by (simp_all add: dram_load_def upd_sub_def)
      have "part_inv c dc decode (h, ?mp)"
      proof (rule part_invI, unfold in' subs)
        show "credits_ok (shared_credit_limit dc (lp_n_sub c)) (lp_n_sub c) (mp_arb ?mp) (image_mset (home c (mp_id ?mp) h) (add_mset p (dram_load mp)))"
          using a(2) home_local [OF mf(1,3)] by (simp add: upd_sub_def)
      next
        fix r
        show "count (add_mset p (dram_load mp)) r \<le> 1" using I(4) [of r] U(3) by (auto simp: not_in_iff)
        show "\<exists>mf i. mfs h r = Some mf \<and> local_to c (mp_id ?mp) mf i" if "r \<in># add_mset p (dram_load mp)"
          using I(5) [of r] that mf by (auto simp: upd_sub_def)
        show "\<exists>mf. mfs h r = Some mf \<and> sendable dc decode (mp_id ?mp) mf" if "r \<in> set (map fst (mp_latency ?mp))"
          using I(6) [of r] that mf by (auto simp: upd_sub_def)
        show "\<exists>mf. mfs h r = Some mf \<and> \<not> is_writeback mf" if "r \<in> set (dq_data (dm_returnq (mp_dram ?mp)))"
          using I(7) [of r] that by (simp add: upd_sub_def)
      qed (use U(1,2) I(3) in \<open>simp_all add: upd_sub_def\<close>)
      from part_inv_agree [OF this d h'(2)] show ?thesis
        using Some p(1,2) mf(1) False h'(1) a(1) by (simp add: issue_to_dram_def upd_sub_def)
    qed
  qed
qed

lemma leave_latency_ok:
  assumes inv: "part_inv c dc decode (h, mp)" and e: "dc_scheduler dc = DRAM_FRFCFS \<Longrightarrow> dq_data (dm_mrqq (mp_dram mp)) = []"
  shows "\<exists>mp'. leave_latency dc decode now h mp = Some mp' \<and> part_inv c dc decode (h, mp') \<and> mp_id mp' = mp_id mp"
proof (cases "mp_latency mp")
  case Nil
  with inv show ?thesis by (simp add: leave_latency_def)
next
  case (Cons x rest)
  note I = part_invD [OF inv]
  obtain p t where x: "x = (p, t)" by (cases x)
  from I(6) [of p] Cons x obtain mf where mf: "mfs h p = Some mf" "sendable dc decode (mp_id mp) mf" by auto
  show ?thesis
  proof (cases "t \<le> now \<and> \<not> dram_full dc (mp_dram mp) (is_write mf)")
    case False
    with inv Cons x mf(1) show ?thesis by (auto simp: leave_latency_def)
  next
    case True
    have new: "p \<notin># pool_reqs (mp_dram mp)" using I(4) [of p] by (auto simp: dram_load_def Cons x not_in_iff)
    from True have room: "\<not> dram_full dc (mp_dram mp) (is_write mf)" by simp
    obtain d' where d': "dram_push dc (of_nat (mp_id mp)) (decode mf) (mfs h) (mp_dram mp) p = Some d'" "channel_ok dc h d'"
        "pool_reqs d' = add_mset p (pool_reqs (mp_dram mp))" "dm_returnq d' = dm_returnq (mp_dram mp)"
      by (rule channel_push [OF I(3) mf new room e])
    let ?mp = "mp\<lparr>mp_latency := rest, mp_dram := d'\<rparr>"
    have in': "dram_load ?mp = dram_load mp" by (simp add: dram_load_def d'(3) Cons x)
    have "part_inv c dc decode (h, ?mp)"
      by (rule part_invI, unfold in') (use I d'(2,4) Cons in auto)
    then show ?thesis using Cons x True mf(1) d'(1) by (simp add: leave_latency_def)
  qed
qed

lemma mp_dram_cycle_ok:
  assumes "part_inv c dc decode (h, mp)" and "decode_ok decode"
  shows "\<exists>h' mp'. mp_dram_cycle c dc decode now h mp = Some (h', mp') \<and> part_inv c dc decode (h', mp')"
proof -
  from return_from_dram_ok [OF assms] obtain h1 mp1 where 1: "return_from_dram c now h mp = Some (h1, mp1)" "part_inv c dc decode (h1, mp1)"
    by blast
  from channel_cycle_ok [OF 1(2)] obtain h2 mp2 where 2: "channel_cycle c dc h1 mp1 = Some (h2, mp2)" "part_inv c dc decode (h2, mp2)"
    "dc_scheduler dc = DRAM_FRFCFS \<longrightarrow> dq_data (dm_mrqq (mp_dram mp2)) = []" by blast
  from issue_to_dram_ok [OF 2(2) assms(2)] obtain h3 mp3 where 3: "issue_to_dram c dc now h2 mp2 = Some (h3, mp3)"
    "part_inv c dc decode (h3, mp3)" "mp_dram mp3 = mp_dram mp2" by blast
  from leave_latency_ok [OF 3(2)] 2(3) 3(3) obtain mp4 where "leave_latency dc decode now h3 mp3 = Some mp4"
    "part_inv c dc decode (h3, mp4)" by auto
  with 1(1) 2(1) 3(1) show ?thesis by (simp add: mp_dram_cycle_def)
qed

lemma reply_same:
  assumes "mfs h p = Some mf" and "set_reply mf = Some mf'" and "decode_ok decode"
  shows "serves_same decode h (put_mf h p mf') q"
proof -
  have "\<exists>y. mf' = mf\<lparr>mf_type := y\<rparr>"
    using assms(2) by (auto simp: set_reply_def bind_eq_Some_conv split: if_splits intro: exI [of _ "mf_type mf"])
  then have "decode mf' = decode mf" "mf_data_size mf' = mf_data_size mf" using assms(3) by (auto simp: decode_ok_def)
  moreover have "answerable mf'"
    using assms(2) by (auto simp: answerable_def set_reply_def get_access_type_def is_write_def bind_eq_Some_conv split: if_splits)
  ultimately show ?thesis using assms(1) replied_reply [OF assms(2)] by (auto simp: serves_same_def)
qed

text \<open>A request with the end of its latency leaves, as a reply or as a finished write-back.\<close>

lemma latency_leaves:
  assumes inv: "part_inv c dc decode (h, mp)" and l: "mp_latency mp = (p, t) # rest" and i: "i < lp_n_sub c"
    and a: "credits_ok (shared_credit_limit dc (lp_n_sub c)) (lp_n_sub c) a (image_mset (home c (mp_id mp) h) (mset (map fst rest) + pool_reqs (mp_dram mp)))"
    and f: "sp_id (f (mp_subs mp ! i)) = sp_id (mp_subs mp ! i)" "sp_L2_dram (f (mp_subs mp ! i)) = sp_L2_dram (mp_subs mp ! i)"
      "dq_plain (sp_dram_L2 (f (mp_subs mp ! i)))"
  shows "part_inv c dc decode (h, (upd_sub i f (mp\<lparr>mp_arb := a\<rparr>))\<lparr>mp_latency := rest\<rparr>)"
proof -
  note I = part_invD [OF inv]
  let ?mp = "(upd_sub i f (mp\<lparr>mp_arb := a\<rparr>))\<lparr>mp_latency := rest\<rparr>" and ?D = "mset (map fst rest) + pool_reqs (mp_dram mp)"
  have D: "dram_load mp = add_mset p ?D" by (simp add: dram_load_def l)
  have in': "dram_load ?mp = ?D" and subs: "mp_subs ?mp = mp_subs (upd_sub i f mp)" by (simp_all add: dram_load_def upd_sub_def)
  have "set_mset ?D \<subseteq> set_mset (dram_load mp)" unfolding D by auto
  note fr = upd_sub_frame [where f = f, OF I(1) I(2) i f this]
  show ?thesis
  proof (rule part_invI, unfold in' subs)
    fix r
    show "count ?D r \<le> 1" using I(4) [of r] unfolding D by (auto split: if_splits)
    show "\<exists>mf i. mfs h r = Some mf \<and> local_to c (mp_id ?mp) mf i" if "r \<in># ?D"
      using I(5) [of r] that unfolding D by (auto simp: upd_sub_def)
    show "\<exists>mf. mfs h r = Some mf \<and> sendable dc decode (mp_id ?mp) mf" if "r \<in> set (map fst (mp_latency ?mp))"
      using I(6) [of r] that by (auto simp: upd_sub_def l)
    show "\<exists>mf. mfs h r = Some mf \<and> \<not> is_writeback mf" if "r \<in> set (dq_data (dm_returnq (mp_dram ?mp)))"
      using I(7) [of r] that by (auto simp: upd_sub_def)
  qed (use fr I(3) a in \<open>simp_all add: upd_sub_def\<close>)
qed

lemma part_inv_delete:
  assumes inv: "part_inv c dc decode (h, mp)" and p: "p \<notin> set (to_dram (mp_subs mp))" "p \<notin># dram_load mp"
  shows "part_inv c dc decode (delete_mf h p, mp)"
proof (rule part_inv_compat [OF inv])
  fix q assume "q \<in> set (to_dram (mp_subs mp)) \<or> q \<in># dram_load mp"
  with p have "q \<noteq> p" by auto
  then show "serves_same decode h (delete_mf h p) q" by (simp add: serves_same_def)
qed

lemma writeback_over:
  assumes inv: "part_inv c dc decode (h, mp)" and l: "mp_latency mp = (p, t) # rest" and mf: "mfs h p = Some mf" "is_writeback mf"
  shows "\<exists>mp'. mp_set_done c mp p mf = Some mp' \<and> part_inv c dc decode (delete_mf h p, mp'\<lparr>mp_latency := rest\<rparr>)"
proof -
  note I = part_invD [OF inv]
  let ?D = "mset (map fst rest) + pool_reqs (mp_dram mp)" and ?f = "\<lambda>sp. sp_set_done sp p"
  have D: "dram_load mp = add_mset p ?D" by (simp add: dram_load_def l)
  obtain mf' i a where mf': "mfs h p = Some mf'" "local_to c (mp_id mp) mf' i" "p \<notin># ?D" "i < lp_n_sub c"
    and a: "return_credit (mp_arb mp) i = Some a" "credits_ok (shared_credit_limit dc (lp_n_sub c)) (lp_n_sub c) a (image_mset (home c (mp_id mp) h) ?D)"
    by (rule leaving [OF inv D])
  let ?mp = "(upd_sub i ?f (mp\<lparr>mp_arb := a\<rparr>))\<lparr>mp_latency := rest\<rparr>"
  have f: "sp_id (?f (mp_subs mp ! i)) = sp_id (mp_subs mp ! i)" "sp_L2_dram (?f (mp_subs mp ! i)) = sp_L2_dram (mp_subs mp ! i)"
      "dq_plain (sp_dram_L2 (?f (mp_subs mp ! i)))"
    using subs_okD(3) [OF I(1) mf'(4)] by (simp_all add: sp_set_done_def)
  have inv': "part_inv c dc decode (h, ?mp)" by (rule latency_leaves [where f = ?f, OF inv l mf'(4) a(2) f])
  have "p \<notin> set (to_dram (mp_subs ?mp))"
    using upd_sub_frame(3) [where f = ?f, OF I(1) I(2) mf'(4) f subset_refl] queued_okD(2) [OF I(2)] by (auto simp: upd_sub_def D)
  moreover have "p \<notin># dram_load ?mp" using mf'(3) by (simp add: dram_load_def upd_sub_def)
  ultimately have "part_inv c dc decode (delete_mf h p, ?mp)" by (rule part_inv_delete [OF inv'])
  moreover have "mp_set_done c mp p mf = Some (upd_sub i ?f (mp\<lparr>mp_arb := a\<rparr>))"
    using local_spid_ok [OF I(1) mf'(2)] mf mf'(1) a(1) by (simp add: mp_set_done_def)
  ultimately show ?thesis by blast
qed

lemma reply_over:
  assumes inv: "part_inv c dc decode (h, mp)" and d: "decode_ok decode" and l: "mp_latency mp = (p, t) # rest"
    and mf: "mfs h p = Some mf" "local_to c (mp_id mp) mf i"
  shows "dq_full (sp_dram_L2 (mp_subs mp ! i)) \<or>
    (\<exists>h' mp'. to_sub now h mp i p = Some (h', mp') \<and> part_inv c dc decode (h', mp'\<lparr>mp_latency := rest\<rparr>))"
proof (cases "dq_full (sp_dram_L2 (mp_subs mp ! i))")
  case False
  note I = part_invD [OF inv]
  let ?D = "mset (map fst rest) + pool_reqs (mp_dram mp)"
  have D: "dram_load mp = add_mset p ?D" by (simp add: dram_load_def l)
  obtain mf' i' a where mf': "mfs h p = Some mf'" "local_to c (mp_id mp) mf' i'" "p \<notin># ?D" "i' < lp_n_sub c"
    and a: "return_credit (mp_arb mp) i' = Some a" "credits_ok (shared_credit_limit dc (lp_n_sub c)) (lp_n_sub c) a (image_mset (home c (mp_id mp) h) ?D)"
    by (rule leaving [OF inv D])
  have i: "i' = i" using mf mf'(1,2) by (simp add: local_to_def)
  have il: "i < lp_n_sub c" using mf'(4) i by simp
  obtain q where q: "dq_push (sp_dram_L2 (mp_subs mp ! i)) (Some p) = Some q" "dq_plain q"
    using plain_push_ok [OF subs_okD(3) [OF I(1) il] False] by metis
  obtain h' where h': "status_mf h p IN_PARTITION_DRAM_TO_L2_QUEUE now = Some h'" "\<And>q. agree h h' q"
    using status_mf_ok [OF mf(1)] by metis
  have "part_inv c dc decode (h, (upd_sub i (\<lambda>sp. sp\<lparr>sp_dram_L2 := q\<rparr>) (mp\<lparr>mp_arb := a\<rparr>))\<lparr>mp_latency := rest\<rparr>)"
    by (rule latency_leaves [OF inv l il a(2)]) (use q(2) in simp_all)
  from part_inv_agree [OF this d h'(2)] show ?thesis using q(1) h'(1) a(1) i by (simp add: to_sub_def upd_sub_def)
qed simp

lemma simple_return_ok:
  assumes inv: "part_inv c dc decode (h, mp)" and d: "decode_ok decode"
  shows "\<exists>h' mp'. simple_return c now h mp = Some (h', mp') \<and> part_inv c dc decode (h', mp')"
proof (cases "mp_latency mp")
  case Nil
  with inv show ?thesis by (simp add: simple_return_def)
next
  case (Cons x rest)
  obtain p t where x: "x = (p, t)" by (cases x)
  note l = Cons [unfolded x]
  show ?thesis
  proof (cases "t \<le> now")
    case False
    with inv l show ?thesis by (simp add: simple_return_def)
  next
    case ready: True
    from part_invD(6) [OF inv, of p] l obtain mf where mf: "mfs h p = Some mf" "sendable dc decode (mp_id mp) mf" by auto
    show ?thesis
    proof (cases "is_writeback mf")
      case True
      from writeback_over [OF inv l mf(1) True] show ?thesis using l ready mf(1) True by (auto simp: simple_return_def)
    next
      case False
      then obtain mf' where r: "set_reply mf = Some mf'" using mf(2) by (auto simp: sendable_def answerable_def is_writeback_def)
      then have up: "upd_mf h p set_reply = Some (put_mf h p mf')" using mf(1) by (simp add: upd_mf_def)
      have inv': "part_inv c dc decode (put_mf h p mf', mp)"
        by (rule part_inv_compat [OF inv]) (use reply_same [OF mf(1) r d] in blast)
      obtain i where i: "local_spid c mp (mf_sub_partition mf) = Some i" "i < lp_n_sub c"
          "local_to c (mp_id mp) mf i"
        using part_invD(5) [OF inv, of p] mf(1) l local_spid_ok [OF part_invD(1) [OF inv]]
        by (auto simp: dram_load_def local_to_def)
      have "mfs (put_mf h p mf') p = Some mf'" "local_to c (mp_id mp) mf' i"
        using i(3) replied_reply(1) [OF r] by (simp_all add: local_to_def)
      from reply_over [OF inv' d l this, of now]
      show ?thesis using l ready mf(1) False up i(1) inv'
        by (cases "dq_full (sp_dram_L2 (mp_subs mp ! i))") (auto simp: simple_return_def)
    qed
  qed
qed

lemma simple_dram_model_cycle_ok:
  assumes "part_inv c dc decode (h, mp)" and "decode_ok decode"
  shows "\<exists>h' mp'. simple_dram_model_cycle c dc now h mp = Some (h', mp') \<and> part_inv c dc decode (h', mp')"
  using simple_return_ok [OF assms, of now] issue_to_dram_ok [OF _ assms(2), of c dc _ _ now]
  by (fastforce simp: simple_dram_model_cycle_def)

section \<open>Runs\<close>

text \<open>
  The cycles of the partition, and in between any change of the sub-partitions and the heap (the L2
  caches, the interconnect) that leaves the requests in the DRAM alone and queues for the DRAM live
  requests of the right sub-partition that are not there yet.
\<close>

datatype mp_event = Mp_dram u64 | Mp_simple u64 | Mp_subs mf_heap "sub_partition list"

fun mp_step :: "l2_params \<Rightarrow> dram_config \<Rightarrow> (mem_fetch \<Rightarrow> addrdec_t) \<Rightarrow> mf_heap \<times> memory_partition \<Rightarrow> mp_event \<Rightarrow>
    (mf_heap \<times> memory_partition) option" where
  "mp_step c dc decode (h, mp) (Mp_dram now) = mp_dram_cycle c dc decode now h mp"
| "mp_step c dc decode (h, mp) (Mp_simple now) = simple_dram_model_cycle c dc now h mp"
| "mp_step c dc decode (h, mp) (Mp_subs h' sps) = Some (h', mp\<lparr>mp_subs := sps\<rparr>)"

fun mp_ok :: "l2_params \<Rightarrow> dram_config \<Rightarrow> (mem_fetch \<Rightarrow> addrdec_t) \<Rightarrow> mf_heap \<times> memory_partition \<Rightarrow> mp_event \<Rightarrow> bool" where
  "mp_ok c dc decode (h, mp) (Mp_subs h' sps) \<longleftrightarrow> subs_ok c (mp_id mp) sps \<and>
     queued_ok c dc decode (mp_id mp) h' sps (dram_load mp) \<and> (\<forall>p \<in># dram_load mp. agree h h' p)"
| "mp_ok c dc decode (h, mp) _ \<longleftrightarrow> True"

lemma subs_step_ok:
  assumes inv: "part_inv c dc decode (h, mp)" and d: "decode_ok decode" and ok: "mp_ok c dc decode (h, mp) (Mp_subs h' sps)"
  shows "part_inv c dc decode (h', mp\<lparr>mp_subs := sps\<rparr>)"
proof -
  note I = part_invD [OF inv]
  have a: "serves_same decode h h' p" if "p \<in># dram_load mp" for p using ok that agree_compat [OF _ d] by auto
  let ?mp = "mp\<lparr>mp_subs := sps\<rparr>"
  have in': "dram_load ?mp = dram_load mp" by (simp add: dram_load_def)
  have "image_mset (home c (mp_id mp) h') (dram_load mp) = image_mset (home c (mp_id mp) h) (dram_load mp)"
    by (rule image_mset_cong) (use a I(5) compat_home in fastforce)
  then have cr: "credits_ok (shared_credit_limit dc (lp_n_sub c)) (lp_n_sub c) (mp_arb mp) (image_mset (home c (mp_id mp) h') (dram_load mp))"
    using I(8) by simp
  have ch: "channel_ok dc h' (mp_dram mp)"
    by (rule channel_ok_compat [OF I(3), of decode]) (use a in \<open>simp add: dram_load_def\<close>)
  have l: "p \<in># dram_load mp" if "p \<in> set (map fst (mp_latency mp))" for p using that by (auto simp: dram_load_def)
  have r: "p \<in># dram_load mp" if "p \<in> set (dq_data (dm_returnq (mp_dram mp)))" for p
    using that by (auto simp: dram_load_def pool_reqs_def)
  show ?thesis
  proof (rule part_invI, unfold in')
    fix p
    show "\<exists>mf i. mfs h' p = Some mf \<and> local_to c (mp_id ?mp) mf i" if "p \<in># dram_load mp"
      using I(5) [OF that] a [OF that] compatE by (simp, metis)
    show "\<exists>mf. mfs h' p = Some mf \<and> sendable dc decode (mp_id ?mp) mf" if "p \<in> set (map fst (mp_latency ?mp))"
      using I(6) [of p] that a [of p] l [of p] compatE by (simp, metis)
    show "\<exists>mf. mfs h' p = Some mf \<and> \<not> is_writeback mf" if "p \<in> set (dq_data (dm_returnq (mp_dram ?mp)))"
      using I(7) [of p] that a [of p] r [of p] compatE by (simp, metis)
  qed (use ok I(4) ch cr in simp_all)
qed

lemma mp_step_ok:
  assumes "part_inv c dc decode st" and "decode_ok decode" and "mp_ok c dc decode st e"
  shows "\<exists>st'. mp_step c dc decode st e = Some st' \<and> part_inv c dc decode st'"
proof -
  obtain h mp where st: "st = (h, mp)" by (cases st)
  show ?thesis
  proof (cases e)
    case (Mp_dram now)
    then show ?thesis using mp_dram_cycle_ok [of c dc decode h mp now] assms st by auto
  next
    case (Mp_simple now)
    then show ?thesis using simple_dram_model_cycle_ok [of c dc decode h mp now] assms st by auto
  next
    case (Mp_subs h' sps)
    then show ?thesis using subs_step_ok [of c dc decode h mp h' sps] assms st by auto
  qed
qed

interpretation part: live_system "mp_step c dc decode" "\<lambda>st. part_inv c dc decode st \<and> decode_ok decode" "mp_ok c dc decode"
  by unfold_locales (use mp_step_ok in fastforce)+

lemma those_SomeD: "those xs = Some ys \<Longrightarrow> length ys = length xs \<and> (\<forall>i < length xs. xs ! i = Some (ys ! i))"
proof (induction xs arbitrary: ys)
  case (Cons x xs)
  then show ?case by (cases ys) (auto split: option.splits simp: nth_Cons')
qed simp

lemma dq_new_plain: "dq_new 0 n = Some q \<Longrightarrow> dq_plain q \<and> dq_data q = []"
  by (auto simp: dq_new_def dq_plain_def dq_inv_def dq_data_def)

lemma sub_partition_newD:
  assumes "sub_partition_new c ql idx h now n i = Some sp"
  shows "sp_id sp = i \<and> dq_plain (sp_dram_L2 sp) \<and> dq_plain (sp_L2_dram sp) \<and> dq_data (sp_L2_dram sp) = []"
  using assms by (auto simp: sub_partition_new_def bind_eq_Some_conv dest!: dq_new_plain)

lemma memory_partition_new_ok:
  assumes cf: "config_ok dc" and new: "memory_partition_new c dc ql idx h now n k = Some mp"
  shows "part_inv c dc decode (h, mp)"
proof -
  from new obtain arb d sps where a: "arbitration_new dc (lp_n_sub c) = Some arb" and d: "dram_new dc = Some d"
    and s: "those (map (\<lambda>p. sub_partition_new c ql idx h now n (k * lp_n_sub c + p)) [0 ..< lp_n_sub c]) = Some sps"
    and mp: "mp = \<lparr>mp_id = k, mp_subs = sps, mp_dram = d, mp_arb = arb, mp_latency = []\<rparr>"
    by (auto simp: memory_partition_new_def bind_eq_Some_conv)
  note ch = dram_new_ok [OF cf d]
  have len: "length sps = lp_n_sub c" using those_SomeD [OF s] by simp
  have sub: "sub_partition_new c ql idx h now n (k * lp_n_sub c + i) = Some (sps ! i)" if "i < lp_n_sub c" for i
    using those_SomeD [OF s] that by simp
  have sp: "sp_id (sps ! i) = k * lp_n_sub c + i \<and> dq_plain (sp_dram_L2 (sps ! i)) \<and> dq_plain (sp_L2_dram (sps ! i)) \<and>
      dq_data (sp_L2_dram (sps ! i)) = []" if "i < lp_n_sub c" for i
    using sub_partition_newD [OF sub [OF that]] by blast
  have "to_dram sps = []" using sp len by (auto simp: to_dram_def in_set_conv_nth)
  moreover have "dq_data (dm_returnq d) = []" using ch(2) by (simp add: pool_reqs_def)
  moreover have "dram_load mp = {#}" using ch(2) by (simp add: mp dram_load_def)
  moreover have "channel_ok dc h d" using ch(1) by (auto simp: channel_new_def intro: channel_okI)
  ultimately show ?thesis using sp len credits_new [OF a]
    by (intro part_invI) (auto simp: mp subs_ok_def queued_ok_def)
qed

end
