(* ===== verification/Partition_Properties.thy ===== *)
theory Partition_Properties
  imports Partition_Flow Dram_Properties
begin

text \<open>
  The properties of a memory partition, with a concrete partition, and what the model showed of the
  code: credits, sector requests and the delay of the raster-operation units.
\<close>

section \<open>Credits\<close>

text \<open>
  C6: the credits are exact and no operation fails: in every run of a memory partition, whatever the
  sub-partitions do between the cycles, the private credits and the shared credits in use add up to
  the number of requests in the DRAM channel and its latency queue, no credit is returned twice, and
  no assertion of the arbitration, the queues or the DRAM trips.
\<close>

theorem credits_exact:
  assumes "config_ok dc" and "decode_ok decode" and "memory_partition_new c dc ql idx h now n k = Some mp"
    and "part.run_ok c dc decode (h, mp) es"
  shows "\<exists>h' mp'. run (mp_step c dc decode) (h, mp) es = Some (h', mp') \<and>
    sum_list (m_private_credit (mp_arb mp')) + m_shared_credit (mp_arb mp') = int (size (in_dram mp'))"
proof -
  obtain h' mp' where r: "run (mp_step c dc decode) (h, mp) es = Some (h', mp')" "part_inv c dc decode (h', mp')"
    using part.run_live [OF conjI [OF memory_partition_new_ok [OF assms(1,3)] assms(2)] assms(4)] by auto
  from part_invD(8) [OF r(2)] r(1) in_dram_load [OF r(2)] show ?thesis by (auto simp: credits_ok_def)
qed

text \<open>
  C7: the credits bound the DRAM: with bounded scheduler and return queues that offer at least one
  place to every sub-partition, a partition never has more requests in its DRAM than these queues
  (and the write queue) hold and one more.
\<close>

theorem credits_bound_dram:
  assumes "config_ok dc" and "decode_ok decode" and "memory_partition_new c dc ql idx h now n k = Some mp"
    and "part.run_ok c dc decode (h, mp) es"
    and "0 < lp_n_sub c" and "lp_n_sub c \<le> fc_sched_queue_size dc + dc_return_queue_size dc"
    and "0 < fc_sched_queue_size dc" and "0 < dc_return_queue_size dc"
    and "fc_sched_queue_size dc + dc_return_queue_size dc + fc_write_queue_size dc < 2 ^ 31"
  shows "\<exists>h' mp'. run (mp_step c dc decode) (h, mp) es = Some (h', mp') \<and>
    size (in_dram mp') \<le> fc_sched_queue_size dc + dc_return_queue_size dc +
      (if fc_seperate_write_queue dc then fc_write_queue_size dc else 0) + 1"
proof -
  obtain h' mp' where r: "run (mp_step c dc decode) (h, mp) es = Some (h', mp')" "part_inv c dc decode (h', mp')"
    using part.run_live [OF conjI [OF memory_partition_new_ok [OF assms(1,3)] assms(2)] assms(4)] by auto
  note v = shared_credit_limit_value [OF assms(6,5,7-9)]
  have "shared_credit_limit dc (lp_n_sub c) \<noteq> 0" using v assms(5,6) by (simp split: if_splits)
  from credits_bound [OF part_invD(8) [OF r(2)] this] v in_dram_load [OF r(2)]
  show ?thesis using r(1) by (intro exI conjI) (auto split: if_splits)
qed

section \<open>A concrete partition\<close>

text \<open>One sub-partition without an L2 cache; request 7 of it goes through the DRAM and back.\<close>

definition demo_mem :: memory_config where
  "demo_mem = \<lparr>SST_mode = True, addrdec_tlx = (\<lambda>_. (0, 0)), partition_address = id, icnt_flit_size = 32\<rparr>"

definition demo_params :: l2_params where
  "demo_params = \<lparr>lp_config = config_blank\<lparr>m_disabled := True\<rparr>, lp_texure_only = False, lp_dram_latency = 1,
     lp_rop_latency = 2, lp_n_sub = 1, lp_mem = demo_mem\<rparr>"

definition demo_lengths :: l2_queue_lengths where
  "demo_lengths = \<lparr>icnt_L2_len = 2, L2_dram_len = 2, dram_L2_len = 2, L2_icnt_len = 2\<rparr>"

definition demo_part :: memory_partition where
  "demo_part = the (memory_partition_new demo_params demo_dram demo_lengths (\<lambda>_. None) mf_heap_init 0 1 0)"

definition demo_sub :: sub_partition where
  "demo_sub = the (sub_partition_new demo_params demo_lengths (\<lambda>_. None) mf_heap_init 0 1 0)"

definition demo_mp_run :: "mp_event list" where
  "demo_mp_run = Mp_subs (put_mf mf_heap_init 7 demo_mf) [demo_sub\<lparr>sp_L2_dram := the (dq_push (sp_L2_dram demo_sub) (Some 7))\<rparr>] #
     map (Mp_dram \<circ> of_nat) [1..<20]"

lemma demo_sub_new: "sub_partition_new demo_params demo_lengths (\<lambda>_. None) mf_heap_init 0 1 0 = Some demo_sub"
proof -
  have "\<not> Option.is_none (sub_partition_new demo_params demo_lengths (\<lambda>_. None) mf_heap_init 0 1 0)" by code_simp
  then show ?thesis by (simp add: demo_sub_def Option.is_none_def)
qed

lemma demo_part_new: "memory_partition_new demo_params demo_dram demo_lengths (\<lambda>_. None) mf_heap_init 0 1 0 = Some demo_part"
proof -
  have "\<not> Option.is_none (memory_partition_new demo_params demo_dram demo_lengths (\<lambda>_. None) mf_heap_init 0 1 0)" by code_simp
  then show ?thesis by (simp add: demo_part_def Option.is_none_def)
qed

lemma memory_partition_new_empty:
  assumes "config_ok dc" and "memory_partition_new c dc ql idx h now n k = Some mp"
  shows "in_dram mp = {#}"
  using assms(2) dram_new_ok(3) [OF assms(1)] by (auto simp: memory_partition_new_def bind_eq_Some_conv in_dram_def)

lemma demo_mp_run_ok: "part.run_ok demo_params demo_dram (\<lambda>_. demo_tlx) (mf_heap_init, demo_part) demo_mp_run"
proof -
  have quiet: "part.run_ok demo_params demo_dram (\<lambda>_. demo_tlx) st (map (Mp_dram \<circ> f) es)" for st f and es :: "nat list"
  proof (induction es arbitrary: st)
    case (Cons e es)
    then show ?case by (cases st) simp
  qed simp
  have "mp_ok demo_params demo_dram (\<lambda>_. demo_tlx) (mf_heap_init, demo_part)
    (Mp_subs (put_mf mf_heap_init 7 demo_mf) [demo_sub\<lparr>sp_L2_dram := the (dq_push (sp_L2_dram demo_sub) (Some 7))\<rparr>])"
    (is "mp_ok _ _ _ _ (Mp_subs ?h ?sps)")
  proof -
    have "subs_ok demo_params (mp_id demo_part) ?sps" by code_simp
    moreover have "dram_load demo_part = {#}"
      using in_dram_load [OF memory_partition_new_ok [OF demo_config demo_part_new, of "\<lambda>_. demo_tlx"]]
      by (simp add: memory_partition_new_empty [OF demo_config demo_part_new])
    moreover have "dq_data (sp_L2_dram (?sps ! 0)) = [7]" "lp_n_sub demo_params = 1" "mp_id demo_part = 0" by code_simp+
    moreover have "sendable demo_dram (\<lambda>_. demo_tlx) 0 demo_mf" "local_to demo_params 0 demo_mf 0" by code_simp+
    ultimately show ?thesis by (simp add: queued_ok_def to_dram_def)
  qed
  with quiet show ?thesis by (simp add: demo_mp_run_def)
qed

lemma demo_decode: "decode_ok (\<lambda>_. demo_tlx)"
  by (simp add: decode_ok_def)

theorem credits_exact_witness:
  "\<exists>h' mp'. run (mp_step demo_params demo_dram (\<lambda>_. demo_tlx)) (mf_heap_init, demo_part) demo_mp_run = Some (h', mp') \<and>
    sum_list (m_private_credit (mp_arb mp')) + m_shared_credit (mp_arb mp') = int (size (in_dram mp'))"
  by (rule credits_exact [OF demo_config demo_decode demo_part_new demo_mp_run_ok])

theorem credits_bound_dram_witness:
  "\<exists>h' mp'. run (mp_step demo_params demo_dram (\<lambda>_. demo_tlx)) (mf_heap_init, demo_part) demo_mp_run = Some (h', mp') \<and>
    size (in_dram mp') \<le> 9"
  using credits_bound_dram [OF demo_config demo_decode demo_part_new demo_mp_run_ok]
  by (simp add: demo_params_def demo_dram_def)

section \<open>Sector requests\<close>

text \<open>What the loop makes of sector \<open>i\<close> when its byte mask is fresh.\<close>

definition piece_of :: "mem_fetch \<Rightarrow> nat \<Rightarrow> mf_heap \<Rightarrow> nat \<Rightarrow> nat \<Rightarrow> bool" where
  "piece_of mf p h i q \<longleftrightarrow> (case mfs h q of None \<Rightarrow> False | Some r \<Rightarrow>
     get_addr r = get_addr mf + of_nat (SECTOR_SIZE * i) \<and> mf_data_size r = SECTOR_SIZE \<and>
     get_access_sector_mask r = push_bit i 1 \<and> get_access_byte_mask r = get_access_byte_mask mf AND sector_bytes i \<and>
     get_access_type r = get_access_type mf \<and> is_write r = is_write mf \<and> mf_sub_partition r = mf_sub_partition mf \<and>
     mf_original_mf r = Some p)"

lemma mf_alloc_piece:
  assumes "mfs h p = Some mf"
  shows "\<exists>h' r. mf_alloc None mc h a ty wm bm sm sz wr now wid sid tpc (Some p) sid' = Some (next_ptr h, h') \<and>
    next_ptr h' = Suc (next_ptr h) \<and> mfs h' = (mfs h)(next_ptr h \<mapsto> r) \<and> get_addr r = a \<and> mf_data_size r = sz \<and>
    get_access_sector_mask r = sm \<and> get_access_byte_mask r = bm \<and> get_access_type r = ty \<and> is_write r = wr \<and>
    mf_sub_partition r = mf_sub_partition mf \<and> mf_original_mf r = Some p"
  using assms by (auto simp: mf_alloc_def mem_fetch_new_def mem_access_new_def Let_def get_addr_def get_access_sector_mask_def
    get_access_byte_mask_def get_access_type_def is_write_def split: prod.splits)

lemma sector_requests_pieces:
  assumes "mfs h p = Some mf" and "p < next_ptr h"
  shows "\<exists>ps h'. sector_requests mc now p mf False (\<lambda>i. get_addr mf + of_nat (SECTOR_SIZE * i)) is m h = Some (ps, h') \<and>
    ps = [next_ptr h ..< next_ptr h + length is] \<and> list_all2 (piece_of mf p h') is ps \<and> (\<forall>q < next_ptr h. mfs h' q = mfs h q)"
  using assms
proof (induction "is" arbitrary: m h)
  case (Cons i js)
  let ?bm = "get_access_byte_mask mf AND sector_bytes i"
  from mf_alloc_piece [OF Cons.prems(1), of mc "get_addr mf + of_nat (SECTOR_SIZE * i)" "get_access_type mf" "get_access_warp_mask mf"
    ?bm "push_bit i 1" SECTOR_SIZE "is_write mf" now "mf_wid mf" "mf_sid mf" "mf_tpc mf" "mf_streamID mf"]
  obtain h1 r where a: "mf_alloc None mc h (get_addr mf + of_nat (SECTOR_SIZE * i)) (get_access_type mf) (get_access_warp_mask mf)
      ?bm (push_bit i 1) SECTOR_SIZE (is_write mf) now (mf_wid mf) (mf_sid mf) (mf_tpc mf) (Some p) (mf_streamID mf) = Some (next_ptr h, h1)"
    and n: "next_ptr h1 = Suc (next_ptr h)" and m1: "mfs h1 = (mfs h)(next_ptr h \<mapsto> r)"
    and r: "piece_of mf p h1 i (next_ptr h)"
    by (auto simp: piece_of_def)
  have "mfs h1 p = Some mf" "p < next_ptr h1" using Cons.prems m1 n by simp_all
  from Cons.IH [OF this] obtain ps h' where
    IH: "sector_requests mc now p mf False (\<lambda>i. get_addr mf + of_nat (SECTOR_SIZE * i)) js (sector_bytes i) h1 = Some (ps, h')"
    "ps = [Suc (next_ptr h) ..< Suc (next_ptr h) + length js]" "list_all2 (piece_of mf p h') js ps"
    "\<forall>q < Suc (next_ptr h). mfs h' q = mfs h1 q" unfolding n by blast
  have "piece_of mf p h' i (next_ptr h)" using r IH(4) by (simp add: piece_of_def)
  then show ?case using a IH m1 by (simp add: upt_rec)
qed simp

text \<open>
  C33: a request with a sector mask is broken down exactly: unless its size is 32, 64 or 128 bytes, it
  becomes one new request per sector of its mask, in ascending order, each of 32 bytes, with the
  address, the single sector and the bytes of that sector, and the original request is kept.
\<close>

theorem breakdown_by_mask:
  assumes "mfs h p = Some mf" and "p < next_ptr h" and "mf_data_size mf \<notin> {32, 64, 128}" and "get_access_sector_mask mf \<noteq> 0"
  shows "\<exists>ps h'. breakdown_request_to_sector_requests mc now h p = Some (ps, h') \<and> distinct ps \<and>
    list_all2 (piece_of mf p h') (filter (bit (get_access_sector_mask mf)) [0..<4]) ps \<and> (\<forall>q < next_ptr h. mfs h' q = mfs h q)"
proof -
  let ?is = "filter (bit (get_access_sector_mask mf)) [0..<4]"
  obtain i where "bit (get_access_sector_mask mf) i" using assms(4) by (metis bit_0_eq bot_apply bit_eqI bot_bool_def)
  then have "i \<in> set ?is" using bit_imp_le_length by fastforce
  then have "?is \<noteq> []" by force
  moreover from sector_requests_pieces [OF assms(1,2)] obtain ps h' where
    "sector_requests mc now p mf False (\<lambda>i. get_addr mf + of_nat (SECTOR_SIZE * i)) ?is 0 h = Some (ps, h')"
    "ps = [next_ptr h ..< next_ptr h + length ?is]" "list_all2 (piece_of mf p h') ?is ps" "\<forall>q < next_ptr h. mfs h' q = mfs h q"
    by blast
  ultimately show ?thesis using assms(1,3)
    by (intro exI [of _ ps] exI [of _ h']) (auto simp: breakdown_request_to_sector_requests_def Let_def)
qed

text \<open>A request of 96 bytes for the sectors 0, 2 and 3.\<close>

definition three_sectors :: mem_fetch where
  "three_sectors = demo_mf\<lparr>mf_data_size := 96, mf_access := (mf_access demo_mf)\<lparr>acc_sector_mask := 13, acc_byte_mask := - 1\<rparr>\<rparr>"

definition demo_heap :: "mem_fetch \<Rightarrow> mf_heap" where
  "demo_heap mf = mf_heap_init\<lparr>mfs := [7 \<mapsto> mf], next_ptr := 8\<rparr>"

theorem breakdown_by_mask_witness:
  "\<exists>ps h'. breakdown_request_to_sector_requests demo_mem 0 (demo_heap three_sectors) 7 = Some (ps, h') \<and>
    list_all2 (piece_of three_sectors 7 h') [0, 2, 3] ps"
proof -
  have "filter (bit (get_access_sector_mask three_sectors)) [0..<4] = [0, 2, 3]" by code_simp
  then show ?thesis using breakdown_by_mask [of "demo_heap three_sectors" 7 three_sectors demo_mem 0]
    by (simp add: three_sectors_def demo_heap_def get_access_sector_mask_def demo_mf_def) blast
qed

section \<open>What the model shows of the code\<close>

text \<open>
  A request of 128 bytes: the byte mask is declared outside the loop, so every piece also has the
  bytes of the sectors before its own.
\<close>

definition whole_line :: mem_fetch where
  "whole_line = demo_mf\<lparr>mf_data_size := 128, mf_access := (mf_access demo_mf)\<lparr>acc_sector_mask := 15, acc_byte_mask := - 1\<rparr>\<rparr>"

lemma whole_line_accumulates:
  "map_option (\<lambda>(ps, h). map (\<lambda>q. map_option get_access_byte_mask (mfs h q)) ps)
     (breakdown_request_to_sector_requests demo_mem 0 (demo_heap whole_line) 7) =
   Some [Some (mask 32), Some (mask 64), Some (mask 96), Some (mask 128)]"
  by code_simp

text \<open>A request of 64 bytes for the constant cache: both pieces get the address of the first.\<close>

definition half_line :: mem_fetch where
  "half_line = demo_mf\<lparr>mf_data_size := 64, mf_access := (mf_access demo_mf)\<lparr>acc_sector_mask := 0, acc_byte_mask := - 1\<rparr>\<rparr>"

lemma half_line_same_address:
  "map_option (\<lambda>(ps, h). map (\<lambda>q. map_option get_addr (mfs h q)) ps)
     (breakdown_request_to_sector_requests demo_mem 0 (demo_heap half_line) 7) = Some [Some 0, Some 0]"
  by code_simp

text \<open>
  The cycle of \<^verbatim>\<open>cache_cycle\<close> has 32 bits and the ready cycle 64: a request that is ready after cycle
  \<open>2 ^ 32\<close> never leaves the delay of the raster-operation units, and the ones behind it do not either.
\<close>

lemma rop_never_ready: "2 ^ 32 \<le> ready \<Longrightarrow> sp_rop sp = (p, ready) # rest \<Longrightarrow> rop_ready now cycle h sp = Some (h, sp)"
proof -
  assume r: "2 ^ 32 \<le> ready" "sp_rop sp = (p, ready) # rest"
  have "unat (ucast cycle :: u64) < 2 ^ 32" using unsigned_less [of cycle, where 'a = nat]
    by (simp add: unsigned_ucast_eq take_bit_nat_eq_self)
  then have "(ucast cycle :: u64) < 2 ^ 32" by (simp add: word_less_nat_alt)
  with r(1) have "\<not> ready \<le> ucast cycle" by simp
  with r(2) show ?thesis by (simp add: rop_ready_def)
qed

end
