(* ===== verification/Barrier_Set.thy ===== *)
theory Barrier_Set
  imports Std_Map
begin

text \<open>
  The barriers of a core (\<^verbatim>\<open>barrier_set_t\<close>, shader.h and shader.cc): which warps of each CTA have
  arrived at each of its barriers, and which wait. A \<^verbatim>\<open>warp_set_t\<close> is a \<open>64 word\<close>;
  \<^verbatim>\<open>set\<close> and \<^verbatim>\<open>test\<close> of a position out of range, a failed assertion and \<^verbatim>\<open>abort\<close> are \<open>None\<close>. The map from
  barrier numbers to warps is total, as \<^verbatim>\<open>operator[]\<close> makes it. The broadcast of the result of a
  reduction is returned as the set of warps that get it.
\<close>

section \<open>State\<close>

type_synonym warp_set_t = u64

abbreviation (input) WARP_PER_CTA_MAX :: nat where "WARP_PER_CTA_MAX \<equiv> 64"
abbreviation (input) MAX_BARRIERS_PER_CTA :: nat where "MAX_BARRIERS_PER_CTA \<equiv> 16"

datatype barrier_type = NOT_BAR | SYNC | ARRIVE | RED

record barrier_set =
  bs_max_cta :: nat
  bs_max_warps :: nat
  bs_max_barriers :: nat
  bs_warp_size :: nat
  bs_cta_to_warps :: "(nat \<times> warp_set_t) list"
  bs_bar_id_to_warps :: "nat \<Rightarrow> warp_set_t"
  bs_warp_active :: warp_set_t
  bs_at_barrier :: warp_set_t

definition barrier_set_new :: "nat \<Rightarrow> nat \<Rightarrow> nat \<Rightarrow> nat \<Rightarrow> barrier_set option" where
  "barrier_set_new max_warps_per_core max_cta_per_core max_barriers_per_cta warp_size = do {
     guard (max_warps_per_core \<le> WARP_PER_CTA_MAX);
     guard (max_barriers_per_cta \<le> MAX_BARRIERS_PER_CTA);
     Some \<lparr>bs_max_cta = max_cta_per_core, bs_max_warps = max_warps_per_core, bs_max_barriers = max_barriers_per_cta,
       bs_warp_size = warp_size, bs_cta_to_warps = [], bs_bar_id_to_warps = (\<lambda>_. 0), bs_warp_active = 0, bs_at_barrier = 0\<rparr> }"

section \<open>Operations\<close>

text \<open>The loops over the barriers take warps out of each.\<close>

definition clear_barriers :: "barrier_set \<Rightarrow> warp_set_t \<Rightarrow> nat \<Rightarrow> warp_set_t" where
  "clear_barriers bs warps = (\<lambda>i. if i < bs_max_barriers bs then bs_bar_id_to_warps bs i AND NOT warps else bs_bar_id_to_warps bs i)"

definition allocate_barrier :: "barrier_set \<Rightarrow> nat \<Rightarrow> warp_set_t \<Rightarrow> barrier_set option" where
  "allocate_barrier bs cta_id warps = do {
     guard (cta_id < bs_max_cta bs);
     guard (map_of (bs_cta_to_warps bs) cta_id = None);
     let m = map_at cta_id (\<lambda>_. warps) 0 (bs_cta_to_warps bs);
     guard (length m \<le> bs_max_cta bs);
     Some (bs\<lparr>bs_cta_to_warps := m, bs_warp_active := bs_warp_active bs OR warps,
       bs_at_barrier := bs_at_barrier bs AND NOT warps, bs_bar_id_to_warps := clear_barriers bs warps\<rparr>) }"

definition deallocate_barrier :: "barrier_set \<Rightarrow> nat \<Rightarrow> barrier_set option" where
  "deallocate_barrier bs cta_id = (case map_of (bs_cta_to_warps bs) cta_id of
       None \<Rightarrow> Some bs
     | Some warps \<Rightarrow> do {
         guard (warps AND bs_at_barrier bs = 0);
         guard (warps AND bs_warp_active bs = 0);
         guard (list_all (\<lambda>i. warps AND bs_bar_id_to_warps bs i = 0) [0 ..< bs_max_barriers bs]);
         Some (bs\<lparr>bs_warp_active := bs_warp_active bs AND NOT warps, bs_at_barrier := bs_at_barrier bs AND NOT warps,
           bs_bar_id_to_warps := clear_barriers bs warps, bs_cta_to_warps := AList.delete cta_id (bs_cta_to_warps bs)\<rparr>) })"

text \<open>An arrival, and the warps that leave a barrier and stop waiting.\<close>

definition release_warps :: "barrier_set \<Rightarrow> nat \<Rightarrow> warp_set_t \<Rightarrow> barrier_set" where
  "release_warps bs bar_id warps = bs\<lparr>
     bs_bar_id_to_warps := (bs_bar_id_to_warps bs)(bar_id := bs_bar_id_to_warps bs bar_id AND NOT warps),
     bs_at_barrier := bs_at_barrier bs AND NOT warps\<rparr>"

definition arrive_at :: "barrier_set \<Rightarrow> nat \<Rightarrow> nat \<Rightarrow> bool \<Rightarrow> barrier_set" where
  "arrive_at bs warp_id bar_id waits = bs\<lparr>
     bs_bar_id_to_warps := (bs_bar_id_to_warps bs)(bar_id := set_bit warp_id (bs_bar_id_to_warps bs bar_id)),
     bs_at_barrier := (if waits then set_bit warp_id (bs_at_barrier bs) else bs_at_barrier bs)\<rparr>"

definition warp_reaches_barrier :: "barrier_set \<Rightarrow> nat \<Rightarrow> nat \<Rightarrow> barrier_type \<Rightarrow> nat \<Rightarrow> u32 \<Rightarrow>
    (barrier_set \<times> warp_set_t option) option" where
  "warp_reaches_barrier bs cta_id warp_id bar_type bar_id bar_count = do {
     guard (int bar_id \<noteq> 0xFFFFFFFF);
     warps_in_cta \<leftarrow> map_of (bs_cta_to_warps bs) cta_id;
     guard (warp_id < WARP_PER_CTA_MAX \<and> bit warps_in_cta warp_id);
     let bs = arrive_at bs warp_id bar_id (bar_type = SYNC \<or> bar_type = RED);
     let at_barrier = warps_in_cta AND bs_bar_id_to_warps bs bar_id;
     let active = warps_in_cta AND bs_warp_active bs;
     let complete = (if bar_count = - 1 then at_barrier = active else bcount at_barrier * bs_warp_size bs = unat bar_count);
     Some (if complete then (release_warps bs bar_id at_barrier, if bar_type = RED then Some at_barrier else None)
           else (bs, None)) }"

text \<open>The end of a warp can complete the barriers of its CTA.\<close>

fun release_complete :: "nat list \<Rightarrow> warp_set_t \<Rightarrow> warp_set_t \<Rightarrow> barrier_set \<Rightarrow> barrier_set" where
  "release_complete [] warps active bs = bs"
| "release_complete (i # is) warps active bs =
    release_complete is warps active
      (if warps AND bs_bar_id_to_warps bs i = active then release_warps bs i (warps AND bs_bar_id_to_warps bs i) else bs)"

definition barrier_warp_exit :: "barrier_set \<Rightarrow> nat \<Rightarrow> barrier_set option" where
  "barrier_warp_exit bs warp_id = do {
     guard (warp_id < WARP_PER_CTA_MAX);
     let bs = bs\<lparr>bs_warp_active := unset_bit warp_id (bs_warp_active bs)\<rparr>;
     (_, warps_in_cta) \<leftarrow> find (\<lambda>(_, warps). bit warps warp_id) (bs_cta_to_warps bs);
     Some (release_complete [0 ..< bs_max_barriers bs] warps_in_cta (warps_in_cta AND bs_warp_active bs) bs) }"

definition warp_waiting_at_barrier :: "barrier_set \<Rightarrow> nat \<Rightarrow> bool option" where
  "warp_waiting_at_barrier bs warp_id = do {
     guard (warp_id < WARP_PER_CTA_MAX);
     Some (bit (bs_at_barrier bs) warp_id) }"

section \<open>The invariant of CTA barriers\<close>

text \<open>
  The runs of a core: CTAs with warps of their own come and go, their warps arrive at barriers that
  ask for the whole CTA (\<^verbatim>\<open>__syncthreads\<close>) and exit. The ghost \<open>bg_arrivals\<close> counts the arrivals of
  each warp since its CTA was allocated.
\<close>

datatype barrier_event = Bar_Alloc nat warp_set_t | Bar_Reach nat nat barrier_type nat | Bar_Exit nat | Bar_Dealloc nat

record barrier_ghost =
  bg_set :: barrier_set
  bg_arrivals :: "nat \<Rightarrow> nat"

fun barrier_step :: "barrier_ghost \<Rightarrow> barrier_event \<Rightarrow> barrier_ghost option" where
  "barrier_step g (Bar_Alloc cta ws) = map_option (\<lambda>bs. \<lparr>bg_set = bs, bg_arrivals = (\<lambda>w. if bit ws w then 0 else bg_arrivals g w)\<rparr>)
     (allocate_barrier (bg_set g) cta ws)"
| "barrier_step g (Bar_Reach cta w ty b) = map_option (\<lambda>(bs, _). \<lparr>bg_set = bs, bg_arrivals = (bg_arrivals g)(w := Suc (bg_arrivals g w))\<rparr>)
     (warp_reaches_barrier (bg_set g) cta w ty b (- 1))"
| "barrier_step g (Bar_Exit w) = map_option (\<lambda>bs. g\<lparr>bg_set := bs\<rparr>) (barrier_warp_exit (bg_set g) w)"
| "barrier_step g (Bar_Dealloc cta) = map_option (\<lambda>bs. g\<lparr>bg_set := bs\<rparr>) (deallocate_barrier (bg_set g) cta)"

text \<open>
  The protocol of the core: a new CTA gets warps that no other CTA has; an active warp that does not
  wait arrives at one of the barriers, or exits; a CTA goes when all its warps have exited.
\<close>

fun barrier_ok :: "barrier_ghost \<Rightarrow> barrier_event \<Rightarrow> bool" where
  "barrier_ok g (Bar_Alloc cta ws) \<longleftrightarrow> cta < bs_max_cta (bg_set g) \<and> map_of (bs_cta_to_warps (bg_set g)) cta = None \<and>
     list_all (\<lambda>(_, ws'). ws AND ws' = 0) (bs_cta_to_warps (bg_set g))"
| "barrier_ok g (Bar_Reach cta w ty b) \<longleftrightarrow> w < 64 \<and> (case map_of (bs_cta_to_warps (bg_set g)) cta of None \<Rightarrow> False | Some ws \<Rightarrow> bit ws w) \<and>
     bit (bs_warp_active (bg_set g)) w \<and> \<not> bit (bs_at_barrier (bg_set g)) w \<and> ty \<in> {SYNC, RED} \<and> b < bs_max_barriers (bg_set g)"
| "barrier_ok g (Bar_Exit w) \<longleftrightarrow> w < 64 \<and> bit (bs_warp_active (bg_set g)) w \<and> \<not> bit (bs_at_barrier (bg_set g)) w"
| "barrier_ok g (Bar_Dealloc cta) \<longleftrightarrow> (case map_of (bs_cta_to_warps (bg_set g)) cta of None \<Rightarrow> True
     | Some ws \<Rightarrow> ws AND bs_warp_active (bg_set g) = 0)"

text \<open>
  The active warps of a CTA have all arrived equally often, those that wait once more, and no
  barrier is complete.
\<close>

definition cta_ok :: "barrier_set \<Rightarrow> (nat \<Rightarrow> nat) \<Rightarrow> warp_set_t \<Rightarrow> bool" where
  "cta_ok bs n ws \<longleftrightarrow> (\<exists>phase. \<forall>w. bit ws w \<longrightarrow> bit (bs_warp_active bs) w \<longrightarrow> n w = phase + of_bool (bit (bs_at_barrier bs) w)) \<and>
     (\<forall>b. (\<forall>w. bit ws w \<longrightarrow> bit (bs_warp_active bs) w \<longrightarrow> bit (bs_bar_id_to_warps bs b) w) \<longrightarrow>
        (\<forall>w. bit ws w \<longrightarrow> \<not> bit (bs_warp_active bs) w))"

definition barriers_inv :: "barrier_set \<Rightarrow> (nat \<Rightarrow> nat) \<Rightarrow> bool" where
  "barriers_inv bs n \<longleftrightarrow> std_map (bs_cta_to_warps bs) \<and> fst ` set (bs_cta_to_warps bs) \<subseteq> {..<bs_max_cta bs} \<and>
     bs_max_barriers bs \<le> MAX_BARRIERS_PER_CTA \<and>
     (\<forall>c ws c' ws' w. map_of (bs_cta_to_warps bs) c = Some ws \<longrightarrow> map_of (bs_cta_to_warps bs) c' = Some ws' \<longrightarrow>
        bit ws w \<longrightarrow> bit ws' w \<longrightarrow> c = c') \<and>
     (\<forall>w. bit (bs_warp_active bs) w \<longrightarrow> (\<exists>c ws. map_of (bs_cta_to_warps bs) c = Some ws \<and> bit ws w)) \<and>
     (\<forall>w. bit (bs_at_barrier bs) w \<longrightarrow> bit (bs_warp_active bs) w) \<and>
     (\<forall>w. bit (bs_at_barrier bs) w \<longleftrightarrow> (\<exists>b. bit (bs_bar_id_to_warps bs b) w)) \<and>
     (\<forall>w b b'. bit (bs_bar_id_to_warps bs b) w \<longrightarrow> bit (bs_bar_id_to_warps bs b') w \<longrightarrow> b = b') \<and>
     (\<forall>b \<ge> bs_max_barriers bs. bs_bar_id_to_warps bs b = 0) \<and>
     (\<forall>c ws. map_of (bs_cta_to_warps bs) c = Some ws \<longrightarrow> cta_ok bs n ws)"

lemma barriers_invD:
  assumes "barriers_inv bs n"
  shows "std_map (bs_cta_to_warps bs)" and "fst ` set (bs_cta_to_warps bs) \<subseteq> {..<bs_max_cta bs}"
    and "bs_max_barriers bs \<le> MAX_BARRIERS_PER_CTA"
    and "map_of (bs_cta_to_warps bs) c = Some ws \<Longrightarrow> map_of (bs_cta_to_warps bs) c' = Some ws' \<Longrightarrow> bit ws w \<Longrightarrow> bit ws' w \<Longrightarrow> c = c'"
    and "bit (bs_warp_active bs) w \<Longrightarrow> \<exists>c ws. map_of (bs_cta_to_warps bs) c = Some ws \<and> bit ws w"
    and "bit (bs_at_barrier bs) w \<Longrightarrow> bit (bs_warp_active bs) w"
    and "bit (bs_at_barrier bs) w \<longleftrightarrow> (\<exists>b. bit (bs_bar_id_to_warps bs b) w)"
    and "bit (bs_bar_id_to_warps bs b) w \<Longrightarrow> bit (bs_bar_id_to_warps bs b') w \<Longrightarrow> b = b'"
    and "bs_max_barriers bs \<le> b \<Longrightarrow> bs_bar_id_to_warps bs b = 0"
    and "map_of (bs_cta_to_warps bs) c = Some ws \<Longrightarrow> cta_ok bs n ws"
  using assms unfolding barriers_inv_def by blast+

lemma barriers_invI:
  assumes "std_map (bs_cta_to_warps bs)" and "fst ` set (bs_cta_to_warps bs) \<subseteq> {..<bs_max_cta bs}"
    and "bs_max_barriers bs \<le> MAX_BARRIERS_PER_CTA"
    and "\<And>c ws c' ws' w. map_of (bs_cta_to_warps bs) c = Some ws \<Longrightarrow> map_of (bs_cta_to_warps bs) c' = Some ws' \<Longrightarrow>
      bit ws w \<Longrightarrow> bit ws' w \<Longrightarrow> c = c'"
    and "\<And>w. bit (bs_warp_active bs) w \<Longrightarrow> \<exists>c ws. map_of (bs_cta_to_warps bs) c = Some ws \<and> bit ws w"
    and "\<And>w. bit (bs_at_barrier bs) w \<Longrightarrow> bit (bs_warp_active bs) w"
    and "\<And>w. bit (bs_at_barrier bs) w \<longleftrightarrow> (\<exists>b. bit (bs_bar_id_to_warps bs b) w)"
    and "\<And>w b b'. bit (bs_bar_id_to_warps bs b) w \<Longrightarrow> bit (bs_bar_id_to_warps bs b') w \<Longrightarrow> b = b'"
    and "\<And>b. bs_max_barriers bs \<le> b \<Longrightarrow> bs_bar_id_to_warps bs b = 0"
    and "\<And>c ws. map_of (bs_cta_to_warps bs) c = Some ws \<Longrightarrow> cta_ok bs n ws"
  shows "barriers_inv bs n"
  unfolding barriers_inv_def by (intro conjI allI impI) (rule assms; assumption)+

text \<open>What a CTA sees of the state are the bits of its own warps.\<close>

lemma cta_ok_frame:
  assumes "cta_ok bs n ws"
    and "\<And>w. bit ws w \<Longrightarrow> bit (bs_warp_active bs') w = bit (bs_warp_active bs) w \<and>
      bit (bs_at_barrier bs') w = bit (bs_at_barrier bs) w \<and> n' w = n w \<and>
      (\<forall>b. bit (bs_bar_id_to_warps bs' b) w = bit (bs_bar_id_to_warps bs b) w)"
  shows "cta_ok bs' n' ws"
proof -
  obtain phase where "\<forall>w. bit ws w \<longrightarrow> bit (bs_warp_active bs) w \<longrightarrow> n w = phase + of_bool (bit (bs_at_barrier bs) w)"
    using assms(1) unfolding cta_ok_def by blast
  then have "\<forall>w. bit ws w \<longrightarrow> bit (bs_warp_active bs') w \<longrightarrow> n' w = phase + of_bool (bit (bs_at_barrier bs') w)"
    using assms(2) by simp
  moreover have "\<forall>w. bit ws w \<longrightarrow> \<not> bit (bs_warp_active bs') w"
    if b: "\<forall>w. bit ws w \<longrightarrow> bit (bs_warp_active bs') w \<longrightarrow> bit (bs_bar_id_to_warps bs' b) w" for b
  proof -
    have "\<forall>w. bit ws w \<longrightarrow> bit (bs_warp_active bs) w \<longrightarrow> bit (bs_bar_id_to_warps bs b) w" using b assms(2) by simp
    then have "\<forall>w. bit ws w \<longrightarrow> \<not> bit (bs_warp_active bs) w" using assms(1) unfolding cta_ok_def by blast
    then show ?thesis using assms(2) by simp
  qed
  ultimately show ?thesis unfolding cta_ok_def by blast
qed

lemma and_disjoint: "a AND b = 0 \<Longrightarrow> bit a w \<Longrightarrow> \<not> bit b w" for a b :: "'a::len word"
  by (metis bit_and_iff bit_0_eq bot_apply bot_bool_def)

lemma and_eq_0I: "(\<And>w. bit a w \<Longrightarrow> \<not> bit b w) \<Longrightarrow> a AND b = 0" for a b :: "'a::len word"
  by (rule bit_eqI) (simp add: bit_and_iff)

lemma and_not_same: "a AND b = 0 \<Longrightarrow> b AND NOT a = b" for a b :: "'a::len word"
  by (rule bit_word_eqI) (use and_disjoint in \<open>fastforce simp: bit_simps\<close>)

text \<open>The warps of a CTA are the ones that the first match finds.\<close>

lemma find_cta:
  assumes "barriers_inv bs n" and "map_of (bs_cta_to_warps bs) c = Some ws" and "bit ws w"
  shows "\<exists>c'. find (\<lambda>(_, warps). bit warps w) (bs_cta_to_warps bs) = Some (c', ws)"
proof -
  note I = barriers_invD [OF assms(1)]
  have "(c, ws) \<in> set (bs_cta_to_warps bs)" using std_map_mem [OF I(1)] assms(2) by simp
  then obtain c' ws' where f: "find (\<lambda>(_, warps). bit warps w) (bs_cta_to_warps bs) = Some (c', ws')"
    using assms(3) by (cases "find (\<lambda>(_, warps). bit warps w) (bs_cta_to_warps bs)") (auto simp: find_None_iff)
  then have "(c', ws') \<in> set (bs_cta_to_warps bs)" "bit ws' w" by (auto simp: find_Some_iff in_set_conv_nth)
  then have m: "map_of (bs_cta_to_warps bs) c' = Some ws'" using std_map_mem [OF I(1)] by simp
  show ?thesis using I(4) [OF m assms(2) \<open>bit ws' w\<close> assms(3)] assms(2) f m by auto
qed

section \<open>Every event keeps it\<close>

lemma alloc_inv:
  assumes inv: "barriers_inv bs n" and c: "cta < bs_max_cta bs" and new: "map_of (bs_cta_to_warps bs) cta = None"
    and dis: "list_all (\<lambda>(_, ws'). ws AND ws' = 0) (bs_cta_to_warps bs)"
  shows "\<exists>bs'. allocate_barrier bs cta ws = Some bs' \<and> barriers_inv bs' (\<lambda>w. if bit ws w then 0 else n w)"
proof -
  note I = barriers_invD [OF inv]
  have own: "\<not> bit ws' w" if "map_of (bs_cta_to_warps bs) c = Some ws'" "bit ws w" for c ws' w
  proof -
    have "ws AND ws' = 0" using dis std_map_mem [OF I(1)] that(1) by (fastforce simp: list_all_iff)
    then show ?thesis using that(2) by (rule and_disjoint)
  qed
  have idle: "\<not> bit (bs_warp_active bs) w" if "bit ws w" for w using I(5) [of w] own that by blast
  have quiet: "\<not> bit (bs_at_barrier bs) w" "\<not> bit (bs_bar_id_to_warps bs b) w" if "bit ws w" for w b
    using I(6,7) [of w] idle [OF that] by blast+
  have ca: "clear_barriers bs ws = bs_bar_id_to_warps bs" "bs_at_barrier bs AND NOT ws = bs_at_barrier bs"
    using quiet by (auto simp: clear_barriers_def intro!: and_not_same and_eq_0I ext)
  define m where "m = map_at cta (\<lambda>_. ws) 0 (bs_cta_to_warps bs)"
  have m: "std_map m" "fst ` set m \<subseteq> {..<bs_max_cta bs}" "map_of m = (map_of (bs_cta_to_warps bs))(cta \<mapsto> ws)"
    using I(1,2) c by (auto simp: m_def map_of_map_at)
  have "length m = card (fst ` set m)" using distinct_card [OF std_map_distinct [OF m(1)]] by simp
  also have "\<dots> \<le> bs_max_cta bs" using card_mono [OF _ m(2)] by simp
  finally have "length m \<le> bs_max_cta bs" .
  with ca have a: "allocate_barrier bs cta ws = Some (bs\<lparr>bs_cta_to_warps := m, bs_warp_active := bs_warp_active bs OR ws\<rparr>)"
    using c new by (simp add: allocate_barrier_def Let_def m_def)
  have "barriers_inv (bs\<lparr>bs_cta_to_warps := m, bs_warp_active := bs_warp_active bs OR ws\<rparr>) (\<lambda>w. if bit ws w then 0 else n w)"
    (is "barriers_inv ?bs ?n")
  proof (rule barriers_invI)
    fix c ws' assume map: "map_of (bs_cta_to_warps ?bs) c = Some ws'"
    show "cta_ok ?bs ?n ws'"
    proof (cases "c = cta")
      case True
      then show ?thesis using map m quiet by (auto simp: cta_ok_def bit_simps)
    next
      case False
      then have old: "map_of (bs_cta_to_warps bs) c = Some ws'" using map m by simp
      show ?thesis by (rule cta_ok_frame [OF I(10) [OF old]]) (use own [OF old] in \<open>auto simp: bit_simps\<close>)
    qed
  next
    fix w assume w: "bit (bs_warp_active ?bs) w"
    show "\<exists>c ws'. map_of (bs_cta_to_warps ?bs) c = Some ws' \<and> bit ws' w"
    proof (cases "bit ws w")
      case False
      then obtain c ws' where cw: "map_of (bs_cta_to_warps bs) c = Some ws'" "bit ws' w"
        using w I(5) [of w] by (auto simp: bit_simps)
      then have "c \<noteq> cta" using new by auto
      then show ?thesis using cw m by auto
    qed (use m in auto)
  next
    fix c1 w1 c2 w2 w assume "map_of (bs_cta_to_warps ?bs) c1 = Some w1" "map_of (bs_cta_to_warps ?bs) c2 = Some w2" "bit w1 w" "bit w2 w"
    then show "c1 = c2" using m I(4) own by (auto split: if_splits)
  qed (use m I in \<open>auto simp: bit_simps\<close>)
  with a show ?thesis by blast
qed

text \<open>A barrier that is completed by its CTA: the CTA is in its next phase.\<close>

lemma released_cta_ok:
  assumes inv: "barriers_inv bs n" and c: "map_of (bs_cta_to_warps bs) c = Some ws"
    and all: "\<And>w. bit ws w \<Longrightarrow> bit (bs_warp_active bs) w \<Longrightarrow> n' w = Suc phase"
    and free: "\<And>w. bit ws w \<Longrightarrow> \<not> bit (bs_at_barrier bs') w" "\<And>w b. bit ws w \<Longrightarrow> \<not> bit (bs_bar_id_to_warps bs' b) w"
    and act: "\<And>w. bit (bs_warp_active bs') w \<Longrightarrow> bit (bs_warp_active bs) w"
  shows "cta_ok bs' n' ws"
  unfolding cta_ok_def
proof (intro conjI exI allI impI)
  show "n' w = Suc phase + of_bool (bit (bs_at_barrier bs') w)" if "bit ws w" "bit (bs_warp_active bs') w" for w
    using that all [OF _ act] free(1) by simp
  show "\<not> bit (bs_warp_active bs') w"
    if "\<forall>w. bit ws w \<longrightarrow> bit (bs_warp_active bs') w \<longrightarrow> bit (bs_bar_id_to_warps bs' b) w" "bit ws w" for b w
    using that free(2) by blast
qed

lemma other_cta_ok:
  assumes inv: "barriers_inv bs n" and c: "map_of (bs_cta_to_warps bs) c = Some ws'" "map_of (bs_cta_to_warps bs) cta = Some ws" "c \<noteq> cta"
    and same: "\<And>v. v < 64 \<Longrightarrow> \<not> bit ws v \<Longrightarrow> bit (bs_warp_active bs') v = bit (bs_warp_active bs) v \<and>
      bit (bs_at_barrier bs') v = bit (bs_at_barrier bs) v \<and> n' v = n v \<and>
      (\<forall>b. bit (bs_bar_id_to_warps bs' b) v = bit (bs_bar_id_to_warps bs b) v)"
  shows "cta_ok bs' n' ws'"
proof (rule cta_ok_frame [OF barriers_invD(10) [OF inv c(1)]])
  fix v assume v: "bit ws' v"
  then have "\<not> bit ws v" using barriers_invD(4) [OF inv c(1,2) v] c(3) by blast
  moreover have "v < 64" using bit_imp_le_length [OF v] by simp
  ultimately show "bit (bs_warp_active bs') v = bit (bs_warp_active bs) v \<and> bit (bs_at_barrier bs') v = bit (bs_at_barrier bs) v \<and>
    n' v = n v \<and> (\<forall>b. bit (bs_bar_id_to_warps bs' b) v = bit (bs_bar_id_to_warps bs b) v)" using same by blast
qed

text \<open>An arrival, completing the barrier or not.\<close>

lemma arrival_phase:
  assumes inv: "barriers_inv bs n" and cta: "map_of (bs_cta_to_warps bs) cta = Some ws"
  obtains phase where "\<And>v. bit ws v \<Longrightarrow> bit (bs_warp_active bs) v \<Longrightarrow> n v = phase + of_bool (bit (bs_at_barrier bs) v)"
  using barriers_invD(10) [OF inv cta] unfolding cta_ok_def by blast

lemma reach_complete_inv:
  assumes inv: "barriers_inv bs n" and cta: "map_of (bs_cta_to_warps bs) cta = Some ws" and w: "w < 64" "bit ws w"
    and act: "bit (bs_warp_active bs) w" "\<not> bit (bs_at_barrier bs) w"
    and b: "b < bs_max_barriers bs"
    and full: "ws AND bs_bar_id_to_warps (arrive_at bs w b True) b = ws AND bs_warp_active bs"
  shows "barriers_inv (release_warps (arrive_at bs w b True) b (ws AND bs_warp_active bs)) (n(w := Suc (n w)))"
    (is "barriers_inv ?bs ?n")
proof (rule barriers_invI)
  note I = barriers_invD [OF inv]
  note defs = release_warps_def arrive_at_def
  have none: "\<not> bit (bs_bar_id_to_warps bs b') w" for b' using I(7) [of w] act(2) by blast
  have eq: "bit (bs_bar_id_to_warps bs b) v \<or> v = w \<longleftrightarrow> bit (bs_warp_active bs) v" if "bit ws v" for v
    using arg_cong [OF full, of "\<lambda>x. bit x v"] that w(1) by (auto simp: bit_simps arrive_at_def)
  fix c ws' assume m: "map_of (bs_cta_to_warps ?bs) c = Some ws'"
  show "cta_ok ?bs ?n ws'"
  proof (cases "c = cta")
    case True
    obtain phase where ph: "\<And>v. bit ws v \<Longrightarrow> bit (bs_warp_active bs) v \<Longrightarrow> n v = phase + of_bool (bit (bs_at_barrier bs) v)"
      using arrival_phase [OF inv cta] by blast
    have n: "?n v = Suc phase" if "bit ws v" "bit (bs_warp_active bs) v" for v
      using ph [OF that] eq [OF that(1)] that(2) I(7) [of v] act by auto
    have free: "\<not> bit (bs_bar_id_to_warps ?bs b') v" if "bit ws v" for v b'
    proof
      assume "bit (bs_bar_id_to_warps ?bs b') v"
      then have "b' \<noteq> b" "bit (bs_bar_id_to_warps bs b') v" using that eq [OF that] by (auto simp: defs bit_simps split: if_splits)
      moreover from this have "bit (bs_warp_active bs) v" "v \<noteq> w" using I(6,7) [of v] none by blast+
      ultimately show False using eq [OF that] I(8) by blast
    qed
    have free1: "\<not> bit (bs_at_barrier ?bs) v" if "bit ws v" for v
      using that eq [OF that] I(6) [of v] by (auto simp: defs bit_simps)
    have "cta_ok ?bs ?n ws" by (rule released_cta_ok [OF inv cta n free1 free]) (simp_all add: defs)
    then show ?thesis using True m cta by (simp add: defs)
  next
    case False
    show ?thesis by (rule other_cta_ok [OF inv _ cta False]) (use m w in \<open>auto simp: defs bit_simps\<close>)
  qed
next
  note I = barriers_invD [OF inv]
  fix v
  have bits: "bit (bs_at_barrier ?bs) v \<longleftrightarrow> (bit (bs_at_barrier bs) v \<or> v = w) \<and> \<not> (bit ws v \<and> bit (bs_warp_active bs) v)"
    "\<And>b'. bit (bs_bar_id_to_warps ?bs b') v \<longleftrightarrow>
      (bit (bs_bar_id_to_warps bs b') v \<or> b' = b \<and> v = w) \<and> \<not> (b' = b \<and> bit ws v \<and> bit (bs_warp_active bs) v)"
    using w bit_imp_le_length [of "bs_bar_id_to_warps bs b" v] bit_imp_le_length [of "bs_at_barrier bs" v]
    by (auto simp: release_warps_def arrive_at_def bit_simps)
  show "bit (bs_at_barrier ?bs) v \<longleftrightarrow> (\<exists>b. bit (bs_bar_id_to_warps ?bs b) v)"
  proof (cases "bit ws v \<and> bit (bs_warp_active bs) v")
    case True
    then have "bit (bs_bar_id_to_warps bs b) v \<or> v = w"
      using arg_cong [OF full, of "\<lambda>x. bit x v"] w(1) by (auto simp: bit_simps arrive_at_def)
    then have "b' = b" if "bit (bs_bar_id_to_warps bs b') v" for b' using I(7) [of w] act(2) I(8) that by blast
    then show ?thesis using True bits by auto
  next
    case False
    then have "v \<noteq> w" using w act by blast
    then show ?thesis using False bits I(7) [of v] by simp
  qed
  show "bit (bs_at_barrier ?bs) v \<Longrightarrow> bit (bs_warp_active ?bs) v"
    using I(6) [of v] w act by (auto simp: release_warps_def arrive_at_def bit_simps)
  show "b1 = b2" if "bit (bs_bar_id_to_warps ?bs b1) v" "bit (bs_bar_id_to_warps ?bs b2) v" for b1 b2
    using that bits I(8) [of _ v] I(7) [of w] w act by auto
  show "bs_max_barriers ?bs \<le> b' \<Longrightarrow> bs_bar_id_to_warps ?bs b' = 0" for b'
    using b I(9) by (auto simp: release_warps_def arrive_at_def)
qed (use barriers_invD(1-5) [OF inv] in \<open>simp_all add: release_warps_def arrive_at_def\<close>)

lemma reach_wait_inv:
  assumes inv: "barriers_inv bs n" and cta: "map_of (bs_cta_to_warps bs) cta = Some ws" and w: "w < 64" "bit ws w"
    and act: "bit (bs_warp_active bs) w" "\<not> bit (bs_at_barrier bs) w" and b: "b < bs_max_barriers bs"
    and part: "ws AND bs_bar_id_to_warps (arrive_at bs w b True) b \<noteq> ws AND bs_warp_active bs"
  shows "barriers_inv (arrive_at bs w b True) (n(w := Suc (n w)))" (is "barriers_inv ?bs ?n")
proof (rule barriers_invI)
  note I = barriers_invD [OF inv]
  have none: "\<not> bit (bs_bar_id_to_warps bs b') w" for b' using I(7) [of w] act(2) by blast
  have act': "\<And>v. bit (bs_bar_id_to_warps ?bs b) v \<Longrightarrow> bit (bs_warp_active bs) v"
    using I(6,7) act(1) by (auto simp: bit_simps arrive_at_def)
  fix c ws' assume m: "map_of (bs_cta_to_warps ?bs) c = Some ws'"
  show "cta_ok ?bs ?n ws'"
  proof (cases "c = cta")
    case c: True
    obtain phase where ph: "\<And>v. bit ws v \<Longrightarrow> bit (bs_warp_active bs) v \<Longrightarrow> n v = phase + of_bool (bit (bs_at_barrier bs) v)"
      using arrival_phase [OF inv cta] by blast
    have "?n v = phase + of_bool (bit (bs_at_barrier ?bs) v)" if "bit ws v" "bit (bs_warp_active ?bs) v" for v
      using ph [of v] ph [of w] that act w by (auto simp: bit_simps arrive_at_def)
    moreover have "\<exists>v. bit ws v \<and> bit (bs_warp_active ?bs) v \<and> \<not> bit (bs_bar_id_to_warps ?bs b') v" for b'
    proof (cases "b' = b")
      case True
      obtain v where "bit (ws AND bs_bar_id_to_warps ?bs b) v \<noteq> bit (ws AND bs_warp_active bs) v" using part by (metis bit_eqI)
      then show ?thesis using act' [of v] True by (auto simp: bit_simps arrive_at_def)
    next
      case False
      then show ?thesis using w act none [of b'] by (auto simp: arrive_at_def)
    qed
    ultimately have "cta_ok ?bs ?n ws" unfolding cta_ok_def by blast
    then show ?thesis using c m cta by (simp add: arrive_at_def)
  next
    case False
    show ?thesis by (rule other_cta_ok [OF inv _ cta False]) (use m w in \<open>auto simp: arrive_at_def bit_simps\<close>)
  qed
next
  fix v show "bit (bs_at_barrier ?bs) v \<longleftrightarrow> (\<exists>b. bit (bs_bar_id_to_warps ?bs b) v)"
    using barriers_invD(7) [OF inv, of v] w by (auto simp: bit_simps arrive_at_def)
  show "bit (bs_at_barrier ?bs) v \<Longrightarrow> bit (bs_warp_active ?bs) v"
    using barriers_invD(6) [OF inv, of v] act by (auto simp: bit_simps arrive_at_def)
  show "b1 = b2" if "bit (bs_bar_id_to_warps ?bs b1) v" "bit (bs_bar_id_to_warps ?bs b2) v" for b1 b2
    using that barriers_invD(8) [OF inv, of _ v] barriers_invD(7) [OF inv, of w] act by (auto simp: bit_simps arrive_at_def split: if_splits)
  show "bs_max_barriers ?bs \<le> b' \<Longrightarrow> bs_bar_id_to_warps ?bs b' = 0" for b'
    using b barriers_invD(9) [OF inv] by (auto simp: arrive_at_def)
qed (use barriers_invD(1-5) [OF inv] in \<open>simp_all add: arrive_at_def\<close>)

lemma reach_inv:
  assumes inv: "barriers_inv bs n" and cta: "map_of (bs_cta_to_warps bs) cta = Some ws" and w: "w < 64" "bit ws w"
    and act: "bit (bs_warp_active bs) w" "\<not> bit (bs_at_barrier bs) w" and ty: "ty \<in> {SYNC, RED}" and b: "b < bs_max_barriers bs"
  shows "\<exists>bs' r. warp_reaches_barrier bs cta w ty b (- 1) = Some (bs', r) \<and> barriers_inv bs' (n(w := Suc (n w)))"
proof -
  have bid: "int b \<noteq> 4294967295" using b barriers_invD(3) [OF inv] by simp
  have a: "bs_warp_active (arrive_at bs w b True) = bs_warp_active bs" by (simp add: arrive_at_def)
  show ?thesis
  proof (cases "ws AND bs_bar_id_to_warps (arrive_at bs w b True) b = ws AND bs_warp_active bs")
    case True
    show ?thesis using reach_complete_inv [OF inv cta w act b True] True cta w ty bid a
      by (auto simp: warp_reaches_barrier_def Let_def)
  next
    case False
    show ?thesis using reach_wait_inv [OF inv cta w act b False] False cta w ty bid a
      by (auto simp: warp_reaches_barrier_def Let_def)
  qed
qed

text \<open>The end of a warp.\<close>

lemma release_complete_same:
  assumes "\<forall>i \<in> set is. warps AND bs_bar_id_to_warps bs i \<noteq> active \<or> active = 0"
  shows "release_complete is warps active bs = bs"
  using assms
proof (induction "is")
  case (Cons i js)
  have "release_warps bs i 0 = bs" by (simp add: release_warps_def)
  then show ?case using Cons by auto
qed simp

lemma release_complete_one:
  assumes "distinct is" and "i \<in> set is" and "warps AND bs_bar_id_to_warps bs i = active" and "active \<noteq> 0"
    and "\<forall>j. j \<noteq> i \<longrightarrow> warps AND bs_bar_id_to_warps bs j \<noteq> active"
  shows "release_complete is warps active bs = release_warps bs i active"
  using assms
proof (induction "is")
  case (Cons j js)
  have "warps AND (bs_bar_id_to_warps bs i AND NOT active) \<noteq> active"
  proof
    assume eq: "warps AND (bs_bar_id_to_warps bs i AND NOT active) = active"
    have "bit active v \<Longrightarrow> False" for v using arg_cong [OF eq, of "\<lambda>x. bit x v"] by (auto simp: bit_simps)
    then show False using assms(4) by (metis bit_0_eq bit_eqI bot_apply bot_bool_def)
  qed
  then have "release_complete js warps active (release_warps bs i active) = release_warps bs i active"
    using assms(5) by (intro release_complete_same) (auto simp: release_warps_def)
  then show ?case using Cons by (cases "j = i") auto
qed simp

text \<open>An exit that completes a barrier, and one that does not.\<close>

definition exited :: "nat \<Rightarrow> barrier_set \<Rightarrow> barrier_set" where
  "exited w bs = bs\<lparr>bs_warp_active := unset_bit w (bs_warp_active bs)\<rparr>"

lemma exit_complete_inv:
  assumes inv: "barriers_inv bs n" and cta: "map_of (bs_cta_to_warps bs) cta = Some ws" and w: "bit ws w"
    and act: "bit (bs_warp_active bs) w" "\<not> bit (bs_at_barrier bs) w"
    and full: "ws AND bs_bar_id_to_warps bs b = ws AND bs_warp_active (exited w bs)" and b: "b < bs_max_barriers bs"
  shows "barriers_inv (release_warps (exited w bs) b (ws AND bs_warp_active (exited w bs))) n" (is "barriers_inv ?bs ?n")
proof (rule barriers_invI)
  note I = barriers_invD [OF inv]
  note defs = release_warps_def exited_def
  have eq: "bit (bs_bar_id_to_warps bs b) v \<longleftrightarrow> bit (bs_warp_active bs) v \<and> v \<noteq> w" if "bit ws v" for v
    using arg_cong [OF full, of "\<lambda>x. bit x v"] that by (auto simp: bit_simps exited_def)
  fix c ws' assume m: "map_of (bs_cta_to_warps ?bs) c = Some ws'"
  show "cta_ok ?bs n ws'"
  proof (cases "c = cta")
    case True
    obtain phase where ph: "\<And>v. bit ws v \<Longrightarrow> bit (bs_warp_active bs) v \<Longrightarrow> n v = phase + of_bool (bit (bs_at_barrier bs) v)"
      using arrival_phase [OF inv cta] by blast
    have free: "\<not> bit (bs_bar_id_to_warps ?bs b') v" "\<not> bit (bs_at_barrier ?bs) v" if "bit ws v" for v b'
      using that eq [OF that] act I(6,7) [of v] I(8) [of b v b'] by (auto simp: defs bit_simps split: if_splits)
    have "n v = Suc phase" if "bit ws v" "bit (bs_warp_active ?bs) v" for v
      using ph [of v] eq [of v] that I(7) [of v] by (auto simp: defs bit_simps)
    then have "cta_ok ?bs n ws" using free unfolding cta_ok_def by (intro conjI exI [of _ "Suc phase"]) auto
    then show ?thesis using True m cta by (simp add: defs)
  next
    case False
    show ?thesis by (rule other_cta_ok [OF inv _ cta False]) (use m w in \<open>auto simp: defs bit_simps\<close>)
  qed
next
  note I = barriers_invD [OF inv]
  fix v
  have bits: "bit (bs_at_barrier ?bs) v \<longleftrightarrow> bit (bs_at_barrier bs) v \<and> \<not> (bit ws v \<and> bit (bs_warp_active bs) v \<and> v \<noteq> w)"
    "\<And>b'. bit (bs_bar_id_to_warps ?bs b') v \<longleftrightarrow>
      bit (bs_bar_id_to_warps bs b') v \<and> \<not> (b' = b \<and> bit ws v \<and> bit (bs_warp_active bs) v \<and> v \<noteq> w)"
    using bit_imp_le_length [of "bs_bar_id_to_warps bs b" v] bit_imp_le_length [of "bs_at_barrier bs" v]
    by (auto simp: release_warps_def exited_def bit_simps)
  show "bit (bs_at_barrier ?bs) v \<longleftrightarrow> (\<exists>b. bit (bs_bar_id_to_warps ?bs b) v)"
  proof (cases "bit ws v \<and> bit (bs_warp_active bs) v \<and> v \<noteq> w")
    case True
    then have "bit (bs_bar_id_to_warps bs b) v" using arg_cong [OF full, of "\<lambda>x. bit x v"] by (auto simp: bit_simps exited_def)
    then have "b' = b" if "bit (bs_bar_id_to_warps bs b') v" for b' using I(8) that by blast
    then show ?thesis using True bits by auto
  qed (use bits I(7) [of v] in simp)
  show "bit (bs_at_barrier ?bs) v \<Longrightarrow> bit (bs_warp_active ?bs) v"
    using I(6) [of v] act by (auto simp: release_warps_def exited_def bit_simps)
  show "b1 = b2" if "bit (bs_bar_id_to_warps ?bs b1) v" "bit (bs_bar_id_to_warps ?bs b2) v" for b1 b2
    using that bits I(8) [of _ v] by auto
  show "bs_max_barriers ?bs \<le> b' \<Longrightarrow> bs_bar_id_to_warps ?bs b' = 0" for b'
    using b I(9) by (auto simp: release_warps_def exited_def)
  show "bit (bs_warp_active ?bs) v \<Longrightarrow> \<exists>c ws. map_of (bs_cta_to_warps ?bs) c = Some ws \<and> bit ws v"
    using I(5) [of v] by (auto simp: release_warps_def exited_def bit_simps)
qed (use barriers_invD(1-4) [OF inv] in \<open>simp_all add: release_warps_def exited_def\<close>)

lemma exit_wait_inv:
  assumes inv: "barriers_inv bs n" and cta: "map_of (bs_cta_to_warps bs) cta = Some ws" and w: "bit ws w"
    and act: "bit (bs_warp_active bs) w" "\<not> bit (bs_at_barrier bs) w"
    and part: "\<forall>b < bs_max_barriers bs. ws AND bs_bar_id_to_warps bs b \<noteq> ws AND bs_warp_active (exited w bs) \<or>
      ws AND bs_warp_active (exited w bs) = 0"
  shows "barriers_inv (exited w bs) n"
proof (rule barriers_invI)
  note I = barriers_invD [OF inv]
  fix c ws' assume m: "map_of (bs_cta_to_warps (exited w bs)) c = Some ws'"
  show "cta_ok (exited w bs) n ws'"
  proof (cases "c = cta")
    case c: True
    obtain phase where ph: "\<And>v. bit ws v \<Longrightarrow> bit (bs_warp_active bs) v \<Longrightarrow> n v = phase + of_bool (bit (bs_at_barrier bs) v)"
      using arrival_phase [OF inv cta] by blast
    have "\<forall>v. bit ws v \<longrightarrow> \<not> bit (bs_warp_active (exited w bs)) v"
      if all: "\<forall>v. bit ws v \<longrightarrow> bit (bs_warp_active (exited w bs)) v \<longrightarrow> bit (bs_bar_id_to_warps bs b) v" for b
    proof (cases "b < bs_max_barriers bs")
      case True
      have "ws AND bs_bar_id_to_warps bs b = ws AND bs_warp_active (exited w bs)"
      proof (rule bit_eqI)
        fix v show "bit (ws AND bs_bar_id_to_warps bs b) v = bit (ws AND bs_warp_active (exited w bs)) v"
          using all I(6,7) [of v] act(2) by (auto simp: bit_simps exited_def)
      qed
      then show ?thesis using part True and_disjoint by blast
    next
      case False
      then show ?thesis using all I(9) [of b] by auto
    qed
    then have "cta_ok (exited w bs) n ws" using ph unfolding cta_ok_def
      by (intro conjI exI [of _ phase]) (auto simp: exited_def bit_simps)
    then show ?thesis using c m cta by (simp add: exited_def)
  next
    case False
    show ?thesis by (rule other_cta_ok [OF inv _ cta False]) (use m w in \<open>auto simp: exited_def bit_simps\<close>)
  qed
next
  fix v show "bit (bs_at_barrier (exited w bs)) v \<Longrightarrow> bit (bs_warp_active (exited w bs)) v"
    using barriers_invD(6) [OF inv, of v] act by (auto simp: exited_def bit_simps)
  show "bit (bs_warp_active (exited w bs)) v \<Longrightarrow> \<exists>c ws. map_of (bs_cta_to_warps (exited w bs)) c = Some ws \<and> bit ws v"
    using barriers_invD(5) [OF inv, of v] by (auto simp: exited_def bit_simps)
qed (use barriers_invD(1-4,7-9) [OF inv] in \<open>simp_all add: exited_def\<close>)

lemma exit_inv:
  assumes inv: "barriers_inv bs n" and w: "w < 64" and act: "bit (bs_warp_active bs) w" "\<not> bit (bs_at_barrier bs) w"
  shows "\<exists>bs'. barrier_warp_exit bs w = Some bs' \<and> barriers_inv bs' n"
proof -
  note I = barriers_invD [OF inv]
  obtain cta ws where cta: "map_of (bs_cta_to_warps bs) cta = Some ws" "bit ws w" using I(5) [OF act(1)] by blast
  obtain c' where f: "find (\<lambda>(_, warps). bit warps w) (bs_cta_to_warps bs) = Some (c', ws)" using find_cta [OF inv cta] by blast
  let ?active = "ws AND bs_warp_active (exited w bs)"
  have e: "barrier_warp_exit bs w = Some (release_complete [0 ..< bs_max_barriers bs] ws ?active (exited w bs))"
    using f w by (simp add: barrier_warp_exit_def exited_def Let_def)
  have bars: "bs_bar_id_to_warps (exited w bs) = bs_bar_id_to_warps bs" by (simp add: exited_def)
  show ?thesis
  proof (cases "\<exists>b < bs_max_barriers bs. ws AND bs_bar_id_to_warps bs b = ?active \<and> ?active \<noteq> 0")
    case True
    then obtain b where b: "b < bs_max_barriers bs" "ws AND bs_bar_id_to_warps bs b = ?active" "?active \<noteq> 0" by blast
    obtain v where v: "bit ?active v" using b(3) by (metis bit_0_eq bit_eqI bot_apply bot_bool_def)
    have only: "j = b" if "ws AND bs_bar_id_to_warps bs j = ?active" for j
    proof (rule I(8))
      show "bit (bs_bar_id_to_warps bs j) v" using v unfolding that [symmetric] by (simp add: bit_simps)
      show "bit (bs_bar_id_to_warps bs b) v" using v unfolding b(2) [symmetric] by (simp add: bit_simps)
    qed
    have "release_complete [0 ..< bs_max_barriers bs] ws ?active (exited w bs) = release_warps (exited w bs) b ?active"
    proof (rule release_complete_one)
      show "ws AND bs_bar_id_to_warps (exited w bs) b = ?active" unfolding bars by (rule b(2))
      show "\<forall>j. j \<noteq> b \<longrightarrow> ws AND bs_bar_id_to_warps (exited w bs) j \<noteq> ?active" unfolding bars using only by blast
    qed (use b(1,3) in simp_all)
    then show ?thesis using e exit_complete_inv [OF inv cta act b(2,1)] by simp
  next
    case False
    then have "release_complete [0 ..< bs_max_barriers bs] ws ?active (exited w bs) = exited w bs"
      by (intro release_complete_same) (unfold bars, auto)
    moreover have "barriers_inv (exited w bs) n" by (rule exit_wait_inv [OF inv cta act]) (use False in blast)
    ultimately show ?thesis using e by simp
  qed
qed

lemma dealloc_inv:
  assumes inv: "barriers_inv bs n" and over: "\<And>ws. map_of (bs_cta_to_warps bs) cta = Some ws \<Longrightarrow> ws AND bs_warp_active bs = 0"
  shows "\<exists>bs'. deallocate_barrier bs cta = Some bs' \<and> barriers_inv bs' n"
proof (cases "map_of (bs_cta_to_warps bs) cta")
  case None
  then show ?thesis using inv by (simp add: deallocate_barrier_def)
next
  case (Some ws)
  note I = barriers_invD [OF inv]
  have idle: "\<not> bit (bs_warp_active bs) w" if "bit ws w" for w using over [OF Some] that by (rule and_disjoint)
  have quiet: "\<not> bit (bs_at_barrier bs) w" "\<not> bit (bs_bar_id_to_warps bs b) w" if "bit ws w" for w b
    using I(6,7) [of w] idle [OF that] by blast+
  have "ws AND bs_at_barrier bs = 0" "\<And>i. ws AND bs_bar_id_to_warps bs i = 0" using quiet by (auto intro!: and_eq_0I)
  moreover from this have "clear_barriers bs ws = bs_bar_id_to_warps bs" "bs_at_barrier bs AND NOT ws = bs_at_barrier bs"
    "bs_warp_active bs AND NOT ws = bs_warp_active bs"
    using over [OF Some] by (auto simp: clear_barriers_def and_not_same)
  ultimately have d: "deallocate_barrier bs cta = Some (bs\<lparr>bs_cta_to_warps := AList.delete cta (bs_cta_to_warps bs)\<rparr>)" (is "_ = Some ?bs")
    using Some over [OF Some] by (simp add: deallocate_barrier_def list_all_iff)
  have del: "map_of (bs_cta_to_warps ?bs) = (map_of (bs_cta_to_warps bs))(cta := None)" by simp
  have "barriers_inv ?bs n"
  proof (rule barriers_invI)
    show "std_map (bs_cta_to_warps ?bs)" using I(1)
      by (simp add: std_map_def delete_keys removeAll_filter_not_eq sorted_wrt_filter)
    show "fst ` set (bs_cta_to_warps ?bs) \<subseteq> {..<bs_max_cta ?bs}"
      using subset_trans [OF dom_delete_subset I(2)] by simp
    show "c1 = c2" if "map_of (bs_cta_to_warps ?bs) c1 = Some w1" "map_of (bs_cta_to_warps ?bs) c2 = Some w2" "bit w1 w" "bit w2 w"
      for c1 w1 c2 w2 w using that I(4) unfolding del by (auto split: if_splits)
    show "\<exists>c ws. map_of (bs_cta_to_warps ?bs) c = Some ws \<and> bit ws w" if a: "bit (bs_warp_active ?bs) w" for w
    proof -
      obtain c ws' where c: "map_of (bs_cta_to_warps bs) c = Some ws'" "bit ws' w" using I(5) [of w] a by auto
      then have "c \<noteq> cta" using a idle Some by auto
      then show ?thesis using c unfolding del by auto
    qed
    show "cta_ok ?bs n ws'" if "map_of (bs_cta_to_warps ?bs) c = Some ws'" for c ws'
    proof -
      have "map_of (bs_cta_to_warps bs) c = Some ws'" using that unfolding del by (simp split: if_splits)
      from cta_ok_frame [OF I(10) [OF this]] show ?thesis by simp
    qed
  qed (use I(3,6-9) in simp_all)
  then show ?thesis using d by blast
qed

lemma barrier_step_ok:
  assumes inv: "barriers_inv (bg_set g) (bg_arrivals g)" and ok: "barrier_ok g e"
  shows "\<exists>g'. barrier_step g e = Some g' \<and> barriers_inv (bg_set g') (bg_arrivals g')"
proof (cases e)
  case (Bar_Alloc cta ws)
  then show ?thesis using alloc_inv [OF inv, of cta ws] ok by auto
next
  case (Bar_Reach cta w ty b)
  then obtain ws where ws: "map_of (bs_cta_to_warps (bg_set g)) cta = Some ws" using ok by (auto split: option.splits)
  obtain bs' r where "warp_reaches_barrier (bg_set g) cta w ty b (- 1) = Some (bs', r)"
      "barriers_inv bs' ((bg_arrivals g)(w := Suc (bg_arrivals g w)))"
    using reach_inv [OF inv ws, of w ty b] ok Bar_Reach ws by auto
  then show ?thesis using Bar_Reach by simp
next
  case (Bar_Exit w)
  then show ?thesis using exit_inv [OF inv, of w] ok by auto
next
  case (Bar_Dealloc cta)
  then show ?thesis using dealloc_inv [OF inv, of cta] ok by (auto split: option.splits)
qed

interpretation bars: live_system barrier_step "\<lambda>g. barriers_inv (bg_set g) (bg_arrivals g)" barrier_ok
  by unfold_locales (use barrier_step_ok in fastforce)+

lemma barrier_set_new_inv: "barrier_set_new mw mc mb sz = Some bs \<Longrightarrow> barriers_inv bs n"
  by (auto simp: barrier_set_new_def barriers_inv_def)

section \<open>Properties\<close>

text \<open>
  C5: barriers synchronise: in every run of a core whose warps arrive at barriers of
  their whole CTA, exit, and make room for other CTAs, no operation fails; at any time, the active
  warps of a CTA have arrived equally often since the CTA started, those that wait exactly once
  more than those that run; and no barrier holds all active warps of a CTA, so that the last one to
  arrive, or the exit of the last one missing, has released them.
\<close>

theorem barriers_synchronise:
  assumes "barrier_set_new mw mc mb sz = Some bs"
    and "bars.run_ok \<lparr>bg_set = bs, bg_arrivals = n\<rparr> es"
  shows "\<exists>g. run barrier_step \<lparr>bg_set = bs, bg_arrivals = n\<rparr> es = Some g \<and>
    (\<forall>c ws. map_of (bs_cta_to_warps (bg_set g)) c = Some ws \<longrightarrow> cta_ok (bg_set g) (bg_arrivals g) ws)"
proof -
  have "barriers_inv (bg_set \<lparr>bg_set = bs, bg_arrivals = n\<rparr>) (bg_arrivals \<lparr>bg_set = bs, bg_arrivals = n\<rparr>)"
    using barrier_set_new_inv [OF assms(1)] by simp
  from bars.run_live [OF this assms(2)] show ?thesis using barriers_invD(10) by blast
qed

definition demo_barriers :: barrier_set where
  "demo_barriers = \<lparr>bs_max_cta = 4, bs_max_warps = 8, bs_max_barriers = 2, bs_warp_size = 32, bs_cta_to_warps = [],
     bs_bar_id_to_warps = (\<lambda>_. 0), bs_warp_active = 0, bs_at_barrier = 0\<rparr>"

text \<open>Two CTAs, of three warps and of one; the exit of warp 2 lets the others go on.\<close>

definition demo_barrier_run :: "barrier_event list" where
  "demo_barrier_run = [Bar_Alloc 0 7, Bar_Alloc 1 8, Bar_Reach 0 0 SYNC 0, Bar_Reach 1 3 SYNC 0, Bar_Reach 0 1 SYNC 0, Bar_Exit 2,
     Bar_Reach 0 1 RED 1]"

theorem barriers_synchronise_witness:
  "\<exists>g. run barrier_step \<lparr>bg_set = demo_barriers, bg_arrivals = (\<lambda>_. 0)\<rparr> demo_barrier_run = Some g \<and>
    map_of (bs_cta_to_warps (bg_set g)) 0 = Some 7 \<and> cta_ok (bg_set g) (bg_arrivals g) 7 \<and> bs_at_barrier (bg_set g) = 2"
proof -
  have "barrier_set_new 8 4 2 32 = Some demo_barriers" by (simp add: barrier_set_new_def demo_barriers_def)
  moreover have "bars.run_ok \<lparr>bg_set = demo_barriers, bg_arrivals = (\<lambda>_. 0)\<rparr> demo_barrier_run"
    unfolding bars.run_ok_iff by code_simp
  ultimately obtain g where g: "run barrier_step \<lparr>bg_set = demo_barriers, bg_arrivals = (\<lambda>_. 0)\<rparr> demo_barrier_run = Some g"
    "\<forall>c ws. map_of (bs_cta_to_warps (bg_set g)) c = Some ws \<longrightarrow> cta_ok (bg_set g) (bg_arrivals g) ws"
    using barriers_synchronise by blast
  have "map_option (\<lambda>g. (map_of (bs_cta_to_warps (bg_set g)) 0, bs_at_barrier (bg_set g)))
      (run barrier_step \<lparr>bg_set = demo_barriers, bg_arrivals = (\<lambda>_. 0)\<rparr> demo_barrier_run) = Some (Some 7, 2)"
    by code_simp
  then show ?thesis using g by auto
qed

section \<open>What the model shows of the code\<close>

text \<open>
  A warp that arrives without waiting (\<^verbatim>\<open>ARRIVE\<close>) and exits before the barrier is complete stays in
  the barrier: the barrier has a warp that is not active, and the other warps wait for ever.
\<close>

lemma arrive_and_exit_blocks:
  "map_option (\<lambda>bs. (bs_at_barrier bs, bs_bar_id_to_warps bs 0, bs_warp_active bs))
     (do { bs \<leftarrow> allocate_barrier demo_barriers 0 3;
           (bs, _) \<leftarrow> warp_reaches_barrier bs 0 0 ARRIVE 0 (- 1);
           bs \<leftarrow> barrier_warp_exit bs 0;
           (bs, _) \<leftarrow> warp_reaches_barrier bs 0 1 SYNC 0 (- 1);
           Some bs }) = Some (2, 3, 2)"
  by code_simp

end
