(* ===== verification/Shader_Warp.thy ===== *)
theory Shader_Warp
  imports Scoreboard Simt_Stack Barrier_Set
begin

text \<open>
  The warps of a core (\<^verbatim>\<open>shd_warp_t\<close>, shader.h) with their instruction buffers, and the pipeline
  registers between the stages (\<^verbatim>\<open>register_set\<close>, abstract_hardware_model.h). A failed
  assertion is \<open>None\<close>.
\<close>

section \<open>Instructions in the core\<close>

text \<open>
  The fields of \<^verbatim>\<open>warp_inst_t\<close> that the issue stage reads and writes. \<open>wi_mask\<close> is the mask of the
  lanes that execute it, which \<^verbatim>\<open>issue\<close> sets.
\<close>

record pipe_inst = inst_t +
  wi_pc :: u64
  wi_isize :: u32
  wi_valid :: bool
  wi_isatomic :: bool
  wi_bar_type :: barrier_type
  wi_bar_id :: nat
  wi_bar_count :: u32
  wi_is_cdp :: nat
  wi_is_ldgsts :: bool
  wi_is_ldgdepbar :: bool
  wi_is_depbar :: bool
  wi_depbar_group_no :: u32
  wi_mask :: warp_mask
  wi_uid :: nat
  wi_sch_id :: nat

definition base_inst :: "pipe_inst \<Rightarrow> inst_t" where
  "base_inst i = inst_t.truncate i"

section \<open>Warps\<close>

abbreviation (input) IBUFFER_SIZE :: nat where "IBUFFER_SIZE \<equiv> 2"

record ibuffer_entry =
  ib_inst :: "pipe_inst option"
  ib_valid :: bool

text \<open>\<open>sw_ldgdepbar_buf\<close> keeps the program counters of the grouped asynchronous copies, -1 for a finished one.\<close>

record shd_warp =
  sw_warp_size :: nat
  sw_warp_id :: u32
  sw_dynamic_warp_id :: u32
  sw_cta_id :: nat
  sw_streamID :: u64
  sw_next_pc :: u64
  sw_n_completed :: nat
  sw_active_threads :: warp_mask
  sw_imiss_pending :: bool
  sw_inst_at_barrier :: "pipe_inst option"
  sw_ibuffer :: "ibuffer_entry list"
  sw_next :: nat
  sw_n_atomic :: u32
  sw_membar :: bool
  sw_done_exit :: bool
  sw_last_fetch :: u64
  sw_stores_outstanding :: nat
  sw_inst_in_pipeline :: nat
  sw_cdp_latency :: u32
  sw_cdp_dummy :: bool
  sw_ldgdepbar_id :: u32
  sw_ldgdepbar_buf :: "u64 list list"
  sw_depbar_start_id :: u32
  sw_depbar_group :: u32
  sw_waiting_ldgsts :: bool

text \<open>The part of \<^verbatim>\<open>reset\<close> and \<^verbatim>\<open>init\<close> that concerns asynchronous copies and dynamic parallelism.\<close>

definition reset_async :: "shd_warp \<Rightarrow> shd_warp" where
  "reset_async w = w\<lparr>sw_cdp_latency := 0, sw_cdp_dummy := False, sw_ldgdepbar_id := 0, sw_depbar_start_id := 0,
     sw_depbar_group := 0, sw_waiting_ldgsts := False, sw_ldgdepbar_buf := []\<rparr>"

definition warp_reset :: "shd_warp \<Rightarrow> shd_warp option" where
  "warp_reset w = do {
     guard (sw_stores_outstanding w = 0);
     guard (sw_inst_in_pipeline w = 0);
     Some (reset_async (w\<lparr>sw_imiss_pending := False, sw_warp_id := - 1, sw_dynamic_warp_id := - 1, sw_n_completed := sw_warp_size w,
       sw_n_atomic := 0, sw_membar := False, sw_done_exit := True, sw_last_fetch := 0, sw_next := 0, sw_streamID := - 1\<rparr>)) }"

definition warp_init :: "shd_warp \<Rightarrow> u64 \<Rightarrow> nat \<Rightarrow> u32 \<Rightarrow> warp_mask \<Rightarrow> u32 \<Rightarrow> u64 \<Rightarrow> shd_warp option" where
  "warp_init w start_pc cta_id wid active dynamic_warp_id streamID = do {
     guard (bcount active \<le> sw_n_completed w);
     guard (sw_n_completed w \<le> sw_warp_size w);
     Some (reset_async (w\<lparr>sw_streamID := streamID, sw_cta_id := cta_id, sw_warp_id := wid, sw_dynamic_warp_id := dynamic_warp_id,
       sw_next_pc := start_pc, sw_n_completed := sw_n_completed w - bcount active, sw_active_threads := active,
       sw_done_exit := False\<rparr>)) }"

definition functional_done :: "shd_warp \<Rightarrow> bool" where
  "functional_done w \<longleftrightarrow> sw_n_completed w = sw_warp_size w"

definition stores_done :: "shd_warp \<Rightarrow> bool" where
  "stores_done w \<longleftrightarrow> sw_stores_outstanding w = 0"

definition inst_in_pipeline :: "shd_warp \<Rightarrow> bool" where
  "inst_in_pipeline w \<longleftrightarrow> 0 < sw_inst_in_pipeline w"

definition hardware_done :: "shd_warp \<Rightarrow> bool" where
  "hardware_done w \<longleftrightarrow> functional_done w \<and> stores_done w \<and> \<not> inst_in_pipeline w"

definition set_completed :: "shd_warp \<Rightarrow> nat \<Rightarrow> shd_warp option" where
  "set_completed w lane = do {
     guard (bit (sw_active_threads w) lane);
     Some (w\<lparr>sw_active_threads := unset_bit lane (sw_active_threads w), sw_n_completed := Suc (sw_n_completed w)\<rparr>) }"

definition dec_store_req :: "shd_warp \<Rightarrow> shd_warp option" where
  "dec_store_req w = do {
     guard (0 < sw_stores_outstanding w);
     Some (w\<lparr>sw_stores_outstanding := sw_stores_outstanding w - 1\<rparr>) }"

definition dec_inst_in_pipeline :: "shd_warp \<Rightarrow> shd_warp option" where
  "dec_inst_in_pipeline w = do {
     guard (0 < sw_inst_in_pipeline w);
     Some (w\<lparr>sw_inst_in_pipeline := sw_inst_in_pipeline w - 1\<rparr>) }"

section \<open>The instruction buffer\<close>

definition ibuffer_fill :: "shd_warp \<Rightarrow> nat \<Rightarrow> pipe_inst option \<Rightarrow> shd_warp option" where
  "ibuffer_fill w slot pI = do {
     guard (slot < IBUFFER_SIZE);
     Some (w\<lparr>sw_ibuffer := (sw_ibuffer w)[slot := \<lparr>ib_inst = pI, ib_valid = True\<rparr>], sw_next := 0\<rparr>) }"

definition ibuffer_empty :: "shd_warp \<Rightarrow> bool" where
  "ibuffer_empty w \<longleftrightarrow> list_all (\<lambda>i. \<not> ib_valid (sw_ibuffer w ! i)) [0 ..< IBUFFER_SIZE]"

fun flush_slots :: "nat list \<Rightarrow> shd_warp \<Rightarrow> shd_warp option" where
  "flush_slots [] w = Some w"
| "flush_slots (i # is) w = do {
     w \<leftarrow> (if ib_valid (sw_ibuffer w ! i) then dec_inst_in_pipeline w else Some w);
     flush_slots is (w\<lparr>sw_ibuffer := (sw_ibuffer w)[i := \<lparr>ib_inst = None, ib_valid = False\<rparr>]\<rparr>) }"

definition ibuffer_flush :: "shd_warp \<Rightarrow> shd_warp option" where
  "ibuffer_flush w = flush_slots [0 ..< IBUFFER_SIZE] w"

definition ibuffer_next_inst :: "shd_warp \<Rightarrow> pipe_inst option" where
  "ibuffer_next_inst w = ib_inst (sw_ibuffer w ! sw_next w)"

definition ibuffer_next_valid :: "shd_warp \<Rightarrow> bool" where
  "ibuffer_next_valid w = ib_valid (sw_ibuffer w ! sw_next w)"

definition ibuffer_free :: "shd_warp \<Rightarrow> shd_warp" where
  "ibuffer_free w = w\<lparr>sw_ibuffer := (sw_ibuffer w)[sw_next w := \<lparr>ib_inst = None, ib_valid = False\<rparr>]\<rparr>"

definition ibuffer_step :: "shd_warp \<Rightarrow> shd_warp" where
  "ibuffer_step w = w\<lparr>sw_next := (sw_next w + 1) mod IBUFFER_SIZE\<rparr>"

definition num_inst_in_buffer :: "shd_warp \<Rightarrow> nat" where
  "num_inst_in_buffer w = length (filter (\<lambda>i. ib_valid (sw_ibuffer w ! i)) [0 ..< IBUFFER_SIZE])"

definition num_issued_inst_in_pipeline :: "shd_warp \<Rightarrow> nat" where
  "num_issued_inst_in_pipeline w = sw_inst_in_pipeline w - num_inst_in_buffer w"

text \<open>What the decoder puts in: the first instruction and, if there is one, the second.\<close>

definition decode_fill :: "shd_warp \<Rightarrow> pipe_inst option \<Rightarrow> pipe_inst option \<Rightarrow> shd_warp option" where
  "decode_fill w pI1 pI2 = do {
     w \<leftarrow> ibuffer_fill w 0 pI1;
     let w = w\<lparr>sw_inst_in_pipeline := Suc (sw_inst_in_pipeline w)\<rparr>;
     (if pI1 \<noteq> None \<and> pI2 \<noteq> None then do {
        w \<leftarrow> ibuffer_fill w 1 pI2;
        Some (w\<lparr>sw_inst_in_pipeline := Suc (sw_inst_in_pipeline w)\<rparr>) }
      else Some w) }"

section \<open>Pipeline registers\<close>

text \<open>A register set; an empty register is \<open>None\<close>.\<close>

type_synonym register_set = "pipe_inst option list"

text \<open>The register that an instruction of scheduler \<open>reg_id\<close> may take: any, or its own with sub-cores.\<close>

definition free_reg :: "register_set \<Rightarrow> bool \<Rightarrow> nat \<Rightarrow> nat option option" where
  "free_reg regs sub_core_model reg_id =
    (if \<not> sub_core_model then Some (find (\<lambda>i. regs ! i = None) [0 ..< length regs])
     else if reg_id < length regs then Some (if regs ! reg_id = None then Some reg_id else None) else None)"

definition has_free :: "register_set \<Rightarrow> bool \<Rightarrow> nat \<Rightarrow> bool option" where
  "has_free regs sub_core_model reg_id = map_option (\<lambda>r. r \<noteq> None) (free_reg regs sub_core_model reg_id)"

definition get_free :: "register_set \<Rightarrow> bool \<Rightarrow> nat \<Rightarrow> nat option" where
  "get_free regs sub_core_model reg_id = Option.bind (free_reg regs sub_core_model reg_id) (\<lambda>r. r)"

text \<open>The oldest instruction of the set, the later register on a tie.\<close>

fun older_ready :: "register_set \<Rightarrow> nat list \<Rightarrow> nat option \<Rightarrow> nat option" where
  "older_ready regs [] best = best"
| "older_ready regs (i # is) best = older_ready regs is (case regs ! i of
       None \<Rightarrow> best
     | Some x \<Rightarrow> (case best of
           None \<Rightarrow> Some i
         | Some j \<Rightarrow> if wi_uid (the (regs ! j)) < wi_uid x then best else Some i))"

definition get_ready :: "register_set \<Rightarrow> bool \<Rightarrow> nat \<Rightarrow> nat option option" where
  "get_ready regs sub_core_model reg_id =
    (if \<not> sub_core_model then Some (older_ready regs [0 ..< length regs] None)
     else if reg_id < length regs then Some (if regs ! reg_id \<noteq> None then Some reg_id else None) else None)"

definition has_ready :: "register_set \<Rightarrow> bool \<Rightarrow> nat \<Rightarrow> bool option" where
  "has_ready regs sub_core_model reg_id =
    (if \<not> sub_core_model then Some (list_ex (\<lambda>r. r \<noteq> None) regs)
     else if reg_id < length regs then Some (regs ! reg_id \<noteq> None) else None)"

definition move_in :: "register_set \<Rightarrow> bool \<Rightarrow> nat \<Rightarrow> pipe_inst \<Rightarrow> register_set option" where
  "move_in regs sub_core_model reg_id src = do {
     i \<leftarrow> get_free regs sub_core_model reg_id;
     Some (regs[i := Some src]) }"

definition move_out :: "register_set \<Rightarrow> bool \<Rightarrow> nat \<Rightarrow> (pipe_inst \<times> register_set) option" where
  "move_out regs sub_core_model reg_id = do {
     r \<leftarrow> get_ready regs sub_core_model reg_id;
     i \<leftarrow> r;
     x \<leftarrow> regs ! i;
     Some (x, regs[i := None]) }"

section \<open>The count of instructions in the pipeline\<close>

text \<open>The buffer is part of the pipeline: every valid entry is counted.\<close>

definition warp_ok :: "shd_warp \<Rightarrow> bool" where
  "warp_ok w \<longleftrightarrow> length (sw_ibuffer w) = IBUFFER_SIZE \<and> sw_next w < IBUFFER_SIZE \<and>
     num_inst_in_buffer w \<le> sw_inst_in_pipeline w \<and>
     list_all (\<lambda>e. ib_inst e \<noteq> None \<longrightarrow> ib_valid e) (sw_ibuffer w) \<and>
     bcount (sw_active_threads w) + sw_n_completed w = sw_warp_size w"

lemma two_slots: "length xs = 2 \<Longrightarrow> \<exists>a b. xs = [a, b]"
  by (cases xs; cases "tl xs") auto

lemma num_inst_slots: "sw_ibuffer w = [a, b] \<Longrightarrow> num_inst_in_buffer w = of_bool (ib_valid a) + of_bool (ib_valid b)"
  by (simp add: num_inst_in_buffer_def numeral_2_eq_2)

lemma flush_ok:
  assumes "warp_ok w"
  shows "ibuffer_flush w = Some (w\<lparr>sw_ibuffer := replicate 2 \<lparr>ib_inst = None, ib_valid = False\<rparr>,
      sw_inst_in_pipeline := num_issued_inst_in_pipeline w\<rparr>)"
proof -
  obtain a b where ab: "sw_ibuffer w = [a, b]" using assms two_slots [of "sw_ibuffer w"] by (auto simp: warp_ok_def)
  have "num_inst_in_buffer w \<le> sw_inst_in_pipeline w" using assms by (simp add: warp_ok_def)
  then show ?thesis using num_inst_slots [OF ab] ab
    by (cases "ib_valid a"; cases "ib_valid b")
      (simp_all add: ibuffer_flush_def num_issued_inst_in_pipeline_def dec_inst_in_pipeline_def numeral_2_eq_2)
qed

end
