(* ===== verification/Warp_Scheduler.thy ===== *)
theory Warp_Scheduler
  imports Shader_Warp
begin

text \<open>
  The warp schedulers of a core (\<^verbatim>\<open>scheduler_unit\<close> and its subclasses, shader.h and shader.cc) and the
  issue of an instruction (\<^verbatim>\<open>shader_core_ctx::issue_warp\<close>).

  A pointer to a warp is its index in \<^verbatim>\<open>m_warp\<close>, an iterator its position in the list. The functional
  simulator is the parameter \<open>exec\<close>: it executes an instruction for the lanes of a mask on the state of the
  threads \<open>'x\<close> and tells which lanes of the warp have finished, where the others continue, and the
  reconvergence point. The memory accesses of an issued instruction are those of \<open>Coalescer\<close>; statistics
  and trace output are left out. A failed assertion and an access out of range are \<open>None\<close>.
\<close>

section \<open>The core\<close>

record issue_config =
  cc_warp_size :: nat
  cc_sub_core_model :: bool
  cc_max_insn_issue_per_warp :: nat
  cc_dual_issue_diff_exec_units :: bool
  cc_num_sp_units :: nat
  cc_num_int_units :: nat
  cc_num_dp_units :: nat
  cc_num_sfu_units :: nat
  cc_num_tensor_core_units :: nat
  cc_specialized_units :: "nat list"
  cc_flush_l1 :: bool
  cc_cdp_latency :: "u32 list"

datatype exec_unit_type = NONE | SP | SFU | MEM | DP | INT_unit | TENSOR | SPECIALIZED

text \<open>The register sets between the schedulers and the operand collectors.\<close>

datatype out_pipe = Mem_out | Sp_out | Dp_out | Sfu_out | Int_out | Tensor_core_out | Spec_cores_out nat

record 'x core =
  co_warps :: "shd_warp list"
  co_scoreboard :: scoreboard
  co_simt_stacks :: "simt_stack list"
  co_barriers :: barrier_set
  co_threads :: 'x
  co_pipes :: "out_pipe \<Rightarrow> register_set"
  co_next_uid :: nat
  co_l1_invalidations :: nat

record exec_result =
  ex_done :: warp_mask
  ex_next_pc :: "u64 list"
  ex_recvg_pc :: u64

type_synonym 'x exec = "'x \<Rightarrow> pipe_inst \<Rightarrow> warp_mask \<Rightarrow> nat \<Rightarrow> exec_result \<times> 'x"

definition upd_warp :: "nat \<Rightarrow> shd_warp \<Rightarrow> 'x core \<Rightarrow> 'x core" where
  "upd_warp wid w co = co\<lparr>co_warps := (co_warps co)[wid := w]\<rparr>"

section \<open>Warps that wait\<close>

text \<open>A memory fence holds a warp until its writes are done; then the flag is cleared.\<close>

definition warp_waiting_at_mem_barrier :: "issue_config \<Rightarrow> 'x core \<Rightarrow> nat \<Rightarrow> bool \<times> 'x core" where
  "warp_waiting_at_mem_barrier cfg co wid = (let w = co_warps co ! wid in
     if \<not> sw_membar w then (False, co)
     else if \<not> pendingWrites (co_scoreboard co) wid then
       (False, (upd_warp wid (w\<lparr>sw_membar := False\<rparr>) co)
          \<lparr>co_l1_invalidations := co_l1_invalidations co + (if cc_flush_l1 cfg then 1 else 0)\<rparr>)
     else (True, co))"

definition warp_waiting :: "issue_config \<Rightarrow> 'x core \<Rightarrow> nat \<Rightarrow> (bool \<times> 'x core) option" where
  "warp_waiting cfg co wid = (let w = co_warps co ! wid in
     if functional_done w then Some (True, co)
     else do {
       b \<leftarrow> warp_waiting_at_barrier (co_barriers co) (unat (sw_warp_id w));
       (if b then Some (True, co)
        else let (m, co) = warp_waiting_at_mem_barrier cfg co wid
          in Some (m \<or> sw_n_atomic w \<noteq> 0 \<or> sw_waiting_ldgsts w, co)) })"

text \<open>
  Its value without the effect, for the orders: the effect clears the flag of a fence that is over, which does not
  change any later answer, and a warp that is tried has it cleared before it issues.
\<close>

definition is_waiting :: "issue_config \<Rightarrow> 'x core \<Rightarrow> nat \<Rightarrow> bool option" where
  "is_waiting cfg co wid = map_option fst (warp_waiting cfg co wid)"

section \<open>Issue\<close>

text \<open>What the execution of each active lane does to the warp.\<close>

fun complete_lanes :: "pipe_inst \<Rightarrow> warp_mask \<Rightarrow> nat list \<Rightarrow> shd_warp \<Rightarrow> shd_warp option" where
  "complete_lanes inst finished [] w = Some w"
| "complete_lanes inst finished (t # ts) w =
    (if bit (wi_mask inst) t then do {
       let w = (if wi_isatomic inst then w\<lparr>sw_n_atomic := sw_n_atomic w + 1\<rparr> else w);
       w \<leftarrow> (if bit finished t then Option.bind (set_completed w t) ibuffer_flush else Some w);
       complete_lanes inst finished ts w }
     else complete_lanes inst finished ts w)"

text \<open>The last lane that exits takes its warp out of the barriers.\<close>

definition func_exec_inst :: "'x exec \<Rightarrow> issue_config \<Rightarrow> 'x core \<Rightarrow> pipe_inst \<Rightarrow> nat \<Rightarrow> (exec_result \<times> 'x core) option" where
  "func_exec_inst exec cfg co inst wid = do {
     let (r, threads) = exec (co_threads co) inst (wi_mask inst) wid;
     let lanes = [0 ..< cc_warp_size cfg];
     w \<leftarrow> complete_lanes inst (ex_done r) lanes (co_warps co ! wid);
     bars \<leftarrow> (if list_ex (\<lambda>t. bit (wi_mask inst) t \<and> bit (ex_done r) t) lanes \<and> list_all (bit (ex_done r)) lanes
             then barrier_warp_exit (co_barriers co) wid else Some (co_barriers co));
     Some (r, (upd_warp wid w co)\<lparr>co_threads := threads, co_barriers := bars\<rparr>) }"

text \<open>Asynchronous copies are put into the group that the next \<^verbatim>\<open>LDGDEPBAR\<close> closes.\<close>

definition note_ldgsts :: "pipe_inst \<Rightarrow> shd_warp \<Rightarrow> shd_warp option" where
  "note_ldgsts inst w =
    (if \<not> wi_is_ldgsts inst then Some w
     else let pc = (if wi_mask inst = 0 then - 1 else wi_pc inst); g = sw_ldgdepbar_buf w; i = unat (sw_ldgdepbar_id w) in
       if length g = i + 1 then Some (w\<lparr>sw_ldgdepbar_buf := g[i := g ! i @ [pc]]\<rparr>)
       else if length g < i + 1 then Some (w\<lparr>sw_ldgdepbar_buf := g @ [[pc]]\<rparr>)
       else None)"

text \<open>\<^verbatim>\<open>DEPBAR\<close> waits for the groups before the last ones; \<open>i\<close> runs up to \<open>end_group\<close>.\<close>

fun groups_done :: "u64 list list \<Rightarrow> nat \<Rightarrow> nat \<Rightarrow> bool option" where
  "groups_done g i 0 = Some True"
| "groups_done g i (Suc n) = (if i < length g then (if list_all (\<lambda>pc. pc = - 1) (g ! i) then groups_done g (Suc i) n else Some False)
     else None)"

definition note_depbar :: "pipe_inst \<Rightarrow> shd_warp \<Rightarrow> shd_warp option" where
  "note_depbar inst w = do {
     d \<leftarrow> groups_done (sw_ldgdepbar_buf w) 0 (unat (sw_ldgdepbar_id w - wi_depbar_group_no inst));
     Some (w\<lparr>sw_waiting_ldgsts := \<not> d, sw_depbar_group := wi_depbar_group_no inst,
       sw_depbar_start_id := sw_ldgdepbar_id w - 1\<rparr>) }"

definition note_ldgdepbar :: "shd_warp \<Rightarrow> shd_warp option" where
  "note_ldgdepbar w = (let g = sw_ldgdepbar_buf w; i = unat (sw_ldgdepbar_id w) in do {
     g \<leftarrow> (if length g = i + 1 then Some g else if length g < i + 1 then Some (g @ [[]]) else None);
     Some (w\<lparr>sw_ldgdepbar_id := sw_ldgdepbar_id w + 1, sw_ldgdepbar_buf := g\<rparr>) })"

text \<open>What a synchronising instruction does to its warp and the barriers.\<close>

definition sync_effect :: "barrier_set \<Rightarrow> pipe_inst \<Rightarrow> pipe_inst \<Rightarrow> nat \<Rightarrow> shd_warp \<Rightarrow> (shd_warp \<times> barrier_set) option" where
  "sync_effect bars next_inst pipe_reg wid w =
    (if i_op next_inst = BARRIER_OP then
       map_option (\<lambda>(bars, _). (w\<lparr>sw_inst_at_barrier := Some pipe_reg\<rparr>, bars))
         (warp_reaches_barrier bars (sw_cta_id w) wid (wi_bar_type next_inst) (wi_bar_id next_inst) (wi_bar_count next_inst))
     else if i_op next_inst = MEMORY_BARRIER_OP then Some (w\<lparr>sw_membar := True\<rparr>, bars)
     else if wi_is_ldgdepbar next_inst then map_option (\<lambda>w. (w, bars)) (note_ldgdepbar w)
     else if wi_is_depbar next_inst then map_option (\<lambda>w. (w, bars)) (note_depbar next_inst w)
     else Some (w, bars))"

definition note_synchronisation :: "'x core \<Rightarrow> pipe_inst \<Rightarrow> pipe_inst \<Rightarrow> nat \<Rightarrow> 'x core option" where
  "note_synchronisation co next_inst pipe_reg wid =
    map_option (\<lambda>(w, bars). (upd_warp wid w co)\<lparr>co_barriers := bars\<rparr>)
      (sync_effect (co_barriers co) next_inst pipe_reg wid (co_warps co ! wid))"

definition updateSIMTStack :: "issue_config \<Rightarrow> u64 \<Rightarrow> 'x core \<Rightarrow> exec_result \<Rightarrow> pipe_inst \<Rightarrow> nat \<Rightarrow> 'x core option" where
  "updateSIMTStack cfg now co r inst wid = do {
     let next_pc = map (\<lambda>i. if bit (ex_done r) i then - 1 else ex_next_pc r ! i) [0 ..< cc_warp_size cfg];
     (stk, _) \<leftarrow> simt_update (cc_warp_size cfg) now (co_simt_stacks co ! wid) (ex_done r) next_pc (ex_recvg_pc r) (i_op inst)
        (wi_isize inst) (wi_pc inst);
     Some (co\<lparr>co_simt_stacks := (co_simt_stacks co)[wid := stk]\<rparr>) }"

text \<open>The copy of the instruction in the pipeline register.\<close>

definition issued_to :: "pipe_inst \<Rightarrow> warp_mask \<Rightarrow> nat \<Rightarrow> nat \<Rightarrow> 'x core \<Rightarrow> pipe_inst" where
  "issued_to inst am wid sch co = inst\<lparr>i_warp_id := wid, wi_mask := am, wi_uid := Suc (co_next_uid co), wi_sch_id := sch\<rparr>"

definition enter_pipe :: "out_pipe \<Rightarrow> nat \<Rightarrow> pipe_inst \<Rightarrow> 'x core \<Rightarrow> 'x core" where
  "enter_pipe pipe reg pipe_reg co = co\<lparr>co_pipes := (co_pipes co)(pipe := (co_pipes co pipe)[reg := Some pipe_reg]),
     co_next_uid := Suc (co_next_uid co)\<rparr>"

definition issue_warp :: "'x exec \<Rightarrow> issue_config \<Rightarrow> u64 \<Rightarrow> 'x core \<Rightarrow> out_pipe \<Rightarrow> pipe_inst \<Rightarrow> warp_mask \<Rightarrow> nat \<Rightarrow> nat \<Rightarrow>
    'x core option" where
  "issue_warp exec cfg now co pipe next_inst active_mask wid sch_id = do {
     reg \<leftarrow> get_free (co_pipes co pipe) (cc_sub_core_model cfg) sch_id;
     guard (wi_valid next_inst);
     let pipe_reg = issued_to next_inst active_mask wid sch_id co;
     let co = enter_pipe pipe reg pipe_reg (upd_warp wid (ibuffer_free (co_warps co ! wid)) co);
     (r, co) \<leftarrow> func_exec_inst exec cfg co pipe_reg wid;
     w \<leftarrow> note_ldgsts next_inst (co_warps co ! wid);
     co \<leftarrow> note_synchronisation (upd_warp wid w co) next_inst pipe_reg wid;
     co \<leftarrow> updateSIMTStack cfg now co r pipe_reg wid;
     sb \<leftarrow> reserveRegisters (co_scoreboard co) (base_inst pipe_reg);
     let w = co_warps co ! wid;
     Some ((upd_warp wid (w\<lparr>sw_next_pc := wi_pc next_inst + ucast (wi_isize next_inst)\<rparr>) co)\<lparr>co_scoreboard := sb\<rparr>) }"

section \<open>The execution unit of an instruction\<close>

definition spec_unit :: "op_type \<Rightarrow> nat option" where
  "spec_unit op = (case op of SPECIALIZED_UNIT_1_OP \<Rightarrow> Some 0 | SPECIALIZED_UNIT_2_OP \<Rightarrow> Some 1 | SPECIALIZED_UNIT_3_OP \<Rightarrow> Some 2
     | SPECIALIZED_UNIT_4_OP \<Rightarrow> Some 3 | SPECIALIZED_UNIT_5_OP \<Rightarrow> Some 4 | SPECIALIZED_UNIT_6_OP \<Rightarrow> Some 5
     | SPECIALIZED_UNIT_7_OP \<Rightarrow> Some 6 | SPECIALIZED_UNIT_8_OP \<Rightarrow> Some 7 | _ \<Rightarrow> None)"

definition pipe_avail :: "issue_config \<Rightarrow> 'x core \<Rightarrow> nat \<Rightarrow> out_pipe \<Rightarrow> nat \<Rightarrow> bool option" where
  "pipe_avail cfg co units pipe sch_id =
    (if units = 0 then Some False else has_free (co_pipes co pipe) (cc_sub_core_model cfg) sch_id)"

text \<open>The unit that a scheduler would issue to, when it is available; \<open>prev\<close> is the unit of the warp's previous issue in this cycle.\<close>

definition select_unit :: "issue_config \<Rightarrow> 'x core \<Rightarrow> nat \<Rightarrow> exec_unit_type \<Rightarrow> op_type \<Rightarrow> (out_pipe \<times> exec_unit_type) option option" where
  "select_unit cfg co sch_id prev op = (let
       again = (\<lambda>u. cc_dual_issue_diff_exec_units cfg \<and> prev = u);
       take_if = (\<lambda>avail pipe u. map_option (\<lambda>b. if b then Some (pipe, u) else None) avail) in
     if op \<in> {LOAD_OP, STORE_OP, MEMORY_BARRIER_OP, TENSOR_CORE_LOAD_OP, TENSOR_CORE_STORE_OP} then
       take_if (map_option (\<lambda>b. b \<and> \<not> again MEM) (has_free (co_pipes co Mem_out) (cc_sub_core_model cfg) sch_id)) Mem_out MEM
     else if op \<noteq> TENSOR_CORE_OP \<and> op \<noteq> SFU_OP \<and> op \<noteq> DP_OP \<and> spec_unit op = None then do {
       sp_pipe_avail \<leftarrow> pipe_avail cfg co (cc_num_sp_units cfg) Sp_out sch_id;
       int_pipe_avail \<leftarrow> pipe_avail cfg co (cc_num_int_units cfg) Int_out sch_id;
       Some (if 0 < cc_num_int_units cfg \<and> int_pipe_avail \<and> op \<noteq> SP_OP \<and> \<not> again INT_unit then Some (Int_out, INT_unit)
             else if sp_pipe_avail \<and> (cc_num_int_units cfg = 0 \<or> op = SP_OP) \<and> \<not> again SP then Some (Sp_out, SP)
             else None) }
     else if 0 < cc_num_dp_units cfg \<and> op = DP_OP \<and> \<not> again DP then
       take_if (pipe_avail cfg co (cc_num_dp_units cfg) Dp_out sch_id) Dp_out DP
     else if (cc_num_dp_units cfg = 0 \<and> op = DP_OP \<or> op = SFU_OP \<or> op = ALU_SFU_OP) \<and> \<not> again SFU then
       take_if (pipe_avail cfg co (cc_num_sfu_units cfg) Sfu_out sch_id) Sfu_out SFU
     else if op = TENSOR_CORE_OP \<and> \<not> again TENSOR then
       take_if (pipe_avail cfg co (cc_num_tensor_core_units cfg) Tensor_core_out sch_id) Tensor_core_out TENSOR
     else (case spec_unit op of
         Some spec_id \<Rightarrow>
           if again SPECIALIZED then Some None
           else do {
             guard (spec_id < length (cc_specialized_units cfg));
             take_if (pipe_avail cfg co (cc_specialized_units cfg ! spec_id) (Spec_cores_out spec_id) sch_id)
               (Spec_cores_out spec_id) SPECIALIZED }
       | None \<Rightarrow> Some None))"

section \<open>The orders\<close>

text \<open>A supervised warp with what the orders read of it.\<close>

datatype scheduler_kind = LRR | RRR | GTO | OLDEST | TWO_LEVEL nat nat nat | SWL nat

abbreviation (input) SCHEDULER_PRIORITIZATION_LRR :: nat where "SCHEDULER_PRIORITIZATION_LRR \<equiv> 0"
abbreviation (input) SCHEDULER_PRIORITIZATION_SRR :: nat where "SCHEDULER_PRIORITIZATION_SRR \<equiv> 1"

text \<open>\<open>su_last\<close> is the position of \<^verbatim>\<open>m_last_supervised_issued\<close>, the length of the list for \<^verbatim>\<open>end()\<close>.\<close>

record scheduler =
  su_kind :: scheduler_kind
  su_id :: nat
  su_prioritized :: "nat list"
  su_supervised :: "nat list"
  su_last :: nat
  su_pending :: "nat list"
  su_num_issued_last_cycle :: nat
  su_current_turn_warp :: nat

definition add_supervised_warp_id :: "scheduler \<Rightarrow> nat \<Rightarrow> scheduler" where
  "add_supervised_warp_id su i = (case su_kind su of
       TWO_LEVEL max_active _ _ \<Rightarrow>
         if length (su_prioritized su) < max_active then su\<lparr>su_prioritized := su_prioritized su @ [i]\<rparr>
         else su\<lparr>su_pending := su_pending su @ [i]\<rparr>
     | _ \<Rightarrow> su\<lparr>su_supervised := su_supervised su @ [i]\<rparr>)"

definition done_adding_supervised_warps :: "scheduler \<Rightarrow> scheduler" where
  "done_adding_supervised_warps su = su\<lparr>su_last := (case su_kind su of
       LRR \<Rightarrow> length (su_supervised su) | RRR \<Rightarrow> length (su_supervised su) | _ \<Rightarrow> 0)\<rparr>"

text \<open>The list from the element after the last one issued, around its end.\<close>

definition after_last :: "'a list \<Rightarrow> nat \<Rightarrow> nat \<Rightarrow> 'a list" where
  "after_last xs pos n = (let start = (if pos = length xs then 0 else pos + 1) in
     map (\<lambda>count. xs ! ((start + count) mod length xs)) [0 ..< n])"

definition order_lrr :: "'a list \<Rightarrow> nat \<Rightarrow> nat \<Rightarrow> 'a list option" where
  "order_lrr input_list last_issued num_warps_to_add = do {
     guard (num_warps_to_add \<le> length input_list);
     Some (after_last input_list last_issued num_warps_to_add) }"

definition may_run :: "issue_config \<Rightarrow> 'x core \<Rightarrow> nat \<Rightarrow> bool option" where
  "may_run cfg co p = (if sw_done_exit (co_warps co ! p) then Some False else map_option Not (is_waiting cfg co p))"

fun find_runnable :: "issue_config \<Rightarrow> 'x core \<Rightarrow> nat list \<Rightarrow> nat option option" where
  "find_runnable cfg co [] = Some None"
| "find_runnable cfg co (p # ps) = do {
     b \<leftarrow> may_run cfg co p;
     (if b then Some (Some p) else find_runnable cfg co ps) }"

definition order_rrr :: "issue_config \<Rightarrow> 'x core \<Rightarrow> scheduler \<Rightarrow> scheduler option" where
  "order_rrr cfg co su = do {
     next_turn \<leftarrow> (if 0 < su_num_issued_last_cycle su then Some True else map_option Not (may_run cfg co (su_current_turn_warp su)));
     (if next_turn then do {
        f \<leftarrow> find_runnable cfg co (after_last (su_supervised su) (su_last su) (length (su_supervised su)));
        Some (case f of
            None \<Rightarrow> su\<lparr>su_prioritized := []\<rparr>
          | Some p \<Rightarrow> su\<lparr>su_prioritized := [p], su_current_turn_warp := unat (sw_warp_id (co_warps co ! p))\<rparr>) }
      else Some (su\<lparr>su_prioritized := [su_current_turn_warp su]\<rparr>)) }"

text \<open>
  \<^verbatim>\<open>sort_warps_by_oldest_dynamic_id\<close> and \<^verbatim>\<open>std::sort\<close> with it. The order of warps that neither precedes
  (those that wait or have exited) is left open by \<^verbatim>\<open>std::sort\<close>; here it is that of the list.
\<close>

definition older :: "issue_config \<Rightarrow> 'x core \<Rightarrow> nat \<Rightarrow> nat \<Rightarrow> bool" where
  "older cfg co p q = (if may_run cfg co p \<noteq> Some True then False
     else if may_run cfg co q \<noteq> Some True then True
     else sw_dynamic_warp_id (co_warps co ! p) < sw_dynamic_warp_id (co_warps co ! q))"

fun insert_by :: "('a \<Rightarrow> 'a \<Rightarrow> bool) \<Rightarrow> 'a \<Rightarrow> 'a list \<Rightarrow> 'a list" where
  "insert_by before x [] = [x]"
| "insert_by before x (y # ys) = (if before y x then y # insert_by before x ys else x # y # ys)"

definition std_sort :: "('a \<Rightarrow> 'a \<Rightarrow> bool) \<Rightarrow> 'a list \<Rightarrow> 'a list" where
  "std_sort before xs = foldr (insert_by before) xs []"

definition order_by_priority :: "('a \<Rightarrow> 'a \<Rightarrow> bool) \<Rightarrow> bool \<Rightarrow> 'a list \<Rightarrow> nat \<Rightarrow> nat \<Rightarrow> 'a list option" where
  "order_by_priority before greedy input_list last_issued num_warps_to_add = do {
     guard (num_warps_to_add \<le> length input_list);
     let temp = take num_warps_to_add (std_sort before input_list);
     (if greedy then do {
        guard (last_issued < length input_list);
        let greedy_value = input_list ! last_issued;
        Some (greedy_value # filter (\<lambda>x. x \<noteq> greedy_value) temp) }
      else Some temp) }"

text \<open>
  The two-level scheduler moves warps that wait, or whose next instruction reads a register of a
  long-latency load, to the pending list, and fills up from its front.
\<close>

definition stalled :: "issue_config \<Rightarrow> 'x core \<Rightarrow> nat \<Rightarrow> bool option" where
  "stalled cfg co p = do {
     b \<leftarrow> is_waiting cfg co p;
     let w = co_warps co ! p;
     Some (b \<or> (case ibuffer_next_inst w of
         None \<Rightarrow> False
       | Some inst \<Rightarrow> list_ex (\<lambda>r. 0 < r \<and> islongop (co_scoreboard co) (unat (sw_warp_id w)) r) (take MAX_INPUT_VALUES (i_in inst)))) }"

fun demote :: "issue_config \<Rightarrow> 'x core \<Rightarrow> nat list \<Rightarrow> (nat list \<times> nat list) option" where
  "demote cfg co [] = Some ([], [])"
| "demote cfg co (p # ps) = do {
     s \<leftarrow> stalled cfg co p;
     (active, moved) \<leftarrow> demote cfg co ps;
     Some (if s then (active, p # moved) else (p # active, moved)) }"

definition order_two_level :: "issue_config \<Rightarrow> 'x core \<Rightarrow> scheduler \<Rightarrow> nat \<Rightarrow> nat \<Rightarrow> scheduler option" where
  "order_two_level cfg co su max_active outer = do {
     (active, moved) \<leftarrow> demote cfg co (su_prioritized su);
     let pending = su_pending su @ moved;
     guard (outer = SCHEDULER_PRIORITIZATION_SRR);
     let n = max_active - length active;
     guard (n \<le> length pending);
     guard (n = length moved);
     Some (su\<lparr>su_prioritized := active @ take n pending, su_pending := drop n pending\<rparr>) }"

definition order_warps :: "issue_config \<Rightarrow> 'x core \<Rightarrow> scheduler \<Rightarrow> scheduler option" where
  "order_warps cfg co su = (let ws = su_supervised su; n = length ws; set_order = map_option (\<lambda>l. su\<lparr>su_prioritized := l\<rparr>) in
     case su_kind su of
       LRR \<Rightarrow> set_order (order_lrr ws (su_last su) n)
     | RRR \<Rightarrow> order_rrr cfg co su
     | GTO \<Rightarrow> set_order (order_by_priority (older cfg co) True ws (su_last su) n)
     | OLDEST \<Rightarrow> set_order (order_by_priority (older cfg co) False ws (su_last su) n)
     | SWL limit \<Rightarrow> set_order (order_by_priority (older cfg co) True ws (su_last su) (min limit n))
     | TWO_LEVEL max_active _ outer \<Rightarrow> order_two_level cfg co su max_active outer)"

section \<open>A cycle of a scheduler\<close>

text \<open>
  The state of the loops: \<open>st_issued\<close> and \<open>st_prev\<close> are those of the warp that is tried, \<open>st_log\<close> the issues of
  the cycle (\<^verbatim>\<open>event_warp_issued\<close>) with the unit of each.
\<close>

record 'x issue_state =
  st_core :: "'x core"
  st_sched :: scheduler
  st_issued :: nat
  st_prev :: exec_unit_type
  st_valid_inst :: bool
  st_ready_inst :: bool
  st_log :: "(nat \<times> pipe_inst \<times> out_pipe \<times> exec_unit_type) list"

text \<open>\<^verbatim>\<open>do_on_warp_issued\<close>; the two-level scheduler also rotates its list after the position \<open>k\<close>.\<close>

definition do_on_warp_issued :: "nat \<Rightarrow> nat \<Rightarrow> 'x core \<Rightarrow> scheduler \<Rightarrow> ('x core \<times> scheduler) option" where
  "do_on_warp_issued wid k co su = do {
     let co = upd_warp wid (ibuffer_step (co_warps co ! wid)) co;
     (case su_kind su of
        TWO_LEVEL _ inner _ \<Rightarrow> do {
          guard (inner = SCHEDULER_PRIORITIZATION_LRR);
          l \<leftarrow> order_lrr (su_prioritized su) k (length (su_prioritized su));
          Some (co, su\<lparr>su_prioritized := l\<rparr>) }
      | _ \<Rightarrow> Some (co, su)) }"

text \<open>A control hazard: the buffer is flushed and fetch restarts at the stack's program counter.\<close>

definition flush_warp :: "nat \<Rightarrow> u32 \<Rightarrow> 'x core \<Rightarrow> 'x core option" where
  "flush_warp wid pc co = do {
     w \<leftarrow> ibuffer_flush ((co_warps co ! wid)\<lparr>sw_next_pc := ucast pc\<rparr>);
     Some (upd_warp wid w co) }"

text \<open>
  A launch of a child kernel costs a latency before it issues: the first try sets the latency and stops
  (\<open>None\<close>), the tries of the following cycles count it down, and then it issues.
\<close>

definition cdp_launch :: "issue_config \<Rightarrow> pipe_inst \<Rightarrow> warp_mask \<Rightarrow> shd_warp \<Rightarrow> (bool \<times> shd_warp) option" where
  "cdp_launch cfg inst am w =
    (if wi_is_cdp inst = 0 then Some (True, w)
     else do {
       guard (sw_cdp_latency w = 0);
       (if sw_cdp_dummy w then Some (True, w\<lparr>sw_cdp_dummy := False\<rparr>)
        else do {
          guard (wi_is_cdp inst < length (cc_cdp_latency cfg));
          let lat = (if wi_is_cdp inst = 1 then cc_cdp_latency cfg ! 0
            else cc_cdp_latency cfg ! (wi_is_cdp inst - 1) + cc_cdp_latency cfg ! wi_is_cdp inst * of_nat (bcount am));
          Some (False, w\<lparr>sw_cdp_latency := lat, sw_cdp_dummy := True\<rparr>) }) })"

text \<open>A try to issue the next instruction of warp \<open>wid\<close>; the result tells whether the loop goes on.\<close>

definition try_unit :: "'x exec \<Rightarrow> issue_config \<Rightarrow> u64 \<Rightarrow> nat \<Rightarrow> nat \<Rightarrow> pipe_inst \<Rightarrow> 'x issue_state \<Rightarrow> (bool \<times> 'x issue_state) option" where
  "try_unit exec cfg now wid k inst st = do {
     let (co, su) = (st_core st, st_sched st);
     active_mask \<leftarrow> get_active_mask (co_simt_stacks co ! wid);
     guard (inst_in_pipeline (co_warps co ! wid));
     sel \<leftarrow> select_unit cfg co (su_id su) (st_prev st) (i_op inst);
     (case sel of
        None \<Rightarrow> Some (True, st)
      | Some (pipe, u) \<Rightarrow> do {
          (go, w) \<leftarrow> (if u = SP \<or> u = INT_unit then cdp_launch cfg inst active_mask (co_warps co ! wid)
                     else Some (True, co_warps co ! wid));
          let co = upd_warp wid w co;
          (if \<not> go then Some (False, st\<lparr>st_core := co\<rparr>)
           else do {
             co \<leftarrow> issue_warp exec cfg now co pipe inst active_mask wid (su_id su);
             (co, su) \<leftarrow> do_on_warp_issued wid k co su;
             Some (True, st\<lparr>st_core := co, st_sched := su, st_issued := Suc (st_issued st), st_prev := u,
               st_log := st_log st @ [(wid, inst, pipe, u)]\<rparr>) }) }) }"

text \<open>The next instruction of warp \<open>wid\<close>, whose stack is at \<open>pc\<close>.\<close>

definition try_inst :: "'x exec \<Rightarrow> issue_config \<Rightarrow> u64 \<Rightarrow> nat \<Rightarrow> nat \<Rightarrow> u32 \<Rightarrow> 'x issue_state \<Rightarrow> (bool \<times> 'x issue_state) option" where
  "try_inst exec cfg now wid k pc st = (let co = st_core st; w = co_warps co ! wid;
     flush = map_option (\<lambda>co. (True, st\<lparr>st_core := co\<rparr>)) (flush_warp wid pc co) in
     case ibuffer_next_inst w of
       Some inst \<Rightarrow>
         if \<not> ibuffer_next_valid w then None
         else if ucast pc \<noteq> wi_pc inst then flush
         else if checkCollision (co_scoreboard co) wid (base_inst inst) then Some (True, st\<lparr>st_valid_inst := True\<rparr>)
         else try_unit exec cfg now wid k inst (st\<lparr>st_valid_inst := True, st_ready_inst := True\<rparr>)
     | None \<Rightarrow> if ibuffer_next_valid w then flush else Some (True, st))"

definition try_warp :: "'x exec \<Rightarrow> issue_config \<Rightarrow> u64 \<Rightarrow> nat \<Rightarrow> nat \<Rightarrow> 'x issue_state \<Rightarrow> (bool \<times> 'x issue_state) option" where
  "try_warp exec cfg now wid k st = (let w = co_warps (st_core st) ! wid in
     if (case ibuffer_next_inst w of None \<Rightarrow> False | Some i \<Rightarrow> wi_is_cdp i \<noteq> 0 \<and> sw_cdp_latency w \<noteq> 0) then do {
       guard (sw_cdp_dummy w);
       Some (False, st\<lparr>st_core := upd_warp wid (w\<lparr>sw_cdp_latency := sw_cdp_latency w - 1\<rparr>) (st_core st)\<rparr>) }
     else do {
       (pc, _) \<leftarrow> get_pdom_stack_top_info (co_simt_stacks (st_core st) ! wid);
       try_inst exec cfg now wid k pc st })"

text \<open>The loop over the instructions of a warp; \<open>n\<close> is \<^verbatim>\<open>max_issue - checked\<close>.\<close>

fun warp_loop :: "'x exec \<Rightarrow> issue_config \<Rightarrow> u64 \<Rightarrow> nat \<Rightarrow> nat \<Rightarrow> nat \<Rightarrow> nat \<Rightarrow> 'x issue_state \<Rightarrow> 'x issue_state option" where
  "warp_loop exec cfg now wid k 0 checked st = do {
     (_, co) \<leftarrow> warp_waiting cfg (st_core st) wid;
     Some (st\<lparr>st_core := co\<rparr>) }"
| "warp_loop exec cfg now wid k (Suc n) checked st = do {
     (b, co) \<leftarrow> warp_waiting cfg (st_core st) wid;
     let st = st\<lparr>st_core := co\<rparr>;
     (if \<not> b \<and> \<not> ibuffer_empty (co_warps co ! wid) \<and> checked \<le> st_issued st \<and> st_issued st < cc_max_insn_issue_per_warp cfg then do {
        (go, st) \<leftarrow> try_warp exec cfg now wid k st;
        (if go then warp_loop exec cfg now wid k n (Suc checked) st else Some st) }
      else Some st) }"

text \<open>The scheduler remembers the warp that issued.\<close>

definition note_issued :: "nat \<Rightarrow> nat \<Rightarrow> scheduler \<Rightarrow> scheduler" where
  "note_issued k issued su = su\<lparr>su_last := foldl (\<lambda>pos i. if su_supervised su ! i = su_prioritized su ! k then i else pos)
     (su_last su) [0 ..< length (su_supervised su)], su_num_issued_last_cycle := issued\<rparr>"

fun try_warps :: "'x exec \<Rightarrow> issue_config \<Rightarrow> u64 \<Rightarrow> nat list \<Rightarrow> 'x issue_state \<Rightarrow> 'x issue_state option" where
  "try_warps exec cfg now [] st = Some st"
| "try_warps exec cfg now (k # ks) st = do {
     let p = su_prioritized (st_sched st) ! k;
     let w = co_warps (st_core st) ! p;
     (if sw_done_exit w then try_warps exec cfg now ks st
      else do {
        let wid = unat (sw_warp_id w);
        guard (wid < length (co_warps (st_core st)));
        (_, co) \<leftarrow> warp_waiting cfg (st_core st) wid;
        st \<leftarrow> warp_loop exec cfg now wid k (cc_max_insn_issue_per_warp cfg) 0 (st\<lparr>st_core := co, st_issued := 0, st_prev := NONE\<rparr>);
        (if 0 < st_issued st then Some (st\<lparr>st_sched := note_issued k (st_issued st) (st_sched st)\<rparr>)
         else try_warps exec cfg now ks st) }) }"

definition scheduler_cycle :: "'x exec \<Rightarrow> issue_config \<Rightarrow> u64 \<Rightarrow> 'x core \<Rightarrow> scheduler \<Rightarrow> 'x issue_state option" where
  "scheduler_cycle exec cfg now co su = do {
     su \<leftarrow> order_warps cfg co su;
     try_warps exec cfg now [0 ..< length (su_prioritized su)]
       \<lparr>st_core = co, st_sched = su, st_issued = 0, st_prev = NONE, st_valid_inst = False, st_ready_inst = False, st_log = []\<rparr> }"

text \<open>The statistics bin of a cycle without an issue.\<close>

definition stall_bin :: "'x issue_state \<Rightarrow> nat option" where
  "stall_bin st = (if \<not> st_valid_inst st then Some 0 else if \<not> st_ready_inst st then Some 1 else if st_log st = [] then Some 2 else None)"

end
