(* ===== verification/Scheduler_Flow.thy ===== *)
theory Scheduler_Flow
  imports Warp_Scheduler "HOL-Library.Multiset"
begin

text \<open>
  What a cycle of a warp scheduler keeps: one induction over its loops, and the counts of
  instructions, the pipeline registers and the scoreboard along it.
\<close>

section \<open>The loops\<close>

text \<open>An assertion that the evaluation of \<^verbatim>\<open>waiting\<close> and every try of warp \<open>wid\<close> keep, the loop keeps.\<close>

lemma warp_loop_inv:
  assumes "warp_loop exec cfg now wid k n c st = Some st'" and "P st"
    and wait: "\<And>st b co. P st \<Longrightarrow> warp_waiting cfg (st_core st) wid = Some (b, co) \<Longrightarrow> P (st\<lparr>st_core := co\<rparr>)"
    and step: "\<And>st go st'. P st \<Longrightarrow> st_issued st < cc_max_insn_issue_per_warp cfg \<Longrightarrow>
      try_warp exec cfg now wid k st = Some (go, st') \<Longrightarrow> P st'"
  shows "P st'"
  using assms(1,2)
proof (induction n arbitrary: c st)
  case 0
  then show ?case using wait by (auto simp: bind_eq_Some_conv)
next
  case (Suc n)
  from Suc.prems(1) obtain b co where w: "warp_waiting cfg (st_core st) wid = Some (b, co)"
    by (auto simp: bind_eq_Some_conv)
  let ?st = "st\<lparr>st_core := co\<rparr>"
  have P: "P ?st" using wait [OF Suc.prems(2) w] .
  let ?c = "\<not> b \<and> \<not> ibuffer_empty (co_warps co ! wid) \<and> c \<le> st_issued st \<and> st_issued st < cc_max_insn_issue_per_warp cfg"
  show ?case
  proof (cases ?c)
    case False
    then show ?thesis using Suc.prems(1) w P by (auto simp: Let_def)
  next
    case True
    then obtain go s1 where t: "try_warp exec cfg now wid k ?st = Some (go, s1)"
      "(if go then warp_loop exec cfg now wid k n (Suc c) s1 else Some s1) = Some st'"
      using Suc.prems(1) w by (auto simp: Let_def bind_eq_Some_conv)
    have "P s1" using step [OF P _ t(1)] True by simp
    then show ?thesis using t(2) Suc.IH by (cases go) auto
  qed
qed

text \<open>
  The same for the warps of the list: \<open>P\<close> holds before a warp is tried, \<open>Q wid\<close> while warp \<open>wid\<close> is
  tried; a warp without an issue leads back to \<open>P\<close>.
\<close>

lemma try_warps_inv:
  assumes "try_warps exec cfg now ks st = Some st'" and "P st"
    and enter: "\<And>st k b co wid. P st \<Longrightarrow> k \<in> set ks \<Longrightarrow> \<not> sw_done_exit (co_warps (st_core st) ! (su_prioritized (st_sched st) ! k)) \<Longrightarrow>
      wid = unat (sw_warp_id (co_warps (st_core st) ! (su_prioritized (st_sched st) ! k))) \<Longrightarrow> wid < length (co_warps (st_core st)) \<Longrightarrow>
      warp_waiting cfg (st_core st) wid = Some (b, co) \<Longrightarrow> Q k wid (st\<lparr>st_core := co, st_issued := 0, st_prev := NONE\<rparr>)"
    and wait: "\<And>k wid st b co. Q k wid st \<Longrightarrow> warp_waiting cfg (st_core st) wid = Some (b, co) \<Longrightarrow> Q k wid (st\<lparr>st_core := co\<rparr>)"
    and step: "\<And>k wid st go st'. Q k wid st \<Longrightarrow> st_issued st < cc_max_insn_issue_per_warp cfg \<Longrightarrow>
      try_warp exec cfg now wid k st = Some (go, st') \<Longrightarrow> Q k wid st'"
    and ret: "\<And>k wid st. Q k wid st \<Longrightarrow> st_issued st = 0 \<Longrightarrow> P st"
  shows "P st' \<or> (\<exists>k wid st1. k \<in> set ks \<and> Q k wid st1 \<and> 0 < st_issued st1 \<and> st' = st1\<lparr>st_sched := note_issued k (st_issued st1) (st_sched st1)\<rparr>)"
  using assms(1,2) enter
proof (induction ks arbitrary: st)
  case (Cons k ks)
  let ?w = "co_warps (st_core st) ! (su_prioritized (st_sched st) ! k)"
  show ?case
  proof (cases "sw_done_exit ?w")
    case True
    then have "try_warps exec cfg now ks st = Some st'" using Cons.prems(1) by (simp add: Let_def)
    from Cons.IH [OF this Cons.prems(2)] Cons.prems(3) show ?thesis by simp metis
  next
    case False
    define wid where "wid = unat (sw_warp_id ?w)"
    from Cons.prems(1) False obtain b co s1 where wd: "wid < length (co_warps (st_core st))"
      and w: "warp_waiting cfg (st_core st) wid = Some (b, co)"
      and l: "warp_loop exec cfg now wid k (cc_max_insn_issue_per_warp cfg) 0 (st\<lparr>st_core := co, st_issued := 0, st_prev := NONE\<rparr>) = Some s1"
      and r: "(if 0 < st_issued s1 then Some (s1\<lparr>st_sched := note_issued k (st_issued s1) (st_sched s1)\<rparr>)
         else try_warps exec cfg now ks s1) = Some st'"
      by (auto simp: Let_def bind_eq_Some_conv wid_def)
    have q: "Q k wid (st\<lparr>st_core := co, st_issued := 0, st_prev := NONE\<rparr>)"
      by (rule Cons.prems(3) [OF Cons.prems(2) _ False wid_def wd w]) simp
    have Q: "Q k wid s1"
      by (rule warp_loop_inv [where P = "Q k wid", OF l q]) (erule wait step, assumption+)+
    show ?thesis
    proof (cases "0 < st_issued s1")
      case True
      then show ?thesis using r Q by auto
    next
      case False
      then have "try_warps exec cfg now ks s1 = Some st'" "P s1" using r ret [OF Q] by simp_all
      from Cons.IH [OF this] Cons.prems(3) show ?thesis by simp metis
    qed
  qed
qed simp

section \<open>The steps\<close>

text \<open>What \<^verbatim>\<open>waiting\<close> can change: it clears the fence flag.\<close>

lemma waiting_cases:
  assumes "warp_waiting cfg co wid = Some (b, co')"
  obtains "co' = co" | n where "co' = (upd_warp wid ((co_warps co ! wid)\<lparr>sw_membar := False\<rparr>) co)\<lparr>co_l1_invalidations := n\<rparr>"
    "\<not> pendingWrites (co_scoreboard co) wid"
  using assms
  by (auto simp: warp_waiting_def warp_waiting_at_mem_barrier_def Let_def bind_eq_Some_conv split: if_splits)

text \<open>What it answers; the cleared flag does not change an answer.\<close>

lemma is_waiting_eq: "is_waiting cfg co p = (let w = co_warps co ! p in
    if functional_done w then Some True
    else map_option (\<lambda>b. b \<or> sw_membar w \<and> pendingWrites (co_scoreboard co) p \<or> sw_n_atomic w \<noteq> 0 \<or> sw_waiting_ldgsts w)
      (warp_waiting_at_barrier (co_barriers co) (unat (sw_warp_id w))))"
  by (cases "warp_waiting_at_barrier (co_barriers co) (unat (sw_warp_id (co_warps co ! p)))")
    (auto simp: is_waiting_def warp_waiting_def warp_waiting_at_mem_barrier_def Let_def)

lemma is_waiting_stable:
  assumes "warp_waiting cfg co wid = Some (b, co')"
  shows "is_waiting cfg co' p = is_waiting cfg co p"
  using assms
  by (cases rule: waiting_cases; cases "p = wid"; cases "wid < length (co_warps co)")
    (simp_all add: is_waiting_eq upd_warp_def functional_done_def Let_def list_update_beyond)
lemma cdp_launch_cases:
  assumes "cdp_launch cfg inst am w = Some (go, w')"
  obtains lat dummy where "w' = w\<lparr>sw_cdp_latency := lat, sw_cdp_dummy := dummy\<rparr>"
proof -
  have "w' = w\<lparr>sw_cdp_latency := sw_cdp_latency w', sw_cdp_dummy := sw_cdp_dummy w'\<rparr>"
    using assms by (auto simp: cdp_launch_def Let_def bind_eq_Some_conv split: if_splits)
  then show ?thesis by (rule that)
qed

lemma try_unit_cases:
  assumes "try_unit exec cfg now wid k inst st = Some (go, st')"
  obtains (same) "st' = st"
  | (cdp) w lat dummy where "w = (co_warps (st_core st) ! wid)\<lparr>sw_cdp_latency := lat, sw_cdp_dummy := dummy\<rparr>"
      "st' = st\<lparr>st_core := upd_warp wid w (st_core st)\<rparr>"
  | (issue) w am pipe u co1 co2 su lat dummy where
      "w = (co_warps (st_core st) ! wid)\<lparr>sw_cdp_latency := lat, sw_cdp_dummy := dummy\<rparr>"
      "inst_in_pipeline (co_warps (st_core st) ! wid)"
      "get_active_mask (co_simt_stacks (st_core st) ! wid) = Some am"
      "select_unit cfg (st_core st) (su_id (st_sched st)) (st_prev st) (i_op inst) = Some (Some (pipe, u))"
      "issue_warp exec cfg now (upd_warp wid w (st_core st)) pipe inst am wid (su_id (st_sched st)) = Some co1"
      "do_on_warp_issued wid k co1 (st_sched st) = Some (co2, su)"
      "st' = st\<lparr>st_core := co2, st_sched := su, st_issued := Suc (st_issued st), st_prev := u,
         st_log := st_log st @ [(wid, inst, pipe, u)]\<rparr>"
proof -
  from assms obtain am sel where am: "get_active_mask (co_simt_stacks (st_core st) ! wid) = Some am"
    "inst_in_pipeline (co_warps (st_core st) ! wid)"
    and sel: "select_unit cfg (st_core st) (su_id (st_sched st)) (st_prev st) (i_op inst) = Some sel"
    by (auto simp: try_unit_def Let_def bind_eq_Some_conv)
  show ?thesis
  proof (cases sel)
    case None
    then show ?thesis using assms am sel same by (simp add: try_unit_def Let_def)
  next
    case (Some pu)
    obtain pipe u where pu: "pu = (pipe, u)" by (cases pu)
    let ?w = "co_warps (st_core st) ! wid"
    from assms am sel Some pu obtain g w where
      c: "(if u = SP \<or> u = INT_unit then cdp_launch cfg inst am ?w else Some (True, ?w)) = Some (g, w)"
      and r: "(if \<not> g then Some (False, st\<lparr>st_core := upd_warp wid w (st_core st)\<rparr>)
           else do {
             co \<leftarrow> issue_warp exec cfg now (upd_warp wid w (st_core st)) pipe inst am wid (su_id (st_sched st));
             (co, su) \<leftarrow> do_on_warp_issued wid k co (st_sched st);
             Some (True, st\<lparr>st_core := co, st_sched := su, st_issued := Suc (st_issued st), st_prev := u,
               st_log := st_log st @ [(wid, inst, pipe, u)]\<rparr>) }) = Some (go, st')"
      by (auto simp: try_unit_def Let_def bind_eq_Some_conv)
    obtain lat dummy where w: "w = ?w\<lparr>sw_cdp_latency := lat, sw_cdp_dummy := dummy\<rparr>"
    proof (cases "u = SP \<or> u = INT_unit")
      case True
      then show ?thesis using c cdp_launch_cases that by metis
    next
      case False
      then have "w = ?w\<lparr>sw_cdp_latency := sw_cdp_latency ?w, sw_cdp_dummy := sw_cdp_dummy ?w\<rparr>" using c by simp
      then show ?thesis by (rule that)
    qed
    show ?thesis
    proof (cases g)
      case False
      then show ?thesis using r cdp w by simp
    next
      case True
      then obtain co1 co2 su where "issue_warp exec cfg now (upd_warp wid w (st_core st)) pipe inst am wid (su_id (st_sched st)) = Some co1"
        "do_on_warp_issued wid k co1 (st_sched st) = Some (co2, su)"
        "st' = st\<lparr>st_core := co2, st_sched := su, st_issued := Suc (st_issued st), st_prev := u,
           st_log := st_log st @ [(wid, inst, pipe, u)]\<rparr>"
        using r by (auto simp: bind_eq_Some_conv)
      with issue [OF w am(2,1)] sel Some pu show ?thesis by simp
    qed
  qed
qed

text \<open>
  A try that does not issue changes warp \<open>wid\<close> only: a flush of its buffer, or its launch latency;
  a try that issues is an issue followed by a step of the buffer.
\<close>

definition nothing_pending :: "'x core \<Rightarrow> nat \<Rightarrow> pipe_inst \<Rightarrow> bool" where
  "nothing_pending co wid inst \<longleftrightarrow> \<not> checkCollision (co_scoreboard co) wid (base_inst inst)"

lemma try_warp_cases:
  assumes "try_warp exec cfg now wid k st = Some (go, st')"
  obtains (same) v r where "st' = st\<lparr>st_valid_inst := v, st_ready_inst := r\<rparr>"
  | (flush) pc co where "flush_warp wid pc (st_core st) = Some co" "st' = st\<lparr>st_core := co\<rparr>"
  | (cdp) w lat dummy v r where "w = (co_warps (st_core st) ! wid)\<lparr>sw_cdp_latency := lat, sw_cdp_dummy := dummy\<rparr>"
      "st' = st\<lparr>st_core := upd_warp wid w (st_core st), st_valid_inst := v, st_ready_inst := r\<rparr>"
  | (issue) w inst am pipe u co1 co2 su lat dummy pc rpc where
      "w = (co_warps (st_core st) ! wid)\<lparr>sw_cdp_latency := lat, sw_cdp_dummy := dummy\<rparr>"
      "ibuffer_next_inst (co_warps (st_core st) ! wid) = Some inst" "ibuffer_next_valid (co_warps (st_core st) ! wid)"
      "inst_in_pipeline (co_warps (st_core st) ! wid)"
      "get_pdom_stack_top_info (co_simt_stacks (st_core st) ! wid) = Some (pc, rpc)" "wi_pc inst = ucast pc"
      "nothing_pending (st_core st) wid inst"
      "get_active_mask (co_simt_stacks (st_core st) ! wid) = Some am"
      "select_unit cfg (st_core st) (su_id (st_sched st)) (st_prev st) (i_op inst) = Some (Some (pipe, u))"
      "issue_warp exec cfg now (upd_warp wid w (st_core st)) pipe inst am wid (su_id (st_sched st)) = Some co1"
      "do_on_warp_issued wid k co1 (st_sched st) = Some (co2, su)"
      "st' = st\<lparr>st_valid_inst := True, st_ready_inst := True, st_core := co2, st_sched := su, st_issued := Suc (st_issued st),
         st_prev := u, st_log := st_log st @ [(wid, inst, pipe, u)]\<rparr>"
proof -
  let ?w = "co_warps (st_core st) ! wid"
  let ?launching = "case ibuffer_next_inst ?w of None \<Rightarrow> False | Some i \<Rightarrow> wi_is_cdp i \<noteq> 0 \<and> sw_cdp_latency ?w \<noteq> 0"
  show ?thesis
  proof (cases ?launching)
    case True
    then have "st' = st\<lparr>st_core := upd_warp wid (?w\<lparr>sw_cdp_latency := sw_cdp_latency ?w - 1\<rparr>) (st_core st)\<rparr>"
      using assms by (auto simp: try_warp_def Let_def bind_eq_Some_conv split: option.splits)
    then show ?thesis using cdp [where lat = "sw_cdp_latency ?w - 1" and dummy = "sw_cdp_dummy ?w" and v = "st_valid_inst st" and r = "st_ready_inst st"] by simp
  next
    case False
    from assms False obtain pc rpc where top: "get_pdom_stack_top_info (co_simt_stacks (st_core st) ! wid) = Some (pc, rpc)"
      and t: "try_inst exec cfg now wid k pc st = Some (go, st')"
      by (auto simp: try_warp_def Let_def bind_eq_Some_conv)
    have fl: thesis if "map_option (\<lambda>co. (True, st\<lparr>st_core := co\<rparr>)) (flush_warp wid pc (st_core st)) = Some (go, st')"
      using that flush by auto
    show ?thesis
    proof (cases "ibuffer_next_inst ?w")
      case None
      then show ?thesis using t fl same [where v = "st_valid_inst st" and r = "st_ready_inst st"]
        by (simp add: try_inst_def Let_def split: if_splits)
    next
      case inst: (Some inst)
      then have v: "ibuffer_next_valid ?w" using t by (auto simp: try_inst_def Let_def split: if_splits)
      consider "ucast pc \<noteq> wi_pc inst" | "wi_pc inst = ucast pc" "checkCollision (co_scoreboard (st_core st)) wid (base_inst inst)"
        | "wi_pc inst = ucast pc" "nothing_pending (st_core st) wid inst" unfolding nothing_pending_def by metis
      then show ?thesis
      proof cases
        case 1
        then show ?thesis using t fl inst v by (simp add: try_inst_def Let_def)
      next
        case 2
        then have "st' = st\<lparr>st_valid_inst := True, st_ready_inst := st_ready_inst st\<rparr>"
          using t inst v by (auto simp: try_inst_def Let_def)
        then show ?thesis by (rule same)
      next
        case 3
        then have "try_unit exec cfg now wid k inst (st\<lparr>st_valid_inst := True, st_ready_inst := True\<rparr>) = Some (go, st')"
          using t inst v by (simp add: try_inst_def Let_def nothing_pending_def)
        then show ?thesis
        proof (cases rule: try_unit_cases)
          case same': same
          then show ?thesis by (rule same)
        next
          case cdp': (cdp w lat dummy)
          have "st' = st\<lparr>st_core := upd_warp wid w (st_core st), st_valid_inst := True, st_ready_inst := True\<rparr>" using cdp'(2) by simp
          then show ?thesis using cdp cdp'(1) by simp
        next
          case i: (issue w am pipe u co1 co2 su lat dummy)
          show ?thesis by (rule issue [OF _ inst v _ top 3]) (use i in simp_all)
        qed
      qed
    qed
  qed
qed

section \<open>The count of instructions\<close>

text \<open>A step of a warp that takes \<open>j\<close> instructions from its buffer to the pipeline.\<close>

definition warp_moves :: "nat \<Rightarrow> shd_warp \<Rightarrow> shd_warp \<Rightarrow> bool" where
  "warp_moves j w w' \<longleftrightarrow> sw_warp_id w' = sw_warp_id w \<and> sw_done_exit w' = sw_done_exit w \<and>
     (warp_ok w \<longrightarrow> warp_ok w' \<and> num_issued_inst_in_pipeline w' = num_issued_inst_in_pipeline w + j)"

lemma warp_moves_trans: "warp_moves i w w1 \<Longrightarrow> warp_moves j w1 w2 \<Longrightarrow> warp_moves (i + j) w w2"
  by (auto simp: warp_moves_def)

lemma warp_moves_refl [simp]: "warp_moves 0 w w"
  by (simp add: warp_moves_def)

text \<open>Nothing else than the buffer, the counters and the live lanes matters.\<close>

lemma warp_moves_same:
  assumes "sw_ibuffer w' = sw_ibuffer w" and "sw_next w' < 2 \<or> sw_next w' = sw_next w" and "sw_inst_in_pipeline w' = sw_inst_in_pipeline w"
    and "sw_active_threads w' = sw_active_threads w" and "sw_n_completed w' = sw_n_completed w" and "sw_warp_size w' = sw_warp_size w"
    and "sw_warp_id w' = sw_warp_id w" and "sw_done_exit w' = sw_done_exit w"
  shows "warp_moves 0 w w'"
  using assms by (auto simp: warp_moves_def warp_ok_def num_issued_inst_in_pipeline_def num_inst_in_buffer_def)

lemma bcount_unset: "bit w i \<Longrightarrow> Suc (bcount (unset_bit i w)) = bcount w" for w :: "'a::len word"
proof -
  assume b: "bit w i"
  then have i: "i < LENGTH('a)" by (rule bit_imp_le_length)
  have "filter (bit (unset_bit i w)) [0 ..< LENGTH('a)] = filter (\<lambda>j. j \<noteq> i) (filter (bit w) [0 ..< LENGTH('a)])"
    by (auto simp: bit_simps intro: filter_cong)
  then have "bcount (unset_bit i w) = length (filter (\<lambda>j. j \<noteq> i) (filter (bit w) [0 ..< LENGTH('a)]))" by (simp add: bcount_def)
  also have "\<dots> = card ({j. j < LENGTH('a) \<and> bit w j} - {i})" by (subst distinct_card [symmetric]) (auto intro: arg_cong [where f = card])
  also have "Suc \<dots> = card {j. j < LENGTH('a) \<and> bit w j}" using b i by (intro card.remove [symmetric]) auto
  also have "\<dots> = bcount w" unfolding bcount_def by (subst distinct_card [symmetric]) (auto intro: arg_cong [where f = card])
  finally show ?thesis .
qed

lemma flush_moves: "ibuffer_flush w = Some w' \<Longrightarrow> warp_moves 0 w w'"
proof -
  assume f: "ibuffer_flush w = Some w'"
  have dec: "dec_inst_in_pipeline w = Some v \<Longrightarrow> sw_warp_id v = sw_warp_id w \<and> sw_done_exit v = sw_done_exit w" for w v
    by (auto simp: dec_inst_in_pipeline_def)
  have "sw_warp_id w' = sw_warp_id w \<and> sw_done_exit w' = sw_done_exit w" if "flush_slots is w = Some w'" for "is" w w'
    using that by (induction "is" arbitrary: w) (fastforce simp: bind_eq_Some_conv dest: dec split: if_splits)+
  with f have "sw_warp_id w' = sw_warp_id w \<and> sw_done_exit w' = sw_done_exit w" by (simp add: ibuffer_flush_def)
  moreover have "warp_ok w' \<and> num_issued_inst_in_pipeline w' = num_issued_inst_in_pipeline w" if ok: "warp_ok w"
    using f ok unfolding flush_ok [OF ok]
    by (auto simp: warp_ok_def num_issued_inst_in_pipeline_def num_inst_in_buffer_def numeral_2_eq_2)
  ultimately show ?thesis by (simp add: warp_moves_def)
qed

lemma set_completed_moves: "set_completed w t = Some w' \<Longrightarrow> warp_moves 0 w w'"
  using bcount_unset [of "sw_active_threads w" t]
  by (auto simp: set_completed_def warp_moves_def warp_ok_def num_issued_inst_in_pipeline_def num_inst_in_buffer_def)

lemma free_moves:
  assumes "ibuffer_next_valid w"
  shows "warp_moves 1 w (ibuffer_free w)"
proof -
  have "warp_ok (ibuffer_free w) \<and> num_issued_inst_in_pipeline (ibuffer_free w) = Suc (num_issued_inst_in_pipeline w)" if ok: "warp_ok w"
  proof -
    obtain a b where ab: "sw_ibuffer w = [a, b]" using ok two_slots [of "sw_ibuffer w"] by (auto simp: warp_ok_def)
    have "sw_next w = 0 \<or> sw_next w = 1" using ok by (auto simp: warp_ok_def)
    then show ?thesis using ok assms ab
      by (auto simp: warp_ok_def ibuffer_free_def ibuffer_next_valid_def num_issued_inst_in_pipeline_def num_inst_in_buffer_def numeral_2_eq_2)
  qed
  then show ?thesis by (simp add: warp_moves_def ibuffer_free_def)
qed

lemma step_moves: "warp_moves 0 w (ibuffer_step w)"
  by (rule warp_moves_same) (simp_all add: ibuffer_step_def)

lemma complete_moves: "complete_lanes inst finished ts w = Some w' \<Longrightarrow> warp_moves 0 w w'"
proof (induction ts arbitrary: w)
  case (Cons t ts)
  let ?v = "if wi_isatomic inst then w\<lparr>sw_n_atomic := sw_n_atomic w + 1\<rparr> else w"
  have v: "warp_moves 0 w ?v" by (simp add: warp_moves_same)
  show ?case
  proof (cases "bit (wi_mask inst) t")
    case False
    then show ?thesis using Cons by simp
  next
    case True
    with Cons.prems obtain u where u: "(if bit finished t then Option.bind (set_completed ?v t) ibuffer_flush else Some ?v) = Some u"
      "complete_lanes inst finished ts u = Some w'" by (auto simp: Let_def bind_eq_Some_conv)
    have "warp_moves 0 ?v u"
    proof (cases "bit finished t")
      case True
      then obtain x where "set_completed ?v t = Some x" "ibuffer_flush x = Some u" using u(1) by (auto simp: bind_eq_Some_conv)
      then show ?thesis using warp_moves_trans [of 0 ?v x 0 u] set_completed_moves flush_moves by simp
    qed (use u(1) in simp)
    then show ?thesis using warp_moves_trans [of 0 w ?v 0 u] warp_moves_trans [of 0 w u 0 w'] v Cons.IH [OF u(2)] by simp
  qed
qed simp

section \<open>An issue\<close>

lemma note_moves:
  "note_ldgsts inst w = Some w' \<Longrightarrow> warp_moves 0 w w'"
  "note_depbar inst w = Some w' \<Longrightarrow> warp_moves 0 w w'"
  "note_ldgdepbar w = Some w' \<Longrightarrow> warp_moves 0 w w'"
  by (auto simp: note_ldgsts_def note_depbar_def note_ldgdepbar_def Let_def bind_eq_Some_conv split: if_splits intro!: warp_moves_same)

text \<open>A step of the core in which warp \<open>wid\<close> moves \<open>j\<close> instructions and the rest is as given.\<close>

definition core_moves :: "nat \<Rightarrow> nat \<Rightarrow> 'x core \<Rightarrow> 'x core \<Rightarrow> bool" where
  "core_moves wid j co co' \<longleftrightarrow> length (co_warps co') = length (co_warps co) \<and>
     (\<forall>p. p \<noteq> wid \<longrightarrow> co_warps co' ! p = co_warps co ! p) \<and> (wid < length (co_warps co) \<longrightarrow> warp_moves j (co_warps co ! wid) (co_warps co' ! wid))"

definition same_pipes :: "'x core \<Rightarrow> 'x core \<Rightarrow> bool" where
  "same_pipes co co' \<longleftrightarrow> co_pipes co' = co_pipes co \<and> co_scoreboard co' = co_scoreboard co \<and> co_next_uid co' = co_next_uid co"

lemma core_moves_trans: "core_moves wid i co co1 \<Longrightarrow> core_moves wid j co1 co2 \<Longrightarrow> core_moves wid (i + j) co co2"
  unfolding core_moves_def using warp_moves_trans by fastforce

lemma same_pipes_trans: "same_pipes co co1 \<Longrightarrow> same_pipes co1 co2 \<Longrightarrow> same_pipes co co2"
  by (simp add: same_pipes_def)

lemma upd_warp_moves:
  "warp_moves j (co_warps co ! wid) w \<Longrightarrow> core_moves wid j co (upd_warp wid w co)"
  by (simp add: core_moves_def upd_warp_def)

lemma upd_warp_same [simp]:
  "same_pipes co (upd_warp wid w co)" "co_simt_stacks (upd_warp wid w co) = co_simt_stacks co"
  "co_pipes (upd_warp wid w co) = co_pipes co" "co_scoreboard (upd_warp wid w co) = co_scoreboard co"
  "co_next_uid (upd_warp wid w co) = co_next_uid co"
  by (simp_all add: same_pipes_def upd_warp_def)

lemma func_exec_moves:
  assumes "func_exec_inst exec cfg co inst wid = Some (r, co')"
  shows "core_moves wid 0 co co' \<and> same_pipes co co'"
proof -
  from assms obtain w x b where w: "complete_lanes inst (ex_done r) [0 ..< cc_warp_size cfg] (co_warps co ! wid) = Some w"
    and co': "co' = (upd_warp wid w co)\<lparr>co_threads := x, co_barriers := b\<rparr>"
    by (auto simp: func_exec_inst_def Let_def bind_eq_Some_conv split: prod.splits)
  have "core_moves wid 0 co (upd_warp wid w co)" by (rule upd_warp_moves [OF complete_moves [OF w]])
  then show ?thesis unfolding co' by (simp add: core_moves_def same_pipes_def)
qed

lemma sync_moves: "sync_effect bars inst reg wid w = Some (w', bars') \<Longrightarrow> warp_moves 0 w w'"
  using note_moves(2,3) by (auto simp: sync_effect_def split: if_splits intro: warp_moves_same)

lemma note_sync_moves:
  assumes "note_synchronisation co inst reg wid = Some co'"
  shows "core_moves wid 0 co co' \<and> same_pipes co co'"
proof -
  from assms obtain w b where "sync_effect (co_barriers co) inst reg wid (co_warps co ! wid) = Some (w, b)"
    and co': "co' = (upd_warp wid w co)\<lparr>co_barriers := b\<rparr>"
    by (auto simp: note_synchronisation_def)
  from this(1) have "core_moves wid 0 co (upd_warp wid w co)" by (rule upd_warp_moves [OF sync_moves])
  then show ?thesis unfolding co' by (simp add: core_moves_def same_pipes_def)
qed

lemma simt_moves: "updateSIMTStack cfg now co r inst wid = Some co' \<Longrightarrow> core_moves wid 0 co co' \<and> same_pipes co co'"
  by (auto simp: updateSIMTStack_def Let_def bind_eq_Some_conv core_moves_def same_pipes_def)

text \<open>
  The effect of an issue: one instruction of the warp goes from its buffer to a free register of the pipe, and the
  scoreboard reserves its destinations.
\<close>

lemma issue_effect:
  assumes "issue_warp exec cfg now co pipe inst am wid sch = Some co'" and "ibuffer_next_valid (co_warps co ! wid)"
  obtains reg where "core_moves wid 1 co co'" and "get_free (co_pipes co pipe) (cc_sub_core_model cfg) sch = Some reg"
    and "co_pipes co' = (co_pipes co)(pipe := (co_pipes co pipe)[reg := Some (issued_to inst am wid sch co)])"
    and "reserveRegisters (co_scoreboard co) (base_inst (issued_to inst am wid sch co)) = Some (co_scoreboard co')"
proof -
  let ?pr = "issued_to inst am wid sch co"
  let ?co1 = "upd_warp wid (ibuffer_free (co_warps co ! wid)) co"
  from assms(1) obtain reg r co3 w co5 co6 sb where reg: "get_free (co_pipes co pipe) (cc_sub_core_model cfg) sch = Some reg"
    and e: "func_exec_inst exec cfg (enter_pipe pipe reg ?pr ?co1) ?pr wid = Some (r, co3)"
    and l: "note_ldgsts inst (co_warps co3 ! wid) = Some w"
    and y: "note_synchronisation (upd_warp wid w co3) inst ?pr wid = Some co5" and u: "updateSIMTStack cfg now co5 r ?pr wid = Some co6"
    and sb: "reserveRegisters (co_scoreboard co6) (base_inst ?pr) = Some sb"
    and co'': "(upd_warp wid ((co_warps co6 ! wid)\<lparr>sw_next_pc := wi_pc inst + ucast (wi_isize inst)\<rparr>) co6)\<lparr>co_scoreboard := sb\<rparr> = co'"
    unfolding issue_warp_def Let_def bind_eq_Some_conv split_paired_Ex prod.case option.inject by (elim exE conjE) (rule that)
  note co' = co'' [symmetric]
  have m1: "core_moves wid 1 co ?co1" by (rule upd_warp_moves [OF free_moves [OF assms(2)]])
  have m2: "core_moves wid 0 ?co1 (enter_pipe pipe reg ?pr ?co1)" by (simp add: core_moves_def enter_pipe_def)
  note m3 = func_exec_moves [OF e]
  have m4: "core_moves wid 0 co3 (upd_warp wid w co3)" by (rule upd_warp_moves [OF note_moves(1) [OF l]])
  note m5 = note_sync_moves [OF y] and m6 = simt_moves [OF u]
  have "core_moves wid 0 co6 (upd_warp wid ((co_warps co6 ! wid)\<lparr>sw_next_pc := wi_pc inst + ucast (wi_isize inst)\<rparr>) co6)"
    by (rule upd_warp_moves, rule warp_moves_same) simp_all
  then have m7: "core_moves wid 0 co6 co'" unfolding co' by (simp add: core_moves_def)
  have "core_moves wid (((((1 + 0) + 0) + 0) + 0) + 0 + 0) co co'"
    by (rule core_moves_trans, rule core_moves_trans, rule core_moves_trans, rule core_moves_trans, rule core_moves_trans, rule core_moves_trans)
      (use m1 m2 m3 m4 m5 m6 m7 in blast)+
  then have m: "core_moves wid 1 co co'" by simp
  have "same_pipes (enter_pipe pipe reg ?pr ?co1) co6"
    using m3 m5 m6 by (simp add: same_pipes_def)
  then show ?thesis using that [OF m reg] sb co' by (simp add: same_pipes_def enter_pipe_def)
qed

section \<open>The other steps\<close>

lemma waiting_moves: "warp_waiting cfg co wid = Some (b, co') \<Longrightarrow> core_moves wid 0 co co' \<and> same_pipes co co'"
  by (erule waiting_cases) (auto simp: core_moves_def same_pipes_def upd_warp_def intro: warp_moves_same)

lemma flush_warp_moves:
  assumes "flush_warp wid pc co = Some co'"
  shows "core_moves wid 0 co co' \<and> same_pipes co co'"
proof -
  let ?v = "(co_warps co ! wid)\<lparr>sw_next_pc := ucast pc\<rparr>"
  from assms obtain w where w: "ibuffer_flush ?v = Some w" and co': "co' = upd_warp wid w co"
    by (auto simp: flush_warp_def bind_eq_Some_conv)
  have "warp_moves 0 (co_warps co ! wid) ?v" by (simp add: warp_moves_same)
  then have "warp_moves 0 (co_warps co ! wid) w" using warp_moves_trans flush_moves [OF w] by fastforce
  then show ?thesis unfolding co' by (simp add: upd_warp_moves)
qed

lemma launch_moves: "core_moves wid 0 co (upd_warp wid ((co_warps co ! wid)\<lparr>sw_cdp_latency := lat, sw_cdp_dummy := dummy\<rparr>) co)"
  by (rule upd_warp_moves) (simp add: warp_moves_same)

text \<open>Only the two-level scheduler changes, and only the order of its list.\<close>

lemma after_last_all: "pos \<le> length xs \<Longrightarrow> after_last xs pos (length xs) = rotate (if pos = length xs then 0 else Suc pos) xs"
  by (rule nth_equalityI) (simp_all add: after_last_def Let_def nth_rotate add.commute)

lemma mset_rotated [simp]: "mset (rotate1 xs) = mset xs" "mset (rotate n xs) = mset xs"
proof -
  show r: "mset (rotate1 xs) = mset xs" for xs :: "'a list" by (cases xs) simp_all
  show "mset (rotate n xs) = mset xs" by (induction n) (simp_all add: r)
qed

lemma on_issued_moves:
  assumes "do_on_warp_issued wid k co su = Some (co', su')" and "k < length (su_prioritized su)"
  shows "core_moves wid 0 co co' \<and> same_pipes co co' \<and>
    (\<exists>l. su' = su\<lparr>su_prioritized := l\<rparr> \<and> mset l = mset (su_prioritized su) \<and> (\<not> (\<exists>a b c. su_kind su = TWO_LEVEL a b c) \<longrightarrow> l = su_prioritized su))"
proof -
  let ?co = "upd_warp wid (ibuffer_step (co_warps co ! wid)) co"
  have m: "core_moves wid 0 co ?co" by (rule upd_warp_moves [OF step_moves])
  show ?thesis
  proof (cases "\<exists>a b c. su_kind su = TWO_LEVEL a b c")
    case True
    then have "co' = ?co" "su' = su\<lparr>su_prioritized := after_last (su_prioritized su) k (length (su_prioritized su))\<rparr>"
      using assms(1) by (auto simp: do_on_warp_issued_def Let_def bind_eq_Some_conv order_lrr_def)
    moreover have "mset (after_last (su_prioritized su) k (length (su_prioritized su))) = mset (su_prioritized su)"
      using assms(2) after_last_all [of k "su_prioritized su"] by simp
    ultimately show ?thesis using m True
      by (intro conjI exI [of _ "after_last (su_prioritized su) k (length (su_prioritized su))"]) simp_all
  next
    case False
    then have "co' = ?co" "su' = su\<lparr>su_prioritized := su_prioritized su\<rparr>"
      using assms(1) by (auto simp: do_on_warp_issued_def Let_def split: scheduler_kind.splits)
    then show ?thesis using m by (intro conjI exI [of _ "su_prioritized su"]) simp_all
  qed
qed

section \<open>A cycle\<close>

type_synonym issue_log = "(nat \<times> pipe_inst \<times> out_pipe \<times> exec_unit_type) list"

definition issues_of :: "nat \<Rightarrow> issue_log \<Rightarrow> pipe_inst list" where
  "issues_of wid ev = map (\<lambda>(_, i, _). i) (filter (\<lambda>(w, _). w = wid) ev)"

definition issues_to :: "out_pipe \<Rightarrow> issue_log \<Rightarrow> (nat \<times> u64) list" where
  "issues_to pipe ev = map (\<lambda>(w, i, _). (w, wi_pc i)) (filter (\<lambda>(_, _, p, _). p = pipe) ev)"

text \<open>The contents of a register set, each instruction by its warp and its program counter.\<close>

definition contents :: "register_set \<Rightarrow> (nat \<times> u64) multiset" where
  "contents regs = mset (map (\<lambda>x. (i_warp_id x, wi_pc x)) (List.map_filter id regs))"

text \<open>No instruction names a register that is pending when it issues.\<close>

fun hazard_free :: "u32 set \<Rightarrow> pipe_inst list \<Rightarrow> bool" where
  "hazard_free T [] \<longleftrightarrow> True"
| "hazard_free T (i # is) \<longleftrightarrow> inst_regs (base_inst i) \<inter> T = {} \<and> hazard_free (T \<union> set (outs (base_inst i))) is"

definition all_outs :: "pipe_inst list \<Rightarrow> u32 set" where
  "all_outs is = (\<Union>i \<in> set is. set (outs (base_inst i)))"

lemma hazard_free_snoc: "hazard_free T (is @ [i]) \<longleftrightarrow> hazard_free T is \<and> inst_regs (base_inst i) \<inter> (T \<union> all_outs is) = {}"
  by (induction "is" arbitrary: T) (simp_all add: all_outs_def Un_assoc)

lemma issues_snoc [simp]:
  "issues_of p (ev @ [(w, i, x, u)]) = issues_of p ev @ (if w = p then [i] else [])"
  "issues_to x' (ev @ [(w, i, x, u)]) = issues_to x' ev @ (if x = x' then [(w, wi_pc i)] else [])"
  by (simp_all add: issues_of_def issues_to_def)

lemma contents_add:
  assumes "i < length regs" and "regs ! i = None"
  shows "contents (regs[i := Some x]) = add_mset (i_warp_id x, wi_pc x) (contents regs)"
  using assms
proof (induction regs arbitrary: i)
  case (Cons r rs)
  show ?case
  proof (cases i)
    case 0
    then show ?thesis using Cons.prems by (simp add: contents_def map_filter_simps)
  next
    case (Suc j)
    then have "contents (rs[j := Some x]) = add_mset (i_warp_id x, wi_pc x) (contents rs)" using Cons by simp
    then show ?thesis using Suc by (cases r) (simp_all add: contents_def map_filter_simps)
  qed
qed simp

lemma get_free_free: "get_free regs sub id' = Some i \<Longrightarrow> i < length regs \<and> regs ! i = None"
  by (auto simp: get_free_def free_reg_def bind_eq_Some_conv find_Some_iff split: if_splits)

lemma base_inst_simps [simp]:
  "outs (base_inst (issued_to inst am wid sch co)) = outs (base_inst inst)"
  "i_warp_id (base_inst (issued_to inst am wid sch co)) = wid" "i_warp_id (issued_to inst am wid sch co) = wid"
  "wi_pc (issued_to inst am wid sch co) = wi_pc inst"
  by (simp_all add: outs_def base_inst_def issued_to_def inst_t.truncate_def)

lemma reserve_effect:
  assumes "reserveRegisters sb i = Some sb'" and "i_warp_id i < length (reg_table sb)"
  shows "reg_table sb' = (reg_table sb)[i_warp_id i := reg_table sb ! i_warp_id i \<union> set (outs i)]"
  using assms reserve_loop_eq [OF refl assms(2), of "take MAX_OUTPUT_VALUES (i_out i)"]
  by (auto simp: reserveRegisters_def outs_def bind_eq_Some_conv split: if_splits)

text \<open>
  The state of the core after the issues \<open>ev\<close>, all of warp \<open>wid\<close>: the warp has moved as many instructions to
  the pipeline, the register sets have gained them without losing any, and the scoreboard their destinations.
\<close>

definition pipes_gain :: "'x core \<Rightarrow> issue_log \<Rightarrow> 'x core \<Rightarrow> bool" where
  "pipes_gain co0 ev co \<longleftrightarrow> (\<forall>x. contents (co_pipes co x) = contents (co_pipes co0 x) + mset (issues_to x ev) \<and>
     (\<forall>i y. i < length (co_pipes co0 x) \<longrightarrow> co_pipes co0 x ! i = Some y \<longrightarrow> co_pipes co x ! i = Some y))"

definition board_gains :: "'x core \<Rightarrow> issue_log \<Rightarrow> 'x core \<Rightarrow> bool" where
  "board_gains co0 ev co \<longleftrightarrow> length (reg_table (co_scoreboard co)) = length (reg_table (co_scoreboard co0)) \<and>
     (\<forall>p < length (reg_table (co_scoreboard co0)).
        reg_table (co_scoreboard co) ! p = reg_table (co_scoreboard co0) ! p \<union> all_outs (issues_of p ev) \<and>
        hazard_free (reg_table (co_scoreboard co0) ! p) (issues_of p ev))"

definition warps_gain :: "'x core \<Rightarrow> issue_log \<Rightarrow> 'x core \<Rightarrow> bool" where
  "warps_gain co0 ev co \<longleftrightarrow> length (co_warps co) = length (co_warps co0) \<and>
     (\<forall>p < length (co_warps co0). warp_moves (length (issues_of p ev)) (co_warps co0 ! p) (co_warps co ! p))"

text \<open>The issues of a cycle so far: of one warp, at most as many as allowed, to different units in turn where that is asked for.\<close>

definition issues_ok :: "issue_config \<Rightarrow> nat \<Rightarrow> issue_log \<Rightarrow> bool" where
  "issues_ok cfg wid ev \<longleftrightarrow> (\<forall>(w, _) \<in> set ev. w = wid) \<and> length ev \<le> cc_max_insn_issue_per_warp cfg \<and>
     (cc_dual_issue_diff_exec_units cfg \<longrightarrow> distinct_adj (map (\<lambda>(_, _, _, u). u) ev))"

definition sched_moves :: "scheduler \<Rightarrow> issue_log \<Rightarrow> scheduler \<Rightarrow> bool" where
  "sched_moves su0 ev su \<longleftrightarrow> (ev = [] \<longrightarrow> su = su0) \<and> (\<exists>l. su = su0\<lparr>su_prioritized := l\<rparr> \<and> mset l = mset (su_prioritized su0) \<and>
     (\<not> (\<exists>a b c. su_kind su0 = TWO_LEVEL a b c) \<longrightarrow> l = su_prioritized su0))"

definition cycle_state :: "issue_config \<Rightarrow> 'x core \<Rightarrow> scheduler \<Rightarrow> nat \<Rightarrow> 'x issue_state \<Rightarrow> bool" where
  "cycle_state cfg co0 su0 wid st \<longleftrightarrow> issues_ok cfg wid (st_log st) \<and> length (st_log st) = st_issued st \<and>
     (st_log st \<noteq> [] \<longrightarrow> st_prev st = (case last (st_log st) of (_, _, _, u) \<Rightarrow> u)) \<and>
     warps_gain co0 (st_log st) (st_core st) \<and> pipes_gain co0 (st_log st) (st_core st) \<and>
     board_gains co0 (st_log st) (st_core st) \<and> sched_moves su0 (st_log st) (st_sched st)"

lemma sched_moves_refl: "sched_moves su [] su"
  unfolding sched_moves_def by (intro conjI impI exI [of _ "su_prioritized su"]) simp_all

lemma sched_moves_snoc:
  assumes s: "sched_moves su0 ev su1" and l: "su = su1\<lparr>su_prioritized := l\<rparr> \<and> mset l = mset (su_prioritized su1) \<and>
    (\<not> (\<exists>a b c. su_kind su1 = TWO_LEVEL a b c) \<longrightarrow> l = su_prioritized su1)"
  shows "sched_moves su0 (ev @ [x]) su"
proof -
  obtain l1 where l1: "su1 = su0\<lparr>su_prioritized := l1\<rparr>" "mset l1 = mset (su_prioritized su0)"
    "\<not> (\<exists>a b c. su_kind su0 = TWO_LEVEL a b c) \<longrightarrow> l1 = su_prioritized su0"
    using s unfolding sched_moves_def by blast
  show ?thesis unfolding sched_moves_def using l l1 by (intro conjI exI [of _ l]) simp_all
qed

lemma gains_idle:
  assumes "core_moves wid 0 co co'" and "same_pipes co co'"
  shows "warps_gain co0 ev co \<Longrightarrow> warps_gain co0 ev co'" and "pipes_gain co0 ev co \<Longrightarrow> pipes_gain co0 ev co'"
    and "board_gains co0 ev co \<Longrightarrow> board_gains co0 ev co'"
proof -
  assume w: "warps_gain co0 ev co"
  have "warp_moves (length (issues_of p ev)) (co_warps co0 ! p) (co_warps co' ! p)" if "p < length (co_warps co0)" for p
  proof -
    have a: "warp_moves (length (issues_of p ev)) (co_warps co0 ! p) (co_warps co ! p)" using w that by (simp add: warps_gain_def)
    have "warp_moves 0 (co_warps co ! p) (co_warps co' ! p)"
      using assms(1) w that by (cases "p = wid") (auto simp: core_moves_def warps_gain_def)
    from warp_moves_trans [OF a this] show ?thesis by simp
  qed
  then show "warps_gain co0 ev co'" using w assms(1) by (simp add: warps_gain_def core_moves_def)
qed (use assms(2) in \<open>simp_all add: pipes_gain_def board_gains_def same_pipes_def\<close>)

lemma cycle_state_idle:
  assumes "cycle_state cfg co0 su0 wid st" and "core_moves w 0 (st_core st) co" and "same_pipes (st_core st) co"
  shows "cycle_state cfg co0 su0 wid (st\<lparr>st_core := co\<rparr>)"
  using assms(1) gains_idle [OF assms(2,3)] by (simp add: cycle_state_def)

lemma select_unit_differs:
  "select_unit cfg co sch prev op = Some (Some (pipe, u)) \<Longrightarrow> cc_dual_issue_diff_exec_units cfg \<Longrightarrow> u \<noteq> prev"
  by (auto simp: select_unit_def Let_def bind_eq_Some_conv split: if_splits option.splits)

lemma distinct_adj_snoc: "distinct_adj (xs @ [x]) \<longleftrightarrow> distinct_adj xs \<and> (xs \<noteq> [] \<longrightarrow> last xs \<noteq> x)"
  by (auto simp: distinct_adj_append_iff)

lemma cycle_state_issue:
  assumes st: "cycle_state cfg co0 su0 wid st" and wid: "wid < length (co_warps co0)" "wid < length (reg_table (co_scoreboard co0))"
    and lim: "st_issued st < cc_max_insn_issue_per_warp cfg"
    and w: "w = (co_warps (st_core st) ! wid)\<lparr>sw_cdp_latency := lat, sw_cdp_dummy := dummy\<rparr>"
    and v: "ibuffer_next_valid (co_warps (st_core st) ! wid)" and np: "nothing_pending (st_core st) wid inst"
    and sel: "select_unit cfg (st_core st) (su_id (st_sched st)) (st_prev st) (i_op inst) = Some (Some (pipe, u))"
    and iss: "issue_warp exec cfg now (upd_warp wid w (st_core st)) pipe inst am wid sch = Some co1"
    and on: "do_on_warp_issued wid k co1 (st_sched st) = Some (co2, su)" and k: "k < length (su_prioritized (st_sched st))"
  shows "cycle_state cfg co0 su0 wid (st\<lparr>st_valid_inst := True, st_ready_inst := True, st_core := co2, st_sched := su,
    st_issued := Suc (st_issued st), st_prev := u, st_log := st_log st @ [(wid, inst, pipe, u)]\<rparr>)"
proof -
  let ?co = "st_core st" and ?ev = "st_log st @ [(wid, inst, pipe, u)]"
  note S = st [unfolded cycle_state_def]
  let ?c = "upd_warp wid w ?co"
  have len: "wid < length (co_warps ?co)" using S wid by (simp add: warps_gain_def)
  have v': "ibuffer_next_valid (co_warps ?c ! wid)" using v len by (simp add: upd_warp_def w ibuffer_next_valid_def)
  obtain reg where m: "core_moves wid 1 ?c co1" and free: "get_free (co_pipes ?c pipe) (cc_sub_core_model cfg) sch = Some reg"
    and pipes: "co_pipes co1 = (co_pipes ?c)(pipe := (co_pipes ?c pipe)[reg := Some (issued_to inst am wid sch ?c)])"
    and sb: "reserveRegisters (co_scoreboard ?c) (base_inst (issued_to inst am wid sch ?c)) = Some (co_scoreboard co1)"
    using issue_effect [OF iss v'] by blast
  note on' = on_issued_moves [OF on k]
  have "core_moves wid (0 + 1 + 0) ?co co2"
    using core_moves_trans [OF core_moves_trans [OF launch_moves [where wid = wid and co = ?co and lat = lat and dummy = dummy] m [unfolded w]]] on' by blast
  then have mv: "core_moves wid 1 ?co co2" by simp
  have same: "co_pipes co2 = co_pipes co1" "co_scoreboard co2 = co_scoreboard co1" using on' by (simp_all add: same_pipes_def)
  have warps: "warps_gain co0 ?ev co2"
    using S mv warp_moves_trans [of _ "co_warps co0 ! wid" "co_warps ?co ! wid" 1 "co_warps co2 ! wid"] len
    by (auto simp: warps_gain_def core_moves_def)
  have r: "reg < length (co_pipes ?co pipe)" "co_pipes ?co pipe ! reg = None" using get_free_free [OF free] by simp_all
  have pg: "pipes_gain co0 ?ev co2"
    using S r by (auto simp: pipes_gain_def same pipes contents_add nth_list_update)
  have tab: "reg_table (co_scoreboard co2) = (reg_table (co_scoreboard ?co))
      [wid := reg_table (co_scoreboard ?co) ! wid \<union> set (outs (base_inst inst))]"
    using reserve_effect [OF sb] S wid by (simp add: same board_gains_def)
  have "inst_regs (base_inst inst) \<inter> reg_table (co_scoreboard ?co) ! wid = {}"
    using np by (auto simp: nothing_pending_def checkCollision_def)
  then have bg: "board_gains co0 ?ev co2"
    using S wid tab by (auto simp: board_gains_def hazard_free_snoc all_outs_def nth_list_update)
  have iok: "issues_ok cfg wid ?ev"
    using S lim select_unit_differs [OF sel] by (auto simp: issues_ok_def distinct_adj_snoc last_map)
  obtain l where l: "su = (st_sched st)\<lparr>su_prioritized := l\<rparr> \<and> mset l = mset (su_prioritized (st_sched st)) \<and>
      (\<not> (\<exists>a b c. su_kind (st_sched st) = TWO_LEVEL a b c) \<longrightarrow> l = su_prioritized (st_sched st))"
    using on' by blast
  have "sched_moves su0 ?ev su" using S sched_moves_snoc [OF _ l] by blast
  then show ?thesis using S warps pg bg iok by (simp add: cycle_state_def)
qed

lemma cycle_state_try:
  assumes st: "cycle_state cfg co0 su0 wid st" and wid: "wid < length (co_warps co0)" "wid < length (reg_table (co_scoreboard co0))"
    and lim: "st_issued st < cc_max_insn_issue_per_warp cfg" and k: "k < length (su_prioritized su0)"
    and t: "try_warp exec cfg now wid k st = Some (go, st')"
  shows "cycle_state cfg co0 su0 wid st'"
proof -
  obtain l where l: "st_sched st = su0\<lparr>su_prioritized := l\<rparr>" "mset l = mset (su_prioritized su0)"
    using st by (auto simp: cycle_state_def sched_moves_def)
  then have k': "k < length (su_prioritized (st_sched st))" using k mset_eq_length [OF l(2)] by simp
  from t show ?thesis
  proof (cases rule: try_warp_cases)
    case (same v r)
    then show ?thesis using st by (simp add: cycle_state_def)
  next
    case (flush pc co)
    then show ?thesis using cycle_state_idle [OF st] flush_warp_moves by metis
  next
    case (cdp w lat dummy v r)
    have "cycle_state cfg co0 su0 wid (st\<lparr>st_core := upd_warp wid w (st_core st)\<rparr>)"
      unfolding cdp(1) by (rule cycle_state_idle [OF st launch_moves]) simp
    then show ?thesis unfolding cdp(2) by (simp add: cycle_state_def)
  next
    case (issue w inst am pipe u co1 co2 su lat dummy pc rpc)
    show ?thesis unfolding issue(12)
      by (rule cycle_state_issue [OF st wid lim issue(1,3,7,9,10,11) k'])
  qed
qed

text \<open>The whole cycle: no issue at all, or the issues of one warp of the list.\<close>

definition scheduled :: "scheduler \<Rightarrow> nat set" where
  "scheduled su = insert (su_current_turn_warp su) (set (su_prioritized su) \<union> set (su_supervised su) \<union> set (su_pending su))"

definition chosen :: "'x core \<Rightarrow> scheduler \<Rightarrow> nat \<Rightarrow> nat \<Rightarrow> bool" where
  "chosen co su k wid \<longleftrightarrow> k < length (su_prioritized su) \<and> wid < length (co_warps co) \<and>
     wid = unat (sw_warp_id (co_warps co ! (su_prioritized su ! k))) \<and> \<not> sw_done_exit (co_warps co ! (su_prioritized su ! k))"

lemma cycle_result:
  assumes c: "scheduler_cycle exec cfg now co su = Some st" and len: "length (reg_table (co_scoreboard co)) = length (co_warps co)"
    and su0: "order_warps cfg co su = Some su0" and rng: "\<forall>p \<in> set (su_prioritized su0). p < length (co_warps co)"
  obtains wid su1 where "issues_ok cfg wid (st_log st)" and "warps_gain co (st_log st) (st_core st)"
    and "pipes_gain co (st_log st) (st_core st)" and "board_gains co (st_log st) (st_core st)" and "sched_moves su0 (st_log st) su1"
    and "(if st_log st = [] then st_sched st = su1 else
      \<exists>k. chosen co su0 k wid \<and> st_sched st = note_issued k (length (st_log st)) su1)"
proof -
  define P where "P = (\<lambda>st :: 'a issue_state. st_log st = [] \<and> (\<forall>w. cycle_state cfg co su0 w (st\<lparr>st_issued := 0\<rparr>)))"
  define Q where "Q = (\<lambda>k wid st :: 'a issue_state. chosen co su0 k wid \<and> cycle_state cfg co su0 wid st)"
  let ?s0 = "\<lparr>st_core = co, st_sched = su0, st_issued = 0, st_prev = NONE, st_valid_inst = False, st_ready_inst = False, st_log = []\<rparr>"
  have t: "try_warps exec cfg now [0 ..< length (su_prioritized su0)] ?s0 = Some st"
    using c su0 by (simp add: scheduler_cycle_def)
  have P0: "P ?s0" by (simp add: P_def cycle_state_def issues_ok_def warps_gain_def pipes_gain_def board_gains_def sched_moves_refl
      issues_of_def issues_to_def all_outs_def)
  have enter: "Q k wid (st\<lparr>st_core := co', st_issued := 0, st_prev := NONE\<rparr>)"
    if "P st" "k \<in> set [0 ..< length (su_prioritized su0)]" "\<not> sw_done_exit (co_warps (st_core st) ! (su_prioritized (st_sched st) ! k))"
      "wid = unat (sw_warp_id (co_warps (st_core st) ! (su_prioritized (st_sched st) ! k)))" "wid < length (co_warps (st_core st))"
      "warp_waiting cfg (st_core st) wid = Some (b, co')" for st k wid b co'
  proof -
    have cs: "cycle_state cfg co su0 wid (st\<lparr>st_issued := 0\<rparr>)" and lg: "st_log st = []" using that(1) by (simp_all add: P_def)
    then have ss: "st_sched st = su0" and wg: "warps_gain co [] (st_core st)" by (simp_all add: cycle_state_def sched_moves_def)
    have "su_prioritized su0 ! k < length (co_warps co)" using rng that(2) by simp
    then have "chosen co su0 k wid" using wg that(2-5) ss by (auto simp: chosen_def warps_gain_def warp_moves_def)
    moreover have "cycle_state cfg co su0 wid (st\<lparr>st_issued := 0, st_core := co'\<rparr>)"
      using cycle_state_idle [OF cs, of wid co'] waiting_moves [OF that(6)] by simp
    ultimately show ?thesis using lg by (simp add: Q_def cycle_state_def)
  qed
  have wait: "Q k wid (st\<lparr>st_core := co'\<rparr>)" if "Q k wid st" "warp_waiting cfg (st_core st) wid = Some (b, co')" for k wid st b co'
    using that cycle_state_idle waiting_moves unfolding Q_def by blast
  have step: "Q k wid st'" if "Q k wid st" "st_issued st < cc_max_insn_issue_per_warp cfg" "try_warp exec cfg now wid k st = Some (go, st')"
    for k wid st go st'
    using that cycle_state_try [OF _ _ _ that(2) _ that(3)] len unfolding Q_def chosen_def by auto
  have ret: "P st" if "Q k wid st" "st_issued st = 0" for k wid st
    using that by (auto simp: P_def Q_def cycle_state_def issues_ok_def)
  have "P st \<or> (\<exists>k wid st1. k \<in> set [0 ..< length (su_prioritized su0)] \<and> Q k wid st1 \<and> 0 < st_issued st1 \<and>
      st = st1\<lparr>st_sched := note_issued k (st_issued st1) (st_sched st1)\<rparr>)"
    by (rule try_warps_inv [where P = P and Q = Q, OF t P0], (erule (5) enter), (erule (1) wait), (erule (2) step), (erule (1) ret))
  then consider "P st" | k wid st1 where "Q k wid st1" "0 < st_issued st1" "st = st1\<lparr>st_sched := note_issued k (st_issued st1) (st_sched st1)\<rparr>"
    by blast
  then show ?thesis
  proof cases
    case 1
    then show ?thesis using that [of 0 "st_sched st"] by (auto simp: P_def cycle_state_def)
  next
    case 2
    then have "st_log st1 \<noteq> []" "length (st_log st1) = st_issued st1" by (auto simp: Q_def cycle_state_def)
    moreover have "\<exists>k'. chosen co su0 k' wid \<and> st_sched st = note_issued k' (length (st_log st)) (st_sched st1)"
      using 2 calculation by (intro exI [of _ k]) (simp add: Q_def)
    ultimately show ?thesis using 2 that [of wid "st_sched st1"] by (simp add: Q_def cycle_state_def)
  qed
qed

end
