(* ===== verification/Scheduler_Properties.thy ===== *)
theory Scheduler_Properties
  imports Scheduler_Flow
begin

text \<open>
  What the warp schedulers promise: which warp issues, how many instructions, with which hazards excluded, and
  the order in which each of the policies tries the warps.
\<close>

section \<open>Sorting\<close>

lemma mset_std_sort [simp]: "mset (std_sort before xs) = mset xs"
proof -
  have ins: "mset (insert_by before x ys) = add_mset x (mset ys)" for x ys by (induction ys) simp_all
  show ?thesis by (induction xs) (simp_all add: std_sort_def ins)
qed

lemma set_std_sort [simp]: "set (std_sort before xs) = set xs"
  by (rule mset_eq_setD) simp

lemma length_std_sort [simp]: "length (std_sort before xs) = length xs"
  by (rule mset_eq_length) simp

lemma distinct_std_sort [simp]: "distinct (std_sort before xs) = distinct xs"
  by (rule mset_eq_imp_distinct_iff) simp

lemma std_sort_sorted:
  assumes asym: "\<And>x y. before x y \<Longrightarrow> \<not> before y x" and trans: "\<And>x y z. \<not> before z y \<Longrightarrow> \<not> before y x \<Longrightarrow> \<not> before z x"
  shows "sorted_wrt (\<lambda>x y. \<not> before y x) (std_sort before xs)"
proof -
  have set: "set (insert_by before x ys) = insert x (set ys)" for x ys by (induction ys) auto
  have ins: "sorted_wrt (\<lambda>x y. \<not> before y x) ys \<Longrightarrow> sorted_wrt (\<lambda>x y. \<not> before y x) (insert_by before x ys)" for x ys
  proof (induction ys)
    case (Cons y ys)
    then have "\<not> before z x" if "\<not> before y x" "z \<in> set ys" for z using trans [of z y x] that by simp
    then show ?case using Cons asym [of y x] by (simp add: set)
  qed simp
  show ?thesis by (induction xs) (simp_all add: std_sort_def ins)
qed

text \<open>The order of the schedulers: the warps that may run, by their dynamic number, before the others.\<close>

lemma older_sorted: "sorted_wrt (\<lambda>p q. \<not> older cfg co q p) (std_sort (older cfg co) ps)"
  by (rule std_sort_sorted) (auto simp: older_def split: if_splits)

lemma not_older: "\<not> older cfg co q p \<Longrightarrow> may_run cfg co q = Some True \<Longrightarrow>
    may_run cfg co p = Some True \<and> sw_dynamic_warp_id (co_warps co ! p) \<le> sw_dynamic_warp_id (co_warps co ! q)"
  by (auto simp: older_def split: if_splits)

section \<open>The warps of an order are those of the scheduler\<close>

lemma after_last_subset: "n \<le> length xs \<Longrightarrow> set (after_last xs pos n) \<subseteq> set xs"
  by (cases "xs = []") (auto simp: after_last_def Let_def)

lemma find_runnable_in: "find_runnable cfg co ps = Some (Some p) \<Longrightarrow> p \<in> set ps"
  by (induction ps) (auto simp: bind_eq_Some_conv split: if_splits)

lemma demote_mset: "demote cfg co ps = Some (active, moved) \<Longrightarrow> mset ps = mset active + mset moved"
  by (induction ps arbitrary: active moved) (auto simp: bind_eq_Some_conv split: if_splits)

lemma order_by_priority_subset:
  assumes "order_by_priority before greedy xs pos n = Some l"
  shows "set l \<subseteq> set xs"
proof -
  have "set (take n (std_sort before xs)) \<subseteq> set xs" using set_take_subset [of n "std_sort before xs"] by simp
  then show ?thesis using assms by (auto simp: order_by_priority_def Let_def bind_eq_Some_conv split: if_splits)
qed

lemma order_two_level_mset:
  assumes "order_two_level cfg co su max_active outer = Some su'"
  shows "mset (su_prioritized su') + mset (su_pending su') = mset (su_prioritized su) + mset (su_pending su)"
    and "length (su_prioritized su') = length (su_prioritized su)"
proof -
  obtain active moved where d: "demote cfg co (su_prioritized su) = Some (active, moved)"
    and n: "max_active - length active = length moved" and le: "length moved \<le> length (su_pending su @ moved)"
    and su': "su' = su\<lparr>su_prioritized := active @ take (length moved) (su_pending su @ moved), su_pending := drop (length moved) (su_pending su @ moved)\<rparr>"
    using assms by (auto simp: order_two_level_def Let_def bind_eq_Some_conv simp del: take_append drop_append)
  note m = demote_mset [OF d]
  let ?p = "su_pending su @ moved"
  have "mset (take (length moved) ?p) + mset (drop (length moved) ?p) = mset ?p"
    using mset_append [of "take (length moved) ?p" "drop (length moved) ?p"] by (simp only: append_take_drop_id)
  then show "mset (su_prioritized su') + mset (su_pending su') = mset (su_prioritized su) + mset (su_pending su)"
    unfolding su' using m by (simp del: take_append drop_append add: ac_simps)
  show "length (su_prioritized su') = length (su_prioritized su)"
    unfolding su' using arg_cong [OF m, of size] le by simp
qed

lemma order_rrr_subset:
  assumes "order_rrr cfg co su = Some su'"
  shows "set (su_prioritized su') \<subseteq> scheduled su"
proof -
  have "p \<in> set (su_supervised su)"
    if "find_runnable cfg co (after_last (su_supervised su) (su_last su) (length (su_supervised su))) = Some (Some p)" for p
    using find_runnable_in [OF that] after_last_subset [of "length (su_supervised su)" "su_supervised su"] by blast
  then show ?thesis using assms by (auto simp: order_rrr_def scheduled_def bind_eq_Some_conv split: if_splits option.splits)
qed

lemma order_warps_subset:
  assumes "order_warps cfg co su = Some su'"
  shows "set (su_prioritized su') \<subseteq> scheduled su"
proof (cases "su_kind su")
  case (TWO_LEVEL m i l)
  then have "order_two_level cfg co su m l = Some su'" using assms by (simp add: order_warps_def)
  from order_two_level_mset(1) [OF this, THEN arg_cong [where f = set_mset]] show ?thesis by (auto simp: scheduled_def)
next
  case LRR
  then show ?thesis using assms after_last_subset [of "length (su_supervised su)" "su_supervised su" "su_last su"]
    by (auto simp: order_warps_def Let_def order_lrr_def scheduled_def)
qed (use assms in \<open>auto simp: order_warps_def Let_def scheduled_def dest!: order_by_priority_subset order_rrr_subset\<close>)

section \<open>Issue\<close>

text \<open>
  C4: a cycle of a scheduler issues instructions of at most one warp, one of its own that has not exited, and
  not more than the limit, to different units in turn where that is required. Each goes to a free register of
  its pipe, so that the register sets keep what they had and gain the issued instructions. None names a register
  that is pending in the scoreboard or written by an instruction issued before it, and the scoreboard reserves
  their destinations. The warp's count of issued instructions grows by their number, and no other warp's changes.
\<close>

theorem cycle_issues:
  assumes cycle: "scheduler_cycle exec cfg now co su = Some st" and tables: "length (reg_table (co_scoreboard co)) = length (co_warps co)"
    and warps: "\<forall>p \<in> scheduled su. p < length (co_warps co)"
  shows "(\<exists>wid. (\<forall>(w, _) \<in> set (st_log st). w = wid) \<and> length (st_log st) \<le> cc_max_insn_issue_per_warp cfg \<and>
      (cc_dual_issue_diff_exec_units cfg \<longrightarrow> distinct_adj (map (\<lambda>(_, _, _, u). u) (st_log st))) \<and>
      (st_log st \<noteq> [] \<longrightarrow> wid < length (co_warps co) \<and>
         (\<exists>p \<in> scheduled su. wid = unat (sw_warp_id (co_warps co ! p)) \<and> \<not> sw_done_exit (co_warps co ! p)))) \<and>
    (\<forall>x. contents (co_pipes (st_core st) x) = contents (co_pipes co x) + mset (issues_to x (st_log st)) \<and>
      (\<forall>i y. i < length (co_pipes co x) \<longrightarrow> co_pipes co x ! i = Some y \<longrightarrow> co_pipes (st_core st) x ! i = Some y)) \<and>
    (\<forall>w < length (co_warps co). let sent = issues_of w (st_log st); T = reg_table (co_scoreboard co) ! w in
      hazard_free T sent \<and> reg_table (co_scoreboard (st_core st)) ! w = T \<union> all_outs sent \<and>
      (warp_ok (co_warps co ! w) \<longrightarrow> warp_ok (co_warps (st_core st) ! w) \<and>
         num_issued_inst_in_pipeline (co_warps (st_core st) ! w) = num_issued_inst_in_pipeline (co_warps co ! w) + length sent))"
    (is "?one \<and> ?pipes \<and> ?warps")
proof -
  obtain su0 where su0: "order_warps cfg co su = Some su0" using cycle by (auto simp: scheduler_cycle_def bind_eq_Some_conv)
  note sub = order_warps_subset [OF su0]
  then have rng: "\<forall>p \<in> set (su_prioritized su0). p < length (co_warps co)" using warps by blast
  from cycle_result [OF cycle tables su0 rng] obtain wid su1 where ok: "issues_ok cfg wid (st_log st)"
    and w: "warps_gain co (st_log st) (st_core st)" and p: "pipes_gain co (st_log st) (st_core st)" and b: "board_gains co (st_log st) (st_core st)"
    and s: "if st_log st = [] then st_sched st = su1 else \<exists>k. chosen co su0 k wid \<and> st_sched st = note_issued k (length (st_log st)) su1" .
  have "wid < length (co_warps co) \<and> (\<exists>p \<in> scheduled su. wid = unat (sw_warp_id (co_warps co ! p)) \<and> \<not> sw_done_exit (co_warps co ! p))"
    if "st_log st \<noteq> []"
    using s that sub by (auto simp: chosen_def intro!: bexI [OF _ subsetD [OF sub nth_mem]])
  then have ?one using ok unfolding issues_ok_def by blast
  moreover have ?pipes using p unfolding pipes_gain_def .
  moreover have ?warps using b w tables by (simp add: board_gains_def warps_gain_def warp_moves_def)
  ultimately show ?thesis by blast
qed

section \<open>Round robin\<close>

text \<open>The scheduler finds the warp that issued in its list.\<close>

lemma found_position:
  assumes "distinct xs" and "j < length xs"
  shows "foldl (\<lambda>pos i. if xs ! i = xs ! j then i else pos) p0 [0 ..< length xs] = j"
proof -
  have "foldl (\<lambda>pos i. if xs ! i = xs ! j then i else pos) p0 [0 ..< n] = (if j < n then j else p0)" if "n \<le> length xs" for n
    using that assms by (induction n) (auto simp: nth_eq_iff_index_eq)
  then show ?thesis using assms(2) by simp
qed

definition lrr_list :: "scheduler \<Rightarrow> nat list" where
  "lrr_list su = rotate (if su_last su = length (su_supervised su) then 0 else Suc (su_last su)) (su_supervised su)"

lemma order_warps_lrr:
  "su_kind su = LRR \<Longrightarrow> su_last su \<le> length (su_supervised su) \<Longrightarrow> order_warps cfg co su = Some (su\<lparr>su_prioritized := lrr_list su\<rparr>)"
  by (simp add: order_warps_def order_lrr_def after_last_all lrr_list_def)

lemma lrr_list_issued:
  assumes "distinct (su_supervised su)" and k: "k < length (su_supervised su)" and p: "su_prioritized su = lrr_list su"
  shows "lrr_list (note_issued k n su) = rotate (Suc k) (lrr_list su)" and "su_last (note_issued k n su) < length (su_supervised su)"
proof -
  let ?xs = "su_supervised su"
  obtain start where s: "lrr_list su = rotate start ?xs" by (simp add: lrr_list_def)
  let ?j = "(start + k) mod length ?xs"
  have j: "?j < length ?xs" using k by (cases ?xs) simp_all
  have "su_prioritized su ! k = ?xs ! ?j" unfolding p s using k by (simp add: nth_rotate add.commute)
  then have last: "su_last (note_issued k n su) = ?j" using found_position [OF assms(1) j] by (simp add: note_issued_def)
  then show "su_last (note_issued k n su) < length ?xs" using j by simp
  have "lrr_list (note_issued k n su) = rotate (Suc ?j) ?xs" using last j by (simp add: lrr_list_def note_issued_def)
  also have "\<dots> = rotate (Suc k + start) ?xs"
    using rotate_conv_mod [of "Suc ?j" ?xs] rotate_conv_mod [of "Suc k + start" ?xs] by (simp add: mod_simps add.commute)
  also have "\<dots> = rotate (Suc k) (lrr_list su)" by (simp only: s rotate_rotate)
  finally show "lrr_list (note_issued k n su) = rotate (Suc k) (lrr_list su)" .
qed

text \<open>
  C13: the loose round robin is fair. After a cycle in which the warp at position \<open>k\<close> of the list issued, the list
  of the next cycle is the list turned so that this warp is its end: each warp behind it has moved \<open>k + 1\<close> places
  to the front, and the warps that could not issue come before it. A cycle without an issue leaves the list as it is.
\<close>

theorem lrr_rotates:
  assumes cycle: "scheduler_cycle exec cfg now co su = Some st" and tables: "length (reg_table (co_scoreboard co)) = length (co_warps co)"
    and warps: "\<forall>p \<in> scheduled su. p < length (co_warps co)" and lrr: "su_kind su = LRR" "su_last su \<le> length (su_supervised su)"
    and dist: "distinct (su_supervised su)"
  shows "\<exists>l. order_warps cfg co su = Some (su\<lparr>su_prioritized := l\<rparr>) \<and> mset l = mset (su_supervised su) \<and>
    (if st_log st = [] then map_option su_prioritized (order_warps cfg co' (st_sched st)) = Some l
     else \<exists>k < length l. (\<forall>(w, _) \<in> set (st_log st). w = unat (sw_warp_id (co_warps co ! (l ! k)))) \<and>
       map_option su_prioritized (order_warps cfg co' (st_sched st)) = Some (drop (Suc k) l @ take (Suc k) l))"
proof (intro exI conjI)
  let ?l = "lrr_list su" and ?su = "su\<lparr>su_prioritized := lrr_list su\<rparr>"
  have len: "length ?l = length (su_supervised su)" by (simp add: lrr_list_def)
  show su0: "order_warps cfg co su = Some ?su" by (rule order_warps_lrr [OF lrr])
  show "mset ?l = mset (su_supervised su)" by (simp add: lrr_list_def)
  have rng: "\<forall>p \<in> set (su_prioritized ?su). p < length (co_warps co)" using order_warps_subset [OF su0] warps by blast
  from cycle_result [OF cycle tables su0 rng] obtain wid su1 where ok: "issues_ok cfg wid (st_log st)" and mv: "sched_moves ?su (st_log st) su1"
    and s: "if st_log st = [] then st_sched st = su1 else \<exists>k. chosen co ?su k wid \<and> st_sched st = note_issued k (length (st_log st)) su1" .
  have su1: "su1 = ?su" using mv lrr(1) by (auto simp: sched_moves_def)
  have ls: "lrr_list ?su = ?l" by (simp add: lrr_list_def)
  have next_cycle: "map_option su_prioritized (order_warps cfg co' su2) = Some (lrr_list su2)"
    if "su_kind su2 = LRR" "su_last su2 \<le> length (su_supervised su2)" for su2
    using order_warps_lrr [OF that, of cfg co'] by simp
  show "if st_log st = [] then map_option su_prioritized (order_warps cfg co' (st_sched st)) = Some ?l
     else \<exists>k < length ?l. (\<forall>(w, _) \<in> set (st_log st). w = unat (sw_warp_id (co_warps co ! (?l ! k)))) \<and>
       map_option su_prioritized (order_warps cfg co' (st_sched st)) = Some (drop (Suc k) ?l @ take (Suc k) ?l)"
  proof (cases "st_log st = []")
    case True
    then have "st_sched st = ?su" using s su1 by simp
    then show ?thesis using True next_cycle [of ?su] lrr ls by simp
  next
    case False
    then obtain k where k: "chosen co ?su k wid" "st_sched st = note_issued k (length (st_log st)) ?su" using s su1 by auto
    then have k': "k < length ?l" by (simp add: chosen_def)
    note i = lrr_list_issued [of ?su k "length (st_log st)", simplified, OF dist]
    have "lrr_list (st_sched st) = rotate (Suc k) ?l" "su_last (st_sched st) < length (su_supervised su)"
      using i k' ls len unfolding k(2) by simp_all
    moreover have "su_kind (st_sched st) = LRR" "su_supervised (st_sched st) = su_supervised su" unfolding k(2) using lrr by (simp_all add: note_issued_def)
    moreover have "rotate (Suc k) ?l = drop (Suc k) ?l @ take (Suc k) ?l" using k'
      by (cases "Suc k = length ?l") (simp_all add: rotate_drop_take del: rotate_Suc)
    ultimately have "map_option su_prioritized (order_warps cfg co' (st_sched st)) = Some (drop (Suc k) ?l @ take (Suc k) ?l)"
      using next_cycle [of "st_sched st"] by simp
    moreover have "\<forall>(w, _) \<in> set (st_log st). w = unat (sw_warp_id (co_warps co ! (?l ! k)))"
      using ok k(1) by (auto simp: issues_ok_def chosen_def)
    ultimately show ?thesis using False k' by auto
  qed
qed

section \<open>Greedy then oldest\<close>

text \<open>
  C14: greedy then oldest: the list starts with the warp that issued last, and holds every other warp once. Of
  these the ones that may run come first, the lower dynamic number before the higher.
\<close>

theorem gto_order:
  assumes ord: "order_warps cfg co su = Some su0" and gto: "su_kind su = GTO" and dist: "distinct (su_supervised su)"
  shows "\<exists>greedy rest. su_prioritized su0 = greedy # rest \<and> greedy = su_supervised su ! su_last su \<and>
    distinct (greedy # rest) \<and> set (greedy # rest) = set (su_supervised su) \<and>
    sorted_wrt (\<lambda>p q. may_run cfg co q = Some True \<longrightarrow> may_run cfg co p = Some True \<and>
      sw_dynamic_warp_id (co_warps co ! p) \<le> sw_dynamic_warp_id (co_warps co ! q)) rest"
proof (intro exI conjI)
  let ?g = "su_supervised su ! su_last su" and ?ys = "std_sort (older cfg co) (su_supervised su)"
  let ?rest = "filter (\<lambda>x. x \<noteq> ?g) ?ys"
  have l: "su_last su < length (su_supervised su)" and su0: "su0 = su\<lparr>su_prioritized := ?g # ?rest\<rparr>"
    using ord gto by (auto simp: order_warps_def order_by_priority_def Let_def bind_eq_Some_conv)
  show "su_prioritized su0 = ?g # ?rest" and "?g = ?g" using su0 by simp_all
  show "distinct (?g # ?rest)" using dist by simp
  show "set (?g # ?rest) = set (su_supervised su)" using l by auto
  have "sorted_wrt (\<lambda>p q. may_run cfg co q = Some True \<longrightarrow> may_run cfg co p = Some True \<and>
      sw_dynamic_warp_id (co_warps co ! p) \<le> sw_dynamic_warp_id (co_warps co ! q)) ?ys"
    by (rule sorted_wrt_mono_rel [OF _ older_sorted]) (use not_older in blast)
  then show "sorted_wrt (\<lambda>p q. may_run cfg co q = Some True \<longrightarrow> may_run cfg co p = Some True \<and>
      sw_dynamic_warp_id (co_warps co ! p) \<le> sw_dynamic_warp_id (co_warps co ! q)) ?rest" by (rule sorted_wrt_filter)
qed

section \<open>Two levels\<close>

lemma demote_stalled:
  "demote cfg co ps = Some (active, moved) \<Longrightarrow> active = filter (\<lambda>p. stalled cfg co p = Some False) ps \<and>
     moved = filter (\<lambda>p. stalled cfg co p = Some True) ps"
  by (induction ps arbitrary: active moved) (auto simp: bind_eq_Some_conv split: if_splits)

text \<open>
  C15: the two-level scheduler keeps its warps: the active list and the pending list together hold each as often as
  before, the active list stays as long as it was, the active warps that are not stalled keep their places before
  the promoted ones, and the stalled ones are promoted again only when the pending list is used up. The promotion takes
  the pending warps in order, whether or not they still wait.
\<close>

theorem two_level_keeps:
  assumes ord: "order_warps cfg co su = Some su0" and two: "su_kind su = TWO_LEVEL max_active inner outer"
  shows "mset (su_prioritized su0) + mset (su_pending su0) = mset (su_prioritized su) + mset (su_pending su) \<and>
    length (su_prioritized su0) = length (su_prioritized su) \<and>
    (\<exists>promoted. su_prioritized su0 = filter (\<lambda>p. stalled cfg co p = Some False) (su_prioritized su) @ promoted \<and>
      promoted @ su_pending su0 = su_pending su @ filter (\<lambda>p. stalled cfg co p = Some True) (su_prioritized su))"
proof -
  have o: "order_two_level cfg co su max_active outer = Some su0" using ord two by (simp add: order_warps_def)
  then obtain active moved where d: "demote cfg co (su_prioritized su) = Some (active, moved)"
    and su0: "su0 = su\<lparr>su_prioritized := active @ take (length moved) (su_pending su @ moved), su_pending := drop (length moved) (su_pending su @ moved)\<rparr>"
    by (auto simp: order_two_level_def Let_def bind_eq_Some_conv simp del: take_append drop_append)
  have "su_prioritized su0 = active @ take (length moved) (su_pending su @ moved)"
    and "take (length moved) (su_pending su @ moved) @ su_pending su0 = su_pending su @ moved"
    using su0 by (simp_all del: take_append drop_append)
  then show ?thesis using order_two_level_mset [OF o] demote_stalled [OF d] by blast
qed

section \<open>An example\<close>

definition demo_cfg :: issue_config where
  "demo_cfg = \<lparr>cc_warp_size = 4, cc_sub_core_model = False, cc_max_insn_issue_per_warp = 2, cc_dual_issue_diff_exec_units = True,
     cc_num_sp_units = 1, cc_num_int_units = 1, cc_num_dp_units = 0, cc_num_sfu_units = 1, cc_num_tensor_core_units = 0,
     cc_specialized_units = [], cc_flush_l1 = False, cc_cdp_latency = []\<rparr>"

definition demo_inst :: "op_type \<Rightarrow> u64 \<Rightarrow> u32 \<Rightarrow> u32 \<Rightarrow> pipe_inst" where
  "demo_inst op pc dest src = \<lparr>i_op = op, i_memory_op = no_memory_op, i_space = undefined_space, i_out = [dest], i_outcount = 1, i_in = [src],
     i_incount = 1, i_pred = 0, i_ar1 = 0, i_ar2 = 0, i_warp_id = 0, wi_pc = pc, wi_isize = 8, wi_valid = True, wi_isatomic = False,
     wi_bar_type = NOT_BAR, wi_bar_id = 0, wi_bar_count = - 1, wi_is_cdp = 0, wi_is_ldgsts = False, wi_is_ldgdepbar = False,
     wi_is_depbar = False, wi_depbar_group_no = 0, wi_mask = 0, wi_uid = 0, wi_sch_id = 0\<rparr>"

definition demo_warp :: "u32 \<Rightarrow> pipe_inst list \<Rightarrow> shd_warp" where
  "demo_warp i is = \<lparr>sw_warp_size = 4, sw_warp_id = i, sw_dynamic_warp_id = i, sw_cta_id = 0, sw_streamID = 0, sw_next_pc = 24, sw_n_completed = 0,
     sw_active_threads = 15, sw_imiss_pending = False, sw_inst_at_barrier = None, sw_ibuffer = map (\<lambda>i. \<lparr>ib_inst = Some i, ib_valid = True\<rparr>) is,
     sw_next = 0, sw_n_atomic = 0, sw_membar = False, sw_done_exit = False, sw_last_fetch = 0, sw_stores_outstanding = 0,
     sw_inst_in_pipeline = 2, sw_cdp_latency = 0, sw_cdp_dummy = False, sw_ldgdepbar_id = 0, sw_ldgdepbar_buf = [], sw_depbar_start_id = 0,
     sw_depbar_group = 0, sw_waiting_ldgsts = False\<rparr>"

text \<open>Warp 0 waits for register 5; warp 1 can issue to the integer unit and then to the SP unit.\<close>

definition demo_core :: "unit core" where
  "demo_core = \<lparr>co_warps = [demo_warp 0 [demo_inst INTP_OP 8 1 5, demo_inst SP_OP 16 2 3], demo_warp 1 [demo_inst INTP_OP 8 1 5, demo_inst SP_OP 16 2 3]],
     co_scoreboard = \<lparr>reg_table = [{5}, {}], longopregs = [{}, {}]\<rparr>, co_simt_stacks = [simt_launch 8 15, simt_launch 8 15],
     co_barriers = demo_barriers, co_threads = (), co_pipes = (\<lambda>_. [None, None]), co_next_uid = 0, co_l1_invalidations = 0\<rparr>"

definition demo_exec :: "unit exec" where
  "demo_exec x i m w = (\<lparr>ex_done = 0, ex_next_pc = replicate 4 (wi_pc i + 8), ex_recvg_pc = - 1\<rparr>, x)"

definition demo_scheduler :: "scheduler_kind \<Rightarrow> scheduler" where
  "demo_scheduler k = \<lparr>su_kind = k, su_id = 0, su_prioritized = [0], su_supervised = [0, 1], su_last = 1, su_pending = [1],
     su_num_issued_last_cycle = 0, su_current_turn_warp = 0\<rparr>"

lemma demo_cycle: "map_option st_log (scheduler_cycle demo_exec demo_cfg 0 demo_core (demo_scheduler LRR)) =
    Some [(1, demo_inst INTP_OP 8 1 5, Int_out, INT_unit), (1, demo_inst SP_OP 16 2 3, Sp_out, SP)]"
  by code_simp

lemma demo_scheduled: "scheduled (demo_scheduler k) = {0, 1}"
  by (auto simp: scheduled_def demo_scheduler_def)

lemma demo_warps: "\<forall>p \<in> scheduled (demo_scheduler k). p < length (co_warps demo_core)"
    "length (reg_table (co_scoreboard demo_core)) = length (co_warps demo_core)"
  by (simp_all add: demo_scheduled demo_core_def)

theorem cycle_issues_witness:
  "\<exists>st. scheduler_cycle demo_exec demo_cfg 0 demo_core (demo_scheduler LRR) = Some st \<and>
     contents (co_pipes (st_core st) Int_out) = {#(1, 8)#} \<and> reg_table (co_scoreboard (st_core st)) ! 1 = {1, 2} \<and>
     num_issued_inst_in_pipeline (co_warps (st_core st) ! 1) = 2"
proof -
  obtain st where st: "scheduler_cycle demo_exec demo_cfg 0 demo_core (demo_scheduler LRR) = Some st"
    and l: "st_log st = [(1, demo_inst INTP_OP 8 1 5, Int_out, INT_unit), (1, demo_inst SP_OP 16 2 3, Sp_out, SP)]"
    using demo_cycle by auto
  have ok: "warp_ok (co_warps demo_core ! 1) \<and> num_issued_inst_in_pipeline (co_warps demo_core ! 1) = 0" by code_simp
  have o: "issues_of 1 (st_log st) = [demo_inst INTP_OP 8 1 5, demo_inst SP_OP 16 2 3]" "issues_to Int_out (st_log st) = [(1, 8)]"
    by (simp_all add: l issues_of_def issues_to_def demo_inst_def)
  have a: "all_outs [demo_inst INTP_OP 8 1 5, demo_inst SP_OP 16 2 3] = {1, 2}"
    by (auto simp: demo_inst_def all_outs_def outs_def base_inst_def inst_t.defs MAX_OUTPUT_VALUES_def)
  have c: "contents (co_pipes demo_core Int_out) = {#}" "reg_table (co_scoreboard demo_core) ! 1 = {}" "1 < length (co_warps demo_core)"
    by (simp_all add: demo_core_def contents_def map_filter_simps)
  note r = cycle_issues [OF st demo_warps(2,1)]
  from r [THEN conjunct2, THEN conjunct1] have "contents (co_pipes (st_core st) Int_out) = {#(1, 8)#}" using o(2) c(1) by simp
  moreover from r [THEN conjunct2, THEN conjunct2] c(3)
  have "reg_table (co_scoreboard (st_core st)) ! 1 = {1, 2} \<and> num_issued_inst_in_pipeline (co_warps (st_core st) ! 1) = 2"
    using o(1) a c(2) ok by (simp add: Let_def)
  ultimately show ?thesis using st by blast
qed

theorem lrr_rotates_witness:
  "\<exists>st. scheduler_cycle demo_exec demo_cfg 0 demo_core ((demo_scheduler LRR)\<lparr>su_last := 0\<rparr>) = Some st \<and>
     map_option su_prioritized (order_warps demo_cfg (st_core st) (st_sched st)) = Some [0, 1]"
proof -
  let ?su = "(demo_scheduler LRR)\<lparr>su_last := 0\<rparr>"
  have "map_option (\<lambda>st. map fst (st_log st)) (scheduler_cycle demo_exec demo_cfg 0 demo_core ?su) = Some [1, 1]" by code_simp
  then obtain st where st: "scheduler_cycle demo_exec demo_cfg 0 demo_core ?su = Some st" "map fst (st_log st) = [1, 1]" by auto
  then obtain x y where log: "st_log st = [(1, x), (1, y)]" by auto
  have w: "\<forall>p \<in> scheduled ?su. p < length (co_warps demo_core)" using demo_warps(1) by (simp add: scheduled_def)
  have k: "su_kind ?su = LRR" "su_last ?su \<le> length (su_supervised ?su)" "distinct (su_supervised ?su)"
    and o: "map_option su_prioritized (order_warps demo_cfg demo_core ?su) = Some [1, 0]"
    by (simp_all add: demo_scheduler_def order_warps_def order_lrr_def after_last_def Let_def numeral_2_eq_2)
  have ids: "sw_warp_id (co_warps demo_core ! 0) = 0" "sw_warp_id (co_warps demo_core ! 1) = 1"
    by (simp_all add: demo_core_def demo_warp_def)
  from lrr_rotates [OF st(1) demo_warps(2) w k, of "st_core st"] obtain l where ol: "order_warps demo_cfg demo_core ?su = Some (?su\<lparr>su_prioritized := l\<rparr>)"
    and r: "\<exists>k < length l. (\<forall>(w, _) \<in> set (st_log st). w = unat (sw_warp_id (co_warps demo_core ! (l ! k)))) \<and>
       map_option su_prioritized (order_warps demo_cfg (st_core st) (st_sched st)) = Some (drop (Suc k) l @ take (Suc k) l)"
    unfolding log by auto
  have l: "l = [1, 0]" using o ol by simp
  show ?thesis using r st(1) ids unfolding l log by (auto simp: less_Suc_eq)
qed

theorem gto_order_witness:
  "\<exists>su0. order_warps demo_cfg demo_core (demo_scheduler GTO) = Some su0 \<and> su_prioritized su0 = [1, 0]"
proof -
  have "order_warps demo_cfg demo_core (demo_scheduler GTO) \<noteq> None" by code_simp
  then obtain su0 where su0: "order_warps demo_cfg demo_core (demo_scheduler GTO) = Some su0" by auto
  have s: "su_kind (demo_scheduler GTO) = GTO" "distinct (su_supervised (demo_scheduler GTO))" "su_supervised (demo_scheduler GTO) = [0, 1]"
    "su_last (demo_scheduler GTO) = 1"
    by (simp_all add: demo_scheduler_def)
  from gto_order [OF su0 s(1,2)] obtain rest where r: "su_prioritized su0 = 1 # rest" "distinct (1 # rest)" "set (1 # rest) = {0, 1}"
    unfolding s by auto
  then have "distinct rest" "set rest = {0}" by auto
  then have "rest = [0]" by (cases rest; cases "tl rest") auto
  then show ?thesis using su0 r(1) by simp
qed

theorem two_level_keeps_witness:
  "\<exists>su0. order_warps demo_cfg demo_core (demo_scheduler (TWO_LEVEL 1 0 1)) = Some su0 \<and> length (su_prioritized su0) = 1 \<and>
     su_prioritized su0 @ su_pending su0 = [0, 1]"
proof -
  have c: "order_warps demo_cfg demo_core (demo_scheduler (TWO_LEVEL 1 0 1)) \<noteq> None"
    "filter (\<lambda>p. stalled demo_cfg demo_core p = Some False) [0] = [0]" "filter (\<lambda>p. stalled demo_cfg demo_core p = Some True) [0] = []"
    by code_simp+
  then obtain su0 where su0: "order_warps demo_cfg demo_core (demo_scheduler (TWO_LEVEL 1 0 1)) = Some su0" by auto
  have s: "su_kind (demo_scheduler (TWO_LEVEL 1 0 1)) = TWO_LEVEL 1 0 1" "su_prioritized (demo_scheduler (TWO_LEVEL 1 0 1)) = [0]"
    "su_pending (demo_scheduler (TWO_LEVEL 1 0 1)) = [1]"
    by (simp_all add: demo_scheduler_def)
  from two_level_keeps [OF su0 s(1)] show ?thesis unfolding s c(2,3) using su0 by auto
qed

section \<open>The limit of the static wavefront limiter\<close>

text \<open>
  When the warp that issued last is not among the first \<open>limit\<close> warps of the order, the list has one more warp
  than the limit: \<^verbatim>\<open>order_by_priority\<close> adds it before it counts the others.
\<close>

lemma swl_exceeds_limit:
  assumes ord: "order_warps cfg co su = Some su0" and swl: "su_kind su = SWL limit" "limit \<le> length (su_supervised su)"
    and out: "su_supervised su ! su_last su \<notin> set (take limit (std_sort (older cfg co) (su_supervised su)))"
  shows "length (su_prioritized su0) = Suc limit"
proof -
  let ?g = "su_supervised su ! su_last su" and ?t = "take limit (std_sort (older cfg co) (su_supervised su))"
  have "filter (\<lambda>x. x \<noteq> ?g) ?t = ?t" using out by (intro filter_True) blast
  moreover have "su_prioritized su0 = ?g # filter (\<lambda>x. x \<noteq> ?g) ?t"
    using ord swl by (auto simp: order_warps_def order_by_priority_def Let_def bind_eq_Some_conv min_def split: if_splits)
  ultimately show ?thesis using swl(2) by simp
qed

text \<open>With fewer warps than active places, the two-level scheduler takes warps from an empty pending list.\<close>

lemma two_level_too_few:
  assumes "su_kind su = TWO_LEVEL max_active inner outer" and "length (su_prioritized su) + length (su_pending su) < max_active"
  shows "order_warps cfg co su = None"
proof (rule ccontr)
  assume "order_warps cfg co su \<noteq> None"
  then obtain su0 where o: "order_two_level cfg co su max_active outer = Some su0" using assms(1) by (auto simp: order_warps_def)
  then obtain active moved where d: "demote cfg co (su_prioritized su) = Some (active, moved)"
    and "max_active - length active \<le> length (su_pending su @ moved)"
    by (auto simp: order_two_level_def Let_def bind_eq_Some_conv)
  then show False using assms(2) arg_cong [OF demote_mset [OF d], of size] by simp
qed

text \<open>An instruction \<^verbatim>\<open>ALU_SFU_OP\<close> never goes to the special function unit, although its branch asks for it.\<close>

lemma alu_sfu_not_sfu: "select_unit cfg co sch prev ALU_SFU_OP = Some (Some (pipe, u)) \<Longrightarrow> u \<noteq> SFU"
  by (auto simp: select_unit_def spec_unit_def Let_def bind_eq_Some_conv split: if_splits)

end
