(* ===== verification/Spec2Isabelle.thy ===== *)
theory Spec2Isabelle
  imports Cache_Stats Tag_Properties Cache_Properties Scoreboard Simt_Properties Fifo_Ring Delay_Queue Addr_Properties Shared_Memory Dram_Properties Xbar_Properties Partition_Properties Scheduler_Properties
begin

text \<open>
  A model of the timing core of GPGPU-Sim (\<^verbatim>\<open>src/gpgpu-sim\<close> and \<^verbatim>\<open>src/abstract_hardware_model\<close>), with the
  theorems that make its parts correct.

  \<^bold>\<open>The program.\<close> A shader core holds warps. In every cycle its schedulers pick warps in the order of a policy and
  issue their next instructions to the pipeline registers, unless the scoreboard shows a pending write to one of their
  registers; a SIMT stack per warp tells which lanes run and where they meet again, and a barrier set holds the warps of
  a CTA back. The coalescer turns the addresses of a memory instruction into transactions; the L1 data cache looks them
  up in its tag array, merges misses in its MSHRs and sends requests through a crossbar. The address decoder names the
  memory sub-partition of a request; there it waits for the fixed delay of the raster-operation units, is broken
  down into sectors and looked up in the L2 cache; what misses takes a credit, passes the fixed DRAM latency and enters
  the DRAM channel, whose first-ready scheduler hands requests to the banks and whose counters space the commands.
  Replies go back the same way.

  \<^bold>\<open>The theories\<close>, in the order of their imports; the files of the source are those under \<^verbatim>\<open>src/\<close> unless named otherwise.

  \<^item> \<open>Sim_Prelude\<close>: machine integers, bit sets, failures, generic lemmas, and three contracts: \<open>step_system\<close> (an invariant
    kept by every event), \<open>live_system\<close> (an event that its side condition admits also succeeds), \<open>bounded_fifo\<close>.
    \<open>Std_Map\<close>: \<^verbatim>\<open>std::map\<close> as a sorted list of pairs.
  \<^item> \<open>Cache_Types\<close>, \<open>Cache_Config\<close>, \<open>Cache_Block\<close>, \<open>Set_Index\<close>, \<open>Mem_Fetch\<close> (gpgpu-sim/gpu-cache.h, gpu-cache.cc, hashing.cc,
    mem_fetch.cc, mem_fetch.h): enumerations, configuration strings, the two kinds of cache block behind one interface
    (\<open>cache_block_iface\<close>), the hash functions of the sets (\<open>set_mapping\<close>, \<open>indexed_config\<close>), requests and their heap.
  \<^item> \<open>Tag_Array\<close> (state and operations of \<^verbatim>\<open>tag_array\<close>), \<open>Tag_Lookup\<close> (what \<^verbatim>\<open>probe\<close> returns), \<open>Tag_Effects\<close> (every operation
    replaces at most one line; the dirty counter moves with it), \<open>Tag_Properties\<close> (reachable tag arrays).
  \<^item> \<open>Mshr_Table\<close>, \<open>Cache_Stats\<close>, \<open>Baseline_Cache\<close>, \<open>Data_Cache\<close>: the cache controllers, with every write-hit and write-miss
    policy. \<open>Cache_Traffic\<close> breaks each access into elementary moves; \<open>Cache_Flight\<close>, \<open>Cache_Safety\<close> and \<open>Cache_Tags\<close> show what
    the moves keep (requests in flight, queue bound, tags); \<open>Cache_Properties\<close> states it over all interleavings.
  \<^item> \<open>Instruction\<close>, \<open>Scoreboard\<close> (scoreboard.cc), \<open>Simt_Stack\<close> and \<open>Simt_Properties\<close> (\<^verbatim>\<open>simt_stack\<close>), \<open>Coalescer\<close>,
    \<open>Coalescer_Properties\<close> and \<open>Shared_Memory\<close> (\<^verbatim>\<open>warp_inst_t::generate_mem_accesses\<close>): abstract_hardware_model.cc and .h.
  \<^item> \<open>Barrier_Set\<close>, \<open>Shader_Warp\<close>, \<open>Warp_Scheduler\<close>, \<open>Scheduler_Flow\<close>, \<open>Scheduler_Properties\<close> (gpgpu-sim/shader.cc, shader.h):
    barriers, warps with their instruction buffers, the six scheduling policies and \<^verbatim>\<open>scheduler_unit::cycle\<close> with the issue.
  \<^item> \<open>Fifo_Ring\<close>, \<open>Delay_Queue\<close> (gpu-cache.h, delayqueue.h): the two queues of the memory side.
  \<^item> \<open>Addr_Decode\<close>, \<open>Addr_Properties\<close> (addrdec.cc); \<open>Local_Xbar\<close>, \<open>Xbar_Flow\<close>, \<open>Xbar_Properties\<close> (local_interconnect.cc).
  \<^item> \<open>Dram_Sched\<close> (dram_sched.cc), \<open>Dram\<close> (dram.cc, the delays of gpu-sim.h), \<open>Dram_Timing\<close> (distances between commands, rows),
    \<open>Dram_Flow\<close> (where each request is), \<open>Dram_Properties\<close>.
  \<^item> \<open>Sub_Partition\<close>, \<open>Mem_Partition\<close> (l2cache.cc), \<open>Partition_Credits\<close>, \<open>Partition_Flow\<close>, \<open>Partition_Properties\<close>.

  \<^bold>\<open>How state and operations correspond.\<close> A class is a record with the fields of the source that its operations read or
  write; a method is a function from the state to an option of the new state and its result. \<open>None\<close> is a failed assertion,
  an \<^verbatim>\<open>abort\<close>, an access out of range or a null pointer, so that a theorem that a run has a value \<open>Some\<close> says that no
  assertion of the code trips. \<^verbatim>\<open>unsigned\<close> and \<^verbatim>\<open>unsigned long long\<close> are words where they may wrap, and natural numbers
  where they index or count entries of a list. A heap maps pointers to requests where the code shares them. An
  iterator into the row lists of the DRAM scheduler is the number of its request. Single precision is \<open>f32_round\<close> on
  rationals, exact in the range of the percentages.

  \<^bold>\<open>What is shown.\<close> The claims carry the labels C1 to C40 in the texts before them. In the order of the data path:

  \<^item> Core: an issue respects the limit, the owner, the scoreboard and the pipeline registers (C4); the orders of the policies
    (C13, C14, C15); the scoreboard is exactly the history of issues and write-backs and never aborts (C21, C29); the
    SIMT stack stays nested, loses no thread, sends each to its own next program counter, and its grouping ends (C19, C20,
    C30); the warps of a CTA meet at its barriers (C5).
  \<^item> Coalescer: every thread is served, by transactions no larger than needed, atomically without overlap (C37 to C39), and
    the cycles of a shared-memory access are its bank conflicts, with full and with limited broadcast (C40).
  \<^item> Caches: the choice of set, hit and victim (C32, C23, C24), the tag invariant and the dirty counter (C17, C18, C28), the
    MSHR protocol (C27), fills and failures (C25, C26), and the controllers over all interleavings (C16).
  \<^item> Transport: queues (C22, C31), crossbar (C11, C12), decoder (C34 to C36).
  \<^item> Memory side: credits (C6, C7), sector requests (C33), the scheduler (C8, C9), conservation, timing and rows of the channel
    (C1 to C3), bank groups (C10).

  A statement about runs quantifies over all sequences of events that the side condition of the component
  (\<open>run_ok\<close> of its interpretation of \<open>live_system\<close> or \<open>step_system\<close>) admits; the side conditions are what the callers in the
  source respect, such as asking for room before a push. Each claim has a witness on a concrete configuration. Lemmas that
  show a behaviour the code does not mean to have stand in the sections on what the model shows of the code.

  \<^bold>\<open>The limits of the claims.\<close> C9 is about a channel without a separate write queue, C20 about branches that
  reconverge at the enclosing point when a side leads straight to it, C26 about allocate-on-miss caches with ASSOC
  MSHRs, C33 about requests that are not of 32, 64 or 128 bytes, C35 and C36 about consecutive or custom partition indexing with
  a power of two of channels, C37 and C38 about non-atomic accesses to global and local memory. C17 covers the fills of lines that no flush
  has cleared since their miss, and counts the fills that lose a write.

  \<^bold>\<open>Bounds and fuel.\<close> Loops of the source are structural recursions over the lists they visit, or functions with a termination
  proof; no definition uses fuel. \<open>path_loop\<close> and \<open>group_paths\<close> of the SIMT stack end because every pass takes lanes out
  of a finite mask; \<open>dq_pad\<close> and \<open>dq_trim\<close> by the distance of the length to the minimum. A warp has 32 lanes, a line 4
  sectors and 128 bytes, a core at most 64 warps in the barrier masks, as in the constants of the source.

  \<^bold>\<open>Parameters.\<close> The functional execution of an instruction, the random table of the decoder, the answer of a port that is
  full, and the network below the cache are arguments of the definitions that use them.

  \<^bold>\<open>Not modelled.\<close> The fetch, decode, operand-collector and execution stages of the core and its load-store unit; the texture
  cache beyond its ring buffer; kernel launch and the clock domains; the functional simulator (PTX); the BookSim network,
  the power model and the host run time, which are third-party code, input and output, or bindings; and everywhere the members that
  only print or keep statistics for printing.
\<close>

end
